(* ===== verification/Prelude.thy ===== *)
theory Prelude
  imports Main "HOL-Library.AList" "HOL-Library.Sublist" "HOL-Library.Char_ord"
    "HOL-Library.List_Lexorder" "HOL-Library.Product_Lexorder"
begin

text \<open>
  The prelude of the development: results that may be errors, the pieces of the JavaScript
  standard library that the sources use (strings, insertion-ordered maps and sets, the
  collation behind \<^verbatim>\<open>localeCompare\<close>), and the generic lemmas every component
  proof relies on.

  \<^item> A thrown \<^verbatim>\<open>AccError\<close> is a value \<open>Inl (AccError code message)\<close>; the
    \<^verbatim>\<open>details\<close> object of an error is not represented.
  \<^item> A JavaScript string is a \<open>string\<close>: a list of 8-bit code units. Code units above
    255 are not represented.
  \<^item> A \<^verbatim>\<open>Map\<close> is an association list: \<open>map_of\<close> is \<^verbatim>\<open>get\<close>,
    \<open>AList.update\<close> is \<^verbatim>\<open>set\<close> (it replaces in place and appends a new key,
    as a JavaScript map does), \<open>AList.delete\<close> is \<^verbatim>\<open>delete\<close>.
  \<^item> A timestamp is its number of milliseconds since the epoch.
\<close>

section \<open>Errors and results\<close>

datatype exit_code = OK | USAGE | TIMEOUT | DATA | CONFLICT | ATTENTION

text \<open>The numeric slots of \<^verbatim>\<open>EXIT\<close>.\<close>

fun exit_number :: "exit_code \<Rightarrow> nat" where
  "exit_number OK = 0"
| "exit_number USAGE = 2"
| "exit_number TIMEOUT = 3"
| "exit_number DATA = 4"
| "exit_number CONFLICT = 5"
| "exit_number ATTENTION = 6"

text \<open>
  What an operation may throw: the project's own \<^verbatim>\<open>AccError\<close>, or an error of the
  JavaScript runtime (the \<^verbatim>\<open>RangeError\<close> of an invalid date, a plain \<^verbatim>\<open>Error\<close>).
\<close>

datatype acc_error = AccError exit_code string | JsError string

type_synonym 'a res = "acc_error + 'a"
type_synonym id = string
type_synonym time = int

named_theorems res_simps \<open>unfolding of results to their success and failure cases\<close>

definition bind_r :: "'a res \<Rightarrow> ('a \<Rightarrow> 'b res) \<Rightarrow> 'b res" where
  "bind_r m f = (case m of Inl e \<Rightarrow> Inl e | Inr x \<Rightarrow> f x)"

definition throw_if :: "bool \<Rightarrow> exit_code \<Rightarrow> string \<Rightarrow> unit res" where
  "throw_if c code msg = (if c then Inl (AccError code msg) else Inr ())"

lemma bind_r_Inl [simp]: "bind_r (Inl e) f = Inl e"
  by (simp add: bind_r_def)

lemma bind_r_Inr [simp]: "bind_r (Inr x) f = f x"
  by (simp add: bind_r_def)

lemma bind_r_eq_Inr [res_simps]:
  "bind_r m f = Inr y \<longleftrightarrow> (\<exists>x. m = Inr x \<and> f x = Inr y)"
  by (cases m) simp_all

lemma bind_r_eq_Inl [res_simps]:
  "bind_r m f = Inl e \<longleftrightarrow> m = Inl e \<or> (\<exists>x. m = Inr x \<and> f x = Inl e)"
  by (cases m) simp_all

lemma bind_r_assoc: "bind_r (bind_r m f) g = bind_r m (\<lambda>x. bind_r (f x) g)"
  by (cases m) simp_all

lemma throw_if_eq_Inr [res_simps, simp]: "throw_if c code msg = Inr u \<longleftrightarrow> \<not> c"
  by (simp add: throw_if_def)

lemma throw_if_eq_Inl [res_simps]:
  "throw_if c code msg = Inl e \<longleftrightarrow> c \<and> e = AccError code msg"
  by (auto simp: throw_if_def)

lemma throw_if_False [simp]: "throw_if False code msg = Inr ()"
  by (simp add: throw_if_def)

lemma throw_if_True [simp]: "throw_if True code msg = Inl (AccError code msg)"
  by (simp add: throw_if_def)

text \<open>\<^verbatim>\<open>Array.map\<close> with a function that may throw: the first error ends it.\<close>

fun map_r :: "('a \<Rightarrow> 'b res) \<Rightarrow> 'a list \<Rightarrow> 'b list res" where
  "map_r f [] = Inr []"
| "map_r f (x # xs) = bind_r (f x) (\<lambda>y. bind_r (map_r f xs) (\<lambda>ys. Inr (y # ys)))"

lemma map_r_eq_Inr: "map_r f xs = Inr ys \<longleftrightarrow> list_all2 (\<lambda>x y. f x = Inr y) xs ys"
  by (induction xs arbitrary: ys) (auto simp: bind_r_eq_Inr list_all2_Cons1)

lemma map_r_length: "map_r f xs = Inr ys \<Longrightarrow> length ys = length xs"
  by (simp add: map_r_eq_Inr list_all2_lengthD)

lemma map_r_mem:
  assumes "map_r f xs = Inr ys" and "y \<in> set ys"
  shows "\<exists>x \<in> set xs. f x = Inr y"
proof -
  from assms(1) have all: "list_all2 (\<lambda>x y. f x = Inr y) xs ys"
    by (simp add: map_r_eq_Inr)
  from assms(2) all obtain i where "i < length xs" "y = ys ! i" "f (xs ! i) = Inr (ys ! i)"
    by (auto simp: list_all2_conv_all_nth in_set_conv_nth)
  then show ?thesis by (metis nth_mem)
qed

lemma map_r_mem_rev:
  assumes "map_r f xs = Inr ys" and "x \<in> set xs"
  shows "\<exists>y \<in> set ys. f x = Inr y"
proof -
  from assms(1) have all: "list_all2 (\<lambda>x y. f x = Inr y) xs ys"
    by (simp add: map_r_eq_Inr)
  from assms(2) all obtain i where "i < length ys" "x = xs ! i" "f (xs ! i) = Inr (ys ! i)"
    by (auto simp: list_all2_conv_all_nth in_set_conv_nth)
  then show ?thesis by (metis nth_mem)
qed

text \<open>\<^verbatim>\<open>forEach\<close> with a function that may throw.\<close>

fun each_r :: "('a \<Rightarrow> unit res) \<Rightarrow> 'a list \<Rightarrow> unit res" where
  "each_r f [] = Inr ()"
| "each_r f (x # xs) = bind_r (f x) (\<lambda>_. each_r f xs)"

lemma each_r_ok [res_simps]: "each_r f xs = Inr () \<longleftrightarrow> (\<forall>x \<in> set xs. f x = Inr ())"
  by (induction xs) (auto simp: bind_r_eq_Inr)

section \<open>Maps\<close>

text \<open>Association lists are read through \<open>map_of\<close>, never through their elements.\<close>

declare map_of_eq_Some_iff [simp del] Some_eq_map_of_iff [simp del]

section \<open>Strings\<close>

definition starts_with :: "string \<Rightarrow> string \<Rightarrow> bool" where
  "starts_with p s = (take (length p) s = p)"

definition ends_with :: "string \<Rightarrow> string \<Rightarrow> bool" where
  "ends_with p s = (length p \<le> length s \<and> drop (length s - length p) s = p)"

text \<open>\<^verbatim>\<open>s.slice(0, -n)\<close>.\<close>

definition drop_end :: "nat \<Rightarrow> string \<Rightarrow> string" where
  "drop_end n s = take (length s - n) s"

text \<open>\<^verbatim>\<open>s.indexOf(c)\<close>, with \<open>None\<close> for \<open>-1\<close>.\<close>

fun index_of :: "char \<Rightarrow> string \<Rightarrow> nat option" where
  "index_of c [] = None"
| "index_of c (x # xs) = (if x = c then Some 0 else map_option Suc (index_of c xs))"

text \<open>\<^verbatim>\<open>s.replaceAll(a, b)\<close> for single characters.\<close>

definition replace_char :: "char \<Rightarrow> char \<Rightarrow> string \<Rightarrow> string" where
  "replace_char a b s = map (\<lambda>c. if c = a then b else c) s"

text \<open>\<^verbatim>\<open>s.split(c)\<close>: never the empty list.\<close>

fun split_on :: "char \<Rightarrow> string \<Rightarrow> string list" where
  "split_on c [] = [[]]"
| "split_on c (x # xs) =
     (if x = c then [] # split_on c xs
      else (case split_on c xs of [] \<Rightarrow> [[x]] | w # ws \<Rightarrow> (x # w) # ws))"

text \<open>\<^verbatim>\<open>xs.join(sep)\<close>.\<close>

fun join_with :: "string \<Rightarrow> string list \<Rightarrow> string" where
  "join_with sep [] = []"
| "join_with sep [w] = w"
| "join_with sep (w # v # ws) = w @ sep @ join_with sep (v # ws)"

lemma starts_with_append [simp]: "starts_with p (p @ s)"
  by (simp add: starts_with_def)

lemma starts_with_iff: "starts_with p s \<longleftrightarrow> (\<exists>t. s = p @ t)"
  by (metis append_take_drop_id append_eq_conv_conj starts_with_def)

lemma ends_with_append [simp]: "ends_with p (s @ p)"
  by (simp add: ends_with_def)

lemma ends_with_iff: "ends_with p s \<longleftrightarrow> (\<exists>t. s = t @ p)"
  by (metis append_take_drop_id diff_diff_cancel ends_with_append ends_with_def)

lemma drop_end_append [simp]: "drop_end (length p) (s @ p) = s"
  by (simp add: drop_end_def)

lemma drop_end_ends_with: "ends_with p s \<Longrightarrow> drop_end (length p) s @ p = s"
  by (auto simp: ends_with_iff)

lemma split_on_not_Nil [simp]: "split_on c s \<noteq> []"
  by (induction s) (auto split: list.splits)

lemma split_on_free: "w \<in> set (split_on c s) \<Longrightarrow> c \<notin> set w"
proof (induction s arbitrary: w)
  case (Cons x xs)
  then show ?case
    by (cases "split_on c xs") (auto split: if_splits)
qed simp

lemma join_split [simp]: "join_with [c] (split_on c s) = s"
proof (induction s)
  case (Cons x xs)
  then show ?case
  proof (cases "split_on c xs")
    case (Cons w ws)
    with Cons.IH show ?thesis by (cases ws) auto
  qed simp
qed simp

lemma split_on_no_sep: "c \<notin> set s \<Longrightarrow> split_on c s = [s]"
  by (induction s) auto

lemma split_on_append_sep:
  "c \<notin> set w \<Longrightarrow> split_on c (w @ c # s) = w # split_on c s"
  by (induction w) auto

lemma split_join:
  assumes "ws \<noteq> []" and "\<forall>w \<in> set ws. c \<notin> set w"
  shows "split_on c (join_with [c] ws) = ws"
  using assms
proof (induction ws rule: list_nonempty_induct)
  case (single w)
  then show ?case by (simp add: split_on_no_sep)
next
  case (cons w ws)
  then obtain v vs where "ws = v # vs" by (cases ws) auto
  with cons show ?case by (simp add: split_on_append_sep)
qed

lemma find_unique:
  assumes "x \<in> set xs" and "P x" and "\<And>y. y \<in> set xs \<Longrightarrow> P y \<Longrightarrow> y = x"
  shows "find P xs = Some x"
  using assms(1, 3)
proof (induction xs)
  case (Cons y ys)
  show ?case
  proof (cases "y = x")
    case False
    then have "\<not> P y" using Cons.prems(2) [of y] by auto
    moreover have "find P ys = Some x"
    proof (rule Cons.IH)
      show "x \<in> set ys" using Cons.prems(1) False by simp
    qed (rule Cons.prems(2), simp_all)
    ultimately show ?thesis by simp
  qed (simp add: assms(2))
qed simp

section \<open>Sets and maps in insertion order\<close>

text \<open>\<^verbatim>\<open>[...new Set(xs)]\<close>: the first occurrence of each element, in order.\<close>

definition js_uniq :: "'a list \<Rightarrow> 'a list" where
  "js_uniq xs = rev (remdups (rev xs))"

lemma set_js_uniq [simp]: "set (js_uniq xs) = set xs"
  by (simp add: js_uniq_def)

lemma distinct_js_uniq [simp]: "distinct (js_uniq xs)"
  by (simp add: js_uniq_def)

lemma length_js_uniq: "length (js_uniq xs) = length xs \<longleftrightarrow> distinct xs"
proof -
  have "length (remdups (rev xs)) = length (rev xs) \<longleftrightarrow> remdups (rev xs) = rev xs"
    by (rule length_remdups_eq)
  also have "\<dots> \<longleftrightarrow> distinct (rev xs)"
    by (rule remdups_id_iff_distinct)
  finally show ?thesis by (simp add: js_uniq_def)
qed

lemma js_uniq_distinct: "distinct xs \<Longrightarrow> js_uniq xs = xs"
  by (simp add: js_uniq_def distinct_remdups_id)

section \<open>Collation\<close>

text \<open>
  \<^verbatim>\<open>localeCompare\<close> follows the root collation: it compares the strings'
  base characters first and their case second, lower case before upper case. Punctuation
  precedes digits and digits precede letters. The table covers printable ASCII, which
  holds every identifier and every path of the store; other code units follow in code order.
\<close>

definition collation_punctuation :: string where
  "collation_punctuation = '' _-,;:!?.'' @ [CHR 0x27, CHR 0x22]
     @ ''()[]{}@*/'' @ [CHR 0x5C] @ ''&#%'' @ [CHR 0x60] @ ''^+<=>|~$''"

fun position :: "'a \<Rightarrow> 'a list \<Rightarrow> nat option" where
  "position x [] = None"
| "position x (y # ys) = (if x = y then Some 0 else map_option Suc (position x ys))"

definition is_digit :: "char \<Rightarrow> bool" where
  "is_digit c = (CHR ''0'' \<le> c \<and> c \<le> CHR ''9'')"

definition is_lower :: "char \<Rightarrow> bool" where
  "is_lower c = (CHR ''a'' \<le> c \<and> c \<le> CHR ''z'')"

definition is_upper :: "char \<Rightarrow> bool" where
  "is_upper c = (CHR ''A'' \<le> c \<and> c \<le> CHR ''Z'')"

definition primary_weight :: "char \<Rightarrow> nat" where
  "primary_weight c =
     (if is_digit c then 100 + of_char c
      else if is_lower c then 200 + of_char c
      else if is_upper c then 232 + of_char c
      else case position c collation_punctuation of
        Some i \<Rightarrow> i
      | None \<Rightarrow> 400 + of_char c)"

definition case_weight :: "char \<Rightarrow> nat" where
  "case_weight c = (if is_upper c then 1 else 0)"

definition locale_key :: "string \<Rightarrow> nat list \<times> nat list" where
  "locale_key s = (map primary_weight s, map case_weight s)"

definition locale_less :: "string \<Rightarrow> string \<Rightarrow> bool" where
  "locale_less a b = (locale_key a < locale_key b)"

text \<open>\<^verbatim>\<open>xs.sort((l, r) => f(l).localeCompare(f(r)))\<close>; JavaScript's sort is stable.\<close>

definition locale_sort :: "('a \<Rightarrow> string) \<Rightarrow> 'a list \<Rightarrow> 'a list" where
  "locale_sort f xs = sort_key (\<lambda>x. locale_key (f x)) xs"

lemma set_locale_sort [simp]: "set (locale_sort f xs) = set xs"
  by (simp add: locale_sort_def)

lemma length_locale_sort [simp]: "length (locale_sort f xs) = length xs"
  by (simp add: locale_sort_def)

lemma distinct_locale_sort [simp]: "distinct (locale_sort f xs) = distinct xs"
  by (simp add: locale_sort_def)

section \<open>Sequence numbers as zero-padded strings\<close>

text \<open>
  \<^verbatim>\<open>String(n).padStart(16, "0")\<close>. Sequences are compared as strings in the sources;
  the lemmas below show that up to sixteen digits this is the numeric order, so the model
  keeps sequences as numbers.
\<close>

definition digit_char :: "nat \<Rightarrow> char" where
  "digit_char d = char_of (48 + d)"

fun pad_digits :: "nat \<Rightarrow> nat \<Rightarrow> string" where
  "pad_digits 0 n = []"
| "pad_digits (Suc w) n = pad_digits w (n div 10) @ [digit_char (n mod 10)]"

definition pad :: "nat \<Rightarrow> string" where
  "pad n = pad_digits 16 n"

lemma length_pad_digits [simp]: "length (pad_digits w n) = w"
  by (induction w arbitrary: n) auto

lemma digit_char_less: "a < 10 \<Longrightarrow> b < 10 \<Longrightarrow> digit_char a < digit_char b \<longleftrightarrow> a < b"
  by (simp add: digit_char_def less_char_def)

lemma digit_char_eq: "a < 10 \<Longrightarrow> b < 10 \<Longrightarrow> digit_char a = digit_char b \<longleftrightarrow> a = b"
  using digit_char_less by (metis linorder_neq_iff)

lemma list_less_snoc:
  fixes xs ys :: "'a::linorder list"
  assumes "length xs = length ys"
  shows "xs @ [a] < ys @ [b] \<longleftrightarrow> xs < ys \<or> xs = ys \<and> a < b"
  using assms by (induction xs ys rule: list_induct2) auto

lemma div_mod_order:
  fixes m n :: nat
  shows "m div 10 < n div 10 \<or> m div 10 = n div 10 \<and> m mod 10 < n mod 10 \<longleftrightarrow> m < n"
    and "m div 10 = n div 10 \<and> m mod 10 = n mod 10 \<longleftrightarrow> m = n"
proof -
  have "m = 10 * (m div 10) + m mod 10" "n = 10 * (n div 10) + n mod 10"
    "m mod 10 < 10" "n mod 10 < 10"
    by simp_all
  then show "m div 10 < n div 10 \<or> m div 10 = n div 10 \<and> m mod 10 < n mod 10 \<longleftrightarrow> m < n"
    and "m div 10 = n div 10 \<and> m mod 10 = n mod 10 \<longleftrightarrow> m = n"
    by (linarith, metis div_mult_mod_eq)
qed

lemma pad_digits_order:
  assumes "m < 10 ^ w" and "n < 10 ^ w"
  shows "(pad_digits w m < pad_digits w n \<longleftrightarrow> m < n)
    \<and> (pad_digits w m = pad_digits w n \<longleftrightarrow> m = n)"
  using assms
proof (induction w arbitrary: m n)
  case (Suc w)
  have div: "m div 10 < 10 ^ w" "n div 10 < 10 ^ w"
    using Suc.prems by (simp_all add: less_mult_imp_div_less mult.commute)
  note IH = Suc.IH [OF div]
  have "pad_digits (Suc w) m < pad_digits (Suc w) n \<longleftrightarrow> pad_digits w (m div 10) < pad_digits w (n div 10)
      \<or> pad_digits w (m div 10) = pad_digits w (n div 10) \<and> digit_char (m mod 10) < digit_char (n mod 10)"
    by (simp only: pad_digits.simps list_less_snoc length_pad_digits)
  then have less: "pad_digits (Suc w) m < pad_digits (Suc w) n \<longleftrightarrow> m < n"
    by (simp only: IH digit_char_less div_mod_order mod_less_divisor zero_less_numeral)
  have "pad_digits (Suc w) m = pad_digits (Suc w) n \<longleftrightarrow> pad_digits w (m div 10) = pad_digits w (n div 10)
      \<and> digit_char (m mod 10) = digit_char (n mod 10)"
    by simp
  then have "pad_digits (Suc w) m = pad_digits (Suc w) n \<longleftrightarrow> m = n"
    by (simp only: IH digit_char_eq div_mod_order mod_less_divisor zero_less_numeral)
  with less show ?case by blast
qed simp

end
