(* ===== verification/Protocol_Base.thy ===== *)
theory Protocol_Base
  imports Prelude
begin

text \<open>
  Portable identifiers (\<^verbatim>\<open>packages/protocol/src/ids.mjs\<close>), receipt states
  (\<^verbatim>\<open>states.mjs\<close>), result envelopes (\<^verbatim>\<open>envelopes.mjs\<close>) and the
  base64url encoding that \<^verbatim>\<open>createId\<close> takes from Node's \<^verbatim>\<open>Buffer\<close>.
\<close>

section \<open>Portable identifiers\<close>

definition is_alnum :: "char \<Rightarrow> bool" where
  "is_alnum c = (is_digit c \<or> is_lower c \<or> is_upper c)"

definition is_id_char :: "char \<Rightarrow> bool" where
  "is_id_char c = (is_alnum c \<or> c = CHR ''.'' \<or> c = CHR ''_'' \<or> c = CHR ''-'')"

text \<open>\<^verbatim>\<open>/^[A-Za-z0-9][A-Za-z0-9._-]{0,199}$/\<close>\<close>

definition PORTABLE_ID :: "string \<Rightarrow> bool" where
  "PORTABLE_ID s = (case s of [] \<Rightarrow> False
     | c # cs \<Rightarrow> is_alnum c \<and> length cs \<le> 199 \<and> list_all is_id_char cs)"

definition lower_char :: "char \<Rightarrow> char" where
  "lower_char c = (if is_upper c then char_of (of_char c + (32::nat)) else c)"

text \<open>\<^verbatim>\<open>/^(?:con|prn|aux|nul|com[1-9]|lpt[1-9])(?:\.|$)/i\<close>\<close>

definition device_names :: "string list" where
  "device_names = [''con'', ''prn'', ''aux'', ''nul''] @
     concat (map (\<lambda>d. [''com'' @ [d], ''lpt'' @ [d]]) ''123456789'')"

definition WINDOWS_DEVICE :: "string \<Rightarrow> bool" where
  "WINDOWS_DEVICE s = (let t = map lower_char s in
     list_ex (\<lambda>d. starts_with d t \<and> (case drop (length d) t of [] \<Rightarrow> True | c # _ \<Rightarrow> c = CHR ''.''))
       device_names)"

definition portable_id :: "string \<Rightarrow> bool" where
  "portable_id s = (PORTABLE_ID s \<and> \<not> ends_with ''.'' s \<and> \<not> WINDOWS_DEVICE s)"

definition assertPortableId :: "string \<Rightarrow> string \<Rightarrow> string res" where
  "assertPortableId s label =
     (if \<not> PORTABLE_ID s \<or> ends_with ''.'' s \<or> WINDOWS_DEVICE s
      then Inl (AccError DATA (''invalid '' @ label)) else Inr s)"

lemma assertPortableId_ok [res_simps]:
  "assertPortableId s label = Inr t \<longleftrightarrow> portable_id s \<and> t = s"
  by (auto simp: assertPortableId_def portable_id_def)

lemma assertPortableId_error:
  "\<not> portable_id s \<Longrightarrow> assertPortableId s label = Inl (AccError DATA (''invalid '' @ label))"
  by (auto simp: assertPortableId_def portable_id_def)

subsection \<open>Fresh identifiers\<close>

definition b64url_alphabet :: string where
  "b64url_alphabet = ''ABCDEFGHIJKLMNOPQRSTUVWXYZabcdefghijklmnopqrstuvwxyz0123456789-_''"

definition b64url_char :: "nat \<Rightarrow> char" where
  "b64url_char n = b64url_alphabet ! (n mod 64)"

text \<open>\<^verbatim>\<open>Buffer.toString("base64url")\<close>: no padding.\<close>

fun b64url :: "nat list \<Rightarrow> string" where
  "b64url [] = []"
| "b64url [a] = map b64url_char [a div 4, (a mod 4) * 16]"
| "b64url [a, b] = map b64url_char [a div 4, (a mod 4) * 16 + b div 16, (b mod 16) * 4]"
| "b64url (a # b # c # rest) =
     map b64url_char [a div 4, (a mod 4) * 16 + b div 16, (b mod 16) * 4 + c div 64, c mod 64]
     @ b64url rest"

text \<open>
  \<^verbatim>\<open>createId(kind, randomBytes)\<close>; the sixteen bytes that \<^verbatim>\<open>randomBytes(16)\<close>
  returned are the argument \<open>bytes\<close>.
\<close>

definition createId :: "string \<Rightarrow> nat list \<Rightarrow> string res" where
  "createId kind bytes =
     bind_r (assertPortableId kind ''kind'') (\<lambda>k. Inr (k @ ''_'' @ b64url bytes))"

lemma b64url_alphabet_chars: "list_all (\<lambda>c. is_id_char c \<and> c \<noteq> CHR ''.'') b64url_alphabet"
  by code_simp

lemma b64url_char_id: "is_id_char (b64url_char n) \<and> b64url_char n \<noteq> CHR ''.''"
proof -
  have "n mod 64 < length b64url_alphabet"
    by (simp add: b64url_alphabet_def)
  then have "b64url_char n \<in> set b64url_alphabet"
    by (simp add: b64url_char_def)
  with b64url_alphabet_chars show ?thesis
    by (simp add: list_all_iff)
qed

lemma b64url_chars: "c \<in> set (b64url bs) \<Longrightarrow> is_id_char c \<and> c \<noteq> CHR ''.''"
  by (induction bs rule: b64url.induct) (auto simp: b64url_char_id)

lemma length_b64url: "length (b64url bs) = (4 * length bs + 2) div 3"
  by (induction bs rule: b64url.induct) auto

text \<open>No device name continues past its end: what follows one is a dot or nothing.\<close>

lemma device_names_chars: "list_all (\<lambda>d. list_all (\<lambda>c. is_lower c \<or> is_digit c) d) device_names"
  by code_simp

lemma lower_char_eq_iff: "is_lower c \<or> is_digit c \<or> c = CHR ''.'' \<Longrightarrow> lower_char CHR ''_'' \<noteq> c"
  by (auto simp: lower_char_def is_upper_def is_lower_def is_digit_def less_eq_char_def)

lemma starts_with_underscore:
  assumes d: "list_all (\<lambda>c. is_lower c \<or> is_digit c) d"
    and s: "starts_with d (map lower_char (k @ CHR ''_'' # t))"
  shows "length d \<le> length k"
proof (rule ccontr)
  assume "\<not> length d \<le> length k"
  then have len: "length k < length d" by simp
  from s have "d ! length k = map lower_char (k @ CHR ''_'' # t) ! length k"
    using len by (metis nth_take starts_with_def)
  then have "d ! length k = lower_char CHR ''_''"
    by (simp add: nth_append)
  moreover have "is_lower (d ! length k) \<or> is_digit (d ! length k)"
    using d len by (simp add: list_all_length)
  ultimately show False
    using lower_char_eq_iff by metis
qed

lemma WINDOWS_DEVICE_underscore:
  assumes "WINDOWS_DEVICE (k @ CHR ''_'' # t)"
  shows "WINDOWS_DEVICE k"
proof -
  let ?u = "map lower_char (k @ CHR ''_'' # t)"
  obtain d where d: "d \<in> set device_names" and s: "starts_with d ?u"
    and n: "case drop (length d) ?u of [] \<Rightarrow> True | c # _ \<Rightarrow> c = CHR ''.''"
    using assms unfolding WINDOWS_DEVICE_def Let_def list_ex_iff by blast
  have chars: "list_all (\<lambda>c. is_lower c \<or> is_digit c) d"
    using d device_names_chars by (simp add: list_all_iff)
  have len: "length d \<le> length k"
    using chars s by (rule starts_with_underscore)
  then have pre: "starts_with d (map lower_char k)"
    using s by (simp add: starts_with_def)
  have "case drop (length d) (map lower_char k) of [] \<Rightarrow> True | c # _ \<Rightarrow> c = CHR ''.''"
    using n len by (auto split: list.splits simp: Cons_eq_append_conv)
  with pre d show ?thesis
    unfolding WINDOWS_DEVICE_def Let_def list_ex_iff by blast
qed

section \<open>Receipt states\<close>

datatype receipt_state = Queued | Offered | Retrieved | Acknowledged

definition RECEIPT_STATES :: "(string \<times> receipt_state) list" where
  "RECEIPT_STATES = [(''queued'', Queued), (''offered'', Offered), (''retrieved'', Retrieved),
     (''acknowledged'', Acknowledged)]"

fun state_name :: "receipt_state \<Rightarrow> string" where
  "state_name Queued = ''queued''"
| "state_name Offered = ''offered''"
| "state_name Retrieved = ''retrieved''"
| "state_name Acknowledged = ''acknowledged''"

fun RECEIPT_NEXT :: "receipt_state \<Rightarrow> receipt_state list" where
  "RECEIPT_NEXT Queued = [Offered, Retrieved, Acknowledged]"
| "RECEIPT_NEXT Offered = [Retrieved, Acknowledged]"
| "RECEIPT_NEXT Retrieved = [Acknowledged]"
| "RECEIPT_NEXT Acknowledged = []"

definition advance :: "receipt_state \<Rightarrow> receipt_state \<Rightarrow> receipt_state res" where
  "advance current next_state =
     (if current = next_state then Inr next_state
      else if next_state \<notin> set (RECEIPT_NEXT current)
      then Inl (AccError CONFLICT (''illegal receipt transition from '' @ state_name current
        @ '' to '' @ state_name next_state))
      else Inr next_state)"

text \<open>\<^verbatim>\<open>advanceReceipt\<close> on the strings a record holds.\<close>

definition advanceReceipt :: "string \<Rightarrow> string \<Rightarrow> string res" where
  "advanceReceipt current next_state =
     (case map_of RECEIPT_STATES current of
        None \<Rightarrow> Inl (AccError DATA (''unknown receipt state: '' @ current))
      | Some c \<Rightarrow> (case map_of RECEIPT_STATES next_state of
          None \<Rightarrow> Inl (AccError DATA (''unknown receipt state: '' @ next_state))
        | Some n \<Rightarrow> bind_r (advance c n) (\<lambda>s. Inr (state_name s))))"

text \<open>How far a receipt has come; every transition the table allows moves it forward.\<close>

fun receipt_rank :: "receipt_state \<Rightarrow> nat" where
  "receipt_rank Queued = 0"
| "receipt_rank Offered = 1"
| "receipt_rank Retrieved = 2"
| "receipt_rank Acknowledged = 3"

lemma advance_ok: "advance c n = Inr s \<longleftrightarrow> s = n \<and> receipt_rank c \<le> receipt_rank n"
  by (cases c; cases n) (auto simp: advance_def)

lemma advance_conflict:
  "\<not> receipt_rank c \<le> receipt_rank n \<Longrightarrow> \<exists>msg. advance c n = Inl (AccError CONFLICT msg)"
  by (cases c; cases n) (auto simp: advance_def)

lemma receipt_rank_inj: "receipt_rank c = receipt_rank n \<longleftrightarrow> c = n"
  by (cases c; cases n) auto

lemma receipt_states_of_name: "map_of RECEIPT_STATES s = Some c \<longleftrightarrow> s = state_name c"
  by (cases c) (auto simp: RECEIPT_STATES_def)

section \<open>Envelopes\<close>

definition ENVELOPE_VERSION :: nat where
  "ENVELOPE_VERSION = 1"

datatype 'a envelope =
    EnvelopeOk nat 'a
  | EnvelopeFailure nat nat string

definition ok :: "'a \<Rightarrow> 'a envelope" where
  "ok payload = EnvelopeOk ENVELOPE_VERSION payload"

text \<open>An error that is not an \<^verbatim>\<open>AccError\<close> is reported under the \<^verbatim>\<open>DATA\<close> slot.\<close>

definition failure :: "acc_error \<Rightarrow> 'a envelope" where
  "failure e = (case e of
     AccError code msg \<Rightarrow> EnvelopeFailure ENVELOPE_VERSION (exit_number code) msg
   | JsError msg \<Rightarrow> EnvelopeFailure ENVELOPE_VERSION (exit_number DATA) msg)"

section \<open>Properties\<close>

text \<open>
  C22. Every identifier that \<^verbatim>\<open>createId\<close> makes from sixteen random bytes is a portable
  identifier, as long as the kind leaves room for the separator and the twenty-two
  characters of the payload. So a fresh identifier never fails the check every store
  operation applies to the names it turns into file names.
\<close>

theorem createId_portable:
  assumes "length bytes = 16" and "portable_id kind" and "length kind \<le> 177"
  shows "\<exists>i. createId kind bytes = Inr i \<and> portable_id i \<and> starts_with (kind @ ''_'') i"
proof -
  let ?i = "kind @ ''_'' @ b64url bytes"
  have made: "createId kind bytes = Inr ?i"
    using assms(2) by (auto simp: createId_def res_simps)
  have len: "length (b64url bytes) = 22"
    using assms(1) by (simp add: length_b64url)
  obtain c cs where k: "kind = c # cs" "is_alnum c" "list_all is_id_char cs"
    using assms(2) by (auto simp: portable_id_def PORTABLE_ID_def split: list.splits)
  have us: "is_id_char CHR ''_''" by code_simp
  have chars: "list_all is_id_char (b64url bytes)"
    using b64url_chars by (auto simp: list_all_iff)
  have portable: "PORTABLE_ID ?i"
    using assms(3) len k us chars by (simp add: PORTABLE_ID_def)
  have ne: "b64url bytes \<noteq> []" using len by auto
  then have "last (b64url bytes) \<noteq> CHR ''.''"
    using b64url_chars last_in_set by blast
  then have "last ?i \<noteq> CHR ''.''"
    using ne by simp
  then have nodot: "\<not> ends_with ''.'' ?i"
    unfolding ends_with_iff by (metis last_snoc)
  have "\<not> WINDOWS_DEVICE ?i"
    using assms(2) WINDOWS_DEVICE_underscore by (auto simp: portable_id_def)
  with portable nodot made show ?thesis
    by (auto simp: portable_id_def starts_with_iff)
qed

theorem createId_portable_witness:
  "\<exists>i. createId ''session'' [0, 1, 2, 3, 4, 5, 6, 7, 8, 9, 10, 11, 12, 13, 250, 255] = Inr i
     \<and> portable_id i \<and> starts_with (''session'' @ ''_'') i"
proof -
  have "portable_id ''session''" by code_simp
  then show ?thesis
    using createId_portable [of "[0, 1, 2, 3, 4, 5, 6, 7, 8, 9, 10, 11, 12, 13, 250, 255]" "''session''"]
    by simp
qed

text \<open>
  C17. \<^verbatim>\<open>advanceReceipt\<close> accepts exactly the moves that do not take a receipt back:
  for two known states it returns the next state when that is the current state or a later
  one, and refuses with \<^verbatim>\<open>CONFLICT\<close> otherwise; an unknown state is refused with
  \<^verbatim>\<open>DATA\<close>.
\<close>

theorem advanceReceipt_forward_only:
  "(case (map_of RECEIPT_STATES c, map_of RECEIPT_STATES n) of
      (Some cs, Some ns) \<Rightarrow>
        (if receipt_rank cs \<le> receipt_rank ns then advanceReceipt c n = Inr n
         else \<exists>msg. advanceReceipt c n = Inl (AccError CONFLICT msg))
    | _ \<Rightarrow> \<exists>msg. advanceReceipt c n = Inl (AccError DATA msg))"
proof (cases "map_of RECEIPT_STATES c")
  case None
  then show ?thesis by (simp add: advanceReceipt_def)
next
  case (Some cs)
  note c = this
  show ?thesis
  proof (cases "map_of RECEIPT_STATES n")
    case None
    with c show ?thesis by (simp add: advanceReceipt_def)
  next
    case (Some ns)
    then have "n = state_name ns" by (simp add: receipt_states_of_name)
    with c Some show ?thesis
      using advance_conflict [of cs ns]
      by (auto simp: advanceReceipt_def advance_ok [THEN iffD2])
  qed
qed

end
