(* ===== verification/Resources.thy ===== *)
theory Resources
  imports Protocol_Base
begin

text \<open>
  Resource identifiers: normalisation and the refusal of claims that match nothing
  (\<^verbatim>\<open>packages/protocol/src/resources.mjs\<close>), the resource URI check
  (\<^verbatim>\<open>resourceUri\<close> of \<^verbatim>\<open>fields.mjs\<close>), and the overlap of two claimed
  resources (\<^verbatim>\<open>overlaps\<close> of \<^verbatim>\<open>packages/core/src/claims.mjs\<close>), with the
  write guard's \<^verbatim>\<open>covers\<close> (\<^verbatim>\<open>packages/hook-runner/src/runner.mjs\<close>).
\<close>

section \<open>Normalisation\<close>

abbreviation slash :: char where "slash \<equiv> CHR ''/''"

definition GLOB :: string where
  "GLOB = ''/**''"

definition slashes :: "string \<Rightarrow> string" where
  "slashes s = replace_char (CHR 0x5C) slash s"

text \<open>The loop of \<^verbatim>\<open>normalisePath\<close>; \<open>segments\<close> is the array it pushes to and pops from.\<close>

fun norm_loop :: "string list \<Rightarrow> string list \<Rightarrow> string list" where
  "norm_loop segments [] = segments"
| "norm_loop segments (segment # rest) =
     (if segment = [] \<or> segment = ''.'' then norm_loop segments rest
      else if segment = ''..'' \<and> segments \<noteq> [] \<and> last segments \<noteq> ''..''
      then norm_loop (butlast segments) rest
      else norm_loop (segments @ [segment]) rest)"

definition normalisePath :: "string \<Rightarrow> string" where
  "normalisePath v = join_with [slash] (norm_loop [] (split_on slash v))"

definition assertMatchableResource :: "(string \<Rightarrow> acc_error) \<Rightarrow> string \<Rightarrow> string res" where
  "assertMatchableResource fail resource =
     (if \<not> starts_with ''file:'' resource then Inr resource
      else let rest = slashes (drop 5 resource);
               body = (if ends_with GLOB rest then drop_end (length GLOB) rest else rest)
           in if ends_with ''/'' rest \<and> rest \<noteq> ''/''
              then Inl (fail (resource @ '' names a directory; claim '' @ resource
                @ ''** to cover what is in it''))
              else if CHR ''*'' \<in> set body
              then Inl (fail (resource @ '' matches nothing: only a trailing /** is understood, ''
                @ ''so a directory is claimed as file:<path>/**''))
              else Inr resource)"

definition normaliseResource :: "string \<Rightarrow> string" where
  "normaliseResource resource =
     (case index_of CHR '':'' resource of
        None \<Rightarrow> resource
      | Some colon \<Rightarrow>
          if take colon resource \<noteq> ''file'' then resource
          else let rest = slashes (drop (colon + 1) resource);
                   glob = ends_with GLOB rest;
                   body = (if glob then drop_end (length GLOB) rest else rest);
                   absolute = starts_with ''/'' body;
                   normalised = normalisePath body
               in if normalised = [] \<and> \<not> glob then resource
                  else ''file:'' @ (if absolute then ''/'' else []) @ normalised
                    @ (if glob then GLOB else []))"

section \<open>Resource URIs\<close>

definition is_space :: "char \<Rightarrow> bool" where
  "is_space c = (c \<in> set [CHR 0x09, CHR 0x0A, CHR 0x0B, CHR 0x0C, CHR 0x0D, CHR 0x20, CHR 0xA0])"

definition hasControl :: "bool \<Rightarrow> string \<Rightarrow> bool" where
  "hasControl allowNewline v = list_ex (\<lambda>c. let code = (of_char c :: nat) in
     \<not> (allowNewline \<and> (code = 10 \<or> code = 13)) \<and> (code < 32 \<or> code = 127)) v"

definition is_scheme_char :: "char \<Rightarrow> bool" where
  "is_scheme_char c = (is_lower c \<or> is_digit c \<or> c = CHR ''+'' \<or> c = CHR ''.'' \<or> c = CHR ''-'')"

text \<open>\<^verbatim>\<open>/^[a-z][a-z0-9+.-]*:[^\s]+$/\<close>\<close>

definition RESOURCE_URI :: "string \<Rightarrow> bool" where
  "RESOURCE_URI s = (case index_of CHR '':'' s of None \<Rightarrow> False
     | Some i \<Rightarrow> (case take i s of [] \<Rightarrow> False | c # cs \<Rightarrow> is_lower c \<and> list_all is_scheme_char cs)
         \<and> drop (i + 1) s \<noteq> [] \<and> list_all (\<lambda>c. \<not> is_space c) (drop (i + 1) s))"

definition resource_uri :: "string \<Rightarrow> bool" where
  "resource_uri s = (RESOURCE_URI s \<and> \<not> hasControl False s \<and> length s \<le> 1024)"

section \<open>Overlap\<close>

text \<open>\<^verbatim>\<open>split\<close>: with no colon \<^verbatim>\<open>indexOf\<close> is \<open>-1\<close>, so the scheme drops the last character.\<close>

definition split_resource :: "string \<Rightarrow> string \<times> string" where
  "split_resource r = (case index_of CHR '':'' r of
     None \<Rightarrow> (drop_end 1 r, r)
   | Some i \<Rightarrow> (take i r, drop (i + 1) r))"

text \<open>The inner \<^verbatim>\<open>covers(glob, plain)\<close> of \<^verbatim>\<open>overlaps\<close>, on the parts after the scheme.\<close>

definition covers_rest :: "string \<Rightarrow> string \<Rightarrow> bool" where
  "covers_rest glob plain = (ends_with GLOB glob
     \<and> (plain = drop_end (length GLOB) glob
        \<or> starts_with (drop_end (length GLOB) glob @ ''/'') plain))"

definition overlaps :: "string \<Rightarrow> string \<Rightarrow> bool" where
  "overlaps left right =
     (left = right \<or>
      (let a = split_resource left; b = split_resource right
       in fst a = fst b \<and> (covers_rest (snd a) (snd b) \<or> covers_rest (snd b) (snd a))))"

text \<open>The write guard's \<^verbatim>\<open>covers(resource, target)\<close>, on whole resource strings.\<close>

definition guard_covers :: "string \<Rightarrow> string \<Rightarrow> bool" where
  "guard_covers resource target =
     (if resource = target then True
      else if \<not> ends_with GLOB resource then False
      else let prefix = drop_end 3 resource
           in target = prefix \<or> starts_with (prefix @ ''/'') target)"

section \<open>What a path names\<close>

text \<open>
  A path names a place relative to where it starts: a number of steps up and then a list
  of names down. \<open>walk\<close> is that meaning, one segment at a time, and \<open>names_of\<close> the
  meaning of a spelling. Normalisation is judged against it.
\<close>

fun walk :: "nat \<times> string list \<Rightarrow> string \<Rightarrow> nat \<times> string list" where
  "walk (ups, names) segment =
     (if segment = [] \<or> segment = ''.'' then (ups, names)
      else if segment = ''..'' then (if names = [] then (Suc ups, []) else (ups, butlast names))
      else (ups, names @ [segment]))"

definition names_of :: "string \<Rightarrow> nat \<times> string list" where
  "names_of v = foldl walk (0, []) (split_on slash v)"

definition is_name :: "string \<Rightarrow> bool" where
  "is_name n = (n \<noteq> [] \<and> n \<noteq> ''.'' \<and> n \<noteq> ''..'' \<and> slash \<notin> set n)"

definition spell :: "nat \<times> string list \<Rightarrow> string list" where
  "spell p = replicate (fst p) ''..'' @ snd p"

lemma walk_names:
  assumes "\<forall>n \<in> set (snd p). is_name n" and "slash \<notin> set s"
  shows "\<forall>n \<in> set (snd (walk p s)). is_name n"
  using assms by (cases p) (auto simp: is_name_def dest: in_set_butlastD)

lemma norm_loop_step:
  assumes "\<forall>n \<in> set (snd p). is_name n"
  shows "norm_loop (spell p) (s # rest) = norm_loop (spell (walk p s)) rest"
proof (cases p)
  case (Pair u ns)
  show ?thesis
  proof (cases "ns = []")
    case True
    then show ?thesis
      using Pair by (cases u) (auto simp: spell_def replicate_append_same)
  next
    case False
    then have "last ns \<in> set ns" by simp
    with assms Pair have "last ns \<noteq> ''..''" by (auto simp: is_name_def)
    with False Pair show ?thesis by (auto simp: spell_def butlast_append)
  qed
qed

lemma norm_loop_walk:
  assumes "\<forall>n \<in> set (snd p). is_name n" and "\<forall>s \<in> set segs. slash \<notin> set s"
  shows "norm_loop (spell p) segs = spell (foldl walk p segs)
    \<and> (\<forall>n \<in> set (snd (foldl walk p segs)). is_name n)"
  using assms
proof (induction segs arbitrary: p)
  case (Cons s segs)
  have "\<forall>n \<in> set (snd (walk p s)). is_name n"
    using Cons.prems by (intro walk_names) auto
  with Cons norm_loop_step [OF Cons.prems(1)] show ?case by simp
qed simp

lemma norm_loop_split:
  "norm_loop [] (split_on slash v) = spell (names_of v) \<and> (\<forall>n \<in> set (snd (names_of v)). is_name n)"
proof -
  have "spell (0, []) = []" by (simp add: spell_def)
  then show ?thesis
    using norm_loop_walk [of "(0, [])" "split_on slash v"] split_on_free
    by (auto simp: names_of_def)
qed

lemma spell_free:
  assumes "\<forall>n \<in> set (snd p). is_name n" and "w \<in> set (spell p)"
  shows "w \<noteq> [] \<and> slash \<notin> set w"
proof -
  from assms(2) have "w = ''..'' \<or> w \<in> set (snd p)"
    by (auto simp: spell_def)
  then show ?thesis
  proof
    assume "w \<in> set (snd p)"
    with assms(1) have "is_name w" by simp
    then show ?thesis by (simp add: is_name_def)
  qed simp
qed

lemma names_of_spell:
  assumes "\<forall>n \<in> set (snd p). is_name n"
  shows "foldl walk (0, []) (spell p) = p"
proof -
  have ups: "foldl walk (k, []) (replicate m ''..'') = (k + m, [])" for k m
    by (induction m arbitrary: k) simp_all
  have down: "\<forall>n \<in> set ns. is_name n \<Longrightarrow> foldl walk (u, ms) ns = (u, ms @ ns)" for u ms ns
    by (induction ns arbitrary: ms) (auto simp: is_name_def)
  from assms show ?thesis
    by (cases p) (simp add: spell_def ups down)
qed

lemma names_of_join:
  assumes "\<forall>n \<in> set (snd p). is_name n"
  shows "names_of (join_with [slash] (spell p)) = p"
proof (cases "spell p = []")
  case True
  then have "p = (0, [])" by (cases p) (simp add: spell_def)
  then show ?thesis by (simp add: spell_def names_of_def)
next
  case False
  have "split_on slash (join_with [slash] (spell p)) = spell p"
    using False spell_free [OF assms] by (intro split_join) auto
  with names_of_spell [OF assms] show ?thesis by (simp add: names_of_def)
qed

lemma normalisePath_spell: "normalisePath v = join_with [slash] (spell (names_of v))"
  by (simp add: normalisePath_def norm_loop_split)

lemma names_of_normalisePath [simp]: "names_of (normalisePath v) = names_of v"
  using names_of_join norm_loop_split by (simp add: normalisePath_spell)

lemma normalisePath_idem [simp]: "normalisePath (normalisePath v) = normalisePath v"
  by (subst normalisePath_spell) (simp flip: normalisePath_spell)

lemma normalisePath_eq_iff: "normalisePath a = normalisePath b \<longleftrightarrow> names_of a = names_of b"
  by (metis names_of_normalisePath normalisePath_spell)

lemma names_of_slash [simp]: "names_of (slash # v) = names_of v"
  by (simp add: names_of_def)

lemma normalisePath_slash [simp]: "normalisePath (slash # v) = normalisePath v"
  by (simp add: normalisePath_eq_iff)

lemma join_not_slash:
  assumes "\<forall>w \<in> set ws. w \<noteq> [] \<and> slash \<notin> set w"
  shows "\<not> starts_with ''/'' (join_with [slash] ws)"
proof (cases ws)
  case (Cons w vs)
  with assms obtain c cs where "w = c # cs" "c \<noteq> slash" by (cases w) auto
  with Cons show ?thesis by (cases vs) (auto simp: starts_with_def)
qed (simp add: starts_with_def)

lemma normalisePath_relative: "\<not> starts_with ''/'' (normalisePath v)"
  unfolding normalisePath_spell
  using join_not_slash spell_free norm_loop_split by metis

lemma normalisePath_chars: "c \<in> set (normalisePath v) \<Longrightarrow> c \<in> set v \<or> c = CHR ''.'' \<or> c = slash"
proof -
  have join: "c \<in> set (join_with [slash] ws) \<Longrightarrow> c = slash \<or> (\<exists>w \<in> set ws. c \<in> set w)" for ws
    by (induction "[slash]" ws rule: join_with.induct) auto
  have loop: "w \<in> set (norm_loop acc segs) \<Longrightarrow> w \<in> set acc \<or> w \<in> set segs" for w acc segs
    by (induction acc segs rule: norm_loop.induct) (auto split: if_splits dest: in_set_butlastD)
  have part: "w \<in> set (split_on slash v) \<Longrightarrow> set w \<subseteq> set v" for w
  proof (induction v arbitrary: w)
    case (Cons x xs)
    show ?case
    proof (cases "split_on slash xs")
      case (Cons a as)
      then have head: "set a \<subseteq> set xs" and tail: "w \<in> set as \<Longrightarrow> set w \<subseteq> set xs" for w
        by (auto intro!: Cons.IH)
      from Cons Cons.prems have "w = [] \<or> w = a \<or> w = x # a \<or> w \<in> set as"
        by (auto split: if_splits)
      with head tail show ?thesis by (elim disjE) (simp, auto)
    qed simp
  qed simp
  assume "c \<in> set (normalisePath v)"
  then show ?thesis
    unfolding normalisePath_def using join loop part by fastforce
qed

lemma split_on_append: "split_on c (a @ c # b) = split_on c a @ split_on c b"
proof (induction a)
  case (Cons x a)
  then show ?case by (cases "split_on c a") auto
qed simp

lemma butlast_spell:
  assumes "\<forall>n \<in> set (snd p). is_name n"
  shows "\<exists>q. butlast (spell p) = spell q \<and> (\<forall>n \<in> set (snd q). is_name n)"
proof (cases "snd p = []")
  case True
  then have "butlast (spell p) = spell (fst p - 1, [])"
    by (simp add: spell_def butlast_conv_take take_replicate min_def)
  then show ?thesis by fastforce
next
  case False
  then have "butlast (spell p) = spell (fst p, butlast (snd p))"
    by (simp add: spell_def butlast_append)
  with assms show ?thesis by (metis in_set_butlastD snd_conv)
qed

lemma normalisePath_join_spell:
  assumes "\<forall>n \<in> set (snd p). is_name n"
  shows "normalisePath (join_with [slash] (spell p)) = join_with [slash] (spell p)"
  using names_of_join [OF assms] by (simp add: normalisePath_spell)

lemma split_spell:
  assumes "\<forall>n \<in> set (snd p). is_name n" and "spell p \<noteq> []"
  shows "split_on slash (join_with [slash] (spell p)) = spell p"
  using assms spell_free [OF assms(1)] by (intro split_join) auto

subsection \<open>Normalising twice\<close>

definition lead :: "string \<Rightarrow> string" where
  "lead body = (if starts_with ''/'' body then ''/'' else [])"

lemma lead_normalised:
  "normalisePath (lead body @ normalisePath body) = normalisePath body"
  "lead (lead body @ normalisePath body) = lead body"
  using normalisePath_relative [of body] by (auto simp: lead_def starts_with_def)

text \<open>A normalised path that happens to end like a glob is not changed by reading it as one.\<close>

lemma lead_of_glob:
  assumes out: "lead body @ normalisePath body = c @ GLOB" and ne: "normalisePath body \<noteq> []"
  shows "lead c @ normalisePath c = c"
proof -
  define p where "p = names_of body"
  have p: "\<forall>n \<in> set (snd p). is_name n" and norm: "normalisePath body = join_with [slash] (spell p)"
    using norm_loop_split by (simp_all add: p_def normalisePath_spell)
  have spell_ne: "spell p \<noteq> []" using ne norm by auto
  obtain q where q: "butlast (spell p) = spell q" "\<forall>n \<in> set (snd q). is_name n"
    using butlast_spell [OF p] by blast
  have "split_on slash (c @ GLOB) = split_on slash c @ [''**'']"
    by (simp add: GLOB_def split_on_append)
  moreover have "split_on slash (lead body @ normalisePath body)
      = (if lead body = [] then [] else [[]]) @ spell p"
    using split_spell [OF p spell_ne] norm by (simp add: lead_def)
  ultimately have parts: "split_on slash c = (if lead body = [] then [] else [[]]) @ spell q"
    using out q(1) spell_ne by (metis butlast_append butlast_snoc)
  have "c = join_with [slash] (split_on slash c)" by simp
  then have c: "c = join_with [slash] ((if lead body = [] then [] else [[]]) @ spell q)"
    using parts by simp
  have rel: "\<not> starts_with ''/'' (join_with [slash] (spell q))"
    using normalisePath_relative normalisePath_join_spell [OF q(2)] by metis
  show ?thesis
  proof (cases "lead body = []")
    case True
    then show ?thesis
      using c rel normalisePath_join_spell [OF q(2)] by (simp add: lead_def)
  next
    case False
    then show ?thesis
    proof (cases "spell q")
      case Nil
      then show ?thesis using c by (simp add: lead_def starts_with_def normalisePath_def)
    next
      case (Cons w ws)
      then have "c = slash # join_with [slash] (spell q)" using c False by simp
      then show ?thesis
        using normalisePath_join_spell [OF q(2)] by (simp add: lead_def starts_with_def)
    qed
  qed
qed

lemma slashes_id: "CHR 0x5C \<notin> set s \<Longrightarrow> slashes s = s"
  by (induction s) (auto simp: slashes_def replace_char_def)

lemma slashes_free: "CHR 0x5C \<notin> set (slashes s)"
  by (auto simp: slashes_def replace_char_def)

lemma set_drop_end: "set (drop_end n s) \<subseteq> set s"
  by (simp add: drop_end_def set_take_subset)

text \<open>\<^verbatim>\<open>normaliseResource\<close> on what follows \<^verbatim>\<open>file:\<close>.\<close>

definition norm_rest :: "string \<Rightarrow> string" where
  "norm_rest x = (let rest = slashes x;
       body = (if ends_with GLOB rest then drop_end (length GLOB) rest else rest)
     in if normalisePath body = [] \<and> \<not> ends_with GLOB rest then x
        else lead body @ normalisePath body @ (if ends_with GLOB rest then GLOB else []))"

lemma normaliseResource_file: "normaliseResource (''file:'' @ x) = ''file:'' @ norm_rest x"
  by (simp add: normaliseResource_def norm_rest_def Let_def lead_def)

lemma index_of_SomeD:
  "index_of c s = Some i \<Longrightarrow> s = take i s @ c # drop (Suc i) s \<and> i < length s"
  by (induction s arbitrary: i) (auto split: if_splits)

lemma normaliseResource_cases:
  "(\<exists>x. resource = ''file:'' @ x) \<or> normaliseResource resource = resource"
proof (cases "index_of CHR '':'' resource")
  case (Some i)
  then show ?thesis
  proof (cases "take i resource = ''file''")
    case True
    with index_of_SomeD [OF Some] have "resource = ''file'' @ CHR '':'' # drop (Suc i) resource"
      by metis
    then have "resource = ''file:'' @ drop (Suc i) resource" by simp
    then show ?thesis by blast
  qed (simp add: normaliseResource_def)
qed (simp add: normaliseResource_def)

lemma norm_rest_idem: "norm_rest (norm_rest x) = norm_rest x"
proof -
  define rest where "rest = slashes x"
  define body where "body = (if ends_with GLOB rest then drop_end (length GLOB) rest else rest)"
  define out where "out = lead body @ normalisePath body"
  have free: "CHR 0x5C \<notin> set body"
    using slashes_free set_drop_end by (auto simp: body_def rest_def)
  have free_out: "CHR 0x5C \<notin> set out"
    using free normalisePath_chars [of "CHR 0x5C" body] by (auto simp: out_def lead_def)
  have once: "norm_rest x = (if normalisePath body = [] \<and> \<not> ends_with GLOB rest then x
      else out @ (if ends_with GLOB rest then GLOB else []))"
    by (simp add: norm_rest_def Let_def body_def rest_def out_def)
  show ?thesis
  proof (cases "ends_with GLOB rest")
    case True
    have "slashes (out @ GLOB) = out @ GLOB"
      using free_out by (intro slashes_id) (auto simp: GLOB_def)
    moreover have "lead out @ normalisePath out = out"
      unfolding out_def by (simp only: lead_normalised)
    ultimately have "norm_rest (out @ GLOB) = out @ GLOB"
      by (simp add: norm_rest_def Let_def)
    with True once show ?thesis by simp
  next
    case False
    note noglob = this
    show ?thesis
    proof (cases "normalisePath body = []")
      case True
      with noglob once show ?thesis by simp
    next
      case ne: False
      have id: "slashes out = out" using free_out by (rule slashes_id)
      have "norm_rest out = out"
      proof (cases "ends_with GLOB out")
        case True
        then obtain c where c: "out = c @ GLOB" by (auto simp: ends_with_iff)
        then have "lead c @ normalisePath c = c"
          using lead_of_glob ne by (simp add: out_def)
        then have "lead c @ normalisePath c @ GLOB = c @ GLOB" by (metis append_assoc)
        with c id show ?thesis by (simp add: norm_rest_def Let_def)
      next
        case False
        with id ne lead_normalised [of body] show ?thesis
          by (simp add: norm_rest_def Let_def out_def)
      qed
      with noglob ne once show ?thesis by simp
    qed
  qed
qed

section \<open>What a claimed resource covers\<close>

text \<open>
  The paths a claimed resource stands for: a glob stands for its directory and for every
  path under it, segment by segment, and any other resource stands for itself.
\<close>

definition under :: "string \<Rightarrow> string \<Rightarrow> bool" where
  "under base p = (p = base \<or> starts_with (base @ ''/'') p)"

definition denotes :: "string \<Rightarrow> string set" where
  "denotes rest = (if ends_with GLOB rest then {p. under (drop_end (length GLOB) rest) p} else {rest})"

lemma under_iff: "under base p \<longleftrightarrow> p = base \<or> (\<exists>t. p = base @ slash # t)"
  by (auto simp: under_def starts_with_iff)

lemma under_refl [simp]: "under base base"
  by (simp add: under_def)

lemma under_meet: "(\<exists>p. under a p \<and> under b p) \<longleftrightarrow> under a b \<or> under b a"
proof
  assume "\<exists>p. under a p \<and> under b p"
  then obtain p where "under a p" "under b p" by blast
  then show "under a b \<or> under b a"
    by (auto simp: under_iff append_eq_append_conv2 append_eq_Cons_conv Cons_eq_append_conv)
next
  assume "under a b \<or> under b a"
  then show "\<exists>p. under a p \<and> under b p" using under_refl by blast
qed

lemma under_glob: "under a (b @ GLOB) \<longleftrightarrow> under a b \<or> a = b @ GLOB"
  by (auto simp: under_iff GLOB_def append_eq_append_conv2 append_eq_Cons_conv Cons_eq_append_conv)

lemma under_glob_meet: "under a (b @ GLOB) \<or> under b (a @ GLOB) \<longleftrightarrow> under a b \<or> under b a"
  unfolding under_glob by (auto simp: under_iff GLOB_def)

lemma covers_rest_iff: "covers_rest glob plain \<longleftrightarrow> ends_with GLOB glob \<and> under (drop_end (length GLOB) glob) plain"
  by (simp add: covers_rest_def under_def)

lemma covers_rest_meet:
  "a = b \<or> covers_rest a b \<or> covers_rest b a \<longleftrightarrow> denotes a \<inter> denotes b \<noteq> {}"
proof -
  consider "\<not> ends_with GLOB a \<or> \<not> ends_with GLOB b" | c d where "a = c @ GLOB" "b = d @ GLOB"
    by (auto simp: ends_with_iff)
  then show ?thesis
  proof cases
    case 1
    then show ?thesis by (auto simp: covers_rest_iff denotes_def)
  next
    case 2
    then have "denotes a \<inter> denotes b \<noteq> {} \<longleftrightarrow> under c d \<or> under d c"
      by (simp add: denotes_def flip: under_meet) blast
    moreover have "covers_rest a b \<or> covers_rest b a \<longleftrightarrow> under c d \<or> under d c"
      using 2 under_glob_meet [of c d] by (simp add: covers_rest_iff)
    moreover have "a = b \<Longrightarrow> under c d" using 2 by simp
    ultimately show ?thesis by blast
  qed
qed

lemma split_resource_colon:
  "CHR '':'' \<in> set r \<Longrightarrow> r = fst (split_resource r) @ CHR '':'' # snd (split_resource r)"
proof -
  assume "CHR '':'' \<in> set r"
  then have "\<exists>i. index_of CHR '':'' r = Some i" by (induction r) auto
  then obtain i where "index_of CHR '':'' r = Some i" by blast
  then show ?thesis using index_of_SomeD [of "CHR '':''" r i] by (simp add: split_resource_def)
qed

lemma overlaps_refl [simp]: "overlaps r r"
  by (simp add: overlaps_def)

lemma overlaps_sym: "overlaps a b \<longleftrightarrow> overlaps b a"
  by (auto simp: overlaps_def Let_def)

lemma split_resource_file [simp]: "split_resource (''file:'' @ x) = (''file'', x)"
  by (simp add: split_resource_def)

lemma RESOURCE_URI_colon: "RESOURCE_URI r \<Longrightarrow> CHR '':'' \<in> set r"
  using index_of_SomeD [of "CHR '':''" r] by (auto simp: RESOURCE_URI_def split: option.splits) (metis in_set_conv_decomp)

section \<open>Properties\<close>

text \<open>
  C18. \<^verbatim>\<open>normaliseResource\<close> is idempotent on every string, of any scheme, with or
  without a glob, absolute or climbing: the name it gives a resource is stable, so a claim
  stored under it is found again by normalising the stored name.
\<close>

theorem normaliseResource_idempotent:
  "normaliseResource (normaliseResource resource) = normaliseResource resource"
proof (cases "\<exists>x. resource = ''file:'' @ x")
  case True
  then obtain x where "resource = ''file:'' @ x" by blast
  then have "normaliseResource resource = ''file:'' @ norm_rest x"
    by (simp only: normaliseResource_file)
  then show ?thesis
    by (simp only: normaliseResource_file norm_rest_idem)
next
  case False
  then show ?thesis using normaliseResource_cases by metis
qed

text \<open>
  C20. Two spellings of a path normalise to one string exactly when they name the same
  place, that is the same number of steps up and the same names down; so normalisation
  neither separates two spellings of one file nor merges two files.
\<close>

theorem normalisePath_exact:
  "normalisePath a = normalisePath b \<longleftrightarrow> names_of a = names_of b"
  by (rule normalisePath_eq_iff)

text \<open>
  C11. Two resource URIs overlap exactly when they have one scheme and some path is covered
  by both, whatever mixture of plain names and globs they are: comparison is per path
  segment, never by raw string prefix.
\<close>

theorem overlaps_iff_meet:
  assumes "RESOURCE_URI a" and "RESOURCE_URI b"
  shows "overlaps a b \<longleftrightarrow> fst (split_resource a) = fst (split_resource b)
    \<and> denotes (snd (split_resource a)) \<inter> denotes (snd (split_resource b)) \<noteq> {}"
proof -
  have "a = b \<longleftrightarrow> fst (split_resource a) = fst (split_resource b)
      \<and> snd (split_resource a) = snd (split_resource b)"
    using assms [THEN RESOURCE_URI_colon, THEN split_resource_colon] by metis
  then show ?thesis
    by (auto simp: overlaps_def Let_def simp flip: covers_rest_meet)
qed

theorem overlaps_iff_meet_witness:
  "overlaps ''file:src/**'' ''file:src/a.mjs'' \<and> \<not> overlaps ''file:src/**'' ''file:srcx/a.mjs''
   \<and> denotes ''src/**'' \<inter> denotes ''src/a.mjs'' \<noteq> {} \<and> denotes ''src/**'' \<inter> denotes ''srcx/a.mjs'' = {}"
proof -
  have uri: "RESOURCE_URI ''file:src/**''" "RESOURCE_URI ''file:src/a.mjs''" "RESOURCE_URI ''file:srcx/a.mjs''"
    by code_simp+
  have "overlaps ''file:src/**'' ''file:src/a.mjs''" "\<not> overlaps ''file:src/**'' ''file:srcx/a.mjs''"
    by code_simp+
  moreover have "split_resource ''file:src/**'' = (''file'', ''src/**'')"
    "split_resource ''file:src/a.mjs'' = (''file'', ''src/a.mjs'')"
    "split_resource ''file:srcx/a.mjs'' = (''file'', ''srcx/a.mjs'')"
    by code_simp+
  ultimately show ?thesis
    using overlaps_iff_meet [OF uri(1) uri(2)] overlaps_iff_meet [OF uri(1) uri(3)] by simp
qed

text \<open>
  C21. The write guard and the claim service agree: for every claimed file resource and
  every plain file about to be written, the guard's \<^verbatim>\<open>covers\<close> holds exactly when the
  claim service would call the two resources overlapping.
\<close>

theorem guard_covers_agrees:
  assumes "\<not> ends_with GLOB t"
  shows "guard_covers (''file:'' @ r) (''file:'' @ t) \<longleftrightarrow> overlaps (''file:'' @ r) (''file:'' @ t)"
proof -
  have ends: "ends_with GLOB (''file:'' @ r) \<longleftrightarrow> ends_with GLOB r"
    by (auto simp: ends_with_iff GLOB_def append_eq_append_conv2 append_eq_Cons_conv Cons_eq_append_conv)
  show ?thesis
  proof (cases "ends_with GLOB r")
    case True
    then obtain c where c: "r = c @ GLOB" by (auto simp: ends_with_iff)
    then have "drop_end 3 (''file:'' @ r) = ''file:'' @ c"
      using drop_end_append [of GLOB "''file:'' @ c"] by (simp add: GLOB_def numeral_3_eq_3)
    then have "guard_covers (''file:'' @ r) (''file:'' @ t) \<longleftrightarrow> r = t \<or> under c t"
      using True ends by (simp add: guard_covers_def Let_def under_def starts_with_def)
    moreover have "overlaps (''file:'' @ r) (''file:'' @ t) \<longleftrightarrow> r = t \<or> under c t"
      using assms c by (simp add: overlaps_def covers_rest_iff split_resource_file [simplified])
    ultimately show ?thesis by simp
  next
    case False
    with assms ends show ?thesis
      by (simp add: guard_covers_def overlaps_def covers_rest_iff split_resource_file [simplified])
  qed
qed

theorem guard_covers_agrees_witness:
  "guard_covers ''file:src/**'' ''file:src/a.mjs'' \<longleftrightarrow> overlaps ''file:src/**'' ''file:src/a.mjs''"
proof -
  have "\<not> ends_with GLOB ''src/a.mjs''" by code_simp
  from guard_covers_agrees [OF this, of "''src/**''"] show ?thesis by simp
qed

text \<open>
  C23. A claim on the whole workspace spelled \<^verbatim>\<open>file:./**\<close> passes the resource check
  and the refusal of claims that match nothing, normalises to \<^verbatim>\<open>file:/**\<close>, and then
  overlaps no workspace-relative path at all: neither the claim service nor the write guard
  ever applies it to a file of the workspace.
\<close>

theorem whole_workspace_claim_is_inert:
  assumes "p \<noteq> []" and "\<not> starts_with ''/'' p"
  shows "resource_uri ''file:./**'' \<and> assertMatchableResource fail ''file:./**'' = Inr ''file:./**''
    \<and> \<not> overlaps (normaliseResource ''file:./**'') (''file:'' @ p)
    \<and> \<not> guard_covers (normaliseResource ''file:./**'') (''file:'' @ p)"
proof -
  have "resource_uri ''file:./**''" by code_simp
  moreover have "assertMatchableResource fail ''file:./**'' = Inr ''file:./**''"
    by (simp add: assertMatchableResource_def starts_with_def slashes_def replace_char_def
        ends_with_def GLOB_def drop_end_def)
  moreover have norm: "normaliseResource ''file:./**'' = ''file:/**''" by code_simp
  obtain c cs where p: "p = c # cs" "c \<noteq> slash"
    using assms by (cases p) (auto simp: starts_with_def)
  have "\<not> covers_rest ''/**'' p"
    using p by (simp add: covers_rest_def starts_with_def drop_end_def GLOB_def)
  moreover have "\<not> covers_rest p ''/**''"
  proof
    assume "covers_rest p ''/**''"
    then obtain d where "p = d @ GLOB" "under d ''/**''"
      by (auto simp: covers_rest_iff ends_with_iff)
    with p show False by (cases d) (auto simp: under_iff GLOB_def)
  qed
  ultimately have "\<not> overlaps ''file:/**'' (''file:'' @ p)"
    using p split_resource_file [of p] split_resource_file [of "''/**''"]
    by (auto simp: overlaps_def Let_def)
  moreover have "\<not> guard_covers ''file:/**'' (''file:'' @ p)"
    using p by (simp add: guard_covers_def drop_end_def starts_with_def)
  ultimately show ?thesis using norm
    \<open>resource_uri ''file:./**''\<close> \<open>assertMatchableResource fail ''file:./**'' = Inr ''file:./**''\<close>
    by simp
qed

theorem whole_workspace_claim_is_inert_witness:
  "\<not> overlaps (normaliseResource ''file:./**'') ''file:src/a.mjs''
   \<and> \<not> guard_covers (normaliseResource ''file:./**'') ''file:src/a.mjs''"
  using whole_workspace_claim_is_inert [of "''src/a.mjs''"] by (simp add: starts_with_def)

end
