(* ===== verification/Json_Schema.thy ===== *)
theory Json_Schema
  imports Resources
begin

text \<open>
  JSON values and the record checks: the field checks of
  \<^verbatim>\<open>packages/protocol/src/fields.mjs\<close>, the record schema of \<^verbatim>\<open>schema.mjs\<close>, the
  message rules of \<^verbatim>\<open>conversations.mjs\<close> and of \<^verbatim>\<open>decision-changes.mjs\<close>.

  A check takes the value a field holds, \<open>None\<close> for \<^verbatim>\<open>undefined\<close>, and the name it
  reports. Numbers are integers: no field of a record admits a fraction. A record's
  timestamps are canonical ISO strings; \<open>to_iso\<close> is \<^verbatim>\<open>Date.prototype.toISOString\<close> and
  \<open>date_parse\<close> is \<^verbatim>\<open>Date.parse\<close> on the format that \<^verbatim>\<open>toISOString\<close> writes,
  the only strings on which the two agree.
\<close>

section \<open>JSON values\<close>

datatype json =
    JNull
  | JBool bool
  | JNum int
  | JStr string
  | JArr "json list"
  | JObj "(string \<times> json) list"

type_synonym check = "json option \<Rightarrow> string \<Rightarrow> unit res"

function show_nat :: "nat \<Rightarrow> string" where
  "show_nat n = (if n < 10 then [digit_char n] else show_nat (n div 10) @ [digit_char (n mod 10)])"
  by auto
termination by (relation "measure id") auto

declare show_nat.simps [simp del]

definition show_int :: "int \<Rightarrow> string" where
  "show_int i = (if i < 0 then CHR ''-'' # show_nat (nat (- i)) else show_nat (nat i))"

text \<open>\<^verbatim>\<open>String(value)\<close>.\<close>

fun js_string :: "json option \<Rightarrow> string" where
  "js_string None = ''undefined''"
| "js_string (Some JNull) = ''null''"
| "js_string (Some (JBool b)) = (if b then ''true'' else ''false'')"
| "js_string (Some (JNum i)) = show_int i"
| "js_string (Some (JStr s)) = s"
| "js_string (Some (JArr xs)) =
     join_with '','' (map (\<lambda>x. case x of JNull \<Rightarrow> [] | _ \<Rightarrow> js_string (Some x)) xs)"
| "js_string (Some (JObj _)) = ''[object Object]''"

section \<open>Timestamps\<close>

text \<open>Year, month and day of a day number counted from 1970-01-01.\<close>

definition civil_of_day :: "int \<Rightarrow> int \<times> int \<times> int" where
  "civil_of_day day =
     (let z = day + 719468; era = z div 146097; doe = z mod 146097;
          yoe = (doe - doe div 1460 + doe div 36524 - doe div 146096) div 365;
          doy = doe - (365 * yoe + yoe div 4 - yoe div 100);
          mp = (5 * doy + 2) div 153;
          d = doy - (153 * mp + 2) div 5 + 1;
          m = (if mp < 10 then mp + 3 else mp - 9)
      in (yoe + era * 400 + (if m \<le> 2 then 1 else 0), m, d))"

definition day_of_civil :: "int \<times> int \<times> int \<Rightarrow> int" where
  "day_of_civil c = (case c of (year, m, d) \<Rightarrow>
     let y = (if m \<le> 2 then year - 1 else year); era = y div 400; yoe = y mod 400;
         doy = (153 * (if m > 2 then m - 3 else m + 9) + 2) div 5 + d - 1;
         doe = yoe * 365 + yoe div 4 - yoe div 100 + doy
     in era * 146097 + doe - 719468)"

definition valid_time :: "time \<Rightarrow> bool" where
  "valid_time t = (- 8640000000000000 \<le> t \<and> t \<le> 8640000000000000)"

definition digits :: "nat \<Rightarrow> int \<Rightarrow> string" where
  "digits w i = pad_digits w (nat i)"

text \<open>The same digits computed on integers, for evaluation.\<close>

fun int_digits :: "nat \<Rightarrow> int \<Rightarrow> string" where
  "int_digits 0 i = []"
| "int_digits (Suc w) i = int_digits w (i div 10) @ [char_of (48 + i mod 10)]"

lemma int_digits_nat: "0 \<le> i \<Longrightarrow> int_digits w i = pad_digits w (nat i)"
proof (induction w arbitrary: i)
  case (Suc w)
  have "char_of (48 + i mod 10) = digit_char (nat i mod 10)"
    using Suc.prems by (simp add: digit_char_def zmod_int flip: char_of_nat [where ?'a = int])
  with Suc show ?case by (simp add: nat_div_distrib)
qed simp

lemma digits_code [code]: "digits w i = int_digits w (if i < 0 then 0 else i)"
  by (simp add: digits_def int_digits_nat)

definition show_year :: "int \<Rightarrow> string" where
  "show_year y = (if 0 \<le> y \<and> y \<le> 9999 then digits 4 y
     else if y < 0 then CHR ''-'' # digits 6 (- y) else CHR ''+'' # digits 6 y)"

definition to_iso :: "time \<Rightarrow> string" where
  "to_iso t = (case civil_of_day (t div 86400000) of (y, m, d) \<Rightarrow>
     let ms = t mod 86400000 in
       show_year y @ ''-'' @ digits 2 m @ ''-'' @ digits 2 d @ ''T'' @ digits 2 (ms div 3600000)
         @ '':'' @ digits 2 (ms div 60000 mod 60) @ '':'' @ digits 2 (ms div 1000 mod 60)
         @ ''.'' @ digits 3 (ms mod 1000) @ ''Z'')"

text \<open>\<^verbatim>\<open>new Date(t).toISOString()\<close> throws outside the range of a date.\<close>

definition toISOString :: "time \<Rightarrow> string res" where
  "toISOString t = (if valid_time t then Inr (to_iso t) else Inl (JsError ''Invalid time value''))"

definition read_digits :: "string \<Rightarrow> int" where
  "read_digits s = foldl (\<lambda>a c. 10 * a + (of_char c - 48)) 0 s"

definition parse_fields :: "int \<Rightarrow> string \<Rightarrow> time" where
  "parse_fields y s = day_of_civil (y, read_digits (take 2 (drop 1 s)), read_digits (take 2 (drop 4 s))) * 86400000
     + read_digits (take 2 (drop 7 s)) * 3600000 + read_digits (take 2 (drop 10 s)) * 60000
     + read_digits (take 2 (drop 13 s)) * 1000 + read_digits (take 3 (drop 16 s))"

text \<open>
  \<^verbatim>\<open>Date.parse\<close> of a string in the format \<^verbatim>\<open>toISOString\<close> writes; what it makes of
  any other string does not matter, since no other string is written back as it was read.
\<close>

definition date_parse :: "string \<Rightarrow> time" where
  "date_parse s = (case s of
     [] \<Rightarrow> 0
   | c # cs \<Rightarrow> if c = CHR ''+'' then parse_fields (read_digits (take 6 cs)) (drop 6 cs)
       else if c = CHR ''-'' then parse_fields (- read_digits (take 6 cs)) (drop 6 cs)
       else parse_fields (read_digits (take 4 s)) (drop 4 s))"

definition canonical_timestamp :: "string \<Rightarrow> bool" where
  "canonical_timestamp s = (valid_time (date_parse s) \<and> to_iso (date_parse s) = s)"

section \<open>Field checks\<close>

definition invalid :: "string \<Rightarrow> string \<Rightarrow> 'a res" where
  "invalid field message = Inl (AccError DATA (field @ '' '' @ message))"

definition id_check :: check where
  "id_check v field = (case v of
     Some (JStr s) \<Rightarrow> if portable_id s then Inr () else invalid field ''must be a portable identifier''
   | _ \<Rightarrow> invalid field ''must be a portable identifier'')"

definition text_check :: "nat \<Rightarrow> bool \<Rightarrow> check" where
  "text_check mx multiline v field = (case v of
     Some (JStr s) \<Rightarrow>
       if list_all is_space s then invalid field ''must be a non-empty string''
       else if length s > mx then invalid field (''must be at most '' @ show_nat mx @ '' characters'')
       else if hasControl multiline s then invalid field ''must not contain control characters''
       else Inr ()
   | _ \<Rightarrow> invalid field ''must be a non-empty string'')"

definition timestamp_check :: check where
  "timestamp_check v field = (case v of
     Some (JStr s) \<Rightarrow> if canonical_timestamp s then Inr () else invalid field ''must be a canonical UTC timestamp''
   | _ \<Rightarrow> invalid field ''must be a canonical UTC timestamp'')"

definition oneOf :: "string list \<Rightarrow> check" where
  "oneOf allowed v field = (case v of
     Some (JStr s) \<Rightarrow> if s \<in> set allowed then Inr () else invalid field (''must be one of '' @ join_with '', '' allowed)
   | _ \<Rightarrow> invalid field (''must be one of '' @ join_with '', '' allowed))"

definition resourceUri :: check where
  "resourceUri v field = (case v of
     Some (JStr s) \<Rightarrow> if resource_uri s then Inr () else invalid field ''must be a scheme-qualified resource URI''
   | _ \<Rightarrow> invalid field ''must be a scheme-qualified resource URI'')"

fun list_items :: "check \<Rightarrow> string \<Rightarrow> nat \<Rightarrow> json list \<Rightarrow> unit res" where
  "list_items inner field i [] = Inr ()"
| "list_items inner field i (x # xs) =
     bind_r (inner (Some x) (field @ ''['' @ show_nat i @ '']'')) (\<lambda>_. list_items inner field (Suc i) xs)"

definition listOf :: "check \<Rightarrow> check" where
  "listOf inner v field = (case v of
     Some (JArr xs) \<Rightarrow> list_items inner field 0 xs
   | _ \<Rightarrow> invalid field ''must be an array'')"

definition nullable :: "check \<Rightarrow> check" where
  "nullable inner v field = (if v = Some JNull then Inr () else inner v field)"

definition optional_check :: "check \<Rightarrow> check" where
  "optional_check inner v field = (if v = None then Inr () else inner v field)"

text \<open>The largest safe integer is \<open>2 ^ 53 - 1\<close>.\<close>

definition MAX_SAFE_INTEGER :: int where
  "MAX_SAFE_INTEGER = 9007199254740991"

definition positiveInteger :: check where
  "positiveInteger v field = (case v of
     Some (JNum i) \<Rightarrow> if 0 < i \<and> i \<le> MAX_SAFE_INTEGER then Inr () else invalid field ''must be a positive integer''
   | _ \<Rightarrow> invalid field ''must be a positive integer'')"

definition plainObject :: check where
  "plainObject v field = (case v of Some (JObj _) \<Rightarrow> Inr () | _ \<Rightarrow> invalid field ''must be an object'')"

definition sequence_check :: check where
  "sequence_check v field = (case v of
     Some (JStr s) \<Rightarrow> if length s = 16 \<and> list_all is_digit s then Inr ()
       else invalid field ''must be a 16-digit zero-padded sequence''
   | _ \<Rightarrow> invalid field ''must be a 16-digit zero-padded sequence'')"

text \<open>\<^verbatim>\<open>value[key]\<close> of a value that passed \<^verbatim>\<open>plainObject\<close>.\<close>

fun fields_of :: "json option \<Rightarrow> (string \<times> json) list" where
  "fields_of (Some (JObj kvs)) = kvs"
| "fields_of _ = []"

definition uniqueListOf :: "check \<Rightarrow> check" where
  "uniqueListOf inner v field =
     bind_r (listOf inner v field) (\<lambda>_. case v of
       Some (JArr xs) \<Rightarrow> if length (js_uniq xs) \<noteq> length xs then invalid field ''must not repeat entries'' else Inr ()
     | _ \<Rightarrow> Inr ())"

section \<open>The record schema\<close>

definition SCHEMA_VERSION :: int where
  "SCHEMA_VERSION = 3"

definition INTENT_MODES :: "string list" where
  "INTENT_MODES = [''observe'', ''explore'', ''edit'', ''review'', ''coordinate'', ''wait'']"

definition INTENT_STATES :: "string list" where
  "INTENT_STATES = [''active'', ''blocked'', ''waiting'', ''done'']"

definition CLAIM_MODES :: "string list" where
  "CLAIM_MODES = [''shared'', ''exclusive'']"

definition CLAIM_ENFORCEMENTS :: "string list" where
  "CLAIM_ENFORCEMENTS = [''advisory'', ''guarded'']"

definition HANDOFF_STATUSES :: "string list" where
  "HANDOFF_STATUSES = [''complete'', ''partial'', ''blocked'']"

definition line :: check where
  "line = text_check 500 False"

definition prose :: check where
  "prose = text_check 4000 True"

definition summary_check :: check where
  "summary_check = text_check 280 False"

text \<open>The same bounds compared as integers, for evaluation.\<close>

definition int_text_check :: "int \<Rightarrow> bool \<Rightarrow> check" where
  "int_text_check mx multiline = text_check (nat mx) multiline"

lemma int_text_check_code [code]:
  "int_text_check mx multiline v field = (case v of
     Some (JStr s) \<Rightarrow>
       if list_all is_space s then invalid field ''must be a non-empty string''
       else if int (length s) > max 0 mx then invalid field (''must be at most '' @ show_nat (nat mx) @ '' characters'')
       else if hasControl multiline s then invalid field ''must not contain control characters''
       else Inr ()
   | _ \<Rightarrow> invalid field ''must be a non-empty string'')"
proof -
  have "int (length s) > max 0 mx \<longleftrightarrow> length s > nat mx" for s :: string by linarith
  then show ?thesis by (simp add: int_text_check_def text_check_def split: option.splits json.splits)
qed

lemma text_checks_code [code]:
  "line = int_text_check 500 False" "prose = int_text_check 4000 True" "summary_check = int_text_check 280 False"
  by (simp_all add: line_def prose_def summary_check_def int_text_check_def fun_eq_iff)

definition artifactKind :: check where
  "artifactKind = oneOf [''file'', ''git'', ''url'', ''report'', ''image'', ''data'']"

definition known_keys :: "string list \<Rightarrow> string \<Rightarrow> string \<Rightarrow> (string \<times> json) list \<Rightarrow> unit res" where
  "known_keys known field message kvs = each_r (\<lambda>(key, _).
     if key \<in> set known then Inr () else invalid (field @ ''.'' @ key) message) kvs"

definition closedObject :: "(string \<times> check) list \<Rightarrow> check" where
  "closedObject fields v field =
     bind_r (plainObject v field) (\<lambda>_.
     bind_r (known_keys (map fst fields) field ''is not a known field'' (fields_of v)) (\<lambda>_.
     each_r (\<lambda>(key, check). case map_of (fields_of v) key of
         None \<Rightarrow> Inl (AccError DATA (field @ '' requires '' @ key))
       | Some x \<Rightarrow> check (Some x) (field @ ''.'' @ key)) fields))"

definition is_sha256 :: "string \<Rightarrow> bool" where
  "is_sha256 s = (length s = 64 \<and> list_all (\<lambda>c. is_digit c \<or> (CHR ''a'' \<le> c \<and> c \<le> CHR ''f'')) s)"

definition artifactRef :: check where
  "artifactRef v field =
     bind_r (plainObject v field) (\<lambda>_. let get = map_of (fields_of v) in
     bind_r (known_keys [''kind'', ''uri'', ''description'', ''sha256''] field
       ''is not a known artifact field'' (fields_of v)) (\<lambda>_.
     bind_r (artifactKind (get ''kind'') (field @ ''.kind'')) (\<lambda>_.
     bind_r (resourceUri (get ''uri'') (field @ ''.uri'')) (\<lambda>_.
     bind_r (line (get ''description'') (field @ ''.description'')) (\<lambda>_.
     if get ''sha256'' \<noteq> None \<and> \<not> is_sha256 (js_string (get ''sha256''))
     then invalid (field @ ''.sha256'') ''must be a lowercase SHA-256 digest''
     else Inr ())))))"

definition handoffPayload :: check where
  "handoffPayload = closedObject [(''status'', oneOf HANDOFF_STATUSES), (''completed'', listOf line),
     (''remaining'', listOf line), (''blockers'', listOf line), (''verification'', listOf artifactRef)]"

definition EVENT_TYPES :: "string list" where
  "EVENT_TYPES = [''workspace.materialised'', ''session.opened'', ''session.closed'',
     ''intent.published'', ''intent.cleared'', ''claim.acquired'', ''claim.released'', ''claim.renewed'',
     ''claim.force_released'', ''message.recorded'', ''message.offered'', ''message.retrieved'',
     ''message.acknowledged'', ''message.offer_succeeded'', ''message.offer_failed'']"

definition DELIVERY_MODES :: "string list" where
  "DELIVERY_MODES = [''nextTurn'', ''livePush'', ''idleWake'', ''busyQueue'', ''replyRoute'']"

section \<open>Decision changes and message rules\<close>

definition assertDecisionChange :: check where
  "assertDecisionChange v field =
     bind_r (plainObject v field) (\<lambda>_. let get = map_of (fields_of v) in
     bind_r (known_keys [''action'', ''messageIds''] field ''is not a known field'' (fields_of v)) (\<lambda>_.
     bind_r (oneOf [''replace'', ''withdraw''] (get ''action'') (field @ ''.action'')) (\<lambda>_.
     bind_r (listOf id_check (get ''messageIds'') (field @ ''.messageIds'')) (\<lambda>_.
     case get ''messageIds'' of
       Some (JArr xs) \<Rightarrow> if length xs < 1 \<or> length xs > 16 \<or> length (js_uniq xs) \<noteq> length xs
         then invalid (field @ ''.messageIds'') ''requires 1 to 16 unique decision message ids'' else Inr ()
     | _ \<Rightarrow> Inr ()))))"

definition VALID_OBLIGATIONS :: "(string \<times> string list) list" where
  "VALID_OBLIGATIONS = [(''note'', [''none'']), (''question'', [''reply'']), (''request'', [''reply'']),
     (''answer'', [''none'']), (''decision'', [''none'', ''acknowledge'']),
     (''handoff'', [''none'', ''acknowledge''])]"

definition MESSAGE_KINDS :: "string list" where
  "MESSAGE_KINDS = map fst VALID_OBLIGATIONS"

definition GENERIC_MESSAGE_KINDS :: "string list" where
  "GENERIC_MESSAGE_KINDS = [''note'', ''question'', ''request'', ''decision'']"

definition OBLIGATIONS :: "string list" where
  "OBLIGATIONS = [''none'', ''acknowledge'', ''reply'']"

definition str_field :: "(string \<times> json) list \<Rightarrow> string \<Rightarrow> string" where
  "str_field kvs key = (case map_of kvs key of Some (JStr s) \<Rightarrow> s | _ \<Rightarrow> [])"

definition assertMessageSemantics :: "(string \<times> json) list \<Rightarrow> unit res" where
  "assertMessageSemantics message =
     (let kind = str_field message ''kind''; obligation = str_field message ''obligation'';
          room = map_of message ''toParticipantIds'' = Some (JArr []);
          root = map_of message ''threadId'' = map_of message ''messageId'';
          no_reply = map_of message ''inReplyTo'' = Some JNull;
          no_handoff = map_of message ''handoff'' = Some JNull;
          valid = (case map_of VALID_OBLIGATIONS kind of None \<Rightarrow> [] | Some os \<Rightarrow> os)
      in bind_r (throw_if (map_of message ''decisionChange'' \<noteq> None \<and> kind \<noteq> ''decision'') DATA
           ''only a decision can replace or withdraw decisions'') (\<lambda>_.
         bind_r (throw_if (room \<and> kind \<notin> {''note'', ''decision'', ''handoff''}) DATA
           (''a room message cannot have kind '' @ kind)) (\<lambda>_.
         bind_r (throw_if (room \<and> obligation \<noteq> ''none'') DATA
           ''a room message must have obligation none'') (\<lambda>_.
         bind_r (throw_if (obligation \<notin> set valid) DATA
           (''message obligation '' @ obligation @ '' is invalid for '' @ kind)) (\<lambda>_.
         bind_r (throw_if (kind = ''answer'' \<and> no_reply) DATA ''an answer requires inReplyTo'') (\<lambda>_.
         bind_r (throw_if (kind = ''answer'' \<and> root) DATA ''an answer cannot be a thread root'') (\<lambda>_.
         bind_r (throw_if (no_reply \<and> \<not> root) DATA
           ''a thread root requires threadId to equal messageId'') (\<lambda>_.
         bind_r (throw_if (\<not> no_reply \<and> root) DATA ''a thread root must have inReplyTo null'') (\<lambda>_.
         bind_r (throw_if (kind = ''handoff'' \<and> no_handoff) DATA
           ''a handoff message requires a handoff payload'') (\<lambda>_.
         bind_r (throw_if (\<not> room \<and> kind = ''handoff'' \<and> obligation \<noteq> ''acknowledge'') DATA
           ''an addressed handoff requires acknowledgement'') (\<lambda>_.
         throw_if (kind \<noteq> ''handoff'' \<and> \<not> no_handoff) DATA
           (''a '' @ kind @ '' message must have handoff null''))))))))))))"

section \<open>Validating a record\<close>

text \<open>The third component marks a field whose check is \<^verbatim>\<open>optional\<close>.\<close>

definition DURABLE_RECORDS :: "(string \<times> (string \<times> check \<times> bool) list) list" where
  "DURABLE_RECORDS =
     [(''workspace'', [(''workspaceId'', id_check, False), (''displayName'', line, False),
        (''source'', oneOf [''config'', ''git'', ''directory''], False), (''roots'', listOf line, False),
        (''createdAt'', timestamp_check, False)]),
      (''participant'', [(''participantId'', id_check, False), (''workspaceId'', id_check, False),
        (''displayName'', line, False), (''kind'', oneOf [''agent'', ''human''], False),
        (''createdAt'', timestamp_check, False)]),
      (''session'', [(''sessionId'', id_check, False), (''participantId'', id_check, False),
        (''workspaceId'', id_check, False), (''generation'', id_check, False), (''harness'', line, False),
        (''state'', oneOf [''open'', ''closed''], False), (''parentSessionId'', nullable id_check, False),
        (''checkoutRoot'', nullable line, False), (''branch'', nullable line, False),
        (''pid'', nullable positiveInteger, False), (''enforcement'', oneOf [''guarded'', ''advisory''], False),
        (''lifecycle'', oneOf [''managed'', ''manual''], False),
        (''heartbeatCadenceMs'', positiveInteger, False), (''startedAt'', timestamp_check, False),
        (''heartbeatAt'', timestamp_check, False)]),
      (''intent'', [(''sessionId'', id_check, False), (''workspaceId'', id_check, False),
        (''summary'', summary_check, False), (''mode'', oneOf INTENT_MODES, False),
        (''resourceHints'', listOf resourceUri, False), (''state'', oneOf INTENT_STATES, False),
        (''updatedAt'', timestamp_check, False)]),
      (''claim'', [(''claimId'', id_check, False), (''workspaceId'', id_check, False),
        (''ownerSessionId'', id_check, False), (''resource'', resourceUri, False),
        (''mode'', oneOf CLAIM_MODES, False), (''enforcement'', oneOf CLAIM_ENFORCEMENTS, False),
        (''reason'', line, False), (''acquiredAt'', timestamp_check, False),
        (''expiresAt'', timestamp_check, False), (''generation'', id_check, False)]),
      (''message'', [(''messageId'', id_check, False), (''threadId'', id_check, False),
        (''clientMessageId'', id_check, False), (''workspaceId'', id_check, False),
        (''fromParticipantId'', id_check, False), (''fromSessionId'', id_check, False),
        (''toParticipantIds'', listOf id_check, False), (''kind'', oneOf MESSAGE_KINDS, False),
        (''obligation'', oneOf OBLIGATIONS, False), (''subject'', line, False), (''body'', prose, False),
        (''inReplyTo'', nullable id_check, False), (''artifacts'', listOf artifactRef, False),
        (''handoff'', nullable handoffPayload, False),
        (''decisionChange'', optional_check assertDecisionChange, True), (''sentAt'', timestamp_check, False)]),
      (''receipt'', [(''messageId'', id_check, False), (''workspaceId'', id_check, False),
        (''recipientParticipantId'', id_check, False),
        (''state'', oneOf [''queued'', ''offered'', ''retrieved'', ''acknowledged''], False),
        (''updatedAt'', timestamp_check, False)]),
      (''event'', [(''sequence'', sequence_check, False), (''eventId'', id_check, False),
        (''workspaceId'', id_check, False), (''actorSessionId'', id_check, False),
        (''type'', oneOf EVENT_TYPES, False), (''occurredAt'', timestamp_check, False),
        (''payload'', plainObject, False)])]"

definition RECORDS :: "(string \<times> (string \<times> check \<times> bool) list) list" where
  "RECORDS = DURABLE_RECORDS @
     [(''deliveryBinding'', [(''sessionId'', id_check, False), (''generation'', id_check, False),
        (''adapterId'', id_check, False), (''clientVersion'', line, False),
        (''availableModes'', uniqueListOf (oneOf DELIVERY_MODES), False),
        (''livePolicy'', oneOf [''off'', ''actionable'', ''all''], False), (''opaqueEndpointRef'', prose, False),
        (''leaseUntil'', timestamp_check, False),
        (''retiredAt'', optional_check (nullable timestamp_check), True)])]"

definition RECORD_KINDS :: "string list" where
  "RECORD_KINDS = map fst DURABLE_RECORDS"

definition check_fields :: "string \<Rightarrow> (string \<times> check \<times> bool) list \<Rightarrow> (string \<times> json) list \<Rightarrow> unit res" where
  "check_fields kind fields kvs = each_r (\<lambda>(field, check, opt). case map_of kvs field of
     None \<Rightarrow> if opt then Inr () else Inl (AccError DATA (kind @ '' requires '' @ field))
   | Some x \<Rightarrow> check (Some x) field) fields"

definition validateRecord :: "string \<Rightarrow> json \<Rightarrow> json res" where
  "validateRecord kind v = (case map_of RECORDS kind of
     None \<Rightarrow> Inl (AccError DATA (''unknown record kind: '' @ kind))
   | Some fields \<Rightarrow>
       bind_r (plainObject (Some v) kind) (\<lambda>_. let kvs = fields_of (Some v); version = map_of kvs ''schemaVersion'' in
       bind_r (throw_if (version \<noteq> Some (JNum SCHEMA_VERSION)) DATA
         (kind @ '' has an unknown schemaVersion: '' @ js_string version)) (\<lambda>_.
       bind_r (known_keys ([''schemaVersion'', ''extensions''] @ map fst fields) kind ''is not a known field'' kvs) (\<lambda>_.
       bind_r (check_fields kind fields kvs) (\<lambda>_.
       bind_r (case map_of kvs ''extensions'' of None \<Rightarrow> Inr () | Some x \<Rightarrow> plainObject (Some x) ''extensions'') (\<lambda>_.
       bind_r (if kind = ''message'' then assertMessageSemantics kvs else Inr ()) (\<lambda>_.
       Inr v)))))))"

lemma validateRecord_returns: "validateRecord kind v = Inr w \<Longrightarrow> w = v"
  by (auto simp: validateRecord_def Let_def res_simps split: option.splits)

end
