(* ===== verification/Records.thy ===== *)
theory Records
  imports Json_Schema
begin

text \<open>
  The records of the store, one HOL record per record kind of
  \<^verbatim>\<open>packages/protocol/src/schema.mjs\<close>, their JSON form, the checks of
  \<^verbatim>\<open>validateRecord\<close> on them, and the transaction indexes of
  \<^verbatim>\<open>transaction-indexes.mjs\<close>.

  Enumerated fields stay strings, as they are in the sources, so a record with a value the
  schema does not know is a record that fails its check. A timestamp is its milliseconds;
  its JSON form is the canonical string. A field that may be \<^verbatim>\<open>null\<close> is an option, and
  so is \<^verbatim>\<open>extensions\<close>, which a record may lack.
\<close>

section \<open>Record types\<close>

type_synonym fields = "(string \<times> json) list"

record workspace =
  w_workspaceId :: id
  w_displayName :: string
  w_source :: string
  w_roots :: "string list"
  w_createdAt :: time

record participant =
  p_participantId :: id
  p_workspaceId :: id
  p_displayName :: string
  p_kind :: string
  p_createdAt :: time

record session =
  s_sessionId :: id
  s_participantId :: id
  s_workspaceId :: id
  s_generation :: id
  s_harness :: string
  s_state :: string
  s_parentSessionId :: "id option"
  s_checkoutRoot :: "string option"
  s_branch :: "string option"
  s_pid :: "int option"
  s_enforcement :: string
  s_lifecycle :: string
  s_heartbeatCadenceMs :: int
  s_startedAt :: time
  s_heartbeatAt :: time
  s_extensions :: "fields option"

record intent =
  i_sessionId :: id
  i_workspaceId :: id
  i_summary :: string
  i_mode :: string
  i_resourceHints :: "string list"
  i_state :: string
  i_updatedAt :: time

record claim =
  c_claimId :: id
  c_workspaceId :: id
  c_ownerSessionId :: id
  c_resource :: string
  c_mode :: string
  c_enforcement :: string
  c_reason :: string
  c_acquiredAt :: time
  c_expiresAt :: time
  c_generation :: id

record decision_change =
  d_action :: string
  d_messageIds :: "id list"

record message =
  m_messageId :: id
  m_threadId :: id
  m_clientMessageId :: id
  m_workspaceId :: id
  m_fromParticipantId :: id
  m_fromSessionId :: id
  m_toParticipantIds :: "id list"
  m_kind :: string
  m_obligation :: string
  m_subject :: string
  m_body :: string
  m_inReplyTo :: "id option"
  m_artifacts :: "json list"
  m_handoff :: "json option"
  m_decisionChange :: "decision_change option"
  m_sentAt :: time
  m_extensions :: "fields option"

record receipt =
  r_messageId :: id
  r_workspaceId :: id
  r_recipientParticipantId :: id
  r_state :: string
  r_updatedAt :: time
  r_extensions :: "fields option"

record event =
  e_sequence :: nat
  e_eventId :: id
  e_workspaceId :: id
  e_actorSessionId :: id
  e_type :: string
  e_occurredAt :: time
  e_payload :: fields

record binding =
  b_sessionId :: id
  b_generation :: id
  b_adapterId :: id
  b_clientVersion :: string
  b_availableModes :: "string list"
  b_livePolicy :: string
  b_opaqueEndpointRef :: string
  b_leaseUntil :: time
  b_retiredAt :: "time option option"

datatype kind = Workspace | Participant | Session | Intent | Claim | Message | Receipt | DeliveryBinding

fun kind_name :: "kind \<Rightarrow> string" where
  "kind_name Workspace = ''workspace''"
| "kind_name Participant = ''participant''"
| "kind_name Session = ''session''"
| "kind_name Intent = ''intent''"
| "kind_name Claim = ''claim''"
| "kind_name Message = ''message''"
| "kind_name Receipt = ''receipt''"
| "kind_name DeliveryBinding = ''deliveryBinding''"

datatype entity =
    WorkspaceR workspace
  | ParticipantR participant
  | SessionR session
  | IntentR intent
  | ClaimR claim
  | MessageR message
  | ReceiptR receipt
  | BindingR binding

fun kind_of :: "entity \<Rightarrow> kind" where
  "kind_of (WorkspaceR _) = Workspace"
| "kind_of (ParticipantR _) = Participant"
| "kind_of (SessionR _) = Session"
| "kind_of (IntentR _) = Intent"
| "kind_of (ClaimR _) = Claim"
| "kind_of (MessageR _) = Message"
| "kind_of (ReceiptR _) = Receipt"
| "kind_of (BindingR _) = DeliveryBinding"

text \<open>Which workspace a record belongs to; a delivery binding has no such field.\<close>

fun workspace_of :: "entity \<Rightarrow> id option" where
  "workspace_of (WorkspaceR r) = Some (w_workspaceId r)"
| "workspace_of (ParticipantR r) = Some (p_workspaceId r)"
| "workspace_of (SessionR r) = Some (s_workspaceId r)"
| "workspace_of (IntentR r) = Some (i_workspaceId r)"
| "workspace_of (ClaimR r) = Some (c_workspaceId r)"
| "workspace_of (MessageR r) = Some (m_workspaceId r)"
| "workspace_of (ReceiptR r) = Some (r_workspaceId r)"
| "workspace_of (BindingR _) = None"

section \<open>JSON form\<close>

definition nullable_json :: "('a \<Rightarrow> json) \<Rightarrow> 'a option \<Rightarrow> json" where
  "nullable_json f v = (case v of None \<Rightarrow> JNull | Some x \<Rightarrow> f x)"

definition time_json :: "time \<Rightarrow> json" where
  "time_json t = JStr (to_iso t)"

definition strings_json :: "string list \<Rightarrow> json" where
  "strings_json xs = JArr (map JStr xs)"

definition version_field :: fields where
  "version_field = [(''schemaVersion'', JNum SCHEMA_VERSION)]"

definition extension_field :: "fields option \<Rightarrow> fields" where
  "extension_field v = (case v of None \<Rightarrow> [] | Some kvs \<Rightarrow> [(''extensions'', JObj kvs)])"

definition workspace_json :: "workspace \<Rightarrow> json" where
  "workspace_json r = JObj (version_field @ [(''workspaceId'', JStr (w_workspaceId r)),
     (''displayName'', JStr (w_displayName r)), (''source'', JStr (w_source r)),
     (''roots'', strings_json (w_roots r)), (''createdAt'', time_json (w_createdAt r))])"

definition participant_json :: "participant \<Rightarrow> json" where
  "participant_json r = JObj (version_field @ [(''participantId'', JStr (p_participantId r)),
     (''workspaceId'', JStr (p_workspaceId r)), (''displayName'', JStr (p_displayName r)),
     (''kind'', JStr (p_kind r)), (''createdAt'', time_json (p_createdAt r))])"

definition session_json :: "session \<Rightarrow> json" where
  "session_json r = JObj (version_field @ [(''sessionId'', JStr (s_sessionId r)),
     (''participantId'', JStr (s_participantId r)), (''workspaceId'', JStr (s_workspaceId r)),
     (''generation'', JStr (s_generation r)), (''harness'', JStr (s_harness r)), (''state'', JStr (s_state r)),
     (''parentSessionId'', nullable_json JStr (s_parentSessionId r)),
     (''checkoutRoot'', nullable_json JStr (s_checkoutRoot r)), (''branch'', nullable_json JStr (s_branch r)),
     (''pid'', nullable_json JNum (s_pid r)), (''enforcement'', JStr (s_enforcement r)),
     (''lifecycle'', JStr (s_lifecycle r)), (''heartbeatCadenceMs'', JNum (s_heartbeatCadenceMs r)),
     (''startedAt'', time_json (s_startedAt r)), (''heartbeatAt'', time_json (s_heartbeatAt r))]
     @ extension_field (s_extensions r))"

definition intent_json :: "intent \<Rightarrow> json" where
  "intent_json r = JObj (version_field @ [(''sessionId'', JStr (i_sessionId r)),
     (''workspaceId'', JStr (i_workspaceId r)), (''summary'', JStr (i_summary r)), (''mode'', JStr (i_mode r)),
     (''resourceHints'', strings_json (i_resourceHints r)), (''state'', JStr (i_state r)),
     (''updatedAt'', time_json (i_updatedAt r))])"

definition claim_json :: "claim \<Rightarrow> json" where
  "claim_json r = JObj (version_field @ [(''claimId'', JStr (c_claimId r)),
     (''workspaceId'', JStr (c_workspaceId r)), (''ownerSessionId'', JStr (c_ownerSessionId r)),
     (''resource'', JStr (c_resource r)), (''mode'', JStr (c_mode r)),
     (''enforcement'', JStr (c_enforcement r)), (''reason'', JStr (c_reason r)),
     (''acquiredAt'', time_json (c_acquiredAt r)), (''expiresAt'', time_json (c_expiresAt r)),
     (''generation'', JStr (c_generation r))])"

definition change_json :: "decision_change \<Rightarrow> json" where
  "change_json d = JObj [(''action'', JStr (d_action d)), (''messageIds'', strings_json (d_messageIds d))]"

definition message_json :: "message \<Rightarrow> json" where
  "message_json r = JObj (version_field @ [(''messageId'', JStr (m_messageId r)),
     (''threadId'', JStr (m_threadId r)), (''clientMessageId'', JStr (m_clientMessageId r)),
     (''workspaceId'', JStr (m_workspaceId r)), (''fromParticipantId'', JStr (m_fromParticipantId r)),
     (''fromSessionId'', JStr (m_fromSessionId r)), (''toParticipantIds'', strings_json (m_toParticipantIds r)),
     (''kind'', JStr (m_kind r)), (''obligation'', JStr (m_obligation r)), (''subject'', JStr (m_subject r)),
     (''body'', JStr (m_body r)), (''inReplyTo'', nullable_json JStr (m_inReplyTo r)),
     (''artifacts'', JArr (m_artifacts r)), (''handoff'', nullable_json (\<lambda>x. x) (m_handoff r))]
     @ (case m_decisionChange r of None \<Rightarrow> [] | Some d \<Rightarrow> [(''decisionChange'', change_json d)])
     @ [(''sentAt'', time_json (m_sentAt r))] @ extension_field (m_extensions r))"

definition receipt_json :: "receipt \<Rightarrow> json" where
  "receipt_json r = JObj (version_field @ [(''messageId'', JStr (r_messageId r)),
     (''workspaceId'', JStr (r_workspaceId r)), (''recipientParticipantId'', JStr (r_recipientParticipantId r)),
     (''state'', JStr (r_state r)), (''updatedAt'', time_json (r_updatedAt r))]
     @ extension_field (r_extensions r))"

definition event_json :: "event \<Rightarrow> json" where
  "event_json r = JObj (version_field @ [(''sequence'', JStr (pad (e_sequence r))),
     (''eventId'', JStr (e_eventId r)), (''workspaceId'', JStr (e_workspaceId r)),
     (''actorSessionId'', JStr (e_actorSessionId r)), (''type'', JStr (e_type r)),
     (''occurredAt'', time_json (e_occurredAt r)), (''payload'', JObj (e_payload r))])"

definition binding_json :: "binding \<Rightarrow> json" where
  "binding_json r = JObj (version_field @ [(''sessionId'', JStr (b_sessionId r)),
     (''generation'', JStr (b_generation r)), (''adapterId'', JStr (b_adapterId r)),
     (''clientVersion'', JStr (b_clientVersion r)), (''availableModes'', strings_json (b_availableModes r)),
     (''livePolicy'', JStr (b_livePolicy r)), (''opaqueEndpointRef'', JStr (b_opaqueEndpointRef r)),
     (''leaseUntil'', time_json (b_leaseUntil r))]
     @ (case b_retiredAt r of None \<Rightarrow> [] | Some v \<Rightarrow> [(''retiredAt'', nullable_json time_json v)]))"

fun entity_json :: "entity \<Rightarrow> json" where
  "entity_json (WorkspaceR r) = workspace_json r"
| "entity_json (ParticipantR r) = participant_json r"
| "entity_json (SessionR r) = session_json r"
| "entity_json (IntentR r) = intent_json r"
| "entity_json (ClaimR r) = claim_json r"
| "entity_json (MessageR r) = message_json r"
| "entity_json (ReceiptR r) = receipt_json r"
| "entity_json (BindingR r) = binding_json r"

text \<open>\<^verbatim>\<open>validateRecord(kind, record)\<close> for a record of the model, with its kind's schema.\<close>

definition validate :: "kind \<Rightarrow> entity \<Rightarrow> unit res" where
  "validate k e = bind_r (validateRecord (kind_name k) (entity_json e)) (\<lambda>_. Inr ())"

definition validate_event :: "event \<Rightarrow> unit res" where
  "validate_event e = bind_r (validateRecord ''event'' (event_json e)) (\<lambda>_. Inr ())"

section \<open>Sample records\<close>

text \<open>Concrete records on which the properties are exercised.\<close>

definition sample_message :: "id \<Rightarrow> string \<Rightarrow> decision_change option \<Rightarrow> message" where
  "sample_message i kind change = \<lparr>m_messageId = i, m_threadId = i, m_clientMessageId = ''client_'' @ i,
     m_workspaceId = ''w'', m_fromParticipantId = ''alice'', m_fromSessionId = ''s1'', m_toParticipantIds = [],
     m_kind = kind, m_obligation = ''none'', m_subject = ''s'', m_body = ''b'', m_inReplyTo = None,
     m_artifacts = [], m_handoff = None, m_decisionChange = change, m_sentAt = 0, m_extensions = None\<rparr>"

definition sample_session :: "id \<Rightarrow> id \<Rightarrow> id \<Rightarrow> session" where
  "sample_session i participant generation = \<lparr>s_sessionId = i, s_participantId = participant, s_workspaceId = ''w'',
     s_generation = generation, s_harness = ''codex'', s_state = ''open'', s_parentSessionId = None,
     s_checkoutRoot = None, s_branch = None, s_pid = None, s_enforcement = ''advisory'', s_lifecycle = ''manual'',
     s_heartbeatCadenceMs = 60000, s_startedAt = 0, s_heartbeatAt = 0, s_extensions = None\<rparr>"

definition sample_claim :: "id \<Rightarrow> id \<Rightarrow> string \<Rightarrow> string \<Rightarrow> time \<Rightarrow> claim" where
  "sample_claim i owner resource mode expires = \<lparr>c_claimId = i, c_workspaceId = ''w'', c_ownerSessionId = owner,
     c_resource = resource, c_mode = mode, c_enforcement = ''guarded'', c_reason = ''work'', c_acquiredAt = 0,
     c_expiresAt = expires, c_generation = ''g''\<rparr>"

definition sample_receipt :: "id \<Rightarrow> id \<Rightarrow> string \<Rightarrow> receipt" where
  "sample_receipt message participant state = \<lparr>r_messageId = message, r_workspaceId = ''w'',
     r_recipientParticipantId = participant, r_state = state, r_updatedAt = 0, r_extensions = None\<rparr>"

end
