(* ===== verification/Store.thy ===== *)
theory Store
  imports Records
begin

text \<open>
  The coordination store as its callers see it: the transaction view of
  \<^verbatim>\<open>packages/storage-filesystem/src/transaction-view.mjs\<close>, the commit, the event log
  and the ephemeral area of \<^verbatim>\<open>store.mjs\<close>, the reads of \<^verbatim>\<open>state-reads.mjs\<close> and the
  transaction indexes of \<^verbatim>\<open>packages/protocol/src/transaction-indexes.mjs\<close>.

  Every call of the store that writes runs under one writer mutex, so it is one step from
  a store to a store. A transaction's callback is a function from a view to a result and a
  view; an error ends it and leaves the store as it was. Identifiers come from a source
  indexed by how many were issued before. Deadlines are not modelled: each call has its time.
  How a commit reaches the files, and what a crash leaves of it, is the journal's theory.
\<close>

section \<open>Transaction indexes\<close>

datatype index = MessageByClientKey | ReceiptsByMessage | ReceiptsByRecipientState | DecisionsByTarget

fun index_kind :: "index \<Rightarrow> kind" where
  "index_kind MessageByClientKey = Message"
| "index_kind ReceiptsByMessage = Receipt"
| "index_kind ReceiptsByRecipientState = Receipt"
| "index_kind DecisionsByTarget = Message"

fun index_fields :: "index \<Rightarrow> string list" where
  "index_fields MessageByClientKey = [''workspaceId'', ''fromParticipantId'', ''clientMessageId'']"
| "index_fields ReceiptsByMessage = [''workspaceId'', ''messageId'']"
| "index_fields ReceiptsByRecipientState = [''workspaceId'', ''recipientParticipantId'', ''state'']"
| "index_fields DecisionsByTarget = [''workspaceId'', ''messageId'']"

definition extension :: "fields option \<Rightarrow> string \<Rightarrow> json option" where
  "extension ext key = (case ext of None \<Rightarrow> None | Some kvs \<Rightarrow> map_of kvs key)"

text \<open>The tuples one index keys a record by.\<close>

fun index_keys :: "index \<Rightarrow> entity \<Rightarrow> string list list" where
  "index_keys MessageByClientKey (MessageR m) =
     [[m_workspaceId m, m_fromParticipantId m, m_clientMessageId m]]"
| "index_keys ReceiptsByMessage (ReceiptR r) = [[r_workspaceId r, r_messageId r]]"
| "index_keys ReceiptsByRecipientState (ReceiptR r) =
     (if r_state r = ''acknowledged''
         \<or> (r_state r = ''retrieved'' \<and> extension (r_extensions r) ''obligation'' = Some (JStr ''none''))
      then [] else [[r_workspaceId r, r_recipientParticipantId r, r_state r]])"
| "index_keys DecisionsByTarget (MessageR m) =
     (if m_kind m \<noteq> ''decision'' then []
      else case m_decisionChange m of None \<Rightarrow> []
        | Some d \<Rightarrow> map (\<lambda>target. [m_workspaceId m, target]) (d_messageIds d))"
| "index_keys _ _ = []"

definition assertIndexTuple :: "index \<Rightarrow> string list \<Rightarrow> unit res" where
  "assertIndexTuple index tuple =
     (if length tuple \<noteq> length (index_fields index)
      then Inl (AccError DATA ''invalid transaction index tuple'')
      else each_r (\<lambda>(v, label). bind_r (assertPortableId v label) (\<lambda>_. Inr ()))
        (zip tuple (index_fields index)))"

section \<open>The store\<close>

record envelope =
  v_generation :: id
  v_record :: entity

record store =
  st_workspaceId :: id
  st_ids :: "string \<Rightarrow> nat \<Rightarrow> id"
  st_issued :: nat
  st_state :: "((kind \<times> id) \<times> envelope) list"
  st_ephemeral :: "((kind \<times> id) \<times> entity) list"
  st_events :: "event list"
  st_floor :: "nat option"

text \<open>Files of one directory are listed in the collation order of their names.\<close>

definition list_keys :: "((kind \<times> id) \<times> 'v) list \<Rightarrow> kind \<Rightarrow> ((kind \<times> id) \<times> 'v) list" where
  "list_keys area k = locale_sort (\<lambda>e. snd (fst e) @ ''.json'') (filter (\<lambda>e. fst (fst e) = k) area)"

definition readStateEnvelope :: "store \<Rightarrow> bool \<Rightarrow> kind \<Rightarrow> id \<Rightarrow> envelope option res" where
  "readStateEnvelope st bound k i =
     bind_r (assertPortableId i ''record id'') (\<lambda>_.
     case map_of (st_state st) (k, i) of
       None \<Rightarrow> Inr None
     | Some env \<Rightarrow>
         bind_r (validate k (v_record env)) (\<lambda>_.
         if bound \<and> workspace_of (v_record env) \<noteq> Some (st_workspaceId st)
         then Inl (AccError DATA ''state record belongs to a different workspace'')
         else Inr (Some env)))"

definition listState :: "store \<Rightarrow> kind \<Rightarrow> ((kind \<times> id) \<times> envelope) list res" where
  "listState st k = map_r (\<lambda>(key, env). bind_r (validate k (v_record env)) (\<lambda>_. Inr (key, env)))
     (list_keys (st_state st) k)"

definition STATE_KINDS :: "kind list" where
  "STATE_KINDS = [Claim, Intent, Message, Participant, Receipt, Session, Workspace]"

definition loadStateEnvelopes :: "store \<Rightarrow> kind list option \<Rightarrow> ((kind \<times> id) \<times> envelope) list res" where
  "loadStateEnvelopes st wanted =
     bind_r (map_r (listState st) (filter (\<lambda>k. case wanted of None \<Rightarrow> True | Some ks \<Rightarrow> k \<in> set ks) STATE_KINDS))
       (\<lambda>lists. Inr (concat lists))"

section \<open>The transaction view\<close>

datatype entry = Live entity id | Removed id

fun live :: "entry \<Rightarrow> (entity \<times> id) option" where
  "live (Live r g) = Some (r, g)"
| "live (Removed g) = None"

text \<open>
  \<open>x_loaded\<close> maps a key to \<open>None\<close> when the record was looked for and found absent.
\<close>

record view =
  x_wanted :: "kind list option"
  x_exact :: "kind list"
  x_loaded :: "((kind \<times> id) \<times> entry option) list"
  x_staged :: "((kind \<times> id) \<times> entry) list"
  x_events :: "event list"
  x_issued :: nat
  x_store :: store

type_synonym 'a tx = "view \<Rightarrow> ('a \<times> view) res"

definition return_t :: "'a \<Rightarrow> 'a tx" where
  "return_t x v = Inr (x, v)"

definition bind_t :: "'a tx \<Rightarrow> ('a \<Rightarrow> 'b tx) \<Rightarrow> 'b tx" where
  "bind_t m f v = bind_r (m v) (\<lambda>(x, w). f x w)"

definition lift_t :: "'a res \<Rightarrow> 'a tx" where
  "lift_t r v = bind_r r (\<lambda>x. Inr (x, v))"

definition throw_t :: "bool \<Rightarrow> exit_code \<Rightarrow> string \<Rightarrow> unit tx" where
  "throw_t c code msg = lift_t (throw_if c code msg)"

fun map_t :: "('a \<Rightarrow> 'b tx) \<Rightarrow> 'a list \<Rightarrow> 'b list tx" where
  "map_t f [] = return_t []"
| "map_t f (x # xs) = bind_t (f x) (\<lambda>y. bind_t (map_t f xs) (\<lambda>ys. return_t (y # ys)))"

fun each_t :: "('a \<Rightarrow> unit tx) \<Rightarrow> 'a list \<Rightarrow> unit tx" where
  "each_t f [] = return_t ()"
| "each_t f (x # xs) = bind_t (f x) (\<lambda>_. each_t f xs)"

definition next_id :: "string \<Rightarrow> id tx" where
  "next_id label v = Inr (st_ids (x_store v) label (x_issued v), v\<lparr>x_issued := Suc (x_issued v)\<rparr>)"

definition transactionKinds :: "kind list option \<Rightarrow> kind list \<Rightarrow> kind list option res" where
  "transactionKinds kinds exactKinds =
     (if list_ex (\<lambda>k. case kinds of None \<Rightarrow> True | Some ks \<Rightarrow> k \<notin> set ks) exactKinds
      then Inl (AccError DATA ''exactKinds must be a subset of explicit transaction kinds'')
      else Inr (map_option (filter (\<lambda>k. k \<notin> set exactKinds)) kinds))"

definition declared :: "kind \<Rightarrow> view \<Rightarrow> unit res" where
  "declared k v = throw_if (case x_wanted v of None \<Rightarrow> False | Some ks \<Rightarrow> k \<notin> set ks) DATA
     (''this transaction did not declare '' @ kind_name k @ '', so it was never read'')"

definition loadedId :: "kind \<Rightarrow> id \<Rightarrow> view \<Rightarrow> unit res" where
  "loadedId k i v = bind_r (declared k v) (\<lambda>_.
     throw_if (k \<in> set (x_exact v) \<and> map_of (x_loaded v) (k, i) = None) DATA
       ''an exact transaction record must be loaded before access'')"

definition entryFor :: "view \<Rightarrow> kind \<times> id \<Rightarrow> (entity \<times> id) option" where
  "entryFor v key = (case map_of (x_staged v) key of
     Some e \<Rightarrow> live e
   | None \<Rightarrow> (case map_of (x_loaded v) key of Some (Some e) \<Rightarrow> live e | _ \<Rightarrow> None))"

text \<open>\<^verbatim>\<open>read\<close>: an entry of the view, or of the store when the kind is exact.\<close>

definition read_entry :: "kind \<Rightarrow> id \<Rightarrow> view \<Rightarrow> (entity \<times> id) option res" where
  "read_entry k i v =
     bind_r (declared k v) (\<lambda>_.
     bind_r (assertPortableId i ''record id'') (\<lambda>_.
     if map_of (x_staged v) (k, i) \<noteq> None \<or> map_of (x_loaded v) (k, i) \<noteq> None
     then Inr (entryFor v (k, i))
     else if k \<notin> set (x_exact v) then Inr None
     else bind_r (readStateEnvelope (x_store v) True k i) (\<lambda>found.
       Inr (map_option (\<lambda>env. (v_record env, v_generation env)) found))))"

definition load_t :: "kind \<Rightarrow> id \<Rightarrow> entity option tx" where
  "load_t k i v =
     (if map_of (x_loaded v) (k, i) = None
      then bind_r (read_entry k i v) (\<lambda>found.
        let w = v\<lparr>x_loaded := AList.update (k, i) (map_option (\<lambda>(r, g). Live r g) found) (x_loaded v)\<rparr>
        in Inr (map_option fst (entryFor w (k, i)), w))
      else bind_r (declared k v) (\<lambda>_. Inr (map_option fst (entryFor v (k, i)), v)))"

definition get_t :: "kind \<Rightarrow> id \<Rightarrow> entity option tx" where
  "get_t k i v = bind_r (loadedId k i v) (\<lambda>_. Inr (map_option fst (entryFor v (k, i)), v))"

definition generationOf :: "kind \<Rightarrow> id \<Rightarrow> id option tx" where
  "generationOf k i v = bind_r (loadedId k i v) (\<lambda>_. Inr (map_option snd (entryFor v (k, i)), v))"

text \<open>The listing merges the two maps: a staged key already loaded keeps its place.\<close>

definition merged :: "view \<Rightarrow> kind \<Rightarrow> ((kind \<times> id) \<times> entry) list" where
  "merged v k =
     (let base = [(key, e). (key, Some e) \<leftarrow> x_loaded v, fst key = k]
      in foldl (\<lambda>m (key, e). AList.update key e m) base (filter (\<lambda>(key, _). fst key = k) (x_staged v)))"

definition list_t :: "kind \<Rightarrow> entity list tx" where
  "list_t k v =
     bind_r (declared k v) (\<lambda>_.
     bind_r (throw_if (k \<in> set (x_exact v)) DATA ''an exact transaction kind cannot be listed'') (\<lambda>_.
     Inr ([r. (_, Live r _) \<leftarrow> merged v k], v)))"

definition changed_error :: "kind \<Rightarrow> id \<Rightarrow> acc_error" where
  "changed_error k i = AccError CONFLICT (kind_name k @ '' '' @ i @ '' changed under this transaction'')"

definition put_t :: "kind \<Rightarrow> id \<Rightarrow> entity \<Rightarrow> id option \<Rightarrow> id tx" where
  "put_t k i r expectedGeneration v =
     bind_r (loadedId k i v) (\<lambda>_.
     if map_option snd (entryFor v (k, i)) \<noteq> expectedGeneration then Inl (changed_error k i)
     else bind_r (validate k r) (\<lambda>_.
       bind_r (next_id ''generation'' v) (\<lambda>(generation, w).
       Inr (generation, w\<lparr>x_staged := AList.update (k, i) (Live r generation) (x_staged w)\<rparr>))))"

definition remove_t :: "kind \<Rightarrow> id \<Rightarrow> id option \<Rightarrow> unit tx" where
  "remove_t k i expectedGeneration v =
     bind_r (loadedId k i v) (\<lambda>_.
     if map_option snd (entryFor v (k, i)) \<noteq> expectedGeneration then Inl (changed_error k i)
     else Inr ((), v\<lparr>x_staged := (case map_of (x_loaded v) (k, i) of
         Some (Some (Live _ g)) \<Rightarrow> AList.update (k, i) (Removed g) (x_staged v)
       | Some (Some (Removed g)) \<Rightarrow> AList.update (k, i) (Removed g) (x_staged v)
       | _ \<Rightarrow> AList.delete (k, i) (x_staged v))\<rparr>))"

text \<open>An event is checked as it is appended; its sequence is given when the transaction commits.\<close>

definition append_t :: "event \<Rightarrow> unit tx" where
  "append_t e v = bind_r (validate_event (e\<lparr>e_sequence := 1\<rparr>)) (\<lambda>_.
     Inr ((), v\<lparr>x_events := x_events v @ [e]\<rparr>))"

text \<open>
  \<^verbatim>\<open>lookup\<close>: the identifiers the index holds for the tuple, corrected by what the
  transaction staged, in listing order, each read before it is returned. What the index
  holds is what rebuilding it from the stored records gives; \<open>Index_History\<close> shows that the
  published trees keep it so.
\<close>

definition index_ids :: "((kind \<times> id) \<times> envelope) list \<Rightarrow> index \<Rightarrow> string list \<Rightarrow> id list" where
  "index_ids area index tuple = [i. ((k, i), env) \<leftarrow> area, k = index_kind index,
     tuple \<in> set (index_keys index (v_record env))]"

definition select_ids :: "((kind \<times> id) \<times> entry) list \<Rightarrow> index \<Rightarrow> string list \<Rightarrow> id list \<Rightarrow> id list" where
  "select_ids staged index tuple ids =
     foldl (\<lambda>selected ((k, i), e).
       if k \<noteq> index_kind index then selected
       else (case e of
           Live r _ \<Rightarrow> if tuple \<in> set (index_keys index r) then removeAll i selected @ [i] else removeAll i selected
         | Removed _ \<Rightarrow> removeAll i selected))
     (js_uniq ids) staged"

definition lookup_t :: "index \<Rightarrow> string list \<Rightarrow> id list tx" where
  "lookup_t index tuple v =
     bind_r (assertIndexTuple index tuple) (\<lambda>_.
     bind_r (declared (index_kind index) v) (\<lambda>_.
     let sorted = locale_sort (\<lambda>i. i @ ''.json'')
       (select_ids (x_staged v) index tuple (index_ids (st_state (x_store v)) index tuple))
     in bind_r (map_r (\<lambda>i. bind_r (read_entry (index_kind index) i v) (\<lambda>found. Inr (i, found))) sorted) (\<lambda>found.
        Inr ([i. (i, Some _) \<leftarrow> found], v))))"

section \<open>Committing\<close>

definition nextSequence :: "store \<Rightarrow> nat res" where
  "nextSequence st =
     (let highest = (if st_events st = [] then st_floor st else Some (e_sequence (last (st_events st))))
      in case highest of
        None \<Rightarrow> Inr 1
      | Some h \<Rightarrow> if int h + 1 > MAX_SAFE_INTEGER then Inl (AccError DATA ''event sequence is exhausted'')
          else Inr (Suc h))"

fun number_events :: "nat \<Rightarrow> event list \<Rightarrow> event list" where
  "number_events n [] = []"
| "number_events n (e # es) = e\<lparr>e_sequence := n\<rparr> # number_events (Suc n) es"

definition publish_entry :: "((kind \<times> id) \<times> envelope) list \<Rightarrow> (kind \<times> id) \<times> entry \<Rightarrow> ((kind \<times> id) \<times> envelope) list" where
  "publish_entry area ke = (case ke of
     (key, Live r g) \<Rightarrow> AList.update key \<lparr>v_generation = g, v_record = r\<rparr> area
   | (key, Removed g) \<Rightarrow> (case map_of area key of
       Some env \<Rightarrow> if v_generation env = g then AList.delete key area else area
     | None \<Rightarrow> area))"

definition published :: "view \<Rightarrow> store" where
  "published v = (x_store v)\<lparr>st_state := foldl publish_entry (st_state (x_store v)) (x_staged v),
     st_issued := x_issued v\<rparr>"

text \<open>One live record of an unindexed kind and no event: replaced at once, without the journal.\<close>

definition single_record :: "view \<Rightarrow> bool" where
  "single_record v = (x_events v = [] \<and> (case x_staged v of
     [((k, _), Live _ _)] \<Rightarrow> k \<noteq> Message \<and> k \<noteq> Receipt | _ \<Rightarrow> False))"

definition commit :: "view \<Rightarrow> store res" where
  "commit v =
     (if x_events v = [] \<and> x_staged v = [] then Inr ((x_store v)\<lparr>st_issued := x_issued v\<rparr>)
      else if single_record v then Inr (published v)
      else bind_r (nextSequence (x_store v)) (\<lambda>first.
        bind_r (throw_if (int first + int (length (x_events v)) - 1 > MAX_SAFE_INTEGER) DATA
          ''event sequence is exhausted'') (\<lambda>_.
        let es = number_events first (x_events v)
        in bind_r (each_r validate_event es) (\<lambda>_.
           Inr ((published v)\<lparr>st_events := st_events (x_store v) @ es, st_issued := Suc (x_issued v)\<rparr>)))))"

definition begin_view :: "store \<Rightarrow> kind list option \<Rightarrow> kind list \<Rightarrow> view res" where
  "begin_view st kinds exactKinds =
     bind_r (transactionKinds kinds exactKinds) (\<lambda>eager.
     bind_r (loadStateEnvelopes st eager) (\<lambda>envs.
     Inr \<lparr>x_wanted = kinds, x_exact = exactKinds,
       x_loaded = map (\<lambda>(key, env). (key, Some (Live (v_record env) (v_generation env)))) envs,
       x_staged = [], x_events = [], x_issued = st_issued st, x_store = st\<rparr>))"

definition transaction :: "kind list option \<Rightarrow> kind list \<Rightarrow> 'a tx \<Rightarrow> store \<Rightarrow> ('a \<times> store) res" where
  "transaction kinds exactKinds callback st =
     bind_r (begin_view st kinds exactKinds) (\<lambda>v.
     bind_r (callback v) (\<lambda>(result, w).
     bind_r (commit w) (\<lambda>st'. Inr (result, st'))))"

section \<open>Reading\<close>

text \<open>
  \<^verbatim>\<open>eventsSince\<close>: \<open>ceiling\<close> is the first sequence of an open journal entry, if there
  is one; a \<open>limit\<close> of \<open>None\<close> is none given.
\<close>

fun page_events :: "id \<Rightarrow> nat \<Rightarrow> nat option \<Rightarrow> nat option \<Rightarrow> event list \<Rightarrow> event list \<Rightarrow> event list res" where
  "page_events workspace after ceiling limit acc [] = Inr acc"
| "page_events workspace after ceiling limit acc (e # es) =
     (if e_sequence e \<le> after then page_events workspace after ceiling limit acc es
      else if (case ceiling of None \<Rightarrow> False | Some c \<Rightarrow> e_sequence e \<ge> c) then Inr acc
      else bind_r (validate_event e) (\<lambda>_.
        if e_workspaceId e \<noteq> workspace then page_events workspace after ceiling limit acc es
        else if limit = Some (length (acc @ [e])) then Inr (acc @ [e])
        else page_events workspace after ceiling limit (acc @ [e]) es))"

record event_page =
  pg_cursor :: nat
  pg_events :: "event list"
  pg_trimmedThrough :: "nat option"

definition eventsSince :: "store \<Rightarrow> nat option \<Rightarrow> id \<Rightarrow> nat option \<Rightarrow> nat option \<Rightarrow> event_page res" where
  "eventsSince st ceiling workspace cursor limit =
     (let after = (case cursor of None \<Rightarrow> 0 | Some c \<Rightarrow> c)
      in bind_r (page_events workspace after ceiling limit [] (st_events st)) (\<lambda>es.
         Inr \<lparr>pg_cursor = (if es = [] then after else e_sequence (last es)), pg_events = es,
           pg_trimmedThrough = st_floor st\<rparr>))"

definition stateRecord :: "store \<Rightarrow> id \<Rightarrow> kind \<Rightarrow> id \<Rightarrow> entity option res" where
  "stateRecord st workspace k i =
     bind_r (readStateEnvelope st False k i) (\<lambda>found.
     Inr (case found of None \<Rightarrow> None
       | Some env \<Rightarrow> if workspace_of (v_record env) = Some workspace then Some (v_record env) else None))"

definition snapshot_kind :: "store \<Rightarrow> id \<Rightarrow> kind list option \<Rightarrow> kind \<Rightarrow> entity list res" where
  "snapshot_kind st workspace kinds k =
     (if (case kinds of None \<Rightarrow> False | Some ks \<Rightarrow> k \<notin> set ks) then Inr []
      else bind_r (listState st k) (\<lambda>envs.
        Inr (filter (\<lambda>r. workspace_of r = Some workspace) (map (\<lambda>(_, env). v_record env) envs))))"

definition stateEnvelopes :: "store \<Rightarrow> id \<Rightarrow> kind list option \<Rightarrow> ((kind \<times> id) \<times> envelope) list res" where
  "stateEnvelopes st workspace kinds =
     bind_r (loadStateEnvelopes st kinds) (\<lambda>envs.
     Inr (filter (\<lambda>(_, env). workspace_of (v_record env) = Some workspace) envs))"

section \<open>The ephemeral area\<close>

definition eph_get :: "store \<Rightarrow> kind \<Rightarrow> id \<Rightarrow> entity option res" where
  "eph_get st k i =
     bind_r (assertPortableId i ''ephemeral record id'') (\<lambda>_.
     case map_of (st_ephemeral st) (k, i) of
       None \<Rightarrow> Inr None
     | Some r \<Rightarrow> bind_r (validate k r) (\<lambda>_. Inr (Some r)))"

definition eph_write :: "store \<Rightarrow> kind \<Rightarrow> id \<Rightarrow> entity \<Rightarrow> store" where
  "eph_write st k i r = st\<lparr>st_ephemeral := AList.update (k, i) r (st_ephemeral st)\<rparr>"

definition eph_put :: "store \<Rightarrow> kind \<Rightarrow> id \<Rightarrow> entity \<Rightarrow> store res" where
  "eph_put st k i r =
     bind_r (validate k r) (\<lambda>_.
     bind_r (assertPortableId i ''ephemeral record id'') (\<lambda>_. Inr (eph_write st k i r)))"

text \<open>The updater may read the store and issue identifiers; \<open>None\<close> leaves the record alone.\<close>

definition eph_update :: "store \<Rightarrow> kind \<Rightarrow> id \<Rightarrow> (entity option \<Rightarrow> entity option res) \<Rightarrow> (entity option \<times> store) res" where
  "eph_update st k i updater =
     bind_r (eph_get st k i) (\<lambda>current.
     bind_r (updater current) (\<lambda>next_record.
     case next_record of
       None \<Rightarrow> Inr (None, st)
     | Some r \<Rightarrow> bind_r (validate k r) (\<lambda>_. Inr (Some r, eph_write st k i r))))"

definition eph_delete :: "store \<Rightarrow> kind \<Rightarrow> id \<Rightarrow> (entity \<Rightarrow> bool) \<Rightarrow> store res" where
  "eph_delete st k i guard =
     bind_r (eph_get st k i) (\<lambda>current.
     case current of
       None \<Rightarrow> Inr st
     | Some r \<Rightarrow> if \<not> guard r then Inr st
         else Inr (st\<lparr>st_ephemeral := AList.delete (k, i) (st_ephemeral st)\<rparr>))"

definition eph_list :: "store \<Rightarrow> kind \<Rightarrow> entity list res" where
  "eph_list st k = map_r (\<lambda>(_, r). bind_r (validate k r) (\<lambda>_. Inr r)) (list_keys (st_ephemeral st) k)"

section \<open>Records by kind\<close>

text \<open>A read of one kind returns a record of that kind; anything else would be no record.\<close>

fun as_workspace :: "entity option \<Rightarrow> workspace option" where
  "as_workspace (Some (WorkspaceR r)) = Some r"
| "as_workspace _ = None"

fun as_participant :: "entity option \<Rightarrow> participant option" where
  "as_participant (Some (ParticipantR r)) = Some r"
| "as_participant _ = None"

fun as_session :: "entity option \<Rightarrow> session option" where
  "as_session (Some (SessionR r)) = Some r"
| "as_session _ = None"

fun as_intent :: "entity option \<Rightarrow> intent option" where
  "as_intent (Some (IntentR r)) = Some r"
| "as_intent _ = None"

fun as_claim :: "entity option \<Rightarrow> claim option" where
  "as_claim (Some (ClaimR r)) = Some r"
| "as_claim _ = None"

fun as_message :: "entity option \<Rightarrow> message option" where
  "as_message (Some (MessageR r)) = Some r"
| "as_message _ = None"

fun as_receipt :: "entity option \<Rightarrow> receipt option" where
  "as_receipt (Some (ReceiptR r)) = Some r"
| "as_receipt _ = None"

fun as_binding :: "entity option \<Rightarrow> binding option" where
  "as_binding (Some (BindingR r)) = Some r"
| "as_binding _ = None"

definition all_of :: "(entity option \<Rightarrow> 'a option) \<Rightarrow> entity list \<Rightarrow> 'a list" where
  "all_of as rs = [x. r \<leftarrow> rs, x \<leftarrow> (case as (Some r) of None \<Rightarrow> [] | Some x \<Rightarrow> [x])]"

section \<open>Operations of several steps\<close>

text \<open>
  A service operation makes several calls of the store. Each call is a step of its own, and
  what a step wrote stays written when a later one throws, so an operation maps a store to
  a result and a store.
\<close>

type_synonym 'a svc = "store \<Rightarrow> 'a res \<times> store"

definition return_s :: "'a \<Rightarrow> 'a svc" where
  "return_s x st = (Inr x, st)"

definition bind_s :: "'a svc \<Rightarrow> ('a \<Rightarrow> 'b svc) \<Rightarrow> 'b svc" where
  "bind_s m f st = (case m st of (Inl e, st') \<Rightarrow> (Inl e, st') | (Inr x, st') \<Rightarrow> f x st')"

definition read_s :: "(store \<Rightarrow> 'a res) \<Rightarrow> 'a svc" where
  "read_s f st = (f st, st)"

definition step_s :: "(store \<Rightarrow> ('a \<times> store) res) \<Rightarrow> 'a svc" where
  "step_s f st = (case f st of Inl e \<Rightarrow> (Inl e, st) | Inr (x, st') \<Rightarrow> (Inr x, st'))"

definition lift_s :: "'a res \<Rightarrow> 'a svc" where
  "lift_s r st = (r, st)"

text \<open>\<^verbatim>\<open>ids.next\<close> outside a transaction.\<close>

definition fresh_s :: "string \<Rightarrow> id svc" where
  "fresh_s label st = (Inr (st_ids st label (st_issued st)), st\<lparr>st_issued := Suc (st_issued st)\<rparr>)"

fun each_s :: "('a \<Rightarrow> unit svc) \<Rightarrow> 'a list \<Rightarrow> unit svc" where
  "each_s f [] = return_s ()"
| "each_s f (x # xs) = bind_s (f x) (\<lambda>_. each_s f xs)"

end
