(* ===== verification/Store_Laws.thy ===== *)
theory Store_Laws
  imports Store
begin

text \<open>
  What the transaction interface promises its callers. \<open>sees v key\<close> is what a transaction
  sees under a key: what it staged, else what the store holds. The laws say that every read
  returns it, that every write changes it at one key, and that the commit makes it the
  store's content. The services are proved against these laws alone.
\<close>

section \<open>Unfolding transaction code\<close>

lemma return_t_eq [res_simps]: "return_t x v = Inr (y, w) \<longleftrightarrow> y = x \<and> w = v"
  by (auto simp: return_t_def)

lemma bind_t_eq [res_simps]:
  "bind_t m f v = Inr y \<longleftrightarrow> (\<exists>x w. m v = Inr (x, w) \<and> f x w = Inr y)"
  by (auto simp: bind_t_def bind_r_eq_Inr)

lemma lift_t_eq [res_simps]: "lift_t r v = Inr (x, w) \<longleftrightarrow> r = Inr x \<and> w = v"
  by (auto simp: lift_t_def bind_r_eq_Inr)

lemma throw_t_eq [res_simps]: "throw_t c code msg v = Inr (u, w) \<longleftrightarrow> \<not> c \<and> w = v"
  by (auto simp: throw_t_def lift_t_eq)

lemma transaction_eq [res_simps]:
  "transaction kinds exactKinds callback st = Inr (y, st') \<longleftrightarrow>
     (\<exists>v w. begin_view st kinds exactKinds = Inr v \<and> callback v = Inr (y, w) \<and> commit w = Inr st')"
  by (auto simp: transaction_def res_simps)

section \<open>What a transaction sees\<close>

definition base :: "view \<Rightarrow> kind \<times> id \<Rightarrow> (entity \<times> id) option" where
  "base v key = map_option (\<lambda>env. (v_record env, v_generation env)) (map_of (st_state (x_store v)) key)"

definition sees :: "view \<Rightarrow> kind \<times> id \<Rightarrow> (entity \<times> id) option" where
  "sees v key = (case map_of (x_staged v) key of Some e \<Rightarrow> live e | None \<Rightarrow> base v key)"

definition store_map :: "store \<Rightarrow> kind \<times> id \<Rightarrow> (entity \<times> id) option" where
  "store_map st key = map_option (\<lambda>env. (v_record env, v_generation env)) (map_of (st_state st) key)"

definition declares :: "view \<Rightarrow> kind \<Rightarrow> bool" where
  "declares v k = (case x_wanted v of None \<Rightarrow> True | Some ks \<Rightarrow> k \<in> set ks)"

text \<open>
  What holds of a view from its beginning to its commit: a loaded entry is what the store
  holds, unless the transaction staged the key itself; a listed kind was loaded entirely;
  a removal names the generation that the store holds.
\<close>

definition view_ok :: "view \<Rightarrow> bool" where
  "view_ok v \<longleftrightarrow>
     distinct (map fst (x_staged v)) \<and> distinct (map fst (x_loaded v)) \<and> distinct (map fst (st_state (x_store v)))
     \<and> (\<forall>k i. declares v k \<longrightarrow> k \<in> set STATE_KINDS \<longrightarrow> k \<notin> set (x_exact v) \<longrightarrow> map_of (x_loaded v) (k, i) = None \<longrightarrow> base v (k, i) = None)
     \<and> (\<forall>k i. k \<in> set (x_exact v) \<longrightarrow> map_of (x_staged v) (k, i) \<noteq> None \<longrightarrow> map_of (x_loaded v) (k, i) \<noteq> None)
     \<and> (\<forall>key. map_of (x_loaded v) key = Some None \<longrightarrow> base v key = None)
     \<and> (\<forall>key g. map_of (x_loaded v) key \<noteq> Some (Some (Removed g)))
     \<and> (\<forall>key r g. map_of (x_loaded v) key = Some (Some (Live r g)) \<longrightarrow>
          base v key = Some (r, g) \<or> base v key = None \<and> map_of (x_staged v) key \<noteq> None)
     \<and> (\<forall>key g. map_of (x_staged v) key = Some (Removed g) \<longrightarrow>
          base v key = None \<or> (\<exists>r. base v key = Some (r, g)))"

lemma view_okD:
  assumes "view_ok v"
  shows view_distinct: "distinct (map fst (x_staged v))" "distinct (map fst (x_loaded v))"
      "distinct (map fst (st_state (x_store v)))"
    and view_unloaded: "declares v k \<Longrightarrow> k \<in> set STATE_KINDS \<Longrightarrow> k \<notin> set (x_exact v)
      \<Longrightarrow> map_of (x_loaded v) (k, i) = None \<Longrightarrow> base v (k, i) = None"
    and view_exact: "k \<in> set (x_exact v) \<Longrightarrow> map_of (x_staged v) (k, i) \<noteq> None \<Longrightarrow> map_of (x_loaded v) (k, i) \<noteq> None"
    and view_absent: "map_of (x_loaded v) key = Some None \<Longrightarrow> base v key = None"
    and view_no_removed: "map_of (x_loaded v) key \<noteq> Some (Some (Removed g))"
    and view_loaded: "map_of (x_loaded v) key = Some (Some (Live r g)) \<Longrightarrow>
      base v key = Some (r, g) \<or> base v key = None \<and> map_of (x_staged v) key \<noteq> None"
    and view_removed: "map_of (x_staged v) key = Some (Removed g) \<Longrightarrow>
      base v key = None \<or> (\<exists>r. base v key = Some (r, g))"
  using assms unfolding view_ok_def by blast+

lemma view_exact_Some:
  assumes "view_ok v" and "map_of (x_staged v) (k, i) = Some e" and "k \<in> set (x_exact v)"
  shows "\<exists>y. map_of (x_loaded v) (k, i) = Some y"
  using view_exact [OF assms(1, 3)] assms(2) by auto

lemma view_okI:
  assumes "distinct (map fst (x_staged v))" "distinct (map fst (x_loaded v))"
    "distinct (map fst (st_state (x_store v)))"
    and "\<And>k i. declares v k \<Longrightarrow> k \<in> set STATE_KINDS \<Longrightarrow> k \<notin> set (x_exact v)
      \<Longrightarrow> map_of (x_loaded v) (k, i) = None \<Longrightarrow> base v (k, i) = None"
    and "\<And>k i. k \<in> set (x_exact v) \<Longrightarrow> map_of (x_staged v) (k, i) \<noteq> None \<Longrightarrow> map_of (x_loaded v) (k, i) \<noteq> None"
    and "\<And>key. map_of (x_loaded v) key = Some None \<Longrightarrow> base v key = None"
    and "\<And>key g. map_of (x_loaded v) key \<noteq> Some (Some (Removed g))"
    and "\<And>key r g. map_of (x_loaded v) key = Some (Some (Live r g)) \<Longrightarrow>
      base v key = Some (r, g) \<or> base v key = None \<and> map_of (x_staged v) key \<noteq> None"
    and "\<And>key g. map_of (x_staged v) key = Some (Removed g) \<Longrightarrow>
      base v key = None \<or> (\<exists>r. base v key = Some (r, g))"
  shows "view_ok v"
  unfolding view_ok_def by (intro conjI allI impI assms)

lemma base_update [simp]:
  "base (v\<lparr>x_staged := s\<rparr>) = base v" "base (v\<lparr>x_issued := n\<rparr>) = base v"
  "base (v\<lparr>x_events := es\<rparr>) = base v" "base (v\<lparr>x_loaded := l\<rparr>) = base v"
  by (simp_all add: base_def fun_eq_iff)

lemma declares_update [simp]:
  "declares (v\<lparr>x_staged := s\<rparr>) = declares v" "declares (v\<lparr>x_issued := n\<rparr>) = declares v"
  "declares (v\<lparr>x_events := es\<rparr>) = declares v" "declares (v\<lparr>x_loaded := l\<rparr>) = declares v"
  by (simp_all add: declares_def fun_eq_iff)

lemma sees_update [simp]:
  "sees (v\<lparr>x_issued := n\<rparr>) = sees v" "sees (v\<lparr>x_events := es\<rparr>) = sees v"
  "sees (v\<lparr>x_loaded := l\<rparr>) = sees v"
  by (simp_all add: sees_def fun_eq_iff split: option.split)

lemma view_ok_update [simp]:
  "view_ok (v\<lparr>x_issued := n\<rparr>) = view_ok v" "view_ok (v\<lparr>x_events := es\<rparr>) = view_ok v"
  by (simp_all add: view_ok_def)

lemma declared_ok: "declared k v = Inr () \<longleftrightarrow> declares v k"
  by (simp add: declared_def declares_def split: option.splits)

lemma loadedId_ok:
  "loadedId k i v = Inr () \<longleftrightarrow> declares v k \<and> (k \<in> set (x_exact v) \<longrightarrow> map_of (x_loaded v) (k, i) \<noteq> None)"
  by (auto simp: loadedId_def bind_r_eq_Inr declared_ok)

lemma entryFor_sees:
  assumes "view_ok v" and "loadedId k i v = Inr ()" and "k \<in> set STATE_KINDS"
  shows "entryFor v (k, i) = sees v (k, i)"
proof (cases "map_of (x_staged v) (k, i)")
  case (Some e)
  then show ?thesis by (simp add: entryFor_def sees_def)
next
  case None
  have "(case map_of (x_loaded v) (k, i) of Some (Some e) \<Rightarrow> live e | _ \<Rightarrow> None) = base v (k, i)"
  proof (cases "map_of (x_loaded v) (k, i)")
    case unloaded: None
    with assms have "base v (k, i) = None" by (auto simp: view_ok_def loadedId_ok)
    with unloaded show ?thesis by simp
  next
    case (Some oe)
    show ?thesis
    proof (cases oe)
      case absent: None
      with Some assms(1) have "base v (k, i) = None" by (auto simp: view_ok_def)
      with Some absent show ?thesis by simp
    next
      case present: (Some e)
      then obtain r g where "e = Live r g" using Some view_no_removed [OF assms(1)] by (cases e) auto
      with Some present view_loaded [OF assms(1), of "(k, i)" r g] None show ?thesis by simp
    qed
  qed
  with None show ?thesis by (simp add: entryFor_def sees_def)
qed

section \<open>The laws\<close>

definition same_frame :: "view \<Rightarrow> view \<Rightarrow> bool" where
  "same_frame v w \<longleftrightarrow> x_store w = x_store v \<and> x_wanted w = x_wanted v \<and> x_exact w = x_exact v"

lemma same_frame_refl [simp]: "same_frame v v"
  by (simp add: same_frame_def)

lemma same_frame_trans: "same_frame u v \<Longrightarrow> same_frame v w \<Longrightarrow> same_frame u w"
  by (simp add: same_frame_def)

lemma base_frame: "same_frame v w \<Longrightarrow> base w = base v"
  by (rule ext) (simp add: base_def same_frame_def)

lemma declares_frame: "same_frame v w \<Longrightarrow> declares w = declares v"
  by (rule ext) (simp add: declares_def same_frame_def)

lemma get_t_law:
  assumes "get_t k i v = Inr (x, w)" and "view_ok v" and "k \<in> set STATE_KINDS"
  shows "w = v \<and> x = map_option fst (sees v (k, i))"
  using assms entryFor_sees by (auto simp: get_t_def bind_r_eq_Inr)

lemma generationOf_law:
  assumes "generationOf k i v = Inr (x, w)" and "view_ok v" and "k \<in> set STATE_KINDS"
  shows "w = v \<and> x = map_option snd (sees v (k, i))"
  using assms entryFor_sees by (auto simp: generationOf_def bind_r_eq_Inr)

lemma next_id_law:
  assumes "next_id label v = Inr (x, w)" and "view_ok v"
  shows "view_ok w \<and> same_frame v w \<and> sees w = sees v \<and> x_events w = x_events v
    \<and> x_issued w = Suc (x_issued v) \<and> x = st_ids (x_store v) label (x_issued v)"
  using assms by (auto simp: next_id_def same_frame_def)

lemma append_t_law:
  assumes "append_t e v = Inr (u, w)" and "view_ok v"
  shows "view_ok w \<and> same_frame v w \<and> sees w = sees v \<and> x_events w = x_events v @ [e]
    \<and> x_issued w = x_issued v"
  using assms
  by (auto simp: append_t_def bind_r_eq_Inr same_frame_def)

lemma put_t_law:
  assumes "put_t k i r eg v = Inr (g, w)" and "view_ok v" and "k \<in> set STATE_KINDS"
  shows "view_ok w \<and> same_frame v w \<and> sees w = (sees v)((k, i) \<mapsto> (r, g)) \<and> x_events w = x_events v
    \<and> eg = map_option snd (sees v (k, i)) \<and> x_issued w = Suc (x_issued v)
    \<and> g = st_ids (x_store v) ''generation'' (x_issued v) \<and> validate k r = Inr ()"
proof -
  from assms(1) have ok: "loadedId k i v = Inr ()" and eg: "map_option snd (entryFor v (k, i)) = eg"
    and val: "validate k r = Inr ()" and g: "g = st_ids (x_store v) ''generation'' (x_issued v)"
    and w: "w = v\<lparr>x_issued := Suc (x_issued v), x_staged := AList.update (k, i) (Live r g) (x_staged v)\<rparr>"
    by (auto simp: put_t_def bind_r_eq_Inr next_id_def split: if_splits)
  have "sees w = (sees v)((k, i) \<mapsto> (r, g))"
    by (rule ext) (simp add: w sees_def update_conv split: option.split)
  moreover have "view_ok w"
  proof (rule view_okI)
    fix key r' g' assume "map_of (x_loaded w) key = Some (Some (Live r' g'))"
    then show "base w key = Some (r', g') \<or> base w key = None \<and> map_of (x_staged w) key \<noteq> None"
      using view_loaded [OF assms(2), of key r' g'] by (auto simp: w update_conv)
  qed (use assms(2) ok in \<open>auto simp: w update_conv distinct_update loadedId_ok view_okD split: if_splits dest: view_exact_Some [OF assms(2)]\<close>)
  ultimately show ?thesis
    using entryFor_sees [OF assms(2) ok assms(3)] eg g val by (simp add: w same_frame_def)
qed


lemma remove_t_law:
  assumes "remove_t k i eg v = Inr (u, w)" and "view_ok v" and "k \<in> set STATE_KINDS"
  shows "view_ok w \<and> same_frame v w \<and> sees w = (sees v)((k, i) := None) \<and> x_events w = x_events v
    \<and> eg = map_option snd (sees v (k, i)) \<and> x_issued w = x_issued v"
proof -
  from assms(1) have ok: "loadedId k i v = Inr ()" and eg: "map_option snd (entryFor v (k, i)) = eg"
    by (auto simp: remove_t_def bind_r_eq_Inr split: if_splits)
  note seen = entryFor_sees [OF assms(2) ok assms(3)]
  show ?thesis
  proof (cases "\<exists>r g. map_of (x_loaded v) (k, i) = Some (Some (Live r g))")
    case True
    then obtain r g where l: "map_of (x_loaded v) (k, i) = Some (Some (Live r g))" by blast
    then have w: "w = v\<lparr>x_staged := AList.update (k, i) (Removed g) (x_staged v)\<rparr>"
      using assms(1) by (auto simp: remove_t_def bind_r_eq_Inr split: if_splits)
    have "sees w = (sees v)((k, i) := None)"
      by (rule ext) (simp add: w sees_def update_conv split: option.split)
    moreover have "view_ok w"
    proof (rule view_okI)
      fix key r' g' assume "map_of (x_loaded w) key = Some (Some (Live r' g'))"
      then show "base w key = Some (r', g') \<or> base w key = None \<and> map_of (x_staged w) key \<noteq> None"
        using view_loaded [OF assms(2), of key r' g'] by (auto simp: w update_conv)
    next
      fix key g' assume "map_of (x_staged w) key = Some (Removed g')"
      then show "base w key = None \<or> (\<exists>r. base w key = Some (r, g'))"
        using view_loaded [OF assms(2) l] view_removed [OF assms(2)] by (auto simp: w update_conv split: if_splits)
    qed (use assms(2) ok in \<open>auto simp: w update_conv distinct_update loadedId_ok view_okD split: if_splits dest: view_exact_Some [OF assms(2)]\<close>)
    ultimately show ?thesis using seen eg by (simp add: w same_frame_def)
  next
    case False
    then have none: "map_of (x_loaded v) (k, i) = None \<or> map_of (x_loaded v) (k, i) = Some None"
      using view_no_removed [OF assms(2)] by (metis entry.exhaust option.exhaust)
    then have w: "w = v\<lparr>x_staged := AList.delete (k, i) (x_staged v)\<rparr>"
      using assms(1) by (auto simp: remove_t_def bind_r_eq_Inr split: if_splits)
    have "base v (k, i) = None"
      using none ok assms(3) view_unloaded [OF assms(2)] view_absent [OF assms(2)]
      by (auto simp: loadedId_ok)
    then have "sees w = (sees v)((k, i) := None)"
      by (intro ext) (simp add: w sees_def delete_conv split: option.split)
    moreover have "view_ok w"
      using assms(2) none unfolding view_ok_def
      by (simp add: w delete_conv distinct_delete) (metis option.distinct(1) option.inject)
    ultimately show ?thesis using seen eg by (simp add: w same_frame_def)
  qed
qed

lemma read_entry_law:
  assumes "read_entry k i v = Inr found" and "view_ok v" and "k \<in> set STATE_KINDS"
  shows "found = sees v (k, i)"
proof -
  have dec: "declares v k" using assms(1) by (auto simp: read_entry_def bind_r_eq_Inr declared_ok)
  show ?thesis
  proof (cases "map_of (x_staged v) (k, i) \<noteq> None \<or> map_of (x_loaded v) (k, i) \<noteq> None")
    case True
    have "loadedId k i v = Inr ()"
      using True dec view_exact [OF assms(2), of k i] by (auto simp: loadedId_ok)
    with True assms entryFor_sees show ?thesis by (auto simp: read_entry_def bind_r_eq_Inr)
  next
    case False
    then show ?thesis
    proof (cases "k \<in> set (x_exact v)")
      case True
      with False assms(1) show ?thesis
        by (auto simp: read_entry_def bind_r_eq_Inr readStateEnvelope_def sees_def base_def
            split: option.splits if_splits)
    next
      case noexact: False
      then have "base v (k, i) = None"
        using view_unloaded [OF assms(2) dec assms(3)] False by simp
      with noexact False assms(1) show ?thesis
        by (auto simp: read_entry_def bind_r_eq_Inr sees_def)
    qed
  qed
qed

lemma load_t_law:
  assumes "load_t k i v = Inr (x, w)" and "view_ok v" and "k \<in> set STATE_KINDS"
  shows "view_ok w \<and> same_frame v w \<and> sees w = sees v \<and> x_events w = x_events v
    \<and> x = map_option fst (sees v (k, i)) \<and> x_issued w = x_issued v \<and> loadedId k i w = Inr ()"
proof (cases "map_of (x_loaded v) (k, i)")
  case None
  then obtain found where found: "read_entry k i v = Inr found"
    and w: "w = v\<lparr>x_loaded := AList.update (k, i) (map_option (\<lambda>(r, g). Live r g) found) (x_loaded v)\<rparr>"
    and x: "x = map_option fst (entryFor w (k, i))"
    using assms(1) by (auto simp: load_t_def bind_r_eq_Inr Let_def)
  have dec: "declares v k" using found by (auto simp: read_entry_def bind_r_eq_Inr declared_ok)
  have cases: "found = sees v (k, i) \<and> (map_of (x_staged v) (k, i) = None \<longrightarrow> found = base v (k, i))"
    using read_entry_law [OF found assms(2, 3)] by (simp add: sees_def)
  have "base v (k, i) = None" if "map_of (x_staged v) (k, i) \<noteq> None"
    using that None view_exact [OF assms(2)] view_unloaded [OF assms(2) dec assms(3)] by blast
  with cases have base: "found = base v (k, i) \<or> base v (k, i) = None \<and> map_of (x_staged v) (k, i) \<noteq> None"
    by blast
  have ok: "view_ok w"
    using assms(2) base unfolding view_ok_def w
    by (simp add: update_conv distinct_update) (auto split: option.splits)
  moreover have "loadedId k i w = Inr ()"
    using dec by (simp add: loadedId_ok w update_conv)
  ultimately show ?thesis
    using entryFor_sees [OF ok _ assms(3)] x by (simp add: w same_frame_def)
next
  case (Some oe)
  then show ?thesis
    using assms entryFor_sees [OF assms(2) _ assms(3)]
    by (auto simp: load_t_def bind_r_eq_Inr loadedId_ok declared_ok)
qed

lemma map_of_fold_update:
  "distinct (map fst s) \<Longrightarrow> map_of (foldl (\<lambda>m (key, e). AList.update key e m) b s) key
     = (case map_of s key of Some e \<Rightarrow> Some e | None \<Rightarrow> map_of b key)"
proof (induction s rule: rev_induct)
  case (snoc x s)
  obtain k e where x: "x = (k, e)" by (cases x)
  have "map_of s k = None" using snoc.prems x by (simp add: map_of_eq_None_iff)
  with snoc x show ?case by (auto simp: update_conv map_add_def split: option.splits)
qed simp

lemma distinct_fold_update:
  "distinct (map fst b) \<Longrightarrow> distinct (map fst (foldl (\<lambda>m (key, e). AList.update key e m) b s))"
  by (induction s arbitrary: b) (auto simp: distinct_update)

lemma keys_some_part:
  "set (map fst [(key, e). (key, Some e) \<leftarrow> l, P key]) \<subseteq> set (map fst l)"
  by (force split: option.splits)

lemma distinct_some_part:
  "distinct (map fst l) \<Longrightarrow> distinct (map fst [(key, e). (key, Some e) \<leftarrow> l, P key])"
proof (induction l)
  case (Cons x l)
  then show ?case
    by (cases x; cases "snd x") (auto, force)
qed simp

lemma map_of_some_part:
  "distinct (map fst l) \<Longrightarrow> map_of [(key, e). (key, Some e) \<leftarrow> l, P key] key
    = (if P key then (case map_of l key of Some oe \<Rightarrow> oe | None \<Rightarrow> None) else None)"
proof (induction l)
  case (Cons x l)
  obtain k oe where x: "x = (k, oe)" by (cases x)
  have "map_of l k = None" using Cons.prems x by (simp add: map_of_eq_None_iff)
  with Cons x show ?case by (auto split: option.splits)
qed simp

lemma map_of_filter_key: "map_of (filter (\<lambda>(key, _). P key) l) key = (if P key then map_of l key else None)"
  by (induction l) auto

lemma map_of_merged:
  assumes "view_ok v"
  shows "map_of (merged v k) key = (if fst key = k then (case map_of (x_staged v) key of Some e \<Rightarrow> Some e
      | None \<Rightarrow> (case map_of (x_loaded v) key of Some oe \<Rightarrow> oe | None \<Rightarrow> None)) else None)"
    and "distinct (map fst (merged v k))"
proof -
  have dist: "distinct (map fst (filter (\<lambda>(key, _). fst key = k) (x_staged v)))"
    using view_distinct(1) [OF assms] by (simp add: distinct_map_filter)
  show "map_of (merged v k) key = (if fst key = k then (case map_of (x_staged v) key of Some e \<Rightarrow> Some e
      | None \<Rightarrow> (case map_of (x_loaded v) key of Some oe \<Rightarrow> oe | None \<Rightarrow> None)) else None)"
    unfolding merged_def Let_def map_of_fold_update [OF dist] map_of_filter_key
      map_of_some_part [OF view_distinct(2) [OF assms], of "\<lambda>key. fst key = k"]
    by (auto split: option.splits)
  show "distinct (map fst (merged v k))"
    unfolding merged_def Let_def
    by (intro distinct_fold_update distinct_some_part [OF view_distinct(2) [OF assms]])
qed

lemma list_t_law:
  assumes "list_t k v = Inr (xs, w)" and "view_ok v" and "k \<in> set STATE_KINDS"
  shows "w = v \<and> set xs = {r. \<exists>i g. sees v (k, i) = Some (r, g)}"
proof -
  from assms(1) have w: "w = v" and xs: "xs = [r. (_, Live r _) \<leftarrow> merged v k]"
    and dec: "declares v k" "k \<notin> set (x_exact v)"
    by (auto simp: list_t_def bind_r_eq_Inr declared_ok)
  have one: "r \<in> set xs \<longleftrightarrow> (\<exists>key g. map_of (merged v k) key = Some (Live r g))" for r
  proof -
    have "r \<in> set xs \<longleftrightarrow> (\<exists>key g. (key, Live r g) \<in> set (merged v k))"
      unfolding xs by (force split: entry.splits)
    then show ?thesis
      using map_of_merged(2) [OF assms(2)] by (simp add: map_of_eq_Some_iff)
  qed
  have two: "(\<exists>key g. map_of (merged v k) key = Some (Live r g)) \<longleftrightarrow> (\<exists>i g. entryFor v (k, i) = Some (r, g))" for r
  proof -
    have "map_of (merged v k) key = Some (Live r g) \<longleftrightarrow> fst key = k \<and> entryFor v key = Some (r, g)" for key g
    proof -
      have "live e = Some (r, g) \<longleftrightarrow> e = Live r g" for e by (cases e) auto
      then show ?thesis
        unfolding map_of_merged(1) [OF assms(2)] entryFor_def by (auto split: option.splits)
    qed
    then show ?thesis by force
  qed
  have three: "entryFor v (k, i) = sees v (k, i)" for i
    using entryFor_sees [OF assms(2) _ assms(3)] dec by (simp add: loadedId_ok)
  have "r \<in> set xs \<longleftrightarrow> (\<exists>i g. sees v (k, i) = Some (r, g))" for r
    unfolding one two three by (rule refl)
  with w show ?thesis by blast
qed

section \<open>Beginning and committing\<close>

text \<open>
  A well-formed store: one envelope per key, each under the key of its own kind, and an
  event log whose sequences ascend from above the floor.
\<close>

definition ascending :: "nat list \<Rightarrow> bool" where
  "ascending ns = sorted_wrt (<) ns"

definition wf_store :: "store \<Rightarrow> bool" where
  "wf_store st \<longleftrightarrow> distinct (map fst (st_state st))
     \<and> (\<forall>((k, i), env) \<in> set (st_state st). k \<in> set STATE_KINDS \<and> kind_of (v_record env) = k)
     \<and> ascending (map e_sequence (st_events st))"

lemma map_r_map:
  "map_r f xs = Inr ys \<Longrightarrow> (\<And>x y. f x = Inr y \<Longrightarrow> y = h x) \<Longrightarrow> ys = map h xs"
  by (induction xs arbitrary: ys) (auto simp: bind_r_eq_Inr)

lemma listState_eq:
  assumes "listState st k = Inr l"
  shows "l = list_keys (st_state st) k"
proof -
  have "l = map (\<lambda>x. x) (list_keys (st_state st) k)"
    using assms unfolding listState_def by (rule map_r_map) (auto simp: res_simps)
  then show ?thesis by simp
qed

lemma map_of_distinct_set:
  assumes "distinct (map fst xs)" and "distinct (map fst ys)" and "set xs = set ys"
  shows "map_of xs = map_of ys"
proof (rule ext)
  fix key
  have "map_of xs key = Some e \<longleftrightarrow> map_of ys key = Some e" for e
    using assms by (simp add: map_of_eq_Some_iff)
  then show "map_of xs key = map_of ys key"
    by (metis not_Some_eq)
qed

lemma distinct_list_keys: "distinct (map fst area) \<Longrightarrow> distinct (map fst (list_keys area k))"
  by (simp add: list_keys_def locale_sort_def distinct_map inj_on_def)

lemma set_list_keys: "set (list_keys area k) = {e \<in> set area. fst (fst e) = k}"
  by (simp add: list_keys_def)

lemma loadStateEnvelopes_law:
  assumes "loadStateEnvelopes st wanted = Inr envs" and "distinct (map fst (st_state st))"
  shows "distinct (map fst envs)
    \<and> set envs = {e \<in> set (st_state st). fst (fst e) \<in> set STATE_KINDS
        \<and> (case wanted of None \<Rightarrow> True | Some ks \<Rightarrow> fst (fst e) \<in> set ks)}"
proof -
  let ?ks = "filter (\<lambda>k. case wanted of None \<Rightarrow> True | Some ks \<Rightarrow> k \<in> set ks) STATE_KINDS"
  obtain lists where lists: "map_r (listState st) ?ks = Inr lists" and envs: "envs = concat lists"
    using assms(1) by (auto simp: loadStateEnvelopes_def bind_r_eq_Inr)
  from lists have "lists = map (list_keys (st_state st)) ?ks"
    by (rule map_r_map) (rule listState_eq)
  then have envs: "envs = concat (map (list_keys (st_state st)) ?ks)" using envs by simp
  have "distinct ?ks" by (simp add: STATE_KINDS_def)
  then have "distinct (map fst (concat (map (list_keys (st_state st)) ks)))" if "distinct ks" for ks
    using that
  proof (induction ks)
    case (Cons k ks)
    then show ?case
      using distinct_list_keys [OF assms(2), of k] by (auto simp: set_list_keys)
  qed simp
  with \<open>distinct ?ks\<close> show ?thesis
    unfolding envs by (auto simp: set_list_keys split: option.splits)
qed

lemma begin_view_law:
  assumes "begin_view st kinds exactKinds = Inr v" and "wf_store st"
  shows "view_ok v \<and> x_store v = st \<and> sees v = store_map st \<and> x_events v = [] \<and> x_staged v = []
    \<and> x_issued v = st_issued st \<and> x_exact v = exactKinds \<and> x_wanted v = kinds"
proof -
  from assms(1) obtain eager envs where eager: "transactionKinds kinds exactKinds = Inr eager"
    and envs: "loadStateEnvelopes st eager = Inr envs"
    and v: "v = \<lparr>x_wanted = kinds, x_exact = exactKinds,
       x_loaded = map (\<lambda>(key, env). (key, Some (Live (v_record env) (v_generation env)))) envs,
       x_staged = [], x_events = [], x_issued = st_issued st, x_store = st\<rparr>"
    by (auto simp: begin_view_def bind_r_eq_Inr)
  have dist: "distinct (map fst (st_state st))" using assms(2) by (simp add: wf_store_def)
  note law = loadStateEnvelopes_law [OF envs dist]
  have loaded: "map_of (x_loaded v) key = map_option (\<lambda>env. Some (Live (v_record env) (v_generation env))) (map_of envs key)" for key
    unfolding v by (simp add: map_of_map)
  have envs_of: "map_of envs key = Some env \<Longrightarrow> map_of (st_state st) key = Some env" for key env
    using law dist by (simp add: map_of_eq_Some_iff)
  have eager_all: "map_of envs (k, i) = map_of (st_state st) (k, i)"
    if "declares v k" "k \<in> set STATE_KINDS" "k \<notin> set exactKinds" for k i
  proof -
    have "case eager of None \<Rightarrow> True | Some ks \<Rightarrow> k \<in> set ks"
      using that eager by (auto simp: transactionKinds_def declares_def v split: if_splits option.splits)
    then have "((k, i), env) \<in> set (st_state st) \<Longrightarrow> ((k, i), env) \<in> set envs" for env
      using law that by (cases eager) simp_all
    then have "map_of (st_state st) (k, i) = Some env \<Longrightarrow> map_of envs (k, i) = Some env" for env
      using law dist by (simp add: map_of_eq_Some_iff)
    with envs_of [of "(k, i)"] show ?thesis
      by (cases "map_of (st_state st) (k, i)"; cases "map_of envs (k, i)") auto
  qed
  have "sees v = store_map st"
    by (rule ext) (simp add: sees_def base_def store_map_def v)
  moreover have "view_ok v"
  proof (rule view_okI)
    show "distinct (map fst (x_loaded v))" using law by (simp add: v comp_def case_prod_unfold)
  next
    fix k i assume "declares v k" "k \<in> set STATE_KINDS" "k \<notin> set (x_exact v)" "map_of (x_loaded v) (k, i) = None"
    then show "base v (k, i) = None"
      using eager_all [of k i] loaded [of "(k, i)"] by (simp add: base_def v)
  next
    fix key r g assume "map_of (x_loaded v) key = Some (Some (Live r g))"
    then obtain env where "map_of envs key = Some env" "v_record env = r" "v_generation env = g"
      using loaded [of key] by (cases "map_of envs key") auto
    then have "base v key = Some (r, g)"
      using envs_of [of key env] by (simp add: base_def v)
    then show "base v key = Some (r, g) \<or> base v key = None \<and> map_of (x_staged v) key \<noteq> None" by simp
  next
    show "distinct (map fst (st_state (x_store v)))" using dist by (simp add: v)
  qed (simp_all add: loaded, simp_all add: v)
  ultimately show ?thesis by (simp add: v)
qed

lemma map_of_publish:
  "map_of (publish_entry area (key, e)) = (\<lambda>k. if k = key
     then (case e of Live r g \<Rightarrow> Some \<lparr>v_generation = g, v_record = r\<rparr>
       | Removed g \<Rightarrow> (case map_of area key of
           Some env \<Rightarrow> if v_generation env = g then None else Some env | None \<Rightarrow> None))
     else map_of area k)"
  by (rule ext) (auto simp: publish_entry_def update_conv delete_conv split: entry.splits option.splits)

lemma map_of_publish_all:
  "distinct (map fst s) \<Longrightarrow> map_of (foldl publish_entry area s) key
     = (case map_of s key of
          None \<Rightarrow> map_of area key
        | Some (Live r g) \<Rightarrow> Some \<lparr>v_generation = g, v_record = r\<rparr>
        | Some (Removed g) \<Rightarrow> (case map_of area key of
            Some env \<Rightarrow> if v_generation env = g then None else Some env | None \<Rightarrow> None))"
proof (induction s rule: rev_induct)
  case (snoc x s)
  obtain k e where x: "x = (k, e)" by (cases x)
  have "map_of s k = None" using snoc.prems x by (simp add: map_of_eq_None_iff)
  with snoc x show ?case
    by (auto simp: map_of_publish map_add_def split: option.splits entry.splits)
qed simp

lemma published_sees:
  assumes "view_ok v"
  shows "store_map (published v) = sees v"
proof (rule ext)
  fix key
  show "store_map (published v) key = sees v key"
    using view_removed [OF assms, of key] map_of_publish_all [OF view_distinct(1) [OF assms], of "st_state (x_store v)" key]
    by (cases "map_of (x_staged v) key"; cases "the (map_of (x_staged v) key)")
      (auto simp: store_map_def published_def sees_def base_def split: option.splits)
qed

lemma distinct_publish:
  "distinct (map fst area) \<Longrightarrow> distinct (map fst (publish_entry area ke))"
  by (auto simp: publish_entry_def distinct_update distinct_delete split: prod.splits entry.splits option.splits)

lemma distinct_published:
  assumes "view_ok v"
  shows "distinct (map fst (st_state (published v)))"
proof -
  have "distinct (map fst area) \<Longrightarrow> distinct (map fst (foldl publish_entry area s))" for area s
    by (induction s arbitrary: area) (auto simp: distinct_publish)
  with view_distinct(3) [OF assms] show ?thesis by (simp add: published_def)
qed

lemma number_events_sequences:
  "map e_sequence (number_events n es) = [n..<n + length es]"
  by (induction n es rule: number_events.induct) (simp_all add: upt_conv_Cons del: upt_Suc)

lemma length_number_events [simp]: "length (number_events n es) = length es"
  by (induction n es rule: number_events.induct) auto

lemma commit_law:
  assumes "commit v = Inr st" and "view_ok v"
  shows "store_map st = sees v \<and> distinct (map fst (st_state st))
    \<and> st_ephemeral st = st_ephemeral (x_store v) \<and> st_floor st = st_floor (x_store v)
    \<and> st_ids st = st_ids (x_store v) \<and> st_workspaceId st = st_workspaceId (x_store v)
    \<and> (\<exists>es. st_events st = st_events (x_store v) @ es
        \<and> (x_events v = [] \<longrightarrow> es = [])
        \<and> (x_events v \<noteq> [] \<longrightarrow> (\<exists>n. nextSequence (x_store v) = Inr n \<and> es = number_events n (x_events v))))"
proof (cases "x_events v = [] \<and> x_staged v = []")
  case True
  then have "sees v = store_map (x_store v)"
    by (simp add: fun_eq_iff sees_def base_def store_map_def)
  moreover have "st = (x_store v)\<lparr>st_issued := x_issued v\<rparr>" using True assms(1) by (simp add: commit_def)
  ultimately show ?thesis
    using True view_distinct(3) [OF assms(2)] by (simp add: store_map_def fun_eq_iff)
next
  case False
  note ne = this
  note pub = published_sees [OF assms(2)] distinct_published [OF assms(2)]
  show ?thesis
  proof (cases "single_record v")
    case True
    then have "st = published v" and "x_events v = []"
      using ne assms(1) by (auto simp: commit_def single_record_def)
    with pub show ?thesis by (simp add: published_def)
  next
    case False
    then obtain n where n: "nextSequence (x_store v) = Inr n"
      and st: "st = (published v)\<lparr>st_events := st_events (x_store v) @ number_events n (x_events v),
        st_issued := Suc (x_issued v)\<rparr>"
      using ne assms(1) by (auto simp: commit_def res_simps Let_def)
    have "store_map st = store_map (published v)"
      by (simp add: st store_map_def fun_eq_iff)
    with pub n st show ?thesis by (auto simp: published_def)
  qed
qed

section \<open>Indexed lookups\<close>

lemma set_select_ids:
  assumes "distinct (map fst staged)"
  shows "i \<in> set (select_ids staged index tuple ids) \<longleftrightarrow>
    (case map_of staged (index_kind index, i) of
       Some (Live r g) \<Rightarrow> tuple \<in> set (index_keys index r)
     | Some (Removed g) \<Rightarrow> False
     | None \<Rightarrow> i \<in> set ids)"
  using assms
proof (induction staged rule: rev_induct)
  case Nil
  then show ?case by (simp add: select_ids_def)
next
  case (snoc x staged)
  obtain k j e where x: "x = ((k, j), e)" by (cases x) auto
  have "map_of staged (k, j) = None" using snoc.prems x by (simp add: map_of_eq_None_iff)
  with snoc x show ?case
    by (auto simp: select_ids_def map_add_def split: entry.splits option.splits)
qed

lemma set_index_ids:
  assumes "distinct (map fst area)"
  shows "i \<in> set (index_ids area index tuple) \<longleftrightarrow>
    (\<exists>env. map_of area (index_kind index, i) = Some env \<and> tuple \<in> set (index_keys index (v_record env)))"
  using assms by (auto simp: index_ids_def map_of_eq_Some_iff)

lemma lookup_t_law:
  assumes "lookup_t index tuple v = Inr (ids, w)" and "view_ok v"
  shows "w = v \<and> set ids = {i. \<exists>r g. sees v (index_kind index, i) = Some (r, g) \<and> tuple \<in> set (index_keys index r)}"
proof -
  let ?sel = "select_ids (x_staged v) index tuple (index_ids (st_state (x_store v)) index tuple)"
  have kind: "index_kind index \<in> set STATE_KINDS" by (cases index) (simp_all add: STATE_KINDS_def)
  obtain found where found: "map_r (\<lambda>i. bind_r (read_entry (index_kind index) i v) (\<lambda>f. Inr (i, f)))
      (locale_sort (\<lambda>i. i @ ''.json'') ?sel) = Inr found"
    and ids: "ids = [i. (i, Some _) \<leftarrow> found]" and w: "w = v"
    using assms(1) by (auto simp: lookup_t_def bind_r_eq_Inr Let_def)
  have "found = map (\<lambda>i. (i, sees v (index_kind index, i))) (locale_sort (\<lambda>i. i @ ''.json'') ?sel)"
    using found by (rule map_r_map) (auto simp: bind_r_eq_Inr read_entry_law [OF _ assms(2) kind])
  moreover have "i \<in> set ids \<longleftrightarrow> (\<exists>x. (i, Some x) \<in> set found)" for i
    unfolding ids by (auto split: option.splits)
  moreover have "(\<exists>x. (i, Some x) \<in> set (map (\<lambda>i. (i, f i)) xs)) \<longleftrightarrow> i \<in> set xs \<and> f i \<noteq> None"
    for i and f :: "id \<Rightarrow> (entity \<times> id) option" and xs
    by (cases "f i") force+
  ultimately have "i \<in> set ids \<longleftrightarrow> i \<in> set ?sel \<and> sees v (index_kind index, i) \<noteq> None" for i
    by simp
  moreover have "i \<in> set ?sel \<and> sees v (index_kind index, i) \<noteq> None \<longleftrightarrow>
      (\<exists>r g. sees v (index_kind index, i) = Some (r, g) \<and> tuple \<in> set (index_keys index r))" for i
    unfolding set_select_ids [OF view_distinct(1) [OF assms(2)]] set_index_ids [OF view_distinct(3) [OF assms(2)]]
    by (auto simp: sees_def base_def split: option.splits entry.splits)
  ultimately show ?thesis using w by blast
qed

end
