(* ===== verification/Transactions.thy ===== *)
theory Transactions
  imports Store_Laws
begin

text \<open>
  What every transaction keeps, whatever its callback does with the interface it is given.
  \<open>tx_step\<close> is one successful call of the transaction interface and \<open>lawful m\<close> says that the
  callback \<open>m\<close> changes its view through such calls only; the rules in \<open>lawful_intros\<close> prove it of
  each service from the shape of its code. A lawful transaction keeps the store well formed
  and only ever appends to the event log.
\<close>

named_theorems lawful_intros \<open>a callback that uses only the transaction interface\<close>

text \<open>What a read of one kind returns is a record of that kind.\<close>

lemma as_entity_Some:
  "as_session x = Some a \<longleftrightarrow> x = Some (SessionR a)" "as_claim x = Some c \<longleftrightarrow> x = Some (ClaimR c)"
  "as_message x = Some m \<longleftrightarrow> x = Some (MessageR m)" "as_receipt x = Some r \<longleftrightarrow> x = Some (ReceiptR r)"
  "as_binding x = Some b \<longleftrightarrow> x = Some (BindingR b)" "as_participant x = Some p \<longleftrightarrow> x = Some (ParticipantR p)"
  "as_intent x = Some i \<longleftrightarrow> x = Some (IntentR i)" "as_workspace x = Some w \<longleftrightarrow> x = Some (WorkspaceR w)"
  by (auto elim: as_session.elims as_claim.elims as_message.elims as_receipt.elims as_binding.elims as_participant.elims
      as_intent.elims as_workspace.elims)

lemma set_all_of: "x \<in> set (all_of as rs) \<longleftrightarrow> (\<exists>r \<in> set rs. as (Some r) = Some x)"
  by (force simp: all_of_def split: option.splits)

text \<open>The interface unfolded, to run a callback on a concrete view.\<close>

lemmas tx_eval = bind_t_def return_t_def lift_t_def throw_t_def bind_r_def get_t_def loadedId_def declared_def entryFor_def
  generationOf_def list_t_def merged_def next_id_def load_t_def read_entry_def readStateEnvelope_def put_t_def remove_t_def
  append_t_def lookup_t_def select_ids_def assertIndexTuple_def throw_if_def all_of_def js_uniq_def locale_sort_def
  Let_def

lemmas commit_eval = commit_def single_record_def nextSequence_def MAX_SAFE_INTEGER_def

lemmas begin_eval = begin_view_def transactionKinds_def loadStateEnvelopes_def STATE_KINDS_def listState_def list_keys_def
  locale_sort_def bind_r_def

section \<open>A record under a kind has that kind's shape\<close>

lemma validate_keys:
  assumes "validate k e = Inr ()" and "entity_json e = JObj kvs" and "map_of RECORDS (kind_name k) = Some fs"
    and "key \<in> set (map fst kvs)"
  shows "key \<in> set ([''schemaVersion'', ''extensions''] @ map fst fs)"
proof -
  have "known_keys ([''schemaVersion'', ''extensions''] @ map fst fs) (kind_name k) ''is not a known field'' kvs = Inr ()"
    using assms(1-3) by (auto simp: validate_def validateRecord_def Let_def bind_r_eq_Inr)
  with assms(4) show ?thesis
    by (fastforce simp: known_keys_def each_r_ok invalid_def split: if_splits)
qed

definition field_names :: "kind \<Rightarrow> string list" where
  "field_names k = (case map_of RECORDS (kind_name k) of None \<Rightarrow> [] | Some fs \<Rightarrow> map fst fs)"

definition json_keys :: "json \<Rightarrow> string list" where
  "json_keys v = map fst (fields_of (Some v))"

lemma validate_field_names:
  assumes "validate k e = Inr ()"
  shows "set (json_keys (entity_json e)) \<subseteq> set ([''schemaVersion'', ''extensions''] @ field_names k)"
proof -
  obtain fs where fs: "map_of RECORDS (kind_name k) = Some fs"
    using assms by (auto simp: validate_def validateRecord_def bind_r_eq_Inr split: option.splits)
  obtain kvs where kvs: "entity_json e = JObj kvs"
    using assms by (auto simp: validate_def validateRecord_def plainObject_def invalid_def bind_r_eq_Inr
        split: option.splits json.splits)
  show ?thesis
    using validate_keys [OF assms kvs fs] by (auto simp: field_names_def json_keys_def fs kvs)
qed

definition marker :: "kind \<Rightarrow> string list" where
  "marker k = (case k of
     Workspace \<Rightarrow> [''roots''] | Participant \<Rightarrow> [''participantId'', ''displayName''] | Session \<Rightarrow> [''harness'']
   | Intent \<Rightarrow> [''summary''] | Claim \<Rightarrow> [''claimId''] | Message \<Rightarrow> [''threadId'']
   | Receipt \<Rightarrow> [''recipientParticipantId''] | DeliveryBinding \<Rightarrow> [''adapterId''])"

lemma marker_present: "set (marker (kind_of e)) \<subseteq> set (json_keys (entity_json e))"
  by (cases e) (simp_all add: marker_def json_keys_def workspace_json_def participant_json_def session_json_def
      intent_json_def claim_json_def message_json_def receipt_json_def binding_json_def)

lemma field_names_simps:
  "field_names Workspace = [''workspaceId'', ''displayName'', ''source'', ''roots'', ''createdAt'']"
  "field_names Participant = [''participantId'', ''workspaceId'', ''displayName'', ''kind'', ''createdAt'']"
  "field_names Session = [''sessionId'', ''participantId'', ''workspaceId'', ''generation'', ''harness'', ''state'',
     ''parentSessionId'', ''checkoutRoot'', ''branch'', ''pid'', ''enforcement'', ''lifecycle'',
     ''heartbeatCadenceMs'', ''startedAt'', ''heartbeatAt'']"
  "field_names Intent = [''sessionId'', ''workspaceId'', ''summary'', ''mode'', ''resourceHints'', ''state'', ''updatedAt'']"
  "field_names Claim = [''claimId'', ''workspaceId'', ''ownerSessionId'', ''resource'', ''mode'', ''enforcement'',
     ''reason'', ''acquiredAt'', ''expiresAt'', ''generation'']"
  "field_names Message = [''messageId'', ''threadId'', ''clientMessageId'', ''workspaceId'', ''fromParticipantId'',
     ''fromSessionId'', ''toParticipantIds'', ''kind'', ''obligation'', ''subject'', ''body'', ''inReplyTo'',
     ''artifacts'', ''handoff'', ''decisionChange'', ''sentAt'']"
  "field_names Receipt = [''messageId'', ''workspaceId'', ''recipientParticipantId'', ''state'', ''updatedAt'']"
  "field_names DeliveryBinding = [''sessionId'', ''generation'', ''adapterId'', ''clientVersion'', ''availableModes'',
     ''livePolicy'', ''opaqueEndpointRef'', ''leaseUntil'', ''retiredAt'']"
  by (simp_all add: field_names_def RECORDS_def DURABLE_RECORDS_def)

lemma marker_unique:
  "set (marker j) \<subseteq> set ([''schemaVersion'', ''extensions''] @ field_names k) \<Longrightarrow> j = k"
  by (cases j; cases k) (simp_all add: marker_def field_names_simps)

lemma validate_kind:
  assumes "validate k e = Inr ()"
  shows "kind_of e = k"
  using marker_present [of e] validate_field_names [OF assms] by (intro marker_unique) (rule subset_trans)

section \<open>Calls of the interface\<close>

inductive tx_step :: "view \<Rightarrow> view \<Rightarrow> bool" where
  load: "load_t k i v = Inr (x, w) \<Longrightarrow> k \<in> set STATE_KINDS \<Longrightarrow> tx_step v w"
| next_id: "next_id label v = Inr (x, w) \<Longrightarrow> tx_step v w"
| put: "put_t k i r eg v = Inr (g, w) \<Longrightarrow> k \<in> set STATE_KINDS \<Longrightarrow> tx_step v w"
| remove: "remove_t k i eg v = Inr (u, w) \<Longrightarrow> k \<in> set STATE_KINDS \<Longrightarrow> tx_step v w"
| append: "append_t e v = Inr (u, w) \<Longrightarrow> tx_step v w"

inductive_cases tx_stepE: "tx_step v w"

definition lawful :: "'a tx \<Rightarrow> bool" where
  "lawful m \<longleftrightarrow> (\<forall>v x w. m v = Inr (x, w) \<longrightarrow> tx_step\<^sup>*\<^sup>* v w)"

lemma lawfulI: "(\<And>v x w. m v = Inr (x, w) \<Longrightarrow> tx_step\<^sup>*\<^sup>* v w) \<Longrightarrow> lawful m"
  by (simp add: lawful_def)

lemma lawfulD: "lawful m \<Longrightarrow> m v = Inr (x, w) \<Longrightarrow> tx_step\<^sup>*\<^sup>* v w"
  by (simp add: lawful_def)

lemma lawful_bind [lawful_intros]: "lawful m \<Longrightarrow> (\<And>x. lawful (f x)) \<Longrightarrow> lawful (bind_t m f)"
  by (rule lawfulI) (auto simp: bind_t_eq dest: lawfulD intro: rtranclp_trans)

lemma lawful_bind_result:
  assumes "lawful m" and "\<And>x v w. m v = Inr (x, w) \<Longrightarrow> lawful (f x)"
  shows "lawful (bind_t m f)"
  by (rule lawfulI) (auto simp: bind_t_eq dest: lawfulD [OF assms(1)] lawfulD [OF assms(2)] intro: rtranclp_trans)

lemma lawful_return [lawful_intros]: "lawful (return_t x)"
  by (rule lawfulI) (simp add: return_t_eq)

lemma lawful_lift [lawful_intros]: "lawful (lift_t r)"
  by (rule lawfulI) (simp add: lift_t_eq)

lemma lawful_throw [lawful_intros]: "lawful (throw_t c code msg)"
  by (rule lawfulI) (simp add: throw_t_eq)

lemma lawful_if [lawful_intros]: "(c \<Longrightarrow> lawful m) \<Longrightarrow> (\<not> c \<Longrightarrow> lawful n) \<Longrightarrow> lawful (if c then m else n)"
  by simp

lemma lawful_option [lawful_intros]:
  "lawful m \<Longrightarrow> (\<And>y. lawful (f y)) \<Longrightarrow> lawful (case x of None \<Rightarrow> m | Some y \<Rightarrow> f y)"
  by (cases x) simp_all

lemma lawful_prod [lawful_intros]: "(\<And>a b. p = (a, b) \<Longrightarrow> lawful (f a b)) \<Longrightarrow> lawful (case p of (a, b) \<Rightarrow> f a b)"
  by (cases p) simp

lemma lawful_Let [lawful_intros]: "lawful (f x) \<Longrightarrow> lawful (Let x f)"
  by (simp add: Let_def)

lemma lawful_map [lawful_intros]: "(\<And>x. lawful (f x)) \<Longrightarrow> lawful (map_t f xs)"
  by (induction xs) (auto intro!: lawful_intros)

lemma lawful_each [lawful_intros]: "(\<And>x. x \<in> set xs \<Longrightarrow> lawful (f x)) \<Longrightarrow> lawful (each_t f xs)"
  by (induction xs) (auto intro!: lawful_intros)

lemma lawful_get [lawful_intros]: "lawful (get_t k i)"
  by (rule lawfulI) (auto simp: get_t_def bind_r_eq_Inr)

lemma lawful_generationOf [lawful_intros]: "lawful (generationOf k i)"
  by (rule lawfulI) (auto simp: generationOf_def bind_r_eq_Inr)

lemma lawful_list [lawful_intros]: "lawful (list_t k)"
  by (rule lawfulI) (auto simp: list_t_def bind_r_eq_Inr)

lemma lawful_lookup [lawful_intros]: "lawful (lookup_t index tuple)"
  by (rule lawfulI) (auto simp: lookup_t_def bind_r_eq_Inr Let_def)

lemma STATE_KINDS_iff [simp]: "k \<in> set STATE_KINDS \<longleftrightarrow> k \<noteq> DeliveryBinding"
  by (cases k) (simp_all add: STATE_KINDS_def)

lemma lawful_store_read [lawful_intros]: "lawful (\<lambda>v. lift_t (f (x_store v)) v)"
  by (rule lawfulI) (simp add: lift_t_eq)

lemma lawful_load [lawful_intros]: "k \<noteq> DeliveryBinding \<Longrightarrow> lawful (load_t k i)"
  by (rule lawfulI, rule r_into_rtranclp, erule tx_step.load) simp

lemma lawful_next_id [lawful_intros]: "lawful (next_id label)"
  by (rule lawfulI) (auto intro: tx_step.next_id)

lemma lawful_put [lawful_intros]: "k \<noteq> DeliveryBinding \<Longrightarrow> lawful (put_t k i r eg)"
  by (rule lawfulI, rule r_into_rtranclp, erule tx_step.put) simp

lemma lawful_remove [lawful_intros]: "k \<noteq> DeliveryBinding \<Longrightarrow> lawful (remove_t k i eg)"
  by (rule lawfulI, rule r_into_rtranclp, erule tx_step.remove) simp

lemma lawful_append [lawful_intros]: "lawful (append_t e)"
  by (rule lawfulI) (auto intro: tx_step.append)

section \<open>What a transaction keeps\<close>

definition typed_map :: "(kind \<times> id \<Rightarrow> (entity \<times> id) option) \<Rightarrow> bool" where
  "typed_map m \<longleftrightarrow> (\<forall>key r g. m key = Some (r, g) \<longrightarrow> fst key \<in> set STATE_KINDS \<and> kind_of r = fst key)"

lemma tx_step_keeps:
  assumes "tx_step v w" and "view_ok v" and "typed_map (sees v)"
  shows "view_ok w \<and> same_frame v w \<and> typed_map (sees w) \<and> (\<exists>es. x_events w = x_events v @ es)"
  using assms(1)
proof cases
  case (load k i x)
  with load_t_law [OF _ assms(2)] assms(3) show ?thesis by fastforce
next
  case (next_id label x)
  with next_id_law [OF _ assms(2)] assms(3) show ?thesis by fastforce
next
  case (put k i r eg g)
  with put_t_law [OF put(1) assms(2)] have "sees w = (sees v)((k, i) \<mapsto> (r, g))" "validate k r = Inr ()" by auto
  with put validate_kind assms(3) have "typed_map (sees w)" by (auto simp: typed_map_def)
  with put put_t_law [OF put(1) assms(2)] show ?thesis by auto
next
  case (remove k i eg u)
  with remove_t_law [OF remove(1) assms(2)] assms(3) show ?thesis by (auto simp: typed_map_def)
next
  case (append e u)
  with append_t_law [OF _ assms(2)] assms(3) show ?thesis by fastforce
qed

lemma tx_steps_keep:
  assumes "tx_step\<^sup>*\<^sup>* v w" and "view_ok v" and "typed_map (sees v)"
  shows "view_ok w \<and> same_frame v w \<and> typed_map (sees w) \<and> (\<exists>es. x_events w = x_events v @ es)"
  using assms
proof (induction rule: rtranclp_induct)
  case (step u w)
  then have "view_ok u" "same_frame v u" "typed_map (sees u)" "\<exists>es. x_events u = x_events v @ es" by auto
  with tx_step_keeps [OF step(2)] show ?case by (auto intro: same_frame_trans)
qed simp

lemma wf_store_map: "wf_store st \<longleftrightarrow> distinct (map fst (st_state st)) \<and> typed_map (store_map st)
    \<and> ascending (map e_sequence (st_events st))"
proof -
  have "(\<forall>((k, i), env) \<in> set (st_state st). k \<in> set STATE_KINDS \<and> kind_of (v_record env) = k) \<longleftrightarrow> typed_map (store_map st)"
    if "distinct (map fst (st_state st))"
    using that by (force simp: typed_map_def store_map_def map_of_eq_Some_iff)
  then show ?thesis by (auto simp: wf_store_def)
qed

lemma nextSequence_above:
  assumes "nextSequence st = Inr n" and "ascending (map e_sequence (st_events st))" and "e \<in> set (st_events st)"
  shows "e_sequence e < n"
proof -
  have "st_events st \<noteq> []" using assms(3) by auto
  then obtain es l where es: "st_events st = es @ [l]" by (metis append_butlast_last_id)
  then have "n = Suc (e_sequence l)"
    using assms(1) by (auto simp: nextSequence_def split: if_splits)
  with assms(2, 3) es show ?thesis
    by (auto simp: ascending_def sorted_wrt_append)
qed

lemma ascending_append_numbered:
  assumes "ascending (map e_sequence es)" and "\<And>e. e \<in> set es \<Longrightarrow> e_sequence e < n"
  shows "ascending (map e_sequence (es @ number_events n new))"
  using assms by (auto simp: ascending_def sorted_wrt_append number_events_sequences)
    (meson assms(2) less_le_trans)

lemma transaction_keeps:
  assumes "transaction ks exactKinds callback st = Inr (y, st')" and "lawful callback" and "wf_store st"
  shows "wf_store st'" and "\<exists>es. st_events st' = st_events st @ es"
    and "st_ephemeral st' = st_ephemeral st" and "st_floor st' = st_floor st"
    and "st_ids st' = st_ids st" and "st_workspaceId st' = st_workspaceId st"
proof -
  obtain v w where v: "begin_view st ks exactKinds = Inr v" and w: "callback v = Inr (y, w)"
    and st': "commit w = Inr st'"
    using assms(1) by (auto simp: transaction_eq)
  note start = begin_view_law [OF v assms(3)]
  have "typed_map (sees v)" using start assms(3) by (simp add: wf_store_map)
  with tx_steps_keep [OF lawfulD [OF assms(2) w]] start
  have keeps: "view_ok w" "same_frame v w" "typed_map (sees w)" by auto
  then have store: "x_store w = st" using start by (simp add: same_frame_def)
  note commit = commit_law [OF st' keeps(1)]
  have asc: "ascending (map e_sequence (st_events st))" using assms(3) by (simp add: wf_store_def)
  from commit store obtain es where es: "st_events st' = st_events st @ es"
    and cases: "es = [] \<or> (\<exists>n. nextSequence st = Inr n \<and> es = number_events n (x_events w))"
    by auto
  have "ascending (map e_sequence (st_events st'))"
    using cases es asc ascending_append_numbered [OF asc] nextSequence_above [OF _ asc] by auto
  then show "wf_store st'" using commit keeps(3) by (simp add: wf_store_map)
  show "\<exists>es. st_events st' = st_events st @ es" using es by blast
  show "st_ephemeral st' = st_ephemeral st" "st_floor st' = st_floor st"
    "st_ids st' = st_ids st" "st_workspaceId st' = st_workspaceId st"
    using commit store by simp_all
qed

text \<open>What the transaction saw last is what the store holds next.\<close>

lemma transaction_result:
  assumes "transaction ks exactKinds callback st = Inr (y, st')" and "lawful callback" and "wf_store st"
  obtains v w where "begin_view st ks exactKinds = Inr v" "callback v = Inr (y, w)" "view_ok v" "view_ok w"
    "sees v = store_map st" "sees w = store_map st'" "x_events v = []" "x_store v = st" "x_store w = st"
    "typed_map (sees v)"
proof -
  obtain v w where v: "begin_view st ks exactKinds = Inr v" and w: "callback v = Inr (y, w)"
    and st': "commit w = Inr st'"
    using assms(1) by (auto simp: transaction_eq)
  note start = begin_view_law [OF v assms(3)]
  have typed: "typed_map (sees v)" using start assms(3) by (simp add: wf_store_map)
  with tx_steps_keep [OF lawfulD [OF assms(2) w]] start
  have ok: "view_ok w" and frame: "same_frame v w" by auto
  show thesis
    using commit_law [OF st' ok] start frame typed
    by (intro that [OF v w]) (simp_all add: ok same_frame_def)
qed

section \<open>Every record and event is checked\<close>

definition valid_map :: "(kind \<times> id \<Rightarrow> (entity \<times> id) option) \<Rightarrow> bool" where
  "valid_map m \<longleftrightarrow> (\<forall>k i r g. m (k, i) = Some (r, g) \<longrightarrow> validate k r = Inr ())"

definition log_ok :: "store \<Rightarrow> bool" where
  "log_ok st \<longleftrightarrow> (\<forall>e \<in> set (st_events st). validate_event e = Inr ())"

lemma tx_steps_valid:
  assumes "tx_step\<^sup>*\<^sup>* v w" and "view_ok v" and "typed_map (sees v)" and "valid_map (sees v)"
  shows "valid_map (sees w)"
  using assms
proof (induction rule: rtranclp_induct)
  case (step u w)
  from tx_steps_keep [OF step(1, 4, 5)] have ok: "view_ok u" by simp
  have valid: "valid_map (sees u)" using step by blast
  from step(2) show ?case
  proof cases
    case (put k i r eg g)
    with put_t_law [OF put(1) ok] valid show ?thesis by (auto simp: valid_map_def)
  next
    case (remove k i eg x)
    with remove_t_law [OF remove(1) ok] valid show ?thesis by (auto simp: valid_map_def)
  qed (use load_t_law [OF _ ok] next_id_law [OF _ ok] append_t_law [OF _ ok] valid in fastforce)+
qed

lemma transaction_valid:
  assumes "transaction ks exactKinds callback st = Inr (y, st')" and "lawful callback" and "wf_store st"
    and "valid_map (store_map st)"
  shows "valid_map (store_map st')"
proof -
  obtain v w where "callback v = Inr (y, w)" "view_ok v" "sees v = store_map st" "sees w = store_map st'" "typed_map (sees v)"
    using transaction_result [OF assms(1-3)] by metis
  with tx_steps_valid lawfulD [OF assms(2)] assms(4) show ?thesis by metis
qed

lemma commit_log_ok:
  assumes "commit v = Inr st" and "log_ok (x_store v)"
  shows "log_ok st"
  using assms by (auto simp: commit_def log_ok_def res_simps each_r_ok published_def Let_def split: if_splits)

lemma transaction_log_ok:
  assumes "transaction ks exactKinds callback st = Inr (y, st')" and "lawful callback" and "wf_store st" and "log_ok st"
  shows "log_ok st'"
proof -
  obtain v w where v: "begin_view st ks exactKinds = Inr v" and w: "callback v = Inr (y, w)" and st': "commit w = Inr st'"
    using assms(1) by (auto simp: transaction_eq)
  note start = begin_view_law [OF v assms(3)]
  then have "typed_map (sees v)" using assms(3) by (simp add: wf_store_map)
  with tx_steps_keep [OF lawfulD [OF assms(2) w]] start have "x_store w = st" by (auto simp: same_frame_def)
  with commit_log_ok [OF st'] assms(4) show ?thesis by simp
qed

text \<open>A listing of checked records never fails.\<close>

lemma listState_valid:
  assumes "valid_map (store_map st)" and "distinct (map fst (st_state st))"
  shows "listState st k = Inr (list_keys (st_state st) k)"
proof -
  have "validate k (v_record env) = Inr ()" if "(key, env) \<in> set (list_keys (st_state st) k)" for key env
  proof -
    have "map_of (st_state st) key = Some env" "fst key = k"
      using that assms(2) by (auto simp: set_list_keys)
    then have "store_map st (k, snd key) = Some (v_record env, v_generation env)" by (auto simp: store_map_def)
    with assms(1) show ?thesis unfolding valid_map_def by blast
  qed
  then show ?thesis
    unfolding listState_def by (auto simp: map_r_eq_Inr list_all2_same bind_r_def)
qed

section \<open>What a transaction may write\<close>

text \<open>A kind that the transaction did not declare is never written.\<close>

lemma tx_step_undeclared:
  assumes "tx_step v w" and "view_ok v" and "\<not> declares v k"
  shows "sees w (k, i) = sees v (k, i)"
  using assms(1)
proof cases
  case (load k' i' x)
  with load_t_law [OF _ assms(2)] show ?thesis by fastforce
next
  case (next_id label x)
  with next_id_law [OF _ assms(2)] show ?thesis by fastforce
next
  case (put k' i' r eg g)
  then have "declares v k'" by (auto simp: put_t_def bind_r_eq_Inr loadedId_ok)
  with put_t_law [OF put(1) assms(2)] put assms(3) show ?thesis by auto
next
  case (remove k' i' eg u)
  then have "declares v k'" by (auto simp: remove_t_def bind_r_eq_Inr loadedId_ok)
  with remove_t_law [OF remove(1) assms(2)] remove assms(3) show ?thesis by auto
next
  case (append e u)
  with append_t_law [OF _ assms(2)] show ?thesis by fastforce
qed

lemma tx_steps_undeclared:
  assumes "tx_step\<^sup>*\<^sup>* v w" and "view_ok v" and "typed_map (sees v)" and "\<not> declares v k"
  shows "sees w (k, i) = sees v (k, i)"
  using assms
proof (induction rule: rtranclp_induct)
  case (step u w)
  from tx_steps_keep [OF step(1, 4, 5)] have "view_ok u" "same_frame v u" by auto
  with tx_step_undeclared [OF step(2)] step declares_frame show ?case by metis
qed simp

lemma transaction_undeclared:
  assumes "transaction (Some ks) exactKinds callback st = Inr (y, st')" and "lawful callback" and "wf_store st"
    and "k \<notin> set ks"
  shows "store_map st' (k, i) = store_map st (k, i)"
proof -
  obtain v w where "begin_view st (Some ks) exactKinds = Inr v" "callback v = Inr (y, w)" "view_ok v"
    "sees v = store_map st" "sees w = store_map st'" "typed_map (sees v)"
    using transaction_result [OF assms(1-3)] by metis
  moreover from this have "\<not> declares v k"
    using begin_view_law [OF _ assms(3)] assms(4) by (fastforce simp: declares_def)
  ultimately show ?thesis
    using tx_steps_undeclared [OF lawfulD [OF assms(2)]] by metis
qed

text \<open>
  \<open>adds k P m\<close>: every record of kind \<open>k\<close> that the transaction sees after \<open>m\<close> it saw before,
  under the same key, or it satisfies \<open>P\<close>. \<open>emits P m\<close>: every event that \<open>m\<close> appends
  satisfies \<open>P\<close>.
\<close>

named_theorems adds_intros \<open>which records a callback may add\<close>
named_theorems emits_intros \<open>which events a callback may append\<close>

definition adds :: "kind \<Rightarrow> (entity \<Rightarrow> bool) \<Rightarrow> 'a tx \<Rightarrow> bool" where
  "adds k P m \<longleftrightarrow> (\<forall>v x w i r g. view_ok v \<longrightarrow> m v = Inr (x, w) \<longrightarrow>
     view_ok w \<and> (sees w (k, i) = Some (r, g) \<longrightarrow> sees v (k, i) = Some (r, g) \<or> P r))"

lemma addsI:
  assumes "\<And>v x w. view_ok v \<Longrightarrow> m v = Inr (x, w) \<Longrightarrow> view_ok w"
    and "\<And>v x w i r g. view_ok v \<Longrightarrow> m v = Inr (x, w) \<Longrightarrow> sees w (k, i) = Some (r, g)
      \<Longrightarrow> sees v (k, i) = Some (r, g) \<or> P r"
  shows "adds k P m"
  using assms unfolding adds_def by blast

lemma addsD:
  assumes "adds k P m" and "view_ok v" and "m v = Inr (x, w)"
  shows "view_ok w" and "sees w (k, i) = Some (r, g) \<Longrightarrow> sees v (k, i) = Some (r, g) \<or> P r"
  using assms unfolding adds_def by blast+

lemma adds_bind [adds_intros]:
  assumes m: "adds k P m" and f: "\<And>x. adds k P (f x)"
  shows "adds k P (bind_t m f)"
proof (rule addsI)
  fix v x w assume ok: "view_ok v" and run: "bind_t m f v = Inr (x, w)"
  from run obtain y u where step: "m v = Inr (y, u)" and rest: "f y u = Inr (x, w)" by (auto simp: bind_t_eq)
  note mid = addsD [OF m ok step] and final = addsD [OF f addsD(1) [OF m ok step] rest]
  show "view_ok w" by (rule final)
  fix i r g assume "sees w (k, i) = Some (r, g)"
  with mid final show "sees v (k, i) = Some (r, g) \<or> P r" by blast
qed

lemma adds_return [adds_intros]: "adds k P (return_t x)"
  by (rule addsI) (auto simp: return_t_eq)

lemma adds_lift [adds_intros]: "adds k P (lift_t r)"
  by (rule addsI) (auto simp: lift_t_eq)

lemma adds_throw [adds_intros]: "adds k P (throw_t c code msg)"
  by (rule addsI) (auto simp: throw_t_eq)

lemma adds_if [adds_intros]: "(c \<Longrightarrow> adds k P m) \<Longrightarrow> (\<not> c \<Longrightarrow> adds k P n) \<Longrightarrow> adds k P (if c then m else n)"
  by simp

lemma adds_option [adds_intros]:
  "(x = None \<Longrightarrow> adds k P m) \<Longrightarrow> (\<And>y. x = Some y \<Longrightarrow> adds k P (f y)) \<Longrightarrow> adds k P (case x of None \<Rightarrow> m | Some y \<Rightarrow> f y)"
  by (cases x) simp_all

lemma adds_prod [adds_intros]: "(\<And>a b. p = (a, b) \<Longrightarrow> adds k P (f a b)) \<Longrightarrow> adds k P (case p of (a, b) \<Rightarrow> f a b)"
  by (cases p) simp

lemma adds_Let [adds_intros]: "adds k P (f x) \<Longrightarrow> adds k P (Let x f)"
  by (simp add: Let_def)

lemma adds_map [adds_intros]: "(\<And>x. x \<in> set xs \<Longrightarrow> adds k P (f x)) \<Longrightarrow> adds k P (map_t f xs)"
  by (induction xs) (auto intro!: adds_intros)

lemma adds_each [adds_intros]: "(\<And>x. x \<in> set xs \<Longrightarrow> adds k P (f x)) \<Longrightarrow> adds k P (each_t f xs)"
  by (induction xs) (auto intro!: adds_intros)

lemma adds_read:
  assumes "\<And>v x w. m v = Inr (x, w) \<Longrightarrow> w = v"
  shows "adds k P m"
  using assms by (intro addsI) auto

lemma adds_get [adds_intros]: "adds k P (get_t k' i)"
  by (rule adds_read) (auto simp: get_t_def bind_r_eq_Inr)

lemma adds_generationOf [adds_intros]: "adds k P (generationOf k' i)"
  by (rule adds_read) (auto simp: generationOf_def bind_r_eq_Inr)

lemma adds_list [adds_intros]: "adds k P (list_t k')"
  by (rule adds_read) (auto simp: list_t_def bind_r_eq_Inr)

lemma adds_lookup [adds_intros]: "adds k P (lookup_t index tuple)"
  by (rule adds_read) (auto simp: lookup_t_def bind_r_eq_Inr Let_def)

lemma adds_store_read [adds_intros]: "adds k P (\<lambda>v. lift_t (f (x_store v)) v)"
  by (rule adds_read) (simp add: lift_t_eq)

lemma adds_load [adds_intros]: "k' \<noteq> DeliveryBinding \<Longrightarrow> adds k P (load_t k' i)"
  by (rule addsI) (drule (1) load_t_law, simp, simp)+

lemma adds_next_id [adds_intros]: "adds k P (next_id label)"
  by (rule addsI) (drule (1) next_id_law, simp)+

lemma adds_append [adds_intros]: "adds k P (append_t e)"
  by (rule addsI) (drule (1) append_t_law, simp)+

lemma adds_put [adds_intros]:
  "k' \<noteq> DeliveryBinding \<Longrightarrow> (k' = k \<Longrightarrow> P r) \<Longrightarrow> adds k P (put_t k' i r eg)"
  by (rule addsI) (drule (1) put_t_law, simp, auto split: if_splits)+

lemma adds_remove [adds_intros]: "k' \<noteq> DeliveryBinding \<Longrightarrow> adds k P (remove_t k' i eg)"
  by (rule addsI) (drule (1) remove_t_law, simp, auto split: if_splits)+

definition emits :: "(event \<Rightarrow> bool) \<Rightarrow> 'a tx \<Rightarrow> bool" where
  "emits P m \<longleftrightarrow> (\<forall>v x w. m v = Inr (x, w) \<longrightarrow> (\<exists>es. x_events w = x_events v @ es \<and> (\<forall>e \<in> set es. P e)))"

lemma emits_bind [emits_intros]:
  assumes m: "emits P m" and f: "\<And>x. emits P (f x)"
  shows "emits P (bind_t m f)"
  unfolding emits_def
proof (intro allI impI)
  fix v x w assume "bind_t m f v = Inr (x, w)"
  then obtain y u where "m v = Inr (y, u)" "f y u = Inr (x, w)" by (auto simp: bind_t_eq)
  with m f obtain es fs where "x_events u = x_events v @ es" "\<forall>e \<in> set es. P e"
    "x_events w = x_events u @ fs" "\<forall>e \<in> set fs. P e"
    unfolding emits_def by meson
  then have "x_events w = x_events v @ (es @ fs) \<and> (\<forall>e \<in> set (es @ fs). P e)" by auto
  then show "\<exists>es. x_events w = x_events v @ es \<and> (\<forall>e \<in> set es. P e)" by blast
qed

lemma emits_quiet:
  assumes "\<And>v x w. m v = Inr (x, w) \<Longrightarrow> x_events w = x_events v"
  shows "emits P m"
  using assms unfolding emits_def by fastforce

lemma emits_return [emits_intros]: "emits P (return_t x)"
  by (rule emits_quiet) (auto simp: return_t_eq)

lemma emits_lift [emits_intros]: "emits P (lift_t r)"
  by (rule emits_quiet) (auto simp: lift_t_eq)

lemma emits_throw [emits_intros]: "emits P (throw_t c code msg)"
  by (rule emits_quiet) (auto simp: throw_t_eq)

lemma emits_get [emits_intros]: "emits P (get_t k i)"
  by (rule emits_quiet) (auto simp: get_t_def bind_r_eq_Inr)

lemma emits_generationOf [emits_intros]: "emits P (generationOf k i)"
  by (rule emits_quiet) (auto simp: generationOf_def bind_r_eq_Inr)

lemma emits_list [emits_intros]: "emits P (list_t k)"
  by (rule emits_quiet) (auto simp: list_t_def bind_r_eq_Inr)

lemma emits_lookup [emits_intros]: "emits P (lookup_t index tuple)"
  by (rule emits_quiet) (auto simp: lookup_t_def bind_r_eq_Inr Let_def)

lemma emits_store_read [emits_intros]: "emits P (\<lambda>v. lift_t (f (x_store v)) v)"
  by (rule emits_quiet) (simp add: lift_t_eq)

lemma emits_load [emits_intros]: "emits P (load_t k i)"
  by (rule emits_quiet) (auto simp: load_t_def bind_r_eq_Inr Let_def split: if_splits)

lemma emits_next_id [emits_intros]: "emits P (next_id label)"
  by (rule emits_quiet) (auto simp: next_id_def)

lemma emits_put [emits_intros]: "emits P (put_t k i r eg)"
  by (rule emits_quiet) (auto simp: put_t_def next_id_def bind_r_eq_Inr split: if_splits)

lemma emits_remove [emits_intros]: "emits P (remove_t k i eg)"
  by (rule emits_quiet) (auto simp: remove_t_def bind_r_eq_Inr split: if_splits)

lemma emits_append [emits_intros]: "P e \<Longrightarrow> emits P (append_t e)"
  unfolding emits_def by (auto simp: append_t_def bind_r_eq_Inr)

lemma emits_if [emits_intros]: "(c \<Longrightarrow> emits P m) \<Longrightarrow> (\<not> c \<Longrightarrow> emits P n) \<Longrightarrow> emits P (if c then m else n)"
  by simp

lemma emits_option [emits_intros]:
  "(x = None \<Longrightarrow> emits P m) \<Longrightarrow> (\<And>y. x = Some y \<Longrightarrow> emits P (f y)) \<Longrightarrow> emits P (case x of None \<Rightarrow> m | Some y \<Rightarrow> f y)"
  by (cases x) simp_all

lemma emits_prod [emits_intros]: "(\<And>a b. p = (a, b) \<Longrightarrow> emits P (f a b)) \<Longrightarrow> emits P (case p of (a, b) \<Rightarrow> f a b)"
  by (cases p) simp

lemma emits_Let [emits_intros]: "emits P (f x) \<Longrightarrow> emits P (Let x f)"
  by (simp add: Let_def)

lemma emits_map [emits_intros]: "(\<And>x. x \<in> set xs \<Longrightarrow> emits P (f x)) \<Longrightarrow> emits P (map_t f xs)"
  by (induction xs) (auto intro!: emits_intros)

lemma emits_each [emits_intros]: "(\<And>x. x \<in> set xs \<Longrightarrow> emits P (f x)) \<Longrightarrow> emits P (each_t f xs)"
  by (induction xs) (auto intro!: emits_intros)

lemma number_events_pred:
  assumes "\<forall>e \<in> set es. P e" and "\<And>e n. P e \<Longrightarrow> P (e\<lparr>e_sequence := n\<rparr>)"
  shows "\<forall>e \<in> set (number_events n es). P e"
  using assms by (induction n es rule: number_events.induct) auto

lemma transaction_emits:
  assumes "transaction ks exactKinds callback st = Inr (y, st')" and "lawful callback" and "wf_store st"
    and "emits P callback" and "\<And>e n. P e \<Longrightarrow> P (e\<lparr>e_sequence := n\<rparr>)"
  shows "\<exists>es. st_events st' = st_events st @ es \<and> (\<forall>e \<in> set es. P e)"
proof -
  obtain v w where v: "begin_view st ks exactKinds = Inr v" and w: "callback v = Inr (y, w)"
    and st': "commit w = Inr st'"
    using assms(1) by (auto simp: transaction_eq)
  note start = begin_view_law [OF v assms(3)]
  then have "typed_map (sees v)" using assms(3) by (simp add: wf_store_map)
  with tx_steps_keep [OF lawfulD [OF assms(2) w]] start
  have ok: "view_ok w" and store: "x_store w = st" by (auto simp: same_frame_def)
  have "\<forall>e \<in> set (x_events w). P e"
    using assms(4) w start unfolding emits_def by fastforce
  then have "\<forall>e \<in> set (number_events n (x_events w)). P e" for n
    using number_events_pred assms(5) by blast
  with commit_law [OF st' ok] store show ?thesis
    by (metis empty_iff list.set(1))
qed

section \<open>Steps of an operation\<close>

text \<open>
  \<open>within R m\<close>: whatever the operation \<open>m\<close> does to a store, it does by steps of \<open>R\<close>, also when
  it ends in an error.
\<close>

named_theorems within_intros \<open>an operation made of given steps\<close>

definition within :: "(store \<Rightarrow> store \<Rightarrow> bool) \<Rightarrow> 'a svc \<Rightarrow> bool" where
  "within R m \<longleftrightarrow> (\<forall>st. R\<^sup>*\<^sup>* st (snd (m st)))"

lemma within_return [within_intros]: "within R (return_s x)"
  by (simp add: within_def return_s_def)

lemma within_bind [within_intros]: "within R m \<Longrightarrow> (\<And>x. within R (f x)) \<Longrightarrow> within R (bind_s m f)"
  unfolding within_def bind_s_def
  by (auto split: sum.splits prod.splits) (metis (no_types) rtranclp_trans snd_conv)+

lemma within_read [within_intros]: "within R (read_s f)"
  by (simp add: within_def read_s_def)

lemma within_lift [within_intros]: "within R (lift_s r)"
  by (simp add: within_def lift_s_def)

lemma within_step:
  assumes "\<And>st x st'. f st = Inr (x, st') \<Longrightarrow> R st st'"
  shows "within R (step_s f)"
  using assms by (auto simp: within_def step_s_def split: sum.splits prod.splits)

lemma within_fresh: "(\<And>st n. R st (st\<lparr>st_issued := n\<rparr>)) \<Longrightarrow> within R (fresh_s label)"
  by (auto simp: within_def fresh_s_def)

lemma within_each [within_intros]: "(\<And>x. within R (f x)) \<Longrightarrow> within R (each_s f xs)"
  by (induction xs) (auto intro!: within_intros)

lemma within_if [within_intros]: "(c \<Longrightarrow> within R m) \<Longrightarrow> (\<not> c \<Longrightarrow> within R n) \<Longrightarrow> within R (if c then m else n)"
  by simp

lemma within_option [within_intros]:
  "within R m \<Longrightarrow> (\<And>y. within R (f y)) \<Longrightarrow> within R (case x of None \<Rightarrow> m | Some y \<Rightarrow> f y)"
  by (cases x) simp_all

lemma within_Let [within_intros]: "within R (f x) \<Longrightarrow> within R (Let x f)"
  by (simp add: Let_def)

lemma within_prod [within_intros]: "(\<And>a b. within R (f a b)) \<Longrightarrow> within R (case p of (a, b) \<Rightarrow> f a b)"
  by (cases p) simp

section \<open>Parts of a callback that only read\<close>

named_theorems reads_intros \<open>a callback that changes nothing a commit writes\<close>

definition reads :: "'a tx \<Rightarrow> bool" where
  "reads m \<longleftrightarrow> (\<forall>v x w. view_ok v \<longrightarrow> m v = Inr (x, w) \<longrightarrow>
     view_ok w \<and> same_frame v w \<and> sees w = sees v \<and> x_events w = x_events v)"

lemma readsI:
  assumes "\<And>v x w. view_ok v \<Longrightarrow> m v = Inr (x, w) \<Longrightarrow> view_ok w \<and> same_frame v w \<and> sees w = sees v \<and> x_events w = x_events v"
  shows "reads m"
  using assms unfolding reads_def by blast

lemma readsD:
  assumes "reads m" and "view_ok v" and "m v = Inr (x, w)"
  shows "view_ok w" and "same_frame v w" and "sees w = sees v" and "x_events w = x_events v"
  using assms unfolding reads_def by blast+

lemma reads_same:
  assumes "\<And>v x w. m v = Inr (x, w) \<Longrightarrow> w = v"
  shows "reads m"
  using assms by (intro readsI) fastforce

lemma reads_bind [reads_intros]:
  assumes m: "reads m" and f: "\<And>x. reads (f x)"
  shows "reads (bind_t m f)"
proof (rule readsI)
  fix v x w assume ok: "view_ok v" and "bind_t m f v = Inr (x, w)"
  then obtain y u where step: "m v = Inr (y, u)" and rest: "f y u = Inr (x, w)" by (auto simp: bind_t_eq)
  note mid = readsD [OF m ok step] and final = readsD [OF f readsD(1) [OF m ok step] rest]
  from mid final show "view_ok w \<and> same_frame v w \<and> sees w = sees v \<and> x_events w = x_events v"
    by (auto intro: same_frame_trans)
qed

lemma reads_return [reads_intros]: "reads (return_t x)"
  by (rule reads_same) (simp add: res_simps)

lemma reads_lift [reads_intros]: "reads (lift_t r)"
  by (rule reads_same) (simp add: res_simps)

lemma reads_throw [reads_intros]: "reads (throw_t c code msg)"
  by (rule reads_same) (simp add: res_simps)

lemma reads_get [reads_intros]: "reads (get_t k i)"
  by (rule reads_same) (auto simp: get_t_def res_simps)

lemma reads_generationOf [reads_intros]: "reads (generationOf k i)"
  by (rule reads_same) (auto simp: generationOf_def res_simps)

lemma reads_list [reads_intros]: "reads (list_t k)"
  by (rule reads_same) (auto simp: list_t_def res_simps)

lemma reads_lookup [reads_intros]: "reads (lookup_t index tuple)"
  by (rule reads_same) (auto simp: lookup_t_def res_simps Let_def)

lemma reads_store_read [reads_intros]: "reads (\<lambda>v. lift_t (f (x_store v)) v)"
  by (rule reads_same) (simp add: res_simps)

lemma reads_load [reads_intros]: "k \<noteq> DeliveryBinding \<Longrightarrow> reads (load_t k i)"
  by (rule readsI) (use load_t_law in simp)

lemma reads_next_id [reads_intros]: "reads (next_id label)"
  by (rule readsI) (use next_id_law in blast)

lemma reads_map [reads_intros]: "(\<And>x. x \<in> set xs \<Longrightarrow> reads (f x)) \<Longrightarrow> reads (map_t f xs)"
  by (induction xs) (simp_all add: reads_intros)

lemma reads_if [reads_intros]: "(c \<Longrightarrow> reads m) \<Longrightarrow> (\<not> c \<Longrightarrow> reads n) \<Longrightarrow> reads (if c then m else n)"
  by simp

lemma reads_option [reads_intros]:
  "(x = None \<Longrightarrow> reads m) \<Longrightarrow> (\<And>y. x = Some y \<Longrightarrow> reads (f y)) \<Longrightarrow> reads (case x of None \<Rightarrow> m | Some y \<Rightarrow> f y)"
  by (cases x) simp_all

lemma reads_prod [reads_intros]: "(\<And>a b. p = (a, b) \<Longrightarrow> reads (f a b)) \<Longrightarrow> reads (case p of (a, b) \<Rightarrow> f a b)"
  by (cases p) simp

lemma reads_Let [reads_intros]: "reads (f x) \<Longrightarrow> reads (Let x f)"
  by simp

section \<open>Records that only move one way\<close>

text \<open>
  \<open>moves R k m\<close>: whatever the callback does, each record of kind \<open>k\<close> goes from what it was to
  something \<open>R\<close> allows. The contract of such a relation is the locale below: it holds of a
  record left alone, it composes, and a record that did not exist may appear. What a
  callback made of lawful calls does then follows from its calls.
\<close>

definition moves :: "(entity option \<Rightarrow> entity option \<Rightarrow> bool) \<Rightarrow> kind \<Rightarrow> 'a tx \<Rightarrow> bool" where
  "moves R k m \<longleftrightarrow> (\<forall>v x w i. view_ok v \<longrightarrow> m v = Inr (x, w) \<longrightarrow>
     view_ok w \<and> R (map_option fst (sees v (k, i))) (map_option fst (sees w (k, i))))"

lemma movesI:
  assumes "\<And>v x w. view_ok v \<Longrightarrow> m v = Inr (x, w) \<Longrightarrow> view_ok w"
    and "\<And>v x w i. view_ok v \<Longrightarrow> m v = Inr (x, w) \<Longrightarrow> R (map_option fst (sees v (k, i))) (map_option fst (sees w (k, i)))"
  shows "moves R k m"
  using assms unfolding moves_def by blast

lemma movesD:
  assumes "moves R k m" and "view_ok v" and "m v = Inr (x, w)"
  shows "view_ok w" and "R (map_option fst (sees v (k, i))) (map_option fst (sees w (k, i)))"
  using assms unfolding moves_def by blast+

lemma moves_prod: "(\<And>a b. p = (a, b) \<Longrightarrow> moves R k (f a b)) \<Longrightarrow> moves R k (case p of (a, b) \<Rightarrow> f a b)"
  by (cases p) simp

lemma moves_Let: "moves R k (f x) \<Longrightarrow> moves R k (Let x f)"
  by simp

lemma moves_if: "(c \<Longrightarrow> moves R k m) \<Longrightarrow> (\<not> c \<Longrightarrow> moves R k n) \<Longrightarrow> moves R k (if c then m else n)"
  by simp

lemma moves_option:
  "(x = None \<Longrightarrow> moves R k m) \<Longrightarrow> (\<And>y. x = Some y \<Longrightarrow> moves R k (f y)) \<Longrightarrow> moves R k (case x of None \<Rightarrow> m | Some y \<Rightarrow> f y)"
  by (cases x) simp_all

locale record_order =
  fixes R :: "entity option \<Rightarrow> entity option \<Rightarrow> bool"
  assumes same: "R a a"
    and compose: "R a b \<Longrightarrow> R b c \<Longrightarrow> R a c"
    and appears: "R None b"
begin

lemma moves_bind:
  assumes m: "moves R k m" and f: "\<And>x. moves R k (f x)"
  shows "moves R k (bind_t m f)"
proof (rule movesI)
  fix v x w assume ok: "view_ok v" and run: "bind_t m f v = Inr (x, w)"
  from run obtain y u where step: "m v = Inr (y, u)" and rest: "f y u = Inr (x, w)" by (auto simp: bind_t_eq)
  note mid = movesD [OF m ok step] and final = movesD [OF f movesD(1) [OF m ok step] rest]
  from final show "view_ok w" by blast
  fix i from mid(2) final(2) show "R (map_option fst (sees v (k, i))) (map_option fst (sees w (k, i)))"
    by (rule compose)
qed

text \<open>What the first part returned may matter to the second.\<close>

lemma moves_bindI:
  assumes m: "moves R k m"
    and f: "\<And>v x u y w i. view_ok v \<Longrightarrow> m v = Inr (x, u) \<Longrightarrow> view_ok u \<Longrightarrow> f x u = Inr (y, w) \<Longrightarrow>
      view_ok w \<and> R (map_option fst (sees u (k, i))) (map_option fst (sees w (k, i)))"
  shows "moves R k (bind_t m f)"
proof (rule movesI)
  fix v y w assume ok: "view_ok v" and run: "bind_t m f v = Inr (y, w)"
  from run obtain x u where step: "m v = Inr (x, u)" and rest: "f x u = Inr (y, w)" by (auto simp: bind_t_eq)
  note mid = movesD [OF m ok step]
  note final = f [OF ok step mid(1) rest]
  from final show "view_ok w" by blast
  fix i from mid(2) final show "R (map_option fst (sees v (k, i))) (map_option fst (sees w (k, i)))"
    by (blast intro: compose)
qed

lemma moves_quiet:
  assumes "\<And>v x w. view_ok v \<Longrightarrow> m v = Inr (x, w) \<Longrightarrow> view_ok w \<and> sees w = sees v"
  shows "moves R k m"
  using assms same unfolding moves_def by metis

lemma moves_return: "moves R k (return_t x)"
  by (rule moves_quiet) (simp add: res_simps)

lemma moves_lift: "moves R k (lift_t r)"
  by (rule moves_quiet) (simp add: res_simps)

lemma moves_throw: "moves R k (throw_t c code msg)"
  by (rule moves_quiet) (simp add: res_simps)

lemma moves_map: "(\<And>x. x \<in> set xs \<Longrightarrow> moves R k (f x)) \<Longrightarrow> moves R k (map_t f xs)"
  by (induction xs) (simp_all add: moves_bind moves_return)

lemma moves_each: "(\<And>x. x \<in> set xs \<Longrightarrow> moves R k (f x)) \<Longrightarrow> moves R k (each_t f xs)"
  by (induction xs) (simp_all add: moves_bind moves_return)

lemma moves_get: "moves R k (get_t k' i)"
  by (rule moves_quiet) (auto simp: get_t_def res_simps)

lemma moves_generationOf: "moves R k (generationOf k' i)"
  by (rule moves_quiet) (auto simp: generationOf_def res_simps)

lemma moves_list: "moves R k (list_t k')"
  by (rule moves_quiet) (auto simp: list_t_def res_simps)

lemma moves_lookup: "moves R k (lookup_t index tuple)"
  by (rule moves_quiet) (auto simp: lookup_t_def res_simps Let_def)

lemma moves_store_read: "moves R k (\<lambda>v. lift_t (f (x_store v)) v)"
  by (rule moves_quiet) (simp add: res_simps)

lemma moves_load: "k' \<noteq> DeliveryBinding \<Longrightarrow> moves R k (load_t k' i)"
  by (rule moves_quiet) (use load_t_law in \<open>simp add: STATE_KINDS_iff\<close>)

lemma moves_next_id: "moves R k (next_id label)"
  by (rule moves_quiet) (use next_id_law in blast)

lemma moves_append: "moves R k (append_t e)"
  by (rule moves_quiet) (use append_t_law in blast)

lemma moves_put_other: "k' \<noteq> DeliveryBinding \<Longrightarrow> k' \<noteq> k \<Longrightarrow> moves R k (put_t k' i r eg)"
  by (rule movesI) (use put_t_law same in \<open>fastforce simp: STATE_KINDS_iff\<close>)+

lemma moves_remove_other: "k' \<noteq> DeliveryBinding \<Longrightarrow> k' \<noteq> k \<Longrightarrow> moves R k (remove_t k' i eg)"
  by (rule movesI) (use remove_t_law same in \<open>fastforce simp: STATE_KINDS_iff\<close>)+

text \<open>A put that expects no record creates one.\<close>

lemma moves_put_new:
  assumes "k \<noteq> DeliveryBinding"
  shows "moves R k (put_t k i r None)"
proof (rule movesI)
  fix v g w assume run: "view_ok v" "put_t k i r None v = Inr (g, w)"
  with put_t_law [OF run(2) run(1)] assms
  have law: "view_ok w" "sees w = (sees v)((k, i) \<mapsto> (r, g))" "sees v (k, i) = None" by simp_all
  show "view_ok w" by (rule law)
  fix j show "R (map_option fst (sees v (k, j))) (map_option fst (sees w (k, j)))"
    by (cases "j = i") (simp_all add: law(2, 3) same appears)
qed

lemmas moves_intros = moves_bind moves_return moves_lift moves_throw moves_map moves_each moves_get moves_generationOf
  moves_list moves_lookup moves_store_read moves_load moves_next_id moves_append moves_remove_other
  moves_prod moves_Let moves_if moves_option

text \<open>A committed transaction moves the stored records as its callback moved what it saw.\<close>

lemma transaction_moves:
  assumes "transaction ks exactKinds callback st = Inr (y, st')" and "lawful callback" and "wf_store st"
    and "moves R k callback"
  shows "R (map_option fst (store_map st (k, i))) (map_option fst (store_map st' (k, i)))"
proof -
  obtain v w where "callback v = Inr (y, w)" "view_ok v" "sees v = store_map st" "sees w = store_map st'"
    using transaction_result [OF assms(1-3)] by metis
  with movesD(2) [OF assms(4)] show ?thesis by metis
qed

end

end
