(* ===== verification/Sessions.thy ===== *)
theory Sessions
  imports Transactions
begin

text \<open>
  Sessions: presence, heartbeats, resuming and closing
  (\<^verbatim>\<open>packages/core/src/sessions.mjs\<close>), opening (\<^verbatim>\<open>session-opening.mjs\<close>), the
  materialisation of a workspace (\<^verbatim>\<open>materialisation.mjs\<close>) and the participants it knows
  (\<^verbatim>\<open>participants.mjs\<close>).

  The clock is an argument: each \<open>now\<close> is one reading of it. The probe that says whether a
  process lives is a parameter.
\<close>

section \<open>Presence\<close>

definition STALE_CADENCE_MULTIPLE :: int where
  "STALE_CADENCE_MULTIPLE = 3"

definition UNKNOWN_EXPIRY_MS :: int where
  "UNKNOWN_EXPIRY_MS = 30 * 60000"

definition HARD_EXPIRY_MS :: int where
  "HARD_EXPIRY_MS = 24 * 60 * 60000"

definition ageBand :: "session \<Rightarrow> int \<Rightarrow> string" where
  "ageBand s age = (if age \<le> s_heartbeatCadenceMs s * STALE_CADENCE_MULTIPLE then ''online'' else ''stale'')"

definition classifySessionPresence :: "session \<Rightarrow> time \<Rightarrow> (int \<Rightarrow> bool) \<Rightarrow> string" where
  "classifySessionPresence s now pidIsAlive =
     (if s_state s = ''closed'' then ''offline''
      else let age = now - s_heartbeatAt s
        in if age > HARD_EXPIRY_MS then ''offline''
           else case s_pid s of
             Some pid \<Rightarrow> if pidIsAlive pid then ageBand s age else ''offline''
           | None \<Rightarrow> if age > UNKNOWN_EXPIRY_MS then ''offline'' else ageBand s age)"

section \<open>Reading sessions and participants\<close>

definition isMaterialised :: "store \<Rightarrow> id \<Rightarrow> bool res" where
  "isMaterialised st workspaceId =
     bind_r (snapshot_kind st workspaceId (Some [Workspace]) Workspace) (\<lambda>rs. Inr (rs \<noteq> []))"

definition resolved :: "store \<Rightarrow> id option \<Rightarrow> id" where
  "resolved st workspaceId = (case workspaceId of Some w \<Rightarrow> w | None \<Rightarrow> st_workspaceId st)"

text \<open>The flag says whether the durable record was found.\<close>

definition locate :: "store \<Rightarrow> id \<Rightarrow> id option \<Rightarrow> (session \<times> bool) option res" where
  "locate st sessionId workspaceId =
     bind_r (eph_get st Session sessionId) (\<lambda>ephemeral.
     bind_r (stateRecord st (resolved st workspaceId) Session sessionId) (\<lambda>durable.
     Inr (case as_session durable of
         Some s \<Rightarrow> Some (s, True)
       | None \<Rightarrow> (case as_session ephemeral of
           Some s \<Rightarrow> if s_workspaceId s = resolved st workspaceId then Some (s, False) else None
         | None \<Rightarrow> None))))"

definition session_records :: "store \<Rightarrow> id option \<Rightarrow> session list res" where
  "session_records st workspaceId =
     bind_r (isMaterialised st (resolved st workspaceId)) (\<lambda>m.
     bind_r (if m then snapshot_kind st (resolved st workspaceId) (Some [Workspace, Session]) Session
       else eph_list st Session) (\<lambda>rs. Inr (all_of as_session rs)))"

text \<open>The first of a stable descending sort by heartbeat and then by identifier.\<close>

definition later_session :: "session \<Rightarrow> session \<Rightarrow> bool" where
  "later_session s best \<longleftrightarrow> s_heartbeatAt s > s_heartbeatAt best
     \<or> (s_heartbeatAt s = s_heartbeatAt best \<and> locale_less (s_sessionId best) (s_sessionId s))"

fun latest_session :: "session list \<Rightarrow> session option" where
  "latest_session [] = None"
| "latest_session (s # ss) = Some (foldl (\<lambda>best x. if later_session x best then x else best) s ss)"

definition lastSessionOf :: "store \<Rightarrow> id \<Rightarrow> id option \<Rightarrow> (id \<times> id \<times> string \<times> json option) option res" where
  "lastSessionOf st participantId workspaceId =
     bind_r (session_records st workspaceId) (\<lambda>records.
     Inr (map_option (\<lambda>s. (s_sessionId s, s_generation s, s_state s, extension (s_extensions s) ''endReason''))
       (latest_session (filter (\<lambda>s. s_participantId s = participantId) records))))"

definition listLiveSessions :: "store \<Rightarrow> (int \<Rightarrow> bool) \<Rightarrow> id \<Rightarrow> id option \<Rightarrow> time \<Rightarrow> (id \<times> id) list res" where
  "listLiveSessions st pidIsAlive participantId workspaceId now =
     bind_r (session_records st workspaceId) (\<lambda>records.
     Inr (map (\<lambda>s. (s_sessionId s, s_generation s))
       (locale_sort s_sessionId (filter (\<lambda>s. s_participantId s = participantId
         \<and> classifySessionPresence s now pidIsAlive \<noteq> ''offline'') records))))"

definition knownParticipants :: "store \<Rightarrow> id \<Rightarrow> id list res" where
  "knownParticipants st workspaceId =
     bind_r (isMaterialised st workspaceId) (\<lambda>m.
     bind_r (if m then snapshot_kind st workspaceId (Some [Workspace, Participant]) Participant
       else eph_list st Participant) (\<lambda>rs.
     Inr (js_uniq (map p_participantId (all_of as_participant rs)))))"

definition assertKnownParticipants :: "store \<Rightarrow> id \<Rightarrow> id list \<Rightarrow> unit res" where
  "assertKnownParticipants st workspaceId recipients =
     bind_r (knownParticipants st workspaceId) (\<lambda>known.
     let strangers = filter (\<lambda>name. name \<notin> set known) (js_uniq recipients)
     in throw_if (strangers \<noteq> []) DATA (''no participant here is called '' @ join_with '', '' strangers
       @ ''. This workspace has: ''
       @ (if known = [] then ''nobody else yet'' else join_with '', '' (sort known))))"

section \<open>Heartbeats, notices and resuming\<close>

definition assertGeneration :: "session \<Rightarrow> id \<Rightarrow> string \<Rightarrow> id \<Rightarrow> unit res" where
  "assertGeneration existing generation action workspaceId =
     bind_r (throw_if (s_workspaceId existing \<noteq> workspaceId) CONFLICT ''session is not open in this workspace'') (\<lambda>_.
     throw_if (s_generation existing \<noteq> generation) CONFLICT
       (''cannot '' @ action @ '' a replaced session generation''))"

definition beat :: "id \<Rightarrow> id \<Rightarrow> time \<Rightarrow> session \<Rightarrow> session res" where
  "beat workspaceId generation now current =
     bind_r (assertGeneration current generation ''heartbeat'' workspaceId) (\<lambda>_.
     bind_r (throw_if (s_state current \<noteq> ''open'') CONFLICT ''session is not open'') (\<lambda>_.
     Inr (current\<lparr>s_heartbeatAt := now\<rparr>)))"

definition NOTICED_LEFT_LIMIT :: nat where
  "NOTICED_LEFT_LIMIT = 64"

definition string_items :: "json option \<Rightarrow> string list" where
  "string_items v = (case v of Some (JArr xs) \<Rightarrow> [s. JStr s \<leftarrow> xs] | _ \<Rightarrow> [])"

definition set_extension :: "string \<Rightarrow> json \<Rightarrow> fields option \<Rightarrow> fields option" where
  "set_extension key x ext = Some (AList.update key x (case ext of None \<Rightarrow> [] | Some kvs \<Rightarrow> kvs))"

definition note_left :: "id \<Rightarrow> id \<Rightarrow> id list \<Rightarrow> session \<Rightarrow> session res" where
  "note_left workspaceId generation messageIds current =
     bind_r (assertGeneration current generation ''record notices'' workspaceId) (\<lambda>_.
     bind_r (throw_if (s_state current \<noteq> ''open'') CONFLICT ''session is not open'') (\<lambda>_.
     let prior = string_items (extension (s_extensions current) ''noticedLeftMessages'');
         noticed = filter (\<lambda>i. i \<notin> set messageIds) prior @ messageIds;
         kept = drop (length noticed - NOTICED_LEFT_LIMIT) noticed
     in Inr (current\<lparr>s_extensions := set_extension ''noticedLeftMessages'' (strings_json kept) (s_extensions current)\<rparr>)))"

record metadata =
  md_pid :: "int option"
  md_checkoutRoot :: "string option"
  md_branch :: "string option"
  md_enforcement :: "string option"
  md_lifecycle :: "string option"
  md_heartbeatCadenceMs :: "int option"

definition or_else :: "'a option \<Rightarrow> 'a \<Rightarrow> 'a" where
  "or_else v d = (case v of None \<Rightarrow> d | Some x \<Rightarrow> x)"

definition resume :: "id \<Rightarrow> id \<Rightarrow> metadata \<Rightarrow> time \<Rightarrow> session \<Rightarrow> session option" where
  "resume workspaceId generation md now current =
     (if s_state current \<noteq> ''open'' \<or> s_generation current \<noteq> generation \<or> s_workspaceId current \<noteq> workspaceId
      then None
      else Some (current\<lparr>s_pid := md_pid md,
        s_checkoutRoot := (if md_checkoutRoot md = None then s_checkoutRoot current else md_checkoutRoot md),
        s_branch := (if md_branch md = None then s_branch current else md_branch md),
        s_enforcement := or_else (md_enforcement md) (s_enforcement current),
        s_lifecycle := or_else (md_lifecycle md) (s_lifecycle current),
        s_heartbeatCadenceMs := or_else (md_heartbeatCadenceMs md) (s_heartbeatCadenceMs current),
        s_heartbeatAt := now\<rparr>))"

text \<open>
  The write of a lone session's ephemeral record, under the writer lock: only while the
  workspace has no durable state.
\<close>

definition update_ephemeral :: "id \<Rightarrow> (session \<Rightarrow> session option res) \<Rightarrow> store \<Rightarrow> (session option \<times> store) res" where
  "update_ephemeral sessionId updater st =
     bind_r (eph_update st Session sessionId (\<lambda>current. case as_session current of
         None \<Rightarrow> Inr None
       | Some s \<Rightarrow> bind_r (isMaterialised st (s_workspaceId s)) (\<lambda>m.
           if m then Inr None else bind_r (updater s) (\<lambda>s'. Inr (map_option SessionR s')))))
     (\<lambda>(r, st'). Inr (as_session r, st'))"

definition update_durable :: "id \<Rightarrow> (session \<Rightarrow> session res) \<Rightarrow> session tx" where
  "update_durable sessionId updater =
     bind_t (load_t Session sessionId) (\<lambda>_.
     bind_t (get_t Session sessionId) (\<lambda>current.
     case as_session current of
       None \<Rightarrow> lift_t (Inl (AccError CONFLICT ''session is not open''))
     | Some s \<Rightarrow> bind_t (lift_t (updater s)) (\<lambda>s'.
         bind_t (generationOf Session sessionId) (\<lambda>g.
         bind_t (put_t Session sessionId (SessionR s') g) (\<lambda>_. return_t s')))))"

text \<open>The shared path of \<^verbatim>\<open>heartbeatSession\<close> and \<^verbatim>\<open>recordNotices\<close>.\<close>

definition update_session :: "id \<Rightarrow> (store \<Rightarrow> session \<Rightarrow> session res) \<Rightarrow> session svc" where
  "update_session sessionId updater =
     bind_s (read_s (\<lambda>st. eph_get st Session sessionId)) (\<lambda>seen.
     bind_s (case as_session seen of None \<Rightarrow> return_s True
       | Some s \<Rightarrow> read_s (\<lambda>st. isMaterialised st (s_workspaceId s))) (\<lambda>durable.
     bind_s (if durable then return_s None
       else step_s (\<lambda>st. update_ephemeral sessionId (\<lambda>s. bind_r (updater st s) (\<lambda>s'. Inr (Some s'))) st)) (\<lambda>ephemeral.
     case ephemeral of
       Some s \<Rightarrow> return_s s
     | None \<Rightarrow> step_s (\<lambda>st. transaction (Some [Session]) [Session] (update_durable sessionId (updater st)) st))))"

definition heartbeatSession :: "id \<Rightarrow> id option \<Rightarrow> id \<Rightarrow> time \<Rightarrow> session svc" where
  "heartbeatSession sessionId workspaceId generation now =
     update_session sessionId (\<lambda>st. beat (resolved st workspaceId) generation now)"

definition recordNotices :: "id \<Rightarrow> id option \<Rightarrow> id \<Rightarrow> id list \<Rightarrow> session svc" where
  "recordNotices sessionId workspaceId generation messageIds =
     (if [] \<in> set messageIds then lift_s (Inl (AccError USAGE ''recordNotices requires message ids''))
      else update_session sessionId (\<lambda>st. note_left (resolved st workspaceId) generation messageIds))"

definition resume_durable :: "id \<Rightarrow> (session \<Rightarrow> session option) \<Rightarrow> session option tx" where
  "resume_durable sessionId resumer =
     bind_t (get_t Session sessionId) (\<lambda>current.
     case as_session current of
       None \<Rightarrow> return_t None
     | Some s \<Rightarrow> (case resumer s of
         None \<Rightarrow> return_t None
       | Some s' \<Rightarrow> bind_t (generationOf Session sessionId) (\<lambda>g.
           bind_t (put_t Session sessionId (SessionR s') g) (\<lambda>_. return_t (Some s')))))"

definition resumeSession :: "id \<Rightarrow> id option \<Rightarrow> id \<Rightarrow> metadata \<Rightarrow> time \<Rightarrow> session option svc" where
  "resumeSession sessionId workspaceId generation md now =
     bind_s (step_s (\<lambda>st. update_ephemeral sessionId
       (\<lambda>s. Inr (resume (resolved st workspaceId) generation md now s)) st)) (\<lambda>ephemeral.
     if ephemeral \<noteq> None then return_s ephemeral
     else step_s (\<lambda>st. transaction (Some [Session]) []
       (resume_durable sessionId (resume (resolved st workspaceId) generation md now)) st))"

section \<open>Closing\<close>

text \<open>\<^verbatim>\<open>/^[a-z][a-z0-9_-]{0,63}$/\<close>\<close>

definition END_REASON :: "string \<Rightarrow> bool" where
  "END_REASON s = (case s of [] \<Rightarrow> False
     | c # cs \<Rightarrow> is_lower c \<and> length cs \<le> 63
         \<and> list_all (\<lambda>c. is_lower c \<or> is_digit c \<or> c = CHR ''_'' \<or> c = CHR ''-'') cs)"

definition close_session :: "id \<Rightarrow> id \<Rightarrow> string option \<Rightarrow> time \<Rightarrow> session \<Rightarrow> session res" where
  "close_session workspaceId generation endReason now current =
     bind_r (assertGeneration current generation ''close'' workspaceId) (\<lambda>_.
     let closed = current\<lparr>s_state := ''closed'', s_heartbeatAt := now\<rparr>
     in Inr (case endReason of
         Some r \<Rightarrow> if END_REASON r then closed\<lparr>s_extensions := set_extension ''endReason'' (JStr r) (s_extensions current)\<rparr>
           else closed
       | None \<Rightarrow> closed))"

definition close_ephemeral :: "id \<Rightarrow> (session \<Rightarrow> session res) \<Rightarrow> store \<Rightarrow> (session option \<times> store) res" where
  "close_ephemeral sessionId closer st =
     bind_r (eph_get st Session sessionId) (\<lambda>current.
     case as_session current of
       None \<Rightarrow> Inr (None, st)
     | Some s \<Rightarrow> bind_r (isMaterialised st (s_workspaceId s)) (\<lambda>m.
         if m then Inr (None, st)
         else bind_r (closer s) (\<lambda>closed.
           bind_r (eph_delete st Session sessionId (\<lambda>_. True)) (\<lambda>st'. Inr (Some closed, st')))))"

text \<open>An event of a transaction; its sequence is given at commit.\<close>

definition append_event :: "id \<Rightarrow> id \<Rightarrow> string \<Rightarrow> time \<Rightarrow> fields \<Rightarrow> unit tx" where
  "append_event workspaceId actor type now payload =
     bind_t (next_id ''event'') (\<lambda>eventId.
     append_t \<lparr>e_sequence = 0, e_eventId = eventId, e_workspaceId = workspaceId, e_actorSessionId = actor,
       e_type = type, e_occurredAt = now, e_payload = payload\<rparr>)"

definition close_durable :: "id \<Rightarrow> (session \<Rightarrow> session res) \<Rightarrow> session tx" where
  "close_durable sessionId closer =
     bind_t (get_t Session sessionId) (\<lambda>current.
     case as_session current of
       None \<Rightarrow> lift_t (Inl (AccError CONFLICT ''session is not open''))
     | Some s \<Rightarrow> bind_t (lift_t (closer s)) (\<lambda>closed.
         bind_t (generationOf Session sessionId) (\<lambda>g.
         bind_t (put_t Session sessionId (SessionR closed) g) (\<lambda>_.
         bind_t (append_event (s_workspaceId closed) sessionId ''session.closed'' (s_heartbeatAt closed) []) (\<lambda>_.
         return_t closed)))))"

text \<open>The delayed cleanup of a lone session's intent spares the intent of a successor.\<close>

definition drop_intent :: "id \<Rightarrow> store \<Rightarrow> (unit \<times> store) res" where
  "drop_intent sessionId st =
     bind_r (eph_get st Intent sessionId) (\<lambda>intent.
     if intent = None then Inr ((), st)
     else bind_r (eph_get st Session sessionId) (\<lambda>successor.
       bind_r (eph_delete st Intent sessionId (\<lambda>_. successor = None)) (\<lambda>st'. Inr ((), st'))))"

definition closeSession :: "id \<Rightarrow> id option \<Rightarrow> id \<Rightarrow> string option \<Rightarrow> time \<Rightarrow> session svc" where
  "closeSession sessionId workspaceId generation endReason now =
     bind_s (step_s (\<lambda>st. close_ephemeral sessionId
       (close_session (resolved st workspaceId) generation endReason now) st)) (\<lambda>ephemeral.
     case ephemeral of
       Some closed \<Rightarrow> bind_s (step_s (drop_intent sessionId)) (\<lambda>_. return_s closed)
     | None \<Rightarrow> step_s (\<lambda>st. transaction (Some [Session]) []
         (close_durable sessionId (close_session (resolved st workspaceId) generation endReason now)) st))"

section \<open>Opening\<close>

record open_input =
  oi_workspaceId :: "id option"
  oi_participantId :: id
  oi_sessionId :: "id option"
  oi_generation :: "id option"
  oi_harness :: string
  oi_parentSessionId :: "id option"
  oi_checkoutRoot :: "string option"
  oi_branch :: "string option"
  oi_pid :: "int option"
  oi_enforcement :: "string option"
  oi_lifecycle :: "string option"
  oi_heartbeatCadenceMs :: int
  oi_displayName :: "string option"
  oi_participantKind :: "string option"

record descriptor =
  ds_displayName :: "string option"
  ds_source :: "string option"
  ds_roots :: "string list option"

definition sessionRecord :: "open_input \<Rightarrow> id \<Rightarrow> id \<Rightarrow> time \<Rightarrow> id \<Rightarrow> session res" where
  "sessionRecord input workspaceId sessionId now generation =
     (let r = \<lparr>s_sessionId = sessionId, s_participantId = oi_participantId input, s_workspaceId = workspaceId,
        s_generation = generation, s_harness = oi_harness input, s_state = ''open'',
        s_parentSessionId = oi_parentSessionId input, s_checkoutRoot = oi_checkoutRoot input,
        s_branch = oi_branch input, s_pid = oi_pid input,
        s_enforcement = or_else (oi_enforcement input) ''advisory'',
        s_lifecycle = or_else (oi_lifecycle input) ''manual'',
        s_heartbeatCadenceMs = oi_heartbeatCadenceMs input, s_startedAt = now, s_heartbeatAt = now,
        s_extensions = None\<rparr>
      in bind_r (validate Session (SessionR r)) (\<lambda>_. Inr r))"

definition participantRecord :: "open_input \<Rightarrow> id \<Rightarrow> time \<Rightarrow> participant res" where
  "participantRecord input workspaceId now =
     (let r = \<lparr>p_participantId = oi_participantId input, p_workspaceId = workspaceId,
        p_displayName = or_else (oi_displayName input) (oi_participantId input),
        p_kind = or_else (oi_participantKind input) ''agent'', p_createdAt = now\<rparr>
      in bind_r (validate Participant (ParticipantR r)) (\<lambda>_. Inr r))"

definition assertReplaceable :: "(session \<Rightarrow> bool) option \<Rightarrow> (int \<Rightarrow> bool) \<Rightarrow> session \<Rightarrow> unit res" where
  "assertReplaceable probe pidIsAlive existing =
     (if s_state existing = ''closed'' then Inr ()
      else let live = (case probe of Some p \<Rightarrow> p existing
             | None \<Rightarrow> (case s_pid existing of None \<Rightarrow> True | Some pid \<Rightarrow> pidIsAlive pid))
        in throw_if live CONFLICT ''the session id is already live'')"

definition assertAvailable :: "bool \<Rightarrow> (session \<Rightarrow> bool) option \<Rightarrow> (int \<Rightarrow> bool) \<Rightarrow> session option \<Rightarrow> unit res" where
  "assertAvailable reserved probe pidIsAlive current = (case current of
     None \<Rightarrow> Inr ()
   | Some s \<Rightarrow> if reserved then Inl (AccError CONFLICT ''a reserved generation requires a new session id'')
       else assertReplaceable probe pidIsAlive s)"

definition put_new_participant :: "participant \<Rightarrow> unit tx" where
  "put_new_participant p =
     bind_t (get_t Participant (p_participantId p)) (\<lambda>known.
     if known = None
     then bind_t (put_t Participant (p_participantId p) (ParticipantR p) None) (\<lambda>_. return_t ())
     else return_t ())"

definition put_opened :: "session \<Rightarrow> id \<Rightarrow> time \<Rightarrow> id option \<Rightarrow> unit tx" where
  "put_opened s workspaceId now replaced =
     bind_t (generationOf Session (s_sessionId s)) (\<lambda>g.
     bind_t (put_t Session (s_sessionId s) (SessionR s) g) (\<lambda>_.
     append_event workspaceId (s_sessionId s) ''session.opened'' now [(''replaced'', nullable_json JStr replaced)]))"

definition open_durable :: "(session option \<Rightarrow> unit res) \<Rightarrow> session \<Rightarrow> participant \<Rightarrow> id \<Rightarrow> time \<Rightarrow> session tx" where
  "open_durable available s p workspaceId now =
     bind_t (get_t Session (s_sessionId s)) (\<lambda>current.
     bind_t (lift_t (available (as_session current))) (\<lambda>_.
     bind_t (put_new_participant p) (\<lambda>_.
     bind_t (put_opened s workspaceId now (map_option s_generation (as_session current))) (\<lambda>_.
     return_t s))))"

section \<open>Materialisation\<close>

text \<open>\<^verbatim>\<open>EPHEMERAL_KINDS\<close>, with the field that keys each kind and the event its promotion appends.\<close>

definition EPHEMERAL_KINDS :: "(kind \<times> string option) list" where
  "EPHEMERAL_KINDS = [(Participant, None), (Session, Some ''session.opened''), (Intent, Some ''intent.published'')]"

fun entity_key :: "entity \<Rightarrow> id" where
  "entity_key (WorkspaceR r) = w_workspaceId r"
| "entity_key (ParticipantR r) = p_participantId r"
| "entity_key (SessionR r) = s_sessionId r"
| "entity_key (IntentR r) = i_sessionId r"
| "entity_key (ClaimR r) = c_claimId r"
| "entity_key (MessageR r) = m_messageId r"
| "entity_key (ReceiptR r) = r_messageId r"
| "entity_key (BindingR r) = b_sessionId r"

definition promote :: "id \<Rightarrow> time \<Rightarrow> id option \<Rightarrow> kind \<times> string option \<Rightarrow> entity \<Rightarrow> unit tx" where
  "promote workspaceId now own entry r =
     (case entry of (k, event) \<Rightarrow>
       if k = Session \<and> own = Some (entity_key r) then return_t ()
       else bind_t (get_t k (entity_key r)) (\<lambda>known.
         if known \<noteq> None then return_t ()
         else bind_t (put_t k (entity_key r) r None) (\<lambda>_.
           case event of
             None \<Rightarrow> return_t ()
           | Some type \<Rightarrow> append_event workspaceId (entity_key r) type now [(''sessionId'', JStr (entity_key r))])))"

record joiner =
  op_participant :: participant
  op_session :: session
  op_available :: "session option \<Rightarrow> unit res"

definition workspace_record :: "id \<Rightarrow> descriptor option \<Rightarrow> time \<Rightarrow> workspace" where
  "workspace_record workspaceId d now = \<lparr>w_workspaceId = workspaceId,
     w_displayName = or_else (Option.bind d ds_displayName) workspaceId,
     w_source = or_else (Option.bind d ds_source) ''directory'',
     w_roots = or_else (Option.bind d ds_roots) [], w_createdAt = now\<rparr>"

text \<open>What is staged: the ephemeral records of each kind, in listing order.\<close>

definition staged_copies :: "store \<Rightarrow> ((kind \<times> string option) \<times> entity list) list res" where
  "staged_copies st = map_r (\<lambda>entry. bind_r (eph_list st (fst entry)) (\<lambda>rs. Inr (entry, rs))) EPHEMERAL_KINDS"

definition staged_sessions :: "((kind \<times> string option) \<times> entity list) list \<Rightarrow> session list" where
  "staged_sessions staged = concat (map (\<lambda>((k, _), rs). if k = Session then all_of as_session rs else []) staged)"

text \<open>The opening of a joining session, in the transaction that materialises.\<close>

definition join_tx :: "id \<Rightarrow> time \<Rightarrow> session option \<Rightarrow> joiner \<Rightarrow> unit tx" where
  "join_tx workspaceId now own j =
     bind_t (get_t Session (s_sessionId (op_session j))) (\<lambda>durable.
     let current = (case as_session durable of Some s \<Rightarrow> Some s | None \<Rightarrow> own)
     in bind_t (lift_t (op_available j current)) (\<lambda>_.
        bind_t (put_new_participant (op_participant j)) (\<lambda>_.
        put_opened (op_session j) workspaceId now (map_option s_generation current))))"

definition put_workspace :: "id \<Rightarrow> descriptor option \<Rightarrow> string \<Rightarrow> time \<Rightarrow> id \<Rightarrow> unit tx" where
  "put_workspace workspaceId d reason now actor =
     bind_t (put_t Workspace workspaceId (WorkspaceR (workspace_record workspaceId d now)) None) (\<lambda>_.
     append_event workspaceId actor ''workspace.materialised'' now [(''reason'', JStr reason)])"

text \<open>The transaction's body, given the copies it read; \<open>None\<close> when the session it joins is gone.\<close>

definition materialise_body :: "id \<Rightarrow> descriptor option \<Rightarrow> string \<Rightarrow> joiner option \<Rightarrow> time
    \<Rightarrow> ((kind \<times> string option) \<times> entity list) list \<Rightarrow> ((kind \<times> string option) \<times> entity list) list option tx" where
  "materialise_body workspaceId d reason joining now staged =
     bind_t (get_t Workspace workspaceId) (\<lambda>existing.
     let sessions = staged_sessions staged in
     if (case joining of None \<Rightarrow> False
         | Some j \<Rightarrow> existing = None \<and> \<not> list_ex (\<lambda>s. s_state s = ''open''
             \<and> s_sessionId s \<noteq> s_sessionId (op_session j)) sessions)
     then return_t None
     else let actor = (if sessions = [] then ''session_bootstrap'' else s_sessionId (last sessions));
           own = (case joining of None \<Rightarrow> None
             | Some j \<Rightarrow> List.find (\<lambda>s. s_sessionId s = s_sessionId (op_session j)) sessions)
       in bind_t (if existing \<noteq> None then return_t () else put_workspace workspaceId d reason now actor) (\<lambda>_.
          bind_t (each_t (\<lambda>(entry, rs). each_t (promote workspaceId now (map_option s_sessionId own) entry) rs) staged) (\<lambda>_.
          bind_t (case joining of None \<Rightarrow> return_t () | Some j \<Rightarrow> join_tx workspaceId now own j) (\<lambda>_.
          return_t (Some staged)))))"

definition materialise_tx :: "id \<Rightarrow> descriptor option \<Rightarrow> string \<Rightarrow> joiner option \<Rightarrow> time
    \<Rightarrow> ((kind \<times> string option) \<times> entity list) list option tx" where
  "materialise_tx workspaceId d reason joining now =
     bind_t (\<lambda>v. lift_t (staged_copies (x_store v)) v) (materialise_body workspaceId d reason joining now)"

definition materialise_step :: "id \<Rightarrow> descriptor option \<Rightarrow> string \<Rightarrow> joiner option \<Rightarrow> time
    \<Rightarrow> store \<Rightarrow> (((kind \<times> string option) \<times> entity list) list option \<times> store) res" where
  "materialise_step workspaceId d reason opening_session now =
     transaction (Some (Workspace # map fst EPHEMERAL_KINDS)) []
       (materialise_tx workspaceId d reason opening_session now)"

definition retire_copy :: "kind \<Rightarrow> id \<Rightarrow> store \<Rightarrow> (unit \<times> store) res" where
  "retire_copy k i st = bind_r (eph_delete st k i (\<lambda>_. True)) (\<lambda>st'. Inr ((), st'))"

definition materialise :: "id \<Rightarrow> descriptor option \<Rightarrow> string \<Rightarrow> joiner option \<Rightarrow> time \<Rightarrow> bool svc" where
  "materialise workspaceId d reason opening_session now =
     bind_s (step_s (materialise_step workspaceId d reason opening_session now)) (\<lambda>staged.
     case staged of
       None \<Rightarrow> return_s False
     | Some copies \<Rightarrow>
         bind_s (each_s (\<lambda>((k, _), rs). each_s (\<lambda>r. step_s (retire_copy k (entity_key r))) rs) copies) (\<lambda>_.
         return_s True))"

definition ensureMaterialised :: "id \<Rightarrow> descriptor option \<Rightarrow> string \<Rightarrow> time \<Rightarrow> bool svc" where
  "ensureMaterialised workspaceId d reason now =
     bind_s (read_s (\<lambda>st. isMaterialised st workspaceId)) (\<lambda>m.
     if m then return_s True
     else bind_s (materialise workspaceId d reason None now) (\<lambda>_. return_s True))"

section \<open>Opening a session\<close>

definition open_participant :: "id \<Rightarrow> participant \<Rightarrow> store \<Rightarrow> (unit \<times> store) res" where
  "open_participant workspaceId p st =
     bind_r (eph_update st Participant (p_participantId p) (\<lambda>current.
       bind_r (isMaterialised st workspaceId) (\<lambda>m.
       Inr (if m then None else Some (case current of Some r \<Rightarrow> r | None \<Rightarrow> ParticipantR p)))))
     (\<lambda>(_, st'). Inr ((), st'))"

definition open_ephemeral :: "(session option \<Rightarrow> unit res) \<Rightarrow> id \<Rightarrow> session \<Rightarrow> store \<Rightarrow> (session option \<times> store) res" where
  "open_ephemeral available workspaceId s st =
     bind_r (eph_update st Session (s_sessionId s) (\<lambda>current.
       bind_r (isMaterialised st workspaceId) (\<lambda>m.
       if m then Inr None
       else bind_r (available (as_session current)) (\<lambda>_. Inr (Some (SessionR s))))))
     (\<lambda>(r, st'). Inr (as_session r, st'))"

definition open_sessions :: "store \<Rightarrow> session list res" where
  "open_sessions st = bind_r (eph_list st Session) (\<lambda>rs. Inr (filter (\<lambda>s. s_state s = ''open'') (all_of as_session rs)))"

definition open_durable_step :: "(session option \<Rightarrow> unit res) \<Rightarrow> session \<Rightarrow> participant \<Rightarrow> id \<Rightarrow> time
    \<Rightarrow> store \<Rightarrow> (session \<times> store) res" where
  "open_durable_step available s p workspaceId now =
     transaction (Some [Participant, Session]) [] (open_durable available s p workspaceId now)"

text \<open>
  \<open>now\<close> is the clock read for the records and \<open>later\<close> the one read by a materialisation.
\<close>

definition openSession :: "open_input \<Rightarrow> (session \<Rightarrow> bool) option \<Rightarrow> (int \<Rightarrow> bool) \<Rightarrow> descriptor option
    \<Rightarrow> time \<Rightarrow> time \<Rightarrow> session svc" where
  "openSession input probe pidIsAlive d now later =
     bind_s (read_s (\<lambda>st. bind_r (assertPortableId (resolved st (oi_workspaceId input)) ''workspace id'') (\<lambda>w.
       bind_r (throw_if (w \<noteq> st_workspaceId st) CONFLICT ''cannot open a session in a different workspace'') (\<lambda>_.
       bind_r (assertPortableId (oi_participantId input) ''participant id'') (\<lambda>_. Inr w))))) (\<lambda>workspaceId.
     bind_s (case oi_sessionId input of Some i \<Rightarrow> return_s i | None \<Rightarrow> fresh_s ''session'') (\<lambda>sessionId.
     let available = assertAvailable (oi_generation input \<noteq> None) probe pidIsAlive in
     bind_s (read_s (\<lambda>st. locate st sessionId (Some workspaceId))) (\<lambda>existing.
     bind_s (lift_s (available (map_option fst existing))) (\<lambda>_.
     bind_s (case oi_generation input of Some g \<Rightarrow> return_s g | None \<Rightarrow> fresh_s ''generation'') (\<lambda>generation.
     bind_s (lift_s (sessionRecord input workspaceId sessionId now generation)) (\<lambda>s.
     bind_s (lift_s (participantRecord input workspaceId now)) (\<lambda>p.
     bind_s (read_s (\<lambda>st. isMaterialised st workspaceId)) (\<lambda>m.
     if m then step_s (open_durable_step available s p workspaceId now)
     else bind_s (read_s open_sessions) (\<lambda>others.
       bind_s (if list_ex (\<lambda>x. s_sessionId x \<noteq> sessionId) others
         then materialise workspaceId d ''second_live_session''
           (Some \<lparr>op_participant = p, op_session = s, op_available = available\<rparr>) later
         else return_s False) (\<lambda>joined.
       if joined then return_s s
       else bind_s (step_s (open_participant workspaceId p)) (\<lambda>_.
         bind_s (step_s (open_ephemeral available workspaceId s)) (\<lambda>opened.
         if opened = None then step_s (open_durable_step available s p workspaceId now)
         else bind_s (read_s open_sessions) (\<lambda>live.
           bind_s (if length live > 1 then return_s True else read_s (\<lambda>st. isMaterialised st workspaceId)) (\<lambda>promote_now.
           if promote_now
           then bind_s (materialise workspaceId d ''second_live_session'' None later) (\<lambda>_. return_s s)
           else return_s s))))))))))))))"

section \<open>Shape of the transactions\<close>

lemma lawful_append_event [lawful_intros]: "lawful (append_event w a t n p)"
  unfolding append_event_def by (intro lawful_intros)

lemma adds_append_event [adds_intros]: "adds k P (append_event w a t n p)"
  unfolding append_event_def by (intro adds_intros)

lemma emits_append_event [emits_intros]:
  "(\<And>e. e_type e = t \<Longrightarrow> e_workspaceId e = w \<Longrightarrow> P e) \<Longrightarrow> emits P (append_event w a t n p)"
  unfolding append_event_def by (intro emits_intros) simp

lemma staged_copies_kinds:
  assumes "staged_copies st = Inr staged" and "(entry, rs) \<in> set staged"
  shows "entry \<in> set EPHEMERAL_KINDS"
  using map_r_mem [OF assms(1) [unfolded staged_copies_def] assms(2)] by (auto simp: bind_r_eq_Inr)

lemma staged_copies_durable:
  assumes "staged_copies st = Inr staged"
  shows "\<forall>(entry, rs) \<in> set staged. fst entry \<in> {Participant, Session, Intent}"
  using staged_copies_kinds [OF assms] by (fastforce simp: EPHEMERAL_KINDS_def)

lemma lawful_promote: "fst entry \<noteq> DeliveryBinding \<Longrightarrow> lawful (promote a b c entry r)"
  unfolding promote_def by (cases entry) (auto intro!: lawful_intros)

lemma lawful_join [lawful_intros]: "lawful (join_tx a b c j)" "lawful (put_workspace a d reason now actor)"
  "lawful (put_new_participant p)" "lawful (put_opened s a b e)"
  unfolding join_tx_def put_workspace_def put_new_participant_def put_opened_def
  by (intro lawful_intros; simp)+

lemma lawful_materialise: "lawful (materialise_tx workspaceId d reason joining now)"
  unfolding materialise_tx_def
proof (rule lawful_bind_result, rule lawful_store_read)
  fix staged v w assume "lift_t (staged_copies (x_store v)) v = Inr (staged, w)"
  then have "staged_copies (x_store v) = Inr staged" by (simp add: lift_t_eq)
  then have "\<forall>(entry, rs) \<in> set staged. fst entry \<in> {Participant, Session, Intent}"
    by (rule staged_copies_durable)
  then have "fst entry \<noteq> DeliveryBinding" if "(entry, rs) \<in> set staged" for entry rs
    using that by auto
  then show "lawful (materialise_body workspaceId d reason joining now staged)"
    unfolding materialise_body_def by (intro lawful_intros lawful_promote) simp
qed

lemma lawful_update_durable: "lawful (update_durable i f)"
  unfolding update_durable_def by (intro lawful_intros) simp_all

lemma lawful_resume_durable: "lawful (resume_durable i f)"
  unfolding resume_durable_def by (intro lawful_intros) simp_all

lemma lawful_close_durable: "lawful (close_durable i f)"
  unfolding close_durable_def by (intro lawful_intros) simp_all

lemma lawful_open_durable: "lawful (open_durable a s p w t)"
  unfolding open_durable_def by (intro lawful_intros)

end
