(* ===== verification/Claims.thy ===== *)
theory Claims
  imports Sessions
begin

text \<open>
  Claims: acquiring, renewing, releasing and force-releasing resources
  (\<^verbatim>\<open>packages/core/src/claims.mjs\<close>) with their selectors
  (\<^verbatim>\<open>claim-selectors.mjs\<close>).
\<close>

section \<open>Selectors\<close>

definition usage_error :: "string \<Rightarrow> acc_error" where
  "usage_error message = AccError USAGE message"

definition as_usage :: "'a res \<Rightarrow> 'a res" where
  "as_usage r = (case r of Inl (AccError _ msg) \<Rightarrow> Inl (AccError USAGE msg) | _ \<Rightarrow> r)"

definition uniqueList :: "string list \<Rightarrow> string \<Rightarrow> (string \<Rightarrow> string res) \<Rightarrow> string list res" where
  "uniqueList xs name normalise =
     bind_r (throw_if (xs = []) USAGE (name @ '' must be a nonempty array'')) (\<lambda>_.
     bind_r (map_r (\<lambda>item. if item = [] then Inl (usage_error (name @ '' must contain nonempty strings''))
       else normalise item) xs) (\<lambda>result.
     if length (js_uniq result) \<noteq> length result
     then Inl (usage_error (name @ '' contains duplicate selectors'')) else Inr result))"

definition claimResources :: "string list \<Rightarrow> string list res" where
  "claimResources xs = uniqueList xs ''resources'' (\<lambda>resource.
     bind_r (assertMatchableResource usage_error resource) (\<lambda>_.
     let normalised = normaliseResource resource
     in as_usage (bind_r (resourceUri (Some (JStr normalised)) ''resource'') (\<lambda>_. Inr normalised))))"

datatype selectors = AllMine | ClaimIds "id list" | ResourceNames "string list"

record release_input =
  ri_claimIds :: "id list option"
  ri_resources :: "string list option"
  ri_all :: "bool option"
  ri_authority :: "string option"

definition releaseSelectors :: "release_input \<Rightarrow> selectors res" where
  "releaseSelectors input =
     (let present = (if ri_claimIds input = None then 0 else 1) + (if ri_resources input = None then 0 else 1)
        + (if ri_all input = None then 0 else 1 :: nat)
      in bind_r (throw_if (present \<noteq> 1 \<or> ri_all input = Some False) USAGE
           ''release needs exactly one of claimIds, resources, or all: true'') (\<lambda>_.
         bind_r (throw_if (ri_authority input \<noteq> None) USAGE
           ''batch release does not accept force-release authority'') (\<lambda>_.
         if ri_all input = Some True then Inr AllMine
         else case ri_resources input of
           Some rs \<Rightarrow> bind_r (claimResources rs) (\<lambda>names. Inr (ResourceNames names))
         | None \<Rightarrow> bind_r (uniqueList (or_else (ri_claimIds input) []) ''claimIds'' (\<lambda>i.
             as_usage (assertPortableId i ''claim id''))) (\<lambda>names. Inr (ClaimIds names)))))"

definition claims_t :: "claim list tx" where
  "claims_t = bind_t (list_t Claim) (\<lambda>rs. return_t (all_of as_claim rs))"

definition selectReleaseClaims :: "selectors \<Rightarrow> id \<Rightarrow> claim list tx" where
  "selectReleaseClaims sel sessionId = (case sel of
     AllMine \<Rightarrow> bind_t claims_t (\<lambda>cs. return_t (filter (\<lambda>c. c_ownerSessionId c = sessionId) cs))
   | ClaimIds names \<Rightarrow> map_t (\<lambda>claimId. bind_t (get_t Claim claimId) (\<lambda>r.
       case as_claim r of
         None \<Rightarrow> lift_t (Inl (AccError CONFLICT ''the claim does not exist''))
       | Some c \<Rightarrow> return_t c)) names
   | ResourceNames names \<Rightarrow> bind_t claims_t (\<lambda>cs. map_t (\<lambda>resource.
       let mine = filter (\<lambda>c. c_resource c = resource \<and> c_ownerSessionId c = sessionId) cs
       in case mine of
         [] \<Rightarrow> lift_t (Inl (AccError DATA (''no claim on '' @ resource @ '' to release'')))
       | [c] \<Rightarrow> return_t c
       | _ \<Rightarrow> lift_t (Inl (AccError DATA (show_nat (length mine) @ '' claims on '' @ resource
           @ ''; name the one you mean with --claim'')))) names))"

section \<open>Acquiring\<close>

definition isLive :: "claim \<Rightarrow> time \<Rightarrow> bool" where
  "isLive c now = (c_expiresAt c > now)"

record claim_input =
  ci_sessionId :: id
  ci_workspaceId :: "id option"
  ci_generation :: id
  ci_leaseSeconds :: "int option"
  ci_mode :: "string option"
  ci_enforcement :: "string option"
  ci_reason :: string

definition owner_error :: "string \<Rightarrow> id \<Rightarrow> session option \<Rightarrow> session res" where
  "owner_error action generation current = (case current of
     None \<Rightarrow> Inl (AccError CONFLICT (''cannot '' @ action @ '' from a session that is not open''))
   | Some s \<Rightarrow>
       if s_state s \<noteq> ''open'' then Inl (AccError CONFLICT (''cannot '' @ action @ '' from a session that is not open''))
       else if s_generation s \<noteq> generation
       then Inl (AccError CONFLICT (''cannot '' @ action @ '' with a replaced session generation''))
       else Inr s)"

text \<open>\<^verbatim>\<open>requireOwner\<close> before the transaction, and inside it.\<close>

definition requireOwner :: "id \<Rightarrow> id option \<Rightarrow> id \<Rightarrow> string \<Rightarrow> store \<Rightarrow> session res" where
  "requireOwner sessionId workspaceId generation action st =
     bind_r (locate st sessionId workspaceId) (\<lambda>located.
     owner_error action generation (map_option fst located))"

definition requireOwner_t :: "id \<Rightarrow> id \<Rightarrow> string \<Rightarrow> bool \<Rightarrow> session tx" where
  "requireOwner_t sessionId generation action allowEphemeral =
     bind_t (get_t Session sessionId) (\<lambda>durable.
     bind_t (if as_session durable = None \<and> allowEphemeral
       then (\<lambda>v. lift_t (eph_get (x_store v) Session sessionId) v) else return_t durable) (\<lambda>current.
     lift_t (owner_error action generation (as_session current))))"

definition lease_end :: "time \<Rightarrow> int option \<Rightarrow> time res" where
  "lease_end now leaseSeconds =
     (let t = now + or_else leaseSeconds 1800 * 1000
      in bind_r (toISOString t) (\<lambda>_. Inr t))"

definition conflicting :: "claim \<Rightarrow> string \<Rightarrow> id \<Rightarrow> string \<Rightarrow> bool" where
  "conflicting c resource sessionId mode \<longleftrightarrow> overlaps (c_resource c) resource \<and> c_ownerSessionId c \<noteq> sessionId
     \<and> (c_mode c = ''exclusive'' \<or> mode = ''exclusive'')"

definition claim_conflicts :: "claim list \<Rightarrow> string list \<Rightarrow> id \<Rightarrow> string \<Rightarrow> (string \<times> claim) list" where
  "claim_conflicts live_claims resources sessionId mode =
     concat (map (\<lambda>resource. map (\<lambda>c. (resource, c))
       (filter (\<lambda>c. conflicting c resource sessionId mode) live_claims)) resources)"

definition conflict_message :: "bool \<Rightarrow> (string \<times> claim) list \<Rightarrow> string" where
  "conflict_message batch conflicts =
     (if \<not> batch then ''the resource is already claimed''
      else ''batch claim conflicts:'' @ [CHR 0x0A] @ join_with [CHR 0x0A] (map (\<lambda>(requested, c).
        requested @ '' overlaps '' @ c_resource c @ '', held by '' @ c_ownerSessionId c) conflicts))"

definition claim_record :: "claim_input \<Rightarrow> session \<Rightarrow> claim list \<Rightarrow> time \<Rightarrow> time \<Rightarrow> string \<Rightarrow> (bool \<times> claim) tx" where
  "claim_record input s existing now expiresAt resource =
     (let mine = List.find (\<lambda>c. c_ownerSessionId c = s_sessionId s \<and> c_resource c = resource) existing
      in bind_t (case mine of Some c \<Rightarrow> return_t (c_claimId c) | None \<Rightarrow> next_id ''claim'') (\<lambda>claimId.
         bind_t (next_id ''generation'') (\<lambda>generation.
         let r = \<lparr>c_claimId = claimId, c_workspaceId = s_workspaceId s, c_ownerSessionId = s_sessionId s,
               c_resource = resource, c_mode = or_else (ci_mode input) ''exclusive'',
               c_enforcement = or_else (ci_enforcement input) ''advisory'', c_reason = ci_reason input,
               c_acquiredAt = (case mine of Some c \<Rightarrow> if isLive c now then c_acquiredAt c else now | None \<Rightarrow> now),
               c_expiresAt = expiresAt, c_generation = generation\<rparr>
         in bind_t (lift_t (validate Claim (ClaimR r))) (\<lambda>_. return_t (mine \<noteq> None, r)))))"

definition write_claim :: "session \<Rightarrow> time \<Rightarrow> bool \<times> claim \<Rightarrow> unit tx" where
  "write_claim s now rec = (case rec of (renewal, r) \<Rightarrow>
     bind_t (generationOf Claim (c_claimId r)) (\<lambda>g.
     bind_t (put_t Claim (c_claimId r) (ClaimR r) g) (\<lambda>_.
     append_event (s_workspaceId s) (s_sessionId s) (if renewal then ''claim.renewed'' else ''claim.acquired'') now
       [(''claimId'', JStr (c_claimId r)), (''resource'', JStr (c_resource r)), (''mode'', JStr (c_mode r))])))"

definition acquire_tx :: "claim_input \<Rightarrow> session \<Rightarrow> string list \<Rightarrow> bool \<Rightarrow> time \<Rightarrow> claim list tx" where
  "acquire_tx input s resources batch now =
     bind_t (requireOwner_t (ci_sessionId input) (ci_generation input) ''claim'' False) (\<lambda>_.
     bind_t (lift_t (lease_end now (ci_leaseSeconds input))) (\<lambda>expiresAt.
     bind_t claims_t (\<lambda>existing.
     let conflicts = claim_conflicts (filter (\<lambda>c. isLive c now) existing) resources (s_sessionId s)
           (or_else (ci_mode input) ''exclusive'')
     in bind_t (throw_t (conflicts \<noteq> []) CONFLICT (conflict_message batch conflicts)) (\<lambda>_.
        bind_t (map_t (claim_record input s existing now expiresAt) resources) (\<lambda>records.
        bind_t (each_t (write_claim s now) records) (\<lambda>_.
        return_t (map snd records)))))))"

definition acquire :: "claim_input \<Rightarrow> string list \<Rightarrow> bool \<Rightarrow> descriptor option \<Rightarrow> time \<Rightarrow> time \<Rightarrow> claim list svc" where
  "acquire input names batch d earlier now =
     bind_s (read_s (requireOwner (ci_sessionId input) (ci_workspaceId input) (ci_generation input) ''claim'')) (\<lambda>s.
     bind_s (lift_s (claimResources names)) (\<lambda>resources.
     bind_s (ensureMaterialised (s_workspaceId s) d ''durable_object'' earlier) (\<lambda>_.
     step_s (transaction (Some [Session, Claim]) [] (acquire_tx input s resources batch now)))))"

definition acquireClaim :: "claim_input \<Rightarrow> string \<Rightarrow> descriptor option \<Rightarrow> time \<Rightarrow> time \<Rightarrow> claim svc" where
  "acquireClaim input resource d earlier now =
     bind_s (acquire input [resource] False d earlier now) (\<lambda>cs. return_s (hd cs))"

definition acquireClaims :: "claim_input \<Rightarrow> string list \<Rightarrow> descriptor option \<Rightarrow> time \<Rightarrow> time \<Rightarrow> claim list svc" where
  "acquireClaims input resources d earlier now = acquire input resources True d earlier now"

section \<open>Renewing and releasing\<close>

text \<open>The write of \<^verbatim>\<open>renewClaim\<close>, once the claim is known to be the session's and live.\<close>

definition renew_write :: "session \<Rightarrow> id \<Rightarrow> claim \<Rightarrow> int option \<Rightarrow> time \<Rightarrow> claim tx" where
  "renew_write s claimId c leaseSeconds now =
     bind_t (lift_t (lease_end now leaseSeconds)) (\<lambda>expiresAt.
     bind_t (next_id ''generation'') (\<lambda>g.
     let renewed = c\<lparr>c_expiresAt := expiresAt, c_generation := g\<rparr>
     in bind_t (generationOf Claim claimId) (\<lambda>eg.
        bind_t (put_t Claim claimId (ClaimR renewed) eg) (\<lambda>_.
        bind_t (append_event (c_workspaceId c) (s_sessionId s) ''claim.renewed'' now
          [(''claimId'', JStr claimId)]) (\<lambda>_.
        return_t renewed)))))"

definition renew_tx :: "id \<Rightarrow> session \<Rightarrow> id \<Rightarrow> id \<Rightarrow> int option \<Rightarrow> time \<Rightarrow> claim tx" where
  "renew_tx sessionId s generation claimId leaseSeconds now =
     bind_t (requireOwner_t sessionId generation ''renew'' False) (\<lambda>_.
     bind_t (get_t Claim claimId) (\<lambda>r.
     case as_claim r of
       None \<Rightarrow> lift_t (Inl (AccError CONFLICT ''only the owning session generation may renew a claim''))
     | Some c \<Rightarrow>
         bind_t (throw_t (c_ownerSessionId c \<noteq> s_sessionId s) CONFLICT
           ''only the owning session generation may renew a claim'') (\<lambda>_.
         bind_t (throw_t (\<not> isLive c now) CONFLICT
           (''claim '' @ claimId @ '' has lapsed; acquire the resource again'')) (\<lambda>_.
         renew_write s claimId c leaseSeconds now))))"

definition renewClaim :: "id \<Rightarrow> id option \<Rightarrow> id \<Rightarrow> id \<Rightarrow> int option \<Rightarrow> time \<Rightarrow> claim svc" where
  "renewClaim sessionId workspaceId generation claimId leaseSeconds now =
     bind_s (read_s (requireOwner sessionId workspaceId generation ''renew'')) (\<lambda>s.
     step_s (transaction (Some [Session, Claim]) [] (renew_tx sessionId s generation claimId leaseSeconds now)))"

definition release_one :: "session \<Rightarrow> string option \<Rightarrow> string option \<Rightarrow> time \<Rightarrow> claim \<Rightarrow> unit tx" where
  "release_one s authority reason now c =
     bind_t (generationOf Claim (c_claimId c)) (\<lambda>g.
     bind_t (remove_t Claim (c_claimId c) g) (\<lambda>_.
     append_event (c_workspaceId c) (s_sessionId s)
       (if c_ownerSessionId c = s_sessionId s then ''claim.released'' else ''claim.force_released'') now
       [(''claimId'', JStr (c_claimId c)), (''authority'', nullable_json JStr authority),
        (''reason'', nullable_json JStr reason), (''replacedGeneration'', JStr (c_generation c))]))"

definition remove_claims_tx :: "id \<Rightarrow> id \<Rightarrow> session \<Rightarrow> selectors \<Rightarrow> string option \<Rightarrow> string option \<Rightarrow> time \<Rightarrow> claim list tx" where
  "remove_claims_tx sessionId generation s sel authority reason now =
     bind_t (requireOwner_t sessionId generation ''release'' True) (\<lambda>_.
     bind_t (selectReleaseClaims sel (s_sessionId s)) (\<lambda>selected.
     bind_t (throw_t (list_ex (\<lambda>c. c_ownerSessionId c \<noteq> s_sessionId s) selected
         \<and> authority \<noteq> Some ''human'' \<and> authority \<noteq> Some ''policy'') CONFLICT
       ''force release requires human or policy authority'') (\<lambda>_.
     bind_t (each_t (release_one s authority reason now) selected) (\<lambda>_.
     return_t selected))))"

definition removeClaims :: "id \<Rightarrow> id option \<Rightarrow> id \<Rightarrow> selectors \<Rightarrow> string option \<Rightarrow> string option \<Rightarrow> time \<Rightarrow> claim list svc" where
  "removeClaims sessionId workspaceId generation sel authority reason now =
     bind_s (read_s (requireOwner sessionId workspaceId generation ''release'')) (\<lambda>s.
     step_s (transaction (Some [Session, Claim]) []
       (remove_claims_tx sessionId generation s sel authority reason now)))"

definition releaseClaims :: "id \<Rightarrow> id option \<Rightarrow> id \<Rightarrow> release_input \<Rightarrow> time \<Rightarrow> claim list svc" where
  "releaseClaims sessionId workspaceId generation input now =
     bind_s (lift_s (releaseSelectors input)) (\<lambda>sel.
     removeClaims sessionId workspaceId generation sel None None now)"

definition releaseClaim :: "id \<Rightarrow> id option \<Rightarrow> id \<Rightarrow> id \<Rightarrow> time \<Rightarrow> claim list svc" where
  "releaseClaim sessionId workspaceId generation claimId now =
     removeClaims sessionId workspaceId generation (ClaimIds [claimId]) None None now"

definition forceReleaseClaim :: "id \<Rightarrow> id option \<Rightarrow> id \<Rightarrow> id \<Rightarrow> string option \<Rightarrow> string option \<Rightarrow> time \<Rightarrow> claim list svc" where
  "forceReleaseClaim sessionId workspaceId generation claimId authority reason now =
     removeClaims sessionId workspaceId generation (ClaimIds [claimId]) authority reason now"

section \<open>Shape of the transactions\<close>

lemma lawful_requireOwner [lawful_intros]: "lawful (requireOwner_t a b c d)"
  unfolding requireOwner_t_def by (intro lawful_intros)

lemma adds_requireOwner [adds_intros]: "adds k P (requireOwner_t a b c d)"
  unfolding requireOwner_t_def by (intro adds_intros)

lemma lawful_claim_record [lawful_intros]: "lawful (claim_record input s existing now expiresAt resource)"
  unfolding claim_record_def by (intro lawful_intros)

lemma lawful_write_claim [lawful_intros]: "lawful (write_claim s now rec)"
  unfolding write_claim_def by (intro lawful_intros) simp_all

lemma lawful_claims_t [lawful_intros]: "lawful claims_t"
  unfolding claims_t_def by (intro lawful_intros)

lemma lawful_acquire: "lawful (acquire_tx input s resources batch now)"
  unfolding acquire_tx_def by (intro lawful_intros)

lemma lawful_renew: "lawful (renew_tx sessionId s generation claimId leaseSeconds now)"
  unfolding renew_tx_def renew_write_def by (intro lawful_intros) simp_all

lemma lawful_release_one [lawful_intros]: "lawful (release_one s authority reason now c)"
  unfolding release_one_def by (intro lawful_intros) simp_all

lemma lawful_select [lawful_intros]: "lawful (selectReleaseClaims sel sessionId)"
  unfolding selectReleaseClaims_def
  by (cases sel) (auto intro!: lawful_intros split: list.split)

lemma lawful_remove_claims: "lawful (remove_claims_tx sessionId generation s sel authority reason now)"
  unfolding remove_claims_tx_def by (intro lawful_intros)

lemma claims_t_law:
  assumes "claims_t v = Inr (cs, w)" and "view_ok v" and "typed_map (sees v)"
  shows "w = v \<and> set cs = {c. \<exists>i g. sees v (Claim, i) = Some (ClaimR c, g)}"
proof -
  obtain rs where rs: "list_t Claim v = Inr (rs, w)" and cs: "cs = all_of as_claim rs"
    using assms(1) by (auto simp: claims_t_def bind_t_eq return_t_eq)
  have "c \<in> set cs \<longleftrightarrow> ClaimR c \<in> set rs" for c
  proof -
    have "x \<in> set (case as_claim (Some r) of None \<Rightarrow> [] | Some x \<Rightarrow> [x]) \<longleftrightarrow> r = ClaimR x" for x r
      by (cases r) auto
    then show ?thesis by (auto simp: cs all_of_def)
  qed
  with list_t_law [OF rs assms(2)] show ?thesis by auto
qed

section \<open>Exclusive claims stay exclusive\<close>

definition claims_in :: "store \<Rightarrow> claim set" where
  "claims_in st = {c. \<exists>i g. store_map st (Claim, i) = Some (ClaimR c, g)}"

definition compatible :: "claim \<Rightarrow> claim \<Rightarrow> bool" where
  "compatible c d \<longleftrightarrow> c_ownerSessionId c = c_ownerSessionId d \<or> \<not> overlaps (c_resource c) (c_resource d)
     \<or> (c_mode c \<noteq> ''exclusive'' \<and> c_mode d \<noteq> ''exclusive'')"

definition exclusive_at :: "store \<Rightarrow> time \<Rightarrow> bool" where
  "exclusive_at st now \<longleftrightarrow> (\<forall>c \<in> claims_in st. \<forall>d \<in> claims_in st. isLive c now \<longrightarrow> isLive d now \<longrightarrow> compatible c d)"

lemma compatible_sym: "compatible c d \<longleftrightarrow> compatible d c"
  by (auto simp: compatible_def overlaps_sym)

lemma exclusive_later: "exclusive_at st t \<Longrightarrow> t \<le> t' \<Longrightarrow> exclusive_at st t'"
  by (auto simp: exclusive_at_def isLive_def)

text \<open>
  Adding claims of one owner that are compatible with every live claim, or replacing a live
  claim by one that holds the same resource in the same mode, keeps claims exclusive.
\<close>

lemma exclusive_extend:
  assumes "exclusive_at st now"
    and sub: "\<And>c. c \<in> claims_in st' \<Longrightarrow> c \<in> claims_in st \<or> c \<in> new"
    and new: "\<And>c d. c \<in> new \<Longrightarrow> d \<in> claims_in st \<Longrightarrow> isLive d now \<Longrightarrow> compatible c d"
    and own: "\<And>c d. c \<in> new \<Longrightarrow> d \<in> new \<Longrightarrow> c_ownerSessionId c = c_ownerSessionId d"
  shows "exclusive_at st' now"
  unfolding exclusive_at_def
proof (intro ballI impI)
  fix c d assume c: "c \<in> claims_in st'" and d: "d \<in> claims_in st'" and live: "isLive c now" "isLive d now"
  from sub [OF c] sub [OF d]
  consider "c \<in> claims_in st" "d \<in> claims_in st" | "c \<in> claims_in st" "d \<in> new" | "c \<in> new" "d \<in> claims_in st"
    | "c \<in> new" "d \<in> new" by blast
  then show "compatible c d"
  proof cases
    case 1
    with assms(1) live show ?thesis by (simp add: exclusive_at_def)
  next
    case 2
    with new live show ?thesis by (subst compatible_sym) blast
  next
    case 3
    with new live show ?thesis by blast
  next
    case 4
    then have "c_ownerSessionId c = c_ownerSessionId d" by (rule own)
    then show ?thesis by (simp add: compatible_def)
  qed
qed

lemma adds_claims:
  assumes run: "transaction ks exactKinds callback st = Inr (y, st')" "lawful callback" "wf_store st"
    and "adds Claim P callback" and "c \<in> claims_in st'"
  shows "c \<in> claims_in st \<or> P (ClaimR c)"
proof -
  obtain v w where "callback v = Inr (y, w)" "view_ok v" "sees v = store_map st" "sees w = store_map st'"
    using transaction_result [OF run] by metis
  with addsD(2) [OF assms(4)] have "store_map st' (Claim, i) = Some (ClaimR c, g) \<Longrightarrow>
      store_map st (Claim, i) = Some (ClaimR c, g) \<or> P (ClaimR c)" for i g
    by metis
  with assms(5) show ?thesis unfolding claims_in_def by blast
qed

lemma claim_record_fields:
  assumes "claim_record input s existing now expiresAt resource v = Inr ((b, r), w)"
  shows "c_resource r = resource \<and> c_ownerSessionId r = s_sessionId s
    \<and> c_mode r = or_else (ci_mode input) ''exclusive''"
  using assms by (auto simp: res_simps claim_record_def Let_def)

lemma map_t_claim_record:
  assumes "map_t (claim_record input s existing now expiresAt) resources v = Inr (records, w)" and "(b, r) \<in> set records"
  shows "c_resource r \<in> set resources \<and> c_ownerSessionId r = s_sessionId s
    \<and> c_mode r = or_else (ci_mode input) ''exclusive''"
  using assms
proof (induction resources arbitrary: v records)
  case (Cons resource resources)
  from Cons.prems(1) obtain rec u recs where "claim_record input s existing now expiresAt resource v = Inr (rec, u)"
    and rest: "map_t (claim_record input s existing now expiresAt) resources u = Inr (recs, w)"
    and records: "records = rec # recs"
    by (auto simp: res_simps)
  then have "c_resource (snd rec) = resource \<and> c_ownerSessionId (snd rec) = s_sessionId s
      \<and> c_mode (snd rec) = or_else (ci_mode input) ''exclusive''"
    by (cases rec) (use claim_record_fields in auto)
  with Cons.IH [OF rest] Cons.prems(2) records show ?case by auto
qed (simp add: res_simps)

lemma adds_write_claims:
  "adds Claim (\<lambda>r. \<exists>b c. (b, c) \<in> set records \<and> r = ClaimR c) (each_t (write_claim s now) records)"
  unfolding write_claim_def by (intro adds_intros) auto

lemma view_ok_map_record: "adds Claim (\<lambda>_. False) (map_t (claim_record input s existing now expiresAt) resources)"
  unfolding claim_record_def by (intro adds_intros)

lemma acquire_exclusive:
  assumes run: "transaction (Some [Session, Claim]) [] (acquire_tx input s resources batch now) st = Inr (y, st')"
    and wf: "wf_store st" and excl: "exclusive_at st now"
  shows "exclusive_at st' now"
proof -
  let ?mode = "or_else (ci_mode input) ''exclusive''"
  obtain v w where body: "acquire_tx input s resources batch now v = Inr (y, w)" and ok: "view_ok v"
    and sv: "sees v = store_map st" and sw: "sees w = store_map st'" and typed: "typed_map (sees v)"
    using transaction_result [OF run lawful_acquire wf] by metis
  obtain existing expiresAt records u1 u2 u3 u4 owner where
    owner: "requireOwner_t (ci_sessionId input) (ci_generation input) ''claim'' False v = Inr (owner, u1)"
    and listed: "claims_t u1 = Inr (existing, u2)"
    and none: "claim_conflicts (filter (\<lambda>c. isLive c now) existing) resources (s_sessionId s) ?mode = []"
    and made: "map_t (claim_record input s existing now expiresAt) resources u2 = Inr (records, u3)"
    and written: "each_t (write_claim s now) records u3 = Inr (u4, w)"
    using body by (auto simp: acquire_tx_def res_simps Let_def)
  have u1: "u1 = v"
    using owner by (auto simp: requireOwner_t_def res_simps get_t_def split: if_splits)
  note law = claims_t_law [OF listed [unfolded u1] ok typed]
  have u3: "view_ok u3" and seen: "sees u3 (Claim, i) = Some (r, g) \<Longrightarrow> sees v (Claim, i) = Some (r, g)" for i r g
    using addsD [OF view_ok_map_record, of u2] made law ok by auto
  show ?thesis
  proof (rule exclusive_extend [OF excl, where new = "snd ` set records"])
    fix c assume "c \<in> claims_in st'"
    then obtain i g where "sees w (Claim, i) = Some (ClaimR c, g)" using sw by (auto simp: claims_in_def)
    with addsD(2) [OF adds_write_claims u3 written] seen
    show "c \<in> claims_in st \<or> c \<in> snd ` set records"
      by (force simp: claims_in_def sv)
  next
    fix c d assume c: "c \<in> snd ` set records" and d: "d \<in> claims_in st" and live: "isLive d now"
    from c map_t_claim_record [OF made] have fields: "c_resource c \<in> set resources"
      "c_ownerSessionId c = s_sessionId s" "c_mode c = ?mode" by auto
    have "d \<in> set existing" using d law by (simp add: claims_in_def sv)
    with none live fields(1) have "\<not> conflicting d (c_resource c) (s_sessionId s) ?mode"
      by (auto simp: claim_conflicts_def filter_empty_conv)
    with fields show "compatible c d"
      by (auto simp: conflicting_def compatible_def overlaps_sym)
  next
    fix c d assume "c \<in> snd ` set records" "d \<in> snd ` set records"
    with map_t_claim_record [OF made] show "c_ownerSessionId c = c_ownerSessionId d" by fastforce
  qed
qed

lemma requireOwner_t_same: "requireOwner_t sessionId generation action eph v = Inr (owner, u) \<Longrightarrow> u = v"
  by (auto simp: requireOwner_t_def res_simps get_t_def split: if_splits)

lemma renew_tx_found:
  assumes "renew_tx sessionId s generation claimId leaseSeconds now v = Inr (y, w)" and "view_ok v"
  shows "\<exists>c g. sees v (Claim, claimId) = Some (ClaimR c, g) \<and> isLive c now \<and> c_ownerSessionId c = s_sessionId s
    \<and> renew_write s claimId c leaseSeconds now v = Inr (y, w)"
proof -
  obtain owner u1 r u2 c where owner: "requireOwner_t sessionId generation ''renew'' False v = Inr (owner, u1)"
    and got: "get_t Claim claimId u1 = Inr (r, u2)" and c: "as_claim r = Some c"
    and rest: "c_ownerSessionId c = s_sessionId s" "isLive c now" "renew_write s claimId c leaseSeconds now u2 = Inr (y, w)"
    using assms(1) by (auto simp: renew_tx_def res_simps split: option.splits)
  have "u1 = v" by (rule requireOwner_t_same [OF owner])
  with get_t_law [OF got] assms(2) have "u2 = v" "r = map_option fst (sees v (Claim, claimId))" by simp_all
  with rest c show ?thesis by (auto elim!: as_claim.elims)
qed

lemma adds_renew_write:
  "adds Claim (\<lambda>r. \<exists>d. r = ClaimR d \<and> c_resource d = c_resource c \<and> c_mode d = c_mode c
     \<and> c_ownerSessionId d = c_ownerSessionId c) (renew_write s claimId c leaseSeconds now)"
  unfolding renew_write_def by (intro adds_intros) auto

lemma renew_exclusive:
  assumes run: "transaction (Some [Session, Claim]) [] (renew_tx sessionId s generation claimId leaseSeconds now) st = Inr (y, st')"
    and wf: "wf_store st" and excl: "exclusive_at st now"
  shows "exclusive_at st' now"
proof -
  obtain v w where body: "renew_tx sessionId s generation claimId leaseSeconds now v = Inr (y, w)" and ok: "view_ok v"
    and sv: "sees v = store_map st" and sw: "sees w = store_map st'"
    using transaction_result [OF run lawful_renew wf] by metis
  obtain c where c: "c \<in> claims_in st" "isLive c now" and written: "renew_write s claimId c leaseSeconds now v = Inr (y, w)"
    using renew_tx_found [OF body ok] by (auto simp: claims_in_def sv)
  let ?new = "{d :: claim. c_resource d = c_resource c \<and> c_mode d = c_mode c \<and> c_ownerSessionId d = c_ownerSessionId c}"
  show ?thesis
  proof (rule exclusive_extend [OF excl, where new = ?new])
    fix d assume "d \<in> claims_in st'"
    then obtain i g where "sees w (Claim, i) = Some (ClaimR d, g)" using sw by (auto simp: claims_in_def)
    with addsD(2) [OF adds_renew_write ok written] show "d \<in> claims_in st \<or> d \<in> ?new"
      by (force simp: claims_in_def sv)
  next
    fix d e assume "d \<in> ?new" "e \<in> claims_in st" "isLive e now"
    with excl c show "compatible d e" by (auto simp: exclusive_at_def compatible_def)
  qed simp
qed

lemma adds_nothing_exclusive:
  assumes run: "transaction ks exactKinds callback st = Inr (y, st')" "lawful callback" "wf_store st"
    and "adds Claim (\<lambda>_. False) callback" and "exclusive_at st now"
  shows "exclusive_at st' now"
  using adds_claims [OF run assms(4)] assms(5) unfolding exclusive_at_def by blast

lemma adds_remove_claims:
  "adds k (\<lambda>_. False) (remove_claims_tx sessionId generation s sel authority reason now)"
proof -
  have "adds k (\<lambda>_. False) (selectReleaseClaims sel i)" for i
    unfolding selectReleaseClaims_def claims_t_def
    by (cases sel) (auto intro!: adds_intros split: list.split)
  then show ?thesis
    unfolding remove_claims_tx_def release_one_def by (intro adds_intros) auto
qed

end
