(* ===== verification/Decisions.thy ===== *)
theory Decisions
  imports Sessions
begin

text \<open>
  Decisions and the decisions that replace or withdraw them: the read model of
  \<^verbatim>\<open>packages/core/src/decision-state.mjs\<close> and the preparation of a change of
  \<^verbatim>\<open>decision-changes.mjs\<close>.
\<close>

section \<open>The read model\<close>

text \<open>\<^verbatim>\<open>decisions\<close>: a map from identifier to decision, in the order of the messages.\<close>

definition decision_map :: "message list \<Rightarrow> (id \<times> message) list" where
  "decision_map messages = foldl (\<lambda>m msg. AList.update (m_messageId msg) msg m) []
     (filter (\<lambda>msg. m_kind msg = ''decision'') messages)"

definition targets_of :: "message \<Rightarrow> id list" where
  "targets_of m = (case m_decisionChange m of None \<Rightarrow> [] | Some d \<Rightarrow> d_messageIds d)"

text \<open>The targets that are decisions of the map.\<close>

definition known_targets :: "(id \<times> message) list \<Rightarrow> message \<Rightarrow> id list" where
  "known_targets ds m = filter (\<lambda>t. map_of ds t \<noteq> None) (targets_of m)"

definition replaced_ids :: "(id \<times> message) list \<Rightarrow> id list" where
  "replaced_ids ds = concat (map (\<lambda>(_, m). known_targets ds m) ds)"

text \<open>
  \<^verbatim>\<open>neighbours.get(id)\<close>: what the loop adds to one set, in insertion order, once each.
\<close>

definition neighbours :: "(id \<times> message) list \<Rightarrow> id \<Rightarrow> id list" where
  "neighbours ds i = js_uniq (concat (map (\<lambda>(_, m). concat (map (\<lambda>t.
     (if t = i then [m_messageId m] else []) @ (if m_messageId m = i then [t] else [])) (known_targets ds m))) ds))"

text \<open>
  The traversal of one group: \<open>group\<close> is what was reached, in order, \<open>pending\<close> the stack, whose
  head is its top. Each turn pops one and pushes what it reaches for the first time, so as
  many turns as there are decisions empty the stack.
\<close>

fun walk_group :: "(id \<times> message) list \<Rightarrow> nat \<Rightarrow> id list \<Rightarrow> id list \<Rightarrow> id list" where
  "walk_group ds 0 grp pending = grp"
| "walk_group ds (Suc fuel) grp [] = grp"
| "walk_group ds (Suc fuel) grp (i # pending) =
     (let fresh = filter (\<lambda>j. j \<notin> set grp) (neighbours ds i)
      in walk_group ds fuel (grp @ fresh) (rev fresh @ pending))"

definition group_of :: "(id \<times> message) list \<Rightarrow> id \<Rightarrow> id list" where
  "group_of ds start = walk_group ds (length ds) [start] [start]"

record decision_status =
  dx_state :: string
  dx_isHead :: bool
  dx_conflicted :: bool
  dx_headCount :: nat
  dx_currentMessageId :: "id option"
  dx_groupId :: id

definition withdraws :: "(id \<times> message) list \<Rightarrow> id \<Rightarrow> bool" where
  "withdraws ds i = (case map_of ds i of None \<Rightarrow> False
     | Some m \<Rightarrow> (case m_decisionChange m of None \<Rightarrow> False | Some d \<Rightarrow> d_action d = ''withdraw''))"

definition is_root :: "(id \<times> message) list \<Rightarrow> id \<Rightarrow> bool" where
  "is_root ds i = (case map_of ds i of None \<Rightarrow> False | Some m \<Rightarrow> m_decisionChange m = None)"

definition group_heads :: "(id \<times> message) list \<Rightarrow> id list \<Rightarrow> id list" where
  "group_heads ds grp = filter (\<lambda>i. i \<notin> set (replaced_ids ds)) grp"

definition group_status :: "(id \<times> message) list \<Rightarrow> id list \<Rightarrow> id \<Rightarrow> decision_status" where
  "group_status ds grp i =
     (let heads = group_heads ds grp;
          hasDecision = list_ex (\<lambda>j. \<not> withdraws ds j) heads;
          roots = filter (is_root ds) grp;
          isHead = (i \<notin> set (replaced_ids ds))
      in \<lparr>dx_state = (if isHead then (if withdraws ds i then ''withdrawn'' else ''current'')
            else (if hasDecision then ''superseded'' else ''withdrawn'')),
          dx_isHead = isHead, dx_conflicted = (length heads \<noteq> 1), dx_headCount = length heads,
          dx_currentMessageId = (if length heads = 1 then Some (hd heads) else None),
          dx_groupId = hd (sort (if roots \<noteq> [] then roots else grp))\<rparr>)"

definition decision_statuses :: "message list \<Rightarrow> (id \<times> decision_status) list" where
  "decision_statuses messages =
     (let ds = decision_map messages
      in foldl (\<lambda>statuses start. if map_of statuses start \<noteq> None then statuses
           else let grp = group_of ds start
             in statuses @ map (\<lambda>i. (i, group_status ds grp i)) grp) [] (map fst ds))"

text \<open>\<^verbatim>\<open>decisionView\<close>: the status it adds to a message, if the message is a decision.\<close>

definition decisionView :: "message list \<Rightarrow> message \<Rightarrow> decision_status option" where
  "decisionView messages m = map_of (decision_statuses messages) (m_messageId m)"

definition isCurrentDecision :: "decision_status option \<Rightarrow> bool" where
  "isCurrentDecision status = (case status of None \<Rightarrow> True | Some x \<Rightarrow> dx_isHead x)"

section \<open>Groups are connected components\<close>

definition keyed :: "(id \<times> message) list \<Rightarrow> bool" where
  "keyed ds \<longleftrightarrow> distinct (map fst ds) \<and> (\<forall>(i, m) \<in> set ds. i = m_messageId m \<and> m_kind m = ''decision'')"

definition linked :: "(id \<times> message) list \<Rightarrow> id \<Rightarrow> id \<Rightarrow> bool" where
  "linked ds i j \<longleftrightarrow> j \<in> set (neighbours ds i)"

lemma keyedD: "keyed ds \<Longrightarrow> (i, m) \<in> set ds \<Longrightarrow> m_messageId m = i"
  by (auto simp: keyed_def)

lemma keyed_update:
  assumes "keyed ds" and "m_kind m = ''decision''"
  shows "keyed (AList.update (m_messageId m) m ds)"
proof -
  have "set (AList.update (m_messageId m) m ds) \<subseteq> insert (m_messageId m, m) (set ds)"
    by (induction ds) auto
  with assms show ?thesis unfolding keyed_def by (auto simp: distinct_update)
qed

lemma keyed_fold:
  "keyed ds \<Longrightarrow> \<forall>m \<in> set ms. m_kind m = ''decision'' \<Longrightarrow>
    keyed (foldl (\<lambda>m msg. AList.update (m_messageId msg) msg m) ds ms)"
  by (induction ms arbitrary: ds) (simp_all add: keyed_update)

lemma keyed_decision_map: "keyed (decision_map messages)"
proof -
  have "keyed []" by (simp add: keyed_def)
  then show ?thesis unfolding decision_map_def by (rule keyed_fold) simp
qed

lemma linked_iff:
  "linked ds i j \<longleftrightarrow> (\<exists>(k, m) \<in> set ds. (m_messageId m = j \<and> i \<in> set (known_targets ds m))
     \<or> (m_messageId m = i \<and> j \<in> set (known_targets ds m)))"
  by (fastforce simp: linked_def neighbours_def)

lemma distinct_neighbours: "distinct (neighbours ds i)"
  by (simp add: neighbours_def)

lemma linked_sym: "linked ds i j \<longleftrightarrow> linked ds j i"
  unfolding linked_iff by fastforce

lemma linked_dom:
  assumes "keyed ds" and "linked ds i j"
  shows "j \<in> set (map fst ds)"
proof -
  from assms(2) obtain k m where km: "(k, m) \<in> set ds"
    and "m_messageId m = j \<or> j \<in> set (known_targets ds m)"
    unfolding linked_iff by auto
  from this(2) show ?thesis
  proof
    assume "m_messageId m = j"
    with km keyedD [OF assms(1) km] show ?thesis by (auto intro: rev_image_eqI)
  next
    assume "j \<in> set (known_targets ds m)"
    then show ?thesis by (auto simp: known_targets_def map_of_eq_None_iff)
  qed
qed

lemma walk_group_closed:
  assumes "keyed ds" and "distinct grp" and "distinct pending" and "set pending \<subseteq> set grp"
    and "set grp \<subseteq> set (map fst ds)" and "length ds \<le> fuel + (length grp - length pending)"
    and "\<And>i j. i \<in> set grp \<Longrightarrow> i \<notin> set pending \<Longrightarrow> linked ds i j \<Longrightarrow> j \<in> set grp"
    and "\<And>i. i \<in> set grp \<Longrightarrow> (linked ds)\<^sup>*\<^sup>* start i"
  shows "distinct (walk_group ds fuel grp pending) \<and> set grp \<subseteq> set (walk_group ds fuel grp pending)
    \<and> set (walk_group ds fuel grp pending) \<subseteq> set (map fst ds)
    \<and> (\<forall>i j. i \<in> set (walk_group ds fuel grp pending) \<longrightarrow> linked ds i j \<longrightarrow> j \<in> set (walk_group ds fuel grp pending))
    \<and> (\<forall>i \<in> set (walk_group ds fuel grp pending). (linked ds)\<^sup>*\<^sup>* start i)"
  using assms
proof (induction ds fuel grp pending rule: walk_group.induct)
  case (1 ds grp pending)
  have "length grp \<le> length ds"
    using "1.prems"(2, 5) card_mono [of "set (map fst ds)" "set grp"] distinct_card [of grp]
      card_length [of "map fst ds"] by simp
  moreover have "length pending \<le> length grp"
    using "1.prems"(2, 3, 4) card_mono [of "set grp" "set pending"] by (simp add: distinct_card)
  ultimately have "pending = []" using "1.prems"(6) by (cases pending) auto
  with "1.prems" show ?case by auto
next
  case (2 ds fuel grp)
  then show ?case by auto
next
  case (3 ds fuel grp i pending)
  define fresh where "fresh = filter (\<lambda>j. j \<notin> set grp) (neighbours ds i)"
  have len: "Suc (length pending) \<le> length grp"
    using "3.prems"(2, 3, 4) card_mono [of "set grp" "set (i # pending)"] by (simp add: distinct_card)
  have fresh: "distinct fresh" "set fresh \<inter> set grp = {}" "set fresh \<subseteq> set (map fst ds)"
    using linked_dom [OF "3.prems"(1)] by (auto simp: fresh_def linked_def distinct_neighbours simp del: set_map)
  have "distinct (walk_group ds fuel (grp @ fresh) (rev fresh @ pending)) \<and> set (grp @ fresh) \<subseteq> set (walk_group ds fuel (grp @ fresh) (rev fresh @ pending))
    \<and> set (walk_group ds fuel (grp @ fresh) (rev fresh @ pending)) \<subseteq> set (map fst ds)
    \<and> (\<forall>i j. i \<in> set (walk_group ds fuel (grp @ fresh) (rev fresh @ pending)) \<longrightarrow> linked ds i j \<longrightarrow> j \<in> set (walk_group ds fuel (grp @ fresh) (rev fresh @ pending)))
    \<and> (\<forall>i \<in> set (walk_group ds fuel (grp @ fresh) (rev fresh @ pending)). (linked ds)\<^sup>*\<^sup>* start i)"
  proof (rule "3.IH" [OF fresh_def])
    show "distinct (grp @ fresh)" using "3.prems" fresh by auto
    show "distinct (rev fresh @ pending)" "set (rev fresh @ pending) \<subseteq> set (grp @ fresh)"
      "set (grp @ fresh) \<subseteq> set (map fst ds)"
      using "3.prems" fresh by auto
    show "length ds \<le> fuel + (length (grp @ fresh) - length (rev fresh @ pending))"
      using "3.prems"(6) len by simp
  next
    fix x j assume x: "x \<in> set (grp @ fresh)" "x \<notin> set (rev fresh @ pending)" and l: "linked ds x j"
    show "j \<in> set (grp @ fresh)"
    proof (cases "x = i")
      case True
      with l show ?thesis by (auto simp: fresh_def linked_def)
    next
      case False
      with x l "3.prems"(7) show ?thesis by auto
    qed
  next
    fix x assume "x \<in> set (grp @ fresh)"
    then consider "x \<in> set grp" | "linked ds i x" by (auto simp: fresh_def linked_def)
    then show "(linked ds)\<^sup>*\<^sup>* start x"
      using "3.prems"(4, 8) by cases (auto intro: rtranclp.rtrancl_into_rtrancl)
  qed (rule "3.prems"(1))
  then show ?case by (simp add: fresh_def Let_def)
qed

definition component :: "(id \<times> message) list \<Rightarrow> id \<Rightarrow> id set" where
  "component ds i = {j. (linked ds)\<^sup>*\<^sup>* i j}"

lemma group_of_component:
  assumes "keyed ds" and "start \<in> set (map fst ds)"
  shows "distinct (group_of ds start) \<and> set (group_of ds start) = component ds start"
proof -
  have "distinct (group_of ds start) \<and> set [start] \<subseteq> set (group_of ds start)
    \<and> set (group_of ds start) \<subseteq> set (map fst ds)
    \<and> (\<forall>i j. i \<in> set (group_of ds start) \<longrightarrow> linked ds i j \<longrightarrow> j \<in> set (group_of ds start))
    \<and> (\<forall>i \<in> set (group_of ds start). (linked ds)\<^sup>*\<^sup>* start i)"
    unfolding group_of_def using assms by (intro walk_group_closed) auto
  note closed = this
  have first: "start \<in> set (group_of ds start)"
    and next_in: "\<And>i j. i \<in> set (group_of ds start) \<Longrightarrow> linked ds i j \<Longrightarrow> j \<in> set (group_of ds start)"
    using closed by (simp, blast)
  have "j \<in> set (group_of ds start)" if "(linked ds)\<^sup>*\<^sup>* start j" for j
    using that by (induction rule: rtranclp_induct) (rule first, rule next_in)
  then have "component ds start \<subseteq> set (group_of ds start)" by (auto simp: component_def)
  moreover have "set (group_of ds start) \<subseteq> component ds start"
    using closed unfolding component_def by blast
  ultimately show ?thesis using closed by blast
qed

lemma component_sym: "(linked ds)\<^sup>*\<^sup>* i j \<Longrightarrow> component ds i = component ds j"
proof -
  have flip: "(linked ds)\<^sup>*\<^sup>* i j \<Longrightarrow> (linked ds)\<^sup>*\<^sup>* j i" for i j
    by (induction rule: rtranclp_induct) (auto dest: linked_sym [THEN iffD1] intro: converse_rtranclp_into_rtranclp)
  assume "(linked ds)\<^sup>*\<^sup>* i j"
  with flip [OF this] show ?thesis by (auto simp: component_def intro: rtranclp_trans)
qed

definition status_ok :: "(id \<times> message) list \<Rightarrow> id \<Rightarrow> decision_status \<Rightarrow> bool" where
  "status_ok ds i x \<longleftrightarrow> (\<exists>grp. distinct grp \<and> set grp = component ds i \<and> x = group_status ds grp i)"

lemma statuses_fold:
  assumes "keyed ds" and "set starts \<subseteq> set (map fst ds)" and "\<And>i x. map_of st i = Some x \<Longrightarrow> status_ok ds i x"
  defines "step \<equiv> \<lambda>statuses start. if map_of statuses start \<noteq> None then statuses
    else let grp = group_of ds start in statuses @ map (\<lambda>i. (i, group_status ds grp i)) grp"
  shows "(\<forall>i x. map_of (foldl step st starts) i = Some x \<longrightarrow> status_ok ds i x)
    \<and> (\<forall>i \<in> set starts. map_of (foldl step st starts) i \<noteq> None)
    \<and> (\<forall>i. map_of st i \<noteq> None \<longrightarrow> map_of (foldl step st starts) i \<noteq> None)"
  using assms(2, 3)
proof (induction starts arbitrary: st)
  case (Cons start starts)
  note grp = group_of_component [OF assms(1), of start]
  have new: "map_of (map (\<lambda>i. (i, group_status ds (group_of ds start) i)) (group_of ds start)) i = Some x
      \<Longrightarrow> status_ok ds i x" for i x
    using grp Cons.prems(1) component_sym [of ds start i]
    by (auto simp: map_of_map_restrict restrict_map_def status_ok_def component_def split: if_splits)
  have ok: "status_ok ds i x" if "map_of (step st start) i = Some x" for i x
    using that new Cons.prems(2) by (auto simp: step_def Let_def map_add_def split: if_splits option.splits)
  have in_start: "map_of (step st start) start \<noteq> None"
    using grp Cons.prems(1) by (auto simp: step_def Let_def map_add_def component_def map_of_map_restrict split: option.splits)
  have keep: "map_of st i \<noteq> None \<Longrightarrow> map_of (step st start) i \<noteq> None" for i
    by (auto simp: step_def Let_def map_add_def split: option.splits)
  show ?case
    using Cons.IH [of "step st start"] Cons.prems(1) ok in_start keep by auto
qed simp

lemma decisionView_status:
  assumes "keyed ds" and "ds = decision_map messages" and "m_messageId m \<in> set (map fst ds)"
  shows "\<exists>x. decisionView messages m = Some x \<and> status_ok ds (m_messageId m) x"
  using statuses_fold [of ds "map fst ds" "[]"] assms
  unfolding decisionView_def decision_statuses_def Let_def by (auto simp del: set_map)

lemma replaced_ids_iff:
  "i \<in> set (replaced_ids ds) \<longleftrightarrow> (\<exists>(k, m) \<in> set ds. i \<in> set (targets_of m)) \<and> map_of ds i \<noteq> None"
  by (auto simp: replaced_ids_def known_targets_def)

lemma distinct_card_filter: "distinct xs \<Longrightarrow> length (filter P xs) = card {x \<in> set xs. P x}"
  by (metis distinct_card distinct_filter set_filter)

lemma single_filter:
  assumes "distinct xs"
  shows "(if length (filter P xs) = 1 then Some (hd (filter P xs)) else None) = Some h \<longleftrightarrow> {x \<in> set xs. P x} = {h}"
proof -
  have "length (filter P xs) = 1 \<and> hd (filter P xs) = h \<longleftrightarrow> filter P xs = [h]"
    by (cases "filter P xs") auto
  also have "\<dots> \<longleftrightarrow> set (filter P xs) = {h}"
  proof
    assume one: "set (filter P xs) = {h}"
    have "length (filter P xs) = 1"
      using distinct_card [OF distinct_filter [OF assms, of P]] one by simp
    then obtain x where "filter P xs = [x]" by (metis One_nat_def length_0_conv length_Suc_conv)
    with one show "filter P xs = [h]" by simp
  qed simp
  finally show ?thesis by auto
qed

lemma update_new: "k \<notin> set (map fst xs) \<Longrightarrow> AList.update k v xs = xs @ [(k, v)]"
  by (induction xs) auto

lemma decision_map_distinct:
  assumes "distinct (map m_messageId messages)"
  shows "decision_map messages = map (\<lambda>m. (m_messageId m, m)) (filter (\<lambda>m. m_kind m = ''decision'') messages)"
proof -
  have "distinct (map fst xs @ map m_messageId ms) \<Longrightarrow>
      foldl (\<lambda>m msg. AList.update (m_messageId msg) msg m) xs ms = xs @ map (\<lambda>m. (m_messageId m, m)) ms" for xs ms
    by (induction ms arbitrary: xs) (auto simp: update_new)
  from this [of "[]" "filter (\<lambda>m. m_kind m = ''decision'') messages"] show ?thesis
    using assms by (simp add: decision_map_def distinct_map_filter)
qed

lemma component_dom:
  assumes "keyed ds" and "i \<in> set (map fst ds)"
  shows "component ds i \<subseteq> set (map fst ds)"
proof -
  have "(linked ds)\<^sup>*\<^sup>* i j \<Longrightarrow> j \<in> set (map fst ds)" for j
    by (induction rule: rtranclp_induct) (use assms(2) linked_dom [OF assms(1)] in blast)+
  then show ?thesis by (auto simp: component_def)
qed

section \<open>What the messages say of their decisions\<close>

text \<open>
  The graph the statuses are about, read off the messages: a decision names those its change replaces or
  withdraws, and two decisions are of one group when a chain of such names, in either direction, leads
  from one to the other.
\<close>

definition is_decision :: "message list \<Rightarrow> id \<Rightarrow> message \<Rightarrow> bool" where
  "is_decision messages i m \<longleftrightarrow> m \<in> set messages \<and> m_kind m = ''decision'' \<and> m_messageId m = i"

definition decision_names :: "message list \<Rightarrow> id \<Rightarrow> id \<Rightarrow> bool" where
  "decision_names messages i j \<longleftrightarrow> (\<exists>m chg. is_decision messages i m \<and> m_decisionChange m = Some chg \<and> j \<in> set (d_messageIds chg))
     \<and> (\<exists>m. is_decision messages j m)"

definition decision_group :: "message list \<Rightarrow> id \<Rightarrow> id set" where
  "decision_group messages i = {j. (\<lambda>a b. decision_names messages a b \<or> decision_names messages b a)\<^sup>*\<^sup>* i j}"

definition decision_heads :: "message list \<Rightarrow> id \<Rightarrow> id set" where
  "decision_heads messages i = {h \<in> decision_group messages i. \<nexists>k. decision_names messages k h}"

definition is_withdrawal :: "message list \<Rightarrow> id \<Rightarrow> bool" where
  "is_withdrawal messages i \<longleftrightarrow> (\<exists>m chg. is_decision messages i m \<and> m_decisionChange m = Some chg \<and> d_action chg = ''withdraw'')"

definition first_decisions :: "message list \<Rightarrow> id \<Rightarrow> id set" where
  "first_decisions messages i = {j \<in> decision_group messages i. \<exists>m. is_decision messages j m \<and> m_decisionChange m = None}"

lemma map_of_decisions:
  assumes "distinct (map m_messageId messages)"
  shows "map_of (decision_map messages) i = Some m \<longleftrightarrow> is_decision messages i m"
proof -
  have "distinct (map fst (decision_map messages))" using keyed_decision_map by (simp add: keyed_def)
  then have "map_of (decision_map messages) i = Some m \<longleftrightarrow> (i, m) \<in> set (decision_map messages)" by (simp add: map_of_eq_Some_iff)
  then show ?thesis by (auto simp: decision_map_distinct [OF assms] is_decision_def)
qed

lemma known_decision:
  "distinct (map m_messageId messages) \<Longrightarrow> map_of (decision_map messages) i \<noteq> None \<longleftrightarrow> (\<exists>m. is_decision messages i m)"
  using map_of_decisions by (metis not_None_eq)

lemma targets_iff: "j \<in> set (targets_of m) \<longleftrightarrow> (\<exists>chg. m_decisionChange m = Some chg \<and> j \<in> set (d_messageIds chg))"
  by (cases "m_decisionChange m") (simp_all add: targets_of_def)

lemma decision_names_iff:
  assumes "distinct (map m_messageId messages)"
  shows "decision_names messages i j \<longleftrightarrow> (\<exists>(k, m) \<in> set (decision_map messages). m_messageId m = i \<and> j \<in> set (known_targets (decision_map messages) m))"
proof -
  have "(\<exists>(k, m) \<in> set (decision_map messages). m_messageId m = i \<and> j \<in> set (known_targets (decision_map messages) m))
      \<longleftrightarrow> (\<exists>m. is_decision messages i m \<and> j \<in> set (targets_of m) \<and> map_of (decision_map messages) j \<noteq> None)"
    by (auto simp: decision_map_distinct [OF assms] is_decision_def known_targets_def)
  then show ?thesis unfolding known_decision [OF assms] targets_iff decision_names_def by blast
qed

lemma decision_group_component:
  assumes "distinct (map m_messageId messages)"
  shows "decision_group messages i = component (decision_map messages) i"
proof -
  have "linked (decision_map messages) = (\<lambda>a b. decision_names messages a b \<or> decision_names messages b a)"
    unfolding linked_iff decision_names_iff [OF assms] by (intro ext) blast
  then show ?thesis by (simp add: decision_group_def component_def)
qed

lemma hd_sort_Min:
  fixes xs :: "'a :: linorder list"
  assumes "xs \<noteq> []" shows "hd (sort xs) = Min (set xs)"
proof -
  obtain y ys where s: "sort xs = y # ys" using assms by (cases "sort xs") (auto dest: arg_cong [where f = set])
  then have "\<forall>z \<in> set ys. y \<le> z" using sorted_sort [of xs] by (metis sorted_simps(2))
  then have "Min (insert y (set ys)) = y" by (intro Min_eqI) auto
  moreover have "set xs = insert y (set ys)" using s by (metis list.simps(15) set_sort)
  ultimately show ?thesis by (simp add: s)
qed

section \<open>Properties\<close>

text \<open>
  C12. The status of a decision says what the decisions of the workspace say of it, in every field. It is a
  head exactly when no decision names it. Its state is \<^verbatim>\<open>withdrawn\<close> or \<^verbatim>\<open>current\<close> for a head, by
  whether it withdraws others; for another decision it is \<^verbatim>\<open>superseded\<close> when some head of its
  group decides and \<^verbatim>\<open>withdrawn\<close> when all of them withdraw. The head count counts the heads of
  the group, the group is conflicted exactly when it has not one head, the current decision is the
  only head, and the group is named by the least of its decisions that change none, or of all
  when there is no such decision. The traversal that computes it ends for every input.
\<close>

theorem decisionView_correct:
  assumes "distinct (map m_messageId messages)" and "m \<in> set messages" and "m_kind m = ''decision''"
  defines "grp \<equiv> decision_group messages (m_messageId m)" and "heads \<equiv> decision_heads messages (m_messageId m)"
    and "roots \<equiv> first_decisions messages (m_messageId m)"
  shows "\<exists>x. decisionView messages m = Some x
    \<and> (dx_isHead x \<longleftrightarrow> m_messageId m \<in> heads)
    \<and> dx_state x = (if m_messageId m \<in> heads
        then if is_withdrawal messages (m_messageId m) then ''withdrawn'' else ''current''
        else if \<exists>h \<in> heads. \<not> is_withdrawal messages h then ''superseded'' else ''withdrawn'')
    \<and> dx_headCount x = card heads \<and> (dx_conflicted x \<longleftrightarrow> card heads \<noteq> 1)
    \<and> (\<forall>h. dx_currentMessageId x = Some h \<longleftrightarrow> heads = {h})
    \<and> dx_groupId x = Min (if roots \<noteq> {} then roots else grp)"
proof -
  define ds where "ds = decision_map messages"
  have keyed: "keyed ds" by (simp add: ds_def keyed_decision_map)
  have dom: "m_messageId m \<in> set (map fst ds)"
    using assms(2, 3) decision_map_distinct [OF assms(1)] by (auto simp: ds_def)
  obtain x ids where x: "decisionView messages m = Some x" "x = group_status ds ids (m_messageId m)"
    and ids: "distinct ids" "set ids = component ds (m_messageId m)"
    using decisionView_status [OF keyed ds_def dom] by (auto simp: status_ok_def)
  have grp: "set ids = grp" using ids(2) decision_group_component [OF assms(1)] by (simp add: grp_def ds_def)
  have replaced: "i \<in> set (replaced_ids ds) \<longleftrightarrow> (\<exists>k. decision_names messages k i)" for i
    unfolding decision_names_iff [OF assms(1)] ds_def [symmetric] by (auto simp: replaced_ids_def)
  have heads: "{i \<in> set ids. i \<notin> set (replaced_ids ds)} = heads"
    unfolding grp replaced by (simp add: heads_def decision_heads_def grp_def)
  have withdraws: "withdraws ds i \<longleftrightarrow> is_withdrawal messages i" for i
    unfolding is_withdrawal_def map_of_decisions [OF assms(1), symmetric] ds_def [symmetric] withdraws_def
    by (cases "map_of ds i") (auto split: option.split)
  have roots: "set (filter (is_root ds) ids) = roots"
  proof -
    have "is_root ds i \<longleftrightarrow> (\<exists>d. is_decision messages i d \<and> m_decisionChange d = None)" for i
      unfolding map_of_decisions [OF assms(1), symmetric] ds_def [symmetric] is_root_def by (cases "map_of ds i") simp_all
    then show ?thesis unfolding roots_def first_decisions_def grp_def [symmetric] grp [symmetric] by auto
  qed
  have self: "m_messageId m \<in> set ids" by (simp add: ids(2) component_def)
  have isHead: "m_messageId m \<notin> set (replaced_ids ds) \<longleftrightarrow> m_messageId m \<in> heads" using self by (simp flip: heads)
  have count: "length (group_heads ds ids) = card heads"
    by (simp add: group_heads_def distinct_card_filter [OF ids(1)] heads)
  have deciding: "list_ex (\<lambda>j. \<not> withdraws ds j) (group_heads ds ids) \<longleftrightarrow> (\<exists>h \<in> heads. \<not> is_withdrawal messages h)"
    unfolding list_ex_iff group_heads_def set_filter heads withdraws ..
  have "ids \<noteq> []" using self by auto
  moreover have "roots = {} \<longleftrightarrow> filter (is_root ds) ids = []" unfolding roots [symmetric] by (rule set_empty)
  ultimately have named: "hd (sort (if filter (is_root ds) ids \<noteq> [] then filter (is_root ds) ids else ids)) = Min (if roots \<noteq> {} then roots else grp)"
    using roots grp by (cases "filter (is_root ds) ids = []") (simp_all add: hd_sort_Min del: set_filter)
  have "dx_currentMessageId x = Some h \<longleftrightarrow> heads = {h}" for h
    using single_filter [OF ids(1), of "\<lambda>i. i \<notin> set (replaced_ids ds)" h] heads
    by (simp add: x(2) group_status_def Let_def group_heads_def)
  moreover have "dx_isHead x \<longleftrightarrow> m_messageId m \<in> heads" "dx_headCount x = card heads" "dx_conflicted x \<longleftrightarrow> card heads \<noteq> 1"
    "dx_groupId x = Min (if roots \<noteq> {} then roots else grp)"
    by (simp_all only: x(2) group_status_def Let_def decision_status.select_convs isHead count named)
  moreover have "dx_state x = (if m_messageId m \<in> heads
        then if is_withdrawal messages (m_messageId m) then ''withdrawn'' else ''current''
        else if \<exists>h \<in> heads. \<not> is_withdrawal messages h then ''superseded'' else ''withdrawn'')"
    by (simp only: x(2) group_status_def Let_def decision_status.select_convs isHead deciding [unfolded withdraws] withdraws)
  ultimately show ?thesis using x(1) by blast
qed

text \<open>A decision, one that replaces it and one that withdraws the second.\<close>

definition sample_decisions :: "message list" where
  "sample_decisions = [sample_message ''a'' ''decision'' None,
     sample_message ''b'' ''decision'' (Some \<lparr>d_action = ''replace'', d_messageIds = [''a'']\<rparr>),
     sample_message ''c'' ''decision'' (Some \<lparr>d_action = ''withdraw'', d_messageIds = [''b'']\<rparr>)]"

lemma sample_is_decision:
  "is_decision sample_decisions i m \<longleftrightarrow> i = ''a'' \<and> m = sample_message ''a'' ''decision'' None
    \<or> i = ''b'' \<and> m = sample_message ''b'' ''decision'' (Some \<lparr>d_action = ''replace'', d_messageIds = [''a'']\<rparr>)
    \<or> i = ''c'' \<and> m = sample_message ''c'' ''decision'' (Some \<lparr>d_action = ''withdraw'', d_messageIds = [''b'']\<rparr>)"
proof -
  have three: "m \<in> set [A, B, C] \<and> m_kind m = ''decision'' \<and> m_messageId m = i
      \<longleftrightarrow> i = m_messageId A \<and> m = A \<or> i = m_messageId B \<and> m = B \<or> i = m_messageId C \<and> m = C"
    if "m_kind A = ''decision''" "m_kind B = ''decision''" "m_kind C = ''decision''" for A B C
    using that by auto
  have fields: "m_messageId (sample_message i k c) = i" "m_kind (sample_message i k c) = k" for i k c
    by (simp_all add: sample_message_def)
  show ?thesis unfolding is_decision_def sample_decisions_def by (subst three) (simp_all only: fields)
qed

lemma sample_decision_names: "decision_names sample_decisions i j \<longleftrightarrow> i = ''b'' \<and> j = ''a'' \<or> i = ''c'' \<and> j = ''b''"
proof -
  have change: "m_decisionChange (sample_message i k c) = c" for i k c by (simp add: sample_message_def)
  have "(\<exists>m. is_decision sample_decisions j m) \<longleftrightarrow> j \<in> {''a'', ''b'', ''c''}" unfolding sample_is_decision by blast
  moreover have "(\<exists>m chg. is_decision sample_decisions i m \<and> m_decisionChange m = Some chg \<and> j \<in> set (d_messageIds chg))
      \<longleftrightarrow> i = ''b'' \<and> j = ''a'' \<or> i = ''c'' \<and> j = ''b''"
    unfolding sample_is_decision by (auto simp: change)
  ultimately show ?thesis unfolding decision_names_def by auto
qed

lemma sample_decision_group: "decision_group sample_decisions ''a'' = {''a'', ''b'', ''c''}"
proof -
  let ?R = "\<lambda>a b. decision_names sample_decisions a b \<or> decision_names sample_decisions b a"
  have "?R ''a'' ''b''" "?R ''b'' ''c''" by (simp_all add: sample_decision_names)
  then have "?R\<^sup>*\<^sup>* ''a'' ''b''" "?R\<^sup>*\<^sup>* ''a'' ''c''"
    by - (erule r_into_rtranclp, erule rtranclp.rtrancl_into_rtrancl [OF r_into_rtranclp])
  moreover have "?R\<^sup>*\<^sup>* ''a'' j \<Longrightarrow> j \<in> {''a'', ''b'', ''c''}" for j
    by (induction rule: rtranclp_induct) (auto simp: sample_decision_names)
  ultimately show ?thesis by (auto simp: decision_group_def)
qed

theorem decisionView_correct_witness:
  "\<exists>x. decisionView sample_decisions (sample_message ''a'' ''decision'' None) = Some x
    \<and> \<not> dx_isHead x \<and> dx_state x = ''withdrawn'' \<and> dx_headCount x = 1 \<and> dx_currentMessageId x = Some ''c'' \<and> dx_groupId x = ''a''"
proof -
  let ?m = "sample_message ''a'' ''decision'' None"
  have i: "m_messageId ?m = ''a''" by (simp add: sample_message_def)
  have heads: "decision_heads sample_decisions ''a'' = {''c''}"
    by (auto simp: decision_heads_def sample_decision_group sample_decision_names)
  have change: "m_decisionChange (sample_message i k c) = c" for i k c by (simp add: sample_message_def)
  have roots: "first_decisions sample_decisions ''a'' = {''a''}"
    by (auto simp: first_decisions_def sample_decision_group sample_is_decision change)
  have "is_withdrawal sample_decisions ''c''" by (simp add: is_withdrawal_def sample_is_decision change)
  moreover have "distinct (map m_messageId sample_decisions)" "?m \<in> set sample_decisions" "m_kind ?m = ''decision''"
    by (simp_all add: sample_decisions_def sample_message_def)
  ultimately show ?thesis using decisionView_correct [of sample_decisions ?m] unfolding i heads roots by auto
qed

end
