(* ===== verification/Messages.thy ===== *)
theory Messages
  imports Claims Decisions
begin

text \<open>
  Messages: recording a message with its receipts, retries by the sender's own key, sending,
  and finishing a session with a handoff (\<^verbatim>\<open>packages/core/src/conversations.mjs\<close>,
  \<^verbatim>\<open>message-retry.mjs\<close>, \<^verbatim>\<open>decision-changes.mjs\<close>).

  The digest behind a receipt's identifier is a parameter, \<open>sha\<close>; what is relied on is that it
  does not collide.
\<close>

section \<open>Receipt identifiers\<close>

definition hex_digit :: "nat \<Rightarrow> char" where
  "hex_digit n = (if n < 10 then digit_char n else char_of (87 + n))"

definition json_char :: "char \<Rightarrow> string" where
  "json_char c = (let code = of_char c :: nat in
     if code = 34 then [CHR 0x5C, CHR 0x22] else if code = 92 then [CHR 0x5C, CHR 0x5C]
     else if code = 8 then [CHR 0x5C, CHR ''b''] else if code = 9 then [CHR 0x5C, CHR ''t'']
     else if code = 10 then [CHR 0x5C, CHR ''n''] else if code = 12 then [CHR 0x5C, CHR ''f'']
     else if code = 13 then [CHR 0x5C, CHR ''r'']
     else if code < 32 then [CHR 0x5C, CHR ''u'', CHR ''0'', CHR ''0'', hex_digit (code div 16), hex_digit (code mod 16)]
     else [c])"

definition json_quote :: "string \<Rightarrow> string" where
  "json_quote s = [CHR 0x22] @ concat (map json_char s) @ [CHR 0x22]"

definition receiptId :: "(string \<Rightarrow> nat list) \<Rightarrow> id \<Rightarrow> id \<Rightarrow> id" where
  "receiptId sha messageId participantId =
     ''receipt_'' @ b64url (sha (''['' @ json_quote messageId @ '','' @ json_quote participantId @ '']''))"

section \<open>Message input\<close>

record message_input =
  mi_clientMessageId :: id
  mi_toParticipantIds :: "id list option"
  mi_kind :: string
  mi_obligation :: string
  mi_subject :: string
  mi_body :: string
  mi_inReplyTo :: "id option"
  mi_artifacts :: "json list option"
  mi_handoff :: "json option"
  mi_supersedes :: "id list option"
  mi_withdraws :: "id list option"
  mi_decisionChange :: "decision_change option"

definition sessions_t :: "session list tx" where
  "sessions_t = bind_t (list_t Session) (\<lambda>rs. return_t (all_of as_session rs))"

definition participants_t :: "participant list tx" where
  "participants_t = bind_t (list_t Participant) (\<lambda>rs. return_t (all_of as_participant rs))"

definition load_message :: "id \<Rightarrow> message option tx" where
  "load_message i = bind_t (load_t Message i) (\<lambda>r. return_t (as_message r))"

definition load_receipt :: "id \<Rightarrow> receipt option tx" where
  "load_receipt i = bind_t (load_t Receipt i) (\<lambda>r. return_t (as_receipt r))"

section \<open>Addressing\<close>

definition assertCurrentSession :: "session \<Rightarrow> string \<Rightarrow> unit tx" where
  "assertCurrentSession s action =
     bind_t (get_t Session (s_sessionId s)) (\<lambda>current.
     throw_t (case as_session current of None \<Rightarrow> True
       | Some c \<Rightarrow> s_state c \<noteq> ''open'' \<or> s_generation c \<noteq> s_generation s) CONFLICT
       (''cannot '' @ action @ '' from this session generation''))"

definition peers_of :: "session list \<Rightarrow> string \<Rightarrow> id \<Rightarrow> id list" where
  "peers_of sessions name self = sort (js_uniq (map s_participantId (filter (\<lambda>x. s_state x = ''open''
     \<and> s_harness x = name \<and> s_participantId x \<noteq> self) sessions)))"

definition resolve_one :: "id list \<Rightarrow> session list \<Rightarrow> id \<Rightarrow> string \<Rightarrow> id res" where
  "resolve_one known sessions self name =
     (if name \<in> set known then Inr name
      else let peers = peers_of sessions name self
        in if length peers = 1 then Inr (hd peers)
           else if length peers > 1
           then Inl (AccError USAGE (''could not tell which of '' @ show_nat (length peers) @ '' '' @ name
             @ '' sessions you meant: '' @ join_with '', '' peers
             @ ''. Name one of them, which `acc status --json` lists.''))
           else Inr name)"

definition resolveAddressees :: "string list \<Rightarrow> session \<Rightarrow> id list tx" where
  "resolveAddressees requested s =
     bind_t participants_t (\<lambda>ps.
     bind_t sessions_t (\<lambda>ss.
     lift_t (map_r (resolve_one (map p_participantId ps) ss (s_participantId s)) requested)))"

definition addressedRecipients :: "id list \<Rightarrow> session \<Rightarrow> id list tx" where
  "addressedRecipients to s =
     (if to = []
      then bind_t sessions_t (\<lambda>ss. return_t (sort (js_uniq (map s_participantId
        (filter (\<lambda>x. s_state x = ''open'' \<and> s_participantId x \<noteq> s_participantId s) ss)))))
      else bind_t (throw_t (length (js_uniq to) \<noteq> length to) USAGE ''a participant may be addressed only once'') (\<lambda>_.
        bind_t participants_t (\<lambda>ps.
        let known = js_uniq (map p_participantId ps);
            strangers = filter (\<lambda>i. i \<notin> set known) (js_uniq to)
        in bind_t (throw_t (strangers \<noteq> []) DATA (''no participant here is called '' @ join_with '', '' strangers
             @ ''. This workspace has: ''
             @ (if known = [] then ''nobody else yet'' else join_with '', '' (sort known)))) (\<lambda>_.
           return_t (js_uniq to)))))"

definition threadFor :: "id \<Rightarrow> id option \<Rightarrow> id tx" where
  "threadFor messageId inReplyTo = (case inReplyTo of
     None \<Rightarrow> return_t messageId
   | Some parentId \<Rightarrow> bind_t (load_message parentId) (\<lambda>parent. case parent of
       None \<Rightarrow> lift_t (Inl (AccError DATA ''the message being replied to does not exist''))
     | Some p \<Rightarrow> return_t (m_threadId p)))"

section \<open>Decision changes\<close>

definition load_target :: "id \<Rightarrow> id \<Rightarrow> message tx" where
  "load_target workspaceId messageId =
     bind_t (load_message messageId) (\<lambda>found.
     let bad = lift_t (Inl (AccError DATA ''a decision change must reference existing decisions in this workspace''))
     in case found of
       None \<Rightarrow> bad
     | Some m \<Rightarrow> if m_kind m \<noteq> ''decision'' \<or> m_workspaceId m \<noteq> workspaceId then bad else return_t m)"

definition inherited_from :: "id \<Rightarrow> message \<Rightarrow> id list tx" where
  "inherited_from workspaceId m =
     bind_t (lookup_t ReceiptsByMessage [workspaceId, m_messageId m]) (\<lambda>ids.
     bind_t (map_t load_receipt ids) (\<lambda>rs.
     return_t [r_recipientParticipantId r. Some r \<leftarrow> rs,
       r_workspaceId r = workspaceId \<and> r_messageId r = m_messageId m]))"

definition prepareDecisionChange :: "message_input \<Rightarrow> session \<Rightarrow> message_input tx" where
  "prepareDecisionChange input s =
     bind_t (throw_t (mi_decisionChange input \<noteq> None) USAGE
       ''send a decision change using supersedes or withdraws'') (\<lambda>_.
     if mi_supersedes input = None \<and> mi_withdraws input = None then return_t input
     else bind_t (throw_t (mi_kind input \<noteq> ''decision'' \<or> (mi_supersedes input \<noteq> None \<and> mi_withdraws input \<noteq> None)) USAGE
         ''only decisions accept either supersedes or withdraws, never both'') (\<lambda>_.
       let change = \<lparr>d_action = (if mi_supersedes input = None then ''withdraw'' else ''replace''),
             d_messageIds = (case mi_supersedes input of Some is \<Rightarrow> is | None \<Rightarrow> or_else (mi_withdraws input) [])\<rparr>;
           sorted = change\<lparr>d_messageIds := sort (d_messageIds change)\<rparr>;
           to = or_else (mi_toParticipantIds input) []
       in bind_t (lift_t (assertDecisionChange (Some (change_json change)) ''decisionChange'')) (\<lambda>_.
          bind_t (map_t (load_target (s_workspaceId s)) (d_messageIds sorted)) (\<lambda>targets.
          bind_t (throw_t (length (js_uniq to) \<noteq> length to) USAGE ''a participant may be addressed only once'') (\<lambda>_.
          bind_t (map_t (inherited_from (s_workspaceId s)) targets) (\<lambda>inherited.
          let all = map m_fromParticipantId targets @ concat inherited
          in return_t (input\<lparr>mi_decisionChange := Some sorted,
               mi_toParticipantIds := Some (sort (js_uniq (to @ filter (\<lambda>i. i \<noteq> s_participantId s) all)))\<rparr>)))))))"

section \<open>Retries\<close>

text \<open>\<^verbatim>\<open>isDeepStrictEqual\<close> does not look at the order of an object's keys.\<close>

fun canonical :: "json \<Rightarrow> json" where
  "canonical (JArr xs) = JArr (map canonical xs)"
| "canonical (JObj kvs) = JObj (sort_key fst (map (\<lambda>(key, x). (key, canonical x)) kvs))"
| "canonical v = v"

definition same_content :: "message \<Rightarrow> message_input \<Rightarrow> bool" where
  "same_content m input \<longleftrightarrow>
     m_toParticipantIds m = or_else (mi_toParticipantIds input) [] \<and> m_kind m = mi_kind input
     \<and> m_obligation m = mi_obligation input \<and> m_subject m = mi_subject input \<and> m_body m = mi_body input
     \<and> m_inReplyTo m = mi_inReplyTo input
     \<and> map canonical (m_artifacts m) = map canonical (or_else (mi_artifacts input) [])
     \<and> map_option canonical (m_handoff m) = map_option canonical (mi_handoff input)
     \<and> m_decisionChange m = mi_decisionChange input"

definition is_retry_of :: "session \<Rightarrow> message_input \<Rightarrow> message \<Rightarrow> bool" where
  "is_retry_of s input m \<longleftrightarrow> m_workspaceId m = s_workspaceId s \<and> m_fromParticipantId m = s_participantId s
     \<and> m_clientMessageId m = mi_clientMessageId input"

fun try_candidates :: "session \<Rightarrow> message_input \<Rightarrow> id list \<Rightarrow> message option tx" where
  "try_candidates s input [] = return_t None"
| "try_candidates s input (i # is) =
     bind_t (load_message i) (\<lambda>found. case found of
       None \<Rightarrow> try_candidates s input is
     | Some m \<Rightarrow> if \<not> is_retry_of s input m then try_candidates s input is
         else if \<not> same_content m input
         then lift_t (Inl (AccError CONFLICT ''clientMessageId was already used with different message content''))
         else return_t (Some m))"

definition findMessageRetry :: "session \<Rightarrow> message_input \<Rightarrow> message option tx" where
  "findMessageRetry s input =
     bind_t (lookup_t MessageByClientKey [s_workspaceId s, s_participantId s, mi_clientMessageId input])
       (try_candidates s input)"

section \<open>Recording a message\<close>

definition new_receipt :: "message \<Rightarrow> id \<Rightarrow> time \<Rightarrow> receipt" where
  "new_receipt m participantId now = \<lparr>r_messageId = m_messageId m, r_workspaceId = m_workspaceId m,
     r_recipientParticipantId = participantId, r_state = ''queued'', r_updatedAt = now,
     r_extensions = Some [(''obligation'', JStr (m_obligation m))]\<rparr>"

definition put_receipt :: "(string \<Rightarrow> nat list) \<Rightarrow> message \<Rightarrow> time \<Rightarrow> id \<Rightarrow> unit tx" where
  "put_receipt sha m now participantId =
     (let i = receiptId sha (m_messageId m) participantId
      in bind_t (load_t Receipt i) (\<lambda>_.
         bind_t (put_t Receipt i (ReceiptR (new_receipt m participantId now)) None) (\<lambda>_. return_t ())))"

record recorded =
  rc_message :: message
  rc_recipients :: "id list"
  rc_created :: bool

definition new_message :: "message_input \<Rightarrow> session \<Rightarrow> id \<Rightarrow> id \<Rightarrow> time \<Rightarrow> message" where
  "new_message input s messageId threadId now = \<lparr>m_messageId = messageId, m_threadId = threadId,
     m_clientMessageId = mi_clientMessageId input, m_workspaceId = s_workspaceId s,
     m_fromParticipantId = s_participantId s, m_fromSessionId = s_sessionId s,
     m_toParticipantIds = or_else (mi_toParticipantIds input) [], m_kind = mi_kind input,
     m_obligation = mi_obligation input, m_subject = mi_subject input, m_body = mi_body input,
     m_inReplyTo = mi_inReplyTo input, m_artifacts = or_else (mi_artifacts input) [],
     m_handoff = mi_handoff input, m_decisionChange = mi_decisionChange input, m_sentAt = now,
     m_extensions = None\<rparr>"

definition create_message :: "(string \<Rightarrow> nat list) \<Rightarrow> session \<Rightarrow> message_input \<Rightarrow> time \<Rightarrow> id \<Rightarrow> recorded tx" where
  "create_message sha s input now messageId =
     bind_t (threadFor messageId (mi_inReplyTo input)) (\<lambda>threadId.
     let m = new_message input s messageId threadId now
     in bind_t (lift_t (validate Message (MessageR m))) (\<lambda>_.
        bind_t (addressedRecipients (m_toParticipantIds m) s) (\<lambda>recipients.
        bind_t (load_t Message messageId) (\<lambda>_.
        bind_t (put_t Message messageId (MessageR m) None) (\<lambda>_.
        bind_t (each_t (put_receipt sha m now) recipients) (\<lambda>_.
        bind_t (append_event (s_workspaceId s) (s_sessionId s) ''message.recorded'' now
          [(''messageId'', JStr messageId), (''threadId'', JStr threadId),
           (''recipientParticipantIds'', strings_json recipients)]) (\<lambda>_.
        return_t \<lparr>rc_message = m, rc_recipients = recipients, rc_created = True\<rparr>)))))))"

definition recordMessageInTransaction :: "(string \<Rightarrow> nat list) \<Rightarrow> session \<Rightarrow> message_input \<Rightarrow> time \<Rightarrow> id \<Rightarrow> string
    \<Rightarrow> recorded tx" where
  "recordMessageInTransaction sha s raw now messageId action =
     bind_t (assertCurrentSession s action) (\<lambda>_.
     bind_t (resolveAddressees (or_else (mi_toParticipantIds raw) []) s) (\<lambda>to.
     bind_t (prepareDecisionChange (raw\<lparr>mi_toParticipantIds := Some to\<rparr>) s) (\<lambda>input.
     bind_t (findMessageRetry s input) (\<lambda>existing.
     case existing of
       Some m \<Rightarrow> return_t \<lparr>rc_message = m, rc_recipients = [], rc_created = False\<rparr>
     | None \<Rightarrow> create_message sha s input now messageId))))"

section \<open>Sending\<close>

definition requireSession :: "id \<Rightarrow> id option \<Rightarrow> id \<Rightarrow> string \<Rightarrow> store \<Rightarrow> session res" where
  "requireSession sessionId workspaceId generation action st =
     bind_r (locate st sessionId workspaceId) (\<lambda>located. case located of
       None \<Rightarrow> Inl (AccError CONFLICT (''cannot '' @ action @ '' from this session generation''))
     | Some (s, _) \<Rightarrow> if s_generation s \<noteq> generation \<or> s_state s \<noteq> ''open''
         then Inl (AccError CONFLICT (''cannot '' @ action @ '' from this session generation'')) else Inr s)"

definition MESSAGE_TX :: "kind list" where
  "MESSAGE_TX = [Participant, Session, Message, Receipt]"

definition send_tx :: "(string \<Rightarrow> nat list) \<Rightarrow> session \<Rightarrow> message_input \<Rightarrow> time \<Rightarrow> message tx" where
  "send_tx sha s input now =
     bind_t (next_id ''message'') (\<lambda>messageId.
     bind_t (recordMessageInTransaction sha s input now messageId ''send a message'') (\<lambda>r.
     return_t (rc_message r)))"

definition sendMessage :: "(string \<Rightarrow> nat list) \<Rightarrow> id \<Rightarrow> id option \<Rightarrow> id \<Rightarrow> message_input \<Rightarrow> descriptor option
    \<Rightarrow> time \<Rightarrow> time \<Rightarrow> message svc" where
  "sendMessage sha sessionId workspaceId generation input d earlier now =
     bind_s (read_s (requireSession sessionId workspaceId generation ''send a message'')) (\<lambda>s.
     bind_s (ensureMaterialised (s_workspaceId s) d ''durable_object'' earlier) (\<lambda>_.
     step_s (transaction (Some MESSAGE_TX) [Message, Receipt] (send_tx sha s input now))))"

section \<open>Finishing\<close>

record handoff =
  ho_status :: string
  ho_completed :: "string list"
  ho_remaining :: "string list"
  ho_blockers :: "string list"
  ho_verification :: "json list"

definition handoff_json :: "handoff \<Rightarrow> json" where
  "handoff_json h = JObj [(''status'', JStr (ho_status h)), (''completed'', strings_json (ho_completed h)),
     (''remaining'', strings_json (ho_remaining h)), (''blockers'', strings_json (ho_blockers h)),
     (''verification'', JArr (ho_verification h))]"

definition body_section :: "string \<Rightarrow> string list \<Rightarrow> string list" where
  "body_section label items = (if items = [] then [] else (label @ '':'') # map (\<lambda>i. ''- '' @ i) items)"

definition handoffBody :: "string \<Rightarrow> handoff \<Rightarrow> string" where
  "handoffBody goal h = join_with [CHR 0x0A] ([goal, ho_status h] @ body_section ''completed'' (ho_completed h)
     @ body_section ''remaining'' (ho_remaining h) @ body_section ''blockers'' (ho_blockers h))"

record finish_input =
  fi_clientMessageId :: id
  fi_toParticipantId :: "id option"
  fi_goal :: string
  fi_status :: "string option"
  fi_completed :: "string list option"
  fi_remaining :: "string list option"
  fi_blockers :: "string list option"
  fi_verification :: "json list option"
  fi_artifacts :: "json list option"

definition finish_handoff :: "finish_input \<Rightarrow> handoff" where
  "finish_handoff input = \<lparr>ho_status = or_else (fi_status input) ''partial'',
     ho_completed = or_else (fi_completed input) [], ho_remaining = or_else (fi_remaining input) [],
     ho_blockers = or_else (fi_blockers input) [], ho_verification = or_else (fi_verification input) []\<rparr>"

definition finish_message :: "finish_input \<Rightarrow> message_input" where
  "finish_message input = \<lparr>mi_clientMessageId = fi_clientMessageId input,
     mi_toParticipantIds = Some (case fi_toParticipantId input of None \<Rightarrow> [] | Some p \<Rightarrow> [p]),
     mi_kind = ''handoff'', mi_obligation = (if fi_toParticipantId input = None then ''none'' else ''acknowledge''),
     mi_subject = fi_goal input, mi_body = handoffBody (fi_goal input) (finish_handoff input), mi_inReplyTo = None,
     mi_artifacts = Some (or_else (fi_artifacts input) []), mi_handoff = Some (handoff_json (finish_handoff input)),
     mi_supersedes = None, mi_withdraws = None, mi_decisionChange = None\<rparr>"

definition finish_release :: "session \<Rightarrow> time \<Rightarrow> claim \<Rightarrow> unit tx" where
  "finish_release s now c =
     bind_t (generationOf Claim (c_claimId c)) (\<lambda>g.
     bind_t (remove_t Claim (c_claimId c) g) (\<lambda>_.
     append_event (s_workspaceId s) (s_sessionId s) ''claim.released'' now
       [(''claimId'', JStr (c_claimId c)), (''authority'', JNull), (''reason'', JNull),
        (''replacedGeneration'', JStr (c_generation c))]))"

text \<open>What one transaction of \<^verbatim>\<open>finishSession\<close> returns: a retry, or what it finished.\<close>

datatype finish_outcome = FinishRetry message session | Finished message "claim list" session

definition finish_error :: acc_error where
  "finish_error = AccError CONFLICT ''cannot finish from this session generation''"

definition finish_new :: "(string \<Rightarrow> nat list) \<Rightarrow> session \<Rightarrow> session \<Rightarrow> finish_input \<Rightarrow> time \<Rightarrow> finish_outcome tx" where
  "finish_new sha s current input now =
     bind_t claims_t (\<lambda>cs.
     let released = filter (\<lambda>c. c_ownerSessionId c = s_sessionId s) cs in
     bind_t (next_id ''message'') (\<lambda>messageId.
     bind_t (recordMessageInTransaction sha s (finish_message input) now messageId ''finish'') (\<lambda>r.
     bind_t (each_t (finish_release s now) released) (\<lambda>_.
     let closed = current\<lparr>s_state := ''closed'', s_heartbeatAt := now\<rparr> in
     bind_t (generationOf Session (s_sessionId s)) (\<lambda>g.
     bind_t (put_t Session (s_sessionId s) (SessionR closed) g) (\<lambda>_.
     bind_t (append_event (s_workspaceId s) (s_sessionId s) ''session.closed'' now
       [(''cause'', JStr ''finish''), (''messageId'', JStr (m_messageId (rc_message r))),
        (''sessionGeneration'', JStr (s_generation s)),
        (''releasedClaimIds'', strings_json (map c_claimId released))]) (\<lambda>_.
     return_t (Finished (rc_message r) released closed))))))))"

definition finish_tx :: "(string \<Rightarrow> nat list) \<Rightarrow> session \<Rightarrow> finish_input \<Rightarrow> time \<Rightarrow> finish_outcome tx" where
  "finish_tx sha s input now =
     bind_t (get_t Session (s_sessionId s)) (\<lambda>durable. case as_session durable of
       None \<Rightarrow> lift_t (Inl finish_error)
     | Some current \<Rightarrow>
         bind_t (lift_t (if s_generation current \<noteq> s_generation s then Inl finish_error else Inr ())) (\<lambda>_.
         bind_t (resolveAddressees (or_else (mi_toParticipantIds (finish_message input)) []) s) (\<lambda>to.
         bind_t (findMessageRetry s ((finish_message input)\<lparr>mi_toParticipantIds := Some to\<rparr>)) (\<lambda>existing.
         case existing of
           Some m \<Rightarrow> bind_t (throw_t (m_fromSessionId m \<noteq> s_sessionId s) CONFLICT
               ''clientMessageId belongs to a different finish generation'') (\<lambda>_.
             return_t (FinishRetry m current))
         | None \<Rightarrow> bind_t (lift_t (if s_state current \<noteq> ''open'' then Inl finish_error else Inr ())) (\<lambda>_.
             finish_new sha s current input now)))))"

section \<open>Shape of the transactions\<close>

lemma lawful_lists [lawful_intros]: "lawful sessions_t" "lawful participants_t" "lawful claims_t"
  unfolding sessions_t_def participants_t_def claims_t_def by (intro lawful_intros)+

lemma lawful_loads [lawful_intros]: "lawful (load_message i)" "lawful (load_receipt i)"
  unfolding load_message_def load_receipt_def by (intro lawful_intros; simp)+

lemma lawful_addressing [lawful_intros]: "lawful (assertCurrentSession s a)" "lawful (resolveAddressees r s)"
  "lawful (addressedRecipients to s)" "lawful (threadFor i parent)" "lawful (load_target w i)" "lawful (inherited_from w m)"
  unfolding assertCurrentSession_def resolveAddressees_def addressedRecipients_def threadFor_def load_target_def
    inherited_from_def
  by (intro lawful_intros)+

lemma lawful_prepare [lawful_intros]: "lawful (prepareDecisionChange input s)"
  unfolding prepareDecisionChange_def by (intro lawful_intros)

lemma lawful_candidates [lawful_intros]: "lawful (try_candidates s input is)"
  by (induction "is") (auto intro!: lawful_intros)

lemma lawful_retry [lawful_intros]: "lawful (findMessageRetry s input)"
  unfolding findMessageRetry_def by (intro lawful_intros)

lemma lawful_put_receipt [lawful_intros]: "lawful (put_receipt sha m now i)"
  unfolding put_receipt_def by (intro lawful_intros) simp_all

lemma lawful_record [lawful_intros]: "lawful (recordMessageInTransaction sha s raw now messageId action)"
  unfolding recordMessageInTransaction_def create_message_def by (intro lawful_intros) simp_all

lemma lawful_send: "lawful (send_tx sha s input now)"
  unfolding send_tx_def by (intro lawful_intros)

lemma lawful_finish: "lawful (finish_tx sha s input now)"
  unfolding finish_tx_def finish_new_def finish_release_def by (intro lawful_intros) simp_all

lemma adds_lists [adds_intros]: "adds k P sessions_t" "adds k P participants_t" "adds k P claims_t"
  unfolding sessions_t_def participants_t_def claims_t_def by (intro adds_intros)+

lemma adds_loads [adds_intros]: "adds k P (load_message i)" "adds k P (load_receipt i)"
  unfolding load_message_def load_receipt_def by (intro adds_intros; simp)+

lemma adds_addressing [adds_intros]: "adds k P (assertCurrentSession s a)" "adds k P (resolveAddressees r s)"
  "adds k P (addressedRecipients to s)" "adds k P (threadFor i parent)" "adds k P (load_target w i)"
  "adds k P (inherited_from w m)"
  unfolding assertCurrentSession_def resolveAddressees_def addressedRecipients_def threadFor_def load_target_def
    inherited_from_def
  by (intro adds_intros)+

lemma adds_prepare [adds_intros]: "adds k P (prepareDecisionChange input s)"
  unfolding prepareDecisionChange_def by (intro adds_intros)

lemma adds_candidates [adds_intros]: "adds k P (try_candidates s input is)"
  by (induction "is") (auto intro!: adds_intros)

lemma adds_retry [adds_intros]: "adds k P (findMessageRetry s input)"
  unfolding findMessageRetry_def by (intro adds_intros)

lemma adds_record [adds_intros]:
  "k \<noteq> Message \<Longrightarrow> k \<noteq> Receipt \<Longrightarrow> adds k P (recordMessageInTransaction sha s raw now messageId action)"
  unfolding recordMessageInTransaction_def create_message_def put_receipt_def by (intro adds_intros) simp_all

lemma adds_finish_claims: "adds Claim (\<lambda>_. False) (finish_tx sha s input now)"
  unfolding finish_tx_def finish_new_def finish_release_def by (intro adds_intros) simp_all

end
