(* ===== verification/Receipts.thy ===== *)
theory Receipts
  imports Messages
begin

text \<open>
  Receipts and live offers: \<^verbatim>\<open>packages/core/src/receipts.mjs\<close>. A receipt says how far one
  recipient got with one message; an offer says which transport last took the message's bytes.
  The facts of an offer are kept in the receipt's extensions, and its times are the ones
  \<^verbatim>\<open>toISOString\<close> writes.

  The last section shows that no transaction of messages or receipts takes a receipt back or
  edits a message.
\<close>

section \<open>Facts of a receipt\<close>

definition REPEAT_OFFER_AFTER_MS :: int where
  "REPEAT_OFFER_AFTER_MS = 15 * 60 * 1000"

definition publicReceipt :: "receipt \<Rightarrow> receipt" where
  "publicReceipt r =
     (if extension (r_extensions r) ''obligation'' = None then r
      else let kept = (case r_extensions r of None \<Rightarrow> [] | Some kvs \<Rightarrow> filter (\<lambda>(key, _). key \<noteq> ''obligation'') kvs)
        in r\<lparr>r_extensions := (if kept = [] then None else Some kept)\<rparr>)"

record offer =
  o_transport :: string
  o_at :: string
  o_repeatedAt :: "string option"

text \<open>
  The time of an offer counts when it has the form the services write it in. \<^verbatim>\<open>Date.parse\<close> reads other
  forms too, which only a record written by another program could hold; those are no offers here.
\<close>

definition offerFacts :: "receipt \<Rightarrow> offer option" where
  "offerFacts r = (case extension (r_extensions r) ''offer'' of
     Some (JObj kvs) \<Rightarrow> (case (map_of kvs ''transport'', map_of kvs ''at'') of
         (Some (JStr transport), Some (JStr at)) \<Rightarrow>
           if \<not> canonical_timestamp at then None
           else Some \<lparr>o_transport = transport, o_at = at,
             o_repeatedAt = (case map_of kvs ''repeatedAt'' of None \<Rightarrow> None | Some JNull \<Rightarrow> None | Some v \<Rightarrow> Some (js_string (Some v)))\<rparr>
       | _ \<Rightarrow> None)
   | _ \<Rightarrow> None)"

definition liveAndUnrepeated :: "offer \<Rightarrow> bool" where
  "liveAndUnrepeated x \<longleftrightarrow> o_transport x \<noteq> ''next-turn'' \<and> o_repeatedAt x = None"

definition dueForRepeat :: "message \<Rightarrow> receipt \<Rightarrow> time \<Rightarrow> bool" where
  "dueForRepeat m r now \<longleftrightarrow> m_toParticipantIds m \<noteq> [] \<and> r_state r = ''offered''
     \<and> (case offerFacts r of None \<Rightarrow> False
        | Some x \<Rightarrow> liveAndUnrepeated x \<and> now - date_parse (o_at x) \<ge> REPEAT_OFFER_AFTER_MS)"

definition awaitsNextTurn :: "receipt \<Rightarrow> bool" where
  "awaitsNextTurn r =
     (if r_state r = ''queued'' then True
      else if r_state r \<noteq> ''offered'' then False
      else case offerFacts r of None \<Rightarrow> True | Some x \<Rightarrow> liveAndUnrepeated x)"

definition SAFE_OFFER_ERROR_CODES :: "string list" where
  "SAFE_OFFER_ERROR_CODES = [''ambiguous_recipient_sessions'', ''delivery_disabled'', ''recipient_busy'',
     ''recipient_unavailable'', ''transport_error'', ''transport_rejected'', ''transport_permission_denied'',
     ''unsupported_client_version'']"

section \<open>Reading and recording offers\<close>

definition missingReceipt :: acc_error where
  "missingReceipt = AccError CONFLICT ''no receipt exists for that recipient''"

definition requireReceipt :: "(string \<Rightarrow> nat list) \<Rightarrow> id \<Rightarrow> id \<Rightarrow> (message \<times> receipt) tx" where
  "requireReceipt sha messageId recipient =
     bind_t (get_t Receipt (receiptId sha messageId recipient)) (\<lambda>r. case as_receipt r of
       None \<Rightarrow> lift_t (Inl missingReceipt)
     | Some receipt \<Rightarrow> bind_t (get_t Message messageId) (\<lambda>m. case as_message m of
         None \<Rightarrow> lift_t (Inl missingReceipt)
       | Some message \<Rightarrow> return_t (message, receipt)))"

definition loadReceipt :: "(string \<Rightarrow> nat list) \<Rightarrow> id \<Rightarrow> id \<Rightarrow> unit tx" where
  "loadReceipt sha messageId recipient =
     bind_t (load_t Receipt (receiptId sha messageId recipient)) (\<lambda>_.
     bind_t (load_t Message messageId) (\<lambda>_. return_t ()))"

record offer_input =
  of_messageId :: id
  of_recipient :: id
  of_targetSessionId :: id
  of_targetGeneration :: id
  of_transport :: string
  of_adapterId :: string
  of_clientVersion :: string
  of_repeat :: bool
  of_safeErrorCode :: string

definition requireOfferableReceipt :: "(string \<Rightarrow> nat list) \<Rightarrow> offer_input \<Rightarrow> bool \<Rightarrow> (message \<times> receipt) tx" where
  "requireOfferableReceipt sha input allowRoomNextTurn =
     bind_t (requireReceipt sha (of_messageId input) (of_recipient input)) (\<lambda>(m, r).
     bind_t (throw_t (m_toParticipantIds m = [] \<and> (\<not> allowRoomNextTurn \<or> of_transport input \<noteq> ''next-turn'')) CONFLICT
       ''room messages are not eligible for live offers'') (\<lambda>_.
     return_t (m, r)))"

definition requireTarget :: "offer_input \<Rightarrow> bool \<Rightarrow> session tx" where
  "requireTarget input mustBeOpen =
     bind_t (get_t Session (of_targetSessionId input)) (\<lambda>target.
     let bad = lift_t (Inl (AccError CONFLICT ''the offer target is not this recipient's session generation''))
     in case as_session target of
       None \<Rightarrow> bad
     | Some s \<Rightarrow> if (mustBeOpen \<and> s_state s \<noteq> ''open'') \<or> s_participantId s \<noteq> of_recipient input
           \<or> s_generation s \<noteq> of_targetGeneration input then bad else return_t s)"

definition offer_payload :: "offer_input \<Rightarrow> fields" where
  "offer_payload input = [(''messageId'', JStr (of_messageId input)), (''recipientParticipantId'', JStr (of_recipient input)),
     (''targetSessionId'', JStr (of_targetSessionId input)), (''targetGeneration'', JStr (of_targetGeneration input)),
     (''transport'', JStr (of_transport input)), (''adapterId'', JStr (of_adapterId input)),
     (''clientVersion'', JStr (of_clientVersion input))]"

text \<open>A write of a receipt that was read in this transaction, with the event that says so.\<close>

definition write_receipt :: "id \<Rightarrow> receipt \<Rightarrow> unit tx \<Rightarrow> receipt tx" where
  "write_receipt i r report =
     bind_t (generationOf Receipt i) (\<lambda>g.
     bind_t (put_t Receipt i (ReceiptR r) g) (\<lambda>_.
     bind_t report (\<lambda>_. return_t r)))"

definition repeated_offer :: "receipt \<Rightarrow> time \<Rightarrow> receipt" where
  "repeated_offer r now = r\<lparr>r_extensions := set_extension ''offer''
     (JObj (AList.update ''repeatedAt'' (time_json now) (fields_of (extension (r_extensions r) ''offer'')))) (r_extensions r)\<rparr>"

definition first_offer :: "receipt \<Rightarrow> string \<Rightarrow> time \<Rightarrow> string \<Rightarrow> receipt" where
  "first_offer r state now transport = r\<lparr>r_state := state, r_updatedAt := now,
     r_extensions := set_extension ''offer'' (JObj [(''transport'', JStr transport), (''at'', time_json now),
       (''repeatedAt'', JNull)]) (r_extensions r)\<rparr>"

text \<open>What a success does to the receipt it found, for the open target session.\<close>

definition record_success :: "(string \<Rightarrow> nat list) \<Rightarrow> offer_input \<Rightarrow> time \<Rightarrow> message \<Rightarrow> receipt \<Rightarrow> session \<Rightarrow> receipt tx" where
  "record_success sha input now m r target =
     (let i = receiptId sha (of_messageId input) (of_recipient input);
          success = (\<lambda>extra. append_event (r_workspaceId r) (s_sessionId target) ''message.offer_succeeded'' now
            (offer_payload input @ extra))
      in if of_repeat input
         then (if \<not> dueForRepeat m r now then return_t r
               else write_receipt i (repeated_offer r now) (success [(''repeat'', JBool True)]))
         else if r_state r \<noteq> ''queued'' then return_t r
         else bind_t (lift_t (advanceReceipt (r_state r) ''offered'')) (\<lambda>state.
           write_receipt i (first_offer r state now (of_transport input)) (success [])))"

definition offer_succeeded_tx :: "(string \<Rightarrow> nat list) \<Rightarrow> offer_input \<Rightarrow> time \<Rightarrow> receipt tx" where
  "offer_succeeded_tx sha input now =
     bind_t (loadReceipt sha (of_messageId input) (of_recipient input)) (\<lambda>_.
     bind_t (load_t Session (of_targetSessionId input)) (\<lambda>_.
     bind_t (requireOfferableReceipt sha input True) (\<lambda>(m, r).
     bind_t (requireTarget input True) (\<lambda>target.
     record_success sha input now m r target))))"

definition OFFER_TX :: "kind list" where
  "OFFER_TX = [Session, Message, Receipt]"

definition recordOfferSucceeded :: "(string \<Rightarrow> nat list) \<Rightarrow> offer_input \<Rightarrow> time \<Rightarrow> receipt svc" where
  "recordOfferSucceeded sha input now =
     (if of_repeat input \<and> of_transport input \<noteq> ''next-turn''
      then lift_s (Inl (AccError DATA ''a repeated offer travels only through the next turn''))
      else bind_s (step_s (transaction (Some OFFER_TX) OFFER_TX (offer_succeeded_tx sha input now))) (\<lambda>r.
        return_s (publicReceipt r)))"

definition offer_failed_tx :: "(string \<Rightarrow> nat list) \<Rightarrow> offer_input \<Rightarrow> time \<Rightarrow> unit tx" where
  "offer_failed_tx sha input now =
     bind_t (loadReceipt sha (of_messageId input) (of_recipient input)) (\<lambda>_.
     bind_t (load_t Session (of_targetSessionId input)) (\<lambda>_.
     bind_t (requireOfferableReceipt sha input False) (\<lambda>(_, r).
     bind_t (requireTarget input False) (\<lambda>target.
     append_event (r_workspaceId r) (s_sessionId target) ''message.offer_failed'' now
       ([(''messageId'', JStr (of_messageId input)), (''recipientParticipantId'', JStr (of_recipient input)),
         (''targetSessionId'', JStr (s_sessionId target)), (''targetGeneration'', JStr (s_generation target)),
         (''transport'', JStr (of_transport input)), (''adapterId'', JStr (of_adapterId input)),
         (''clientVersion'', JStr (of_clientVersion input)), (''safeErrorCode'', JStr (of_safeErrorCode input))])))))"

definition recordOfferFailed :: "(string \<Rightarrow> nat list) \<Rightarrow> offer_input \<Rightarrow> time \<Rightarrow> unit svc" where
  "recordOfferFailed sha input now =
     (if of_safeErrorCode input \<notin> set SAFE_OFFER_ERROR_CODES
      then lift_s (Inl (AccError DATA ''safeErrorCode is not in the closed offer error set''))
      else step_s (transaction (Some OFFER_TX) OFFER_TX (offer_failed_tx sha input now)))"

definition read_receipt_tx :: "(string \<Rightarrow> nat list) \<Rightarrow> id \<Rightarrow> id \<Rightarrow> receipt tx" where
  "read_receipt_tx sha messageId recipient =
     bind_t (loadReceipt sha messageId recipient) (\<lambda>_.
     bind_t (requireReceipt sha messageId recipient) (\<lambda>(_, r). return_t r))"

definition readReceipt :: "(string \<Rightarrow> nat list) \<Rightarrow> id \<Rightarrow> id \<Rightarrow> receipt svc" where
  "readReceipt sha messageId recipient =
     bind_s (step_s (transaction (Some [Message, Receipt]) [Message, Receipt] (read_receipt_tx sha messageId recipient)))
       (\<lambda>r. return_s (publicReceipt r))"

section \<open>Shape of the transactions\<close>

lemma lawful_receipts [lawful_intros]: "lawful (requireReceipt sha m p)" "lawful (loadReceipt sha m p)"
  "lawful (requireTarget input b)" "lawful (requireOfferableReceipt sha input b)"
  unfolding requireOfferableReceipt_def requireReceipt_def loadReceipt_def requireTarget_def
  by (intro lawful_intros; simp)+

lemma lawful_write_receipt [lawful_intros]: "lawful report \<Longrightarrow> lawful (write_receipt i r report)"
  unfolding write_receipt_def by (intro lawful_intros) simp_all

lemma lawful_offer_succeeded: "lawful (offer_succeeded_tx sha input now)"
  unfolding offer_succeeded_tx_def record_success_def by (intro lawful_intros) simp_all

lemma lawful_offer_failed: "lawful (offer_failed_tx sha input now)"
  unfolding offer_failed_tx_def by (intro lawful_intros) simp_all

lemma lawful_read_receipt: "lawful (read_receipt_tx sha messageId recipient)"
  unfolding read_receipt_tx_def by (intro lawful_intros)

section \<open>Receipts move forward and messages stay as they were written\<close>

definition state_forward :: "string \<Rightarrow> string \<Rightarrow> bool" where
  "state_forward a b \<longleftrightarrow> a = b \<or> (case (map_of RECEIPT_STATES a, map_of RECEIPT_STATES b) of
     (Some c, Some n) \<Rightarrow> receipt_rank c \<le> receipt_rank n | _ \<Rightarrow> False)"

definition same_receipt :: "receipt \<Rightarrow> receipt \<Rightarrow> bool" where
  "same_receipt r r' \<longleftrightarrow> r_messageId r' = r_messageId r \<and> r_workspaceId r' = r_workspaceId r
     \<and> r_recipientParticipantId r' = r_recipientParticipantId r"

text \<open>A receipt is never removed, names what it named, and its state never goes back.\<close>

fun receipt_forward :: "entity option \<Rightarrow> entity option \<Rightarrow> bool" where
  "receipt_forward None b = True"
| "receipt_forward (Some (ReceiptR r)) (Some (ReceiptR r')) = (same_receipt r r' \<and> state_forward (r_state r) (r_state r'))"
| "receipt_forward (Some a) b = (b = Some a)"

text \<open>A record that exists is neither edited nor removed.\<close>

definition unedited :: "entity option \<Rightarrow> entity option \<Rightarrow> bool" where
  "unedited a b \<longleftrightarrow> a = None \<or> b = a"

lemma state_forward_refl [simp]: "state_forward a a"
  by (simp add: state_forward_def)

lemma state_forward_trans: "state_forward a b \<Longrightarrow> state_forward b c \<Longrightarrow> state_forward a c"
  by (auto simp: state_forward_def split: option.splits)

lemma known_state_name [simp]: "map_of RECEIPT_STATES (state_name s) = Some s"
  by (cases s) (simp_all add: RECEIPT_STATES_def)

lemma state_forward_advance: "advanceReceipt a b = Inr c \<Longrightarrow> state_forward a c"
  by (auto simp: advanceReceipt_def state_forward_def bind_r_eq_Inr advance_ok split: option.splits)

lemma same_receipt_refl [simp]: "same_receipt r r"
  by (simp add: same_receipt_def)

lemma receipt_forward_refl: "receipt_forward a a"
  by (cases a; cases "the a") simp_all

lemma receipt_forward_trans: "receipt_forward a b \<Longrightarrow> receipt_forward b c \<Longrightarrow> receipt_forward a c"
proof (cases a)
  case (Some e)
  assume "receipt_forward a b" "receipt_forward b c"
  with Some show ?thesis
    by (cases e; cases b; cases c; cases "the b"; cases "the c") (auto simp: same_receipt_def intro: state_forward_trans)
qed simp

interpretation receipt_order: record_order receipt_forward
  by unfold_locales (simp_all add: receipt_forward_refl receipt_forward_trans)

interpretation message_order: record_order unedited
  by unfold_locales (auto simp: unedited_def)

context record_order
begin

lemma moves_append_event: "moves R k (append_event w a t now p)"
  unfolding append_event_def by (intro moves_intros)

lemma moves_readers: "moves R k sessions_t" "moves R k participants_t" "moves R k claims_t" "moves R k (load_message i)"
  "moves R k (load_receipt i)" "moves R k (assertCurrentSession s act)" "moves R k (resolveAddressees rs s)"
  "moves R k (addressedRecipients to s)" "moves R k (threadFor i parent)" "moves R k (load_target w i)"
  "moves R k (inherited_from w m)" "moves R k (requireReceipt sha i p)" "moves R k (loadReceipt sha i p)"
  "moves R k (requireTarget input b)"
  unfolding sessions_t_def participants_t_def claims_t_def load_message_def load_receipt_def assertCurrentSession_def
    resolveAddressees_def addressedRecipients_def threadFor_def load_target_def inherited_from_def requireReceipt_def
    loadReceipt_def requireTarget_def
  by (intro moves_intros; simp)+

lemma moves_candidates: "moves R k (try_candidates s input is)"
  by (induction "is") (auto intro!: moves_intros moves_readers)

lemma moves_prepare: "moves R k (prepareDecisionChange input s)" "moves R k (findMessageRetry s input)"
  "moves R k (requireOfferableReceipt sha oi b)"
  unfolding prepareDecisionChange_def findMessageRetry_def requireOfferableReceipt_def
  by (intro moves_intros moves_readers moves_candidates)+

text \<open>A recorded message and its receipts are new records.\<close>

lemma moves_put_receipt:
  assumes "k = Message \<or> k = Receipt"
  shows "moves R k (put_receipt sha m now p)"
proof -
  have "moves R k (put_t Receipt i r None)" for i r
    using assms moves_put_new [of Receipt i r] moves_put_other [of Receipt Message i r None] by auto
  then show ?thesis unfolding put_receipt_def by (intro moves_intros) simp_all
qed

lemma moves_record:
  assumes "k = Message \<or> k = Receipt"
  shows "moves R k (recordMessageInTransaction sha s raw now messageId act)"
proof -
  have "moves R k (put_t Message i r None)" for i r
    using assms moves_put_new [of Message i r] moves_put_other [of Message Receipt i r None] by auto
  then show ?thesis
    unfolding recordMessageInTransaction_def create_message_def
    by (intro moves_intros moves_readers moves_prepare moves_put_receipt [OF assms] moves_append_event) simp_all
qed

lemma moves_send: "k = Message \<or> k = Receipt \<Longrightarrow> moves R k (send_tx sha s input now)"
  unfolding send_tx_def by (intro moves_intros moves_record)

lemma moves_finish:
  assumes "k = Message \<or> k = Receipt"
  shows "moves R k (finish_tx sha s input now)"
  unfolding finish_tx_def finish_new_def finish_release_def
  by (intro moves_intros moves_put_other moves_readers moves_prepare moves_record [OF assms] moves_append_event) (use assms in auto)

lemma moves_offer_failed: "moves R k (offer_failed_tx sha input now)"
  unfolding offer_failed_tx_def by (intro moves_intros moves_readers moves_prepare moves_append_event) simp_all

lemma moves_write_receipt_other: "k \<noteq> Receipt \<Longrightarrow> moves R k report \<Longrightarrow> moves R k (write_receipt i r report)"
  unfolding write_receipt_def by (intro moves_intros moves_put_other) simp_all

end

lemma write_receipt_forward:
  assumes run: "write_receipt i r' report u = Inr (y, w)" and ok: "view_ok u"
    and before: "sees u (Receipt, i) = Some (ReceiptR r, g)"
    and quiet: "\<And>u x w. view_ok u \<Longrightarrow> report u = Inr (x, w) \<Longrightarrow> view_ok w \<and> sees w = sees u"
    and forward: "same_receipt r r'" "state_forward (r_state r) (r_state r')"
  shows "view_ok w \<and> receipt_forward (map_option fst (sees u (Receipt, j))) (map_option fst (sees w (Receipt, j)))"
proof -
  obtain g' u1 g1 u2 u3 x where g': "generationOf Receipt i u = Inr (g', u1)"
    and put: "put_t Receipt i (ReceiptR r') g' u1 = Inr (g1, u2)" and rep: "report u2 = Inr (x, u3)" and w: "w = u3"
    using run by (auto simp: write_receipt_def res_simps)
  from generationOf_law [OF g' ok] have "u1 = u" by simp
  with put_t_law [OF put] ok have "view_ok u2" "sees u2 = (sees u)((Receipt, i) \<mapsto> (ReceiptR r', g1))" by simp_all
  with quiet [OF _ rep] have "view_ok w" "sees w = (sees u)((Receipt, i) \<mapsto> (ReceiptR r', g1))" by (simp_all add: w)
  with forward before show ?thesis by (cases "j = i") (simp_all add: receipt_forward_refl)
qed

lemma append_event_quiet:
  assumes "view_ok u" and "append_event w a t now p u = Inr (x, v)"
  shows "view_ok v \<and> sees v = sees u"
proof -
  from assms(2) obtain i u1 where "next_id ''event'' u = Inr (i, u1)"
    and "append_t \<lparr>e_sequence = 0, e_eventId = i, e_workspaceId = w, e_actorSessionId = a, e_type = t,
      e_occurredAt = now, e_payload = p\<rparr> u1 = Inr (x, v)"
    by (auto simp: append_event_def res_simps)
  with next_id_law [of "''event''" u i u1] append_t_law [of _ u1 x v] assms(1) show ?thesis by metis
qed

lemma requireOfferableReceipt_found:
  assumes "requireOfferableReceipt sha input b v = Inr ((m, r), u)" and "view_ok v"
  shows "u = v \<and> (\<exists>g. sees v (Receipt, receiptId sha (of_messageId input) (of_recipient input)) = Some (ReceiptR r, g))"
proof -
  from assms(1) obtain x u1 y u2 where got: "get_t Receipt (receiptId sha (of_messageId input) (of_recipient input)) v = Inr (x, u1)"
    "as_receipt x = Some r" and next_read: "get_t Message (of_messageId input) u1 = Inr (y, u2)" and u: "u = u2"
    by (auto simp: requireOfferableReceipt_def requireReceipt_def res_simps split: option.splits)
  from get_t_law [OF got(1) assms(2)] have u1: "u1 = v"
    "x = map_option fst (sees v (Receipt, receiptId sha (of_messageId input) (of_recipient input)))" by simp_all
  with got(2) get_t_law [OF next_read] assms(2) u show ?thesis by (auto elim!: as_receipt.elims)
qed

lemma requireTarget_same: "requireTarget input b v = Inr (s, u) \<Longrightarrow> u = v"
  by (auto simp: requireTarget_def res_simps get_t_def Let_def split: option.splits if_splits)

lemma record_success_forward:
  assumes run: "record_success sha input now m r target v = Inr (y, w)" and ok: "view_ok v"
    and before: "sees v (Receipt, receiptId sha (of_messageId input) (of_recipient input)) = Some (ReceiptR r, g)"
  shows "view_ok w \<and> receipt_forward (map_option fst (sees v (Receipt, j))) (map_option fst (sees w (Receipt, j)))"
proof -
  note wrote = write_receipt_forward [OF _ ok before append_event_quiet]
  from run consider "w = v"
    | extra where "write_receipt (receiptId sha (of_messageId input) (of_recipient input)) (repeated_offer r now)
        (append_event (r_workspaceId r) (s_sessionId target) ''message.offer_succeeded'' now extra) v = Inr (y, w)"
    | state extra where "advanceReceipt (r_state r) ''offered'' = Inr state"
      "write_receipt (receiptId sha (of_messageId input) (of_recipient input)) (first_offer r state now (of_transport input))
        (append_event (r_workspaceId r) (s_sessionId target) ''message.offer_succeeded'' now extra) v = Inr (y, w)"
    by (auto simp: record_success_def Let_def res_simps split: if_splits)
  then show ?thesis
  proof cases
    case 1
    then show ?thesis by (simp add: ok receipt_forward_refl)
  next
    case 2
    then show ?thesis by (rule wrote) (simp_all add: repeated_offer_def same_receipt_def)
  next
    case 3
    from 3(2) show ?thesis
      by (rule wrote) (simp_all add: first_offer_def same_receipt_def state_forward_advance [OF 3(1)])
  qed
qed

lemma forward_offer_succeeded: "moves receipt_forward Receipt (offer_succeeded_tx sha input now)"
  unfolding offer_succeeded_tx_def
proof (rule receipt_order.moves_bind [OF receipt_order.moves_readers(13)],
    rule receipt_order.moves_bind [OF receipt_order.moves_load], simp,
    rule receipt_order.moves_bindI [OF receipt_order.moves_prepare(3)])
  fix v x u y w j
  assume ok: "view_ok v" and found: "requireOfferableReceipt sha input True v = Inr (x, u)"
    and run: "(case x of (m, r) \<Rightarrow> bind_t (requireTarget input True) (record_success sha input now m r)) u = Inr (y, w)"
  obtain m r where x: "x = (m, r)" by (cases x)
  from requireOfferableReceipt_found [OF found [unfolded x] ok] obtain g where u: "u = v"
    and before: "sees v (Receipt, receiptId sha (of_messageId input) (of_recipient input)) = Some (ReceiptR r, g)" by blast
  from run obtain target where "record_success sha input now m r target v = Inr (y, w)"
    by (auto simp: x u res_simps dest: requireTarget_same)
  with record_success_forward [OF _ ok before] u
  show "view_ok w \<and> receipt_forward (map_option fst (sees u (Receipt, j))) (map_option fst (sees w (Receipt, j)))" by blast
qed

lemma unedited_offer_succeeded: "moves unedited Message (offer_succeeded_tx sha input now)"
  unfolding offer_succeeded_tx_def record_success_def
  by (intro message_order.moves_intros message_order.moves_readers message_order.moves_prepare
      message_order.moves_write_receipt_other message_order.moves_append_event) simp_all

end
