(* ===== verification/Message_Pages.thy ===== *)
theory Message_Pages
  imports Receipts
begin

text \<open>
  Pages of messages: \<^verbatim>\<open>packages/core/src/message-pages.mjs\<close>. A page holds summaries, newest
  first, at most as many as the limit and as fit the byte budget; its cursor is the identifier
  of the last message on it, and the next page starts after that message.

  A character of the model is a code unit below 256, which \<^verbatim>\<open>Buffer.byteLength\<close> counts as
  one byte below 128 and two from there. The ellipsis that ends a shortened subject is not one
  of them: a summary keeps the text before it and a mark, and counts its three bytes.
\<close>

section \<open>JSON text\<close>

definition byteLength :: "string \<Rightarrow> nat" where
  "byteLength s = sum_list (map (\<lambda>c. if (of_char c :: nat) < 128 then 1 else 2) s)"

definition indent :: "nat \<Rightarrow> string" where
  "indent n = CHR 0x0A # replicate n CHR '' ''"

text \<open>\<^verbatim>\<open>JSON.stringify(value, null, 2)\<close>.\<close>

fun json_text :: "nat \<Rightarrow> json \<Rightarrow> string" where
  "json_text n JNull = ''null''"
| "json_text n (JBool b) = (if b then ''true'' else ''false'')"
| "json_text n (JNum i) = show_int i"
| "json_text n (JStr s) = json_quote s"
| "json_text n (JArr xs) = (if xs = [] then ''[]''
     else ''['' @ join_with '','' (map (\<lambda>x. indent (n + 2) @ json_text (n + 2) x) xs) @ indent n @ '']'')"
| "json_text n (JObj kvs) = (if kvs = [] then ''{}''
     else ''{'' @ join_with '','' (map (\<lambda>(key, x). indent (n + 2) @ json_quote key @ '': '' @ json_text (n + 2) x) kvs)
       @ indent n @ ''}'')"

section \<open>Summaries\<close>

definition DEFAULT_LIMIT :: int where
  "DEFAULT_LIMIT = 20"

definition PAGE_BYTES :: nat where
  "PAGE_BYTES = 12000"

fun cut_subject :: "string \<Rightarrow> string \<Rightarrow> string" where
  "cut_subject text [] = text"
| "cut_subject text (c # cs) = (if byteLength (text @ [c]) + 3 > 160 then text else cut_subject (text @ [c]) cs)"

text \<open>The text of the subject, and whether an ellipsis ends it.\<close>

definition shortSubject :: "string \<Rightarrow> string \<times> bool" where
  "shortSubject subject = (if byteLength subject \<le> 160 then (subject, False) else (cut_subject [] subject, True))"

record summary =
  su_messageId :: id
  su_threadId :: id
  su_fromParticipantId :: id
  su_fromSessionId :: id
  su_kind :: string
  su_obligation :: string
  su_subject :: string
  su_cut :: bool
  su_sentAt :: time
  su_inReplyTo :: "id option"
  su_bodyBytes :: nat
  su_artifactCount :: nat
  su_decisionStatus :: "decision_status option"

definition messageSummary :: "message \<times> decision_status option \<Rightarrow> summary" where
  "messageSummary x = (case x of (m, status) \<Rightarrow>
     \<lparr>su_messageId = m_messageId m, su_threadId = m_threadId m, su_fromParticipantId = m_fromParticipantId m,
      su_fromSessionId = m_fromSessionId m, su_kind = m_kind m, su_obligation = m_obligation m,
      su_subject = fst (shortSubject (m_subject m)), su_cut = snd (shortSubject (m_subject m)),
      su_sentAt = m_sentAt m, su_inReplyTo = m_inReplyTo m, su_bodyBytes = byteLength (m_body m),
      su_artifactCount = length (m_artifacts m), su_decisionStatus = status\<rparr>)"

definition status_json :: "decision_status \<Rightarrow> json" where
  "status_json x = JObj [(''state'', JStr (dx_state x)), (''isHead'', JBool (dx_isHead x)),
     (''conflicted'', JBool (dx_conflicted x)), (''headCount'', JNum (int (dx_headCount x))),
     (''currentMessageId'', nullable_json JStr (dx_currentMessageId x)), (''groupId'', JStr (dx_groupId x))]"

definition summary_json :: "summary \<Rightarrow> json" where
  "summary_json x = JObj ([(''messageId'', JStr (su_messageId x)), (''threadId'', JStr (su_threadId x)),
     (''fromParticipantId'', JStr (su_fromParticipantId x)), (''fromSessionId'', JStr (su_fromSessionId x)),
     (''kind'', JStr (su_kind x)), (''obligation'', JStr (su_obligation x)), (''subject'', JStr (su_subject x)),
     (''sentAt'', time_json (su_sentAt x)), (''inReplyTo'', nullable_json JStr (su_inReplyTo x)),
     (''bodyBytes'', JNum (int (su_bodyBytes x))), (''artifactCount'', JNum (int (su_artifactCount x))),
     (''trust'', JStr ''untrusted peer content'')]
     @ (case su_decisionStatus x of None \<Rightarrow> [] | Some d \<Rightarrow> [(''decisionStatus'', status_json d)]))"

section \<open>Pages\<close>

definition assertMessageId :: "string \<Rightarrow> string \<Rightarrow> unit res" where
  "assertMessageId i label = (if portable_id i then Inr ()
     else Inl (AccError USAGE (label @ '' must be a complete message id returned by ACC'')))"

text \<open>\<^verbatim>\<open>newestFirst\<close> compares the times and then the identifiers as strings.\<close>

definition page_key :: "message \<Rightarrow> (nat list \<times> nat list) \<times> (nat list \<times> nat list)" where
  "page_key m = (locale_key (to_iso (m_sentAt m)), locale_key (m_messageId m))"

definition newest_first :: "('m \<Rightarrow> message) \<Rightarrow> 'm list \<Rightarrow> 'm list" where
  "newest_first f xs = rev (sort_key (\<lambda>x. page_key (f x)) (rev xs))"

record page_input =
  pi_limit :: "int option"
  pi_kind :: "string option"
  pi_cursor :: "id option"

text \<open>
  A page is built from the messages, each with whatever the caller projects it from: \<open>f\<close> gives
  the message. \<open>bytes\<close> is the byte length of the page that would hold the items and the cursor.
\<close>

fun fill_page :: "('m \<Rightarrow> message) \<Rightarrow> ('m \<Rightarrow> 'i) \<Rightarrow> ('i list \<Rightarrow> id \<Rightarrow> nat) \<Rightarrow> 'i list \<Rightarrow> 'm list \<Rightarrow> 'i list" where
  "fill_page f project bytes items [] = items"
| "fill_page f project bytes items (x # xs) =
     (let candidate = items @ [project x]
      in if bytes candidate (m_messageId (f x)) > PAGE_BYTES then items
         else fill_page f project bytes candidate xs)"

definition page_anchor :: "('m \<Rightarrow> message) \<Rightarrow> 'm list \<Rightarrow> page_input \<Rightarrow> message option res" where
  "page_anchor f messages input = (case pi_cursor input of
     None \<Rightarrow> Inr None
   | Some cursor \<Rightarrow>
       bind_r (assertMessageId cursor ''message cursor'') (\<lambda>_.
       case find (\<lambda>x. m_messageId (f x) = cursor) messages of
         None \<Rightarrow> Inl (AccError USAGE ''message cursor is not in this message list; start again without a cursor'')
       | Some x \<Rightarrow> if pi_kind input \<noteq> None \<and> pi_kind input \<noteq> Some (m_kind (f x))
           then Inl (AccError USAGE ''message cursor is not in this message list; start again without a cursor'')
           else Inr (Some (f x))))"

definition page_selected :: "('m \<Rightarrow> message) \<Rightarrow> ('m \<Rightarrow> bool) \<Rightarrow> 'm list \<Rightarrow> page_input \<Rightarrow> message option \<Rightarrow> 'm list" where
  "page_selected f keep messages input anchor = newest_first f (filter (\<lambda>x. keep x
     \<and> (case pi_kind input of None \<Rightarrow> True | Some k \<Rightarrow> m_kind (f x) = k)
     \<and> (case anchor of None \<Rightarrow> True | Some a \<Rightarrow> page_key a > page_key (f x))) messages)"

definition messagePage :: "('m \<Rightarrow> message) \<Rightarrow> ('m \<Rightarrow> bool) \<Rightarrow> ('m \<Rightarrow> 'i) \<Rightarrow> ('i list \<Rightarrow> id \<Rightarrow> nat) \<Rightarrow> 'm list
    \<Rightarrow> page_input \<Rightarrow> ('i list \<times> id option) res" where
  "messagePage f keep project bytes messages input =
     (let limit = or_else (pi_limit input) DEFAULT_LIMIT in
      bind_r (throw_if (limit < 1 \<or> limit > 500) USAGE ''message list limit must be an integer from 1 to 500'') (\<lambda>_.
      bind_r (throw_if (case pi_kind input of None \<Rightarrow> False | Some k \<Rightarrow> k \<notin> set MESSAGE_KINDS) USAGE
        (''message type is one of '' @ join_with '', '' MESSAGE_KINDS)) (\<lambda>_.
      bind_r (page_anchor f messages input) (\<lambda>anchor.
      let selected = page_selected f keep messages input anchor;
          items = fill_page f project bytes [] (take (nat limit) selected)
      in bind_r (throw_if (selected \<noteq> [] \<and> items = []) DATA ''one message summary exceeds the page budget'') (\<lambda>_.
         Inr (items, if length items < length selected then Some (m_messageId (f (selected ! (length items - 1)))) else None))))))"

section \<open>Pages join without a gap\<close>

lemma set_newest_first [simp]: "set (newest_first f xs) = set xs"
  by (simp add: newest_first_def)

lemma length_newest_first [simp]: "length (newest_first f xs) = length xs"
  by (simp add: newest_first_def)

lemma newest_first_Nil [simp]: "newest_first f [] = []"
  by (simp add: newest_first_def)

lemma newest_first_filter: "newest_first f (filter P xs) = filter P (newest_first f xs)"
  by (simp add: newest_first_def rev_filter flip: filter_sort)

lemma fill_page_prefix: "\<exists>n \<le> length xs. fill_page f project bytes items xs = items @ map project (take n xs)"
proof (induction xs arbitrary: items)
  case (Cons x xs)
  show ?case
  proof (cases "bytes (items @ [project x]) (m_messageId (f x)) > PAGE_BYTES")
    case True
    then show ?thesis by (intro exI [of _ 0]) (simp add: Let_def)
  next
    case False
    obtain n where "n \<le> length xs" "fill_page f project bytes (items @ [project x]) xs = (items @ [project x]) @ map project (take n xs)"
      using Cons.IH by blast
    with False show ?thesis by (intro exI [of _ "Suc n"]) (simp add: Let_def)
  qed
qed simp

text \<open>In a strictly descending list, what is below the element at a position is what follows it.\<close>

lemma filter_below:
  fixes h :: "'m \<Rightarrow> 'k :: linorder"
  assumes "sorted_wrt (\<lambda>a b. h a > h b) xs" and "n < length xs"
  shows "filter (\<lambda>x. h x < h (xs ! n)) xs = drop (Suc n) xs"
proof -
  have split: "xs = take (Suc n) xs @ drop (Suc n) xs" by simp
  have "sorted_wrt (\<lambda>a b. h a > h b) (take (Suc n) xs @ drop (Suc n) xs)" using assms(1) by simp
  then have after: "h b < h a" if "a \<in> set (take (Suc n) xs)" "b \<in> set (drop (Suc n) xs)" for a b
    using that unfolding sorted_wrt_append by blast
  have "xs ! n \<in> set (take (Suc n) xs)" using assms(2) by (auto simp: in_set_conv_nth)
  then have "filter (\<lambda>x. h x < h (xs ! n)) (drop (Suc n) xs) = drop (Suc n) xs"
    using after by (auto simp: filter_id_conv)
  moreover have "\<not> h a < h (xs ! n)" if "a \<in> set (take (Suc n) xs)" for a
  proof -
    from that obtain j where "j \<le> n" "a = xs ! j" by (auto simp: in_set_conv_nth less_Suc_eq_le)
    with sorted_wrt_nth_less [OF assms(1), of j n] assms(2) show ?thesis by (cases "j = n") auto
  qed
  then have "filter (\<lambda>x. h x < h (xs ! n)) (take (Suc n) xs) = []"
    by (simp add: filter_empty_conv)
  ultimately show ?thesis by (subst split, subst filter_append) simp
qed

lemma descending_distinct:
  fixes h :: "'m \<Rightarrow> 'k :: linorder"
  shows "sorted_wrt (\<lambda>a b. h a > h b) xs \<Longrightarrow> distinct xs"
  by (induction xs) auto

lemma newest_first_descending:
  assumes "distinct (map (\<lambda>x. page_key (f x)) xs)"
  shows "sorted_wrt (\<lambda>a b. page_key (f a) > page_key (f b)) (newest_first f xs)"
proof -
  let ?s = "sort_key (\<lambda>x. page_key (f x)) (rev xs)"
  have "distinct (map (\<lambda>x. page_key (f x)) ?s)" using assms by (simp add: distinct_map)
  moreover have "sorted (map (\<lambda>x. page_key (f x)) ?s)" by (rule sorted_sort_key)
  ultimately have "sorted_wrt (<) (map (\<lambda>x. page_key (f x)) ?s)" by (simp add: strict_sorted_iff)
  then show ?thesis by (simp add: newest_first_def sorted_wrt_rev sorted_wrt_map)
qed

lemma page_selected_below:
  assumes "x \<in> set (page_selected f keep messages input anchor)"
  shows "page_selected f keep messages input (Some (f x))
    = filter (\<lambda>y. page_key (f y) < page_key (f x)) (page_selected f keep messages input anchor)"
  using assms unfolding page_selected_def newest_first_filter [symmetric] filter_filter
  by (intro arg_cong [of _ _ "newest_first f"] filter_cong) (auto split: option.splits)

text \<open>A client that asks for page after page, each time with the cursor it was given.\<close>

fun follow_pages :: "nat \<Rightarrow> (page_input \<Rightarrow> ('i list \<times> id option) res) \<Rightarrow> page_input \<Rightarrow> 'i list res" where
  "follow_pages 0 ask input = Inr []"
| "follow_pages (Suc n) ask input =
     bind_r (ask input) (\<lambda>(items, cursor). case cursor of
       None \<Rightarrow> Inr items
     | Some c \<Rightarrow> bind_r (follow_pages n ask (input\<lparr>pi_cursor := Some c\<rparr>)) (\<lambda>rest. Inr (items @ rest)))"

text \<open>What one page holds: a nonempty start of what is selected, and where it stopped.\<close>

lemma messagePage_start:
  fixes keep :: "'m \<Rightarrow> bool"
  assumes limit: "1 \<le> or_else (pi_limit input) DEFAULT_LIMIT" "or_else (pi_limit input) DEFAULT_LIMIT \<le> 500"
    and kind: "\<forall>k. pi_kind input = Some k \<longrightarrow> k \<in> set MESSAGE_KINDS"
    and anchor: "page_anchor f messages input = Inr anchor"
    and fits: "\<forall>x \<in> set messages. bytes [project x] (m_messageId (f x)) \<le> PAGE_BYTES"
  defines "selected \<equiv> page_selected f keep messages input anchor"
  shows "\<exists>n. messagePage f keep project bytes messages input
      = Inr (map project (take n selected), if n < length selected then Some (m_messageId (f (selected ! (n - 1)))) else None)
    \<and> n \<le> length selected \<and> (selected \<noteq> [] \<longrightarrow> 0 < n)"
proof -
  let ?top = "take (nat (or_else (pi_limit input) DEFAULT_LIMIT)) selected"
  obtain n where n: "n \<le> length ?top" "fill_page f project bytes [] ?top = map project (take n ?top)"
    using fill_page_prefix [of ?top f project bytes "[]"] by auto
  have some: "0 < n" if "selected \<noteq> []"
  proof -
    from that limit(1) obtain x xs where top: "?top = x # xs" by (cases selected) (auto simp: take_Cons' split: if_splits)
    then have "x \<in> set selected" by (metis in_set_takeD list.set_intros(1))
    then have "x \<in> set messages" by (auto simp: selected_def page_selected_def)
    with fits have "bytes [project x] (m_messageId (f x)) \<le> PAGE_BYTES" by blast
    then have "fill_page f project bytes [] ?top = fill_page f project bytes [project x] xs" by (simp add: top)
    with fill_page_prefix [of xs f project bytes "[project x]"] have "fill_page f project bytes [] ?top \<noteq> []" by auto
    with n(2) show ?thesis by (cases n) auto
  qed
  have top: "take n ?top = take n selected" using n(1) by (auto simp: min_def split: if_splits)
  have "messagePage f keep project bytes messages input
      = Inr (map project (take n selected), if n < length selected then Some (m_messageId (f (selected ! (n - 1)))) else None)"
    using limit kind some n top anchor
    by (auto simp: messagePage_def Let_def throw_if_def bind_r_def selected_def [symmetric] split: option.splits)
  with n(1) some show ?thesis by auto
qed

lemma page_anchor_found:
  assumes "x \<in> set messages" and "distinct (map (\<lambda>x. m_messageId (f x)) messages)"
    and "portable_id (m_messageId (f x))" and "\<forall>k. pi_kind input = Some k \<longrightarrow> m_kind (f x) = k"
  shows "page_anchor f messages (input\<lparr>pi_cursor := Some (m_messageId (f x))\<rparr>) = Inr (Some (f x))"
proof -
  obtain y where y: "find (\<lambda>y. m_messageId (f y) = m_messageId (f x)) messages = Some y"
    using assms(1) by (metis (mono_tags, lifting) find_None_iff option.exhaust)
  then have "y \<in> set messages" "m_messageId (f y) = m_messageId (f x)" by (auto simp: find_Some_iff)
  with assms(1, 2) have "y = x" by (auto simp: distinct_map inj_on_def)
  with y assms(3, 4) show ?thesis
    by (cases "pi_kind input") (auto simp: page_anchor_def assertMessageId_def bind_r_def)
qed

lemma follow_pages_rest:
  fixes f :: "'m \<Rightarrow> message" and project :: "'m \<Rightarrow> 'i"
  assumes limit: "1 \<le> or_else (pi_limit input) DEFAULT_LIMIT" "or_else (pi_limit input) DEFAULT_LIMIT \<le> 500"
    and kind: "\<forall>k. pi_kind input = Some k \<longrightarrow> k \<in> set MESSAGE_KINDS"
    and fits: "\<forall>x \<in> set messages. bytes [project x] (m_messageId (f x)) \<le> PAGE_BYTES"
    and ids: "distinct (map (\<lambda>x. m_messageId (f x)) messages)" "\<forall>x \<in> set messages. portable_id (m_messageId (f x))"
    and keys: "distinct (map (\<lambda>x. page_key (f x)) messages)"
    and anchor: "page_anchor f messages (input\<lparr>pi_cursor := cursor\<rparr>) = Inr anchor"
    and fuel: "length (page_selected f keep messages input anchor) \<le> n"
  shows "follow_pages (Suc n) (messagePage f keep project bytes messages) (input\<lparr>pi_cursor := cursor\<rparr>)
    = Inr (map project (page_selected f keep messages input anchor))"
  using anchor fuel
proof (induction n arbitrary: cursor anchor)
  case 0
  have sel: "page_selected f keep messages (input\<lparr>pi_cursor := cursor\<rparr>) anchor = []"
    using 0(2) by (simp add: page_selected_def)
  from messagePage_start [of "input\<lparr>pi_cursor := cursor\<rparr>", OF _ _ _ 0(1) fits, of keep] limit kind sel
  have "messagePage f keep project bytes messages (input\<lparr>pi_cursor := cursor\<rparr>) = Inr ([], None)" by auto
  then show ?case using 0(2) by (simp add: bind_r_def)
next
  case (Suc n)
  let ?in = "input\<lparr>pi_cursor := cursor\<rparr>" and ?sel = "page_selected f keep messages input anchor"
  have same: "page_selected f keep messages ?in anchor = ?sel" by (simp add: page_selected_def)
  have "\<exists>m. messagePage f keep project bytes messages ?in
      = Inr (map project (take m ?sel), if m < length ?sel then Some (m_messageId (f (?sel ! (m - 1)))) else None)
    \<and> m \<le> length ?sel \<and> (?sel \<noteq> [] \<longrightarrow> 0 < m)"
    by (rule messagePage_start [of ?in, OF _ _ _ Suc.prems(1) fits, of keep, unfolded same]) (use limit kind in simp_all)
  then obtain m where page: "messagePage f keep project bytes messages ?in
      = Inr (map project (take m ?sel), if m < length ?sel then Some (m_messageId (f (?sel ! (m - 1)))) else None)"
    and m: "m \<le> length ?sel" "?sel \<noteq> [] \<longrightarrow> 0 < m" by blast
  show ?case
  proof (cases "m < length ?sel")
    case False
    with page m(1) show ?thesis by (simp add: bind_r_def)
  next
    case True
    with m(2) have pos: "0 < m" by auto
    let ?x = "?sel ! (m - 1)"
    have x: "?x \<in> set ?sel" using True by (meson less_imp_diff_less nth_mem)
    then have mem: "?x \<in> set messages" and kindx: "\<forall>k. pi_kind input = Some k \<longrightarrow> m_kind (f ?x) = k"
      by (auto simp: page_selected_def)
    have anchor': "page_anchor f messages (input\<lparr>pi_cursor := Some (m_messageId (f ?x))\<rparr>) = Inr (Some (f ?x))"
      using page_anchor_found [OF mem ids(1) _ kindx] ids(2) mem by blast
    have "distinct (map (\<lambda>x. page_key (f x)) (filter P messages))" for P
      using keys by (simp add: distinct_map_filter)
    then have sorted: "sorted_wrt (\<lambda>a b. page_key (f a) > page_key (f b)) ?sel"
      unfolding page_selected_def by (rule newest_first_descending)
    have "page_selected f keep messages input (Some (f ?x)) = filter (\<lambda>x. page_key (f x) < page_key (f ?x)) ?sel"
      by (rule page_selected_below [OF x])
    also have "\<dots> = drop m ?sel" using filter_below [OF sorted, of "m - 1"] True pos by auto
    finally have rest: "page_selected f keep messages input (Some (f ?x)) = drop m ?sel" .
    have "follow_pages (Suc n) (messagePage f keep project bytes messages) (input\<lparr>pi_cursor := Some (m_messageId (f ?x))\<rparr>)
        = Inr (map project (drop m ?sel))"
      by (rule Suc.IH [OF anchor', unfolded rest]) (use Suc.prems(2) pos in simp)
    with page True show ?thesis
      by (simp add: bind_r_def flip: map_append)
  qed
qed

section \<open>Properties\<close>

text \<open>
  C14. Asking for one page after another, each time with the cursor of the page before, gives
  every message the list includes, newest first, once each, and stops: whatever the limit and
  whatever the byte budget cuts, no message is lost between two pages and none is shown twice.
  It supposes that each summary alone fits a page, which the code reports otherwise, and that
  no two messages compare as equal.
\<close>

theorem pages_are_complete:
  fixes f :: "'m \<Rightarrow> message" and project :: "'m \<Rightarrow> 'i"
  assumes "1 \<le> or_else (pi_limit input) DEFAULT_LIMIT" and "or_else (pi_limit input) DEFAULT_LIMIT \<le> 500"
    and "\<forall>k. pi_kind input = Some k \<longrightarrow> k \<in> set MESSAGE_KINDS"
    and "\<forall>x \<in> set messages. bytes [project x] (m_messageId (f x)) \<le> PAGE_BYTES"
    and "distinct (map (\<lambda>x. m_messageId (f x)) messages)" and "\<forall>x \<in> set messages. portable_id (m_messageId (f x))"
    and "distinct (map (\<lambda>x. page_key (f x)) messages)" and "pi_cursor input = None"
  shows "\<exists>selected. follow_pages (Suc (length messages)) (messagePage f keep project bytes messages) input
      = Inr (map project selected)
    \<and> distinct selected
    \<and> set selected = {x \<in> set messages. keep x \<and> (\<forall>k. pi_kind input = Some k \<longrightarrow> m_kind (f x) = k)}
    \<and> sorted_wrt (\<lambda>a b. page_key (f a) > page_key (f b)) selected"
proof (intro exI conjI)
  let ?sel = "page_selected f keep messages input None"
  have short: "length ?sel \<le> length messages" by (simp add: page_selected_def)
  have input: "input\<lparr>pi_cursor := None\<rparr> = input" using assms(8) by simp
  have "page_anchor f messages (input\<lparr>pi_cursor := None\<rparr>) = Inr None" by (simp add: page_anchor_def)
  from follow_pages_rest [OF assms(1-7) this short]
  show "follow_pages (Suc (length messages)) (messagePage f keep project bytes messages) input = Inr (map project ?sel)"
    by (simp add: input)
  have keys: "distinct (map (\<lambda>x. page_key (f x)) (filter P messages))" for P
    using assms(7) by (simp add: distinct_map_filter)
  show sorted: "sorted_wrt (\<lambda>a b. page_key (f a) > page_key (f b)) ?sel"
    unfolding page_selected_def by (rule newest_first_descending [OF keys])
  then show "distinct ?sel" by (rule descending_distinct)
  show "set ?sel = {x \<in> set messages. keep x \<and> (\<forall>k. pi_kind input = Some k \<longrightarrow> m_kind (f x) = k)}"
    by (auto simp: page_selected_def split: option.splits)
qed

theorem pages_are_complete_witness:
  "\<exists>shown. follow_pages 3 (messagePage id (\<lambda>_. True) m_messageId (\<lambda>_ _. 0)
      [sample_message ''a'' ''note'' None, sample_message ''b'' ''note'' None])
      \<lparr>pi_limit = Some 1, pi_kind = None, pi_cursor = None\<rparr> = Inr shown \<and> set shown = {''a'', ''b''}"
proof -
  define ms where "ms = [sample_message ''a'' ''note'' None, sample_message ''b'' ''note'' None]"
  define input where "input = \<lparr>pi_limit = Some 1, pi_kind = None, pi_cursor = None\<rparr>"
  have ids: "map m_messageId ms = [''a'', ''b'']" by (simp add: ms_def sample_message_def)
  have 1: "1 \<le> or_else (pi_limit input) DEFAULT_LIMIT" "or_else (pi_limit input) DEFAULT_LIMIT \<le> 500"
    "\<forall>k. pi_kind input = Some k \<longrightarrow> k \<in> set MESSAGE_KINDS" "pi_cursor input = None"
    by (simp_all add: input_def or_else_def)
  have 2: "\<forall>x \<in> set ms. (0 :: nat) \<le> PAGE_BYTES" by simp
  have "portable_id ''a''" "portable_id ''b''" by code_simp+
  then have 3: "distinct (map (\<lambda>x. m_messageId (id x)) ms)" "\<forall>x \<in> set ms. portable_id (m_messageId (id x))"
    by (simp_all add: ms_def sample_message_def)
  have "locale_key ''a'' \<noteq> locale_key ''b''" by code_simp
  then have 4: "distinct (map (\<lambda>x. page_key (id x)) ms)" by (simp add: ms_def sample_message_def page_key_def)
  have three: "Suc (length ms) = 3" by (simp add: ms_def)
  obtain selected where run: "follow_pages 3 (messagePage id (\<lambda>_. True) m_messageId (\<lambda>_ _. 0) ms) input
      = Inr (map m_messageId selected)"
    and all: "set selected = {x \<in> set ms. True \<and> (\<forall>k. pi_kind input = Some k \<longrightarrow> m_kind (id x) = k)}"
    using pages_are_complete [where input = input and messages = ms and f = id and project = m_messageId
        and bytes = "\<lambda>_ _. 0" and keep = "\<lambda>_. True", OF 1(1-3) 2 3 4 1(4), unfolded three] by blast
  have "set selected = set ms" using all by (simp add: input_def)
  then have "set (map m_messageId selected) = {''a'', ''b''}" using arg_cong [OF ids, of set] by simp
  with run [unfolded ms_def input_def] show ?thesis by blast
qed

end
