(* ===== verification/Inbox.thy ===== *)
theory Inbox
  imports Message_Pages
begin

text \<open>
  The inbox: listing, reading, acknowledging and replying
  (\<^verbatim>\<open>packages/core/src/inbox.mjs\<close>). A reader's receipts come from the index by recipient
  and state, and the status of a decision from its group, walked through the index by target
  instead of reading every decision of the workspace.
\<close>

section \<open>Owned receipts\<close>

definition listable :: "message \<Rightarrow> receipt \<Rightarrow> bool" where
  "listable m r \<longleftrightarrow> r_state r = ''queued'' \<or> r_state r = ''offered''
     \<or> (r_state r = ''retrieved'' \<and> m_obligation m \<noteq> ''none'')"

definition PENDING :: "string list" where
  "PENDING = [''queued'', ''offered'', ''retrieved'']"

definition open_or_error :: "string \<Rightarrow> id \<Rightarrow> session option \<Rightarrow> session res" where
  "open_or_error action generation current =
     (let bad = Inl (AccError CONFLICT (''cannot '' @ action @ '' from this session generation''))
      in case current of None \<Rightarrow> bad
        | Some s \<Rightarrow> if s_state s \<noteq> ''open'' \<or> s_generation s \<noteq> generation then bad else Inr s)"

text \<open>\<^verbatim>\<open>requireOpen\<close>, outside and inside a transaction.\<close>

definition requireOpen :: "id \<Rightarrow> id option \<Rightarrow> id \<Rightarrow> string \<Rightarrow> store \<Rightarrow> session res" where
  "requireOpen sessionId workspaceId generation action st =
     bind_r (locate st sessionId workspaceId) (\<lambda>located.
     open_or_error action generation (map_option fst located))"

definition requireOpen_t :: "id \<Rightarrow> id \<Rightarrow> string \<Rightarrow> session tx" where
  "requireOpen_t sessionId generation action =
     bind_t (get_t Session sessionId) (\<lambda>durable.
     bind_t (if as_session durable = None then (\<lambda>v. lift_t (eph_get (x_store v) Session sessionId) v)
       else return_t durable) (\<lambda>current.
     lift_t (open_or_error action generation (as_session current))))"

definition requireOwnedReceipt :: "(string \<Rightarrow> nat list) \<Rightarrow> session \<Rightarrow> id \<Rightarrow> (message \<times> receipt) tx" where
  "requireOwnedReceipt sha s messageId =
     bind_t (get_t Message messageId) (\<lambda>m.
     bind_t (get_t Receipt (receiptId sha messageId (s_participantId s))) (\<lambda>r.
     case (as_message m, as_receipt r) of
       (Some message, Some receipt) \<Rightarrow> return_t (message, receipt)
     | _ \<Rightarrow> lift_t (Inl (AccError CONFLICT ''that message is not addressed to this participant''))))"

text \<open>A receipt that carries no obligation yet gains its message's.\<close>

definition advanced_receipt :: "message \<Rightarrow> receipt \<Rightarrow> string \<Rightarrow> time \<Rightarrow> receipt" where
  "advanced_receipt m r state now =
     (let moved = r\<lparr>r_state := state, r_updatedAt := now\<rparr>
      in if extension (r_extensions r) ''obligation'' = None
         then moved\<lparr>r_extensions := set_extension ''obligation'' (JStr (m_obligation m)) (r_extensions r)\<rparr>
         else moved)"

definition advanceOwned :: "(string \<Rightarrow> nat list) \<Rightarrow> session \<Rightarrow> id \<Rightarrow> string \<Rightarrow> time \<Rightarrow> (message \<times> receipt) tx" where
  "advanceOwned sha s messageId state now =
     bind_t (requireOwnedReceipt sha s messageId) (\<lambda>(m, r).
     bind_t (lift_t (advanceReceipt (r_state r) state)) (\<lambda>nextState.
     if nextState = r_state r then return_t (m, r)
     else bind_t (write_receipt (receiptId sha messageId (s_participantId s)) (advanced_receipt m r nextState now)
         (append_event (s_workspaceId s) (s_sessionId s) (''message.'' @ state) now
           [(''messageId'', JStr messageId), (''recipientParticipantId'', JStr (s_participantId s))])) (\<lambda>receipt.
       return_t (m, receipt))))"

section \<open>The reader's receipts and their messages\<close>

text \<open>A map from message to receipt; a later receipt of the same message takes its place.\<close>

definition by_message :: "receipt list \<Rightarrow> (id \<times> receipt) list" where
  "by_message rs = foldl (\<lambda>m r. AList.update (r_messageId r) r m) [] rs"

definition receiptsInState :: "session \<Rightarrow> string list \<Rightarrow> (id \<times> receipt) list tx" where
  "receiptsInState s states =
     bind_t (map_t (\<lambda>state.
       bind_t (lookup_t ReceiptsByRecipientState [s_workspaceId s, s_participantId s, state]) (map_t load_receipt)) states)
       (\<lambda>found. return_t (by_message [r. Some r \<leftarrow> concat found]))"

definition ownReceipt :: "(string \<Rightarrow> nat list) \<Rightarrow> session \<Rightarrow> id \<Rightarrow> receipt option tx" where
  "ownReceipt sha s messageId =
     bind_t (load_receipt (receiptId sha messageId (s_participantId s))) (\<lambda>r.
     return_t (case r of None \<Rightarrow> None
       | Some receipt \<Rightarrow> if r_messageId receipt = messageId \<and> r_recipientParticipantId receipt = s_participantId s
           then Some receipt else None))"

text \<open>
  The walk of the decision groups. \<open>pending\<close> is the stack, its top first; each turn pops one
  decision and pushes those it names, or that name it, and that are new to the group. Each
  record is pushed at most once, so as many turns as there are records end it.
\<close>

definition unseen_ids :: "(id \<times> message) list \<Rightarrow> message \<Rightarrow> id list \<Rightarrow> id list" where
  "unseen_ids grp d naming = filter (\<lambda>i. map_of grp i = None) (js_uniq (targets_of d @ naming))"

definition found_decisions :: "id list \<Rightarrow> message option list \<Rightarrow> (id \<times> message) list" where
  "found_decisions ids found = [(i, m). (i, Some m) \<leftarrow> zip ids found, m_kind m = ''decision'']"

fun walk_decisions :: "nat \<Rightarrow> id \<Rightarrow> (id \<times> message) list \<Rightarrow> message list \<Rightarrow> (id \<times> message) list tx" where
  "walk_decisions 0 workspaceId grp pending = return_t grp"
| "walk_decisions (Suc n) workspaceId grp [] = return_t grp"
| "walk_decisions (Suc n) workspaceId grp (d # pending) =
     bind_t (lookup_t DecisionsByTarget [workspaceId, m_messageId d]) (\<lambda>naming.
     bind_t (map_t load_message (unseen_ids grp d naming)) (\<lambda>found.
     let fresh = found_decisions (unseen_ids grp d naming) found
     in walk_decisions n workspaceId (grp @ fresh) (rev (map snd fresh) @ pending)))"

definition record_count :: "view \<Rightarrow> nat" where
  "record_count v = length (st_state (x_store v)) + length (x_staged v)"

definition decisions_of :: "(id \<times> message) list \<Rightarrow> (id \<times> message) list" where
  "decisions_of messages = decision_map (map snd messages)"

definition messagesFor :: "session \<Rightarrow> (id \<times> receipt) list \<Rightarrow> (id \<times> message \<times> decision_status option) list tx" where
  "messagesFor s receipts =
     bind_t (map_t load_message (map fst receipts)) (\<lambda>found.
     let messages = [(i, m). (i, Some m) \<leftarrow> zip (map fst receipts) found];
         grp = decisions_of messages
     in if grp = [] then return_t (map (\<lambda>(i, m). (i, m, None)) messages)
        else bind_t (\<lambda>v. walk_decisions (record_count v) (s_workspaceId s) grp (rev (map snd grp)) v) (\<lambda>whole.
          let status = decisionView (map snd whole)
          in return_t (map (\<lambda>(i, m). (i, m, status m)) messages)))"

section \<open>Listing\<close>

record inbox_item =
  ii_message :: summary
  ii_receipt :: receipt

definition item_json :: "inbox_item \<Rightarrow> json" where
  "item_json x = JObj [(''message'', summary_json (ii_message x)), (''receipt'', receipt_json (ii_receipt x))]"

definition inbox_bytes :: "inbox_item list \<Rightarrow> id \<Rightarrow> nat" where
  "inbox_bytes items cursor =
     byteLength (json_text 0 (JObj [(''items'', JArr (map item_json items)), (''nextCursor'', JStr cursor)]))
     + 3 * length (filter (\<lambda>x. su_cut (ii_message x)) items)"

definition list_inbox_tx :: "(string \<Rightarrow> nat list) \<Rightarrow> session \<Rightarrow> id \<Rightarrow> id \<Rightarrow> page_input \<Rightarrow> (inbox_item list \<times> id option) tx" where
  "list_inbox_tx sha s sessionId generation input =
     bind_t (load_t Session sessionId) (\<lambda>_.
     bind_t (requireOpen_t sessionId generation ''list the inbox'') (\<lambda>_.
     bind_t (receiptsInState s PENDING) (\<lambda>pending.
     bind_t (case pi_cursor input of
         None \<Rightarrow> return_t pending
       | Some cursor \<Rightarrow> if map_of pending cursor \<noteq> None then return_t pending
           else bind_t (ownReceipt sha s cursor) (\<lambda>anchor. return_t (case anchor of
             None \<Rightarrow> pending | Some r \<Rightarrow> AList.update cursor r pending))) (\<lambda>receipts.
     bind_t (messagesFor s receipts) (\<lambda>messages.
     lift_t (messagePage (\<lambda>(i, m, status). m)
       (\<lambda>(i, m, status). isCurrentDecision status
         \<and> (case map_of receipts (m_messageId m) of None \<Rightarrow> False | Some r \<Rightarrow> listable m r))
       (\<lambda>(i, m, status). \<lparr>ii_message = messageSummary (m, status),
          ii_receipt = publicReceipt (the (map_of receipts (m_messageId m)))\<rparr>)
       inbox_bytes messages input))))))"

definition listInbox :: "(string \<Rightarrow> nat list) \<Rightarrow> id \<Rightarrow> id option \<Rightarrow> id \<Rightarrow> page_input \<Rightarrow> (inbox_item list \<times> id option) svc" where
  "listInbox sha sessionId workspaceId generation input =
     bind_s (read_s (requireOpen sessionId workspaceId generation ''list the inbox'')) (\<lambda>s.
     step_s (transaction (Some OFFER_TX) OFFER_TX (list_inbox_tx sha s sessionId generation input)))"

section \<open>Reading\<close>

definition read_one :: "(string \<Rightarrow> nat list) \<Rightarrow> session \<Rightarrow> time \<Rightarrow> (id \<times> message \<times> decision_status option) \<times> receipt
    \<Rightarrow> (message \<times> decision_status option \<times> receipt) tx" where
  "read_one sha s now x = (case x of ((i, m, status), r) \<Rightarrow>
     if r_state r = ''acknowledged'' then return_t (m, status, publicReceipt r)
     else bind_t (advanceOwned sha s (r_messageId r) ''retrieved'' now) (\<lambda>(_, r').
       return_t (m, status, publicReceipt r')))"

text \<open>The receipts whose message exists, each with it, oldest message first.\<close>

definition selected_reads :: "(id \<times> receipt) list \<Rightarrow> (id \<times> message \<times> decision_status option) list
    \<Rightarrow> (receipt \<Rightarrow> message \<Rightarrow> decision_status option \<Rightarrow> bool) \<Rightarrow> ((id \<times> message \<times> decision_status option) \<times> receipt) list" where
  "selected_reads receipts messages P =
     sort_key (\<lambda>((_, m, _), _). page_key m)
       [((r_messageId r, m, status), r). (_, r) \<leftarrow> receipts,
          (m, status) \<leftarrow> (case map_of messages (r_messageId r) of None \<Rightarrow> [] | Some x \<Rightarrow> [x]), P r m status]"

definition read_inbox_tx :: "(string \<Rightarrow> nat list) \<Rightarrow> session \<Rightarrow> id \<Rightarrow> id \<Rightarrow> id option \<Rightarrow> time
    \<Rightarrow> (message \<times> decision_status option \<times> receipt) list tx" where
  "read_inbox_tx sha s sessionId generation messageId now =
     bind_t (load_t Session sessionId) (\<lambda>_.
     bind_t (requireOpen_t sessionId generation ''read the inbox'') (\<lambda>_.
     bind_t (case messageId of
         None \<Rightarrow> receiptsInState s PENDING
       | Some i \<Rightarrow> bind_t (ownReceipt sha s i) (\<lambda>r. return_t (case r of None \<Rightarrow> [] | Some receipt \<Rightarrow> [(i, receipt)]))) (\<lambda>receipts.
     bind_t (messagesFor s receipts) (\<lambda>messages.
     let selected = (case messageId of
         None \<Rightarrow> selected_reads receipts messages (\<lambda>r m status. listable m r \<and> isCurrentDecision status)
       | Some i \<Rightarrow> selected_reads receipts messages (\<lambda>r m status. r_messageId r = i))
     in bind_t (throw_t (messageId \<noteq> None \<and> selected = []) CONFLICT
          ''that message is not recoverable by this participant'') (\<lambda>_.
        map_t (read_one sha s now) selected)))))"

definition readInbox :: "(string \<Rightarrow> nat list) \<Rightarrow> id \<Rightarrow> id option \<Rightarrow> id \<Rightarrow> id option \<Rightarrow> time
    \<Rightarrow> (message \<times> decision_status option \<times> receipt) list svc" where
  "readInbox sha sessionId workspaceId generation messageId now =
     bind_s (read_s (requireOpen sessionId workspaceId generation ''read the inbox'')) (\<lambda>s.
     step_s (transaction (Some OFFER_TX) OFFER_TX (read_inbox_tx sha s sessionId generation messageId now)))"

section \<open>Acknowledging and replying\<close>

definition acknowledge_tx :: "(string \<Rightarrow> nat list) \<Rightarrow> session \<Rightarrow> id \<Rightarrow> id \<Rightarrow> id \<Rightarrow> time \<Rightarrow> receipt tx" where
  "acknowledge_tx sha s sessionId generation messageId now =
     bind_t (load_t Session sessionId) (\<lambda>_.
     bind_t (load_t Message messageId) (\<lambda>_.
     bind_t (load_t Receipt (receiptId sha messageId (s_participantId s))) (\<lambda>_.
     bind_t (requireOpen_t sessionId generation ''acknowledge a message'') (\<lambda>_.
     bind_t (requireOwnedReceipt sha s messageId) (\<lambda>(m, r).
     bind_t (throw_t (m_obligation m = ''reply'' \<and> r_state r \<noteq> ''acknowledged'') CONFLICT
       ''this message requires a reply; use reply to answer, clarify, or decline'') (\<lambda>_.
     bind_t (advanceOwned sha s messageId ''acknowledged'' now) (\<lambda>(_, r').
     return_t (publicReceipt r'))))))))"

definition acknowledgeMessage :: "(string \<Rightarrow> nat list) \<Rightarrow> id \<Rightarrow> id option \<Rightarrow> id \<Rightarrow> id \<Rightarrow> time \<Rightarrow> receipt svc" where
  "acknowledgeMessage sha sessionId workspaceId generation messageId now =
     bind_s (read_s (requireOpen sessionId workspaceId generation ''acknowledge a message'')) (\<lambda>s.
     step_s (transaction (Some OFFER_TX) OFFER_TX (acknowledge_tx sha s sessionId generation messageId now)))"

record reply_input =
  ri_messageId :: id
  ri_clientMessageId :: id
  ri_subject :: "string option"
  ri_body :: string
  ri_artifacts :: "json list option"

definition reply_message :: "reply_input \<Rightarrow> message \<Rightarrow> message_input" where
  "reply_message input original = \<lparr>mi_clientMessageId = ri_clientMessageId input,
     mi_toParticipantIds = Some [m_fromParticipantId original], mi_kind = ''answer'', mi_obligation = ''none'',
     mi_subject = or_else (ri_subject input) (''Re: '' @ m_subject original), mi_body = ri_body input,
     mi_inReplyTo = Some (m_messageId original), mi_artifacts = Some (or_else (ri_artifacts input) []),
     mi_handoff = None, mi_supersedes = None, mi_withdraws = None, mi_decisionChange = None\<rparr>"

definition reply_tx :: "(string \<Rightarrow> nat list) \<Rightarrow> session \<Rightarrow> reply_input \<Rightarrow> id \<Rightarrow> time \<Rightarrow> (message \<times> receipt) tx" where
  "reply_tx sha s input replyId now =
     bind_t (load_t Message (ri_messageId input)) (\<lambda>_.
     bind_t (load_t Receipt (receiptId sha (ri_messageId input) (s_participantId s))) (\<lambda>_.
     bind_t (requireOwnedReceipt sha s (ri_messageId input)) (\<lambda>(original, _).
     bind_t (recordMessageInTransaction sha s (reply_message input original) now replyId ''reply to a message'') (\<lambda>recorded.
     bind_t (advanceOwned sha s (ri_messageId input) ''acknowledged'' now) (\<lambda>(_, receipt).
     return_t (rc_message recorded, publicReceipt receipt))))))"

definition replyToMessage :: "(string \<Rightarrow> nat list) \<Rightarrow> id \<Rightarrow> id option \<Rightarrow> id \<Rightarrow> reply_input \<Rightarrow> time \<Rightarrow> (message \<times> receipt) svc" where
  "replyToMessage sha sessionId workspaceId generation input now =
     bind_s (read_s (requireOpen sessionId workspaceId generation ''reply to a message'')) (\<lambda>s.
     bind_s (fresh_s ''message'') (\<lambda>replyId.
     step_s (transaction (Some MESSAGE_TX) [Message, Receipt] (reply_tx sha s input replyId now))))"

section \<open>Shape of the transactions\<close>

lemma lawful_owned [lawful_intros]: "lawful (requireOpen_t i g a)" "lawful (requireOwnedReceipt sha s i)"
  "lawful (receiptsInState s states)" "lawful (ownReceipt sha s i)" "lawful (advanceOwned sha s i state now)"
  unfolding requireOpen_t_def requireOwnedReceipt_def receiptsInState_def ownReceipt_def advanceOwned_def
  by (intro lawful_intros | simp | split option.split)+

lemma lawful_walk [lawful_intros]: "lawful (walk_decisions n w grp pending)"
  by (induction n w grp pending rule: walk_decisions.induct) (auto simp: Let_def intro!: lawful_intros)

lemma lawful_messagesFor [lawful_intros]: "lawful (messagesFor s receipts)"
proof -
  have "lawful (\<lambda>v. walk_decisions (record_count v) w grp pending v)" for w grp pending
    using lawful_walk by (intro lawfulI) (blast dest: lawfulD)
  then show ?thesis unfolding messagesFor_def by (intro lawful_intros)
qed

lemma lawful_list_inbox: "lawful (list_inbox_tx sha s i g input)"
  unfolding list_inbox_tx_def by (intro lawful_intros) simp_all

lemma lawful_read_one [lawful_intros]: "lawful (read_one sha s now x)"
  unfolding read_one_def by (intro lawful_intros)

lemma lawful_read_inbox: "lawful (read_inbox_tx sha s i g messageId now)"
  unfolding read_inbox_tx_def by (intro lawful_intros) simp_all

lemma lawful_acknowledge: "lawful (acknowledge_tx sha s i g messageId now)"
  unfolding acknowledge_tx_def by (intro lawful_intros) simp_all

lemma lawful_reply: "lawful (reply_tx sha s input replyId now)"
  unfolding reply_tx_def by (intro lawful_intros) simp_all

section \<open>Receipts move forward\<close>

context record_order
begin

lemma moves_owned: "moves R k (requireOpen_t i g a)" "moves R k (requireOwnedReceipt sha s i)"
  "moves R k (receiptsInState s states)" "moves R k (ownReceipt sha s i)"
  unfolding requireOpen_t_def requireOwnedReceipt_def receiptsInState_def ownReceipt_def
  by (intro moves_intros moves_readers | simp | split option.split)+

lemma moves_walk: "moves R k (walk_decisions n w grp pending)"
  by (induction n w grp pending rule: walk_decisions.induct) (auto simp: Let_def intro!: moves_intros moves_readers)

lemma moves_messagesFor: "moves R k (messagesFor s receipts)"
proof -
  have "moves R k (\<lambda>v. walk_decisions (record_count v) w grp pending v)" for w grp pending
    using movesD [OF moves_walk] by (intro movesI) blast+
  then show ?thesis unfolding messagesFor_def by (intro moves_intros moves_readers)
qed

lemma moves_list_inbox: "moves R k (list_inbox_tx sha s i g input)"
  unfolding list_inbox_tx_def by (intro moves_intros moves_owned moves_messagesFor) simp_all

text \<open>The reading operations move records as their writes of owned receipts do.\<close>

lemma moves_read_inbox:
  assumes "\<And>i state. moves R k (advanceOwned sha s i state now)"
  shows "moves R k (read_inbox_tx sha s i g messageId now)"
  unfolding read_inbox_tx_def read_one_def
  by (intro moves_intros moves_owned moves_messagesFor assms) simp_all

lemma moves_acknowledge:
  assumes "\<And>i state. moves R k (advanceOwned sha s i state now)"
  shows "moves R k (acknowledge_tx sha s i g messageId now)"
  unfolding acknowledge_tx_def by (intro moves_intros moves_owned assms) simp_all

lemma moves_reply:
  assumes "\<And>i state. moves R k (advanceOwned sha s i state now)" and "k = Message \<or> k = Receipt"
  shows "moves R k (reply_tx sha s input replyId now)"
  unfolding reply_tx_def by (intro moves_intros moves_owned moves_record assms) simp_all

end

lemma requireOwnedReceipt_found:
  assumes "requireOwnedReceipt sha s messageId v = Inr ((m, r), u)" and "view_ok v"
  shows "u = v \<and> (\<exists>g. sees v (Receipt, receiptId sha messageId (s_participantId s)) = Some (ReceiptR r, g))"
proof -
  from assms(1) obtain x u1 y u2 where first: "get_t Message messageId v = Inr (x, u1)"
    and got: "get_t Receipt (receiptId sha messageId (s_participantId s)) u1 = Inr (y, u2)" "as_receipt y = Some r" and u: "u = u2"
    by (auto simp: requireOwnedReceipt_def res_simps split: option.splits)
  from get_t_law [OF first assms(2)] have "u1 = v" by simp
  with get_t_law [OF got(1)] got(2) assms(2) u show ?thesis by (auto elim!: as_receipt.elims)
qed

lemma forward_advanceOwned: "moves receipt_forward Receipt (advanceOwned sha s messageId state now)"
  unfolding advanceOwned_def
proof (rule receipt_order.moves_bindI [OF receipt_order.moves_owned(2)])
  fix v x u y w j
  let ?i = "receiptId sha messageId (s_participantId s)"
  let ?report = "append_event (s_workspaceId s) (s_sessionId s) (''message.'' @ state) now
    [(''messageId'', JStr messageId), (''recipientParticipantId'', JStr (s_participantId s))]"
  assume ok: "view_ok v" and found: "requireOwnedReceipt sha s messageId v = Inr (x, u)"
    and run: "(case x of (m, r) \<Rightarrow> bind_t (lift_t (advanceReceipt (r_state r) state)) (\<lambda>nextState.
       if nextState = r_state r then return_t (m, r)
       else bind_t (write_receipt ?i (advanced_receipt m r nextState now) ?report) (\<lambda>receipt. return_t (m, receipt)))) u
      = Inr (y, w)"
  obtain m r where x: "x = (m, r)" by (cases x)
  from requireOwnedReceipt_found [OF found [unfolded x] ok] obtain g where u: "u = v"
    and before: "sees v (Receipt, ?i) = Some (ReceiptR r, g)" by blast
  from run x u consider "w = v"
    | next_state r' where "advanceReceipt (r_state r) state = Inr next_state"
      "write_receipt ?i (advanced_receipt m r next_state now) ?report v = Inr (r', w)"
    by (auto simp: res_simps split: if_splits)
  then show "view_ok w \<and> receipt_forward (map_option fst (sees u (Receipt, j))) (map_option fst (sees w (Receipt, j)))"
  proof cases
    case 1
    then show ?thesis by (simp add: ok u receipt_forward_refl)
  next
    case 2
    from 2(2) show ?thesis unfolding u
      by (rule write_receipt_forward [OF _ ok before append_event_quiet])
        (auto simp: advanced_receipt_def same_receipt_def Let_def state_forward_advance [OF 2(1)])
  qed
qed

lemma unedited_advanceOwned: "moves unedited Message (advanceOwned sha s messageId state now)"
  unfolding advanceOwned_def
  by (intro message_order.moves_intros message_order.moves_owned message_order.moves_write_receipt_other
      message_order.moves_append_event) simp_all

end
