(* ===== verification/Decision_Groups.thy ===== *)
theory Decision_Groups
  imports Inbox
begin

text \<open>
  The inbox reads only the decisions of the groups it shows
  (\<^verbatim>\<open>messagesFor\<close> of \<^verbatim>\<open>packages/core/src/inbox.mjs\<close>); the statuses it reports are
  those that reading every decision of the workspace gives.
\<close>

section \<open>Statuses from whole groups\<close>

text \<open>\<open>part\<close> holds some decisions of \<open>all\<close>, with every decision linked to one it holds.\<close>

definition whole_groups :: "(id \<times> message) list \<Rightarrow> (id \<times> message) list \<Rightarrow> bool" where
  "whole_groups all part \<longleftrightarrow> keyed all \<and> keyed part
     \<and> (\<forall>i m. map_of part i = Some m \<longrightarrow> map_of all i = Some m)
     \<and> (\<forall>i j. i \<in> set (map fst part) \<longrightarrow> linked all i j \<longrightarrow> j \<in> set (map fst part))"

lemma keyed_map_of: "keyed ds \<Longrightarrow> (i, m) \<in> set ds \<longleftrightarrow> map_of ds i = Some m"
  by (auto simp: keyed_def map_of_eq_Some_iff)

lemma in_keys: "i \<in> set (map fst ds) \<longleftrightarrow> (\<exists>m. map_of ds i = Some m)"
  by (metis map_of_eq_None_iff not_Some_eq set_map)

lemma linked_map:
  assumes "keyed ds"
  shows "linked ds i j \<longleftrightarrow> map_of ds i \<noteq> None \<and> map_of ds j \<noteq> None
    \<and> ((\<exists>m. map_of ds j = Some m \<and> i \<in> set (targets_of m)) \<or> (\<exists>m. map_of ds i = Some m \<and> j \<in> set (targets_of m)))"
proof -
  have "m_messageId m = k" if "map_of ds k = Some m" for k m
    using keyedD [OF assms] that keyed_map_of [OF assms] by blast
  then show ?thesis
    unfolding linked_iff known_targets_def by (auto simp: keyed_map_of [OF assms] split_beta Bex_def)
qed

lemma whole_groups_same:
  assumes "whole_groups all part" and "i \<in> set (map fst part)"
  shows "map_of all i = map_of part i" and "linked all i j = linked part i j"
    and "component all i = component part i" and "i \<in> set (replaced_ids all) \<longleftrightarrow> i \<in> set (replaced_ids part)"
proof -
  have keyed: "keyed all" "keyed part" and sub: "\<And>i m. map_of part i = Some m \<Longrightarrow> map_of all i = Some m"
    and closed: "\<And>i j. i \<in> set (map fst part) \<Longrightarrow> linked all i j \<Longrightarrow> j \<in> set (map fst part)"
    using assms(1) by (auto simp: whole_groups_def simp del: set_map)
  have same: "map_of all k = map_of part k" if "k \<in> set (map fst part)" for k
    using that sub unfolding in_keys by fastforce
  then show "map_of all i = map_of part i" using assms(2) .
  have link: "linked all k j = linked part k j" if "k \<in> set (map fst part)" for k j
  proof (cases "j \<in> set (map fst part)")
    case True
    with that show ?thesis by (simp add: linked_map [OF keyed(1)] linked_map [OF keyed(2)] same del: set_map)
  next
    case False
    with that closed linked_dom [OF keyed(2)] show ?thesis by blast
  qed
  then show "linked all i j = linked part i j" using assms(2) .
  have "(linked all)\<^sup>*\<^sup>* i k \<Longrightarrow> (linked part)\<^sup>*\<^sup>* i k \<and> k \<in> set (map fst part)" for k
    by (induction rule: rtranclp_induct) (use assms(2) link closed in \<open>auto simp del: set_map intro: rtranclp.rtrancl_into_rtrancl\<close>)
  moreover have "(linked part)\<^sup>*\<^sup>* i k \<Longrightarrow> (linked all)\<^sup>*\<^sup>* i k \<and> k \<in> set (map fst part)" for k
    by (induction rule: rtranclp_induct)
      (use assms(2) link linked_dom [OF keyed(2)] in \<open>auto simp del: set_map intro: rtranclp.rtrancl_into_rtrancl\<close>)
  ultimately show "component all i = component part i" by (auto simp: component_def)
  show "i \<in> set (replaced_ids all) \<longleftrightarrow> i \<in> set (replaced_ids part)"
  proof
    assume "i \<in> set (replaced_ids part)"
    then show "i \<in> set (replaced_ids all)"
      using sub by (auto simp: replaced_ids_iff keyed_map_of [OF keyed(1)] keyed_map_of [OF keyed(2)] split_beta Bex_def)
  next
    assume "i \<in> set (replaced_ids all)"
    then obtain k m where m: "map_of all k = Some m" "i \<in> set (targets_of m)" "map_of all i \<noteq> None"
      by (auto simp: replaced_ids_iff keyed_map_of [OF keyed(1)])
    then have "linked all i k" by (auto simp: linked_map [OF keyed(1)])
    with closed assms(2) have "k \<in> set (map fst part)" by blast
    with m same assms(2) have "map_of part k = Some m" "map_of part i \<noteq> None" by metis+
    with m(2) show "i \<in> set (replaced_ids part)"
      by (auto simp: replaced_ids_iff keyed_map_of [OF keyed(2)] split_beta Bex_def)
  qed
qed

lemma sort_same_set:
  fixes xs :: "'a :: linorder list"
  assumes "distinct xs" and "distinct ys" and "set xs = set ys"
  shows "sort xs = sort ys"
  using assms by (intro sorted_distinct_set_unique) simp_all

lemma hd_singleton: "distinct xs \<Longrightarrow> distinct ys \<Longrightarrow> set xs = set ys \<Longrightarrow>
    (if length xs = 1 then Some (hd xs) else None) = (if length ys = 1 then Some (hd ys) else None)"
proof -
  assume *: "distinct xs" "distinct ys" "set xs = set ys"
  then have len: "length xs = length ys" by (metis distinct_card)
  then show ?thesis
  proof (cases "length xs = 1")
    case True
    with len obtain x y where "xs = [x]" "ys = [y]" by (metis One_nat_def length_0_conv length_Suc_conv)
    with * show ?thesis by simp
  qed simp
qed

text \<open>A status depends on the group as a set, and on what its members say.\<close>

lemma group_status_same:
  assumes grp: "distinct grp" "distinct grp'" "set grp = set grp'"
    and same: "\<And>i. i \<in> set grp \<Longrightarrow> map_of ds i = map_of ds' i"
    and replaced: "\<And>i. i \<in> set grp \<Longrightarrow> i \<in> set (replaced_ids ds) \<longleftrightarrow> i \<in> set (replaced_ids ds')"
    and i: "i \<in> set grp"
  shows "group_status ds grp i = group_status ds' grp' i"
proof -
  have heads: "distinct (group_heads ds grp)" "distinct (group_heads ds' grp')"
    "set (group_heads ds grp) = set (group_heads ds' grp')"
    using grp replaced by (auto simp: group_heads_def)
  have w: "withdraws ds j = withdraws ds' j" and r: "is_root ds j = is_root ds' j" if "j \<in> set grp" for j
    using same [OF that] by (simp_all add: withdraws_def is_root_def)
  have count: "length (group_heads ds grp) = length (group_heads ds' grp')" using heads by (metis distinct_card)
  have only: "(if length (group_heads ds grp) = 1 then Some (hd (group_heads ds grp)) else None)
      = (if length (group_heads ds' grp') = 1 then Some (hd (group_heads ds' grp')) else None)"
    by (rule hd_singleton [OF heads])
  have ex: "list_ex (\<lambda>j. \<not> withdraws ds j) (group_heads ds grp) = list_ex (\<lambda>j. \<not> withdraws ds' j) (group_heads ds' grp')"
    using heads(3) w unfolding list_ex_iff by (auto simp: group_heads_def)
  have roots: "set (filter (is_root ds) grp) = set (filter (is_root ds') grp')" using grp(3) r by auto
  then have "filter (is_root ds) grp = [] \<longleftrightarrow> filter (is_root ds') grp' = []" by (metis set_empty)
  then have named: "sort (if filter (is_root ds) grp \<noteq> [] then filter (is_root ds) grp else grp)
      = sort (if filter (is_root ds') grp' \<noteq> [] then filter (is_root ds') grp' else grp')"
    using sort_same_set [OF _ _ roots] sort_same_set [OF grp] grp by simp
  show ?thesis
    unfolding group_status_def Let_def only ex named using replaced [OF i] w [OF i] count by simp
qed

lemma decisionView_some_dom:
  assumes "decisionView messages m = Some x"
  shows "m_messageId m \<in> set (map fst (decision_map messages))"
proof -
  define ds where "ds = decision_map messages"
  define step where "step = (\<lambda>statuses start. if map_of statuses start \<noteq> None then statuses
    else let grp = group_of ds start in statuses @ map (\<lambda>i. (i, group_status ds grp i)) grp)"
  have keyed: "keyed ds" by (simp add: ds_def keyed_decision_map)
  have one: "fst ` set (step st start) \<subseteq> fst ` set ds" if "fst ` set st \<subseteq> fst ` set ds" "start \<in> fst ` set ds" for st start
    using that group_of_component [OF keyed, of start] component_dom [OF keyed, of start]
    by (auto simp: step_def Let_def)
  have "set starts \<subseteq> fst ` set ds \<Longrightarrow> fst ` set st \<subseteq> fst ` set ds \<Longrightarrow> fst ` set (foldl step st starts) \<subseteq> fst ` set ds" for starts st
    by (induction starts arbitrary: st) (simp_all add: one)
  from this [of "map fst ds" "[]"] have "fst ` set (decision_statuses messages) \<subseteq> fst ` set ds"
    unfolding decision_statuses_def Let_def step_def ds_def by simp
  with assms show ?thesis
    by (force simp: decisionView_def ds_def dest!: map_of_SomeD)
qed

lemma decisionView_groups:
  assumes "whole_groups (decision_map all) (decision_map part)"
    and "m_kind m = ''decision'' \<Longrightarrow> m_messageId m \<in> set (map fst (decision_map part))"
    and "m_kind m \<noteq> ''decision'' \<Longrightarrow> m_messageId m \<notin> set (map fst (decision_map all))"
  shows "decisionView part m = decisionView all m"
proof (cases "m_kind m = ''decision''")
  case True
  note dom = assms(2) [OF True]
  have dom': "m_messageId m \<in> set (map fst (decision_map all))"
    using dom assms(1) unfolding whole_groups_def in_keys by blast
  note same = whole_groups_same [OF assms(1)]
  have grp_dom: "component (decision_map part) (m_messageId m) \<subseteq> set (map fst (decision_map part))"
    by (rule component_dom [OF keyed_decision_map dom])
  obtain x y grp grp' where xy: "decisionView part m = Some x" "decisionView all m = Some y"
    and x: "distinct grp" "set grp = component (decision_map part) (m_messageId m)"
      "x = group_status (decision_map part) grp (m_messageId m)"
    and y: "distinct grp'" "set grp' = component (decision_map all) (m_messageId m)"
      "y = group_status (decision_map all) grp' (m_messageId m)"
    using decisionView_status [OF keyed_decision_map refl dom] decisionView_status [OF keyed_decision_map refl dom']
    unfolding status_ok_def by blast
  have "m_messageId m \<in> set grp'" by (simp add: y(2) component_def)
  moreover have "set grp' = set grp" using same(3) [OF dom] x(2) y(2) by simp
  ultimately have "y = x"
    unfolding x(3) y(3) using x(1) y(1) grp_dom same(1, 4) x(2)
    by (intro group_status_same) blast+
  with xy show ?thesis by simp
next
  case False
  then have "m_messageId m \<notin> set (map fst (decision_map part))"
    using assms(1, 3) unfolding whole_groups_def in_keys by blast
  with False assms(3) decisionView_some_dom show ?thesis by (metis option.exhaust)
qed

section \<open>The walk reaches whole groups\<close>

text \<open>The message a view shows under an identifier.\<close>

definition seen_message :: "view \<Rightarrow> id \<Rightarrow> message option" where
  "seen_message v i = as_message (map_option fst (sees v (Message, i)))"

text \<open>Every message stands under its own identifier, in the reader's workspace.\<close>

definition messages_keyed :: "id \<Rightarrow> view \<Rightarrow> bool" where
  "messages_keyed w v \<longleftrightarrow> (\<forall>i m g. sees v (Message, i) = Some (m, g) \<longrightarrow>
     (\<exists>msg. m = MessageR msg \<and> m_messageId msg = i \<and> m_workspaceId msg = w))"

lemma seen_message_iff:
  assumes "messages_keyed w v"
  shows "seen_message v i = Some m \<longleftrightarrow> (\<exists>g. sees v (Message, i) = Some (MessageR m, g))"
    and "seen_message v i = Some m \<Longrightarrow> m_messageId m = i \<and> m_workspaceId m = w"
  using assms by (auto simp: seen_message_def messages_keyed_def elim!: as_message.elims) fastforce+

lemma load_message_eq:
  "load_message i v = Inr (m, u) \<longleftrightarrow> (\<exists>r. load_t Message i v = Inr (r, u) \<and> m = as_message r)"
  by (auto simp: load_message_def res_simps)

lemma map_t_load_message:
  assumes "map_t load_message is v = Inr (found, u)" and "view_ok v"
  shows "view_ok u \<and> sees u = sees v \<and> found = map (seen_message v) is"
  using assms
proof (induction "is" arbitrary: v found)
  case (Cons i "is")
  then obtain r u1 rest where first: "load_t Message i v = Inr (r, u1)" and tail: "map_t load_message is u1 = Inr (rest, u)"
    and found: "found = as_message r # rest"
    by (auto simp: res_simps load_message_eq)
  from load_t_law [OF first Cons.prems(2)] have "view_ok u1" "sees u1 = sees v" "r = map_option fst (sees v (Message, i))" by simp_all
  with Cons.IH [OF tail] found show ?case by (simp add: seen_message_def)
qed (simp add: res_simps)

lemma lookup_decisions:
  assumes "lookup_t DecisionsByTarget [w, i] v = Inr (naming, u)" and "view_ok v" and "messages_keyed w v"
  shows "u = v \<and> set naming = {j. \<exists>m. seen_message v j = Some m \<and> m_kind m = ''decision'' \<and> i \<in> set (targets_of m)}"
proof -
  from lookup_t_law [OF assms(1, 2)] have u: "u = v"
    and naming: "set naming = {j. \<exists>r g. sees v (Message, j) = Some (r, g) \<and> [w, i] \<in> set (index_keys DecisionsByTarget r)}"
    by simp_all
  have keys: "[w, i] \<in> set (index_keys DecisionsByTarget (MessageR m)) \<longleftrightarrow> m_kind m = ''decision'' \<and> i \<in> set (targets_of m)"
    if "seen_message v j = Some m" for j m
    using seen_message_iff(2) [OF assms(3) that] by (auto simp: targets_of_def split: option.splits)
  have "(\<exists>r g. sees v (Message, j) = Some (r, g) \<and> [w, i] \<in> set (index_keys DecisionsByTarget r))
      \<longleftrightarrow> (\<exists>m. seen_message v j = Some m \<and> [w, i] \<in> set (index_keys DecisionsByTarget (MessageR m)))" for j
    using assms(3) unfolding seen_message_iff(1) [OF assms(3)] messages_keyed_def by blast
  with keys have "(\<exists>r g. sees v (Message, j) = Some (r, g) \<and> [w, i] \<in> set (index_keys DecisionsByTarget r))
      \<longleftrightarrow> (\<exists>m. seen_message v j = Some m \<and> m_kind m = ''decision'' \<and> i \<in> set (targets_of m))" for j by blast
  with u naming show ?thesis by (simp only:)
qed

text \<open>The decisions reached so far, and what is left to do for them.\<close>

definition walk_state :: "view \<Rightarrow> (id \<times> message) list \<Rightarrow> (id \<times> message) list \<Rightarrow> message list \<Rightarrow> bool" where
  "walk_state v all grp pending \<longleftrightarrow> keyed grp \<and> (\<forall>(i, m) \<in> set grp. seen_message v i = Some m)
     \<and> set pending \<subseteq> snd ` set grp
     \<and> (\<forall>(i, m) \<in> set grp. m \<notin> set pending \<longrightarrow> (\<forall>j. linked all i j \<longrightarrow> j \<in> fst ` set grp))"

text \<open>\<open>all\<close> is the map of every decision the view shows.\<close>

definition all_decisions :: "view \<Rightarrow> (id \<times> message) list \<Rightarrow> bool" where
  "all_decisions v all \<longleftrightarrow> keyed all \<and> (\<forall>i m. map_of all i = Some m \<longleftrightarrow> seen_message v i = Some m \<and> m_kind m = ''decision'')"

lemma fresh_decisions:
  "set (found_decisions ids (map M ids)) = {(i, m). i \<in> set ids \<and> M i = Some m \<and> m_kind m = ''decision''}"
  "distinct ids \<Longrightarrow> distinct (map fst (found_decisions ids (map M ids)))"
proof -
  show "set (found_decisions ids (map M ids)) = {(i, m). i \<in> set ids \<and> M i = Some m \<and> m_kind m = ''decision''}"
    by (induction ids) (auto simp: found_decisions_def split: option.splits)
  show "distinct ids \<Longrightarrow> distinct (map fst (found_decisions ids (map M ids)))"
    by (induction ids) (auto simp: found_decisions_def split: option.splits dest: set_zip_leftD)
qed

lemma keyed_append:
  assumes "keyed a" and "distinct (map fst b)" and "\<And>i m. (i, m) \<in> set b \<Longrightarrow> m_messageId m = i \<and> m_kind m = ''decision''"
    and "\<And>i m. (i, m) \<in> set b \<Longrightarrow> i \<notin> fst ` set a"
  shows "keyed (a @ b)"
proof -
  have "fst ` set a \<inter> fst ` set b = {}" using assms(4) by force
  with assms(1, 2) have "distinct (map fst (a @ b))" by (simp add: keyed_def)
  moreover have "i = m_messageId m \<and> m_kind m = ''decision''" if "(i, m) \<in> set (a @ b)" for i m
    using that assms(1, 3) unfolding keyed_def by (cases "(i, m) \<in> set b") auto
  ultimately show ?thesis unfolding keyed_def by blast
qed

lemma walk_state_step:
  assumes st: "walk_state v all grp (d # pending)" and all: "all_decisions v all" and keyed: "messages_keyed w v"
    and naming: "set naming = {j. \<exists>m. seen_message v j = Some m \<and> m_kind m = ''decision'' \<and> m_messageId d \<in> set (targets_of m)}"
  defines "unseen \<equiv> unseen_ids grp d naming"
  defines "fresh \<equiv> found_decisions unseen (map (seen_message v) unseen)"
  shows "walk_state v all (grp @ fresh) (rev (map snd fresh) @ pending)"
proof -
  have fresh: "set fresh = {(i, m). i \<in> set unseen \<and> seen_message v i = Some m \<and> m_kind m = ''decision''}"
    "distinct (map fst fresh)"
    unfolding fresh_def by (rule fresh_decisions(1), rule fresh_decisions(2)) (simp add: unseen_def unseen_ids_def)
  have grp: "keyed grp" "\<And>i m. (i, m) \<in> set grp \<Longrightarrow> seen_message v i = Some m" "d \<in> snd ` set grp" "set pending \<subseteq> snd ` set grp"
    "\<And>i m j. (i, m) \<in> set grp \<Longrightarrow> m \<noteq> d \<Longrightarrow> m \<notin> set pending \<Longrightarrow> linked all i j \<Longrightarrow> j \<in> fst ` set grp"
    using st by (auto simp: walk_state_def)
  have new: "i \<notin> fst ` set grp" if "(i, m) \<in> set fresh" for i m
    using that by (auto simp: fresh(1) unseen_def unseen_ids_def map_of_eq_None_iff)
  have "keyed (grp @ fresh)"
    by (rule keyed_append [OF grp(1) fresh(2)]) (use fresh(1) new seen_message_iff(2) [OF keyed] in blast)+
  moreover have "j \<in> fst ` set (grp @ fresh)"
    if i: "(i, m) \<in> set (grp @ fresh)" "m \<notin> set (rev (map snd fresh) @ pending)" and l: "linked all i j" for i m j
  proof (cases "m = d")
    case False
    have "(i, m) \<in> set grp" "m \<notin> set pending" using i by (auto intro: rev_image_eqI)
    with grp(5) [OF _ False _ l] show ?thesis by (simp add: image_Un)
  next
    case True
    have "(i, m) \<in> set grp" using i by (force intro: rev_image_eqI)
    with True grp(1) have id: "i = m_messageId d" by (auto simp: keyed_def)
    from l all obtain mj where j: "seen_message v j = Some mj" "m_kind mj = ''decision''"
      and "j \<in> set (targets_of d) \<or> m_messageId d \<in> set (targets_of mj)"
      using \<open>(i, m) \<in> set grp\<close> grp(2) True id by (fastforce simp: all_decisions_def linked_map)
    then have "j \<in> set (js_uniq (targets_of d @ naming))" using naming by auto
    with j show ?thesis by (cases "map_of grp j") (auto simp: fresh(1) unseen_def unseen_ids_def dest: map_of_SomeD intro: rev_image_eqI)
  qed
  ultimately show ?thesis using grp fresh by (auto simp: walk_state_def)
qed

lemma finite_seen: "finite {i. seen_message v i \<noteq> None}" "card {i. seen_message v i \<noteq> None} \<le> record_count v"
proof -
  let ?keys = "snd ` fst ` (set (x_staged v)) \<union> snd ` fst ` (set (st_state (x_store v)))"
  have "i \<in> ?keys" if "seen_message v i \<noteq> None" for i
  proof -
    have "sees v (Message, i) \<noteq> None" using that by (cases "sees v (Message, i)") (simp_all add: seen_message_def)
    then consider e where "map_of (x_staged v) (Message, i) = Some e" | e where "map_of (st_state (x_store v)) (Message, i) = Some e"
      by (auto simp: sees_def base_def split: option.splits)
    then show ?thesis by cases (auto dest!: map_of_SomeD intro: rev_image_eqI)
  qed
  then have sub: "{i. seen_message v i \<noteq> None} \<subseteq> ?keys" by blast
  then show "finite {i. seen_message v i \<noteq> None}" by (rule finite_subset) simp
  have "card ?keys \<le> card (snd ` fst ` (set (x_staged v))) + card (snd ` fst ` (set (st_state (x_store v))))"
    by (rule card_Un_le)
  also have "\<dots> \<le> length (x_staged v) + length (st_state (x_store v))"
    by (intro add_mono; metis card_image_le card_length finite_imageI le_trans List.finite_set)
  finally have "card ?keys \<le> record_count v" by (simp add: record_count_def)
  with card_mono [OF _ sub] show "card {i. seen_message v i \<noteq> None} \<le> record_count v" by simp
qed

lemma walk_state_size:
  assumes "walk_state v all grp pending"
  shows "length grp \<le> card {i. seen_message v i \<noteq> None}"
proof -
  have "distinct (map fst grp)" "set (map fst grp) \<subseteq> {i. seen_message v i \<noteq> None}"
    using assms unfolding walk_state_def keyed_def by force+
  with card_mono [OF finite_seen(1) this(2)] show ?thesis using distinct_card [of "map fst grp"] by simp
qed

lemma walk_decisions_whole:
  assumes "walk_decisions n w grp pending v = Inr (whole, u)" and "view_ok v" and "messages_keyed w v"
    and "all_decisions v all" and "walk_state v all grp pending"
    and "card {i. seen_message v i \<noteq> None} + length pending \<le> n + length grp"
  shows "set grp \<subseteq> set whole \<and> walk_state v all whole []"
  using assms
proof (induction n w grp pending arbitrary: v rule: walk_decisions.induct)
  case (1 w grp pending)
  with walk_state_size [OF "1.prems"(5)] have "length pending = 0" by linarith
  then have "pending = []" by simp
  with 1 show ?case by (simp add: res_simps)
next
  case (2 n w grp)
  then show ?case by (auto simp: res_simps)
next
  case (3 n w grp d pending)
  from "3.prems"(1) obtain naming u1 found u2 where look: "lookup_t DecisionsByTarget [w, m_messageId d] v = Inr (naming, u1)"
    and load: "map_t load_message (unseen_ids grp d naming) u1 = Inr (found, u2)"
    and rest: "walk_decisions n w (grp @ found_decisions (unseen_ids grp d naming) found)
      (rev (map snd (found_decisions (unseen_ids grp d naming) found)) @ pending) u2 = Inr (whole, u)"
    by (auto simp: res_simps Let_def)
  note naming = lookup_decisions [OF look "3.prems"(2, 3)]
  have u2: "view_ok u2" "sees u2 = sees v" and found: "found = map (seen_message v) (unseen_ids grp d naming)"
    using map_t_load_message [OF load] naming "3.prems"(2) by auto
  have same: "seen_message u2 = seen_message v" by (simp add: seen_message_def u2(2) fun_eq_iff)
  have frame: "walk_state u2 = walk_state v" "all_decisions u2 = all_decisions v" "messages_keyed w u2 = messages_keyed w v"
    by (simp_all add: walk_state_def all_decisions_def messages_keyed_def same u2(2) fun_eq_iff)
  let ?fresh = "found_decisions (unseen_ids grp d naming) found"
  have "walk_state u2 all (grp @ ?fresh) (rev (map snd ?fresh) @ pending)"
    unfolding frame found by (rule walk_state_step [OF "3.prems"(5, 4, 3)]) (use naming in blast)
  moreover have "card {i. seen_message u2 i \<noteq> None} + length (rev (map snd ?fresh) @ pending) \<le> n + length (grp @ ?fresh)"
    using "3.prems"(6) by (simp add: same)
  moreover have "messages_keyed w u2" "all_decisions u2 all" unfolding frame by (rule "3.prems")+
  ultimately have "set (grp @ ?fresh) \<subseteq> set whole \<and> walk_state u2 all whole []"
    using "3.IH" [OF refl rest u2(1)] by blast
  then show ?case unfolding frame by simp
qed

lemma walk_state_whole_groups:
  assumes "walk_state v all whole []" and "all_decisions v all"
  shows "whole_groups all whole"
proof -
  have keyed: "keyed whole" using assms(1) by (simp add: walk_state_def)
  have "map_of all i = Some m" if "map_of whole i = Some m" for i m
  proof -
    have "(i, m) \<in> set whole" using that keyed_map_of [OF keyed] by blast
    with assms show ?thesis by (auto simp: walk_state_def all_decisions_def keyed_def)
  qed
  with assms keyed show ?thesis by (force simp: whole_groups_def walk_state_def all_decisions_def)
qed

section \<open>What the inbox shows\<close>

text \<open>\<open>everything\<close> lists each message the view shows once.\<close>

definition every_message :: "view \<Rightarrow> message list \<Rightarrow> bool" where
  "every_message v everything \<longleftrightarrow> distinct (map m_messageId everything)
     \<and> (\<forall>m. m \<in> set everything \<longleftrightarrow> seen_message v (m_messageId m) = Some m)"

lemma every_message_decisions:
  assumes "every_message v everything" and "messages_keyed w v"
  shows "all_decisions v (decision_map everything)"
proof -
  have map: "decision_map everything = map (\<lambda>m. (m_messageId m, m)) (filter (\<lambda>m. m_kind m = ''decision'') everything)"
    using assms(1) by (intro decision_map_distinct) (simp add: every_message_def)
  have "map_of (decision_map everything) i = Some m \<longleftrightarrow> seen_message v i = Some m \<and> m_kind m = ''decision''" for i m
    unfolding keyed_map_of [OF keyed_decision_map, symmetric]
    using assms(1) seen_message_iff(2) [OF assms(2), of i m] by (auto simp: map every_message_def)
  then show ?thesis by (simp add: all_decisions_def keyed_decision_map)
qed

lemma decision_map_keyed:
  assumes "keyed ds"
  shows "decision_map (map snd ds) = ds"
proof -
  have each: "m_messageId (snd x) = fst x \<and> m_kind (snd x) = ''decision''" if "x \<in> set ds" for x
    using that assms by (cases x) (auto simp: keyed_def)
  then have ids: "map m_messageId (map snd ds) = map fst ds" and kind: "filter (\<lambda>m. m_kind m = ''decision'') (map snd ds) = map snd ds"
    by (simp_all add: filter_id_conv)
  have "distinct (map m_messageId (map snd ds))" unfolding ids using assms by (simp add: keyed_def)
  from decision_map_distinct [OF this] kind have "decision_map (map snd ds) = map (\<lambda>m. (m_messageId m, m)) (map snd ds)" by simp
  also have "\<dots> = ds" using each by (auto intro!: map_idI)
  finally show ?thesis .
qed

lemma some_found:
  "set [(i, m). (i, Some m) \<leftarrow> zip is (map M is)] = {(i, m). i \<in> set is \<and> M i = Some m}"
  by (induction "is") (auto split: option.splits)

lemma decisions_of_start:
  assumes "\<And>i m. (i, m) \<in> set ms \<Longrightarrow> seen_message v i = Some m" and "messages_keyed w v"
  shows "walk_state v all (decisions_of ms) (rev (map snd (decisions_of ms)))"
    and "(i, m) \<in> set ms \<Longrightarrow> m_kind m = ''decision'' \<Longrightarrow> i \<in> fst ` set (decisions_of ms)"
proof -
  have sub: "(j, n) \<in> set (decisions_of ms) \<Longrightarrow> seen_message v j = Some n" for j n
  proof -
    have update: "set (AList.update k x l) \<subseteq> insert (k, x) (set l)" for k :: id and x :: message and l
      by (induction l) auto
    have fold: "set (foldl (\<lambda>m msg. AList.update (m_messageId msg) msg m) l ns) \<subseteq> set l \<union> (\<lambda>n. (m_messageId n, n)) ` set ns"
      for l :: "(id \<times> message) list" and ns
    proof (induction ns arbitrary: l)
      case (Cons n ns)
      from Cons.IH [of "AList.update (m_messageId n) n l"] update [of "m_messageId n" n l] show ?case by auto
    qed simp
    have "set (decisions_of ms) \<subseteq> (\<lambda>n. (m_messageId n, n)) ` set (map snd ms)"
      unfolding decisions_of_def decision_map_def
      by (rule order_trans [OF fold]) auto
    moreover assume "(j, n) \<in> set (decisions_of ms)"
    ultimately obtain i where "(i, n) \<in> set ms" "j = m_messageId n" by auto
    with assms show ?thesis using seen_message_iff(2) by blast
  qed
  have keyed: "keyed (decisions_of ms)" by (simp add: decisions_of_def keyed_decision_map)
  from sub keyed show "walk_state v all (decisions_of ms) (rev (map snd (decisions_of ms)))"
    by (auto simp: walk_state_def intro: rev_image_eqI)
  assume im: "(i, m) \<in> set ms" "m_kind m = ''decision''"
  have keys: "fst ` set (foldl (\<lambda>m msg. AList.update (m_messageId msg) msg m) l ns) = fst ` set l \<union> m_messageId ` set ns" for l ns
    by (induction ns arbitrary: l) (auto simp: dom_update [unfolded dom_map_of_conv_image_fst])
  have "m_messageId m = i" using assms im seen_message_iff(2) by blast
  with im show "i \<in> fst ` set (decisions_of ms)"
    unfolding decisions_of_def decision_map_def keys by force
qed

lemma messagesFor_statuses:
  assumes run: "messagesFor s receipts v = Inr (ms, u)" and ok: "view_ok v" and keyed: "messages_keyed (s_workspaceId s) v"
    and every: "every_message v everything" and ims: "(i, m, status) \<in> set ms"
  shows "i \<in> fst ` set receipts \<and> seen_message v i = Some m \<and> status = decisionView everything m"
proof -
  note all = every_message_decisions [OF every keyed]
  obtain found u1 where load: "map_t load_message (map fst receipts) v = Inr (found, u1)" using run by (auto simp: messagesFor_def res_simps)
  note law = map_t_load_message [OF load ok]
  define shown where "shown = [(i, m). (i, Some m) \<leftarrow> zip (map fst receipts) found]"
  have shown: "set shown = {(i, m). i \<in> fst ` set receipts \<and> seen_message v i = Some m}"
    unfolding shown_def using some_found [of "map fst receipts" "seen_message v"] law by simp
  have same: "seen_message u1 = seen_message v" using law by (simp add: seen_message_def fun_eq_iff)
  have outside: "decisionView everything m = None" if "seen_message v i = Some m" "m_kind m \<noteq> ''decision''" for i m
  proof (rule ccontr)
    assume "decisionView everything m \<noteq> None"
    then obtain n where "map_of (decision_map everything) (m_messageId m) = Some n"
      using decisionView_some_dom in_keys by (metis option.exhaust)
    with all that seen_message_iff(2) [OF keyed that(1)] show False by (auto simp: all_decisions_def)
  qed
  have im: "(i, m) \<in> set shown" and status: "status = decisionView everything m"
  proof -
    show "(i, m) \<in> set shown"
      using run ims load by (auto simp: messagesFor_def res_simps shown_def [symmetric] Let_def split: if_splits)
    then have seen: "seen_message v i = Some m" using shown by auto
    show "status = decisionView everything m"
    proof (cases "decisions_of shown = []")
      case True
      with decisions_of_start(2) [OF _ keyed, of shown i m] \<open>(i, m) \<in> set shown\<close> shown have "m_kind m \<noteq> ''decision''" by auto
      with True run ims load outside [OF seen] show ?thesis
        by (auto simp: messagesFor_def res_simps shown_def [symmetric] Let_def)
    next
      case False
      with run load obtain whole u2 where walk: "walk_decisions (record_count u1) (s_workspaceId s) (decisions_of shown)
          (rev (map snd (decisions_of shown))) u1 = Inr (whole, u2)"
        and ms: "ms = map (\<lambda>(i, m). (i, m, decisionView (map snd whole) m)) shown"
        by (auto simp: messagesFor_def res_simps shown_def [symmetric] Let_def)
      have frame: "walk_state u1 = walk_state v" "all_decisions u1 = all_decisions v"
          "messages_keyed (s_workspaceId s) u1 = messages_keyed (s_workspaceId s) v"
        using law by (simp_all add: walk_state_def all_decisions_def messages_keyed_def same fun_eq_iff)
      have start: "walk_state v (decision_map everything) (decisions_of shown) (rev (map snd (decisions_of shown)))"
        by (rule decisions_of_start(1) [OF _ keyed]) (use shown in blast)
      have whole: "set (decisions_of shown) \<subseteq> set whole" "walk_state v (decision_map everything) whole []"
        using walk_decisions_whole [OF walk, of "decision_map everything"] law frame keyed all start finite_seen(2) [of u1] by simp_all
      have groups: "whole_groups (decision_map everything) (decision_map (map snd whole))"
        using walk_state_whole_groups [OF whole(2) all] decision_map_keyed [of whole] whole(2) by (simp add: walk_state_def)
      have "status = decisionView (map snd whole) m" using ims by (auto simp: ms)
      also have "\<dots> = decisionView everything m"
      proof (rule decisionView_groups [OF groups])
        have id: "m_messageId m = i" by (rule seen_message_iff(2) [OF keyed seen, THEN conjunct1])
        show "m_messageId m \<in> set (map fst (decision_map (map snd whole)))" if "m_kind m = ''decision''"
          using decisions_of_start(2) [OF _ keyed \<open>(i, m) \<in> set shown\<close> that] shown whole
          by (force simp: decision_map_keyed walk_state_def id)
        show "m_messageId m \<notin> set (map fst (decision_map everything))" if "m_kind m \<noteq> ''decision''"
          using that all seen unfolding in_keys id by (auto simp: all_decisions_def)
      qed
      finally show ?thesis .
    qed
  qed
  from im shown status show ?thesis by auto
qed

section \<open>Properties\<close>

text \<open>
  C24. The inbox gives each message the status that reading every decision of the workspace
  gives it. A page reads only the messages of the reader's receipts and walks the decision
  groups of those through the index by target; what \<^verbatim>\<open>messagesFor\<close> returns is, for
  each receipt whose message exists, that message with the status \<^verbatim>\<open>decisionView\<close> gives
  it over the snapshot of all messages, as the next-turn delivery and the status report
  compute it. The walk ends: it takes at most one turn for each record.
\<close>

theorem inbox_decisions_are_global:
  assumes "begin_view st (Some OFFER_TX) OFFER_TX = Inr v" and "wf_store st"
    and keyed: "\<forall>((k, i), env) \<in> set (st_state st). k = Message \<longrightarrow>
      (\<exists>m. v_record env = MessageR m \<and> m_messageId m = i \<and> m_workspaceId m = s_workspaceId s)"
    and everything: "snapshot_kind st (s_workspaceId s) None Message = Inr rs"
    and "messagesFor s receipts v = Inr (shown, u)" and "(i, m, status) \<in> set shown"
  shows "i \<in> fst ` set receipts \<and> m_messageId m = i \<and> MessageR m \<in> set rs
    \<and> status = decisionView (all_of as_message rs) m"
proof -
  note begun = begin_view_law [OF assms(1, 2)]
  then have ok: "view_ok v" and sees: "sees v = store_map st" by simp_all
  have distinct: "distinct (map fst (st_state st))" using assms(2) by (simp add: wf_store_def)
  have stored: "store_map st (Message, j) = Some (r, g) \<longleftrightarrow> ((Message, j), \<lparr>v_generation = g, v_record = r\<rparr>) \<in> set (st_state st)" for j r g
  proof -
    have "store_map st (Message, j) = Some (r, g)
        \<longleftrightarrow> (\<exists>z. map_of (st_state st) (Message, j) = Some z \<and> z = \<lparr>v_generation = g, v_record = r\<rparr>)"
      by (auto simp: store_map_def intro!: envelope.equality)
    then show ?thesis by (simp add: map_of_eq_Some_iff [OF distinct])
  qed
  have mk: "messages_keyed (s_workspaceId s) v"
    using keyed unfolding messages_keyed_def sees stored by fastforce
  have rs: "rs = map (\<lambda>x. v_record (snd x)) (list_keys (st_state st) Message)"
  proof -
    obtain envs where "listState st Message = Inr envs"
      and rs: "rs = filter (\<lambda>r. workspace_of r = Some (s_workspaceId s)) (map (\<lambda>(_, env). v_record env) envs)"
      using everything by (auto simp: snapshot_kind_def bind_r_eq_Inr)
    then have envs: "envs = list_keys (st_state st) Message" by (intro listState_eq)
    have "workspace_of (v_record env) = Some (s_workspaceId s)" if "(key, env) \<in> set (list_keys (st_state st) Message)" for key env
      using that keyed by (fastforce simp: set_list_keys)
    then have "filter (\<lambda>r. workspace_of r = Some (s_workspaceId s)) (map (\<lambda>(_, env). v_record env) envs) = map (\<lambda>(_, env). v_record env) envs"
      unfolding envs by (intro filter_True) auto
    then show ?thesis unfolding rs by (simp add: envs split_beta)
  qed
  let ?all = "all_of as_message rs"
  have each: "\<exists>j m. x = ((Message, j), snd x) \<and> v_record (snd x) = MessageR m \<and> m_messageId m = j"
    if "x \<in> set (list_keys (st_state st) Message)" for x
  proof -
    obtain k j e where x: "x = ((k, j), e)" by (metis surj_pair)
    with that have "((k, j), e) \<in> set (st_state st)" "k = Message" by (auto simp: set_list_keys)
    with keyed x show ?thesis by fastforce
  qed
  have ids: "map m_messageId ?all = map (\<lambda>x. snd (fst x)) (list_keys (st_state st) Message)"
  proof -
    have "(\<And>x. x \<in> set xs \<Longrightarrow> \<exists>j m. x = ((Message, j), snd x) \<and> v_record (snd x) = MessageR m \<and> m_messageId m = j) \<Longrightarrow>
        map m_messageId (all_of as_message (map (\<lambda>x. v_record (snd x)) xs)) = map (\<lambda>x. snd (fst x)) xs" for xs
    proof (induction xs)
      case (Cons x xs)
      from Cons.prems [of x] obtain j m where "x = ((Message, j), snd x)" "v_record (snd x) = MessageR m" "m_messageId m = j" by auto
      then have "snd (fst x) = j" "as_message (Some (v_record (snd x))) = Some m" by (metis fst_conv snd_conv, simp)
      with Cons \<open>m_messageId m = j\<close> show ?case by (simp add: all_of_def)
    qed (simp add: all_of_def)
    then show ?thesis unfolding rs using each by blast
  qed
  have "fst x = Pair Message (snd (fst x))" if "x \<in> set (list_keys (st_state st) Message)" for x
    using that by (cases "fst x") (auto simp: set_list_keys)
  then have "map fst (list_keys (st_state st) Message) = map (Pair Message) (map (\<lambda>x. snd (fst x)) (list_keys (st_state st) Message))"
    by simp
  with distinct_list_keys [OF distinct, of Message]
  have "distinct (map (\<lambda>x. snd (fst x)) (list_keys (st_state st) Message))" using distinct_map by metis
  moreover have member: "n \<in> set ?all \<longleftrightarrow> MessageR n \<in> set rs" for n
  proof -
    have "as_message (Some x) = Some n \<longleftrightarrow> x = MessageR n" for x by (cases x) auto
    then show ?thesis by (auto simp: all_of_def eq_commute [of "Some n"] split: option.splits)
  qed
  moreover have "MessageR n \<in> set rs \<longleftrightarrow> seen_message v (m_messageId n) = Some n" for n
    unfolding seen_message_iff(1) [OF mk] sees stored rs
  proof
    assume "MessageR n \<in> set (map (\<lambda>x. v_record (snd x)) (list_keys (st_state st) Message))"
    then obtain x where x: "x \<in> set (list_keys (st_state st) Message)" "v_record (snd x) = MessageR n" by auto
    from each [OF x(1)] x(2) have "x = ((Message, m_messageId n), snd x)" by auto
    moreover have "snd x = \<lparr>v_generation = v_generation (snd x), v_record = MessageR n\<rparr>" using x(2) by simp
    ultimately show "\<exists>g. ((Message, m_messageId n), \<lparr>v_generation = g, v_record = MessageR n\<rparr>) \<in> set (st_state st)"
      using x(1) unfolding set_list_keys by (metis (no_types, lifting) mem_Collect_eq)
  qed (force simp: set_list_keys)
  ultimately have every: "every_message v ?all" by (simp add: every_message_def ids)
  from messagesFor_statuses [OF assms(5) ok mk every assms(6)]
  have "i \<in> fst ` set receipts" "seen_message v i = Some m" "status = decisionView ?all m" by blast+
  moreover from this(2) seen_message_iff(2) [OF mk] have "m_messageId m = i" by blast
  moreover have "MessageR m \<in> set rs" using every member calculation(2, 4) by (auto simp: every_message_def)
  ultimately show ?thesis by blast
qed

text \<open>A workspace in which decision \<open>b\<close> replaces decision \<open>a\<close>.\<close>

definition replaced_workspace :: store where
  "replaced_workspace = \<lparr>st_workspaceId = ''w'', st_ids = (\<lambda>label n. label), st_issued = 0,
     st_state = [((Message, ''a''), \<lparr>v_generation = ''g1'', v_record = MessageR (sample_message ''a'' ''decision'' None)\<rparr>),
       ((Message, ''b''), \<lparr>v_generation = ''g2'', v_record = MessageR (sample_message ''b'' ''decision''
          (Some \<lparr>d_action = ''replace'', d_messageIds = [''a'']\<rparr>))\<rparr>)],
     st_ephemeral = [], st_events = [], st_floor = None\<rparr>"

theorem inbox_decisions_are_global_witness:
  "\<exists>v shown u m status. begin_view replaced_workspace (Some OFFER_TX) OFFER_TX = Inr v
     \<and> messagesFor (sample_session ''s2'' ''bob'' ''g'') [(''a'', sample_receipt ''a'' ''bob'' ''queued'')] v = Inr (shown, u)
     \<and> (''a'', m, Some status) \<in> set shown \<and> \<not> dx_isHead status
     \<and> Some status = decisionView [sample_message ''a'' ''decision'' None, sample_message ''b'' ''decision''
         (Some \<lparr>d_action = ''replace'', d_messageIds = [''a'']\<rparr>)] m"
proof -
  let ?s = "sample_session ''s2'' ''bob'' ''g''" and ?r = "[(''a'', sample_receipt ''a'' ''bob'' ''queued'')]"
  have "case begin_view replaced_workspace (Some OFFER_TX) OFFER_TX of Inl _ \<Rightarrow> False | Inr v \<Rightarrow>
      (case messagesFor ?s ?r v of Inl _ \<Rightarrow> False
       | Inr (shown, u) \<Rightarrow> map (\<lambda>(i, m, x). (i, map_option dx_isHead x)) shown = [(''a'', Some False)])"
    by code_simp
  then obtain v shown u where v: "begin_view replaced_workspace (Some OFFER_TX) OFFER_TX = Inr v"
    and shown: "messagesFor ?s ?r v = Inr (shown, u)" "map (\<lambda>(i, m, x). (i, map_option dx_isHead x)) shown = [(''a'', Some False)]"
    by (auto split: sum.splits)
  from shown(2) obtain m status where m: "(''a'', m, Some status) \<in> set shown" "\<not> dx_isHead status" by auto
  have wf: "wf_store replaced_workspace"
    by (simp add: wf_store_def replaced_workspace_def STATE_KINDS_def ascending_def)
  have "case snapshot_kind replaced_workspace ''w'' None Message of Inl _ \<Rightarrow> False
      | Inr rs \<Rightarrow> rs = [MessageR (sample_message ''a'' ''decision'' None), MessageR (sample_message ''b'' ''decision''
           (Some \<lparr>d_action = ''replace'', d_messageIds = [''a'']\<rparr>))]"
    by code_simp
  then have all: "snapshot_kind replaced_workspace (s_workspaceId ?s) None Message = Inr [MessageR (sample_message ''a'' ''decision'' None),
      MessageR (sample_message ''b'' ''decision'' (Some \<lparr>d_action = ''replace'', d_messageIds = [''a'']\<rparr>))]"
    by (auto simp: sample_session_def split: sum.splits)
  have "Some status = decisionView (all_of as_message [MessageR (sample_message ''a'' ''decision'' None),
      MessageR (sample_message ''b'' ''decision'' (Some \<lparr>d_action = ''replace'', d_messageIds = [''a'']\<rparr>))]) m"
    using inbox_decisions_are_global [OF v wf _ all shown(1) m(1)]
    by (simp add: replaced_workspace_def sample_message_def sample_session_def)
  then have "Some status = decisionView [sample_message ''a'' ''decision'' None, sample_message ''b'' ''decision''
      (Some \<lparr>d_action = ''replace'', d_messageIds = [''a'']\<rparr>)] m"
    by (simp add: all_of_def)
  with v shown(1) m show ?thesis by blast
qed

end
