(* ===== verification/Intents.thy ===== *)
theory Intents
  imports Sessions
begin

text \<open>
  Intents: what a session says it is doing (\<^verbatim>\<open>packages/core/src/intents.mjs\<close>). A lone
  session's intent is ephemeral; a materialised workspace keeps it durably and marks it done
  instead of erasing it.
\<close>

definition isCurrentIntent :: "intent \<Rightarrow> bool" where
  "isCurrentIntent i = (i_state i \<noteq> ''done'')"

definition intent_owner :: "id \<Rightarrow> session option \<Rightarrow> session res" where
  "intent_owner generation current = (case current of
     None \<Rightarrow> Inl (AccError CONFLICT ''session is not open'')
   | Some s \<Rightarrow>
       if s_generation s \<noteq> generation
       then Inl (AccError CONFLICT ''intent belongs to a replaced session generation'')
       else if s_state s \<noteq> ''open''
       then Inl (AccError CONFLICT ''a closed session cannot publish intent'')
       else Inr s)"

definition require_intent_owner :: "id \<Rightarrow> id option \<Rightarrow> id \<Rightarrow> store \<Rightarrow> session res" where
  "require_intent_owner sessionId workspaceId generation st =
     bind_r (locate st sessionId workspaceId) (\<lambda>located. intent_owner generation (map_option fst located))"

definition require_intent_owner_t :: "id \<Rightarrow> id \<Rightarrow> session tx" where
  "require_intent_owner_t sessionId generation =
     bind_t (get_t Session sessionId) (\<lambda>current. lift_t (intent_owner generation (as_session current)))"

record intent_input =
  ii_sessionId :: id
  ii_workspaceId :: "id option"
  ii_generation :: id
  ii_summary :: string
  ii_mode :: string
  ii_resourceHints :: "string list option"
  ii_state :: "string option"

definition intent_record :: "intent_input \<Rightarrow> id \<Rightarrow> time \<Rightarrow> intent res" where
  "intent_record input workspaceId now =
     (let r = \<lparr>i_sessionId = ii_sessionId input, i_workspaceId = workspaceId, i_summary = ii_summary input,
        i_mode = ii_mode input, i_resourceHints = or_else (ii_resourceHints input) [],
        i_state = or_else (ii_state input) ''active'', i_updatedAt = now\<rparr>
      in bind_r (validate Intent (IntentR r)) (\<lambda>_. Inr r))"

text \<open>The ephemeral write: under the lock, only while nothing is durable and the owner still owns.\<close>

definition set_ephemeral :: "id \<Rightarrow> id \<Rightarrow> intent \<Rightarrow> store \<Rightarrow> (intent option \<times> store) res" where
  "set_ephemeral workspaceId generation intent st =
     bind_r (eph_update st Intent (i_sessionId intent) (\<lambda>_.
       bind_r (isMaterialised st workspaceId) (\<lambda>m.
       if m then Inr None
       else bind_r (require_intent_owner (i_sessionId intent) (Some workspaceId) generation st) (\<lambda>_.
         Inr (Some (IntentR intent))))))
     (\<lambda>(r, st'). Inr (as_intent r, st'))"

definition set_intent_tx :: "id \<Rightarrow> id \<Rightarrow> intent \<Rightarrow> time \<Rightarrow> unit tx" where
  "set_intent_tx workspaceId generation intent now =
     bind_t (require_intent_owner_t (i_sessionId intent) generation) (\<lambda>_.
     bind_t (generationOf Intent (i_sessionId intent)) (\<lambda>g.
     bind_t (put_t Intent (i_sessionId intent) (IntentR intent) g) (\<lambda>_.
     append_event workspaceId (i_sessionId intent) ''intent.published'' now
       [(''mode'', JStr (i_mode intent)), (''state'', JStr (i_state intent))])))"

definition setIntent :: "intent_input \<Rightarrow> time \<Rightarrow> intent svc" where
  "setIntent input now =
     bind_s (read_s (require_intent_owner (ii_sessionId input) (ii_workspaceId input) (ii_generation input))) (\<lambda>owner.
     let workspaceId = s_workspaceId owner in
     bind_s (lift_s (intent_record input workspaceId now)) (\<lambda>intent.
     bind_s (read_s (\<lambda>st. isMaterialised st workspaceId)) (\<lambda>m.
     bind_s (if m then return_s None else step_s (set_ephemeral workspaceId (ii_generation input) intent)) (\<lambda>written.
     case written of
       Some r \<Rightarrow> return_s r
     | None \<Rightarrow> bind_s (step_s (transaction (Some [Session, Intent]) []
           (set_intent_tx workspaceId (ii_generation input) intent now))) (\<lambda>_. return_s intent)))))"

text \<open>The result says whether the delete guard ran to its end.\<close>

definition clear_ephemeral :: "id \<Rightarrow> id \<Rightarrow> id \<Rightarrow> store \<Rightarrow> (bool \<times> store) res" where
  "clear_ephemeral sessionId workspaceId generation st =
     bind_r (eph_get st Intent sessionId) (\<lambda>current.
     if current = None then Inr (False, st)
     else bind_r (isMaterialised st workspaceId) (\<lambda>m.
       if m then Inr (False, st)
       else bind_r (require_intent_owner sessionId (Some workspaceId) generation st) (\<lambda>_.
         bind_r (eph_delete st Intent sessionId (\<lambda>_. True)) (\<lambda>st'. Inr (True, st')))))"

definition clear_intent_tx :: "id \<Rightarrow> id \<Rightarrow> id \<Rightarrow> time \<Rightarrow> unit tx" where
  "clear_intent_tx sessionId workspaceId generation now =
     bind_t (require_intent_owner_t sessionId generation) (\<lambda>_.
     bind_t (get_t Intent sessionId) (\<lambda>current.
     case as_intent current of
       None \<Rightarrow> return_t ()
     | Some i \<Rightarrow> bind_t (generationOf Intent sessionId) (\<lambda>g.
         bind_t (put_t Intent sessionId (IntentR (i\<lparr>i_state := ''done'', i_updatedAt := now\<rparr>)) g) (\<lambda>_.
         append_event workspaceId sessionId ''intent.cleared'' now []))))"

definition clearIntent :: "id \<Rightarrow> id option \<Rightarrow> id \<Rightarrow> time \<Rightarrow> unit svc" where
  "clearIntent sessionId workspace generation now =
     bind_s (read_s (require_intent_owner sessionId workspace generation)) (\<lambda>owner.
     let workspaceId = s_workspaceId owner;
         durable = step_s (transaction (Some [Session, Intent]) [] (clear_intent_tx sessionId workspaceId generation now))
     in bind_s (read_s (\<lambda>st. isMaterialised st workspaceId)) (\<lambda>m.
        if m then durable
        else bind_s (step_s (clear_ephemeral sessionId workspaceId generation)) (\<lambda>cleared.
          if cleared then return_s ()
          else bind_s (read_s (require_intent_owner sessionId (Some workspaceId) generation)) (\<lambda>_.
            bind_s (read_s (\<lambda>st. isMaterialised st workspaceId)) (\<lambda>now_durable.
            if now_durable then durable else return_s ())))))"

section \<open>Shape of the transactions\<close>

lemma lawful_set_intent: "lawful (set_intent_tx w g i t)"
  unfolding set_intent_tx_def require_intent_owner_t_def by (intro lawful_intros) simp

lemma lawful_clear_intent: "lawful (clear_intent_tx s w g t)"
  unfolding clear_intent_tx_def require_intent_owner_t_def by (intro lawful_intros) simp

end
