(* ===== verification/Finish.thy ===== *)
theory Finish
  imports Messages
begin

text \<open>
  Finishing a session, and finishing it again: \<^verbatim>\<open>finishSession\<close> of
  \<^verbatim>\<open>packages/core/src/conversations.mjs\<close> and the reconstruction of
  \<^verbatim>\<open>finish-retries.mjs\<close>, which reads from the event log what a finish that was already
  recorded released.
\<close>

section \<open>The whole event log\<close>

definition PAGE_SIZE :: nat where
  "PAGE_SIZE = 256"

text \<open>
  \<^verbatim>\<open>allEvents\<close>: one page after another until an empty one. A page that is not empty moves
  the cursor past an event, so as many turns as there are events, and one more, end the loop.
\<close>

fun all_pages :: "nat \<Rightarrow> store \<Rightarrow> id \<Rightarrow> nat option \<Rightarrow> event list \<Rightarrow> event list res" where
  "all_pages 0 st workspaceId cursor events = Inl (JsError ''more pages than events'')"
| "all_pages (Suc n) st workspaceId cursor events =
     bind_r (eventsSince st None workspaceId cursor (Some PAGE_SIZE)) (\<lambda>page.
     if pg_events page = [] then Inr events
     else all_pages n st workspaceId (Some (pg_cursor page)) (events @ pg_events page))"

definition allEvents :: "store \<Rightarrow> id \<Rightarrow> event list res" where
  "allEvents st workspaceId = all_pages (Suc (length (st_events st))) st workspaceId None []"

section \<open>What a recorded finish released\<close>

text \<open>\<^verbatim>\<open>===\<close> on values of two payloads: two objects are never the same one.\<close>

fun js_same :: "json option \<Rightarrow> json option \<Rightarrow> bool" where
  "js_same (Some (JArr _)) _ = False"
| "js_same (Some (JObj _)) _ = False"
| "js_same a b = (a = b)"

definition payload :: "event \<Rightarrow> string \<Rightarrow> json option" where
  "payload e key = map_of (e_payload e) key"

definition is_string :: "json option \<Rightarrow> bool" where
  "is_string v = (case v of Some (JStr _) \<Rightarrow> True | _ \<Rightarrow> False)"

record released_claim =
  rl_claimId :: "json option"
  rl_resource :: "json option"
  rl_mode :: "json option"

definition projectReleasedClaim :: "claim \<Rightarrow> released_claim" where
  "projectReleasedClaim c = \<lparr>rl_claimId = Some (JStr (c_claimId c)), rl_resource = Some (JStr (c_resource c)),
     rl_mode = Some (JStr (c_mode c))\<rparr>"

definition finish_conflict :: acc_error where
  "finish_conflict = AccError CONFLICT ''clientMessageId belongs to a different finish generation''"

text \<open>The event of a claim that named its resource, for the identifier of a release.\<close>

definition claim_facts :: "json option \<Rightarrow> event \<Rightarrow> bool" where
  "claim_facts claimId e \<longleftrightarrow> (e_type e = ''claim.acquired'' \<or> e_type e = ''claim.renewed'')
     \<and> js_same (payload e ''claimId'') claimId \<and> is_string (payload e ''resource'')"

definition claimProjection :: "event list \<Rightarrow> nat \<Rightarrow> released_claim option" where
  "claimProjection events releaseIndex =
     (let claimId = payload (events ! releaseIndex) ''claimId''
      in case find (claim_facts claimId) (rev (take (Suc releaseIndex) events)) of
        None \<Rightarrow> None
      | Some e \<Rightarrow> Some \<lparr>rl_claimId = claimId, rl_resource = payload e ''resource'', rl_mode = payload e ''mode''\<rparr>)"

definition closing_payload_ok :: "event \<Rightarrow> session \<Rightarrow> message \<Rightarrow> bool" where
  "closing_payload_ok close s m \<longleftrightarrow>
     sort (map fst (e_payload close)) = [''cause'', ''messageId'', ''releasedClaimIds'', ''sessionGeneration'']
     \<and> payload close ''cause'' = Some (JStr ''finish'')
     \<and> payload close ''messageId'' = Some (JStr (m_messageId m))
     \<and> payload close ''sessionGeneration'' = Some (JStr (s_generation s))
     \<and> (case payload close ''releasedClaimIds'' of
         Some (JArr xs) \<Rightarrow> list_all (\<lambda>x. is_string (Some x)) xs \<and> distinct xs
       | _ \<Rightarrow> False)"

definition released_ids :: "event \<Rightarrow> json list" where
  "released_ids close = (case payload close ''releasedClaimIds'' of Some (JArr xs) \<Rightarrow> xs | _ \<Rightarrow> [])"

definition release_of :: "session \<Rightarrow> event \<Rightarrow> bool" where
  "release_of s e \<longleftrightarrow> e_type e = ''claim.released'' \<and> e_actorSessionId e = s_sessionId s
     \<and> payload e ''authority'' = Some JNull \<and> payload e ''reason'' = Some JNull"

definition correlatedReleaseIndexes :: "event list \<Rightarrow> nat \<Rightarrow> nat \<Rightarrow> session \<Rightarrow> message \<Rightarrow> nat list res" where
  "correlatedReleaseIndexes events recordedIndex closedIndex s m =
     (let close = events ! closedIndex;
          between = take (closedIndex - Suc recordedIndex) (drop (Suc recordedIndex) events)
      in if \<not> closing_payload_ok close s m then Inl finish_conflict
         else if length between \<noteq> length (released_ids close) \<or> \<not> list_all (release_of s) between then Inl finish_conflict
         else if map (\<lambda>e. payload e ''claimId'') between \<noteq> map Some (released_ids close) then Inl finish_conflict
         else Inr (map (\<lambda>offset. recordedIndex + offset + 1) [0..<length between]))"

text \<open>\<^verbatim>\<open>findIndex\<close>, with \<open>None\<close> for \<open>-1\<close>.\<close>

fun find_index :: "('a \<Rightarrow> bool) \<Rightarrow> 'a list \<Rightarrow> nat option" where
  "find_index P [] = None"
| "find_index P (x # xs) = (if P x then Some 0 else map_option Suc (find_index P xs))"

definition records_message :: "session \<Rightarrow> message \<Rightarrow> event \<Rightarrow> bool" where
  "records_message s m e \<longleftrightarrow> e_type e = ''message.recorded'' \<and> payload e ''messageId'' = Some (JStr (m_messageId m))
     \<and> e_actorSessionId e = s_sessionId s"

definition session_event :: "string \<Rightarrow> session \<Rightarrow> event \<Rightarrow> bool" where
  "session_event type s e \<longleftrightarrow> e_type e = type \<and> e_actorSessionId e = s_sessionId s"

definition reconstruct_claims :: "event list \<Rightarrow> session \<Rightarrow> message \<Rightarrow> released_claim list res" where
  "reconstruct_claims events s m =
     (case find_index (records_message s m) events of
        None \<Rightarrow> Inl finish_conflict
      | Some recordedIndex \<Rightarrow>
          let later = drop (Suc recordedIndex) events
          in if s_state s \<noteq> ''closed'' then Inl finish_conflict
             else if list_ex (session_event ''session.opened'' s) later then Inl finish_conflict
             else case find_index (session_event ''session.closed'' s) later of
               None \<Rightarrow> Inl finish_conflict
             | Some closedOffset \<Rightarrow>
                 bind_r (correlatedReleaseIndexes events recordedIndex (recordedIndex + closedOffset + 1) s m) (\<lambda>indexes.
                 let released = map (claimProjection events) indexes
                 in if None \<in> set released then Inl finish_conflict else Inr (map the released)))"

definition reconstructFinishRetry :: "store \<Rightarrow> id \<Rightarrow> session \<Rightarrow> message \<Rightarrow> released_claim list res" where
  "reconstructFinishRetry st workspaceId s m =
     bind_r (allEvents st workspaceId) (\<lambda>events.
     bind_r (reconstruct_claims events s m) (\<lambda>released.
     bind_r (snapshot_kind st workspaceId (Some [Claim]) Claim) (\<lambda>rs.
     if list_ex (\<lambda>c. c_ownerSessionId c = s_sessionId s) (all_of as_claim rs) then Inl finish_conflict
     else Inr released)))"

section \<open>Finishing\<close>

definition FINISH_TX :: "kind list" where
  "FINISH_TX = [Participant, Session, Claim, Message, Receipt]"

definition finishSession :: "(string \<Rightarrow> nat list) \<Rightarrow> id \<Rightarrow> id option \<Rightarrow> id \<Rightarrow> finish_input \<Rightarrow> descriptor option
    \<Rightarrow> time \<Rightarrow> time \<Rightarrow> (message \<times> released_claim list \<times> session) svc" where
  "finishSession sha sessionId workspaceId generation input d earlier now =
     bind_s (read_s (\<lambda>st. locate st sessionId workspaceId)) (\<lambda>located. case located of
       None \<Rightarrow> lift_s (Inl finish_error)
     | Some (s, _) \<Rightarrow>
         bind_s (lift_s (if s_generation s \<noteq> generation then Inl finish_error else Inr ())) (\<lambda>_.
         bind_s (ensureMaterialised (s_workspaceId s) d ''durable_object'' earlier) (\<lambda>_.
         bind_s (step_s (transaction (Some FINISH_TX) [Message, Receipt] (finish_tx sha s input now))) (\<lambda>outcome.
         case outcome of
           Finished m released closed \<Rightarrow> return_s (m, map projectReleasedClaim released, closed)
         | FinishRetry m current \<Rightarrow>
             bind_s (read_s (\<lambda>st. reconstructFinishRetry st (s_workspaceId s) current m)) (\<lambda>released.
             return_s (m, released, current))))))"

section \<open>The log is read in full\<close>

lemma page_events_take:
  assumes "\<forall>e \<in> set es. validate_event e = Inr ()" and "length acc < limit"
  shows "page_events w after None (Some limit) acc es
    = Inr (acc @ take (limit - length acc) (filter (\<lambda>e. after < e_sequence e \<and> e_workspaceId e = w) es))"
  using assms
proof (induction es arbitrary: acc)
  case (Cons e es)
  show ?case
  proof (cases "after < e_sequence e \<and> e_workspaceId e = w")
    case False
    then show ?thesis using Cons by (auto simp: bind_r_def)
  next
    case True
    have more: "take (limit - length acc) (e # xs) = e # take (limit - Suc (length acc)) xs" for xs
      using Cons.prems(2) by (simp add: take_Cons')
    show ?thesis
    proof (cases "limit = Suc (length acc)")
      case full: True
      with True Cons.prems(1) show ?thesis by (simp add: bind_r_def more)
    next
      case False
      with True Cons.prems Cons.IH [of "acc @ [e]"] show ?thesis by (simp add: bind_r_def more)
    qed
  qed
qed (simp add: bind_r_def)

lemma take_last_filter:
  fixes key :: "'a \<Rightarrow> nat"
  assumes "sorted_wrt (<) (map key xs)" and "ys = take n (filter (\<lambda>x. after < key x \<and> P x) xs)" and "ys \<noteq> []"
  shows "filter (\<lambda>x. after < key x \<and> P x) xs = ys @ filter (\<lambda>x. key (last ys) < key x \<and> P x) xs"
proof -
  let ?f = "filter (\<lambda>x. after < key x \<and> P x) xs"
  have sorted: "sorted_wrt (\<lambda>a b. key a < key b) ?f"
    using assms(1) by (simp add: sorted_wrt_map sorted_wrt_filter)
  have split: "?f = ys @ drop n ?f" using assms(2) by simp
  have first: "key x \<le> key (last ys)" if "x \<in> set ys" for x
  proof -
    have "ys = butlast ys @ [last ys]" using assms(3) by simp
    then have "sorted_wrt (\<lambda>a b. key a < key b) (butlast ys @ [last ys])"
      using sorted assms(2) by (metis sorted_wrt_take)
    with that show ?thesis
      by (subst (asm) \<open>ys = butlast ys @ [last ys]\<close>) (auto simp: sorted_wrt_append intro: less_imp_le)
  qed
  have rest: "key (last ys) < key x" if "x \<in> set (drop n ?f)" for x
    using sorted that assms(3) by (subst (asm) split) (auto simp: sorted_wrt_append)
  have "last ys \<in> set ?f" using assms(2, 3) by (metis in_set_takeD last_in_set)
  then have "after < key (last ys)" by simp
  then have "filter (\<lambda>x. key (last ys) < key x \<and> P x) xs = filter (\<lambda>x. key (last ys) < key x) ?f"
    by (auto intro: filter_cong)
  also have "\<dots> = filter (\<lambda>x. key (last ys) < key x) (ys @ drop n ?f)" using split by simp
  also have "\<dots> = drop n ?f" using first rest by (auto simp: filter_id_conv filter_empty_conv leD)
  finally show ?thesis using split by simp
qed

definition log_after :: "store \<Rightarrow> id \<Rightarrow> nat \<Rightarrow> event list" where
  "log_after st w after = filter (\<lambda>e. after < e_sequence e \<and> e_workspaceId e = w) (st_events st)"

lemma eventsSince_page:
  assumes "\<forall>e \<in> set (st_events st). validate_event e = Inr ()" and "0 < limit"
  shows "eventsSince st None w cursor (Some limit)
    = Inr \<lparr>pg_cursor = (let es = take limit (log_after st w (or_else cursor 0))
        in if es = [] then or_else cursor 0 else e_sequence (last es)),
      pg_events = take limit (log_after st w (or_else cursor 0)), pg_trimmedThrough = st_floor st\<rparr>"
  using assms by (simp add: eventsSince_def page_events_take log_after_def or_else_def Let_def bind_r_def split: option.splits)

lemma all_pages_complete:
  assumes valid: "\<forall>e \<in> set (st_events st). validate_event e = Inr ()" and sorted: "ascending (map e_sequence (st_events st))"
    and fuel: "length (log_after st w (or_else cursor 0)) < n"
  shows "all_pages n st w cursor events = Inr (events @ log_after st w (or_else cursor 0))"
  using fuel
proof (induction n arbitrary: cursor events)
  case (Suc n)
  let ?log = "log_after st w (or_else cursor 0)"
  let ?page = "take PAGE_SIZE ?log"
  note page = eventsSince_page [OF valid, of PAGE_SIZE w cursor]
  show ?case
  proof (cases "?page = []")
    case True
    then have "?log = []" by (simp add: PAGE_SIZE_def)
    with page show ?thesis by (simp add: bind_r_def PAGE_SIZE_def)
  next
    case False
    have split: "?log = ?page @ log_after st w (e_sequence (last ?page))"
      unfolding log_after_def
      by (rule take_last_filter [OF sorted [unfolded ascending_def] refl]) (use False in \<open>simp add: log_after_def\<close>)
    have one: "or_else (Some (e_sequence (last ?page))) 0 = e_sequence (last ?page)" by (simp add: or_else_def)
    have "length ?log = length ?page + length (log_after st w (e_sequence (last ?page)))"
      by (subst split) (rule length_append)
    moreover have "0 < length ?page" using False length_greater_0_conv by blast
    ultimately have "length (log_after st w (or_else (Some (e_sequence (last ?page))) 0)) < n"
      unfolding one using Suc.prems by linarith
    note rest = Suc.IH [OF this, unfolded one, of "events @ ?page"]
    have "all_pages (Suc n) st w cursor events = all_pages n st w (Some (e_sequence (last ?page))) (events @ ?page)"
      using page False by (simp add: bind_r_def PAGE_SIZE_def)
    also have "\<dots> = Inr (events @ ?log)" unfolding rest by (subst (3) split) simp
    finally show ?thesis .
  qed
qed simp

lemma allEvents_complete:
  assumes "\<forall>e \<in> set (st_events st). validate_event e = Inr ()" and "ascending (map e_sequence (st_events st))"
  shows "allEvents st w = Inr (log_after st w 0)"
proof -
  have "length (log_after st w 0) < Suc (length (st_events st))" by (simp add: log_after_def le_imp_less_Suc)
  with all_pages_complete [OF assms, of w None "Suc (length (st_events st))" "[]"] show ?thesis
    by (simp add: allEvents_def or_else_def del: all_pages.simps)
qed

end
