(* ===== verification/Record_Checks.thy ===== *)
theory Record_Checks
  imports Records
begin

text \<open>
  What \<^verbatim>\<open>validateRecord\<close> accepts, kind by kind: the table of \<^verbatim>\<open>schema.mjs\<close> read as a
  condition on the fields of a record.
\<close>

lemma invalid_ok [simp]: "invalid f m \<noteq> Inr x" by (simp add: invalid_def)

lemmas schema_simps = validate_def validateRecord_def RECORDS_def DURABLE_RECORDS_def version_field_def
  extension_field_def plainObject_def check_fields_def known_keys_def bind_r_eq_Inr Let_def each_r_ok
  time_json_def strings_json_def

lemma list_items_ok: "list_items inner field i xs = Inr () \<longleftrightarrow> (\<forall>n < length xs. inner (Some (xs ! n)) (field @ ''['' @ show_nat (i + n) @ '']'') = Inr ())"
  by (induction inner field i xs rule: list_items.induct) (auto simp: bind_r_eq_Inr nth_Cons split: nat.splits)

lemma check_simps: "id_check (Some (JStr s)) field = Inr () \<longleftrightarrow> portable_id s"
  "timestamp_check (Some (JStr s)) field = Inr () \<longleftrightarrow> canonical_timestamp s"
  "oneOf xs (Some (JStr s)) field = Inr () \<longleftrightarrow> s \<in> set xs"
  "sequence_check (Some (JStr s)) field = Inr () \<longleftrightarrow> length s = 16 \<and> list_all is_digit s"
  "resourceUri (Some (JStr s)) field = Inr () \<longleftrightarrow> resource_uri s"
  "positiveInteger (Some (JNum i)) field = Inr () \<longleftrightarrow> 0 < i \<and> i \<le> MAX_SAFE_INTEGER"
  "nullable check (Some JNull) field = Inr ()"
  "x \<noteq> JNull \<Longrightarrow> nullable check (Some x) field = check (Some x) field"
  "text_check mx ml (Some (JStr s)) field = Inr () \<longleftrightarrow> \<not> list_all is_space s \<and> length s \<le> mx \<and> \<not> hasControl ml s"
  "listOf id_check (Some (JArr (map JStr xs))) field = Inr () \<longleftrightarrow> list_all portable_id xs"
  "listOf resourceUri (Some (JArr (map JStr xs))) field = Inr () \<longleftrightarrow> list_all resource_uri xs"
  by (simp_all add: id_check_def timestamp_check_def oneOf_def sequence_check_def resourceUri_def positiveInteger_def nullable_def
      text_check_def listOf_def list_items_ok list_all_length not_less) (auto simp: not_less)

lemma nullable_json_check: "(\<And>x. f x \<noteq> JNull) \<Longrightarrow>
    nullable check (Some (nullable_json f v)) field = Inr () \<longleftrightarrow> pred_option (\<lambda>x. check (Some (f x)) field = Inr ()) v"
  by (cases v) (simp_all add: nullable_def nullable_json_def)

lemma nullable_id_check: "nullable check (Some (nullable_json (\<lambda>x. x) v)) field = Inr ()
    \<longleftrightarrow> pred_option (\<lambda>x. nullable check (Some x) field = Inr ()) v"
  by (cases v) (simp_all add: nullable_def nullable_json_def)

definition is_text :: "nat \<Rightarrow> bool \<Rightarrow> string \<Rightarrow> bool" where
  "is_text mx ml s \<longleftrightarrow> \<not> list_all is_space s \<and> length s \<le> mx \<and> \<not> hasControl ml s"

lemma text_checks: "line (Some (JStr s)) field = Inr () \<longleftrightarrow> is_text 500 False s"
  "prose (Some (JStr s)) field = Inr () \<longleftrightarrow> is_text 4000 True s"
  "summary_check (Some (JStr s)) field = Inr () \<longleftrightarrow> is_text 280 False s"
  "listOf line (Some (JArr (map JStr xs))) field = Inr () \<longleftrightarrow> list_all (is_text 500 False) xs"
  by (simp_all add: line_def prose_def summary_check_def check_simps is_text_def listOf_def list_items_ok list_all_length)

lemma validate_event_iff:
  "validate_event e = Inr () \<longleftrightarrow> portable_id (e_eventId e) \<and> portable_id (e_workspaceId e) \<and> portable_id (e_actorSessionId e)
    \<and> e_type e \<in> set EVENT_TYPES \<and> canonical_timestamp (to_iso (e_occurredAt e))
    \<and> length (pad (e_sequence e)) = 16 \<and> list_all is_digit (pad (e_sequence e))"
  by (simp add: schema_simps validate_event_def event_json_def check_simps time_json_def)
     auto

lemma validate_session_iff:
  "validate Session (SessionR s) = Inr () \<longleftrightarrow>
     portable_id (s_sessionId s) \<and> portable_id (s_participantId s) \<and> portable_id (s_workspaceId s) \<and> portable_id (s_generation s)
     \<and> is_text 500 False (s_harness s) \<and> s_state s \<in> {''open'', ''closed''}
     \<and> pred_option portable_id (s_parentSessionId s) \<and> pred_option (is_text 500 False) (s_checkoutRoot s)
     \<and> pred_option (is_text 500 False) (s_branch s) \<and> pred_option (\<lambda>p. 0 < p \<and> p \<le> MAX_SAFE_INTEGER) (s_pid s)
     \<and> s_enforcement s \<in> {''guarded'', ''advisory''} \<and> s_lifecycle s \<in> {''managed'', ''manual''}
     \<and> 0 < s_heartbeatCadenceMs s \<and> s_heartbeatCadenceMs s \<le> MAX_SAFE_INTEGER
     \<and> canonical_timestamp (to_iso (s_startedAt s)) \<and> canonical_timestamp (to_iso (s_heartbeatAt s))"
  by (cases "s_extensions s"; simp add: schema_simps session_json_def check_simps text_checks nullable_json_check)

lemma validate_claim_iff:
  "validate Claim (ClaimR c) = Inr () \<longleftrightarrow>
     portable_id (c_claimId c) \<and> portable_id (c_workspaceId c) \<and> portable_id (c_ownerSessionId c) \<and> resource_uri (c_resource c)
     \<and> c_mode c \<in> set CLAIM_MODES \<and> c_enforcement c \<in> set CLAIM_ENFORCEMENTS \<and> is_text 500 False (c_reason c)
     \<and> canonical_timestamp (to_iso (c_acquiredAt c)) \<and> canonical_timestamp (to_iso (c_expiresAt c)) \<and> portable_id (c_generation c)"
  by (simp add: schema_simps claim_json_def check_simps text_checks; auto)

lemma validate_receipt_iff:
  "validate Receipt (ReceiptR r) = Inr () \<longleftrightarrow>
     portable_id (r_messageId r) \<and> portable_id (r_workspaceId r) \<and> portable_id (r_recipientParticipantId r)
     \<and> r_state r \<in> {''queued'', ''offered'', ''retrieved'', ''acknowledged''} \<and> canonical_timestamp (to_iso (r_updatedAt r))"
  by (cases "r_extensions r"; simp add: schema_simps receipt_json_def check_simps text_checks; auto)

lemma validate_message_iff:
  "validate Message (MessageR m) = Inr () \<longleftrightarrow>
     portable_id (m_messageId m) \<and> portable_id (m_threadId m) \<and> portable_id (m_clientMessageId m) \<and> portable_id (m_workspaceId m)
     \<and> portable_id (m_fromParticipantId m) \<and> portable_id (m_fromSessionId m) \<and> list_all portable_id (m_toParticipantIds m)
     \<and> m_kind m \<in> set MESSAGE_KINDS \<and> m_obligation m \<in> set OBLIGATIONS \<and> is_text 500 False (m_subject m) \<and> is_text 4000 True (m_body m)
     \<and> pred_option portable_id (m_inReplyTo m) \<and> listOf artifactRef (Some (JArr (m_artifacts m))) ''artifacts'' = Inr ()
     \<and> pred_option (\<lambda>h. nullable handoffPayload (Some h) ''handoff'' = Inr ()) (m_handoff m)
     \<and> pred_option (\<lambda>d. assertDecisionChange (Some (change_json d)) ''decisionChange'' = Inr ()) (m_decisionChange m)
     \<and> canonical_timestamp (to_iso (m_sentAt m)) \<and> assertMessageSemantics (fields_of (Some (message_json m))) = Inr ()"
  by (cases "m_decisionChange m"; cases "m_extensions m";
      simp add: schema_simps message_json_def check_simps text_checks optional_check_def nullable_json_check nullable_id_check)

lemma validate_participant_iff:
  "validate Participant (ParticipantR p) = Inr () \<longleftrightarrow> portable_id (p_participantId p) \<and> portable_id (p_workspaceId p)
     \<and> is_text 500 False (p_displayName p) \<and> p_kind p \<in> {''agent'', ''human''} \<and> canonical_timestamp (to_iso (p_createdAt p))"
  by (simp add: schema_simps participant_json_def check_simps text_checks; auto)

lemma validate_workspace_iff:
  "validate Workspace (WorkspaceR w) = Inr () \<longleftrightarrow> portable_id (w_workspaceId w) \<and> is_text 500 False (w_displayName w)
     \<and> w_source w \<in> {''config'', ''git'', ''directory''} \<and> list_all (is_text 500 False) (w_roots w)
     \<and> canonical_timestamp (to_iso (w_createdAt w))"
  by (simp add: schema_simps workspace_json_def check_simps text_checks; auto)

lemma validate_intent_iff:
  "validate Intent (IntentR i) = Inr () \<longleftrightarrow> portable_id (i_sessionId i) \<and> portable_id (i_workspaceId i)
     \<and> is_text 280 False (i_summary i) \<and> i_mode i \<in> set INTENT_MODES \<and> list_all resource_uri (i_resourceHints i)
     \<and> i_state i \<in> set INTENT_STATES \<and> canonical_timestamp (to_iso (i_updatedAt i))"
  by (simp add: schema_simps intent_json_def check_simps text_checks; auto)

lemmas validate_iffs = validate_session_iff validate_claim_iff validate_receipt_iff validate_message_iff
  validate_participant_iff validate_workspace_iff validate_intent_iff

section \<open>The sample records are accepted\<close>

lemmas validate_eventI = validate_event_iff [THEN iffD2]

lemma assertPortableId_id: "portable_id s \<Longrightarrow> assertPortableId s label = Inr s"
  by (simp add: assertPortableId_def portable_id_def)

lemma sample_ids:
  "portable_id ''s1''" "portable_id ''s2''" "portable_id ''w''" "portable_id ''g''" "portable_id ''alice''" "portable_id ''bob''"
  "portable_id ''c1''" "portable_id ''message''" "portable_id ''event''" "portable_id ''k''"
  by code_simp+

lemma sample_times: "canonical_timestamp (to_iso 0)" "canonical_timestamp (to_iso 1000)" "canonical_timestamp (to_iso 60000)"
  by code_simp+

lemma sample_texts: "is_text 500 False ''codex''" "is_text 500 False ''work''" "resource_uri ''file:a''"
  by code_simp+

lemma sample_sequences:
  "length (pad (Suc 0)) = 16 \<and> list_all is_digit (pad (Suc 0))"
  "length (pad (Suc (Suc 0))) = 16 \<and> list_all is_digit (pad (Suc (Suc 0)))"
  "length (pad (Suc (Suc (Suc 0)))) = 16 \<and> list_all is_digit (pad (Suc (Suc (Suc 0))))"
  "length (pad (Suc (Suc (Suc (Suc 0))))) = 16 \<and> list_all is_digit (pad (Suc (Suc (Suc (Suc 0)))))"
  by code_simp+

lemma sample_session_fields:
  "s_sessionId (sample_session i p g) = i" "s_workspaceId (sample_session i p g) = ''w''" "s_generation (sample_session i p g) = g"
  "s_state (sample_session i p g) = ''open''" "s_participantId (sample_session i p g) = p" "s_heartbeatAt (sample_session i p g) = 0"
  "s_harness (sample_session i p g) = ''codex''"
  by (simp_all add: sample_session_def)

lemma sample_claim_fields:
  "c_claimId (sample_claim i s r m t) = i" "c_ownerSessionId (sample_claim i s r m t) = s" "c_generation (sample_claim i s r m t) = ''g''"
  "c_resource (sample_claim i s r m t) = r" "c_mode (sample_claim i s r m t) = m" "c_expiresAt (sample_claim i s r m t) = t"
  "c_workspaceId (sample_claim i s r m t) = ''w''"
  by (simp_all add: sample_claim_def)

lemma sample_session_valid:
  "portable_id i \<Longrightarrow> portable_id p \<Longrightarrow> portable_id g \<Longrightarrow> validate Session (SessionR (sample_session i p g)) = Inr ()"
  "portable_id i \<Longrightarrow> portable_id p \<Longrightarrow> portable_id g \<Longrightarrow> canonical_timestamp (to_iso t) \<Longrightarrow>
     validate Session (SessionR ((sample_session i p g)\<lparr>s_state := ''closed'', s_heartbeatAt := t\<rparr>)) = Inr ()"
  by (simp_all add: validate_iffs sample_session_def sample_ids sample_times sample_texts MAX_SAFE_INTEGER_def)

lemma sample_claim_valid:
  "portable_id i \<Longrightarrow> portable_id s \<Longrightarrow> resource_uri r \<Longrightarrow> m \<in> set CLAIM_MODES \<Longrightarrow> canonical_timestamp (to_iso t) \<Longrightarrow>
     validate Claim (ClaimR (sample_claim i s r m t)) = Inr ()"
  by (simp add: validate_iffs sample_claim_def sample_ids sample_times sample_texts CLAIM_ENFORCEMENTS_def)

lemmas sample_facts = sample_ids sample_times sample_texts sample_sequences sample_session_fields sample_claim_fields
  sample_session_valid sample_claim_valid assertPortableId_id validate_eventI

end
