(* ===== verification/Finish_Retry.thy ===== *)
theory Finish_Retry
  imports Finish Record_Checks
begin

text \<open>
  Finishing twice. A retry of a message is found by the sender's own key; the events that a
  finish appends are enough for \<^verbatim>\<open>reconstructFinishRetry\<close> to return what the first call
  returned.
\<close>

section \<open>Retries by the sender's key\<close>

lemma reads_messages [reads_intros]: "reads sessions_t" "reads participants_t" "reads claims_t" "reads (load_message i)"
  "reads (load_receipt i)" "reads (assertCurrentSession s act)" "reads (resolveAddressees rs s)"
  "reads (addressedRecipients to s)" "reads (threadFor i parent)" "reads (load_target w i)" "reads (inherited_from w m)"
  unfolding sessions_t_def participants_t_def claims_t_def load_message_def load_receipt_def assertCurrentSession_def
    resolveAddressees_def addressedRecipients_def threadFor_def load_target_def inherited_from_def
  by (intro reads_intros; simp)+

lemma reads_candidates [reads_intros]: "reads (try_candidates s input is)"
  by (induction "is") (auto intro!: reads_intros)

lemma reads_retry [reads_intros]: "reads (findMessageRetry s input)" "reads (prepareDecisionChange input s)"
  unfolding findMessageRetry_def prepareDecisionChange_def by (intro reads_intros)+

definition shows_message :: "view \<Rightarrow> message \<Rightarrow> bool" where
  "shows_message v m \<longleftrightarrow> (\<exists>i g. sees v (Message, i) = Some (MessageR m, g))"

lemma load_message_law:
  assumes "load_message i v = Inr (m, u)" and "view_ok v"
  shows "view_ok u \<and> sees u = sees v \<and> m = as_message (map_option fst (sees v (Message, i)))"
  using assms load_t_law [of Message i v _ u] by (auto simp: load_message_def res_simps)

lemma try_candidates_law:
  assumes "try_candidates s input is v = Inr (found, u)" and "view_ok v"
  shows "case found of
      None \<Rightarrow> \<forall>i \<in> set is. \<forall>m g. sees v (Message, i) = Some (MessageR m, g) \<longrightarrow> \<not> is_retry_of s input m
    | Some m \<Rightarrow> shows_message v m \<and> is_retry_of s input m \<and> same_content m input"
  using assms
proof (induction "is" arbitrary: v)
  case (Cons i "is")
  then obtain r u1 where load: "load_message i v = Inr (r, u1)"
    and rest: "(case r of None \<Rightarrow> try_candidates s input is
      | Some m \<Rightarrow> if \<not> is_retry_of s input m then try_candidates s input is
          else if \<not> same_content m input
          then lift_t (Inl (AccError CONFLICT ''clientMessageId was already used with different message content''))
          else return_t (Some m)) u1 = Inr (found, u)"
    by (auto simp: res_simps)
  note law = load_message_law [OF load Cons.prems(2)]
  show ?case
  proof (cases "\<exists>m. r = Some m \<and> is_retry_of s input m")
    case True
    then obtain m where m: "r = Some m" "is_retry_of s input m" by blast
    with rest have "found = Some m" "same_content m input" by (auto simp: res_simps split: if_splits)
    with m law show ?thesis by (auto simp: shows_message_def as_entity_Some eq_commute [of "Some m"])
  next
    case False
    with rest have "try_candidates s input is u1 = Inr (found, u)" by (auto split: option.splits if_splits)
    from Cons.IH [OF this] law False show ?thesis
      by (auto simp: shows_message_def split: option.splits)
  qed
qed (simp add: res_simps)

lemma findMessageRetry_law:
  assumes "findMessageRetry s input v = Inr (found, u)" and "view_ok v"
  shows "case found of
      None \<Rightarrow> \<forall>m. shows_message v m \<longrightarrow> \<not> is_retry_of s input m
    | Some m \<Rightarrow> shows_message v m \<and> is_retry_of s input m \<and> same_content m input"
proof -
  let ?tuple = "[s_workspaceId s, s_participantId s, mi_clientMessageId input]"
  from assms(1) obtain ids u1 where look: "lookup_t MessageByClientKey ?tuple v = Inr (ids, u1)"
    and tried: "try_candidates s input ids u1 = Inr (found, u)"
    by (auto simp: findMessageRetry_def res_simps)
  from lookup_t_law [OF look assms(2)] have u1: "u1 = v"
    and ids: "set ids = {i. \<exists>r g. sees v (Message, i) = Some (r, g) \<and> ?tuple \<in> set (index_keys MessageByClientKey r)}"
    by simp_all
  have "i \<in> set ids" if "sees v (Message, i) = Some (MessageR m, g)" "is_retry_of s input m" for i m g
    using that by (auto simp: ids is_retry_of_def)
  with try_candidates_law [OF tried [unfolded u1] assms(2)] show ?thesis
    by (auto simp: shows_message_def split: option.splits) blast+
qed

section \<open>What recording a message does\<close>

lemma put_receipt_run:
  assumes "put_receipt sha m now p v = Inr (x, w)" and "view_ok v"
  shows "view_ok w \<and> x_events w = x_events v \<and> same_frame v w \<and> (\<forall>k i. k \<noteq> Receipt \<longrightarrow> sees w (k, i) = sees v (k, i))"
proof -
  from assms(1) obtain r u1 g where load: "load_t Receipt (receiptId sha (m_messageId m) p) v = Inr (r, u1)"
    and put: "put_t Receipt (receiptId sha (m_messageId m) p) (ReceiptR (new_receipt m p now)) None u1 = Inr (g, w)"
    by (auto simp: res_simps put_receipt_def Let_def)
  from load_t_law [OF load assms(2)] put_t_law [OF put] show ?thesis by (auto intro: same_frame_trans)
qed

lemma put_receipts_law:
  assumes "each_t (put_receipt sha m now) ps v = Inr (x, u)" and "view_ok v"
  shows "view_ok u \<and> x_events u = x_events v \<and> same_frame v u
    \<and> (\<forall>k i. k \<noteq> Receipt \<longrightarrow> sees u (k, i) = sees v (k, i))"
  using assms
proof (induction ps arbitrary: v)
  case (Cons p ps)
  then obtain y u2 z where one: "put_receipt sha m now p v = Inr (y, u2)"
    and rest: "each_t (put_receipt sha m now) ps u2 = Inr (z, u)"
    by (auto simp: res_simps)
  from put_receipt_run [OF one Cons.prems(2)] Cons.IH [OF _ , of u2] rest show ?case
    by (cases z) (auto intro: same_frame_trans)
qed (simp add: res_simps)

lemma append_event_law:
  assumes "append_event w a t now p v = Inr (x, u)" and "view_ok v"
  shows "view_ok u \<and> same_frame v u \<and> sees u = sees v \<and> (\<exists>i. x_events u = x_events v @ [\<lparr>e_sequence = 0, e_eventId = i,
    e_workspaceId = w, e_actorSessionId = a, e_type = t, e_occurredAt = now, e_payload = p\<rparr>])"
proof -
  from assms(1) obtain i u1 where new_id: "next_id ''event'' v = Inr (i, u1)"
    and app: "append_t \<lparr>e_sequence = 0, e_eventId = i, e_workspaceId = w, e_actorSessionId = a, e_type = t,
      e_occurredAt = now, e_payload = p\<rparr> u1 = Inr (x, u)"
    by (auto simp: append_event_def res_simps)
  from next_id_law [OF new_id assms(2)] append_t_law [OF app] show ?thesis by (auto intro: same_frame_trans)
qed

definition recorded_event :: "session \<Rightarrow> message \<Rightarrow> event \<Rightarrow> bool" where
  "recorded_event s m e \<longleftrightarrow> e_type e = ''message.recorded'' \<and> payload e ''messageId'' = Some (JStr (m_messageId m))
     \<and> e_actorSessionId e = s_sessionId s \<and> e_workspaceId e = s_workspaceId s"

lemma create_message_law:
  assumes "create_message sha s input now messageId v = Inr (r, u)" and "view_ok v"
  shows "view_ok u \<and> same_frame v u \<and> m_messageId (rc_message r) = messageId
    \<and> is_retry_of s input (rc_message r) \<and> same_content (rc_message r) input \<and> m_fromSessionId (rc_message r) = s_sessionId s
    \<and> (\<exists>g. sees u (Message, messageId) = Some (MessageR (rc_message r), g)) \<and> sees v (Message, messageId) = None
    \<and> (\<forall>k i. k \<noteq> Receipt \<longrightarrow> (k, i) \<noteq> (Message, messageId) \<longrightarrow> sees u (k, i) = sees v (k, i))
    \<and> (\<exists>e. x_events u = x_events v @ [e] \<and> recorded_event s (rc_message r) e)"
proof -
  from assms(1) obtain threadId u1 recipients u2 x u3 g u4 y u5 z u6 where
    thread: "threadFor messageId (mi_inReplyTo input) v = Inr (threadId, u1)"
    and to: "addressedRecipients (m_toParticipantIds (new_message input s messageId threadId now)) s u1 = Inr (recipients, u2)"
    and load: "load_t Message messageId u2 = Inr (x, u3)"
    and put: "put_t Message messageId (MessageR (new_message input s messageId threadId now)) None u3 = Inr (g, u4)"
    and receipts: "each_t (put_receipt sha (new_message input s messageId threadId now) now) recipients u4 = Inr (y, u5)"
    and app: "append_event (s_workspaceId s) (s_sessionId s) ''message.recorded'' now
          [(''messageId'', JStr messageId), (''threadId'', JStr threadId),
           (''recipientParticipantIds'', strings_json recipients)] u5 = Inr (z, u6)"
    and r: "rc_message r = new_message input s messageId threadId now" and u: "u = u6"
    by (auto simp: create_message_def res_simps Let_def)
  note 1 = readsD [OF reads_messages(9) assms(2) thread]
  note 2 = readsD [OF reads_messages(8) 1(1) to]
  from load_t_law [OF load 2(1)] have 3: "view_ok u3" "same_frame u2 u3" "sees u3 = sees u2" "x_events u3 = x_events u2" by simp_all
  from put_t_law [OF put 3(1)] have 4: "view_ok u4" "same_frame u3 u4" "x_events u4 = x_events u3" "sees u3 (Message, messageId) = None"
    "sees u4 = (sees u3)((Message, messageId) \<mapsto> (MessageR (new_message input s messageId threadId now), g))" by simp_all
  note 5 = put_receipts_law [OF receipts 4(1)]
  note 6 = append_event_law [OF app, OF 5 [THEN conjunct1]]
  have "m_messageId (rc_message r) = messageId \<and> is_retry_of s input (rc_message r) \<and> same_content (rc_message r) input
      \<and> m_fromSessionId (rc_message r) = s_sessionId s"
    by (simp add: r new_message_def is_retry_of_def same_content_def)
  moreover have "sees u (Message, messageId) = Some (MessageR (rc_message r), g)" "sees v (Message, messageId) = None"
    using 1(3) 2(3) 3(3) 4(4, 5) 5 6 by (simp_all add: u r)
  moreover have "sees u (k, i) = sees v (k, i)" if "k \<noteq> Receipt" "(k, i) \<noteq> (Message, messageId)" for k i
    using that 1(3) 2(3) 3(3) 4(5) 5 6 by (auto simp: u)
  moreover have "\<exists>e. x_events u = x_events v @ [e] \<and> recorded_event s (rc_message r) e"
    using 1(4) 2(4) 3(4) 4(3) 5 6 calculation(1) by (auto simp: u recorded_event_def payload_def)
  moreover have "same_frame v u"
    using 1(2) 2(2) 3(2) 4(2) 5 6 unfolding u by (meson same_frame_trans)
  ultimately show ?thesis using 6 by (simp add: u)
qed

section \<open>What a finish does\<close>

lemma listing_keys:
  assumes "distinct (map fst l)" and "\<forall>x \<in> set l. fst (fst x) = k"
  shows "\<exists>ks. distinct ks \<and> set ks \<subseteq> snd ` fst ` set l
    \<and> list_all2 (\<lambda>i r. \<exists>g. map_of l (k, i) = Some (Live r g)) ks [r. (_, Live r _) \<leftarrow> l]"
  using assms
proof (induction l)
  case (Cons x l)
  obtain i e where x: "x = ((k, i), e)" using Cons.prems(2) by (cases x) force
  from Cons obtain ks where ks: "distinct ks" "set ks \<subseteq> snd ` fst ` set l"
    "list_all2 (\<lambda>i r. \<exists>g. map_of l (k, i) = Some (Live r g)) ks [r. (_, Live r _) \<leftarrow> l]" by auto
  have fresh: "i \<notin> set ks"
  proof
    assume "i \<in> set ks"
    then obtain y where "y \<in> set l" "snd (fst y) = i" using ks(2) by auto
    with Cons.prems x show False by (cases y) force
  qed
  have rest: "list_all2 (\<lambda>i' r. \<exists>g. map_of (x # l) (k, i') = Some (Live r g)) ks [r. (_, Live r _) \<leftarrow> l]"
    using ks(3) fresh by (auto simp: x list_all2_conv_all_nth)
  show ?case
  proof (cases e)
    case (Live r g)
    with rest ks fresh show ?thesis by (intro exI [of _ "i # ks"]) (auto simp: x)
  next
    case (Removed g)
    with rest ks show ?thesis by (intro exI [of _ ks]) (auto simp: x)
  qed
qed simp

lemma list_t_keys:
  assumes "list_t k v = Inr (xs, w)" and "view_ok v" and "k \<noteq> DeliveryBinding"
  shows "\<exists>ks. distinct ks \<and> list_all2 (\<lambda>i r. \<exists>g. sees v (k, i) = Some (r, g)) ks xs"
proof -
  from assms(1) have xs: "xs = [r. (_, Live r _) \<leftarrow> merged v k]" and dec: "declares v k" "k \<notin> set (x_exact v)"
    by (auto simp: list_t_def bind_r_eq_Inr declared_ok)
  have key: "fst (fst x) = k" if "x \<in> set (merged v k)" for x
  proof -
    have "map_of (merged v k) (fst x) = Some (snd x)" using that map_of_merged(2) [OF assms(2)] by (simp add: map_of_eq_Some_iff)
    then show ?thesis unfolding map_of_merged(1) [OF assms(2)] by (simp split: if_splits)
  qed
  have live: "sees v (k, i) = Some (r, g)" if "map_of (merged v k) (k, i) = Some (Live r g)" for i r g
  proof -
    have "entryFor v (k, i) = Some (r, g)"
      using that unfolding map_of_merged(1) [OF assms(2)] entryFor_def by (auto split: option.splits)
    then show ?thesis using entryFor_sees [OF assms(2)] dec assms(3) by (simp add: loadedId_ok)
  qed
  obtain ks where "distinct ks" "list_all2 (\<lambda>i r. \<exists>g. map_of (merged v k) (k, i) = Some (Live r g)) ks xs"
    using listing_keys [OF map_of_merged(2) [OF assms(2)], of k] key unfolding xs by blast
  then show ?thesis using live by (auto elim!: list_all2_mono intro!: exI [of _ ks])
qed

text \<open>A claim or a session is stored under its own identifier.\<close>

definition own_keys :: "(kind \<times> id \<Rightarrow> (entity \<times> id) option) \<Rightarrow> bool" where
  "own_keys m \<longleftrightarrow> (\<forall>i c g. m (Claim, i) = Some (ClaimR c, g) \<longrightarrow> c_claimId c = i)
     \<and> (\<forall>i s g. m (Session, i) = Some (SessionR s, g) \<longrightarrow> s_sessionId s = i)"

lemma claims_t_distinct:
  assumes "claims_t v = Inr (cs, w)" and "view_ok v" and "typed_map (sees v)" and "own_keys (sees v)"
  shows "distinct (map c_claimId cs)"
proof -
  obtain rs where rs: "list_t Claim v = Inr (rs, w)" and cs: "cs = all_of as_claim rs"
    using assms(1) by (auto simp: claims_t_def bind_t_eq return_t_eq)
  obtain ks where ks: "distinct ks" "list_all2 (\<lambda>i r. \<exists>g. sees v (Claim, i) = Some (r, g)) ks rs"
    using list_t_keys [OF rs assms(2)] by auto
  from ks(2) have "map c_claimId (all_of as_claim rs) = ks"
  proof (induction rule: list_all2_induct)
    case (Cons i ks r rs)
    then obtain g where g: "sees v (Claim, i) = Some (r, g)" by blast
    then have "kind_of r = Claim" using assms(3) unfolding typed_map_def by fastforce
    then obtain c where "r = ClaimR c" by (cases r) auto
    with Cons g assms(4) show ?case by (auto simp: all_of_def own_keys_def)
  qed (simp add: all_of_def)
  with ks(1) show ?thesis by (simp add: cs)
qed

definition released_event :: "session \<Rightarrow> claim \<Rightarrow> event \<Rightarrow> bool" where
  "released_event s c e \<longleftrightarrow> release_of s e \<and> payload e ''claimId'' = Some (JStr (c_claimId c)) \<and> e_workspaceId e = s_workspaceId s"

lemma finish_release_law:
  assumes "finish_release s now c v = Inr (x, u)" and "view_ok v"
  shows "view_ok u \<and> same_frame v u \<and> sees u = (sees v)((Claim, c_claimId c) := None)
    \<and> (\<exists>e. x_events u = x_events v @ [e] \<and> released_event s c e)"
proof -
  from assms(1) obtain g u1 y u2 where gen: "generationOf Claim (c_claimId c) v = Inr (g, u1)"
    and rem: "remove_t Claim (c_claimId c) g u1 = Inr (y, u2)"
    and app: "append_event (s_workspaceId s) (s_sessionId s) ''claim.released'' now
       [(''claimId'', JStr (c_claimId c)), (''authority'', JNull), (''reason'', JNull),
        (''replacedGeneration'', JStr (c_generation c))] u2 = Inr (x, u)"
    by (auto simp: finish_release_def res_simps)
  from generationOf_law [OF gen assms(2)] have u1: "u1 = v" by simp
  from remove_t_law [OF rem [unfolded u1] assms(2)] have 2: "view_ok u2" "same_frame v u2"
    "sees u2 = (sees v)((Claim, c_claimId c) := None)" "x_events u2 = x_events v" by simp_all
  from append_event_law [OF app 2(1)] 2 show ?thesis
    by (auto simp: released_event_def release_of_def payload_def intro: same_frame_trans)
qed

lemma finish_releases_law:
  assumes "each_t (finish_release s now) cs v = Inr (x, u)" and "view_ok v"
  shows "view_ok u \<and> same_frame v u
    \<and> (\<forall>k i. sees u (k, i) = (if k = Claim \<and> i \<in> c_claimId ` set cs then None else sees v (k, i)))
    \<and> (\<exists>es. x_events u = x_events v @ es \<and> list_all2 (released_event s) cs es)"
  using assms
proof (induction cs arbitrary: v)
  case (Cons c cs)
  then obtain y u1 where one: "finish_release s now c v = Inr (y, u1)"
    and rest: "each_t (finish_release s now) cs u1 = Inr (x, u)"
    by (auto simp: res_simps)
  from finish_release_law [OF one Cons.prems(2)] obtain e where
    1: "view_ok u1" "same_frame v u1" "sees u1 = (sees v)((Claim, c_claimId c) := None)" "x_events u1 = x_events v @ [e]"
    "released_event s c e" by blast
  from Cons.IH [OF rest 1(1)] obtain es where
    2: "view_ok u" "same_frame u1 u" "x_events u = x_events u1 @ es" "list_all2 (released_event s) cs es"
    "\<And>k i. sees u (k, i) = (if k = Claim \<and> i \<in> c_claimId ` set cs then None else sees u1 (k, i))" by blast
  have "x_events u = x_events v @ e # es" "list_all2 (released_event s) (c # cs) (e # es)" using 1 2 by simp_all
  moreover have "sees u (k, i) = (if k = Claim \<and> i \<in> c_claimId ` set (c # cs) then None else sees v (k, i))" for k i
    by (auto simp: 2(5) 1(3))
  ultimately show ?case using same_frame_trans [OF 1(2) 2(2)] 2(1) by blast
qed (simp add: res_simps)

text \<open>A message recorded where no retry was found is new.\<close>

lemma record_new_law:
  assumes "recordMessageInTransaction sha s raw now messageId action v = Inr (r, u)" and "view_ok v"
    and "mi_supersedes raw = None" "mi_withdraws raw = None"
    and none: "\<forall>m. shows_message v m \<longrightarrow> \<not> is_retry_of s raw m"
  shows "\<exists>to v'. view_ok v' \<and> same_frame v v' \<and> sees v' = sees v \<and> x_events v' = x_events v
    \<and> create_message sha s (raw\<lparr>mi_toParticipantIds := Some to\<rparr>) now messageId v' = Inr (r, u)"
proof -
  from assms(1) obtain x u1 to u2 input u3 found u4 where
    current: "assertCurrentSession s action v = Inr (x, u1)"
    and resolve: "resolveAddressees (or_else (mi_toParticipantIds raw) []) s u1 = Inr (to, u2)"
    and prepare: "prepareDecisionChange (raw\<lparr>mi_toParticipantIds := Some to\<rparr>) s u2 = Inr (input, u3)"
    and retry: "findMessageRetry s input u3 = Inr (found, u4)"
    and rest: "(case found of Some m \<Rightarrow> return_t \<lparr>rc_message = m, rc_recipients = [], rc_created = False\<rparr>
      | None \<Rightarrow> create_message sha s input now messageId) u4 = Inr (r, u)"
    by (auto simp: recordMessageInTransaction_def res_simps)
  from prepare assms(3, 4) have input: "input = raw\<lparr>mi_toParticipantIds := Some to\<rparr>"
    by (auto simp: prepareDecisionChange_def res_simps)
  note 1 = readsD [OF reads_messages(6) assms(2) current]
  note 2 = readsD [OF reads_messages(7) 1(1) resolve]
  note 3 = readsD [OF reads_retry(2) 2(1) prepare]
  note 4 = readsD [OF reads_retry(1) 3(1) retry]
  have seen: "sees u3 = sees v" using 1(3) 2(3) 3(3) by simp
  have "found = None"
  proof (rule ccontr)
    assume "found \<noteq> None"
    with findMessageRetry_law [OF retry 3(1)] obtain m where "shows_message u3 m" "is_retry_of s input m" by auto
    with none seen show False by (auto simp: shows_message_def is_retry_of_def input)
  qed
  with rest have create: "create_message sha s (raw\<lparr>mi_toParticipantIds := Some to\<rparr>) now messageId u4 = Inr (r, u)"
    by (simp add: input)
  have "same_frame v u4" using 1(2) 2(2) 3(2) 4(2) by (meson same_frame_trans)
  moreover have "sees u4 = sees v" "x_events u4 = x_events v" using 1(4) 2(4) 3(4) 4(3, 4) seen by simp_all
  ultimately show ?thesis using create 4(1) by blast
qed

definition closed_event :: "session \<Rightarrow> message \<Rightarrow> claim list \<Rightarrow> event \<Rightarrow> bool" where
  "closed_event s m released e \<longleftrightarrow> e_type e = ''session.closed'' \<and> e_actorSessionId e = s_sessionId s \<and> e_workspaceId e = s_workspaceId s
     \<and> e_payload e = [(''cause'', JStr ''finish''), (''messageId'', JStr (m_messageId m)),
        (''sessionGeneration'', JStr (s_generation s)), (''releasedClaimIds'', strings_json (map c_claimId released))]"

text \<open>
  What a finish leaves: a closed session, no claim of its own, and the three groups of events in
  the order in which a retry looks for them.
\<close>

definition finished_view :: "session \<Rightarrow> message \<Rightarrow> claim list \<Rightarrow> session \<Rightarrow> view \<Rightarrow> view \<Rightarrow> bool" where
  "finished_view s m released closed v u \<longleftrightarrow>
     s_state closed = ''closed'' \<and> s_sessionId closed = s_sessionId s \<and> s_generation closed = s_generation s
     \<and> distinct (map c_claimId released)
     \<and> set released = {c. c_ownerSessionId c = s_sessionId s \<and> (\<exists>i g. sees v (Claim, i) = Some (ClaimR c, g))}
     \<and> (\<forall>i. sees u (Claim, i) = (if i \<in> c_claimId ` set released then None else sees v (Claim, i)))
     \<and> (\<exists>rec rels close. x_events u = x_events v @ rec # rels @ [close] \<and> recorded_event s m rec
          \<and> list_all2 (released_event s) released rels \<and> closed_event s m released close)"

lemma finish_new_law:
  assumes run: "finish_new sha s current input now v = Inr (outcome, u)" and ok: "view_ok v"
    and typed: "typed_map (sees v)" and own_keys: "own_keys (sees v)"
    and current: "s_sessionId current = s_sessionId s" "s_generation current = s_generation s"
    and none: "\<forall>m. shows_message v m \<longrightarrow> \<not> is_retry_of s (finish_message input) m"
  shows "\<exists>m released closed. outcome = Finished m released closed \<and> finished_view s m released closed v u"
proof -
  from run obtain cs u1 messageId u2 r u3 x u4 g u5 g' u6 y u7 where
    list: "claims_t v = Inr (cs, u1)" and mid: "next_id ''message'' u1 = Inr (messageId, u2)"
    and rec: "recordMessageInTransaction sha s (finish_message input) now messageId ''finish'' u2 = Inr (r, u3)"
    and rel: "each_t (finish_release s now) (filter (\<lambda>c. c_ownerSessionId c = s_sessionId s) cs) u3 = Inr (x, u4)"
    and gen: "generationOf Session (s_sessionId s) u4 = Inr (g, u5)"
    and put: "put_t Session (s_sessionId s) (SessionR (current\<lparr>s_state := ''closed'', s_heartbeatAt := now\<rparr>)) g u5 = Inr (g', u6)"
    and app: "append_event (s_workspaceId s) (s_sessionId s) ''session.closed'' now
       [(''cause'', JStr ''finish''), (''messageId'', JStr (m_messageId (rc_message r))),
        (''sessionGeneration'', JStr (s_generation s)),
        (''releasedClaimIds'', strings_json (map c_claimId (filter (\<lambda>c. c_ownerSessionId c = s_sessionId s) cs)))] u6 = Inr (y, u7)"
    and outcome: "outcome = Finished (rc_message r) (filter (\<lambda>c. c_ownerSessionId c = s_sessionId s) cs)
      (current\<lparr>s_state := ''closed'', s_heartbeatAt := now\<rparr>)" and u: "u = u7"
    by (auto simp: finish_new_def res_simps Let_def)
  let ?released = "filter (\<lambda>c. c_ownerSessionId c = s_sessionId s) cs"
  let ?closed = "current\<lparr>s_state := ''closed'', s_heartbeatAt := now\<rparr>"
  note 1 = claims_t_law [OF list ok typed]
  have u1: "u1 = v" using 1 by simp
  from next_id_law [OF mid [unfolded u1] ok] have 2: "view_ok u2" "same_frame v u2" "sees u2 = sees v" "x_events u2 = x_events v"
    by simp_all
  have "\<forall>m. shows_message u2 m \<longrightarrow> \<not> is_retry_of s (finish_message input) m"
    using none 2(3) by (simp add: shows_message_def)
  from record_new_law [OF rec 2(1) _ _ this] obtain to v' where v': "view_ok v'" "same_frame u2 v'" "sees v' = sees u2"
    "x_events v' = x_events u2"
    and create: "create_message sha s ((finish_message input)\<lparr>mi_toParticipantIds := Some to\<rparr>) now messageId v' = Inr (r, u3)"
    by (auto simp: finish_message_def)
  note law = create_message_law [OF create v'(1)]
  from law obtain rec_e where 3: "view_ok u3" "same_frame v' u3" "x_events u3 = x_events v' @ [rec_e]"
    "recorded_event s (rc_message r) rec_e" by blast
  have claims3: "sees u3 (Claim, i) = sees v' (Claim, i)" for i using law by simp
  from finish_releases_law [OF rel 3(1)] obtain rels where 4: "view_ok u4" "same_frame u3 u4"
    "x_events u4 = x_events u3 @ rels" "list_all2 (released_event s) ?released rels"
    "\<And>k i. sees u4 (k, i) = (if k = Claim \<and> i \<in> c_claimId ` set ?released then None else sees u3 (k, i))" by blast
  have u5: "u5 = u4" using generationOf_law [OF gen 4(1)] by simp
  from put_t_law [OF put [unfolded u5] 4(1)] have 6: "view_ok u6" "x_events u6 = x_events u4"
    "sees u6 = (sees u4)((Session, s_sessionId s) \<mapsto> (SessionR ?closed, g'))" by simp_all
  from append_event_law [OF app 6(1)] obtain e where 7: "sees u = sees u6" "x_events u = x_events u6 @ [e]"
    "closed_event s (rc_message r) ?released e"
    by (auto simp: u closed_event_def)
  have "x_events u = x_events v @ rec_e # rels @ [e]" using 7(2) 6(2) 4(3) 3(3) v'(4) 2(4) by simp
  moreover have "distinct (map c_claimId ?released)"
    using claims_t_distinct [OF list ok typed own_keys] by (rule distinct_map_filter)
  moreover have "set ?released = {c. c_ownerSessionId c = s_sessionId s \<and> (\<exists>i g. sees v (Claim, i) = Some (ClaimR c, g))}"
    using 1 by auto
  moreover have "sees u (Claim, i) = (if i \<in> c_claimId ` set ?released then None else sees v (Claim, i))" for i
    by (simp add: 7(1) 6(3) 4(5) claims3 v'(3) 2(3))
  ultimately have "finished_view s (rc_message r) ?released ?closed v u"
    unfolding finished_view_def using 3(4) 4(4) 7(3) current by (simp del: set_filter)
  with outcome show ?thesis by blast
qed

lemma finish_tx_law:
  assumes run: "finish_tx sha s input now v = Inr (Finished m released closed, u)" and ok: "view_ok v"
    and typed: "typed_map (sees v)" and own_keys: "own_keys (sees v)"
  shows "finished_view s m released closed v u"
proof -
  from run obtain d u1 current to u2 u3 where got: "get_t Session (s_sessionId s) v = Inr (d, u1)"
    and current: "as_session d = Some current" "s_generation current = s_generation s"
    and resolve: "resolveAddressees (or_else (mi_toParticipantIds (finish_message input)) []) s u1 = Inr (to, u2)"
    and retry: "findMessageRetry s ((finish_message input)\<lparr>mi_toParticipantIds := Some to\<rparr>) u2 = Inr (None, u3)"
    and new: "finish_new sha s current input now u3 = Inr (Finished m released closed, u)"
    by (auto simp: finish_tx_def res_simps split: option.splits if_splits)
  from get_t_law [OF got ok] have 1: "u1 = v" "d = map_option fst (sees v (Session, s_sessionId s))" by simp_all
  note 2 = readsD [OF reads_messages(7) ok resolve [unfolded 1(1)]]
  note 3 = readsD [OF reads_retry(1) 2(1) retry]
  have same: "sees u3 = sees v" "x_events u3 = x_events v" using 2(3, 4) 3(3, 4) by simp_all
  have id: "s_sessionId current = s_sessionId s"
    using current(1) own_keys by (auto simp: 1(2) own_keys_def elim!: as_session.elims)
  have "\<forall>m. shows_message u2 m \<longrightarrow> \<not> is_retry_of s (finish_message input) m"
    using findMessageRetry_law [OF retry 2(1)] by (simp add: is_retry_of_def)
  then have "\<forall>m. shows_message u3 m \<longrightarrow> \<not> is_retry_of s (finish_message input) m"
    using 3(3) by (simp add: shows_message_def)
  from finish_new_law [OF new 3(1) _ _ id current(2) this] typed own_keys
  show ?thesis by (simp add: same finished_view_def)
qed

section \<open>What a retry reads back\<close>

lemma find_index_append:
  assumes "\<forall>x \<in> set xs. \<not> P x" and "P y"
  shows "find_index P (xs @ y # ys) = Some (length xs)"
  using assms by (induction xs) auto

lemma find_append: "List.find P (xs @ ys) = (case List.find P xs of None \<Rightarrow> List.find P ys | Some x \<Rightarrow> Some x)"
  by (induction xs) auto

lemma find_None_all: "(\<forall>x \<in> set xs. \<not> P x) \<Longrightarrow> List.find P xs = None"
  by (simp add: find_None_iff)

lemmas finish_event_types = recorded_event_def released_event_def release_of_def closed_event_def

text \<open>The last event of a claim that named its resource names the claim's own resource and mode.\<close>

definition claim_logged :: "event list \<Rightarrow> claim \<Rightarrow> bool" where
  "claim_logged log c = (case List.find (claim_facts (Some (JStr (c_claimId c)))) (rev log) of
     None \<Rightarrow> False
   | Some e \<Rightarrow> payload e ''resource'' = Some (JStr (c_resource c)) \<and> payload e ''mode'' = Some (JStr (c_mode c)))"

lemma claimProjection_after:
  assumes "claim_logged old c" and "rels ! n = rel" and "n < length rels" and "released_event s c rel"
    and "recorded_event s m rec" and "\<forall>e \<in> set rels. e_type e = ''claim.released''"
  shows "claimProjection (old @ rec # rels @ rest) (length old + n + 1) = Some (projectReleasedClaim c)"
proof -
  let ?events = "old @ rec # rels @ rest"
  have at: "?events ! (length old + n + 1) = rel"
    using assms(2, 3) by (simp add: nth_append)
  have "take (Suc (length old + n + 1)) ?events = old @ rec # take (Suc n) rels"
    using assms(3) by simp
  then have log: "rev (take (Suc (length old + n + 1)) ?events) = rev (take (Suc n) rels) @ [rec] @ rev old" by simp
  have new: "\<forall>e \<in> set (rev (take (Suc n) rels)). \<not> claim_facts (Some (JStr (c_claimId c))) e"
    using assms(6) by (auto simp: claim_facts_def dest: in_set_takeD)
  have "\<not> claim_facts (Some (JStr (c_claimId c))) rec"
    using assms(5) by (simp add: claim_facts_def recorded_event_def)
  with new have "List.find (claim_facts (Some (JStr (c_claimId c)))) (rev (take (Suc (length old + n + 1)) ?events))
      = List.find (claim_facts (Some (JStr (c_claimId c)))) (rev old)"
    unfolding log by (simp only: find_append find_None_all find.simps option.case if_False append_Nil)
  note last_facts = this
  have "payload rel ''claimId'' = Some (JStr (c_claimId c))" using assms(4) by (simp add: released_event_def)
  then have "claimProjection ?events (length old + n + 1)
      = (case List.find (claim_facts (Some (JStr (c_claimId c)))) (rev old) of None \<Rightarrow> None
         | Some e \<Rightarrow> Some \<lparr>rl_claimId = Some (JStr (c_claimId c)), rl_resource = payload e ''resource'', rl_mode = payload e ''mode''\<rparr>)"
    unfolding claimProjection_def at Let_def by (simp only: last_facts)
  then show ?thesis
    using assms(1) by (simp add: claim_logged_def projectReleasedClaim_def split: option.splits)
qed

lemma closing_payload:
  assumes "closed_event s m released e" and "distinct (map c_claimId released)" and "s_generation closed = s_generation s"
  shows "closing_payload_ok e closed m \<and> released_ids e = map (JStr \<circ> c_claimId) released"
proof -
  have pay: "e_payload e = [(''cause'', JStr ''finish''), (''messageId'', JStr (m_messageId m)),
        (''sessionGeneration'', JStr (s_generation s)), (''releasedClaimIds'', strings_json (map c_claimId released))]"
    using assms(1) by (simp add: closed_event_def)
  have keys: "sort (map fst (e_payload e)) = [''cause'', ''messageId'', ''releasedClaimIds'', ''sessionGeneration'']"
    unfolding pay by code_simp
  have ids: "payload e ''releasedClaimIds'' = Some (JArr (map (JStr \<circ> c_claimId) released))"
    by (simp add: payload_def pay strings_json_def)
  have "distinct (map (JStr \<circ> c_claimId) released)"
    using assms(2) by (simp add: distinct_map comp_inj_on inj_on_def)
  with keys ids assms(3) show ?thesis
    by (simp add: closing_payload_ok_def released_ids_def list_all_iff is_string_def payload_def pay)
qed

lemma list_all2_right: "list_all2 P xs ys \<Longrightarrow> (\<And>x y. P x y \<Longrightarrow> Q y) \<Longrightarrow> \<forall>y \<in> set ys. Q y"
  by (induction rule: list_all2_induct) auto

lemma reconstruct_finished:
  assumes rec: "recorded_event s m rec" and rels: "list_all2 (released_event s) released rels"
    and close: "closed_event s m released close" and fresh: "\<forall>e \<in> set old. \<not> records_message s m e"
    and logged: "\<forall>c \<in> set released. claim_logged old c" and dist: "distinct (map c_claimId released)"
    and closed: "s_state closed = ''closed''" "s_sessionId closed = s_sessionId s" "s_generation closed = s_generation s"
  shows "reconstruct_claims (old @ rec # rels @ [close]) closed m = Inr (map projectReleasedClaim released)"
proof -
  let ?events = "old @ rec # rels @ [close]"
  have same: "records_message closed = records_message s" "session_event t closed = session_event t s"
    "release_of closed = release_of s" for t
    using closed(2) by (simp_all add: fun_eq_iff records_message_def session_event_def release_of_def)
  have found: "find_index (records_message s m) ?events = Some (length old)"
    using fresh rec by (intro find_index_append) (simp_all add: records_message_def recorded_event_def)
  have types: "\<forall>e \<in> set rels. release_of s e" "\<forall>e \<in> set rels. e_type e = ''claim.released''"
    using list_all2_right [OF rels, of "release_of s"] list_all2_right [OF rels, of "\<lambda>e. e_type e = ''claim.released''"]
    by (auto simp: released_event_def release_of_def)
  have opened: "\<not> list_ex (session_event ''session.opened'' s) (rels @ [close])"
    using types(2) close by (auto simp: list_ex_iff session_event_def closed_event_def)
  have at: "find_index (session_event ''session.closed'' s) (rels @ [close]) = Some (length rels)"
    using types(2) close by (intro find_index_append) (auto simp: session_event_def closed_event_def)
  have len: "length rels = length released" using rels by (simp add: list_all2_lengthD)
  have ids: "map (\<lambda>e. payload e ''claimId'') rels = map (Some \<circ> JStr \<circ> c_claimId) released"
    using rels by (induction rule: list_all2_induct) (auto simp: released_event_def)
  have between: "take (length old + length rels + 1 - Suc (length old)) (drop (Suc (length old)) ?events) = rels" by simp
  have closer: "?events ! (length old + length rels + 1) = close" by (simp add: nth_append)
  note pay = closing_payload [OF close dist closed(3)]
  have indexes: "correlatedReleaseIndexes ?events (length old) (length old + length rels + 1) closed m
      = Inr (map (\<lambda>offset. length old + offset + 1) [0..<length rels])"
    unfolding correlatedReleaseIndexes_def Let_def between closer same
    using pay types(1) len ids by (simp add: list_all_iff comp_def)
  have "claimProjection ?events (length old + n + 1) = Some (projectReleasedClaim (released ! n))" if "n < length rels" for n
    using claimProjection_after [of old "released ! n" rels n "rels ! n" s m rec "[close]"] that logged rec types(2)
      list_all2_nthD2 [OF rels that] len by simp
  then have projections: "map (claimProjection ?events) (map (\<lambda>offset. length old + offset + 1) [0..<length rels])
      = map (Some \<circ> projectReleasedClaim) released"
    using len by (intro nth_equalityI) simp_all
  have later: "drop (Suc (length old)) ?events = rels @ [close]" by simp
  have "reconstruct_claims ?events closed m
      = (let released' = map (Some \<circ> projectReleasedClaim) released
         in if None \<in> set released' then Inl finish_conflict else Inr (map the released'))"
    using opened closed(1)
    by (simp only: reconstruct_claims_def same found at later option.case Let_def if_False not_True_eq_False simp_thms
        indexes bind_r_def sum.case projections)
  then show ?thesis by (auto simp: Let_def comp_def)
qed

lemma number_events_append: "number_events n (xs @ ys) = number_events n xs @ number_events (n + length xs) ys"
  by (induction n xs rule: number_events.induct) simp_all

lemma finish_events_numbered [simp]:
  "recorded_event s m (e\<lparr>e_sequence := n\<rparr>) = recorded_event s m e"
  "released_event s c (e\<lparr>e_sequence := n\<rparr>) = released_event s c e"
  "closed_event s m cs (e\<lparr>e_sequence := n\<rparr>) = closed_event s m cs e"
  by (simp_all add: finish_event_types payload_def)

lemma released_events_numbered:
  "list_all2 (released_event s) cs es \<Longrightarrow> list_all2 (released_event s) cs (number_events n es)"
  by (induction arbitrary: n rule: list_all2_induct) simp_all

lemma number_events_positive: "e \<in> set (number_events n es) \<Longrightarrow> 0 < n \<Longrightarrow> 0 < e_sequence e"
  by (induction n es rule: number_events.induct) auto

text \<open>What the log of a workspace is after a finish.\<close>

lemma finish_log:
  assumes run: "transaction ks exactKinds (finish_tx sha s input now) st = Inr (Finished m released closed, st')"
    and wf: "wf_store st" and own_keys: "own_keys (store_map st)"
  shows "\<exists>v u rec rels close. finished_view s m released closed v u \<and> sees v = store_map st \<and> sees u = store_map st'
    \<and> log_after st' (s_workspaceId s) 0 = log_after st (s_workspaceId s) 0 @ rec # rels @ [close]
    \<and> recorded_event s m rec \<and> list_all2 (released_event s) released rels \<and> closed_event s m released close"
proof -
  obtain v u where v: "begin_view st ks exactKinds = Inr v" and body: "finish_tx sha s input now v = Inr (Finished m released closed, u)"
    and st': "commit u = Inr st'"
    using run by (auto simp: transaction_eq)
  note start = begin_view_law [OF v wf]
  have typed: "typed_map (sees v)" using start wf by (simp add: wf_store_map)
  from tx_steps_keep [OF lawfulD [OF lawful_finish body]] start typed have ok: "view_ok u" "x_store u = st"
    by (auto simp: same_frame_def)
  have fin: "finished_view s m released closed v u"
    using finish_tx_law [OF body _ typed] start own_keys by simp
  then obtain rec rels close where es: "x_events u = rec # rels @ [close]" and
    shape: "recorded_event s m rec" "list_all2 (released_event s) released rels" "closed_event s m released close"
    using start by (auto simp: finished_view_def)
  obtain n where n: "nextSequence st = Inr n" and log: "st_events st' = st_events st @ number_events n (x_events u)"
    and seen: "store_map st' = sees u"
    using commit_law [OF st' ok(1)] es ok(2) by auto
  let ?new = "number_events n (x_events u)"
  have new: "?new = rec\<lparr>e_sequence := n\<rparr> # number_events (Suc n) rels @ [close\<lparr>e_sequence := Suc n + length rels\<rparr>]"
    by (simp add: es number_events_append)
  note shape' = shape(1, 3) released_events_numbered [OF shape(2), of "Suc n"]
  have "0 < n" using n by (auto simp: nextSequence_def split: option.splits if_splits)
  then have "0 < e_sequence e" if "e \<in> set ?new" for e using number_events_positive that by blast
  moreover have "e_workspaceId e = s_workspaceId s" if "e \<in> set ?new" for e
    using that shape' list_all2_right [OF shape'(3), of "\<lambda>e. e_workspaceId e = s_workspaceId s"]
    unfolding new by (auto simp: finish_event_types)
  ultimately have "filter (\<lambda>e. 0 < e_sequence e \<and> e_workspaceId e = s_workspaceId s) ?new = ?new" by simp
  then have "log_after st' (s_workspaceId s) 0 = log_after st (s_workspaceId s) 0 @ ?new" by (simp add: log_after_def log)
  then show ?thesis
    unfolding new using fin start seen shape' by (intro exI conjI) (assumption | simp)+
qed

text \<open>
  C5. What a finish released can be read back: once the transaction of \<^verbatim>\<open>finishSession\<close> has
  committed, \<^verbatim>\<open>reconstructFinishRetry\<close> returns, from the event log alone, exactly the claims that the
  first call released, in its order, with their resources and modes. Beside a checked store,
  each released claim must still have its acquisition in the log, and the message's identifier
  must be new to it.
\<close>

theorem finish_retry_reads_back:
  assumes run: "transaction (Some FINISH_TX) [Message, Receipt] (finish_tx sha s input now) st
      = Inr (Finished m released closed, st')"
    and wf: "wf_store st" "valid_map (store_map st)" "log_ok st" "own_keys (store_map st)"
    and fresh: "\<forall>e \<in> set (st_events st). \<not> records_message s m e"
    and logged: "\<forall>c \<in> set released. claim_logged (log_after st (s_workspaceId s) 0) c"
  shows "reconstructFinishRetry st' (s_workspaceId s) closed m = Inr (map projectReleasedClaim released)"
proof -
  obtain v u rec rels close where fin: "finished_view s m released closed v u" and sees: "sees v = store_map st" "sees u = store_map st'"
    and log: "log_after st' (s_workspaceId s) 0 = log_after st (s_workspaceId s) 0 @ rec # rels @ [close]"
    and shape: "recorded_event s m rec" "list_all2 (released_event s) released rels" "closed_event s m released close"
    using finish_log [OF run wf(1) wf(4)] by blast
  note keeps = transaction_keeps [OF run lawful_finish wf(1)] and valid = transaction_valid [OF run lawful_finish wf(1, 2)]
  have "allEvents st' (s_workspaceId s) = Inr (log_after st' (s_workspaceId s) 0)"
    using allEvents_complete transaction_log_ok [OF run lawful_finish wf(1, 3)] keeps(1) by (simp add: log_ok_def wf_store_def)
  moreover have "reconstruct_claims (log_after st' (s_workspaceId s) 0) closed m = Inr (map projectReleasedClaim released)"
    unfolding log using fin fresh
    by (intro reconstruct_finished [OF shape _ logged]) (auto simp: finished_view_def log_after_def)
  moreover have "snapshot_kind st' (s_workspaceId s) (Some [Claim]) Claim
      = Inr (filter (\<lambda>r. workspace_of r = Some (s_workspaceId s)) (map (\<lambda>(_, env). v_record env) (list_keys (st_state st') Claim)))"
    using keeps(1) valid by (simp add: snapshot_kind_def listState_valid wf_store_def bind_r_def)
  moreover have "c_ownerSessionId c \<noteq> s_sessionId closed" if "(key, env) \<in> set (list_keys (st_state st') Claim)" "v_record env = ClaimR c" for key env c
  proof -
    have "map_of (st_state st') key = Some env" "fst key = Claim"
      using that(1) keeps(1) by (auto simp: set_list_keys wf_store_def)
    then have seen: "sees u (Claim, snd key) = Some (ClaimR c, v_generation env)"
      using that(2) by (cases key) (simp add: sees store_map_def)
    with fin have "snd key \<notin> c_claimId ` set released" "sees v (Claim, snd key) = Some (ClaimR c, v_generation env)"
      unfolding finished_view_def by (metis option.distinct(1))+
    moreover from this(2) wf(4) have "c_claimId c = snd key" by (auto simp: sees own_keys_def)
    ultimately have "c \<notin> set released" and "\<exists>i g. sees v (Claim, i) = Some (ClaimR c, g)" by (auto simp: image_iff dest: spec)
    moreover have "set released = {c. c_ownerSessionId c = s_sessionId s \<and> (\<exists>i g. sees v (Claim, i) = Some (ClaimR c, g))}"
      "s_sessionId closed = s_sessionId s"
      using fin by (simp_all add: finished_view_def)
    ultimately show ?thesis by simp
  qed
  then have "\<not> list_ex (\<lambda>c. c_ownerSessionId c = s_sessionId closed) (all_of as_claim
      (filter (\<lambda>r. workspace_of r = Some (s_workspaceId s)) (map (\<lambda>(_, env). v_record env) (list_keys (st_state st') Claim))))"
    by (auto simp: list_ex_iff set_all_of as_entity_Some)
  ultimately show ?thesis by (simp add: reconstructFinishRetry_def bind_r_def)
qed

definition claimed_event :: event where
  "claimed_event = \<lparr>e_sequence = 1, e_eventId = ''e1'', e_workspaceId = ''w'', e_actorSessionId = ''s1'',
     e_type = ''claim.acquired'', e_occurredAt = 0,
     e_payload = [(''claimId'', JStr ''c1''), (''resource'', JStr ''file:a''), (''mode'', JStr ''exclusive'')]\<rparr>"

definition claimed_workspace :: store where
  "claimed_workspace = \<lparr>st_workspaceId = ''w'', st_ids = (\<lambda>label n. label), st_issued = 0,
     st_state = [((Session, ''s1''), \<lparr>v_generation = ''g1'', v_record = SessionR (sample_session ''s1'' ''alice'' ''g'')\<rparr>),
       ((Claim, ''c1''), \<lparr>v_generation = ''g2'', v_record = ClaimR (sample_claim ''c1'' ''s1'' ''file:a'' ''exclusive'' 60000)\<rparr>)],
     st_ephemeral = [], st_events = [claimed_event], st_floor = None\<rparr>"

definition sample_finish :: finish_input where
  "sample_finish = \<lparr>fi_clientMessageId = ''k'', fi_toParticipantId = None, fi_goal = ''done'', fi_status = None,
     fi_completed = None, fi_remaining = None, fi_blockers = None, fi_verification = None, fi_artifacts = None\<rparr>"

abbreviation claimed_session :: session where
  "claimed_session \<equiv> sample_session ''s1'' ''alice'' ''g''"

abbreviation claimed_claim :: claim where
  "claimed_claim \<equiv> sample_claim ''c1'' ''s1'' ''file:a'' ''exclusive'' 60000"

abbreviation finished_message :: message where
  "finished_message \<equiv> new_message ((finish_message sample_finish)\<lparr>mi_toParticipantIds := Some []\<rparr>) claimed_session
     ''message'' ''message'' 1000"

lemma claimed_workspace_fields:
  "st_ids claimed_workspace label n = label" "st_events claimed_workspace = [claimed_event]"
  "st_floor claimed_workspace = None" "st_workspaceId claimed_workspace = ''w''"
  "index_ids (st_state claimed_workspace) MessageByClientKey t = []" "map_of (st_state claimed_workspace) (Message, i) = None"
  by (simp_all add: claimed_workspace_def index_ids_def)

lemma sample_finish_fields:
  "mi_toParticipantIds (finish_message sample_finish) = Some []" "mi_decisionChange (finish_message sample_finish) = None"
  "mi_supersedes (finish_message sample_finish) = None" "mi_withdraws (finish_message sample_finish) = None"
  "mi_inReplyTo (finish_message sample_finish) = None" "mi_clientMessageId (finish_message sample_finish) = ''k''"
  "m_toParticipantIds finished_message = []" "m_messageId finished_message = ''message''"
  by (simp_all add: finish_message_def sample_finish_def new_message_def or_else_def)

lemma finished_message_valid: "validate Message (MessageR finished_message) = Inr ()"
  by code_simp

lemma claimed_workspace_begin:
  "begin_view claimed_workspace (Some FINISH_TX) [Message, Receipt] = Inr \<lparr>x_wanted = Some FINISH_TX, x_exact = [Message, Receipt],
     x_loaded = [((Claim, ''c1''), Some (Live (ClaimR claimed_claim) ''g2'')), ((Session, ''s1''), Some (Live (SessionR claimed_session) ''g1''))],
     x_staged = [], x_events = [], x_issued = 0, x_store = claimed_workspace\<rparr>"
  by (simp add: claimed_workspace_def FINISH_TX_def begin_eval sample_facts CLAIM_MODES_def)

lemmas finish_eval = finish_tx_def finish_new_def recordMessageInTransaction_def assertCurrentSession_def resolveAddressees_def
  prepareDecisionChange_def findMessageRetry_def create_message_def threadFor_def addressedRecipients_def finish_release_def
  claims_t_def sessions_t_def participants_t_def load_message_def append_event_def FINISH_TX_def or_else_def

lemma claimed_workspace_finish:
  "\<exists>closed st'. transaction (Some FINISH_TX) [Message, Receipt] (finish_tx sha claimed_session sample_finish 1000) claimed_workspace
     = Inr (Finished finished_message [claimed_claim] closed, st')"
  unfolding transaction_def claimed_workspace_begin
  by (simp add: finish_eval tx_eval commit_eval claimed_workspace_fields sample_finish_fields finished_message_valid sample_facts
      EVENT_TYPES_def claimed_event_def)

theorem finish_retry_reads_back_witness:
  "\<exists>m closed st'. transaction (Some FINISH_TX) [Message, Receipt] (finish_tx (\<lambda>_. []) claimed_session sample_finish 1000)
       claimed_workspace = Inr (Finished m [claimed_claim] closed, st')
     \<and> reconstructFinishRetry st' ''w'' closed m = Inr [projectReleasedClaim claimed_claim]"
proof -
  obtain closed st' where run: "transaction (Some FINISH_TX) [Message, Receipt]
      (finish_tx (\<lambda>_. []) claimed_session sample_finish 1000) claimed_workspace
      = Inr (Finished finished_message [claimed_claim] closed, st')"
    using claimed_workspace_finish by blast
  have wf: "wf_store claimed_workspace"
    by (simp add: wf_store_def claimed_workspace_def STATE_KINDS_def ascending_def)
  have valid: "valid_map (store_map claimed_workspace)" "own_keys (store_map claimed_workspace)"
    by (auto simp: valid_map_def own_keys_def store_map_def claimed_workspace_def sample_facts CLAIM_MODES_def split: if_splits)
  have log: "log_ok claimed_workspace"
    by (simp add: log_ok_def claimed_workspace_fields validate_event_iff claimed_event_def sample_facts EVENT_TYPES_def) code_simp
  have logged: "claim_logged (log_after claimed_workspace ''w'' 0) claimed_claim"
    by (simp add: claim_logged_def log_after_def claimed_workspace_fields claimed_event_def claim_facts_def payload_def is_string_def sample_facts)
  have "\<not> records_message claimed_session finished_message claimed_event"
    by (simp add: records_message_def claimed_event_def)
  then show ?thesis
    using finish_retry_reads_back [OF run wf valid(1) log valid(2)] run logged by (auto simp: claimed_workspace_fields sample_facts)
qed

end
