(* ===== verification/Delivery.thy ===== *)
theory Delivery
  imports Receipts Record_Checks
begin

text \<open>
  Delivery: the bindings that say where a session can be reached
  (\<^verbatim>\<open>packages/core/src/delivery-bindings.mjs\<close>), what a participant's next turn shows
  (\<^verbatim>\<open>next-turn-delivery.mjs\<close>), and closing a session as \<^verbatim>\<open>service.mjs\<close> composes it, with the
  retirement of its endpoint.

  A binding is an ephemeral record under its session's identifier. Retirement is a field of
  its own, and it is final for the generation that published it.
\<close>

section \<open>Bindings\<close>

definition binding_conflict :: acc_error where
  "binding_conflict = AccError CONFLICT
     ''cannot publish a delivery binding for anything but this open session generation''"

definition is_retired :: "binding \<Rightarrow> bool" where
  "is_retired b = (case b_retiredAt b of None \<Rightarrow> False | Some None \<Rightarrow> False | Some (Some _) \<Rightarrow> True)"

text \<open>The session is open under this generation; anything else is the conflict.\<close>

definition open_generation :: "id \<Rightarrow> id \<Rightarrow> store \<Rightarrow> session res" where
  "open_generation sessionId generation st =
     bind_r (locate st sessionId None) (\<lambda>located. case located of
       None \<Rightarrow> Inl binding_conflict
     | Some (s, _) \<Rightarrow> if s_state s \<noteq> ''open'' \<or> s_generation s \<noteq> generation then Inl binding_conflict else Inr s)"

record current_binding =
  cb_binding :: binding
  cb_participantId :: id
  cb_reachable :: bool

definition current_binding :: "store \<Rightarrow> time \<Rightarrow> binding \<Rightarrow> current_binding list res" where
  "current_binding st now b =
     bind_r (locate st (b_sessionId b) None) (\<lambda>located. Inr (case located of
       None \<Rightarrow> []
     | Some (s, _) \<Rightarrow>
         if s_state s \<noteq> ''open'' \<or> s_generation s \<noteq> b_generation b then []
         else if is_retired b then []
         else [\<lparr>cb_binding = b, cb_participantId = s_participantId s, cb_reachable = (b_leaseUntil b > now)\<rparr>]))"

definition currentBindings :: "store \<Rightarrow> time \<Rightarrow> current_binding list res" where
  "currentBindings st now =
     bind_r (eph_list st DeliveryBinding) (\<lambda>rs.
     bind_r (map_r (current_binding st now) (all_of as_binding rs)) (\<lambda>found.
     Inr (locale_sort (\<lambda>x. b_sessionId (cb_binding x)) (concat found))))"

definition listDeliveryBindings :: "id \<Rightarrow> time \<Rightarrow> bool \<Rightarrow> store \<Rightarrow> binding list res" where
  "listDeliveryBindings participantId now includeExpired st =
     bind_r (currentBindings st now) (\<lambda>items.
     Inr (map cb_binding (filter (\<lambda>x. cb_participantId x = participantId \<and> (includeExpired \<or> cb_reachable x)) items)))"

record binding_input =
  bi_sessionId :: id
  bi_generation :: id
  bi_adapterId :: id
  bi_clientVersion :: string
  bi_availableModes :: "string list"
  bi_livePolicy :: string
  bi_opaqueEndpointRef :: string
  bi_leaseUntil :: time

definition new_binding :: "binding_input \<Rightarrow> binding" where
  "new_binding input = \<lparr>b_sessionId = bi_sessionId input, b_generation = bi_generation input,
     b_adapterId = bi_adapterId input, b_clientVersion = bi_clientVersion input,
     b_availableModes = bi_availableModes input, b_livePolicy = bi_livePolicy input,
     b_opaqueEndpointRef = bi_opaqueEndpointRef input, b_leaseUntil = bi_leaseUntil input,
     b_retiredAt = Some None\<rparr>"

text \<open>The write, under the record's lock, where the session is looked up again.\<close>

definition publish_step :: "binding_input \<Rightarrow> store \<Rightarrow> (unit \<times> store) res" where
  "publish_step input st =
     bind_r (eph_update st DeliveryBinding (bi_sessionId input) (\<lambda>_.
       bind_r (open_generation (bi_sessionId input) (bi_generation input) st) (\<lambda>_.
       Inr (Some (BindingR (new_binding input)))))) (\<lambda>(_, st'). Inr ((), st'))"

definition publishDeliveryBinding :: "binding_input \<Rightarrow> binding svc" where
  "publishDeliveryBinding input =
     bind_s (read_s (open_generation (bi_sessionId input) (bi_generation input))) (\<lambda>_.
     bind_s (lift_s (validate DeliveryBinding (BindingR (new_binding input)))) (\<lambda>_.
     bind_s (step_s (publish_step input)) (\<lambda>_.
     bind_s (read_s (open_generation (bi_sessionId input) (bi_generation input))) (\<lambda>_.
     return_s (new_binding input)))))"

text \<open>
  \<open>endpoint\<close> is \<open>None\<close> when the caller named no endpoint, and \<open>Some\<close> of what it named
  otherwise.
\<close>

definition retire :: "id \<Rightarrow> string option option \<Rightarrow> time \<Rightarrow> binding option \<Rightarrow> binding option res" where
  "retire generation endpoint now current = (case current of
     None \<Rightarrow> Inr None
   | Some b \<Rightarrow>
       if b_generation b \<noteq> generation then Inl binding_conflict
       else if (case endpoint of None \<Rightarrow> False | Some ref \<Rightarrow> Some (b_opaqueEndpointRef b) \<noteq> ref) then Inr None
       else if is_retired b then Inr None
       else Inr (Some (b\<lparr>b_leaseUntil := now, b_retiredAt := Some (Some now)\<rparr>)))"

definition clear_step :: "id \<Rightarrow> id \<Rightarrow> string option option \<Rightarrow> time \<Rightarrow> store \<Rightarrow> (unit \<times> store) res" where
  "clear_step sessionId generation endpoint now st =
     bind_r (eph_update st DeliveryBinding sessionId (\<lambda>current.
       bind_r (retire generation endpoint now (as_binding current)) (\<lambda>b. Inr (map_option BindingR b))))
     (\<lambda>(_, st'). Inr ((), st'))"

definition clearDeliveryBinding :: "id \<Rightarrow> id \<Rightarrow> string option option \<Rightarrow> time \<Rightarrow> unit svc" where
  "clearDeliveryBinding sessionId generation endpoint now =
     bind_s (read_s (\<lambda>st. eph_get st DeliveryBinding sessionId)) (\<lambda>seen. case as_binding seen of
       None \<Rightarrow> return_s ()
     | Some b \<Rightarrow> if b_generation b = generation \<and> is_retired b then return_s ()
         else step_s (clear_step sessionId generation endpoint now))"

definition extend_lease :: "id \<Rightarrow> time \<Rightarrow> binding option \<Rightarrow> binding option res" where
  "extend_lease generation leaseUntil current = (case current of
     None \<Rightarrow> Inr None
   | Some b \<Rightarrow>
       if b_generation b \<noteq> generation then Inl binding_conflict
       else if is_retired b then Inr None
       else bind_r (validate DeliveryBinding (BindingR (b\<lparr>b_leaseUntil := leaseUntil\<rparr>))) (\<lambda>_.
         Inr (Some (b\<lparr>b_leaseUntil := leaseUntil\<rparr>))))"

definition refresh_step :: "id \<Rightarrow> id \<Rightarrow> time \<Rightarrow> store \<Rightarrow> (unit \<times> store) res" where
  "refresh_step sessionId generation leaseUntil st =
     bind_r (eph_update st DeliveryBinding sessionId (\<lambda>current.
       bind_r (extend_lease generation leaseUntil (as_binding current)) (\<lambda>b. Inr (map_option BindingR b))))
     (\<lambda>(_, st'). Inr ((), st'))"

definition refreshDeliveryBinding :: "id \<Rightarrow> id \<Rightarrow> time \<Rightarrow> unit svc" where
  "refreshDeliveryBinding sessionId generation leaseUntil =
     bind_s (read_s (open_generation sessionId generation)) (\<lambda>_.
     step_s (refresh_step sessionId generation leaseUntil))"

section \<open>Closing a session of the service\<close>

definition service_closeSession :: "id \<Rightarrow> id option \<Rightarrow> id \<Rightarrow> string option \<Rightarrow> time \<Rightarrow> time \<Rightarrow> session svc" where
  "service_closeSession sessionId workspaceId generation endReason now later =
     bind_s (closeSession sessionId workspaceId generation endReason now) (\<lambda>closed.
     bind_s (clearDeliveryBinding sessionId generation None later) (\<lambda>_.
     return_s closed))"

section \<open>The next turn\<close>

type_synonym viewed = "message \<times> decision_status option"

record next_turn =
  nt_queuedMessages :: "viewed list"
  nt_liveOfferedMessageIds :: "id list"
  nt_reminderMessageIds :: "id list"
  nt_roomMessageIds :: "id list"
  nt_repeatMessages :: "viewed list"
  nt_repeatOffers :: "(id \<times> string \<times> string) list"

definition receipt_by_message :: "id \<Rightarrow> receipt list \<Rightarrow> (id \<times> receipt) list" where
  "receipt_by_message participantId receipts =
     rev (map (\<lambda>r. (r_messageId r, r)) (filter (\<lambda>r. r_recipientParticipantId r = participantId) receipts))"

definition oldest_first :: "viewed list \<Rightarrow> viewed list" where
  "oldest_first xs = sort_key (\<lambda>(m, _). (locale_key (to_iso (m_sentAt m)), locale_key (m_messageId m))) xs"

definition eligible_messages :: "id \<Rightarrow> id option \<Rightarrow> message list \<Rightarrow> receipt list \<Rightarrow> viewed list" where
  "eligible_messages participantId exceptSessionId messages receipts =
     oldest_first (filter (\<lambda>(m, status). isCurrentDecision status
         \<and> map_of (receipt_by_message participantId receipts) (m_messageId m) \<noteq> None
         \<and> exceptSessionId \<noteq> Some (m_fromSessionId m))
       (map (\<lambda>m. (m, decisionView messages m)) messages))"

definition next_turn_view :: "id \<Rightarrow> id option \<Rightarrow> bool \<Rightarrow> time \<Rightarrow> message list \<Rightarrow> receipt list \<Rightarrow> next_turn" where
  "next_turn_view participantId exceptSessionId repeats now messages receipts =
     (let receipt_of = (\<lambda>m. the (map_of (receipt_by_message participantId receipts) (m_messageId m)));
          eligible = eligible_messages participantId exceptSessionId messages receipts;
          repeated = (if repeats then filter (\<lambda>(m, _). dueForRepeat m (receipt_of m) now) eligible else []);
          repeating = map (\<lambda>(m, _). m_messageId m) repeated
      in \<lparr>nt_queuedMessages = filter (\<lambda>(m, _). r_state (receipt_of m) = ''queued'') eligible,
          nt_liveOfferedMessageIds = map (\<lambda>(m, _). m_messageId m) (filter (\<lambda>(m, _). m_toParticipantIds m \<noteq> []
            \<and> r_state (receipt_of m) = ''offered'' \<and> m_messageId m \<notin> set repeating) eligible),
          nt_reminderMessageIds = map (\<lambda>(m, _). m_messageId m) (filter (\<lambda>(m, _). m_obligation m \<noteq> ''none''
            \<and> r_state (receipt_of m) \<in> {''offered'', ''retrieved''} \<and> m_messageId m \<notin> set repeating) eligible),
          nt_roomMessageIds = map (\<lambda>(m, _). m_messageId m) (filter (\<lambda>(m, _). m_toParticipantIds m = []) eligible),
          nt_repeatMessages = repeated,
          nt_repeatOffers = map (\<lambda>(m, _). case offerFacts (receipt_of m) of
            Some x \<Rightarrow> (m_messageId m, o_transport x, o_at x) | None \<Rightarrow> (m_messageId m, [], [])) repeated\<rparr>)"

definition nextTurnDelivery :: "store \<Rightarrow> id option \<Rightarrow> id option \<Rightarrow> id option \<Rightarrow> bool \<Rightarrow> time \<Rightarrow> next_turn res" where
  "nextTurnDelivery st participantId workspaceId exceptSessionId repeats now =
     (case participantId of
        Some p \<Rightarrow> if p = [] then Inr (next_turn_view [] exceptSessionId repeats now [] [])
          else bind_r (snapshot_kind st (resolved st workspaceId) (Some [Message, Receipt]) Message) (\<lambda>ms.
            bind_r (snapshot_kind st (resolved st workspaceId) (Some [Message, Receipt]) Receipt) (\<lambda>rs.
            Inr (next_turn_view p exceptSessionId repeats now (all_of as_message ms) (all_of as_receipt rs))))
      | None \<Rightarrow> Inr (next_turn_view [] exceptSessionId repeats now [] []))"

section \<open>What the binding steps do\<close>

definition bound :: "store \<Rightarrow> id \<Rightarrow> entity option" where
  "bound st i = map_of (st_ephemeral st) (DeliveryBinding, i)"

definition bindings_keyed :: "store \<Rightarrow> bool" where
  "bindings_keyed st \<longleftrightarrow> distinct (map fst (st_ephemeral st)) \<and> (\<forall>i b. bound st i = Some (BindingR b) \<longrightarrow> b_sessionId b = i)"

lemma eph_get_eq: "eph_get st k i = Inr r \<Longrightarrow> r = map_of (st_ephemeral st) (k, i)"
  by (auto simp: eph_get_def res_simps split: option.splits)

lemma bound_eph_write: "bound (eph_write st DeliveryBinding i r) j = (if j = i then Some r else bound st j)"
  by (simp add: bound_def eph_write_def update_conv)

lemma eph_update_bound:
  assumes "eph_update st DeliveryBinding i f = Inr (r, st')"
  shows "\<exists>next_r. f (bound st i) = Inr next_r \<and> st' = (case next_r of None \<Rightarrow> st | Some x \<Rightarrow> eph_write st DeliveryBinding i x)"
  using assms eph_get_eq by (fastforce simp: eph_update_def res_simps bound_def split: option.splits)

datatype binding_call =
    Publish binding_input
  | Clear id id "string option option" time
  | Refresh id id time

fun binding_step :: "binding_call \<Rightarrow> store \<Rightarrow> (unit \<times> store) res" where
  "binding_step (Publish input) st = publish_step input st"
| "binding_step (Clear i g endpoint now) st = clear_step i g endpoint now st"
| "binding_step (Refresh i g lease) st = refresh_step i g lease st"

text \<open>Calls in any order; a call that throws has written nothing.\<close>

definition run_call :: "store \<Rightarrow> binding_call \<Rightarrow> store" where
  "run_call st c = (case binding_step c st of Inl _ \<Rightarrow> st | Inr (_, st') \<Rightarrow> st')"

fun publishes :: "id \<Rightarrow> binding_call \<Rightarrow> bool" where
  "publishes i (Publish input) = (bi_sessionId input = i)"
| "publishes i _ = False"

definition retired_entity :: "entity \<Rightarrow> bool" where
  "retired_entity r = (case as_binding (Some r) of None \<Rightarrow> False | Some b \<Rightarrow> is_retired b)"

lemma retire_retired: "is_retired b \<Longrightarrow> retire g e now (Some b) \<noteq> Inr (Some x)"
  by (auto simp: retire_def split: if_splits)

lemma extend_lease_retired: "is_retired b \<Longrightarrow> extend_lease g lease (Some b) \<noteq> Inr (Some x)"
  by (auto simp: extend_lease_def split: if_splits)

text \<open>
  A binding changes only by a publication for its session, or while it is there and not retired.
\<close>

lemma run_call_changes:
  assumes "bound (run_call st c) i \<noteq> bound st i"
  shows "publishes i c \<or> (\<exists>b. bound st i = Some (BindingR b) \<and> \<not> is_retired b)"
proof -
  from assms obtain u st' where run: "binding_step c st = Inr (u, st')" and diff: "bound st' i \<noteq> bound st i"
    by (auto simp: run_call_def split: sum.splits)
  show ?thesis
  proof (cases c)
    case (Publish input)
    with run obtain r where "eph_update st DeliveryBinding (bi_sessionId input) (\<lambda>_.
       bind_r (open_generation (bi_sessionId input) (bi_generation input) st) (\<lambda>_.
       Inr (Some (BindingR (new_binding input))))) = Inr (r, st')"
      by (auto simp: publish_step_def res_simps)
    from eph_update_bound [OF this] Publish diff show ?thesis
      by (auto simp: bound_eph_write split: option.splits if_splits)
  next
    case (Clear j g e now)
    with run obtain r where "eph_update st DeliveryBinding j (\<lambda>current.
       bind_r (retire g e now (as_binding current)) (\<lambda>b. Inr (map_option BindingR b))) = Inr (r, st')"
      by (auto simp: clear_step_def res_simps)
    from eph_update_bound [OF this] diff show ?thesis
      by (auto simp: bound_eph_write res_simps retire_def as_entity_Some split: option.splits if_splits)
  next
    case (Refresh j g lease)
    with run obtain r where "eph_update st DeliveryBinding j (\<lambda>current.
       bind_r (extend_lease g lease (as_binding current)) (\<lambda>b. Inr (map_option BindingR b))) = Inr (r, st')"
      by (auto simp: refresh_step_def res_simps)
    from eph_update_bound [OF this] diff show ?thesis
      by (auto simp: bound_eph_write res_simps extend_lease_def as_entity_Some split: option.splits if_splits)
  qed
qed

lemma run_calls_settled:
  assumes "\<forall>b. bound st i = Some (BindingR b) \<longrightarrow> is_retired b" and "\<forall>c \<in> set calls. \<not> publishes i c"
  shows "bound (foldl run_call st calls) i = bound st i"
  using assms
proof (induction calls arbitrary: st)
  case (Cons c calls)
  then have "bound (run_call st c) i = bound st i" using run_call_changes by (metis list.set_intros(1))
  with Cons show ?case by simp
qed simp

text \<open>Clearing ends with no binding of the session, or one of its generation that is retired.\<close>

definition left_at :: "store \<Rightarrow> id \<Rightarrow> id \<Rightarrow> bool" where
  "left_at st i g \<longleftrightarrow> (\<forall>b. bound st i = Some (BindingR b) \<longrightarrow> b_generation b = g \<and> is_retired b)"

lemma clear_step_left:
  assumes "clear_step i g None now st = Inr (x, st')"
  shows "left_at st' i g"
proof -
  from assms obtain r where "eph_update st DeliveryBinding i (\<lambda>current.
       bind_r (retire g None now (as_binding current)) (\<lambda>b. Inr (map_option BindingR b))) = Inr (r, st')"
    by (auto simp: clear_step_def res_simps)
  from eph_update_bound [OF this] obtain b' where
    retired: "retire g None now (as_binding (bound st i)) = Inr b'"
    and st': "st' = (case b' of None \<Rightarrow> st | Some x \<Rightarrow> eph_write st DeliveryBinding i (BindingR x))"
    by (auto simp: res_simps split: option.splits)
  show ?thesis
  proof (cases "as_binding (bound st i)")
    case None
    with retired st' show ?thesis by (auto simp: left_at_def retire_def)
  next
    case (Some b)
    with retired st' show ?thesis
      by (auto simp: left_at_def retire_def as_entity_Some bound_eph_write is_retired_def split: if_splits)
  qed
qed

lemma clear_left:
  assumes "clearDeliveryBinding i g None now st = (Inr x, st')"
  shows "left_at st' i g"
proof -
  from assms obtain seen where got: "eph_get st DeliveryBinding i = Inr seen"
    and rest: "(case as_binding seen of
       None \<Rightarrow> return_s ()
     | Some b \<Rightarrow> if b_generation b = g \<and> is_retired b then return_s ()
         else step_s (clear_step i g None now)) st = (Inr x, st')"
    by (auto simp: clearDeliveryBinding_def bind_s_def read_s_def split: sum.splits)
  have seen: "seen = bound st i" using eph_get_eq [OF got] by (simp add: bound_def)
  show ?thesis
  proof (cases "as_binding seen")
    case None
    with rest seen show ?thesis by (auto simp: left_at_def return_s_def)
  next
    case (Some b)
    show ?thesis
    proof (cases "b_generation b = g \<and> is_retired b")
      case True
      with rest Some seen show ?thesis by (auto simp: left_at_def return_s_def as_entity_Some)
    next
      case False
      with rest Some have "clear_step i g None now st = Inr (x, st')"
        by (auto simp: step_s_def split: sum.splits)
      then show ?thesis by (rule clear_step_left)
    qed
  qed
qed

lemma left_at_calls:
  assumes "left_at st i g" and "\<forall>c \<in> set calls. \<not> publishes i c"
  shows "left_at (foldl run_call st calls) i g"
  using assms run_calls_settled [of st i calls] unfolding left_at_def by metis

section \<open>What is listed\<close>

lemma run_call_keyed:
  assumes "bindings_keyed st"
  shows "bindings_keyed (run_call st c)"
proof (cases "binding_step c st")
  case (Inr y)
  then obtain u st' where run: "binding_step c st = Inr (u, st')" by (cases y) auto
  have put: "bindings_keyed (eph_write st DeliveryBinding i (BindingR b))" if "b_sessionId b = i" for i b
  proof -
    have "distinct (map fst (st_ephemeral (eph_write st DeliveryBinding i (BindingR b))))"
      using assms by (simp add: bindings_keyed_def eph_write_def distinct_update)
    with assms that show ?thesis by (simp add: bindings_keyed_def bound_eph_write)
  qed
  have same: "b_sessionId b = i" if "bound st i = Some (BindingR b)" for i b
    using assms that by (auto simp: bindings_keyed_def)
  have "bindings_keyed st'"
  proof (cases c)
    case (Publish input)
    with run obtain r where "eph_update st DeliveryBinding (bi_sessionId input) (\<lambda>_.
       bind_r (open_generation (bi_sessionId input) (bi_generation input) st) (\<lambda>_.
       Inr (Some (BindingR (new_binding input))))) = Inr (r, st')"
      by (auto simp: publish_step_def res_simps)
    from eph_update_bound [OF this] put [of "new_binding input" "bi_sessionId input"] assms show ?thesis
      by (auto simp: res_simps) (simp add: new_binding_def)
  next
    case (Clear j g e now)
    with run obtain r where "eph_update st DeliveryBinding j (\<lambda>current.
       bind_r (retire g e now (as_binding current)) (\<lambda>b. Inr (map_option BindingR b))) = Inr (r, st')"
      by (auto simp: clear_step_def res_simps)
    from eph_update_bound [OF this] assms show ?thesis
      by (auto simp: res_simps retire_def as_entity_Some split: option.splits if_splits) (rule put, simp add: same)+
  next
    case (Refresh j g lease)
    with run obtain r where "eph_update st DeliveryBinding j (\<lambda>current.
       bind_r (extend_lease g lease (as_binding current)) (\<lambda>b. Inr (map_option BindingR b))) = Inr (r, st')"
      by (auto simp: refresh_step_def res_simps)
    from eph_update_bound [OF this] assms show ?thesis
      by (auto simp: res_simps extend_lease_def as_entity_Some split: option.splits if_splits) (rule put, simp add: same)
  qed
  with run show ?thesis by (simp add: run_call_def)
qed (simp add: run_call_def assms)

lemma run_calls_keyed: "bindings_keyed st \<Longrightarrow> bindings_keyed (foldl run_call st calls)"
  by (induction calls arbitrary: st) (simp_all add: run_call_keyed)

lemma listed_binding:
  assumes "listDeliveryBindings p now inc st = Inr bs" and "b \<in> set bs" and "bindings_keyed st"
  shows "bound st (b_sessionId b) = Some (BindingR b) \<and> \<not> is_retired b
    \<and> (\<exists>s. open_generation (b_sessionId b) (b_generation b) st = Inr s \<and> s_participantId s = p)
    \<and> (inc \<or> now < b_leaseUntil b)"
proof -
  from assms(1) obtain rs found where rs: "eph_list st DeliveryBinding = Inr rs"
    and found: "map_r (current_binding st now) (all_of as_binding rs) = Inr found"
    and bs: "bs = map cb_binding (filter (\<lambda>x. cb_participantId x = p \<and> (inc \<or> cb_reachable x))
      (locale_sort (\<lambda>x. b_sessionId (cb_binding x)) (concat found)))"
    by (auto simp: listDeliveryBindings_def currentBindings_def res_simps)
  from bs assms(2) obtain x xs where x: "x \<in> set xs" "xs \<in> set found" "b = cb_binding x" "cb_participantId x = p" "inc \<or> cb_reachable x"
    by auto
  from map_r_mem [OF found x(2)] obtain b' where b': "b' \<in> set (all_of as_binding rs)" "current_binding st now b' = Inr xs" by blast
  from b'(2) x(1) obtain s d where at: "locate st (b_sessionId b') None = Inr (Some (s, d))" "s_state s = ''open''"
    "s_generation s = b_generation b'" "\<not> is_retired b'"
    and item: "x = \<lparr>cb_binding = b', cb_participantId = s_participantId s, cb_reachable = (b_leaseUntil b' > now)\<rparr>"
    by (auto simp: current_binding_def res_simps split: option.splits if_splits)
  have "b' = b" using x(3) item by simp
  with at item x(4, 5) have "b' = b" "locate st (b_sessionId b) None = Inr (Some (s, d))" "s_state s = ''open''"
    "s_generation s = b_generation b" "\<not> is_retired b" "s_participantId s = p" "inc \<or> now < b_leaseUntil b"
    by simp_all
  moreover from this b'(1) have "BindingR b \<in> set rs" by (simp add: set_all_of as_entity_Some)
  then obtain key where "(key, BindingR b) \<in> set (list_keys (st_ephemeral st) DeliveryBinding)"
    using map_r_mem [OF rs [unfolded eph_list_def]] by (fastforce simp: res_simps)
  then have "map_of (st_ephemeral st) key = Some (BindingR b)" "fst key = DeliveryBinding"
    using assms(3) by (auto simp: set_list_keys bindings_keyed_def)
  then have "bound st (snd key) = Some (BindingR b)" by (cases key) (simp add: bound_def)
  with assms(3) have "bound st (b_sessionId b) = Some (BindingR b)" by (auto simp: bindings_keyed_def)
  ultimately show ?thesis by (auto simp: open_generation_def bind_r_def)
qed

section \<open>A session that left is not offered to\<close>

lemma eph_delete_bound:
  assumes "eph_delete st k i guard = Inr st'" and "k \<noteq> DeliveryBinding" and "bindings_keyed st"
  shows "bindings_keyed st'"
proof -
  have "st' = st \<or> st' = st\<lparr>st_ephemeral := AList.delete (k, i) (st_ephemeral st)\<rparr>"
    using assms(1) by (auto simp: eph_delete_def res_simps split: option.splits if_splits)
  then show ?thesis
    using assms(2, 3) by (auto simp: bindings_keyed_def bound_def delete_conv distinct_delete)
qed

lemma closeSession_keyed:
  assumes run: "closeSession i w g reason now st = (Inr closed, st')" and "wf_store st" and "bindings_keyed st"
  shows "bindings_keyed st'"
proof -
  from run obtain e st1 where first: "close_ephemeral i (close_session (resolved st w) g reason now) st = Inr (e, st1)"
    and rest: "(case e of Some c \<Rightarrow> bind_s (step_s (drop_intent i)) (\<lambda>_. return_s c)
      | None \<Rightarrow> step_s (\<lambda>st. transaction (Some [Session]) []
         (close_durable i (close_session (resolved st w) g reason now)) st)) st1 = (Inr closed, st')"
    by (auto simp: closeSession_def bind_s_def step_s_def split: sum.splits prod.splits)
  show ?thesis
  proof (cases e)
    case None
    with first have "st1 = st" by (auto simp: close_ephemeral_def res_simps split: option.splits if_splits)
    with rest None obtain x where "transaction (Some [Session]) [] (close_durable i (close_session (resolved st w) g reason now)) st = Inr (x, st')"
      by (auto simp: step_s_def split: sum.splits)
    from transaction_keeps(3) [OF this lawful_close_durable assms(2)] assms(3) show ?thesis
      by (simp add: bindings_keyed_def bound_def)
  next
    case (Some c)
    with first have "eph_delete st Session i (\<lambda>_. True) = Inr st1"
      by (auto simp: close_ephemeral_def res_simps split: option.splits if_splits)
    then have keyed: "bindings_keyed st1" using eph_delete_bound assms(3) by blast
    from rest Some have "drop_intent i st1 = Inr ((), st')"
      by (auto simp: bind_s_def step_s_def return_s_def split: sum.splits prod.splits)
    then show ?thesis
      using keyed eph_delete_bound by (auto simp: drop_intent_def res_simps split: if_splits)
  qed
qed

lemma clear_keyed:
  assumes "clearDeliveryBinding i g e now st = (Inr x, st')" and "bindings_keyed st"
  shows "bindings_keyed st'"
proof -
  have "st' = st \<or> st' = run_call st (Clear i g e now)"
    using assms(1)
    by (auto simp: clearDeliveryBinding_def bind_s_def read_s_def return_s_def step_s_def run_call_def
        split: sum.splits prod.splits option.splits if_splits)
  then show ?thesis using assms(2) run_call_keyed by auto
qed

text \<open>
  C15. Once the service has closed a session, nothing lists a delivery endpoint for it, to
  anybody and at any time, expired leases included: whatever publications, clearings and
  refreshes other callers make afterwards, in any order, until the session itself publishes
  again.
\<close>

theorem closed_session_is_not_offered:
  assumes close: "service_closeSession i workspaceId g reason now later st = (Inr closed, st')"
    and wf: "wf_store st" "bindings_keyed st"
    and calls: "\<forall>c \<in> set calls. \<not> publishes i c"
    and listed: "listDeliveryBindings participantId t includeExpired (foldl run_call st' calls) = Inr bs"
  shows "\<forall>b \<in> set bs. b_sessionId b \<noteq> i"
proof
  fix b assume b: "b \<in> set bs"
  from close obtain st1 where st1: "closeSession i workspaceId g reason now st = (Inr closed, st1)"
    and clear: "clearDeliveryBinding i g None later st1 = (Inr (), st')"
    by (auto simp: service_closeSession_def bind_s_def return_s_def split: sum.splits prod.splits)
  have keyed: "bindings_keyed st'" using clear_keyed [OF clear] closeSession_keyed [OF st1 wf] by blast
  note listed_b = listed_binding [OF listed b run_calls_keyed [OF keyed]]
  show "b_sessionId b \<noteq> i"
    using left_at_calls [OF clear_left [OF clear] calls] listed_b by (auto simp: left_at_def)
qed

definition sample_binding :: binding where
  "sample_binding = \<lparr>b_sessionId = ''s1'', b_generation = ''g'', b_adapterId = ''codex'', b_clientVersion = ''v'',
     b_availableModes = [''livePush''], b_livePolicy = ''all'', b_opaqueEndpointRef = ''e'', b_leaseUntil = 60000,
     b_retiredAt = Some None\<rparr>"

definition bound_workspace :: store where
  "bound_workspace = \<lparr>st_workspaceId = ''w'', st_ids = (\<lambda>label n. label), st_issued = 0, st_state = [],
     st_ephemeral = [((Session, ''s1''), SessionR (sample_session ''s1'' ''alice'' ''g'')),
       ((DeliveryBinding, ''s1''), BindingR sample_binding)],
     st_events = [], st_floor = None\<rparr>"

lemma sample_binding_valid:
  "validate DeliveryBinding (BindingR sample_binding) = Inr ()"
  "validate DeliveryBinding (BindingR (sample_binding\<lparr>b_leaseUntil := 1000, b_retiredAt := Some (Some 1000)\<rparr>)) = Inr ()"
  by code_simp+

lemmas close_eval = service_closeSession_def closeSession_def close_ephemeral_def close_session_def drop_intent_def
  clearDeliveryBinding_def clear_step_def retire_def eph_get_def eph_update_def eph_delete_def eph_write_def isMaterialised_def
  snapshot_kind_def listState_def list_keys_def assertGeneration_def resolved_def bind_s_def read_s_def return_s_def step_s_def

theorem closed_session_is_not_offered_witness:
  "\<exists>closed st' bs. service_closeSession ''s1'' None ''g'' None 1000 1000 bound_workspace = (Inr closed, st')
     \<and> listDeliveryBindings ''alice'' 2000 True (foldl run_call st' [Refresh ''s1'' ''g'' 90000]) = Inr bs
     \<and> (\<forall>b \<in> set bs. b_sessionId b \<noteq> ''s1'')"
proof -
  have "\<exists>closed st'. service_closeSession ''s1'' None ''g'' None 1000 1000 bound_workspace = (Inr closed, st')
      \<and> st_ephemeral st' = [((DeliveryBinding, ''s1''), BindingR (sample_binding\<lparr>b_leaseUntil := 1000, b_retiredAt := Some (Some 1000)\<rparr>))]
      \<and> st_state st' = []"
    by (simp add: close_eval bound_workspace_def sample_facts sample_binding_valid tx_eval is_retired_def sample_binding_def [THEN arg_cong, of b_generation]
        sample_binding_def [THEN arg_cong, of b_retiredAt])
  then obtain closed st' where run: "service_closeSession ''s1'' None ''g'' None 1000 1000 bound_workspace = (Inr closed, st')"
    and st': "st_ephemeral st' = [((DeliveryBinding, ''s1''), BindingR (sample_binding\<lparr>b_leaseUntil := 1000, b_retiredAt := Some (Some 1000)\<rparr>))]"
      "st_state st' = []" by blast
  have "\<exists>bs. listDeliveryBindings ''alice'' 2000 True (foldl run_call st' [Refresh ''s1'' ''g'' 90000]) = Inr bs"
    by (simp add: run_call_def refresh_step_def extend_lease_def eph_update_def eph_get_def st' sample_facts sample_binding_valid is_retired_def
        listDeliveryBindings_def currentBindings_def current_binding_def eph_list_def list_keys_def locate_def stateRecord_def tx_eval
        sample_binding_def [THEN arg_cong, of b_generation] sample_binding_def [THEN arg_cong, of b_sessionId])
  moreover have "wf_store bound_workspace" "bindings_keyed bound_workspace"
    by (auto simp: wf_store_def bindings_keyed_def bound_workspace_def bound_def ascending_def sample_binding_def split: if_splits)
  ultimately show ?thesis
    using closed_session_is_not_offered [OF run, of "[Refresh ''s1'' ''g'' 90000]"] run by auto
qed

section \<open>The next turn shows each waiting message once\<close>

definition message_ids :: "viewed list \<Rightarrow> id set" where
  "message_ids xs = (\<lambda>(m, _). m_messageId m) ` set xs"

lemma set_eligible:
  "(m, status) \<in> set (eligible_messages p x messages receipts) \<Longrightarrow> \<exists>r. map_of (receipt_by_message p receipts) (m_messageId m) = Some r"
  by (auto simp: eligible_messages_def oldest_first_def)

text \<open>
  C25. A message that waits for a participant is in exactly one of the three lists a turn works
  from: the bodies to show, the live offers to name, and the offers to repeat. Together they
  are the current messages whose receipt is queued, or offered and addressed; a repeat
  is taken out of the offers only when it is shown.
\<close>

theorem next_turn_shows_once:
  fixes participantId exceptSessionId repeats now messages receipts
  defines "turn \<equiv> next_turn_view participantId exceptSessionId repeats now messages receipts"
    and "state_of \<equiv> \<lambda>i. map_option r_state (map_of (receipt_by_message participantId receipts) i)"
  shows "message_ids (nt_queuedMessages turn) \<inter> set (nt_liveOfferedMessageIds turn) = {}
    \<and> message_ids (nt_queuedMessages turn) \<inter> message_ids (nt_repeatMessages turn) = {}
    \<and> set (nt_liveOfferedMessageIds turn) \<inter> message_ids (nt_repeatMessages turn) = {}
    \<and> message_ids (nt_queuedMessages turn) \<union> set (nt_liveOfferedMessageIds turn) \<union> message_ids (nt_repeatMessages turn)
      = {i. \<exists>(m, _) \<in> set (eligible_messages participantId exceptSessionId messages receipts). m_messageId m = i
          \<and> (state_of i = Some ''queued'' \<or> (state_of i = Some ''offered'' \<and> m_toParticipantIds m \<noteq> []))}"
proof -
  let ?e = "eligible_messages participantId exceptSessionId messages receipts"
  let ?r = "\<lambda>m. the (map_of (receipt_by_message participantId receipts) (m_messageId m))"
  let ?due = "\<lambda>m. repeats \<and> dueForRepeat m (?r m) now"
  have state: "state_of (m_messageId m) = Some (r_state (?r m))" if "(m, s) \<in> set ?e" for m s
    using set_eligible [OF that] by (auto simp: state_of_def)
  have queued: "message_ids (nt_queuedMessages turn) = {m_messageId m | m. \<exists>s. (m, s) \<in> set ?e \<and> r_state (?r m) = ''queued''}"
    by (force simp: turn_def next_turn_view_def Let_def message_ids_def)
  have repeated: "message_ids (nt_repeatMessages turn) = {m_messageId m | m. \<exists>s. (m, s) \<in> set ?e \<and> ?due m}"
    by (force simp: turn_def next_turn_view_def Let_def message_ids_def)
  have offered: "set (nt_liveOfferedMessageIds turn) = {m_messageId m | m. \<exists>s. (m, s) \<in> set ?e \<and> m_toParticipantIds m \<noteq> []
      \<and> r_state (?r m) = ''offered''} - message_ids (nt_repeatMessages turn)"
    by (force simp: turn_def next_turn_view_def Let_def message_ids_def)
  have due: "r_state (?r m) = ''offered'' \<and> m_toParticipantIds m \<noteq> []" if "?due m" for m
    using that by (simp add: dueForRepeat_def)
  have same: "r_state (?r m) = r_state (?r m')" if "m_messageId m = m_messageId m'" for m m' using that by simp
  show ?thesis
  proof (intro conjI)
    show "message_ids (nt_queuedMessages turn) \<inter> set (nt_liveOfferedMessageIds turn) = {}"
      unfolding queued offered using same by fastforce
    show "message_ids (nt_queuedMessages turn) \<inter> message_ids (nt_repeatMessages turn) = {}"
      unfolding queued repeated using same due by fastforce
    show "set (nt_liveOfferedMessageIds turn) \<inter> message_ids (nt_repeatMessages turn) = {}"
      unfolding offered by blast
    show "message_ids (nt_queuedMessages turn) \<union> set (nt_liveOfferedMessageIds turn) \<union> message_ids (nt_repeatMessages turn)
      = {i. \<exists>(m, _) \<in> set ?e. m_messageId m = i
          \<and> (state_of i = Some ''queued'' \<or> (state_of i = Some ''offered'' \<and> m_toParticipantIds m \<noteq> []))}"
      unfolding queued offered repeated using state due by fastforce
  qed
qed

end
