(* ===== verification/Attention.thy ===== *)
theory Attention
  imports Receipts Intents
begin

text \<open>
  What needs a participant's attention (\<^verbatim>\<open>packages/core/src/attention.mjs\<close>), computed from one
  snapshot of the workspace: obligations not met, recipients who cannot answer, claims that
  conflict, are contended or have run out, and messages left for sessions that ended.
\<close>

section \<open>Snapshots and items\<close>

record snapshot =
  sn_workspace :: "workspace option"
  sn_participants :: "participant list"
  sn_sessions :: "session list"
  sn_intents :: "intent list"
  sn_claims :: "claim list"
  sn_messages :: "message list"
  sn_receipts :: "receipt list"

record attention_item =
  at_kind :: string
  at_priority :: nat
  at_sourceId :: id
  at_summary :: string

definition ATTENTION_PRIORITY :: "(string \<times> nat) list" where
  "ATTENTION_PRIORITY = [(''reply_required'', 1), (''acknowledgement_required'', 2), (''recipient_unavailable'', 3),
     (''claim_conflict'', 4), (''claim_contended'', 5), (''claim_expired'', 6), (''left_for_ended_session'', 7)]"

definition attention :: "string \<Rightarrow> id \<Rightarrow> string \<Rightarrow> attention_item" where
  "attention kind sourceId summary = \<lparr>at_kind = kind, at_priority = (case map_of ATTENTION_PRIORITY kind of Some n \<Rightarrow> n | None \<Rightarrow> 0),
     at_sourceId = sourceId, at_summary = summary\<rparr>"

definition LEFT_MESSAGE_WINDOW_MS :: int where
  "LEFT_MESSAGE_WINDOW_MS = 7 * 24 * 60 * 60000"

definition LEFT_MESSAGE_LIMIT :: nat where
  "LEFT_MESSAGE_LIMIT = 5"

section \<open>The six kinds of item\<close>

text \<open>\<^verbatim>\<open>new Map(list.map(...))\<close>: of two entries of one key the later counts.\<close>

definition messages_by_id :: "message list \<Rightarrow> (id \<times> message) list" where
  "messages_by_id ms = rev (map (\<lambda>m. (m_messageId m, m)) ms)"

definition obligation_item :: "message option \<Rightarrow> attention_item list" where
  "obligation_item found = (case found of
     None \<Rightarrow> []
   | Some m \<Rightarrow>
       if m_obligation m = ''reply''
       then [attention ''reply_required'' (m_messageId m) (''message '' @ m_messageId m @ '' from '' @ m_fromParticipantId m
         @ '' is a '' @ m_kind m @ '' requiring a reply'')]
       else if m_obligation m = ''acknowledge''
       then [attention ''acknowledgement_required'' (m_messageId m) (''message '' @ m_messageId m @ '' from ''
         @ m_fromParticipantId m @ '' is a '' @ m_kind m @ '' requiring acknowledgement'')]
       else [])"

definition obligationItems :: "snapshot \<Rightarrow> id option \<Rightarrow> attention_item list" where
  "obligationItems sn participantId =
     concat (map (\<lambda>r. if Some (r_recipientParticipantId r) \<noteq> participantId \<or> r_state r = ''acknowledged'' then []
       else obligation_item (map_of (messages_by_id (sn_messages sn)) (r_messageId r))) (sn_receipts sn))"

definition presenceByParticipant :: "snapshot \<Rightarrow> time \<Rightarrow> (int \<Rightarrow> bool) \<Rightarrow> id list" where
  "presenceByParticipant sn now pidIsAlive =
     js_uniq (map s_participantId (filter (\<lambda>s. classifySessionPresence s now pidIsAlive = ''online'') (sn_sessions sn)))"

definition asking :: "snapshot \<Rightarrow> id option \<Rightarrow> message list" where
  "asking sn participantId = filter (\<lambda>m. Some (m_fromParticipantId m) = participantId \<and> m_toParticipantIds m \<noteq> []
     \<and> m_obligation m \<noteq> ''none'') (sn_messages sn)"

text \<open>One pass over the receipts, kept per message in their own order.\<close>

definition waiting_recipients :: "(receipt \<Rightarrow> bool) \<Rightarrow> receipt list \<Rightarrow> id \<Rightarrow> id list" where
  "waiting_recipients skip rs messageId = map r_recipientParticipantId (filter (\<lambda>r. \<not> skip r \<and> r_messageId r = messageId) rs)"

definition unavailableRecipients :: "snapshot \<Rightarrow> id option \<Rightarrow> time \<Rightarrow> (int \<Rightarrow> bool) \<Rightarrow> attention_item list" where
  "unavailableRecipients sn participantId now pidIsAlive =
     (let online = presenceByParticipant sn now pidIsAlive;
          skip = (\<lambda>r. r_state r = ''acknowledged'' \<or> r_recipientParticipantId r \<in> set online)
      in concat (map (\<lambda>m. map (\<lambda>recipient. attention ''recipient_unavailable'' (m_messageId m)
           (m_subject m @ '' - '' @ recipient @ '' is unavailable''))
         (waiting_recipients skip (sn_receipts sn) (m_messageId m))) (asking sn participantId)))"

definition noticed_left :: "session \<Rightarrow> id list" where
  "noticed_left s = string_items (extension (s_extensions s) ''noticedLeftMessages'')"

definition qualifying_left :: "snapshot \<Rightarrow> id option \<Rightarrow> time \<Rightarrow> (id \<Rightarrow> id list) \<Rightarrow> message list" where
  "qualifying_left sn participantId now waiting =
     rev (sort_key (\<lambda>m. locale_key (to_iso (m_sentAt m))) (rev (filter (\<lambda>m. waiting (m_messageId m) \<noteq> []
       \<and> m_toParticipantIds m \<noteq> [] \<and> Some (m_fromParticipantId m) \<noteq> participantId
       \<and> participantId \<notin> Some ` set (m_toParticipantIds m) \<and> now - m_sentAt m < LEFT_MESSAGE_WINDOW_MS) (sn_messages sn))))"

definition leftForEndedSessions :: "snapshot \<Rightarrow> session option \<Rightarrow> id option \<Rightarrow> time \<Rightarrow> (int \<Rightarrow> bool) \<Rightarrow> attention_item list" where
  "leftForEndedSessions sn session participantId now pidIsAlive =
     (let present = map s_participantId (filter (\<lambda>s. classifySessionPresence s now pidIsAlive \<noteq> ''offline'') (sn_sessions sn));
          noticed = concat (map noticed_left ((case session of None \<Rightarrow> [] | Some s \<Rightarrow> [s])
            @ filter (\<lambda>s. Some (s_participantId s) = participantId) (sn_sessions sn)));
          skip = (\<lambda>r. r_state r \<notin> {''queued'', ''offered''} \<or> r_recipientParticipantId r \<in> set present);
          waiting = waiting_recipients skip (sn_receipts sn)
      in map (\<lambda>m. attention ''left_for_ended_session'' (m_messageId m) (m_kind m @ '' from '' @ m_fromParticipantId m
             @ '' waiting for '' @ join_with '', '' (waiting (m_messageId m)) @ '', whose sessions have ended; ''
             @ ''read it with `acc sync --scope history --message '' @ m_messageId m @ ''`''))
         (filter (\<lambda>m. m_messageId m \<notin> set noticed)
           (take LEFT_MESSAGE_LIMIT (qualifying_left sn participantId now waiting))))"

definition expiredClaims :: "snapshot \<Rightarrow> session option \<Rightarrow> time \<Rightarrow> attention_item list" where
  "expiredClaims sn session now = (case session of
     None \<Rightarrow> []
   | Some s \<Rightarrow> map (\<lambda>c. attention ''claim_expired'' (c_claimId c)
       (c_resource c @ '' - your claim has run out, and peers can write to it''))
       (filter (\<lambda>c. c_ownerSessionId c = s_sessionId s \<and> c_expiresAt c \<le> now) (sn_claims sn)))"

definition claimConflicts :: "snapshot \<Rightarrow> session option \<Rightarrow> time \<Rightarrow> attention_item list" where
  "claimConflicts sn session now = (case session of
     None \<Rightarrow> []
   | Some s \<Rightarrow> (case List.find (\<lambda>i. i_sessionId i = s_sessionId s \<and> isCurrentIntent i) (sn_intents sn) of
       None \<Rightarrow> []
     | Some mine \<Rightarrow> map (\<lambda>c. attention ''claim_conflict'' (c_claimId c)
         (c_resource c @ '' is claimed by '' @ c_ownerSessionId c))
         (filter (\<lambda>c. c_ownerSessionId c \<noteq> s_sessionId s \<and> c_expiresAt c > now
           \<and> list_ex (\<lambda>hint. overlaps hint (c_resource c)) (i_resourceHints mine)) (sn_claims sn))))"

definition participant_name :: "session list \<Rightarrow> id \<Rightarrow> string" where
  "participant_name ss i = (case List.find (\<lambda>s. s_sessionId s = i) ss of None \<Rightarrow> ''a peer'' | Some s \<Rightarrow> s_participantId s)"

definition claimContended :: "snapshot \<Rightarrow> session option \<Rightarrow> time \<Rightarrow> attention_item list" where
  "claimContended sn session now = (case session of
     None \<Rightarrow> []
   | Some s \<Rightarrow>
       let peers = filter (\<lambda>i. i_sessionId i \<noteq> s_sessionId s \<and> isCurrentIntent i) (sn_intents sn)
       in concat (map (\<lambda>c. case List.find (\<lambda>i. list_ex (\<lambda>hint. overlaps hint (c_resource c)) (i_resourceHints i)) peers of
            None \<Rightarrow> []
          | Some peer \<Rightarrow> [attention ''claim_contended'' (c_claimId c) (c_resource c @ '' - ''
              @ participant_name (sn_sessions sn) (i_sessionId peer) @ '' means to work on what you hold'')])
          (filter (\<lambda>c. c_ownerSessionId c = s_sessionId s \<and> c_expiresAt c > now) (sn_claims sn))))"

section \<open>All of it, in order\<close>

definition current_messages :: "message list \<Rightarrow> message list" where
  "current_messages ms = filter (\<lambda>m. isCurrentDecision (decisionView ms m)) ms"

definition attention_key :: "attention_item \<Rightarrow> nat \<times> nat list \<times> nat list" where
  "attention_key x = (at_priority x, locale_key (at_sourceId x))"

text \<open>\<^verbatim>\<open>pidIsAlive\<close> is a function by its type; the check that it is one has no counterpart.\<close>

definition computeAttention :: "snapshot \<Rightarrow> session option \<Rightarrow> id option \<Rightarrow> time \<Rightarrow> (int \<Rightarrow> bool) \<Rightarrow> attention_item list" where
  "computeAttention sn session participantId now pidIsAlive =
     (let current = sn\<lparr>sn_messages := current_messages (sn_messages sn)\<rparr>
      in sort_key attention_key (obligationItems current participantId
           @ unavailableRecipients current participantId now pidIsAlive
           @ claimConflicts current session now
           @ claimContended current session now
           @ expiredClaims current session now
           @ leftForEndedSessions current session participantId now pidIsAlive))"

section \<open>What the items say\<close>

lemma attention_fields [simp]: "at_kind (attention k i t) = k" "at_sourceId (attention k i t) = i"
  by (simp_all add: attention_def)

lemma item_kinds:
  "x \<in> set (obligationItems sn p) \<Longrightarrow> at_kind x \<in> {''reply_required'', ''acknowledgement_required''}"
  "x \<in> set (unavailableRecipients sn p now pid) \<Longrightarrow> at_kind x = ''recipient_unavailable''"
  "x \<in> set (claimConflicts sn session now) \<Longrightarrow> at_kind x = ''claim_conflict''"
  "x \<in> set (claimContended sn session now) \<Longrightarrow> at_kind x = ''claim_contended''"
  "x \<in> set (expiredClaims sn session now) \<Longrightarrow> at_kind x = ''claim_expired''"
  "x \<in> set (leftForEndedSessions sn session p now pid) \<Longrightarrow> at_kind x = ''left_for_ended_session''"
  by (auto simp: obligationItems_def obligation_item_def unavailableRecipients_def claimConflicts_def claimContended_def
      expiredClaims_def leftForEndedSessions_def Let_def split: option.splits if_splits)

lemma claim_items_messages:
  "claimConflicts (sn\<lparr>sn_messages := ms\<rparr>) session now = claimConflicts sn session now"
  "claimContended (sn\<lparr>sn_messages := ms\<rparr>) session now = claimContended sn session now"
  unfolding claimConflicts_def claimContended_def by (simp_all cong: option.case_cong)

lemma attention_of_kind:
  "x \<in> set (computeAttention sn session p now pid) \<and> at_kind x = ''claim_conflict'' \<longleftrightarrow> x \<in> set (claimConflicts sn session now)"
  "x \<in> set (computeAttention sn session p now pid) \<and> at_kind x = ''claim_contended'' \<longleftrightarrow> x \<in> set (claimContended sn session now)"
  unfolding computeAttention_def Let_def by (auto simp: claim_items_messages dest: item_kinds)

definition hints_at :: "intent \<Rightarrow> claim \<Rightarrow> bool" where
  "hints_at i c \<longleftrightarrow> list_ex (\<lambda>hint. overlaps hint (c_resource c)) (i_resourceHints i)"

lemma find_key:
  assumes "distinct (map f xs)"
  shows "List.find (\<lambda>x. f x = k \<and> P x) xs = Some x \<longleftrightarrow> x \<in> set xs \<and> f x = k \<and> P x"
  using assms by (induction xs) auto

lemma conflict_item:
  assumes "distinct (map i_sessionId (sn_intents sn))"
  shows "(\<exists>x \<in> set (claimConflicts sn (Some t) now). at_sourceId x = j) \<longleftrightarrow>
    (\<exists>i c. i \<in> set (sn_intents sn) \<and> i_sessionId i = s_sessionId t \<and> isCurrentIntent i \<and> c \<in> set (sn_claims sn)
      \<and> c_claimId c = j \<and> c_ownerSessionId c \<noteq> s_sessionId t \<and> c_expiresAt c > now \<and> hints_at i c)"
    (is "?items \<longleftrightarrow> ?facts")
proof -
  let ?mine = "\<lambda>i. i \<in> set (sn_intents sn) \<and> i_sessionId i = s_sessionId t \<and> isCurrentIntent i"
  let ?hit = "\<lambda>i c. c \<in> set (sn_claims sn) \<and> c_claimId c = j \<and> c_ownerSessionId c \<noteq> s_sessionId t \<and> c_expiresAt c > now \<and> hints_at i c"
  let ?found = "List.find (\<lambda>i. i_sessionId i = s_sessionId t \<and> isCurrentIntent i) (sn_intents sn)"
  have found: "?found = Some i \<longleftrightarrow> ?mine i" for i
    by (rule find_key [OF assms])
  have "?items \<longleftrightarrow> (\<exists>i c. ?found = Some i \<and> ?hit i c)"
    by (cases ?found) (auto simp: claimConflicts_def hints_at_def)
  then show ?thesis unfolding found by blast
qed

lemma some_item:
  "(\<exists>x \<in> set (case v of None \<Rightarrow> [] | Some p \<Rightarrow> [attention k i (f p)]). at_sourceId x = j) \<longleftrightarrow> v \<noteq> None \<and> i = j"
  by (cases v) auto

lemma contended_item:
  "(\<exists>x \<in> set (claimContended sn (Some s) now). at_sourceId x = j) \<longleftrightarrow>
    (\<exists>i c. i \<in> set (sn_intents sn) \<and> i_sessionId i \<noteq> s_sessionId s \<and> isCurrentIntent i \<and> c \<in> set (sn_claims sn)
      \<and> c_claimId c = j \<and> c_ownerSessionId c = s_sessionId s \<and> c_expiresAt c > now \<and> hints_at i c)"
  (is "?items \<longleftrightarrow> ?facts")
proof -
  let ?peers = "filter (\<lambda>i. i_sessionId i \<noteq> s_sessionId s \<and> isCurrentIntent i) (sn_intents sn)"
  let ?mine = "\<lambda>c. c \<in> set (sn_claims sn) \<and> c_ownerSessionId c = s_sessionId s \<and> c_expiresAt c > now"
  have "(\<exists>x \<in> set (claimContended sn (Some s) now). at_sourceId x = j)
      \<longleftrightarrow> (\<exists>c. ?mine c \<and> c_claimId c = j \<and> List.find (\<lambda>i. hints_at i c) ?peers \<noteq> None)"
    by (simp add: claimContended_def hints_at_def [symmetric] some_item) (auto, metis)
  then show ?thesis unfolding find_None_iff by auto
qed

text \<open>
  C28. Contention is told to both sides. While no session has two intents, a live claim is
  reported to its holder as contended exactly when some other session is told that the claim
  conflicts with what it means to do.
\<close>

theorem contention_is_mutual:
  assumes "distinct (map i_sessionId (sn_intents sn))" and "distinct (map c_claimId (sn_claims sn))"
    and "c \<in> set (sn_claims sn)" and "c_ownerSessionId c = s_sessionId s"
  shows "(\<exists>x \<in> set (computeAttention sn (Some s) p now pid). at_kind x = ''claim_contended'' \<and> at_sourceId x = c_claimId c)
    \<longleftrightarrow> (\<exists>t. \<exists>x \<in> set (computeAttention sn (Some t) q now pid). at_kind x = ''claim_conflict'' \<and> at_sourceId x = c_claimId c)"
    (is "?held \<longleftrightarrow> ?told")
proof -
  have only: "c' = c" if "c' \<in> set (sn_claims sn)" "c_claimId c' = c_claimId c" for c'
    using assms(2, 3) that by (auto simp: distinct_map inj_on_def)
  have held: "?held \<longleftrightarrow> (\<exists>x \<in> set (claimContended sn (Some s) now). at_sourceId x = c_claimId c)"
    using attention_of_kind(2) by blast
  have told: "?told \<longleftrightarrow> (\<exists>t. \<exists>x \<in> set (claimConflicts sn (Some t) now). at_sourceId x = c_claimId c)"
    using attention_of_kind(1) by blast
  have name: "\<exists>t :: session. s_sessionId t = i" for i by (rule exI [of _ "undefined\<lparr>s_sessionId := i\<rparr>"]) simp
  let ?at = "\<lambda>i. i \<in> set (sn_intents sn) \<and> isCurrentIntent i \<and> i_sessionId i \<noteq> s_sessionId s \<and> hints_at i c \<and> now < c_expiresAt c"
  have only_c: "(\<exists>c'. c' \<in> set (sn_claims sn) \<and> c_claimId c' = c_claimId c \<and> P c') \<longleftrightarrow> P c" for P
    using assms(3) only by blast
  have contended: "(\<exists>x \<in> set (claimContended sn (Some s) now). at_sourceId x = c_claimId c) \<longleftrightarrow> (\<exists>i. ?at i)"
    using assms(4) by (auto simp: contended_item only_c)
  have conflicts: "(\<exists>x \<in> set (claimConflicts sn (Some t) now). at_sourceId x = c_claimId c) \<longleftrightarrow> (\<exists>i. ?at i \<and> s_sessionId t = i_sessionId i)"
    for t :: session using assms(4) by (auto simp: conflict_item [OF assms(1)] only_c)
  have "(\<exists>t :: session. \<exists>i. P i \<and> s_sessionId t = i_sessionId i) \<longleftrightarrow> (\<exists>i. P i)" for P :: "intent \<Rightarrow> bool"
    using name by blast
  then show ?thesis unfolding held told contended conflicts by (rule sym)
qed

definition crossing :: snapshot where
  "crossing = \<lparr>sn_workspace = None, sn_participants = [], sn_sessions = [], sn_intents =
     [\<lparr>i_sessionId = ''s2'', i_workspaceId = ''w'', i_summary = ''edit'', i_mode = ''edit'',
       i_resourceHints = [''file:src/a''], i_state = ''active'', i_updatedAt = 0\<rparr>],
     sn_claims = [sample_claim ''c1'' ''s1'' ''file:src/**'' ''exclusive'' 10], sn_messages = [], sn_receipts = []\<rparr>"

theorem contention_is_mutual_witness:
  "\<exists>t. \<exists>x \<in> set (computeAttention crossing (Some t) None 5 (\<lambda>_. True)). at_kind x = ''claim_conflict'' \<and> at_sourceId x = ''c1''"
proof -
  let ?c = "sample_claim ''c1'' ''s1'' ''file:src/**'' ''exclusive'' 10" and ?s = "sample_session ''s1'' ''p1'' ''g''"
  have "\<exists>x \<in> set (computeAttention crossing (Some ?s) None 5 (\<lambda>_. True)). at_kind x = ''claim_contended'' \<and> at_sourceId x = c_claimId ?c"
    by code_simp
  moreover have "distinct (map i_sessionId (sn_intents crossing))" "distinct (map c_claimId (sn_claims crossing))"
    "?c \<in> set (sn_claims crossing)" "c_ownerSessionId ?c = s_sessionId ?s" "c_claimId ?c = ''c1''"
    by (simp_all add: crossing_def sample_claim_def sample_session_def)
  ultimately show ?thesis using contention_is_mutual [of crossing ?c ?s None 5 "\<lambda>_. True" None] by simp
qed

section \<open>A notice is given once\<close>

definition last_n :: "nat \<Rightarrow> 'a list \<Rightarrow> 'a list" where
  "last_n k xs = drop (length xs - k) xs"

lemma last_n_append: "last_n (k + length ys) (xs @ ys) = last_n k xs @ ys"
  by (simp add: last_n_def)

lemma last_n_last_n: "k \<le> n \<Longrightarrow> last_n k (last_n n xs) = last_n k xs"
  by (simp add: last_n_def) (rule arg_cong [of _ _ "\<lambda>n. drop n xs"], arith)

lemma last_n_filter: "set (filter P (last_n k xs)) \<subseteq> set (last_n k (filter P xs))"
proof -
  let ?ys = "take (length xs - k) xs"
  have "filter P xs = filter P ?ys @ filter P (last_n k xs)"
    unfolding last_n_def filter_append [symmetric] by simp
  moreover have "length (filter P (last_n k xs)) \<le> k" by (rule order.trans [OF length_filter_le]) (simp add: last_n_def)
  ultimately show ?thesis by (auto simp: last_n_def)
qed

lemma noticed_left_note:
  assumes "note_left w g ids s = Inr s'"
  shows "noticed_left s' = last_n NOTICED_LEFT_LIMIT (filter (\<lambda>i. i \<notin> set ids) (noticed_left s) @ ids)"
proof -
  have *: "string_items (Some (strings_json xs)) = xs" for xs by (induction xs) (auto simp: string_items_def strings_json_def)
  have "extension (set_extension k x e) k = Some x" for k x e
    by (auto simp: extension_def set_extension_def AList.update_conv' split: option.splits)
  with assms show ?thesis
    by (auto simp: note_left_def noticed_left_def last_n_def Let_def bind_r_eq_Inr *)
qed

text \<open>Several rounds of notices, each as the hook records it.\<close>

fun note_rounds :: "id \<Rightarrow> id \<Rightarrow> id list list \<Rightarrow> session \<Rightarrow> session res" where
  "note_rounds w g [] s = Inr s"
| "note_rounds w g (ids # rest) s = bind_r (note_left w g ids s) (note_rounds w g rest)"

lemma note_rounds_keeps:
  assumes "note_rounds w g rounds s = Inr s'" and "k + length (concat rounds) \<le> NOTICED_LEFT_LIMIT"
    and "X \<subseteq> set (last_n k (noticed_left s))"
  shows "X \<subseteq> set (last_n (k + length (concat rounds)) (noticed_left s'))"
  using assms
proof (induction rounds arbitrary: s k)
  case (Cons ids rest)
  then obtain m where m: "note_left w g ids s = Inr m" "note_rounds w g rest m = Inr s'" by (auto simp: bind_r_eq_Inr)
  have "last_n (k + length ids) (noticed_left m) = last_n k (filter (\<lambda>i. i \<notin> set ids) (noticed_left s)) @ ids"
    using Cons.prems(2) by (simp add: noticed_left_note [OF m(1)] last_n_last_n last_n_append)
  with Cons.prems(3) last_n_filter [of "\<lambda>i. i \<notin> set ids" k "noticed_left s"]
  have "X \<subseteq> set (last_n (k + length ids) (noticed_left m))" by auto
  with Cons.IH [OF m(2), of "k + length ids"] Cons.prems(2) show ?case by (simp add: add.assoc)
qed simp

lemma note_rounds_bounded:
  assumes "note_rounds w g rounds s = Inr s'" and "rounds \<noteq> []"
  shows "length (noticed_left s') \<le> NOTICED_LEFT_LIMIT"
  using assms
proof (induction rounds arbitrary: s)
  case (Cons ids rest)
  then obtain m where m: "note_left w g ids s = Inr m" "note_rounds w g rest m = Inr s'" by (auto simp: bind_r_eq_Inr)
  show ?case
  proof (cases "rest = []")
    case True
    with m show ?thesis by (simp add: noticed_left_note last_n_def)
  qed (use Cons.IH m in blast)
qed simp

lemma last_n_subset: "set (last_n k xs) \<subseteq> set xs"
  by (auto simp: last_n_def dest: in_set_dropD)

lemma left_items_unnoticed:
  "x \<in> set (leftForEndedSessions sn (Some s) p now pid) \<Longrightarrow> at_sourceId x \<notin> set (noticed_left s)"
  by (auto simp: leftForEndedSessions_def Let_def)

lemma left_items_limit: "length (leftForEndedSessions sn session p now pid) \<le> LEFT_MESSAGE_LIMIT"
  unfolding leftForEndedSessions_def Let_def length_map
  by (rule order.trans [OF length_filter_le]) simp

text \<open>
  C29. A notice is given once. What a session is told was left behind it records, and it is
  not told again, in whatever snapshot and at whatever time, while the notices it records
  from then on number at most \<^const>\<open>NOTICED_LEFT_LIMIT\<close> less the \<^const>\<open>LEFT_MESSAGE_LIMIT\<close> of one turn.
  The list it keeps of them never grows past the limit.
\<close>

theorem left_notice_given_once:
  assumes "note_rounds w g (map at_sourceId (leftForEndedSessions sn session p now pid) # later) s = Inr s'"
    and "length (concat later) + LEFT_MESSAGE_LIMIT \<le> NOTICED_LEFT_LIMIT"
    and "x \<in> set (leftForEndedSessions sn session p now pid)" and "y \<in> set (leftForEndedSessions sn' (Some s') p' now' pid')"
  shows "at_sourceId y \<noteq> at_sourceId x \<and> length (noticed_left s') \<le> NOTICED_LEFT_LIMIT"
proof
  let ?ids = "map at_sourceId (leftForEndedSessions sn session p now pid)"
  obtain m where m: "note_left w g ?ids s = Inr m" "note_rounds w g later m = Inr s'"
    using assms(1) by (auto simp: bind_r_eq_Inr)
  have fits: "length ?ids + length (concat later) \<le> NOTICED_LEFT_LIMIT"
    using assms(2) left_items_limit [of sn session p now pid] by simp
  have "last_n (0 + length ?ids) (noticed_left m) = ?ids"
    using fits unfolding noticed_left_note [OF m(1)] by (subst last_n_last_n) (simp_all add: last_n_append, simp add: last_n_def)
  then have "set ?ids \<subseteq> set (last_n (length ?ids) (noticed_left m))" by simp
  from note_rounds_keeps [OF m(2) fits this] have "set ?ids \<subseteq> set (noticed_left s')"
    by (rule order.trans) (rule last_n_subset)
  moreover have "at_sourceId x \<in> set ?ids" using assms(3) by simp
  ultimately show "at_sourceId y \<noteq> at_sourceId x" using left_items_unnoticed [OF assms(4)] by (metis subsetD)
  show "length (noticed_left s') \<le> NOTICED_LEFT_LIMIT"
    by (rule note_rounds_bounded [OF assms(1)]) simp
qed

definition left_snapshot :: "id \<Rightarrow> snapshot" where
  "left_snapshot i = \<lparr>sn_workspace = None, sn_participants = [], sn_sessions = [], sn_intents = [], sn_claims = [],
     sn_messages = [(sample_message i ''note'' None)\<lparr>m_toParticipantIds := [''bob'']\<rparr>],
     sn_receipts = [sample_receipt i ''bob'' ''queued'']\<rparr>"

definition told_session :: session where
  "told_session = (sample_session ''s3'' ''carol'' ''g'')\<lparr>s_extensions := Some [(''noticedLeftMessages'', JArr [JStr ''m1''])]\<rparr>"

definition left_items :: "id \<Rightarrow> session \<Rightarrow> attention_item list" where
  "left_items i s = leftForEndedSessions (left_snapshot i) (Some s) (Some ''carol'') 5 (\<lambda>_. True)"

lemma left_items_sample:
  "note_rounds ''w'' ''g'' [map at_sourceId (left_items ''m1'' (sample_session ''s3'' ''carol'' ''g'')), []]
     (sample_session ''s3'' ''carol'' ''g'') = Inr told_session"
  "map at_sourceId (left_items ''m1'' (sample_session ''s3'' ''carol'' ''g'')) = [''m1'']"
  "map at_sourceId (left_items ''m2'' told_session) = [''m2'']"
  by code_simp+

theorem left_notice_given_once_witness:
  "\<exists>x \<in> set (left_items ''m1'' (sample_session ''s3'' ''carol'' ''g'')). \<exists>y \<in> set (left_items ''m2'' told_session).
     at_sourceId y \<noteq> at_sourceId x \<and> length (noticed_left told_session) \<le> NOTICED_LEFT_LIMIT"
proof -
  obtain x y where "x \<in> set (left_items ''m1'' (sample_session ''s3'' ''carol'' ''g''))" "y \<in> set (left_items ''m2'' told_session)"
    using left_items_sample(2, 3) by (metis list.map_disc_iff list.set_intros(1) neq_Nil_conv not_Cons_self2)
  moreover have "length (concat [[]]) + LEFT_MESSAGE_LIMIT \<le> NOTICED_LEFT_LIMIT"
    by (simp add: LEFT_MESSAGE_LIMIT_def NOTICED_LEFT_LIMIT_def)
  ultimately show ?thesis
    using left_notice_given_once left_items_sample(1) unfolding left_items_def by blast
qed

end
