(* ===== verification/Status.thy ===== *)
theory Status
  imports Attention Delivery
begin

text \<open>
  What a workspace looks like from outside (\<^verbatim>\<open>packages/core/src/status.mjs\<close>): the short reading the
  write guard takes in front of every write, and the full status a person asks for. A reading
  is a function of one store; it writes nothing.
\<close>

section \<open>Reading a snapshot\<close>

definition first_of :: "'a list \<Rightarrow> 'a option" where
  "first_of xs = (case xs of [] \<Rightarrow> None | x # _ \<Rightarrow> Some x)"

definition read_snapshot :: "id \<Rightarrow> kind list option \<Rightarrow> store \<Rightarrow> snapshot res" where
  "read_snapshot workspace kinds st =
     bind_r (snapshot_kind st workspace kinds Workspace) (\<lambda>ws.
     bind_r (snapshot_kind st workspace kinds Participant) (\<lambda>ps.
     bind_r (snapshot_kind st workspace kinds Session) (\<lambda>ss.
     bind_r (snapshot_kind st workspace kinds Intent) (\<lambda>is.
     bind_r (snapshot_kind st workspace kinds Claim) (\<lambda>cs.
     bind_r (snapshot_kind st workspace kinds Message) (\<lambda>ms.
     bind_r (snapshot_kind st workspace kinds Receipt) (\<lambda>rs.
     Inr \<lparr>sn_workspace = first_of (all_of as_workspace ws), sn_participants = all_of as_participant ps,
       sn_sessions = all_of as_session ss, sn_intents = all_of as_intent is, sn_claims = all_of as_claim cs,
       sn_messages = all_of as_message ms, sn_receipts = all_of as_receipt rs\<rparr>)))))))"

section \<open>What the write guard reads\<close>

record guard_participant =
  gp_sessionId :: id
  gp_participantId :: id
  gp_heartbeatAt :: time

record guard_state =
  gs_claims :: "claim list"
  gs_participants :: "guard_participant list"

definition unexpired :: "time \<Rightarrow> claim list \<Rightarrow> claim list" where
  "unexpired now cs = filter (\<lambda>c. c_expiresAt c > now) cs"

text \<open>The sessions of a workspace that has not materialised are in the ephemeral area.\<close>

definition present_sessions :: "snapshot \<Rightarrow> store \<Rightarrow> session list res" where
  "present_sessions sn st = (if sn_workspace sn \<noteq> None then Inr (sn_sessions sn)
     else bind_r (eph_list st Session) (\<lambda>rs. Inr (all_of as_session rs)))"

definition guardState :: "id option \<Rightarrow> time \<Rightarrow> store \<Rightarrow> guard_state res" where
  "guardState workspaceId now st =
     bind_r (read_snapshot (resolved st workspaceId) (Some [Workspace, Session, Claim]) st) (\<lambda>sn.
     bind_r (present_sessions sn st) (\<lambda>sessions.
     Inr \<lparr>gs_claims = unexpired now (sn_claims sn), gs_participants = map (\<lambda>s. \<lparr>gp_sessionId = s_sessionId s,
       gp_participantId = s_participantId s, gp_heartbeatAt = s_heartbeatAt s\<rparr>) sessions\<rparr>))"

section \<open>The full status\<close>

text \<open>A session with its presence, read once.\<close>

type_synonym classified = "session \<times> string"

definition protectionOf :: "claim list \<Rightarrow> classified list \<Rightarrow> string" where
  "protectionOf claims present =
     (if claims = [] then ''none''
      else if \<not> list_all (\<lambda>x. s_enforcement (fst x) = ''guarded'') present then ''advisory''
      else if list_all (\<lambda>c. c_enforcement c = ''guarded'') claims then ''guarded'' else ''advisory'')"

record tally =
  ta_queued :: nat
  ta_offered :: nat

definition tally_of :: "(id option \<times> tally) list \<Rightarrow> id option \<Rightarrow> tally" where
  "tally_of unretrieved key = (case map_of unretrieved key of None \<Rightarrow> \<lparr>ta_queued = 0, ta_offered = 0\<rparr> | Some t \<Rightarrow> t)"

definition count_state :: "string \<Rightarrow> id option \<Rightarrow> (id option \<times> tally) list \<Rightarrow> (id option \<times> tally) list" where
  "count_state state key unretrieved =
     (let t = tally_of unretrieved key
      in AList.update key (if state = ''queued'' then t\<lparr>ta_queued := Suc (ta_queued t)\<rparr>
        else t\<lparr>ta_offered := Suc (ta_offered t)\<rparr>) unretrieved)"

definition waiting_of :: "(id \<times> nat) list \<Rightarrow> id \<Rightarrow> nat" where
  "waiting_of waiting p = (case map_of waiting p of None \<Rightarrow> 0 | Some n \<Rightarrow> n)"

text \<open>Both counts in one pass over the receipts of current messages.\<close>

definition count_receipt :: "id list \<Rightarrow> receipt \<Rightarrow> (id option \<times> tally) list \<times> (id \<times> nat) list
    \<Rightarrow> (id option \<times> tally) list \<times> (id \<times> nat) list" where
  "count_receipt current r acc = (case acc of (unretrieved, waiting) \<Rightarrow>
     if r_messageId r \<notin> set current \<or> r_state r \<notin> {''queued'', ''offered''} then (unretrieved, waiting)
     else let p = r_recipientParticipantId r
       in (count_state (r_state r) None (count_state (r_state r) (Some p) unretrieved),
           if awaitsNextTurn r then AList.update p (Suc (waiting_of waiting p)) waiting else waiting))"

definition count_receipts :: "id list \<Rightarrow> receipt list \<Rightarrow> (id option \<times> tally) list \<times> (id \<times> nat) list" where
  "count_receipts current rs = fold (count_receipt current) rs ([], [])"

text \<open>The latest session of each participant, the first of those with an equal heartbeat.\<close>

definition latest_step :: "session \<Rightarrow> (id \<times> session) list \<Rightarrow> (id \<times> session) list" where
  "latest_step s latest = (case map_of latest (s_participantId s) of
     None \<Rightarrow> AList.update (s_participantId s) s latest
   | Some seen \<Rightarrow> if s_heartbeatAt s > s_heartbeatAt seen then AList.update (s_participantId s) s latest else latest)"

definition latest_sessions :: "session list \<Rightarrow> (id \<times> session) list" where
  "latest_sessions ss = fold latest_step ss []"

definition awaited_sessions :: "session list \<Rightarrow> id list \<Rightarrow> (id \<times> nat) list \<Rightarrow> id list" where
  "awaited_sessions ss liveParticipants waiting =
     map s_sessionId (filter (\<lambda>s. s_participantId s \<notin> set liveParticipants \<and> waiting_of waiting (s_participantId s) > 0)
       (map snd (latest_sessions ss)))"

record roster_entry =
  ro_session :: session
  ro_presence :: string
  ro_processTracked :: bool
  ro_liveDelivery :: bool
  ro_liveLeaseCurrent :: bool
  ro_intent :: "string option"
  ro_unretrieved :: tally
  ro_ended :: "(json option \<times> nat) option"

text \<open>
  The endpoints by which a session can be pushed to, with whether the lease is current; of two
  of one session the later counts.
\<close>

definition live_bound :: "current_binding list \<Rightarrow> (id \<times> bool) list" where
  "live_bound bs = rev (map (\<lambda>b. (b_sessionId (cb_binding b), cb_reachable b))
     (filter (\<lambda>b. ''livePush'' \<in> set (b_availableModes (cb_binding b))) bs))"

definition roster_entry :: "(id \<times> bool) list \<Rightarrow> intent list \<Rightarrow> (id option \<times> tally) list \<Rightarrow> (id \<times> nat) list
    \<Rightarrow> classified \<Rightarrow> roster_entry" where
  "roster_entry liveBound intents unretrieved waiting x = (case x of (s, presence) \<Rightarrow>
     \<lparr>ro_session = s, ro_presence = presence, ro_processTracked = (s_pid s \<noteq> None),
      ro_liveDelivery = (map_of liveBound (s_sessionId s) \<noteq> None),
      ro_liveLeaseCurrent = (map_of liveBound (s_sessionId s) = Some True),
      ro_intent = map_option i_summary (List.find (\<lambda>i. i_sessionId i = s_sessionId s \<and> isCurrentIntent i) intents),
      ro_unretrieved = tally_of unretrieved (Some (s_participantId s)),
      ro_ended = (if presence = ''offline''
        then Some (extension (s_extensions s) ''endReason'', waiting_of waiting (s_participantId s)) else None)\<rparr>)"

record claim_entry =
  ce_claim :: claim
  ce_ownerParticipantId :: "id option"

definition claim_entry :: "session list \<Rightarrow> claim \<Rightarrow> claim_entry" where
  "claim_entry sessions c = \<lparr>ce_claim = c, ce_ownerParticipantId =
     map_option s_participantId (List.find (\<lambda>s. s_sessionId s = c_ownerSessionId c) sessions)\<rparr>"

record status =
  us_workspaceId :: id
  us_materialised :: bool
  us_protection :: string
  us_participants :: "roster_entry list"
  us_claims :: "claim_entry list"
  us_deliveryBindings :: "current_binding list"
  us_attention :: "attention_item list"
  us_live :: nat
  us_stale :: nat
  us_messages :: nat
  us_unretrieved :: tally

record status_input =
  ui_workspaceId :: "id option"
  ui_participantId :: "id option"
  ui_all :: bool

text \<open>What the readings amount to, once they are taken.\<close>

definition status_of :: "status_input \<Rightarrow> id \<Rightarrow> time \<Rightarrow> (int \<Rightarrow> bool) \<Rightarrow> snapshot \<Rightarrow> session list \<Rightarrow> intent list
    \<Rightarrow> current_binding list \<Rightarrow> status" where
  "status_of input workspaceId now pidIsAlive sn sessions intents bindings =
     (let classified = map (\<lambda>s. (s, classifySessionPresence s now pidIsAlive)) sessions;
          present = filter (\<lambda>x. snd x \<noteq> ''offline'') classified;
          claims = unexpired now (sn_claims sn);
          liveBound = live_bound bindings;
          current = map m_messageId (current_messages (sn_messages sn));
          (unretrieved, waiting) = count_receipts current (sn_receipts sn);
          awaited = awaited_sessions sessions (map (s_participantId \<circ> fst) present) waiting
      in \<lparr>us_workspaceId = workspaceId, us_materialised = (sn_workspace sn \<noteq> None),
          us_protection = protectionOf claims present,
          us_participants = map (roster_entry liveBound intents unretrieved waiting)
            (filter (\<lambda>(s, presence). ui_all input \<or> presence \<noteq> ''offline'' \<or> s_sessionId s \<in> set awaited) classified),
          us_claims = map (claim_entry sessions) claims,
          us_deliveryBindings = bindings,
          us_attention = computeAttention sn None (ui_participantId input) now pidIsAlive,
          us_live = length present, us_stale = length (filter (\<lambda>x. snd x = ''stale'') present),
          us_messages = length (sn_messages sn), us_unretrieved = tally_of unretrieved None\<rparr>)"

definition collectStatus :: "status_input \<Rightarrow> time \<Rightarrow> (int \<Rightarrow> bool) \<Rightarrow> store \<Rightarrow> status res" where
  "collectStatus input now pidIsAlive st =
     bind_r (read_snapshot (resolved st (ui_workspaceId input)) None st) (\<lambda>sn.
     bind_r (present_sessions sn st) (\<lambda>sessions.
     bind_r (if sn_workspace sn \<noteq> None then Inr (sn_intents sn)
       else bind_r (eph_list st Intent) (\<lambda>rs. Inr (all_of as_intent rs))) (\<lambda>intents.
     bind_r (currentBindings st now) (\<lambda>bindings.
     Inr (status_of input (resolved st (ui_workspaceId input)) now pidIsAlive sn sessions intents bindings)))))"

section \<open>The short reading and the full one\<close>

lemma snapshot_kind_some:
  "snapshot_kind st w None k = Inr xs \<Longrightarrow> snapshot_kind st w (Some ks) k = Inr (if k \<in> set ks then xs else [])"
  by (simp add: snapshot_kind_def)

lemma all_kinds_read:
  assumes "read_snapshot w None st = Inr sn"
  shows "read_snapshot w (Some [Workspace, Session, Claim]) st = Inr (sn\<lparr>sn_participants := [], sn_intents := [],
    sn_messages := [], sn_receipts := []\<rparr>)"
proof -
  from assms obtain ws ps ss "is" cs ms rs where read: "snapshot_kind st w None Workspace = Inr ws"
    "snapshot_kind st w None Participant = Inr ps" "snapshot_kind st w None Session = Inr ss"
    "snapshot_kind st w None Intent = Inr is" "snapshot_kind st w None Claim = Inr cs"
    "snapshot_kind st w None Message = Inr ms" "snapshot_kind st w None Receipt = Inr rs"
    by (auto simp: read_snapshot_def bind_r_eq_Inr)
  from assms show ?thesis
    by (auto simp: read_snapshot_def read read [THEN snapshot_kind_some] bind_r_def all_of_def)
qed

lemma find_map: "List.find P (map f xs) = map_option f (List.find (P \<circ> f) xs)"
  by (induction xs) auto

text \<open>
  C30. The short reading of the write guard answers as the full status does: whenever a status can
  be had so can the guard's reading, it holds the same live claims, and it names the same
  owner for each of them.
\<close>

theorem guard_state_agrees:
  assumes "collectStatus input now pidIsAlive st = Inr u"
  shows "\<exists>g. guardState (ui_workspaceId input) now st = Inr g \<and> gs_claims g = map ce_claim (us_claims u)
    \<and> map (\<lambda>c. map_option gp_participantId (List.find (\<lambda>p. gp_sessionId p = c_ownerSessionId c) (gs_participants g))) (gs_claims g)
      = map ce_ownerParticipantId (us_claims u)"
proof -
  let ?w = "resolved st (ui_workspaceId input)"
  from assms obtain sn sessions intents bindings where sn: "read_snapshot ?w None st = Inr sn"
    and sessions: "present_sessions sn st = Inr sessions"
    and u: "u = status_of input ?w now pidIsAlive sn sessions intents bindings"
    by (auto simp: collectStatus_def bind_r_eq_Inr)
  let ?g = "\<lparr>gs_claims = unexpired now (sn_claims sn), gs_participants = map (\<lambda>s. \<lparr>gp_sessionId = s_sessionId s,
    gp_participantId = s_participantId s, gp_heartbeatAt = s_heartbeatAt s\<rparr>) sessions\<rparr>"
  have "guardState (ui_workspaceId input) now st = Inr ?g"
    unfolding guardState_def all_kinds_read [OF sn] using sessions
    by (simp add: bind_r_def present_sessions_def cong: if_cong)
  moreover have "us_claims u = map (claim_entry sessions) (unexpired now (sn_claims sn))"
    by (simp add: u status_of_def Let_def split: prod.splits)
  ultimately show ?thesis
    by (intro exI [of _ ?g]) (simp add: claim_entry_def find_map comp_def option.map_comp)
qed

section \<open>The counts\<close>

definition counted :: "id list \<Rightarrow> receipt \<Rightarrow> bool" where
  "counted current r \<longleftrightarrow> r_messageId r \<in> set current \<and> r_state r \<in> {''queued'', ''offered''}"

lemma map_of_update [simp]: "map_of (AList.update k v al) = (map_of al)(k \<mapsto> v)"
  by (rule AList.update_conv')

lemma tally_count_state:
  "tally_of (count_state state key ts) k = (if k = key
     then if state = ''queued'' then (tally_of ts k)\<lparr>ta_queued := Suc (ta_queued (tally_of ts k))\<rparr>
       else (tally_of ts k)\<lparr>ta_offered := Suc (ta_offered (tally_of ts k))\<rparr>
     else tally_of ts k)"
  by (simp add: count_state_def Let_def tally_of_def)

lemma waiting_update: "waiting_of (AList.update p n ws) q = (if q = p then n else waiting_of ws q)"
  by (simp add: waiting_of_def)

lemma count_receipt_effect:
  "ta_queued (tally_of (fst (count_receipt current r acc)) k) = ta_queued (tally_of (fst acc) k)
     + (if counted current r \<and> r_state r = ''queued'' \<and> (k = None \<or> k = Some (r_recipientParticipantId r)) then 1 else 0)"
  "ta_offered (tally_of (fst (count_receipt current r acc)) k) = ta_offered (tally_of (fst acc) k)
     + (if counted current r \<and> r_state r = ''offered'' \<and> (k = None \<or> k = Some (r_recipientParticipantId r)) then 1 else 0)"
  "waiting_of (snd (count_receipt current r acc)) p = waiting_of (snd acc) p
     + (if counted current r \<and> awaitsNextTurn r \<and> r_recipientParticipantId r = p then 1 else 0)"
  by (cases acc; auto simp: count_receipt_def counted_def tally_count_state waiting_update Let_def)+

lemma count_receipts_from:
  "ta_queued (tally_of (fst (fold (count_receipt current) rs acc)) k) = ta_queued (tally_of (fst acc) k)
      + length (filter (\<lambda>r. counted current r \<and> r_state r = ''queued'' \<and> (k = None \<or> k = Some (r_recipientParticipantId r))) rs)"
  "ta_offered (tally_of (fst (fold (count_receipt current) rs acc)) k) = ta_offered (tally_of (fst acc) k)
      + length (filter (\<lambda>r. counted current r \<and> r_state r = ''offered'' \<and> (k = None \<or> k = Some (r_recipientParticipantId r))) rs)"
  "waiting_of (snd (fold (count_receipt current) rs acc)) p = waiting_of (snd acc) p
      + length (filter (\<lambda>r. counted current r \<and> awaitsNextTurn r \<and> r_recipientParticipantId r = p) rs)"
  by (induction rs arbitrary: acc) (simp_all add: count_receipt_effect)

text \<open>
  C31. The one pass over the receipts counts exactly: for each participant, and for all of them
  together, what is queued and what is offered of the current messages, and for each
  participant what its next turn would still show.
\<close>

theorem counts_are_exact:
  "ta_queued (tally_of (fst (count_receipts current rs)) (Some p))
     = length (filter (\<lambda>r. r_messageId r \<in> set current \<and> r_state r = ''queued'' \<and> r_recipientParticipantId r = p) rs)
   \<and> ta_offered (tally_of (fst (count_receipts current rs)) (Some p))
     = length (filter (\<lambda>r. r_messageId r \<in> set current \<and> r_state r = ''offered'' \<and> r_recipientParticipantId r = p) rs)
   \<and> ta_queued (tally_of (fst (count_receipts current rs)) None) + ta_offered (tally_of (fst (count_receipts current rs)) None)
     = length (filter (counted current) rs)
   \<and> waiting_of (snd (count_receipts current rs)) p
     = length (filter (\<lambda>r. counted current r \<and> awaitsNextTurn r \<and> r_recipientParticipantId r = p) rs)"
proof -
  let ?c = "count_receipts current rs"
  note from_empty = count_receipts_from [of current rs "([], [])", folded count_receipts_def]
  have two: "length (filter (counted current) rs) = length (filter (\<lambda>r. counted current r \<and> r_state r = ''queued'') rs)
      + length (filter (\<lambda>r. counted current r \<and> r_state r = ''offered'') rs)"
    by (induction rs) (auto simp: counted_def)
  have zero: "tally_of [] k = \<lparr>ta_queued = 0, ta_offered = 0\<rparr>" "waiting_of [] p = 0" for k
    by (simp_all add: tally_of_def waiting_of_def)
  have "counted current r \<and> r_state r = s \<and> (Some p = None \<or> Some p = Some (r_recipientParticipantId r))
      \<longleftrightarrow> r_messageId r \<in> set current \<and> r_state r = s \<and> r_recipientParticipantId r = p"
    if "s \<in> {''queued'', ''offered''}" for r s using that by (auto simp: counted_def)
  then show ?thesis
    using two by (simp add: from_empty zero)
qed

section \<open>The roster\<close>

lemma latest_step_dom:
  "dom (map_of (latest_step s l)) = insert (s_participantId s) (dom (map_of l))"
  by (auto simp: latest_step_def split: option.splits if_splits)

lemma latest_sessions_has:
  assumes "s \<in> set ss"
  obtains t where "t \<in> set (map snd (latest_sessions ss))" "s_participantId t = s_participantId s" "t \<in> set ss"
proof -
  have dom: "dom (map_of (fold latest_step xs l)) = dom (map_of l) \<union> s_participantId ` set xs" for xs l
    by (induction xs arbitrary: l) (auto simp: latest_step_dom)
  have ran: "\<forall>p t. map_of (fold latest_step xs l) p = Some t \<longrightarrow> s_participantId t = p \<and> t \<in> A \<union> set xs"
    if "\<forall>p t. map_of l p = Some t \<longrightarrow> s_participantId t = p \<and> t \<in> A" for xs l A
    using that
  proof (induction xs arbitrary: l A)
    case (Cons x xs)
    have "\<forall>p t. map_of (latest_step x l) p = Some t \<longrightarrow> s_participantId t = p \<and> t \<in> insert x A"
      using Cons.prems by (auto simp: latest_step_def split: option.splits if_splits)
    from Cons.IH [OF this] show ?case by simp
  qed simp
  obtain t where "map_of (latest_sessions ss) (s_participantId s) = Some t"
    using dom [of ss "[]"] assms by (auto simp: latest_sessions_def dom_def)
  with ran [of "[]" "{}" ss] that show ?thesis
    by (force simp: latest_sessions_def dest: map_of_SomeD)
qed

text \<open>
  C32. Nobody who is waited for drops out of the roster: when a receipt of a current message would
  still be shown at its recipient's next turn and the recipient has a session on record, the
  roster lists that participant, with a session that is present or with the number of
  messages waiting for it.
\<close>

theorem waiting_recipient_is_listed:
  assumes "r \<in> set (sn_receipts sn)" and "r_messageId r \<in> m_messageId ` set (current_messages (sn_messages sn))"
    and "r_state r \<in> {''queued'', ''offered''}" and "awaitsNextTurn r"
    and "s \<in> set sessions" and "s_participantId s = r_recipientParticipantId r"
  shows "\<exists>x \<in> set (us_participants (status_of input w now pidIsAlive sn sessions intents bindings)).
    s_participantId (ro_session x) = r_recipientParticipantId r
    \<and> (ro_presence x \<noteq> ''offline'' \<or> (\<exists>reason n. ro_ended x = Some (reason, n) \<and> 0 < n))"
proof -
  let ?p = "r_recipientParticipantId r"
  define current where "current = map m_messageId (current_messages (sn_messages sn))"
  obtain ts ws where counts: "count_receipts current (sn_receipts sn) = (ts, ws)" by fastforce
  have "r \<in> set (filter (\<lambda>r. counted current r \<and> awaitsNextTurn r \<and> r_recipientParticipantId r = ?p) (sn_receipts sn))"
    using assms(1 - 4) by (auto simp: counted_def current_def)
  then have waits: "0 < waiting_of ws ?p"
    using count_receipts_from(3) [of current "sn_receipts sn" "([], [])" ?p, folded count_receipts_def] counts
    by (metis add_gr_0 length_pos_if_in_set snd_conv)
  let ?there = "\<lambda>t. classifySessionPresence t now pidIsAlive"
  let ?awaited = "awaited_sessions sessions (map (s_participantId \<circ> fst)
    (filter (\<lambda>x. snd x \<noteq> ''offline'') (map (\<lambda>s. (s, ?there s)) sessions))) ws"
  have listed: "us_participants (status_of input w now pidIsAlive sn sessions intents bindings)
      = map (roster_entry (live_bound bindings) intents ts ws) (filter (\<lambda>(s, presence). ui_all input \<or> presence \<noteq> ''offline''
          \<or> s_sessionId s \<in> set ?awaited) (map (\<lambda>s. (s, ?there s)) sessions))"
    using counts by (simp add: status_of_def Let_def current_def)
  have entry: ?thesis if "t \<in> set sessions" "s_participantId t = ?p" "?there t \<noteq> ''offline'' \<or> s_sessionId t \<in> set ?awaited" for t
  proof (rule bexI [of _ "roster_entry (live_bound bindings) intents ts ws (t, ?there t)"])
    show "roster_entry (live_bound bindings) intents ts ws (t, ?there t)
        \<in> set (us_participants (status_of input w now pidIsAlive sn sessions intents bindings))"
      unfolding listed using that by auto
  qed (use that waits in \<open>simp add: roster_entry_def\<close>)
  show ?thesis
  proof (cases "\<exists>t \<in> set sessions. s_participantId t = ?p \<and> ?there t \<noteq> ''offline''")
    case True
    then show ?thesis using entry by blast
  next
    case False
    obtain t where t: "t \<in> set (map snd (latest_sessions sessions))" "s_participantId t = ?p" "t \<in> set sessions"
      using latest_sessions_has [OF assms(5)] assms(6) by metis
    with False waits have "s_sessionId t \<in> set ?awaited"
      unfolding awaited_sessions_def by (auto intro!: imageI)
    with entry t show ?thesis by blast
  qed
qed

section \<open>Concrete readings\<close>

definition guarded_workspace :: store where
  "guarded_workspace = \<lparr>st_workspaceId = ''w'', st_ids = (\<lambda>label n. label), st_issued = 0,
     st_state = [((Claim, ''c1''), \<lparr>v_generation = ''g1'', v_record = ClaimR (sample_claim ''c1'' ''s1'' ''file:src/a'' ''exclusive'' 10)\<rparr>)],
     st_ephemeral = [((Session, ''s1''), SessionR (sample_session ''s1'' ''alice'' ''g''))], st_events = [], st_floor = None\<rparr>"

definition ask_status :: status_input where
  "ask_status = \<lparr>ui_workspaceId = None, ui_participantId = Some ''alice'', ui_all = False\<rparr>"

lemma guarded_status:
  "case collectStatus ask_status 5 (\<lambda>_. True) guarded_workspace of Inl _ \<Rightarrow> False
   | Inr u \<Rightarrow> map (c_claimId \<circ> ce_claim) (us_claims u) = [''c1''] \<and> map ce_ownerParticipantId (us_claims u) = [Some ''alice'']"
  by code_simp

theorem guard_state_agrees_witness:
  "\<exists>g. guardState None 5 guarded_workspace = Inr g \<and> map c_claimId (gs_claims g) = [''c1'']"
proof -
  from guarded_status obtain u where u: "collectStatus ask_status 5 (\<lambda>_. True) guarded_workspace = Inr u"
    and c: "map (c_claimId \<circ> ce_claim) (us_claims u) = [''c1'']" by (auto split: sum.splits)
  have "ui_workspaceId ask_status = None" by (simp add: ask_status_def)
  with guard_state_agrees [OF u] c show ?thesis by (metis map_map)
qed

definition waiting_snapshot :: snapshot where
  "waiting_snapshot = \<lparr>sn_workspace = None, sn_participants = [], sn_sessions = [], sn_intents = [], sn_claims = [],
     sn_messages = [sample_message ''m1'' ''note'' None], sn_receipts = [sample_receipt ''m1'' ''bob'' ''queued'']\<rparr>"

theorem waiting_recipient_is_listed_witness:
  "\<exists>x \<in> set (us_participants (status_of ask_status ''w'' (HARD_EXPIRY_MS + 5) (\<lambda>_. True) waiting_snapshot
     [sample_session ''s2'' ''bob'' ''g''] [] [])). s_participantId (ro_session x) = ''bob''
     \<and> (ro_presence x \<noteq> ''offline'' \<or> (\<exists>reason n. ro_ended x = Some (reason, n) \<and> 0 < n))"
proof -
  let ?r = "sample_receipt ''m1'' ''bob'' ''queued''" and ?s = "sample_session ''s2'' ''bob'' ''g''"
  have "?r \<in> set (sn_receipts waiting_snapshot)" "r_messageId ?r \<in> m_messageId ` set (current_messages (sn_messages waiting_snapshot))"
    "r_state ?r \<in> {''queued'', ''offered''}" "awaitsNextTurn ?r" "?s \<in> set [?s]" "s_participantId ?s = r_recipientParticipantId ?r"
    by code_simp+
  from waiting_recipient_is_listed [OF this] show ?thesis by (simp add: sample_receipt_def)
qed

end
