(* ===== verification/Prune.thy ===== *)
theory Prune
  imports Finish Record_Checks
begin

text \<open>
  Reclaiming records that describe work which has stopped
  (\<^verbatim>\<open>packages/core/src/prune.mjs\<close>), with the store's side of it: \<^verbatim>\<open>reclaimRecords\<close> and
  \<^verbatim>\<open>trimHistory\<close> of \<^verbatim>\<open>packages/storage-filesystem/src/store.mjs\<close>, the passes of
  \<^verbatim>\<open>reclaim.mjs\<close> and the floor of \<^verbatim>\<open>event-floor.mjs\<close>.

  A pass may stop early, at its budget of files or at its deadline. How many entries it
  treats before it stops is the argument \<open>stop\<close>, and the properties hold for every value of it.
  The counts of files that a pass reports are not modelled, since they also count what the
  store keeps beside its records.
\<close>

section \<open>What is eligible\<close>

definition PRUNE_CLASSES :: "string list" where
  "PRUNE_CLASSES = [''sessions'', ''intents'', ''claims'', ''participants'']"

definition assertClasses :: "string list \<Rightarrow> unit res" where
  "assertClasses classes = each_r (\<lambda>name. throw_if (name \<notin> set PRUNE_CLASSES) USAGE
     (''prune class is one of '' @ join_with '', '' PRUNE_CLASSES)) classes"

type_synonym held = "(kind \<times> id) \<times> envelope"

definition of_kind :: "held list \<Rightarrow> kind \<Rightarrow> held list" where
  "of_kind envelopes k = filter (\<lambda>e. fst (fst e) = k) envelopes"

abbreviation held_id :: "held \<Rightarrow> id" where
  "held_id e \<equiv> snd (fst e)"

abbreviation held_record :: "held \<Rightarrow> entity" where
  "held_record e \<equiv> v_record (snd e)"

definition EVENT_PAGE :: nat where
  "EVENT_PAGE = 500"

text \<open>\<^verbatim>\<open>/^[0-9]{16}$/\<close>, and the sequence such a cursor names.\<close>

definition is_cursor :: "string \<Rightarrow> bool" where
  "is_cursor s \<longleftrightarrow> length s = 16 \<and> list_all is_digit s"

definition cursor_sequence :: "string \<Rightarrow> nat" where
  "cursor_sequence s = nat (read_digits s)"

definition assertBefore :: "string \<Rightarrow> nat res" where
  "assertBefore before =
     (if is_cursor before then Inr (cursor_sequence before)
      else Inl (AccError USAGE ''before is the 16-digit cursor a previous sync returned''))"

definition recorded_message :: "event \<Rightarrow> id list" where
  "recorded_message e = (if e_type e = ''message.recorded''
     then (case map_of (e_payload e) ''messageId'' of Some (JStr i) \<Rightarrow> [i] | _ \<Rightarrow> []) else [])"

text \<open>One turn per page that is not empty, as in \<open>all_pages\<close>.\<close>

fun read_below :: "nat \<Rightarrow> store \<Rightarrow> id \<Rightarrow> nat \<Rightarrow> nat option \<Rightarrow> nat \<times> id list \<Rightarrow> (nat \<times> id list) res" where
  "read_below 0 st workspaceId before cursor acc = Inl (JsError ''more pages than events'')"
| "read_below (Suc n) st workspaceId before cursor acc =
     bind_r (eventsSince st None workspaceId cursor (Some EVENT_PAGE)) (\<lambda>page.
     if pg_events page = [] then Inr acc
     else let kept = takeWhile (\<lambda>e. e_sequence e \<le> before) (pg_events page);
              acc' = (fst acc + length kept, snd acc @ concat (map recorded_message kept))
       in if length kept < length (pg_events page) then Inr acc'
          else read_below n st workspaceId before (Some (pg_cursor page)) acc')"

definition readBelow :: "store \<Rightarrow> id \<Rightarrow> nat \<Rightarrow> (nat \<times> id list) res" where
  "readBelow st workspaceId before = read_below (Suc (length (st_events st))) st workspaceId before None (0, [])"

definition resolvedMessages :: "held list \<Rightarrow> id list \<Rightarrow> held list" where
  "resolvedMessages envelopes messageIds =
     (let participants = map held_id (of_kind envelopes Participant);
          owed = map r_messageId (filter (\<lambda>r. r_state r \<noteq> ''acknowledged'' \<and> r_recipientParticipantId r \<in> set participants)
            (all_of as_receipt (map held_record (of_kind envelopes Receipt))))
      in filter (\<lambda>e. held_id e \<in> set messageIds \<and> held_id e \<notin> set owed) (of_kind envelopes Message))"

definition live_claim :: "time \<Rightarrow> held \<Rightarrow> claim list" where
  "live_claim now e = (case as_claim (Some (held_record e)) of
     Some c \<Rightarrow> if c_expiresAt c > now then [c] else [] | None \<Rightarrow> [])"

definition eligibleSessions :: "held list \<Rightarrow> time \<Rightarrow> (int \<Rightarrow> bool) \<Rightarrow> held list" where
  "eligibleSessions envelopes now pidIsAlive =
     (let holding = map c_ownerSessionId (concat (map (live_claim now) (of_kind envelopes Claim)))
      in filter (\<lambda>e. held_id e \<notin> set holding
           \<and> (case as_session (Some (held_record e)) of
                Some s \<Rightarrow> classifySessionPresence s now pidIsAlive = ''offline'' | None \<Rightarrow> False))
         (of_kind envelopes Session))"

definition eligibleParticipants :: "held list \<Rightarrow> id list \<Rightarrow> message list \<Rightarrow> held list" where
  "eligibleParticipants envelopes removedSessions messages =
     (let surviving = map s_participantId (all_of as_session (map held_record
            (filter (\<lambda>e. held_id e \<notin> set removedSessions) (of_kind envelopes Session))));
          named = concat (map (\<lambda>m. m_fromParticipantId m # m_toParticipantIds m) messages)
      in filter (\<lambda>e. held_id e \<notin> set surviving \<and> held_id e \<notin> set named) (of_kind envelopes Participant))"

section \<open>The plan\<close>

record prune_input =
  pr_classes :: "string list option"
  pr_workspaceId :: "id option"
  pr_before :: "string option"
  pr_apply :: bool

record prune_plan =
  pp_receipts :: "held list"
  pp_messages :: "held list"
  pp_intents :: "held list"
  pp_claims :: "held list"
  pp_sessions :: "held list"
  pp_participants :: "held list"
  pp_events :: nat
  pp_before :: "nat option"

definition plan_of :: "string list \<Rightarrow> held list \<Rightarrow> time \<Rightarrow> (int \<Rightarrow> bool) \<Rightarrow> nat option \<Rightarrow> nat \<times> id list \<Rightarrow> prune_plan" where
  "plan_of classes envelopes now pidIsAlive before below =
     (let wants = (\<lambda>name. name \<in> set classes);
          eligible = (if wants ''sessions'' \<or> wants ''intents'' \<or> wants ''participants''
            then eligibleSessions envelopes now pidIsAlive else []);
          sessions = (if wants ''sessions'' then eligible else []);
          removedSessions = map held_id sessions;
          owning = (if wants ''intents'' then map held_id eligible else removedSessions);
          intents = filter (\<lambda>e. case as_intent (Some (held_record e)) of
              Some i \<Rightarrow> i_sessionId i \<in> set owning | None \<Rightarrow> False) (of_kind envelopes Intent);
          claims = (if wants ''claims'' then filter (\<lambda>e. live_claim now e = []) (of_kind envelopes Claim) else []);
          messages = (if before = None then [] else resolvedMessages envelopes (snd below));
          doomedMessages = map held_id messages;
          receipts = filter (\<lambda>e. case as_receipt (Some (held_record e)) of
              Some r \<Rightarrow> r_messageId r \<in> set doomedMessages | None \<Rightarrow> False) (of_kind envelopes Receipt);
          survivors = filter (\<lambda>m. m_messageId m \<notin> set doomedMessages)
            (all_of as_message (map held_record (of_kind envelopes Message)));
          participants = (if wants ''participants'' then eligibleParticipants envelopes removedSessions survivors else [])
      in \<lparr>pp_receipts = receipts, pp_messages = messages, pp_intents = intents, pp_claims = claims,
          pp_sessions = sessions, pp_participants = participants, pp_events = fst below, pp_before = before\<rparr>)"

definition planPrune :: "prune_input \<Rightarrow> time \<Rightarrow> (int \<Rightarrow> bool) \<Rightarrow> store \<Rightarrow> prune_plan res" where
  "planPrune input now pidIsAlive st =
     (let classes = or_else (pr_classes input) PRUNE_CLASSES; workspaceId = resolved st (pr_workspaceId input) in
      bind_r (assertClasses classes) (\<lambda>_.
      bind_r (stateEnvelopes st workspaceId None) (\<lambda>envelopes.
      bind_r (case pr_before input of None \<Rightarrow> Inr None | Some s \<Rightarrow> bind_r (assertBefore s) (\<lambda>n. Inr (Some n))) (\<lambda>before.
      bind_r (case before of None \<Rightarrow> Inr (0, []) | Some n \<Rightarrow> readBelow st workspaceId n) (\<lambda>below.
      Inr (plan_of classes envelopes now pidIsAlive before below))))))"

text \<open>Whatever holds a reference goes before what it refers to.\<close>

definition entries :: "prune_plan \<Rightarrow> held list" where
  "entries plan = pp_receipts plan @ pp_messages plan @ pp_intents plan @ pp_claims plan @ pp_sessions plan
     @ pp_participants plan"

section \<open>Removing records\<close>

text \<open>One entry: removed when the store still holds the generation that was judged, else skipped.\<close>

definition reclaim_entry :: "held \<Rightarrow> store \<times> nat \<Rightarrow> store \<times> nat" where
  "reclaim_entry e = (\<lambda>(st, skipped).
     if map_option v_generation (map_of (st_state st) (fst e)) = Some (v_generation (snd e))
     then (st\<lparr>st_state := AList.delete (fst e) (st_state st)\<rparr>, skipped)
     else (st, Suc skipped))"

definition reclaimStateRecords :: "nat \<Rightarrow> held list \<Rightarrow> store \<Rightarrow> store \<times> nat" where
  "reclaimStateRecords stop es st = fold reclaim_entry (take stop es) (st, 0)"

definition raiseEventFloor :: "nat \<Rightarrow> store \<Rightarrow> nat \<times> store" where
  "raiseEventFloor trimmedThrough st = (case st_floor st of
     Some current \<Rightarrow> if current \<ge> trimmedThrough then (current, st)
       else (trimmedThrough, st\<lparr>st_floor := Some trimmedThrough\<rparr>)
   | None \<Rightarrow> (trimmedThrough, st\<lparr>st_floor := Some trimmedThrough\<rparr>))"

definition allocated :: "store \<Rightarrow> nat option" where
  "allocated st = (if st_events st = [] then st_floor st else Some (e_sequence (last (st_events st))))"

definition trimEventLog :: "nat \<Rightarrow> nat \<Rightarrow> store \<Rightarrow> (nat \<times> store) res" where
  "trimEventLog stop boundary st =
     (if (case allocated st of None \<Rightarrow> True | Some n \<Rightarrow> boundary > n)
      then Inl (AccError USAGE ''before is past the newest event this workspace has issued'')
      else let (trimmedThrough, st') = raiseEventFloor boundary st;
               gone = length (takeWhile (\<lambda>e. e_sequence e \<le> boundary) (st_events st'))
           in Inr (trimmedThrough, st'\<lparr>st_events := drop (min stop gone) (st_events st')\<rparr>))"

definition prune_records :: "prune_input \<Rightarrow> time \<Rightarrow> (int \<Rightarrow> bool) \<Rightarrow> nat \<Rightarrow> store \<Rightarrow> ((prune_plan \<times> nat) \<times> store) res" where
  "prune_records input now pidIsAlive stop st =
     bind_r (planPrune input now pidIsAlive st) (\<lambda>decided.
     case reclaimStateRecords stop (entries decided) st of (st', skipped) \<Rightarrow> Inr ((decided, skipped), st'))"

record prune_result =
  px_plan :: prune_plan
  px_applied :: bool
  px_skipped :: nat
  px_trimmedThrough :: "nat option"

definition prune :: "prune_input \<Rightarrow> (int \<Rightarrow> bool) \<Rightarrow> nat \<Rightarrow> nat \<Rightarrow> time \<Rightarrow> time \<Rightarrow> prune_result svc" where
  "prune input pidIsAlive stop stop_trim now later =
     bind_s (read_s (planPrune input now pidIsAlive)) (\<lambda>plan.
     if \<not> pr_apply input
     then return_s \<lparr>px_plan = plan, px_applied = False, px_skipped = 0, px_trimmedThrough = None\<rparr>
     else bind_s (step_s (prune_records input later pidIsAlive stop)) (\<lambda>(decided, skipped).
       case pp_before decided of
         None \<Rightarrow> return_s \<lparr>px_plan = decided, px_applied = True, px_skipped = skipped,
           px_trimmedThrough = None\<rparr>
       | Some before \<Rightarrow> bind_s (step_s (trimEventLog stop_trim before)) (\<lambda>trimmedThrough.
           return_s \<lparr>px_plan = decided, px_applied = True, px_skipped = skipped,
             px_trimmedThrough = Some trimmedThrough\<rparr>)))"

section \<open>References between records\<close>

text \<open>
  What a record refers to: a receipt its message, a message the participants it names, an
  intent and a live claim their session, a session its participant.
\<close>

fun refers_to :: "time \<Rightarrow> entity \<Rightarrow> (kind \<times> id) list" where
  "refers_to now (ReceiptR r) = [(Message, r_messageId r)]"
| "refers_to now (MessageR m) = map (Pair Participant) (m_fromParticipantId m # m_toParticipantIds m)"
| "refers_to now (IntentR i) = [(Session, i_sessionId i)]"
| "refers_to now (ClaimR c) = (if c_expiresAt c > now then [(Session, c_ownerSessionId c)] else [])"
| "refers_to now (SessionR s) = [(Participant, s_participantId s)]"
| "refers_to now _ = []"

definition whole :: "time \<Rightarrow> (kind \<times> id \<Rightarrow> (entity \<times> id) option) \<Rightarrow> bool" where
  "whole now m \<longleftrightarrow> (\<forall>key r g. m key = Some (r, g) \<longrightarrow> (\<forall>target \<in> set (refers_to now r). m target \<noteq> None))"

definition one_workspace :: "store \<Rightarrow> id \<Rightarrow> bool" where
  "one_workspace st w \<longleftrightarrow> (\<forall>(_, env) \<in> set (st_state st). workspace_of (v_record env) = Some w)"

definition messages_keyed :: "store \<Rightarrow> bool" where
  "messages_keyed st \<longleftrightarrow> (\<forall>((_, i), env) \<in> set (st_state st). case v_record env of MessageR m \<Rightarrow> m_messageId m = i | _ \<Rightarrow> True)"

lemma earlier_group:
  assumes "x \<in> set A" and "y \<in> set (take n (A @ B))" and "y \<notin> set A"
  shows "x \<in> set (take n (A @ B))"
proof -
  have "0 < n - length A" using assms(2, 3) by (cases "n - length A") (auto dest: in_set_takeD)
  then have "take n A = A" by simp
  with assms(1) show ?thesis by simp
qed

lemma reclaim_entry_sub:
  "\<exists>keep. fst (reclaim_entry e (st, n)) = st\<lparr>st_state := filter keep (st_state st)\<rparr>"
proof (cases "map_option v_generation (map_of (st_state st) (fst e)) = Some (v_generation (snd e))")
  case True
  then have "fst (reclaim_entry e (st, n)) = st\<lparr>st_state := filter (\<lambda>(k', _). fst e \<noteq> k') (st_state st)\<rparr>"
    by (simp add: reclaim_entry_def AList.delete_eq)
  then show ?thesis by blast
next
  case False
  then have "fst (reclaim_entry e (st, n)) = st\<lparr>st_state := filter (\<lambda>_. True) (st_state st)\<rparr>"
    by (auto simp: reclaim_entry_def)
  then show ?thesis by blast
qed

lemma reclaim_sub:
  "\<exists>keep. fst (fold reclaim_entry es (st, n)) = st\<lparr>st_state := filter keep (st_state st)\<rparr>"
proof (induction es arbitrary: st n)
  case Nil
  have "fst (fold reclaim_entry [] (st, n)) = st\<lparr>st_state := filter (\<lambda>_. True) (st_state st)\<rparr>" by simp
  then show ?case by blast
next
  case (Cons e es)
  obtain keep where "fst (reclaim_entry e (st, n)) = st\<lparr>st_state := filter keep (st_state st)\<rparr>"
    using reclaim_entry_sub by blast
  moreover obtain keep' where "fst (fold reclaim_entry es (reclaim_entry e (st, n)))
      = (fst (reclaim_entry e (st, n)))\<lparr>st_state := filter keep' (st_state (fst (reclaim_entry e (st, n))))\<rparr>"
    using Cons.IH by (metis prod.collapse)
  ultimately have "fst (fold reclaim_entry (e # es) (st, n)) = st\<lparr>st_state := filter (\<lambda>x. keep x \<and> keep' x) (st_state st)\<rparr>"
    by (simp add: conj_commute)
  then show ?case by blast
qed

lemma store_map_filter:
  assumes "distinct (map fst (st_state st))" and "store_map (st\<lparr>st_state := filter keep (st_state st)\<rparr>) key = Some x"
  shows "store_map st key = Some x"
  using assms by (auto simp: store_map_def map_of_eq_Some_iff distinct_map_filter)

lemma reclaim_map:
  assumes "distinct (map fst es)" and "\<forall>e \<in> set es. map_of (st_state st) (fst e) = Some (snd e)"
    and "distinct (map fst (st_state st))"
  shows "store_map (fst (fold reclaim_entry es (st, n))) = (\<lambda>key. if key \<in> fst ` set es then None else store_map st key)
    \<and> distinct (map fst (st_state (fst (fold reclaim_entry es (st, n)))))
    \<and> st_events (fst (fold reclaim_entry es (st, n))) = st_events st \<and> snd (fold reclaim_entry es (st, n)) = n"
  using assms
proof (induction es arbitrary: st)
  case (Cons e es)
  let ?st = "st\<lparr>st_state := AList.delete (fst e) (st_state st)\<rparr>"
  have step: "fold reclaim_entry (e # es) (st, n) = fold reclaim_entry es (?st, n)"
    using Cons.prems(2) by (simp add: reclaim_entry_def)
  have "distinct (map fst es)" "\<forall>x \<in> set es. map_of (st_state ?st) (fst x) = Some (snd x)" "distinct (map fst (st_state ?st))"
    using Cons.prems by (force simp: delete_conv distinct_delete)+
  note IH = Cons.IH [OF this]
  have gone: "store_map ?st key = (if key = fst e then None else store_map st key)" for key
    by (simp add: store_map_def delete_conv)
  show ?case unfolding step using IH by (auto simp: gone fun_eq_iff)
qed (simp add: fun_eq_iff)

lemma envelopes_law:
  assumes "stateEnvelopes st w None = Inr es" and "wf_store st" and "one_workspace st w"
  shows "distinct (map fst es)" and "set es = set (st_state st)"
proof -
  obtain envs where envs: "loadStateEnvelopes st None = Inr envs"
    and es: "es = filter (\<lambda>(_, env). workspace_of (v_record env) = Some w) envs"
    using assms(1) by (auto simp: stateEnvelopes_def res_simps)
  have law: "distinct (map fst envs)" "set envs = {e \<in> set (st_state st). fst (fst e) \<in> set STATE_KINDS}"
    using loadStateEnvelopes_law [OF envs] assms(2) by (auto simp: wf_store_def)
  show "distinct (map fst es)" unfolding es using law(1) by (simp add: distinct_map_filter)
  show "set es = set (st_state st)"
    using law(2) assms(2, 3) by (auto simp: es wf_store_def one_workspace_def)
qed

text \<open>Each group of a plan consists of stored records of its kind.\<close>

lemma plan_groups:
  assumes "plan = plan_of classes envelopes now pidIsAlive before below"
  shows "set (pp_receipts plan) \<subseteq> {e \<in> set envelopes. fst (fst e) = Receipt}"
    and "set (pp_messages plan) \<subseteq> {e \<in> set envelopes. fst (fst e) = Message}"
    and "set (pp_intents plan) \<subseteq> {e \<in> set envelopes. fst (fst e) = Intent}"
    and "set (pp_claims plan) \<subseteq> {e \<in> set envelopes. fst (fst e) = Claim}"
    and "set (pp_sessions plan) \<subseteq> {e \<in> set envelopes. fst (fst e) = Session}"
    and "set (pp_participants plan) \<subseteq> {e \<in> set envelopes. fst (fst e) = Participant}"
  unfolding assms
  by (auto simp: plan_of_def Let_def of_kind_def resolvedMessages_def eligibleSessions_def eligibleParticipants_def)

lemma plan_distinct:
  assumes "plan = plan_of classes envelopes now pidIsAlive before below" and "distinct (map fst envelopes)"
  shows "distinct (map fst (entries plan))"
proof -
  have each: "distinct (map fst (filter P (of_kind envelopes k)))" for P k
    using assms(2) by (simp add: of_kind_def distinct_map_filter)
  have one: "distinct (map fst (pp_receipts plan))" "distinct (map fst (pp_messages plan))" "distinct (map fst (pp_intents plan))"
    "distinct (map fst (pp_claims plan))" "distinct (map fst (pp_sessions plan))" "distinct (map fst (pp_participants plan))"
    using each unfolding assms(1)
    by (simp_all add: plan_of_def Let_def resolvedMessages_def eligibleSessions_def eligibleParticipants_def)
  show ?thesis
    unfolding entries_def map_append distinct_append using one plan_groups [OF assms(1)] by fastforce
qed

lemma distinct_map_take_keys: "distinct (map f xs) \<Longrightarrow> distinct (map f (take n xs))"
  by (metis distinct_take take_map)

lemma held_in_state:
  assumes "e \<in> set (st_state st)" and "distinct (map fst (st_state st))"
  shows "map_of (st_state st) (fst e) = Some (snd e)"
  using assms by simp

lemma plan_members:
  assumes "plan = plan_of classes envelopes now pidIsAlive before below"
  shows plan_receipt: "\<lbrakk>e \<in> set envelopes; fst (fst e) = Receipt; held_record e = ReceiptR r;
        r_messageId r \<in> held_id ` set (pp_messages plan)\<rbrakk> \<Longrightarrow> e \<in> set (pp_receipts plan)"
    and plan_intent: "\<lbrakk>e \<in> set envelopes; fst (fst e) = Intent; held_record e = IntentR i;
        i_sessionId i \<in> held_id ` set (pp_sessions plan)\<rbrakk> \<Longrightarrow> e \<in> set (pp_intents plan)"
    and plan_eligible: "x \<in> set (pp_sessions plan) \<Longrightarrow> x \<in> set (eligibleSessions envelopes now pidIsAlive)"
    and plan_participant: "x \<in> set (pp_participants plan) \<Longrightarrow> x \<in> set (eligibleParticipants envelopes (map held_id (pp_sessions plan))
        (filter (\<lambda>m. m_messageId m \<notin> held_id ` set (pp_messages plan)) (all_of as_message (map held_record (of_kind envelopes Message)))))"
  unfolding assms by (auto simp: plan_of_def Let_def of_kind_def split: if_splits)

lemma participant_without_session:
  assumes "x \<in> set (eligibleParticipants envelopes removed messages)" and "e \<in> set envelopes" "fst (fst e) = Session"
    "held_record e = SessionR s" "held_id e \<notin> set removed"
  shows "s_participantId s \<noteq> held_id x"
proof
  assume same: "s_participantId s = held_id x"
  have "s \<in> set (all_of as_session (map held_record (filter (\<lambda>e. held_id e \<notin> set removed) (of_kind envelopes Session))))"
    using assms(2-) by (auto simp: set_all_of as_entity_Some of_kind_def intro!: image_eqI [of _ _ e])
  then have "s_participantId s \<in> s_participantId ` set (all_of as_session (map held_record
      (filter (\<lambda>e. held_id e \<notin> set removed) (of_kind envelopes Session))))" by (rule imageI)
  with assms(1) same show False by (simp add: eligibleParticipants_def)
qed

lemma participant_unnamed:
  assumes "x \<in> set (eligibleParticipants envelopes removed messages)" and "m \<in> set messages"
  shows "held_id x \<notin> set (m_fromParticipantId m # m_toParticipantIds m)"
  using assms by (auto simp: eligibleParticipants_def)

text \<open>
  A record that refers to something the plan removes is removed by the plan itself, and in
  an earlier group.
\<close>

lemma plan_takes_referrers:
  fixes st envelopes now
  assumes plan: "plan = plan_of classes envelopes now pidIsAlive before below"
    and all: "set envelopes = set (st_state st)" and wf: "wf_store st" and keyed: "messages_keyed st"
    and e: "e \<in> set (st_state st)" and t: "t \<in> set (refers_to now (held_record e))"
    and target: "t \<in> fst ` set (take stop (entries plan))"
  shows "e \<in> set (take stop (entries plan))"
proof -
  note groups = plan_groups [OF plan]
  from target obtain x where x: "x \<in> set (take stop (entries plan))" "fst x = t" by auto
  have kind: "kind_of (held_record e) = fst (fst e)"
    using wf e by (cases e) (auto simp: wf_store_def)
  have in_plan: "x \<in> set (entries plan)" using x(1) by (rule in_set_takeD)
  have env: "e \<in> set envelopes" using e all by simp
  have kinds: "y \<in> set (pp_receipts plan) \<Longrightarrow> fst (fst y) = Receipt" "y \<in> set (pp_messages plan) \<Longrightarrow> fst (fst y) = Message"
    "y \<in> set (pp_intents plan) \<Longrightarrow> fst (fst y) = Intent" "y \<in> set (pp_claims plan) \<Longrightarrow> fst (fst y) = Claim"
    "y \<in> set (pp_sessions plan) \<Longrightarrow> fst (fst y) = Session" "y \<in> set (pp_participants plan) \<Longrightarrow> fst (fst y) = Participant" for y
    using groups by auto
  have earlier: ?thesis if "entries plan = A @ B" "e \<in> set A" "x \<notin> set A" for A B
    using earlier_group [OF that(2) _ that(3), of stop B] x(1) that(1) by simp
  have same_key: "y = e" if "y \<in> set envelopes" "fst (fst y) = fst (fst e)" "held_id y = held_id e" for y
    using that wf e all eq_key_imp_eq_value [of "st_state st" "fst e"] by (cases y; cases e) (auto simp: wf_store_def prod_eq_iff)
  have member: "e \<in> set g" if "held_id e \<in> held_id ` set g" "set g \<subseteq> {y \<in> set envelopes. fst (fst y) = fst (fst e)}" for g
  proof -
    from that(1) obtain y where y: "y \<in> set g" "held_id y = held_id e" by fastforce
    with that(2) same_key [of y] show ?thesis by blast
  qed
  show ?thesis
  proof (cases "held_record e")
    case (ReceiptR r)
    then have "x \<in> set (pp_messages plan)" "held_id x = r_messageId r"
      using t x(2) in_plan groups by (auto simp: entries_def)
    then have "e \<in> set (pp_receipts plan)"
      using plan_receipt [OF plan env] ReceiptR kind by (metis imageI kind_of.simps(7))
    then show ?thesis
      using \<open>x \<in> set (pp_messages plan)\<close> by (intro earlier [of "pp_receipts plan" "pp_messages plan @ pp_intents plan @ pp_claims plan @ pp_sessions plan @ pp_participants plan"]) (auto simp: entries_def dest!: kinds)
  next
    case (IntentR i)
    then have sess: "x \<in> set (pp_sessions plan)" "held_id x = i_sessionId i"
      using t x(2) in_plan groups by (auto simp: entries_def)
    then have "e \<in> set (pp_intents plan)"
      using plan_intent [OF plan env] IntentR kind by (metis imageI kind_of.simps(4))
    then show ?thesis
      using sess(1) by (intro earlier [of "pp_receipts plan @ pp_messages plan @ pp_intents plan" "pp_claims plan @ pp_sessions plan @ pp_participants plan"]) (auto simp: entries_def dest!: kinds)
  next
    case (SessionR s)
    then have part: "x \<in> set (pp_participants plan)" "held_id x = s_participantId s"
      using t x(2) in_plan groups by (auto simp: entries_def)
    have "held_id e \<in> held_id ` set (pp_sessions plan)"
      using participant_without_session [OF plan_participant [OF plan part(1)] env] SessionR kind part(2) by auto
    then have "e \<in> set (pp_sessions plan)"
      using groups(5) kind SessionR by (intro member) auto
    then show ?thesis
      using part(1) by (intro earlier [of "pp_receipts plan @ pp_messages plan @ pp_intents plan @ pp_claims plan @ pp_sessions plan" "pp_participants plan"]) (auto simp: entries_def dest!: kinds)
  next
    case (MessageR m)
    then have part: "x \<in> set (pp_participants plan)" "held_id x \<in> set (m_fromParticipantId m # m_toParticipantIds m)"
      using t x(2) in_plan groups by (auto simp: entries_def)
    have own: "m_messageId m = held_id e" using keyed e MessageR by (cases e) (auto simp: messages_keyed_def)
    have "m \<in> set (all_of as_message (map held_record (of_kind envelopes Message)))"
      using env kind MessageR by (auto simp: set_all_of as_entity_Some of_kind_def intro!: image_eqI [of _ _ e])
    then have "held_id e \<in> held_id ` set (pp_messages plan)"
      using participant_unnamed [OF plan_participant [OF plan part(1)], of m] part(2) own by auto
    then have "e \<in> set (pp_messages plan)"
      using groups(2) kind MessageR by (intro member) auto
    then show ?thesis
      using part(1) by (intro earlier [of "pp_receipts plan @ pp_messages plan" "pp_intents plan @ pp_claims plan @ pp_sessions plan @ pp_participants plan"]) (auto simp: entries_def dest!: kinds)
  next
    case (ClaimR c)
    then have sess: "x \<in> set (pp_sessions plan)" "held_id x = c_ownerSessionId c" "c_expiresAt c > now"
      using t x(2) in_plan groups by (auto simp: entries_def split: if_splits)
    note plan_eligible [OF plan sess(1)]
    then have "held_id x \<notin> c_ownerSessionId ` set (concat (map (live_claim now) (of_kind envelopes Claim)))"
      by (simp add: eligibleSessions_def)
    moreover have "c \<in> set (live_claim now e)" "e \<in> set (of_kind envelopes Claim)"
      using ClaimR kind env sess(3) by (simp_all add: of_kind_def live_claim_def)
    then have "c \<in> set (concat (map (live_claim now) (of_kind envelopes Claim)))" by auto
    ultimately show ?thesis using sess(2) by auto
  qed (use t in simp_all)
qed

text \<open>
  C6. An interrupted prune leaves no dangling reference. Wherever the pass stops, at its
  budget or its deadline, the records left behind still find the message of every receipt, the
  participants of every message, the session of every intent and live claim and the participant
  of every session, as long as they all did before. Deciding under the writer lock also means
  that no entry is skipped for having changed.
\<close>

theorem interrupted_prune_leaves_no_dangling_reference:
  assumes run: "prune_records input now pidIsAlive stop st = Inr ((plan, skipped), st')"
    and wf: "wf_store st" "one_workspace st (resolved st (pr_workspaceId input))" "messages_keyed st"
    and whole: "whole now (store_map st)"
  shows "whole now (store_map st') \<and> skipped = 0"
proof -
  from run obtain envelopes before below where
    env: "stateEnvelopes st (resolved st (pr_workspaceId input)) None = Inr envelopes"
    and plan: "plan = plan_of (or_else (pr_classes input) PRUNE_CLASSES) envelopes now pidIsAlive before below"
    and passed: "fst (reclaimStateRecords stop (entries plan) st) = st'" "snd (reclaimStateRecords stop (entries plan) st) = skipped"
    by (auto simp: prune_records_def planPrune_def res_simps Let_def case_prod_beta)
  note envs = envelopes_law [OF env wf(1, 2)]
  let ?taken = "take stop (entries plan)"
  have dist: "distinct (map fst (st_state st))" using wf(1) by (simp add: wf_store_def)
  have "distinct (map fst ?taken)" using plan_distinct [OF plan envs(1)] by (simp add: distinct_map_take_keys)
  moreover have "\<forall>e \<in> set ?taken. map_of (st_state st) (fst e) = Some (snd e)"
  proof
    fix e assume "e \<in> set ?taken"
    then have "e \<in> set (st_state st)"
      using plan_groups [OF plan] envs(2) by (auto simp: entries_def dest!: in_set_takeD)
    then show "map_of (st_state st) (fst e) = Some (snd e)" using dist by (rule held_in_state)
  qed
  ultimately have left: "store_map st' = (\<lambda>key. if key \<in> fst ` set ?taken then None else store_map st key)" "skipped = 0"
    using reclaim_map [of ?taken st 0] dist passed by (auto simp: reclaimStateRecords_def)
  have "store_map st' t \<noteq> None" if r: "store_map st' key = Some (r, g)" and t: "t \<in> set (refers_to now r)" for key r g t
  proof -
    from r left(1) have key: "store_map st key = Some (r, g)" "key \<notin> fst ` set ?taken" by (auto split: if_splits)
    then obtain env where at: "map_of (st_state st) key = Some env" "v_record env = r" by (auto simp: store_map_def)
    then have e: "(key, env) \<in> set (st_state st)" by (simp add: map_of_SomeD)
    have "t \<notin> fst ` set ?taken"
      using plan_takes_referrers [OF plan envs(2) wf(1, 3) e] t at(2) key(2) by force
    moreover have "store_map st t \<noteq> None" using whole key(1) t unfolding whole_def by blast
    ultimately show ?thesis by (simp add: left(1))
  qed
  with left(2) show ?thesis unfolding whole_def by blast
qed

section \<open>Trimming the log\<close>

definition floor_ok :: "store \<Rightarrow> bool" where
  "floor_ok st \<longleftrightarrow> (case st_floor st of None \<Rightarrow> True | Some n \<Rightarrow> st_events st = [] \<or> n \<le> e_sequence (last (st_events st)))"

lemma ascending_last:
  assumes "ascending (map e_sequence es)" and "e \<in> set es"
  shows "e_sequence e \<le> e_sequence (last es)"
  using assms by (induction es) (auto simp: ascending_def intro: less_imp_le)

lemma dropped_below:
  "e \<in> set (take n xs) \<Longrightarrow> n \<le> length (takeWhile P xs) \<Longrightarrow> P e"
  by (metis set_takeWhileD set_take_subset_set_take subsetD takeWhile_eq_take)

lemma trim_shape:
  assumes "trimEventLog stop boundary st = Inr (trimmedThrough, st')"
  obtains top n where "allocated st = Some top" "boundary \<le> top"
    "trimmedThrough = (case st_floor st of Some n \<Rightarrow> max n boundary | None \<Rightarrow> boundary)"
    "st' = st\<lparr>st_floor := Some trimmedThrough, st_events := drop n (st_events st)\<rparr>"
    "\<And>e. e \<in> set (take n (st_events st)) \<Longrightarrow> e_sequence e \<le> boundary"
proof -
  let ?n = "min stop (length (takeWhile (\<lambda>e. e_sequence e \<le> boundary) (st_events st)))"
  have "e_sequence e \<le> boundary" if "e \<in> set (take ?n (st_events st))" for e
    using dropped_below [OF that, of "\<lambda>e. e_sequence e \<le> boundary"] by simp
  moreover from assms obtain top where "allocated st = Some top" "boundary \<le> top"
    and "trimmedThrough = (case st_floor st of Some n \<Rightarrow> max n boundary | None \<Rightarrow> boundary)"
    and "st' = st\<lparr>st_floor := Some trimmedThrough, st_events := drop ?n (st_events st)\<rparr>"
    by (auto simp: trimEventLog_def raiseEventFloor_def Let_def split: option.splits if_splits prod.splits)
  ultimately show ?thesis by (rule that [rotated 4])
qed

text \<open>
  C26. Trimming the log is invisible to sequences: the next event gets the number it would have
  got, every event above the reported boundary is still there, the boundary reported covers
  what was asked and all that is gone, and it is the floor that later readers are told.
\<close>

theorem trimming_keeps_the_sequence:
  assumes run: "trimEventLog stop boundary st = Inr (trimmedThrough, st')" and wf: "wf_store st" "floor_ok st"
  shows "nextSequence st' = nextSequence st \<and> boundary \<le> trimmedThrough \<and> st_floor st' = Some trimmedThrough
    \<and> filter (\<lambda>e. trimmedThrough < e_sequence e) (st_events st') = filter (\<lambda>e. trimmedThrough < e_sequence e) (st_events st)
    \<and> (\<forall>e \<in> set (st_events st) - set (st_events st'). e_sequence e \<le> trimmedThrough) \<and> wf_store st' \<and> floor_ok st'"
proof -
  from trim_shape [OF run] obtain top n where top: "allocated st = Some top" "boundary \<le> top"
    and t: "trimmedThrough = (case st_floor st of Some n \<Rightarrow> max n boundary | None \<Rightarrow> boundary)"
    and st': "st' = st\<lparr>st_floor := Some trimmedThrough, st_events := drop n (st_events st)\<rparr>"
    and low: "\<And>e. e \<in> set (take n (st_events st)) \<Longrightarrow> e_sequence e \<le> boundary" by blast
  define floor where "floor = trimmedThrough"
  have floor: "boundary \<le> floor" by (auto simp: floor_def t split: option.splits)
  note floor_is = floor_def [unfolded t]
  have split: "st_events st = take n (st_events st) @ st_events st'" by (simp add: st')
  have asc: "ascending (map e_sequence (st_events st))" using wf(1) by (simp add: wf_store_def)
  have none: "filter (\<lambda>e. floor < e_sequence e) (take n (st_events st)) = []"
    unfolding filter_empty_conv
  proof
    fix e assume "e \<in> set (take n (st_events st))"
    then have "e_sequence e \<le> boundary" by (rule low)
    with floor show "\<not> floor < e_sequence e" by linarith
  qed
  have kept: "filter (\<lambda>e. floor < e_sequence e) (st_events st') = filter (\<lambda>e. floor < e_sequence e) (st_events st)"
    by (subst split) (simp add: none)
  have raised: "st_floor st' = Some floor" by (simp add: st' floor_def)
  have next_seq: "nextSequence st' = nextSequence st \<and> floor_ok st'"
  proof (cases "st_events st' = []")
    case False
    then have last: "st_events st \<noteq> []" "last (st_events st) = last (st_events st')"
      using split by (metis append_is_Nil_conv, metis last_appendR)
    have "floor \<le> e_sequence (last (st_events st'))"
      using wf(2) last top by (auto simp: floor_is floor_ok_def allocated_def split: option.splits)
    with False last raised show ?thesis by (simp add: nextSequence_def floor_ok_def)
  next
    case empty: True
    have "floor = top"
    proof (cases "st_events st = []")
      case True
      with top show ?thesis by (auto simp: allocated_def floor_is)
    next
      case False
      then have "last (st_events st) \<in> set (take n (st_events st))" using empty split by (metis append_Nil2 last_in_set)
      then have "e_sequence (last (st_events st)) \<le> boundary" by (rule low)
      with top False have "boundary = top" by (simp add: allocated_def)
      with wf(2) False top show ?thesis by (auto simp: floor_is floor_ok_def allocated_def split: option.splits)
    qed
    with empty top raised show ?thesis by (auto simp: nextSequence_def floor_ok_def allocated_def split: if_splits)
  qed
  have "e_sequence e \<le> floor" if "e \<in> set (st_events st)" "e \<notin> set (st_events st')" for e
  proof -
    have "e \<in> set (take n (st_events st))" using that split by (metis UnE set_append)
    then have "e_sequence e \<le> boundary" by (rule low)
    with floor show ?thesis by linarith
  qed
  moreover have "wf_store st'"
    using wf(1) asc by (auto simp: wf_store_def st' ascending_def drop_map [symmetric] sorted_wrt_drop)
  ultimately show ?thesis using next_seq kept floor by (auto simp: floor_def [symmetric] st')
qed

section \<open>Concrete passes\<close>

definition sample_event :: "nat \<Rightarrow> event" where
  "sample_event n = \<lparr>e_sequence = n, e_eventId = ''event'', e_workspaceId = ''w'', e_actorSessionId = ''s1'',
     e_type = ''session.opened'', e_occurredAt = 0, e_payload = []\<rparr>"

definition logged_workspace :: store where
  "logged_workspace = \<lparr>st_workspaceId = ''w'', st_ids = (\<lambda>label n. label), st_issued = 0, st_state = [],
     st_ephemeral = [], st_events = [sample_event 1, sample_event 2], st_floor = None\<rparr>"

theorem trimming_keeps_the_sequence_witness:
  "\<exists>st'. trimEventLog 512 2 logged_workspace = Inr (2, st') \<and> st_events st' = [] \<and> nextSequence st' = Inr 3"
proof -
  have run: "trimEventLog 512 2 logged_workspace = Inr (2, logged_workspace\<lparr>st_floor := Some 2, st_events := []\<rparr>)"
    by (simp add: trimEventLog_def raiseEventFloor_def allocated_def logged_workspace_def sample_event_def)
  have "wf_store logged_workspace" "floor_ok logged_workspace"
    by (simp_all add: wf_store_def floor_ok_def logged_workspace_def ascending_def sample_event_def)
  from trimming_keeps_the_sequence [OF run this] have "nextSequence (logged_workspace\<lparr>st_floor := Some 2, st_events := []\<rparr>)
      = nextSequence logged_workspace" by blast
  then show ?thesis
    using run by (simp add: nextSequence_def logged_workspace_def sample_event_def MAX_SAFE_INTEGER_def)
qed

text \<open>A closed session whose participant it alone names, and an intent it left.\<close>

definition left_intent :: intent where
  "left_intent = \<lparr>i_sessionId = ''s1'', i_workspaceId = ''w'', i_summary = ''x'', i_mode = ''edit'', i_resourceHints = [],
     i_state = ''active'', i_updatedAt = 0\<rparr>"

definition left_participant :: participant where
  "left_participant = \<lparr>p_participantId = ''alice'', p_workspaceId = ''w'', p_displayName = ''x'', p_kind = ''agent'',
     p_createdAt = 0\<rparr>"

abbreviation left_session :: session where
  "left_session \<equiv> (sample_session ''s1'' ''alice'' ''g'')\<lparr>s_state := ''closed'', s_heartbeatAt := 1000\<rparr>"

definition left_workspace :: store where
  "left_workspace = \<lparr>st_workspaceId = ''w'', st_ids = (\<lambda>label n. label), st_issued = 0,
     st_state = [((Session, ''s1''), \<lparr>v_generation = ''g1'', v_record = SessionR left_session\<rparr>),
       ((Intent, ''s1''), \<lparr>v_generation = ''g2'', v_record = IntentR left_intent\<rparr>),
       ((Participant, ''alice''), \<lparr>v_generation = ''g3'', v_record = ParticipantR left_participant\<rparr>)],
     st_ephemeral = [], st_events = [], st_floor = None\<rparr>"

definition prune_all :: prune_input where
  "prune_all = \<lparr>pr_classes = None, pr_workspaceId = None, pr_before = None, pr_apply = True\<rparr>"

lemma left_valid:
  "validate Intent (IntentR left_intent) = Inr ()" "validate Participant (ParticipantR left_participant) = Inr ()"
  by code_simp+

abbreviation left_envelopes :: "held list" where
  "left_envelopes \<equiv> [((Intent, ''s1''), \<lparr>v_generation = ''g2'', v_record = IntentR left_intent\<rparr>),
     ((Participant, ''alice''), \<lparr>v_generation = ''g3'', v_record = ParticipantR left_participant\<rparr>),
     ((Session, ''s1''), \<lparr>v_generation = ''g1'', v_record = SessionR left_session\<rparr>)]"

lemma left_listing: "stateEnvelopes left_workspace ''w'' None = Inr left_envelopes"
  by (simp add: stateEnvelopes_def begin_eval left_workspace_def left_valid sample_facts)
    (simp add: left_intent_def left_participant_def)

lemma left_fields: "i_sessionId left_intent = ''s1''" "s_participantId left_session = ''alice''" "s_state left_session = ''closed''"
  by (simp_all add: left_intent_def sample_facts)

lemma left_plan:
  "entries (plan_of PRUNE_CLASSES left_envelopes 2000 (\<lambda>_. True) None (0, []))
     = [left_envelopes ! 0, left_envelopes ! 2, left_envelopes ! 1]"
  by (simp add: entries_def plan_of_def of_kind_def PRUNE_CLASSES_def eligibleSessions_def eligibleParticipants_def
      classifySessionPresence_def all_of_def left_fields)

theorem interrupted_prune_leaves_no_dangling_reference_witness:
  "\<exists>plan skipped st'. prune_records prune_all 2000 (\<lambda>_. True) 2 left_workspace = Inr ((plan, skipped), st')
     \<and> whole 2000 (store_map st') \<and> map fst (st_state st') = [(Participant, ''alice'')]"
proof -
  let ?plan = "plan_of PRUNE_CLASSES left_envelopes 2000 (\<lambda>_. True) None (0, [])"
  have "planPrune prune_all 2000 (\<lambda>_. True) left_workspace = Inr ?plan"
    using left_listing by (simp add: planPrune_def prune_all_def resolved_def or_else_def bind_r_def assertClasses_def PRUNE_CLASSES_def
        left_workspace_def throw_if_def)
  moreover have "\<exists>skipped st'. reclaimStateRecords 2 (entries ?plan) left_workspace = (st', skipped)
      \<and> map fst (st_state st') = [(Participant, ''alice'')]"
    unfolding reclaimStateRecords_def left_plan by (simp add: reclaim_entry_def left_workspace_def)
  ultimately obtain skipped st' where run: "prune_records prune_all 2000 (\<lambda>_. True) 2 left_workspace = Inr ((?plan, skipped), st')"
    and keys: "map fst (st_state st') = [(Participant, ''alice'')]"
    by (auto simp: prune_records_def bind_r_def)
  have "wf_store left_workspace" "one_workspace left_workspace (resolved left_workspace (pr_workspaceId prune_all))" "messages_keyed left_workspace"
    by (simp_all add: wf_store_def one_workspace_def messages_keyed_def left_workspace_def ascending_def resolved_def prune_all_def
        left_intent_def left_participant_def sample_facts)
  moreover have "whole 2000 (store_map left_workspace)"
    by (auto simp: whole_def store_map_def left_workspace_def left_fields split: if_splits)
  ultimately have "whole 2000 (store_map st')" using interrupted_prune_leaves_no_dangling_reference [OF run] by blast
  with run keys show ?thesis by (intro exI conjI)
qed

definition told_workspace :: store where
  "told_workspace = \<lparr>st_workspaceId = ''w'', st_ids = (\<lambda>label n. label), st_issued = 0,
     st_state = [((Session, ''s1''), \<lparr>v_generation = ''g1'', v_record = SessionR left_session\<rparr>),
       ((Message, ''a''), \<lparr>v_generation = ''g2'', v_record = MessageR (sample_message ''a'' ''note'' None)\<rparr>),
       ((Participant, ''alice''), \<lparr>v_generation = ''g3'', v_record = ParticipantR left_participant\<rparr>)],
     st_ephemeral = [], st_events = [], st_floor = None\<rparr>"

abbreviation told_envelopes :: "held list" where
  "told_envelopes \<equiv> [((Message, ''a''), \<lparr>v_generation = ''g2'', v_record = MessageR (sample_message ''a'' ''note'' None)\<rparr>),
     ((Participant, ''alice''), \<lparr>v_generation = ''g3'', v_record = ParticipantR left_participant\<rparr>),
     ((Session, ''s1''), \<lparr>v_generation = ''g1'', v_record = SessionR left_session\<rparr>)]"

lemma told_message_valid: "validate Message (MessageR (sample_message ''a'' ''note'' None)) = Inr ()"
  by code_simp

lemma told_listing: "stateEnvelopes told_workspace ''w'' None = Inr told_envelopes"
  by (simp add: stateEnvelopes_def begin_eval told_workspace_def left_valid told_message_valid sample_facts)
    (simp add: left_participant_def sample_message_def)

lemma told_plan: "entries (plan_of PRUNE_CLASSES told_envelopes 2000 (\<lambda>_. True) None (0, [])) = [told_envelopes ! 2]"
  by (simp add: entries_def plan_of_def of_kind_def PRUNE_CLASSES_def eligibleSessions_def eligibleParticipants_def
      classifySessionPresence_def all_of_def left_fields sample_message_def)

text \<open>
  C27. The references above are the ones a pass keeps; the sender's session is not among
  them. A complete default pass removes a closed session while a message sent from it stays,
  so the message's \<^verbatim>\<open>fromSessionId\<close> names a record that is gone.
\<close>

theorem prune_forgets_the_session_of_a_kept_message:
  "\<exists>plan st' m g. prune_records prune_all 2000 (\<lambda>_. True) 512 told_workspace = Inr ((plan, 0), st')
     \<and> store_map told_workspace (Session, m_fromSessionId m) \<noteq> None
     \<and> store_map st' (Message, ''a'') = Some (MessageR m, g) \<and> store_map st' (Session, m_fromSessionId m) = None"
proof -
  let ?plan = "plan_of PRUNE_CLASSES told_envelopes 2000 (\<lambda>_. True) None (0, [])"
  have plan: "planPrune prune_all 2000 (\<lambda>_. True) told_workspace = Inr ?plan"
    using told_listing by (simp add: planPrune_def prune_all_def resolved_def or_else_def bind_r_def assertClasses_def PRUNE_CLASSES_def
        told_workspace_def throw_if_def)
  have left: "reclaimStateRecords 512 (entries ?plan) told_workspace
      = (told_workspace\<lparr>st_state := AList.delete (Session, ''s1'') (st_state told_workspace)\<rparr>, 0)"
    unfolding reclaimStateRecords_def told_plan by (simp add: reclaim_entry_def told_workspace_def)
  have "prune_records prune_all 2000 (\<lambda>_. True) 512 told_workspace
      = Inr ((?plan, 0), told_workspace\<lparr>st_state := AList.delete (Session, ''s1'') (st_state told_workspace)\<rparr>)"
    by (simp add: prune_records_def plan left bind_r_def)
  moreover have "m_fromSessionId (sample_message ''a'' ''note'' None) = ''s1''" by (simp add: sample_message_def)
  ultimately show ?thesis
    by (intro exI [of _ ?plan] exI [of _ "sample_message ''a'' ''note'' None"] exI conjI) (assumption | simp add: store_map_def told_workspace_def)+
qed

end
