(* ===== verification/Sync.thy ===== *)
theory Sync
  imports Status Prune Message_Pages
begin

text \<open>
  Synchronising (\<^verbatim>\<open>packages/core/src/sync.mjs\<close>): the events since a cursor with what needs attention,
  and the history of the workspace's messages by page or by identifier.
\<close>

section \<open>Input\<close>

definition SCOPES :: "string list" where
  "SCOPES = [''delta'', ''full'', ''history'']"

definition assertScope :: "string option \<Rightarrow> unit res" where
  "assertScope scope = throw_if (case scope of None \<Rightarrow> False | Some s \<Rightarrow> s \<notin> set SCOPES) USAGE
     (''scope is one of '' @ join_with '', '' SCOPES @ ''; leave it out for '' @ hd SCOPES)"

definition assertCursor :: "string \<Rightarrow> unit res" where
  "assertCursor cursor = throw_if (\<not> is_cursor cursor) USAGE
     ''a cursor is the 16-digit sequence a previous sync returned; leave it out to start from the beginning''"

record sync_input =
  y_scope :: "string option"
  y_messageId :: "string option"
  y_kind :: "string option"
  y_current :: "bool option"
  y_cursor :: "string option"
  y_limit :: "int option"
  y_workspaceId :: "id option"
  y_sessionId :: "id option"
  y_participantId :: "id option"
  y_snapshot :: "snapshot option"

section \<open>History\<close>

record receipt_entry =
  re_recipientParticipantId :: id
  re_state :: string
  re_updatedAt :: time
  re_offer :: "offer option"

definition receipt_entry :: "receipt \<Rightarrow> receipt_entry" where
  "receipt_entry r = \<lparr>re_recipientParticipantId = r_recipientParticipantId r, re_state = r_state r,
     re_updatedAt = r_updatedAt r, re_offer = offerFacts r\<rparr>"

datatype history_view =
    HistoryPage "summary list" "id option"
  | HistoryMessage viewed "receipt_entry list"

definition history_bytes :: "summary list \<Rightarrow> id \<Rightarrow> nat" where
  "history_bytes items cursor = byteLength (json_text 0 (JObj [(''scope'', JStr ''history''), (''view'', JStr ''summary''),
     (''items'', JArr (map summary_json items)), (''nextCursor'', JStr cursor)])) + 3 * length (filter su_cut items)"

definition check_history :: "sync_input \<Rightarrow> unit res" where
  "check_history input =
     bind_r (throw_if (y_current input \<noteq> None \<and> (y_kind input \<noteq> Some ''decision'' \<or> y_messageId input \<noteq> None)) USAGE
       ''current requires a decision history list, without message id'') (\<lambda>_.
     bind_r (throw_if (y_messageId input \<noteq> None \<and> (y_cursor input \<noteq> None \<or> y_limit input \<noteq> None \<or> y_kind input \<noteq> None)) USAGE
       ''an exact history read cannot use cursor, limit, or type'') (\<lambda>_.
     case y_messageId input of None \<Rightarrow> Inr () | Some i \<Rightarrow> assertMessageId i ''message id''))"

definition history :: "sync_input \<Rightarrow> store \<Rightarrow> history_view res" where
  "history input st =
     bind_r (check_history input) (\<lambda>_.
     bind_r (read_snapshot (resolved st (y_workspaceId input))
       (Some (if y_messageId input \<noteq> None then [Message, Receipt] else [Message])) st) (\<lambda>sn.
     let messages = map (\<lambda>m. (m, decisionView (sn_messages sn) m)) (sn_messages sn)
     in case y_messageId input of
       None \<Rightarrow>
         bind_r (messagePage fst (\<lambda>x. y_current input \<noteq> Some True \<or> isCurrentDecision (snd x)) messageSummary history_bytes messages
           \<lparr>pi_limit = y_limit input, pi_kind = y_kind input, pi_cursor = y_cursor input\<rparr>) (\<lambda>(items, nextCursor).
         Inr (HistoryPage items nextCursor))
     | Some i \<Rightarrow> (case List.find (\<lambda>x. m_messageId (fst x) = i) messages of
         None \<Rightarrow> Inl (AccError DATA (''message is not in this workspace'' @ [CHR 0x27] @ ''s history''))
       | Some x \<Rightarrow> Inr (HistoryMessage x (map receipt_entry (locale_sort r_recipientParticipantId
           (filter (\<lambda>r. r_messageId r = m_messageId (fst x)) (sn_receipts sn))))))))"

section \<open>Synchronising\<close>

definition SYNC_LIMIT :: int where
  "SYNC_LIMIT = 100"

record sync_peer =
  sp_sessionId :: id
  sp_participantId :: id
  sp_parentSessionId :: "id option"
  sp_harness :: string
  sp_branch :: "string option"
  sp_presence :: string

definition sync_peer :: "time \<Rightarrow> (int \<Rightarrow> bool) \<Rightarrow> session \<Rightarrow> sync_peer" where
  "sync_peer now pidIsAlive s = \<lparr>sp_sessionId = s_sessionId s, sp_participantId = s_participantId s,
     sp_parentSessionId = s_parentSessionId s, sp_harness = s_harness s, sp_branch = s_branch s,
     sp_presence = classifySessionPresence s now pidIsAlive\<rparr>"

record sync_view =
  sv_cursor :: nat
  sv_trimmedThrough :: "nat option"
  sv_scope :: string
  sv_solo :: bool
  sv_attention :: "attention_item list"
  sv_roster :: "sync_peer list"
  sv_events :: "event list"
  sv_snapshot :: "snapshot option"

definition sync_snapshot :: "id \<Rightarrow> snapshot option \<Rightarrow> store \<Rightarrow> snapshot res" where
  "sync_snapshot workspaceId given st =
     bind_r (case given of Some sn \<Rightarrow> Inr sn | None \<Rightarrow> read_snapshot workspaceId None st) (\<lambda>durable.
     if sn_workspace durable \<noteq> None then Inr durable
     else bind_r (eph_list st Session) (\<lambda>ss.
       bind_r (eph_list st Intent) (\<lambda>is.
       Inr (durable\<lparr>sn_sessions := all_of as_session ss, sn_intents := all_of as_intent is\<rparr>))))"

definition sync_view :: "sync_input \<Rightarrow> session option \<Rightarrow> time \<Rightarrow> (int \<Rightarrow> bool) \<Rightarrow> snapshot \<Rightarrow> event_page \<Rightarrow> sync_view" where
  "sync_view input session now pidIsAlive sn page =
     (let attention = computeAttention sn session
            (case session of Some s \<Rightarrow> Some (s_participantId s) | None \<Rightarrow> y_participantId input) now pidIsAlive;
          roster = map (sync_peer now pidIsAlive) (sn_sessions sn);
          peers = filter (\<lambda>x. Some (sp_sessionId x) \<noteq> map_option s_sessionId session \<and> sp_presence x \<noteq> ''offline'') roster
      in \<lparr>sv_cursor = pg_cursor page, sv_trimmedThrough = pg_trimmedThrough page,
          sv_scope = (if y_scope input = Some ''full'' then ''full'' else ''delta''),
          sv_solo = (peers = [] \<and> attention = [] \<and> sn_claims sn = []),
          sv_attention = attention, sv_roster = roster, sv_events = pg_events page,
          sv_snapshot = (if y_scope input = Some ''full''
            then Some (sn\<lparr>sn_receipts := map publicReceipt (sn_receipts sn)\<rparr>) else None)\<rparr>)"

text \<open>
  The scopes that read the log; \<open>ceiling\<close> is the first sequence of an open journal entry, if
  there is one.
\<close>

definition sync_log :: "sync_input \<Rightarrow> nat option \<Rightarrow> time \<Rightarrow> (int \<Rightarrow> bool) \<Rightarrow> store \<Rightarrow> sync_view res" where
  "sync_log input ceiling now pidIsAlive st =
     bind_r (throw_if (y_messageId input \<noteq> None \<or> y_kind input \<noteq> None \<or> y_current input \<noteq> None) USAGE
       ''message, type and current require history scope'') (\<lambda>_.
     bind_r (case y_cursor input of None \<Rightarrow> Inr () | Some c \<Rightarrow> assertCursor c) (\<lambda>_.
     let workspaceId = resolved st (y_workspaceId input) in
     bind_r (case y_sessionId input of None \<Rightarrow> Inr None | Some i \<Rightarrow> locate st i (Some workspaceId)) (\<lambda>located.
     bind_r (sync_snapshot workspaceId (y_snapshot input) st) (\<lambda>sn.
     bind_r (eventsSince st ceiling workspaceId (map_option cursor_sequence (y_cursor input))
       (Some (nat (or_else (y_limit input) SYNC_LIMIT)))) (\<lambda>page.
     Inr (sync_view input (map_option fst located) now pidIsAlive sn page))))))"

datatype sync_result = HistoryResult history_view | LogResult sync_view

definition sync :: "sync_input \<Rightarrow> nat option \<Rightarrow> time \<Rightarrow> (int \<Rightarrow> bool) \<Rightarrow> store \<Rightarrow> sync_result res" where
  "sync input ceiling now pidIsAlive st =
     bind_r (assertScope (y_scope input)) (\<lambda>_.
     if y_scope input = Some ''history'' then bind_r (history input st) (\<lambda>h. Inr (HistoryResult h))
     else bind_r (sync_log input ceiling now pidIsAlive st) (\<lambda>v. Inr (LogResult v)))"

section \<open>Cursors\<close>

lemma digit_char_read:
  assumes "d < 10"
  shows "of_char (digit_char d) - 48 = int d" and "is_digit (digit_char d)"
proof -
  have "list_all (\<lambda>d. of_char (digit_char d) - 48 = int d \<and> is_digit (digit_char d)) [0..<10]" by code_simp
  with assms show "of_char (digit_char d) - 48 = int d" "is_digit (digit_char d)" by (auto simp: list_all_iff)
qed

lemma read_pad: "read_digits (pad_digits w n) = int (n mod 10 ^ w)"
proof (induction w arbitrary: n)
  case (Suc w)
  have "n mod 10 ^ Suc w = 10 * (n div 10 mod 10 ^ w) + n mod 10"
    by (simp add: mod_mult2_eq mult.commute)
  with Suc digit_char_read(1) [of "n mod 10"] show ?case by (simp add: read_digits_def)
qed (simp add: read_digits_def)

lemma pad_cursor:
  assumes "int n \<le> MAX_SAFE_INTEGER"
  shows "is_cursor (pad n) \<and> cursor_sequence (pad n) = n"
proof
  have "list_all is_digit (pad_digits w n)" for w n
    by (induction w arbitrary: n) (simp_all add: digit_char_read)
  then show "is_cursor (pad n)" by (simp add: is_cursor_def pad_def)
  from assms have "n < 10 ^ 16" by (simp add: MAX_SAFE_INTEGER_def)
  then show "cursor_sequence (pad n) = n" by (simp add: cursor_sequence_def pad_def read_pad)
qed

definition after_cursor :: "sync_input \<Rightarrow> nat" where
  "after_cursor input = (case y_cursor input of None \<Rightarrow> 0 | Some c \<Rightarrow> cursor_sequence c)"

lemma sync_log_page:
  assumes "sync_log input ceiling now pidIsAlive st = Inr v"
  obtains page where "eventsSince st ceiling (resolved st (y_workspaceId input)) (map_option cursor_sequence (y_cursor input))
      (Some (nat (or_else (y_limit input) SYNC_LIMIT))) = Inr page"
    "sv_events v = pg_events page" "sv_cursor v = pg_cursor page" "sv_trimmedThrough v = pg_trimmedThrough page"
  using assms by (auto simp: sync_log_def sync_view_def Let_def bind_r_eq_Inr)

text \<open>
  C33. Following the cursor reads the log: a sync returns the events right after its cursor, none
  skipped and none twice, at least one if there is any; and the cursor it returns, written
  as the sixteen digits a caller passes back, is accepted and names the same place.
\<close>

theorem sync_pages_join:
  assumes "sync_log input None now pidIsAlive st = Inr v" and "wf_store st" and "log_ok st"
    and "\<forall>e \<in> set (st_events st). int (e_sequence e) \<le> MAX_SAFE_INTEGER" and "int (after_cursor input) \<le> MAX_SAFE_INTEGER"
    and "0 < or_else (y_limit input) SYNC_LIMIT"
  shows "log_after st (resolved st (y_workspaceId input)) (after_cursor input)
      = sv_events v @ log_after st (resolved st (y_workspaceId input)) (sv_cursor v)
    \<and> (sv_events v = [] \<longleftrightarrow> log_after st (resolved st (y_workspaceId input)) (after_cursor input) = [])
    \<and> assertCursor (pad (sv_cursor v)) = Inr () \<and> after_cursor (input\<lparr>y_cursor := Some (pad (sv_cursor v))\<rparr>) = sv_cursor v"
proof -
  let ?w = "resolved st (y_workspaceId input)" and ?n = "nat (or_else (y_limit input) SYNC_LIMIT)"
  have after: "or_else (map_option cursor_sequence (y_cursor input)) 0 = after_cursor input"
    by (simp add: after_cursor_def or_else_def split: option.splits)
  let ?page = "take ?n (log_after st ?w (after_cursor input))"
  obtain page where "eventsSince st None ?w (map_option cursor_sequence (y_cursor input)) (Some ?n) = Inr page"
    and v: "sv_events v = pg_events page" "sv_cursor v = pg_cursor page" using sync_log_page [OF assms(1)] by metis
  with eventsSince_page [of st ?n ?w "map_option cursor_sequence (y_cursor input)"] assms(3, 6)
  have events: "sv_events v = ?page" and cursor: "sv_cursor v = (if ?page = [] then after_cursor input else e_sequence (last ?page))"
    by (auto simp: log_ok_def after Let_def)
  have "log_after st ?w (after_cursor input) = ?page @ log_after st ?w (sv_cursor v)"
  proof (cases "?page = []")
    case True
    then show ?thesis using cursor assms(6) by simp
  next
    case False
    have sorted: "sorted_wrt (<) (map e_sequence (st_events st))" using assms(2) by (simp add: wf_store_def ascending_def)
    from False have "log_after st ?w (after_cursor input) = ?page @ log_after st ?w (e_sequence (last ?page))"
      unfolding log_after_def by (rule take_last_filter [OF sorted refl])
    with False cursor show ?thesis by metis
  qed
  moreover have "int (sv_cursor v) \<le> MAX_SAFE_INTEGER"
  proof (cases "?page = []")
    case False
    then have "last ?page \<in> set (log_after st ?w (after_cursor input))" by (rule in_set_takeD [OF last_in_set])
    then have "last ?page \<in> set (st_events st)" by (simp add: log_after_def)
    with assms(4) False cursor show ?thesis by simp
  qed (use cursor assms(5) in simp)
  ultimately show ?thesis
    using pad_cursor events assms(6) by (simp add: assertCursor_def throw_if_def after_cursor_def)
qed

section \<open>Trimming and cursors\<close>

lemma page_events_extends:
  "page_events w after ceiling limit acc es = Inr out \<Longrightarrow> \<exists>new. out = acc @ new"
proof (induction es arbitrary: acc)
  case (Cons x es)
  from Cons.IH [of acc] Cons.IH [of "acc @ [x]"] Cons.prems show ?case by (auto simp: bind_r_eq_Inr split: if_splits)
qed simp

lemma page_events_gap:
  assumes "page_events w after ceiling limit acc es = Inr out" and "ascending (map e_sequence es)"
    and "e \<in> set es" and "after < e_sequence e" and "e_workspaceId e = w"
  shows "e \<in> set out \<or> (\<exists>new. out = acc @ new \<and> (\<forall>x \<in> set new. e_sequence x < e_sequence e))"
  using assms
proof (induction es arbitrary: acc)
  case (Cons x es)
  have asc: "ascending (map e_sequence es)" and first: "\<forall>y \<in> set es. e_sequence x < e_sequence y"
    using Cons.prems(2) by (auto simp: ascending_def)
  show ?case
  proof (cases "e = x")
    case True
    then show ?thesis using Cons.prems(1, 4, 5) page_events_extends [of w after ceiling limit "acc @ [x]" es out]
      by (auto simp: bind_r_eq_Inr split: if_splits)
  next
    case False
    then have e: "e \<in> set es" "e_sequence x < e_sequence e" using Cons.prems(3) first by auto
    note skip = Cons.IH [of acc, OF _ asc e(1) Cons.prems(4, 5)] and more = Cons.IH [of "acc @ [x]", OF _ asc e(1) Cons.prems(4, 5)]
    have "page_events w after ceiling limit acc es = Inr out \<or> out = acc \<or> out = acc @ [x]
        \<or> page_events w after ceiling limit (acc @ [x]) es = Inr out"
      using Cons.prems(1) by (auto simp: bind_r_eq_Inr split: if_splits)
    then consider "page_events w after ceiling limit acc es = Inr out" | "out = acc" | "out = acc @ [x]"
      | "page_events w after ceiling limit (acc @ [x]) es = Inr out" by blast
    then show ?thesis
    proof cases
      case 4
      from more [OF this] e(2) show ?thesis by auto
    qed (use skip e(2) in auto)
  qed
qed simp

text \<open>
  C16. Trimming leaves no silent gap. After a trim, a sync whose cursor precedes an event of the
  log as it was before returns the event, or says that the log was trimmed at or past it, or
  stops short of it, at a cursor from which it is still to come.
\<close>

theorem trimming_leaves_no_silent_gap:
  assumes "trimEventLog stop boundary st = Inr (trimmedThrough, st')" and "wf_store st"
    and "sync_log input ceiling now pidIsAlive st' = Inr v" and "e \<in> set (st_events st)"
    and "e_workspaceId e = resolved st (y_workspaceId input)" and "after_cursor input < e_sequence e"
  shows "e \<in> set (sv_events v) \<or> (\<exists>n. sv_trimmedThrough v = Some n \<and> e_sequence e \<le> n) \<or> sv_cursor v < e_sequence e"
proof -
  let ?w = "resolved st (y_workspaceId input)"
  from trim_shape [OF assms(1)] obtain n where
      floor: "trimmedThrough = (case st_floor st of Some n \<Rightarrow> max n boundary | None \<Rightarrow> boundary)"
    and st': "st' = st\<lparr>st_floor := Some trimmedThrough, st_events := drop n (st_events st)\<rparr>"
    and low: "\<And>e. e \<in> set (take n (st_events st)) \<Longrightarrow> e_sequence e \<le> boundary" by blast
  have t: "boundary \<le> trimmedThrough" by (simp add: floor split: option.splits)
  have w: "resolved st' (y_workspaceId input) = ?w" by (simp add: st' resolved_def split: option.split)
  obtain page where page: "eventsSince st' ceiling ?w (map_option cursor_sequence (y_cursor input))
      (Some (nat (or_else (y_limit input) SYNC_LIMIT))) = Inr page"
    and v: "sv_events v = pg_events page" "sv_cursor v = pg_cursor page" "sv_trimmedThrough v = pg_trimmedThrough page"
    using sync_log_page [OF assms(3)] w by metis
  have told: "sv_trimmedThrough v = Some trimmedThrough"
    using page v(3) by (auto simp: eventsSince_def bind_r_eq_Inr Let_def st')
  consider "e \<in> set (take n (st_events st))" | "e \<in> set (drop n (st_events st))"
    using assms(4) by (metis Un_iff append_take_drop_id set_append)
  then show ?thesis
  proof cases
    case 1
    with low t told show ?thesis by (meson order_trans)
  next
    case 2
    have "ascending (map e_sequence (drop n (st_events st)))"
      using assms(2) by (auto simp: wf_store_def ascending_def drop_map [symmetric] sorted_wrt_drop)
    moreover obtain out where out: "page_events ?w (after_cursor input) ceiling (Some (nat (or_else (y_limit input) SYNC_LIMIT))) []
        (drop n (st_events st)) = Inr out" "pg_events page = out"
        "pg_cursor page = (if out = [] then after_cursor input else e_sequence (last out))"
      using page by (auto simp: eventsSince_def bind_r_eq_Inr Let_def st' after_cursor_def split: option.splits)
    ultimately have "e \<in> set out \<or> (\<forall>x \<in> set out. e_sequence x < e_sequence e)"
      using page_events_gap [OF out(1)] 2 assms(5, 6) by fastforce
    with out v assms(6) show ?thesis by (auto simp: last_in_set)
  qed
qed

section \<open>Concrete syncs\<close>

definition ask_sync :: "string option \<Rightarrow> sync_input" where
  "ask_sync cursor = \<lparr>y_scope = None, y_messageId = None, y_kind = None, y_current = None, y_cursor = cursor, y_limit = Some 2,
     y_workspaceId = None, y_sessionId = None, y_participantId = None, y_snapshot = None\<rparr>"

definition synced :: "sync_input \<Rightarrow> store \<Rightarrow> (nat \<times> nat list \<times> nat option) option" where
  "synced input st = (case sync_log input None 5 (\<lambda>_. True) st of Inl _ \<Rightarrow> None
     | Inr v \<Rightarrow> Some (sv_cursor v, map e_sequence (sv_events v), sv_trimmedThrough v))"

lemma syncedD:
  assumes "synced input st = Some (c, ns, t)"
  obtains v where "sync_log input None 5 (\<lambda>_. True) st = Inr v" "sv_cursor v = c" "map e_sequence (sv_events v) = ns"
    "sv_trimmedThrough v = t"
  using assms by (auto simp: synced_def split: sum.splits)

abbreviation trimmed_workspace :: store where
  "trimmed_workspace \<equiv> logged_workspace\<lparr>st_floor := Some 1, st_events := [sample_event 2]\<rparr>"

lemma synced_samples:
  "synced (ask_sync (Some (pad 1))) logged_workspace = Some (2, [2], None)"
  "synced (ask_sync None) trimmed_workspace = Some (2, [2], Some 1)"
  by code_simp+

lemma logged_facts:
  "wf_store logged_workspace" "log_ok logged_workspace" "\<forall>e \<in> set (st_events logged_workspace). int (e_sequence e) \<le> MAX_SAFE_INTEGER"
  "resolved logged_workspace (y_workspaceId (ask_sync c)) = ''w''" "sample_event 1 \<in> set (st_events logged_workspace)"
proof -
  have "validate_event (sample_event 1) = Inr ()" "validate_event (sample_event 2) = Inr ()" by code_simp+
  then show "log_ok logged_workspace" by (simp add: log_ok_def logged_workspace_def)
qed (simp_all add: wf_store_def logged_workspace_def ascending_def sample_event_def MAX_SAFE_INTEGER_def resolved_def ask_sync_def)

theorem sync_pages_join_witness:
  "\<exists>v. sync_log (ask_sync (Some (pad 1))) None 5 (\<lambda>_. True) logged_workspace = Inr v \<and> map e_sequence (sv_events v) = [2]
     \<and> log_after logged_workspace ''w'' 1 = sv_events v @ log_after logged_workspace ''w'' 2"
proof -
  from synced_samples(1) obtain v where v: "sync_log (ask_sync (Some (pad 1))) None 5 (\<lambda>_. True) logged_workspace = Inr v" "sv_cursor v = 2"
    "map e_sequence (sv_events v) = [2]" by (rule syncedD)
  have after: "after_cursor (ask_sync (Some (pad 1))) = 1"
    using pad_cursor [of 1] by (simp add: after_cursor_def ask_sync_def MAX_SAFE_INTEGER_def)
  have "0 < or_else (y_limit (ask_sync (Some (pad 1)))) SYNC_LIMIT" "int (after_cursor (ask_sync (Some (pad 1)))) \<le> MAX_SAFE_INTEGER"
    unfolding after by (simp_all add: or_else_def ask_sync_def MAX_SAFE_INTEGER_def)
  from sync_pages_join [OF v(1) logged_facts(1 - 3) this(2, 1), unfolded after logged_facts(4) v(2), THEN conjunct1] v(1, 3)
  show ?thesis by (intro exI conjI)
qed

theorem trimming_leaves_no_silent_gap_witness:
  "\<exists>v. sync_log (ask_sync None) None 5 (\<lambda>_. True) trimmed_workspace = Inr v
     \<and> ((\<exists>n. sv_trimmedThrough v = Some n \<and> 1 \<le> n) \<or> sample_event 1 \<in> set (sv_events v) \<or> sv_cursor v < 1)"
proof -
  from synced_samples(2) obtain v where v: "sync_log (ask_sync None) None 5 (\<lambda>_. True) trimmed_workspace = Inr v"
    by (rule syncedD)
  have "trimEventLog 512 1 logged_workspace = Inr (1, trimmed_workspace)"
    by (simp add: trimEventLog_def raiseEventFloor_def allocated_def logged_workspace_def sample_event_def)
  moreover have "e_workspaceId (sample_event 1) = ''w''" "after_cursor (ask_sync None) < e_sequence (sample_event 1)" "e_sequence (sample_event 1) = 1"
    by (simp_all add: sample_event_def after_cursor_def ask_sync_def)
  ultimately show ?thesis
    using trimming_leaves_no_silent_gap [OF _ logged_facts(1) v, of 512 1 1 "sample_event 1"] logged_facts(4, 5) v by auto
qed

end
