(* ===== verification/System.thy ===== *)
theory System
  imports Inbox Intents Delivery Prune
begin

text \<open>
  The system: every process that works on a workspace runs its operations as a sequence of calls
  of the store, each of which is a transaction under the writer mutex or an update of one
  ephemeral record under its lock. \<open>atomic\<close> has one rule per such call of the services, and
  \<open>sys_step\<close> adds the clock, a pass of prune stopped anywhere and a trim of the log. What holds of
  every run of \<open>sys_step\<close> holds however the processes interleave and wherever one of them stops.
\<close>

section \<open>Atomic calls\<close>

inductive atomic :: "(string \<Rightarrow> nat list) \<Rightarrow> time \<Rightarrow> store \<Rightarrow> store \<Rightarrow> bool" for sha :: "string \<Rightarrow> nat list" and now :: time where
  update_session: "transaction (Some [Session]) [Session] (update_durable i f) st = Inr (x, st') \<Longrightarrow> atomic sha now st st'"
| resume_session: "transaction (Some [Session]) [] (resume_durable i g) st = Inr (x, st') \<Longrightarrow> atomic sha now st st'"
| close_session: "transaction (Some [Session]) [] (close_durable i f) st = Inr (x, st') \<Longrightarrow> atomic sha now st st'"
| open_session: "open_durable_step available s p w now st = Inr (x, st') \<Longrightarrow> atomic sha now st st'"
| materialise: "materialise_step w d reason j now st = Inr (x, st') \<Longrightarrow> atomic sha now st st'"
| set_intent: "transaction (Some [Session, Intent]) [] (set_intent_tx w g intent now) st = Inr (x, st') \<Longrightarrow> atomic sha now st st'"
| clear_intent: "transaction (Some [Session, Intent]) [] (clear_intent_tx i w g now) st = Inr (x, st') \<Longrightarrow> atomic sha now st st'"
| acquire: "transaction (Some [Session, Claim]) [] (acquire_tx input s resources batch now) st = Inr (x, st') \<Longrightarrow> atomic sha now st st'"
| renew: "transaction (Some [Session, Claim]) [] (renew_tx i s g claimId leaseSeconds now) st = Inr (x, st') \<Longrightarrow> atomic sha now st st'"
| release: "transaction (Some [Session, Claim]) [] (remove_claims_tx i g s sel authority reason now) st = Inr (x, st')
    \<Longrightarrow> atomic sha now st st'"
| send: "transaction (Some MESSAGE_TX) [Message, Receipt] (send_tx sha s minput now) st = Inr (x, st') \<Longrightarrow> atomic sha now st st'"
| reply: "transaction (Some MESSAGE_TX) [Message, Receipt] (reply_tx sha s rinput replyId now) st = Inr (x, st') \<Longrightarrow> atomic sha now st st'"
| finish: "transaction (Some FINISH_TX) [Message, Receipt] (finish_tx sha s finput now) st = Inr (x, st') \<Longrightarrow> atomic sha now st st'"
| list_inbox: "transaction (Some OFFER_TX) OFFER_TX (list_inbox_tx sha s i g pinput) st = Inr (x, st') \<Longrightarrow> atomic sha now st st'"
| read_inbox: "transaction (Some OFFER_TX) OFFER_TX (read_inbox_tx sha s i g messageId now) st = Inr (x, st') \<Longrightarrow> atomic sha now st st'"
| acknowledge: "transaction (Some OFFER_TX) OFFER_TX (acknowledge_tx sha s i g m now) st = Inr (x, st') \<Longrightarrow> atomic sha now st st'"
| offer_succeeded: "transaction (Some OFFER_TX) OFFER_TX (offer_succeeded_tx sha oinput now) st = Inr (x, st') \<Longrightarrow> atomic sha now st st'"
| offer_failed: "transaction (Some OFFER_TX) OFFER_TX (offer_failed_tx sha oinput now) st = Inr (x, st') \<Longrightarrow> atomic sha now st st'"
| read_receipt: "transaction (Some [Message, Receipt]) [Message, Receipt] (read_receipt_tx sha m p) st = Inr (x, st') \<Longrightarrow> atomic sha now st st'"
| ephemeral_update: "eph_update st k i up = Inr (x, st') \<Longrightarrow> atomic sha now st st'"
| ephemeral_delete: "eph_delete st k i guard = Inr st' \<Longrightarrow> atomic sha now st st'"
| issue: "atomic sha now st (st\<lparr>st_issued := n\<rparr>)"

inductive sys_step :: "(string \<Rightarrow> nat list) \<Rightarrow> (int \<Rightarrow> bool) \<Rightarrow> time \<times> store \<Rightarrow> time \<times> store \<Rightarrow> bool"
    for sha :: "string \<Rightarrow> nat list" and pidIsAlive :: "int \<Rightarrow> bool" where
  tick: "now \<le> later \<Longrightarrow> sys_step sha pidIsAlive (now, st) (later, st)"
| call: "atomic sha now st st' \<Longrightarrow> sys_step sha pidIsAlive (now, st) (now, st')"
| prune: "prune_records input now pidIsAlive stop st = Inr (x, st') \<Longrightarrow> sys_step sha pidIsAlive (now, st) (now, st')"
| trim: "trimEventLog stop boundary st = Inr (x, st') \<Longrightarrow> sys_step sha pidIsAlive (now, st) (now, st')"

definition fresh_store :: "id \<Rightarrow> (string \<Rightarrow> nat \<Rightarrow> id) \<Rightarrow> store" where
  "fresh_store workspaceId ids = \<lparr>st_workspaceId = workspaceId, st_ids = ids, st_issued = 0, st_state = [], st_ephemeral = [],
     st_events = [], st_floor = None\<rparr>"

section \<open>What a call keeps\<close>

context record_order
begin

lemma moves_read_receipt: "moves R k (read_receipt_tx sha m p)"
  unfolding read_receipt_tx_def by (intro moves_intros moves_readers)

end

definition eph_ok :: "store \<Rightarrow> bool" where
  "eph_ok st \<longleftrightarrow> (\<forall>((k, i), r) \<in> set (st_ephemeral st). validate k r = Inr ())"

definition sequences_ok :: "store \<Rightarrow> bool" where
  "sequences_ok st \<longleftrightarrow> (\<forall>e \<in> set (st_events st). int (e_sequence e) \<le> MAX_SAFE_INTEGER)"

definition well_typed :: "store \<Rightarrow> bool" where
  "well_typed st \<longleftrightarrow> wf_store st \<and> valid_map (store_map st) \<and> log_ok st \<and> sequences_ok st \<and> eph_ok st"

text \<open>What a call of a service does to what is already recorded.\<close>

definition preserves :: "store \<Rightarrow> store \<Rightarrow> bool" where
  "preserves st st' \<longleftrightarrow> (\<exists>es. st_events st' = st_events st @ es) \<and> st_floor st' = st_floor st
     \<and> (\<forall>i. receipt_forward (map_option fst (store_map st (Receipt, i))) (map_option fst (store_map st' (Receipt, i))))
     \<and> (\<forall>i. unedited (map_option fst (store_map st (Message, i))) (map_option fst (store_map st' (Message, i))))"

lemma preserves_refl: "preserves st st"
  by (simp add: preserves_def receipt_forward_refl unedited_def)

lemma preserves_trans: "preserves st su \<Longrightarrow> preserves su sv \<Longrightarrow> preserves st sv"
  unfolding preserves_def
  by (intro conjI; (elim conjE exE)?; (metis append_assoc | metis | meson receipt_order.compose message_order.compose))

lemma number_events_bound:
  "e \<in> set (number_events n es) \<Longrightarrow> e_sequence e < n + length es"
  by (induction n es rule: number_events.induct) auto

lemma commit_sequences:
  assumes "commit v = Inr st" and "sequences_ok (x_store v)"
  shows "sequences_ok st"
proof (cases "x_events v = [] \<and> x_staged v = [] \<or> single_record v")
  case True
  then show ?thesis using assms by (auto simp: commit_def sequences_ok_def published_def split: if_splits)
next
  case False
  then obtain first where first: "nextSequence (x_store v) = Inr first"
    and top: "int first + int (length (x_events v)) - 1 \<le> MAX_SAFE_INTEGER"
    and st: "st_events st = st_events (x_store v) @ number_events first (x_events v)"
    using assms(1) by (auto simp: commit_def bind_r_eq_Inr throw_if_def Let_def split: if_splits)
  have "int (e_sequence e) \<le> MAX_SAFE_INTEGER" if "e \<in> set (number_events first (x_events v))" for e
    using number_events_bound [OF that] top by linarith
  with assms(2) show ?thesis by (auto simp: sequences_ok_def st)
qed

lemma transaction_commits:
  assumes "transaction ks ex cb st = Inr (x, st')" and "lawful cb" and "wf_store st"
  obtains w where "commit w = Inr st'" "x_store w = st"
proof -
  obtain v w where v: "begin_view st ks ex = Inr v" and w: "cb v = Inr (x, w)" and st': "commit w = Inr st'"
    using assms(1) by (auto simp: transaction_eq)
  note start = begin_view_law [OF v assms(3)]
  then have "typed_map (sees v)" using assms(3) by (simp add: wf_store_map)
  with tx_steps_keep [OF lawfulD [OF assms(2) w]] start have "x_store w = st" by (auto simp: same_frame_def)
  with st' that show thesis by blast
qed

lemma transaction_well_typed:
  assumes run: "transaction ks ex cb st = Inr (x, st')" and lawful: "lawful cb" and typed: "well_typed st"
  shows "well_typed st'"
proof -
  have wf: "wf_store st" using typed by (simp add: well_typed_def)
  have "sequences_ok st'"
    using transaction_commits [OF run lawful wf] commit_sequences typed by (metis well_typed_def)
  moreover have "eph_ok st'" using typed transaction_keeps(3) [OF run lawful wf] by (simp add: well_typed_def eph_ok_def)
  ultimately show ?thesis
    using transaction_keeps(1) [OF run lawful wf] transaction_valid [OF run lawful wf] transaction_log_ok [OF run lawful wf] typed
    by (simp add: well_typed_def)
qed

lemma transaction_preserves:
  assumes run: "transaction (Some ks) ex cb st = Inr (x, st')" and lawful: "lawful cb" and wf: "wf_store st"
    and receipts: "Receipt \<in> set ks \<Longrightarrow> moves receipt_forward Receipt cb" and messages: "Message \<in> set ks \<Longrightarrow> moves unedited Message cb"
  shows "preserves st st'"
proof -
  have "receipt_forward (map_option fst (store_map st (Receipt, i))) (map_option fst (store_map st' (Receipt, i)))" for i
    using receipt_order.transaction_moves [OF run lawful wf receipts] transaction_undeclared [OF run lawful wf, of Receipt i]
    by (cases "Receipt \<in> set ks") (simp_all add: receipt_forward_refl)
  moreover have "unedited (map_option fst (store_map st (Message, i))) (map_option fst (store_map st' (Message, i)))" for i
    using message_order.transaction_moves [OF run lawful wf messages] transaction_undeclared [OF run lawful wf, of Message i]
    by (cases "Message \<in> set ks") (simp_all add: message_order.same)
  ultimately show ?thesis
    using transaction_keeps(2, 4) [OF run lawful wf] by (simp add: preserves_def)
qed

text \<open>All that a call is shown to keep, at the time it is made.\<close>

definition kept :: "time \<Rightarrow> store \<Rightarrow> store \<Rightarrow> bool" where
  "kept now st st' \<longleftrightarrow> well_typed st' \<and> preserves st st' \<and> (exclusive_at st now \<longrightarrow> exclusive_at st' now)"

lemma kept_tx:
  assumes run: "transaction (Some ks) ex cb st = Inr (x, st')" and lawful: "lawful cb" and typed: "well_typed st"
    and "Receipt \<in> set ks \<Longrightarrow> moves receipt_forward Receipt cb" and "Message \<in> set ks \<Longrightarrow> moves unedited Message cb"
    and claims: "Claim \<in> set ks \<Longrightarrow> adds Claim (\<lambda>_. False) cb"
  shows "kept now st st'"
proof -
  have wf: "wf_store st" using typed by (simp add: well_typed_def)
  have "exclusive_at st' now" if "exclusive_at st now"
  proof (cases "Claim \<in> set ks")
    case True
    with adds_nothing_exclusive [OF run lawful wf claims] that show ?thesis by blast
  next
    case False
    with transaction_undeclared [OF run lawful wf] have "claims_in st' = claims_in st" by (simp add: claims_in_def)
    with that show ?thesis by (simp add: exclusive_at_def)
  qed
  then show ?thesis
    using transaction_well_typed [OF run lawful typed] transaction_preserves [OF run lawful wf assms(4, 5)] by (simp add: kept_def)
qed

lemma kept_claims_tx:
  assumes run: "transaction (Some [Session, Claim]) [] cb st = Inr (x, st')" and lawful: "lawful cb" and typed: "well_typed st"
    and "wf_store st \<Longrightarrow> exclusive_at st now \<Longrightarrow> exclusive_at st' now"
  shows "kept now st st'"
proof -
  have wf: "wf_store st" using typed by (simp add: well_typed_def)
  have "preserves st st'" by (rule transaction_preserves [OF run lawful wf]) simp_all
  with transaction_well_typed [OF run lawful typed] assms(4) [OF wf] show ?thesis by (simp add: kept_def)
qed

lemma store_map_fields [simp]:
  "store_map (st\<lparr>st_ephemeral := area\<rparr>) = store_map st" "store_map (st\<lparr>st_issued := n\<rparr>) = store_map st"
  by (rule ext; simp add: store_map_def)+

lemma set_update: "set (AList.update k v al) \<subseteq> insert (k, v) (set al)"
  by (induction al) auto

lemma kept_ephemeral:
  assumes "well_typed st" and "\<forall>((k, i), r) \<in> set area. validate k r = Inr ()"
  shows "kept now st (st\<lparr>st_ephemeral := area\<rparr>)"
  using assms by (simp add: kept_def well_typed_def preserves_def wf_store_def log_ok_def sequences_ok_def eph_ok_def
      exclusive_at_def claims_in_def receipt_forward_refl unedited_def)

lemma kept_eph_update:
  assumes "eph_update st k i up = Inr (x, st')" and "well_typed st"
  shows "kept now st st'"
proof -
  from assms(1) consider "st' = st" | r where "st' = eph_write st k i r" "validate k r = Inr ()"
    by (auto simp: eph_update_def bind_r_eq_Inr split: option.splits)
  then show ?thesis
  proof cases
    case 1
    with assms(2) show ?thesis by (simp add: kept_def preserves_refl)
  next
    case 2
    with set_update [of "(k, i)" r "st_ephemeral st"] assms(2) show ?thesis unfolding 2(1) eph_write_def
      by (intro kept_ephemeral) (auto simp: well_typed_def eph_ok_def)
  qed
qed

lemma kept_eph_delete:
  assumes "eph_delete st k i guard = Inr st'" and "well_typed st"
  shows "kept now st st'"
proof -
  from assms(1) have "st' = st \<or> st' = st\<lparr>st_ephemeral := AList.delete (k, i) (st_ephemeral st)\<rparr>"
    by (auto simp: eph_delete_def bind_r_eq_Inr split: option.splits if_splits)
  moreover have "kept now st st" using assms(2) by (simp add: kept_def preserves_refl)
  moreover have "kept now st (st\<lparr>st_ephemeral := AList.delete (k, i) (st_ephemeral st)\<rparr>)"
    using assms(2) by (intro kept_ephemeral) (auto simp: well_typed_def eph_ok_def AList.delete_eq)
  ultimately show ?thesis by metis
qed

lemmas message_kinds = MESSAGE_TX_def FINISH_TX_def OFFER_TX_def

lemma atomic_kept: "atomic sha now st st' \<Longrightarrow> well_typed st \<Longrightarrow> kept now st st'"
proof (induction rule: atomic.induct)
  case (update_session i f st x st')
  then show ?case by (rule kept_tx [OF _ lawful_update_durable]) simp_all
next
  case (resume_session i g st x st')
  then show ?case by (rule kept_tx [OF _ lawful_resume_durable]) simp_all
next
  case (close_session i f st x st')
  then show ?case by (rule kept_tx [OF _ lawful_close_durable]) simp_all
next
  case (open_session available s p w st x st')
  then show ?case unfolding open_durable_step_def by (rule kept_tx [OF _ lawful_open_durable]) simp_all
next
  case (materialise w d reason j st x st')
  then show ?case unfolding materialise_step_def
    by (rule kept_tx [OF _ lawful_materialise]) (simp_all add: EPHEMERAL_KINDS_def)
next
  case (set_intent w g intent st x st')
  then show ?case by (rule kept_tx [OF _ lawful_set_intent]) simp_all
next
  case (clear_intent i w g st x st')
  then show ?case by (rule kept_tx [OF _ lawful_clear_intent]) simp_all
next
  case (acquire input s resources batch st x st')
  show ?case
    by (rule kept_claims_tx [OF acquire(1) lawful_acquire acquire(2)]) (rule acquire_exclusive [OF acquire(1)])
next
  case (renew i s g claimId leaseSeconds st x st')
  show ?case
    by (rule kept_claims_tx [OF renew(1) lawful_renew renew(2)]) (rule renew_exclusive [OF renew(1)])
next
  case (release i g s sel authority reason st x st')
  then show ?case by (rule kept_tx [OF _ lawful_remove_claims]) (simp_all add: adds_remove_claims)
next
  case (send s minput st x st')
  then show ?case
    by (rule kept_tx [OF _ lawful_send]) (simp_all add: message_kinds receipt_order.moves_send message_order.moves_send)
next
  case (reply s rinput replyId st x st')
  then show ?case
    by (rule kept_tx [OF _ lawful_reply]) (simp_all add: message_kinds receipt_order.moves_reply [OF forward_advanceOwned]
        message_order.moves_reply [OF unedited_advanceOwned])
next
  case (finish s finput st x st')
  then show ?case
    by (rule kept_tx [OF _ lawful_finish]) (simp_all add: message_kinds receipt_order.moves_finish message_order.moves_finish adds_finish_claims)
next
  case (list_inbox s i g pinput st x st')
  then show ?case
    by (rule kept_tx [OF _ lawful_list_inbox]) (simp_all add: message_kinds receipt_order.moves_list_inbox message_order.moves_list_inbox)
next
  case (read_inbox s i g messageId st x st')
  then show ?case
    by (rule kept_tx [OF _ lawful_read_inbox]) (simp_all add: message_kinds receipt_order.moves_read_inbox [OF forward_advanceOwned]
        message_order.moves_read_inbox [OF unedited_advanceOwned])
next
  case (acknowledge s i g m st x st')
  then show ?case
    by (rule kept_tx [OF _ lawful_acknowledge]) (simp_all add: message_kinds receipt_order.moves_acknowledge [OF forward_advanceOwned]
        message_order.moves_acknowledge [OF unedited_advanceOwned])
next
  case (offer_succeeded oinput st x st')
  then show ?case
    by (rule kept_tx [OF _ lawful_offer_succeeded]) (simp_all add: message_kinds forward_offer_succeeded unedited_offer_succeeded)
next
  case (offer_failed oinput st x st')
  then show ?case
    by (rule kept_tx [OF _ lawful_offer_failed]) (simp_all add: message_kinds receipt_order.moves_offer_failed message_order.moves_offer_failed)
next
  case (read_receipt m p st x st')
  then show ?case
    by (rule kept_tx [OF _ lawful_read_receipt]) (simp_all add: receipt_order.moves_read_receipt message_order.moves_read_receipt)
next
  case (ephemeral_update st k i up x st')
  then show ?case by (rule kept_eph_update)
next
  case (ephemeral_delete st k i guard st')
  then show ?case by (rule kept_eph_delete)
next
  case (issue st n)
  then show ?case by (simp add: kept_def well_typed_def preserves_def wf_store_def log_ok_def sequences_ok_def eph_ok_def
      exclusive_at_def claims_in_def receipt_forward_refl unedited_def)
qed

section \<open>What maintenance keeps\<close>

lemma prune_keeps:
  assumes "prune_records input now pidIsAlive stop st = Inr (x, st')" and "well_typed st"
  shows "well_typed st' \<and> st_events st' = st_events st \<and> st_floor st' = st_floor st \<and> (exclusive_at st now \<longrightarrow> exclusive_at st' now)"
proof -
  from assms(1) obtain plan where "(case fold reclaim_entry (take stop (entries plan)) (st, 0) of
      (st', skipped) \<Rightarrow> Inr ((plan, skipped), st')) = (Inr (x, st') :: _ res)"
    by (auto simp: prune_records_def reclaimStateRecords_def bind_r_eq_Inr)
  then have "st' = fst (fold reclaim_entry (take stop (entries plan)) (st, 0))"
    by (cases "fold reclaim_entry (take stop (entries plan)) (st, 0)") simp
  with reclaim_sub obtain keep where st': "st' = st\<lparr>st_state := filter keep (st_state st)\<rparr>" by metis
  have distinct: "distinct (map fst (st_state st))" using assms(2) by (simp add: well_typed_def wf_store_def)
  note sub = store_map_filter [OF distinct, of keep, folded st']
  have "claims_in st' \<subseteq> claims_in st" using sub by (fastforce simp: claims_in_def)
  then have "exclusive_at st now \<longrightarrow> exclusive_at st' now" by (auto simp: exclusive_at_def subset_iff)
  moreover have "valid_map (store_map st')" using sub assms(2) unfolding valid_map_def well_typed_def by meson
  ultimately show ?thesis using assms(2) distinct_map_filter [OF distinct]
    by (auto simp: st' well_typed_def wf_store_def log_ok_def sequences_ok_def eph_ok_def)
qed

lemma trim_keeps:
  assumes "trimEventLog stop boundary st = Inr (t, st')" and "well_typed st"
  shows "well_typed st' \<and> store_map st' = store_map st \<and> (exclusive_at st now \<longrightarrow> exclusive_at st' now)"
proof -
  from trim_shape [OF assms(1)] obtain n where st': "st' = st\<lparr>st_floor := Some t, st_events := drop n (st_events st)\<rparr>" by blast
  have map: "store_map st' = store_map st" by (rule ext) (simp add: st' store_map_def)
  have "ascending (map e_sequence (st_events st'))"
    using assms(2) by (auto simp: well_typed_def wf_store_def ascending_def st' drop_map [symmetric] sorted_wrt_drop)
  with assms(2) map show ?thesis
    by (auto simp: st' well_typed_def wf_store_def log_ok_def sequences_ok_def eph_ok_def exclusive_at_def claims_in_def dest: in_set_dropD)
qed

section \<open>Every run of the system\<close>

definition sys_ok :: "time \<times> store \<Rightarrow> bool" where
  "sys_ok = (\<lambda>(now, st). well_typed st \<and> exclusive_at st now)"

lemma sys_step_ok:
  assumes "sys_step sha pidIsAlive a b" and "sys_ok a"
  shows "sys_ok b"
  using assms
proof (cases rule: sys_step.cases)
  case (tick now later st)
  with assms(2) show ?thesis by (auto simp: sys_ok_def intro: exclusive_later)
next
  case (call now st st')
  with assms(2) atomic_kept [OF call(3)] show ?thesis by (simp add: sys_ok_def kept_def)
next
  case (prune input now stop st x st')
  with assms(2) prune_keeps [OF prune(3)] show ?thesis by (simp add: sys_ok_def)
next
  case (trim stop boundary st x st' now)
  with assms(2) trim_keeps [OF trim(3), of now] show ?thesis by (simp add: sys_ok_def)
qed

lemma run_ok: "(sys_step sha pidIsAlive)\<^sup>*\<^sup>* a b \<Longrightarrow> sys_ok a \<Longrightarrow> sys_ok b"
  by (induction rule: rtranclp_induct) (auto intro: sys_step_ok)

lemma fresh_ok: "sys_ok (now, fresh_store w ids)"
  by (simp add: sys_ok_def fresh_store_def well_typed_def wf_store_def valid_map_def store_map_def log_ok_def sequences_ok_def
      eph_ok_def exclusive_at_def claims_in_def ascending_def)

text \<open>
  C4. Every record, durable or ephemeral, and every event that any run of the system leaves behind
  passes the checks of its kind; each record is of the kind it is filed under; the sequences
  of the log strictly ascend and stay safe integers.
\<close>

theorem every_run_is_well_typed:
  assumes "(sys_step sha pidIsAlive)\<^sup>*\<^sup>* (start, fresh_store w ids) (now, st)"
  shows "(\<forall>k i r g. store_map st (k, i) = Some (r, g) \<longrightarrow> validate k r = Inr () \<and> kind_of r = k)
    \<and> (\<forall>((k, i), r) \<in> set (st_ephemeral st). validate k r = Inr ())
    \<and> (\<forall>e \<in> set (st_events st). validate_event e = Inr () \<and> int (e_sequence e) \<le> MAX_SAFE_INTEGER)
    \<and> ascending (map e_sequence (st_events st))"
proof -
  have "well_typed st" using run_ok [OF assms fresh_ok] by (simp add: sys_ok_def)
  then have "valid_map (store_map st)" "wf_store st" "log_ok st" "sequences_ok st" "eph_ok st" by (auto simp: well_typed_def)
  then show ?thesis
    by (auto simp: valid_map_def wf_store_def log_ok_def sequences_ok_def eph_ok_def dest: validate_kind)
qed

text \<open>
  C1. Exclusive claims are exclusive in every run: however processes interleave, lapse, take over,
  release, finish or prune, two live claims of different sessions on overlapping resources
  are both shared.
\<close>

theorem claims_stay_exclusive:
  assumes "(sys_step sha pidIsAlive)\<^sup>*\<^sup>* (start, fresh_store w ids) (now, st)"
    and "store_map st (Claim, i) = Some (ClaimR c, g)" and "store_map st (Claim, j) = Some (ClaimR d, h)"
    and "c_expiresAt c > now" and "c_expiresAt d > now" and "c_ownerSessionId c \<noteq> c_ownerSessionId d"
    and "overlaps (c_resource c) (c_resource d)"
  shows "c_mode c = ''shared'' \<and> c_mode d = ''shared''"
proof -
  have ok: "well_typed st" "exclusive_at st now" using run_ok [OF assms(1) fresh_ok] by (simp_all add: sys_ok_def)
  have "c \<in> claims_in st" "d \<in> claims_in st" using assms(2, 3) by (auto simp: claims_in_def)
  with ok(2) assms(4 - 7) have "c_mode c \<noteq> ''exclusive''" "c_mode d \<noteq> ''exclusive''"
    by (auto simp: exclusive_at_def compatible_def isLive_def)
  moreover have "validate Claim (ClaimR c) = Inr ()" "validate Claim (ClaimR d) = Inr ()"
    using ok(1) assms(2, 3) by (auto simp: well_typed_def valid_map_def)
  ultimately show ?thesis by (auto simp: validate_claim_iff CLAIM_MODES_def)
qed

section \<open>Operations are sequences of atomic calls\<close>

lemma atomic_refl: "atomic sha now st st"
  using atomic.issue [of sha now st "st_issued st"] by simp

definition calls :: "(string \<Rightarrow> nat list) \<Rightarrow> time set \<Rightarrow> store \<Rightarrow> store \<Rightarrow> bool" where
  "calls sha readings st st' \<longleftrightarrow> (\<exists>now \<in> readings. atomic sha now st st')"

lemma callsI: "atomic sha now st st' \<Longrightarrow> now \<in> readings \<Longrightarrow> calls sha readings st st'"
  by (auto simp: calls_def)

lemma within_fresh_s [within_intros]: "now \<in> readings \<Longrightarrow> within (calls sha readings) (fresh_s label)"
  by (rule within_fresh) (auto intro: callsI atomic.issue)

text \<open>An update of an ephemeral record is one call of the store, whatever its callback decides.\<close>

lemma ephemeral_atomic:
  "update_ephemeral i f st = Inr (x1, st') \<Longrightarrow> atomic sha now st st'" "close_ephemeral i c st = Inr (x1, st') \<Longrightarrow> atomic sha now st st'"
  "drop_intent i st = Inr (x3, st') \<Longrightarrow> atomic sha now st st'" "retire_copy k i st = Inr (x3, st') \<Longrightarrow> atomic sha now st st'"
  "open_participant w p st = Inr (x3, st') \<Longrightarrow> atomic sha now st st'" "open_ephemeral a w s st = Inr (x1, st') \<Longrightarrow> atomic sha now st st'"
  "set_ephemeral w g intent st = Inr (x4, st') \<Longrightarrow> atomic sha now st st'" "clear_ephemeral i w g st = Inr (x5, st') \<Longrightarrow> atomic sha now st st'"
  "publish_step bi st = Inr (x3, st') \<Longrightarrow> atomic sha now st st'" "clear_step i g endpoint t st = Inr (x3, st') \<Longrightarrow> atomic sha now st st'"
  "refresh_step i g lease st = Inr (x3, st') \<Longrightarrow> atomic sha now st st'"
  by (auto simp: update_ephemeral_def close_ephemeral_def drop_intent_def retire_copy_def open_participant_def open_ephemeral_def
      set_ephemeral_def clear_ephemeral_def publish_step_def clear_step_def refresh_step_def bind_r_eq_Inr atomic_refl
      intro: atomic.ephemeral_update atomic.ephemeral_delete split: option.splits if_splits)

lemma within_call:
  "(\<And>st x st'. f st = Inr (x, st') \<Longrightarrow> atomic sha now st st') \<Longrightarrow> now \<in> readings \<Longrightarrow> within (calls sha readings) (step_s f)"
  by (rule within_step) (auto intro: callsI)

lemma within_sessions:
  assumes "now \<in> readings"
  shows "within (calls sha readings) (update_session i up)" "within (calls sha readings) (resumeSession i w g md now)"
    "within (calls sha readings) (closeSession i w g reason now)" "within (calls sha readings) (materialise v d why j now)"
    "within (calls sha readings) (ensureMaterialised v d why now)"
proof -
  show "within (calls sha readings) (update_session i up)" "within (calls sha readings) (resumeSession i w g md now)"
    "within (calls sha readings) (closeSession i w g reason now)"
    unfolding update_session_def resumeSession_def closeSession_def
    by (intro within_intros within_call [OF _ assms]; blast intro: ephemeral_atomic atomic.intros)+
  have "within (calls sha readings) (case x of ((k, _), rs) \<Rightarrow> each_s (\<lambda>r. step_s (retire_copy k (entity_key r))) rs)"
    for x :: "(kind \<times> string option) \<times> entity list"
    by (cases x) (auto intro!: within_intros within_call [OF _ assms] intro: ephemeral_atomic(4))
  then show "within (calls sha readings) (materialise v d why j now)" for v d why j
    unfolding materialise_def
    by (intro within_intros within_call [OF _ assms]) (auto intro: atomic.intros)
  then show "within (calls sha readings) (ensureMaterialised v d why now)"
    unfolding ensureMaterialised_def by (intro within_intros)
qed

lemma within_open:
  assumes "now \<in> readings" and "later \<in> readings"
  shows "within (calls sha readings) (openSession input probe pidIsAlive d now later)"
  unfolding openSession_def
  by (intro within_intros within_fresh_s [OF assms(1)] within_sessions(4) [OF assms(2)] within_call [OF _ assms(1)])
    (auto intro: ephemeral_atomic atomic.intros)

lemma within_bindings:
  assumes "now \<in> readings"
  shows "within (calls sha readings) (publishDeliveryBinding bi)" "within (calls sha readings) (clearDeliveryBinding i g endpoint t)"
    "within (calls sha readings) (refreshDeliveryBinding i g lease)"
  unfolding publishDeliveryBinding_def clearDeliveryBinding_def refreshDeliveryBinding_def
  by (intro within_intros within_call [OF _ assms]; blast intro: ephemeral_atomic)+

lemma within_intents:
  assumes "now \<in> readings"
  shows "within (calls sha readings) (setIntent input now)" "within (calls sha readings) (clearIntent i w g now)"
  unfolding setIntent_def clearIntent_def Let_def
  by (intro within_intros within_call [OF _ assms]; blast intro: ephemeral_atomic atomic.intros)+

lemma within_claims:
  assumes "earlier \<in> readings" and "now \<in> readings"
  shows "within (calls sha readings) (acquire input names batch d earlier now)"
    "within (calls sha readings) (renewClaim i w g claimId lease now)"
    "within (calls sha readings) (removeClaims i w g sel authority reason now)"
  unfolding acquire_def renewClaim_def removeClaims_def
  by (intro within_intros within_sessions(5) [OF assms(1)] within_call [OF _ assms(2)]; blast intro: atomic.intros)+

lemma within_finish_outcome:
  "(\<And>m c. within R (h m c)) \<Longrightarrow> (\<And>m released closed. within R (f m released closed)) \<Longrightarrow>
     within R (case x of FinishRetry m current \<Rightarrow> h m current | Finished m released closed \<Rightarrow> f m released closed)"
  by (cases x) simp_all

lemma within_messages:
  assumes "earlier \<in> readings" and "now \<in> readings"
  shows "within (calls sha readings) (sendMessage sha i w g m d earlier now)"
    "within (calls sha readings) (finishSession sha i w g fi d earlier now)"
    "within (calls sha readings) (replyToMessage sha i w g ri now)"
proof -
  show "within (calls sha readings) (sendMessage sha i w g m d earlier now)" "within (calls sha readings) (replyToMessage sha i w g ri now)"
    unfolding sendMessage_def replyToMessage_def
    by (intro within_intros within_fresh_s [OF assms(2)] within_sessions(5) [OF assms(1)] within_call [OF _ assms(2)]; blast intro: atomic.intros)+
  show "within (calls sha readings) (finishSession sha i w g fi d earlier now)"
    unfolding finishSession_def
    by (intro within_intros within_finish_outcome within_sessions(5) [OF assms(1)] within_call [OF _ assms(2)]; blast intro: atomic.intros)
qed

lemma within_inbox:
  assumes "now \<in> readings"
  shows "within (calls sha readings) (listInbox sha i w g pinput)" "within (calls sha readings) (readInbox sha i w g mid now)"
    "within (calls sha readings) (acknowledgeMessage sha i w g m now)" "within (calls sha readings) (recordOfferSucceeded sha oi now)"
    "within (calls sha readings) (recordOfferFailed sha oi now)" "within (calls sha readings) (readReceipt sha m p)"
  unfolding listInbox_def readInbox_def acknowledgeMessage_def recordOfferSucceeded_def recordOfferFailed_def readReceipt_def
  by (intro within_intros within_call [OF _ assms]; blast intro: atomic.intros)+

lemmas within_services = within_open within_sessions within_bindings within_intents within_claims within_messages within_inbox

text \<open>
  The operations of the services are such sequences, also when they end in an error, so that what every
  call keeps, they keep. The clock readings an operation takes are the times of its calls.
\<close>

lemma operations_are_atomic_calls:
  "within (calls sha {now, later}) (openSession input probe pidIsAlive d now later)
   \<and> within (calls sha {now}) (heartbeatSession i w g now) \<and> within (calls sha {now}) (recordNotices i w g ids)
   \<and> within (calls sha {now}) (resumeSession i w g md now)
   \<and> within (calls sha {now, later}) (service_closeSession i w g endReason now later)
   \<and> within (calls sha {now}) (setIntent intent now) \<and> within (calls sha {now}) (clearIntent i w g now)
   \<and> within (calls sha {now, later}) (acquireClaim ci resource d now later)
   \<and> within (calls sha {now, later}) (acquireClaims ci resources d now later)
   \<and> within (calls sha {now}) (renewClaim i w g claimId lease now)
   \<and> within (calls sha {now}) (releaseClaims i w g ri now) \<and> within (calls sha {now}) (releaseClaim i w g claimId now)
   \<and> within (calls sha {now}) (forceReleaseClaim i w g claimId authority reason now)
   \<and> within (calls sha {now, later}) (sendMessage sha i w g mi d now later)
   \<and> within (calls sha {now, later}) (finishSession sha i w g fi d now later)
   \<and> within (calls sha {now}) (replyToMessage sha i w g reply_in now)
   \<and> within (calls sha {now}) (listInbox sha i w g pinput) \<and> within (calls sha {now}) (readInbox sha i w g mid now)
   \<and> within (calls sha {now}) (acknowledgeMessage sha i w g m now)
   \<and> within (calls sha {now}) (recordOfferSucceeded sha oi now) \<and> within (calls sha {now}) (recordOfferFailed sha oi now)
   \<and> within (calls sha {now}) (readReceipt sha m p)
   \<and> within (calls sha {now}) (publishDeliveryBinding bi) \<and> within (calls sha {now}) (clearDeliveryBinding i g endpoint t)
   \<and> within (calls sha {now}) (refreshDeliveryBinding i g leaseUntil)"
  unfolding heartbeatSession_def recordNotices_def service_closeSession_def acquireClaim_def acquireClaims_def releaseClaims_def
    releaseClaim_def forceReleaseClaim_def
  by (intro conjI within_intros within_services) (rule insertI1 | simp)+

text \<open>
  C3. The record is kept: from any state a run can reach, whatever calls of the services follow,
  the log is only appended to, a message stays as it was written, and a receipt stays and
  names what it named while its state only moves forward.
\<close>

theorem services_keep_the_record:
  assumes "(sys_step sha pidIsAlive)\<^sup>*\<^sup>* (start, fresh_store w ids) (now, st)" and "(calls sha UNIV)\<^sup>*\<^sup>* st st'"
  shows "(\<exists>es. st_events st' = st_events st @ es)
    \<and> (\<forall>i m g. store_map st (Message, i) = Some (MessageR m, g) \<longrightarrow> (\<exists>g'. store_map st' (Message, i) = Some (MessageR m, g')))
    \<and> (\<forall>i r g. store_map st (Receipt, i) = Some (ReceiptR r, g) \<longrightarrow> (\<exists>r' g'. store_map st' (Receipt, i) = Some (ReceiptR r', g')
        \<and> r_messageId r' = r_messageId r \<and> r_recipientParticipantId r' = r_recipientParticipantId r
        \<and> state_forward (r_state r) (r_state r')))"
proof -
  have typed: "well_typed st" using run_ok [OF assms(1) fresh_ok] by (simp add: sys_ok_def)
  from assms(2) have "well_typed st' \<and> preserves st st'"
  proof (induction rule: rtranclp_induct)
    case base
    show ?case by (simp add: typed preserves_refl)
  next
    case (step su sv)
    then obtain t where "atomic sha t su sv" by (auto simp: calls_def)
    with atomic_kept step.IH have "kept t su sv" by blast
    with step.IH show ?case by (auto simp: kept_def intro: preserves_trans)
  qed
  then have kept: "\<exists>es. st_events st' = st_events st @ es"
    and receipts: "\<And>i. receipt_forward (map_option fst (store_map st (Receipt, i))) (map_option fst (store_map st' (Receipt, i)))"
    and messages: "\<And>i. unedited (map_option fst (store_map st (Message, i))) (map_option fst (store_map st' (Message, i)))"
    by (simp_all add: preserves_def)
  have "\<exists>r' g'. store_map st' (Receipt, i) = Some (ReceiptR r', g') \<and> same_receipt r r' \<and> state_forward (r_state r) (r_state r')"
    if "store_map st (Receipt, i) = Some (ReceiptR r, g)" for i r g
    using receipts [of i] that by (cases "store_map st' (Receipt, i)"; cases "fst (the (store_map st' (Receipt, i)))") auto
  moreover have "\<exists>g'. store_map st' (Message, i) = Some (MessageR m, g')" if "store_map st (Message, i) = Some (MessageR m, g)" for i m g
    using messages [of i] that by (auto simp: unedited_def)
  ultimately show ?thesis using kept by (fastforce simp: same_receipt_def)
qed

section \<open>A concrete run\<close>

text \<open>Two sessions open and both claim one file, shared.\<close>

definition run_ids :: "string \<Rightarrow> nat \<Rightarrow> id" where
  "run_ids label n = (if label = ''claim'' then if n < 10 then ''c1'' else ''c2'' else if label = ''generation'' then ''g'' else label)"

definition run_store :: "nat \<Rightarrow> ((kind \<times> id) \<times> entity) list \<Rightarrow> event list \<Rightarrow> store" where
  "run_store n recs es = (fresh_store ''w'' run_ids)\<lparr>st_issued := n,
     st_state := map (\<lambda>(key, r). (key, \<lparr>v_generation = ''g'', v_record = r\<rparr>)) recs, st_events := es\<rparr>"

definition run_participant :: "id \<Rightarrow> participant" where
  "run_participant i = \<lparr>p_participantId = i, p_workspaceId = ''w'', p_displayName = ''work'', p_kind = ''agent'', p_createdAt = 0\<rparr>"

definition run_event :: "nat \<Rightarrow> id \<Rightarrow> string \<Rightarrow> fields \<Rightarrow> event" where
  "run_event n actor type kvs = \<lparr>e_sequence = n, e_eventId = ''event'', e_workspaceId = ''w'', e_actorSessionId = actor,
     e_type = type, e_occurredAt = 0, e_payload = kvs\<rparr>"

definition share :: "id \<Rightarrow> claim_input" where
  "share i = \<lparr>ci_sessionId = i, ci_workspaceId = None, ci_generation = ''g'', ci_leaseSeconds = Some 60, ci_mode = Some ''shared'',
     ci_enforcement = Some ''guarded'', ci_reason = ''work''\<rparr>"

abbreviation joined :: "id \<Rightarrow> id \<Rightarrow> ((kind \<times> id) \<times> entity) list" where
  "joined i p \<equiv> [((Participant, p), ParticipantR (run_participant p)), ((Session, i), SessionR (sample_session i p ''g''))]"
abbreviation opened :: "nat \<Rightarrow> id \<Rightarrow> event" where
  "opened n i \<equiv> run_event n i ''session.opened'' [(''replaced'', JNull)]"
abbreviation shared_claim :: "id \<Rightarrow> id \<Rightarrow> claim" where
  "shared_claim c i \<equiv> sample_claim c i ''file:a'' ''shared'' 60000"
abbreviation taken :: "nat \<Rightarrow> id \<Rightarrow> id \<Rightarrow> event" where
  "taken n i c \<equiv> run_event n i ''claim.acquired'' [(''claimId'', JStr c), (''resource'', JStr ''file:a''), (''mode'', JStr ''shared'')]"

lemma run_participant_valid: "portable_id i \<Longrightarrow> validate Participant (ParticipantR (run_participant i)) = Inr ()"
  by (simp add: validate_iffs run_participant_def sample_facts)

lemma run_fields:
  "st_ids (run_store n recs es) = run_ids" "st_issued (run_store n recs es) = n" "st_events (run_store n recs es) = es"
  "st_floor (run_store n recs es) = None" "e_sequence (run_event k a t p) = k" "p_participantId (run_participant i) = i"
  "st_state (run_store n recs es) = map (\<lambda>(key, r). (key, \<lparr>v_generation = ''g'', v_record = r\<rparr>)) recs"
  "run_ids ''generation'' k = ''g''" "run_ids ''event'' k = ''event''"
  by (simp_all add: run_store_def fresh_store_def run_event_def run_participant_def run_ids_def)

lemma run_participant_workspace: "p_workspaceId (run_participant i) = ''w''"
  by (simp add: run_participant_def)

lemmas open_eval = open_durable_step_def open_durable_def put_new_participant_def put_opened_def append_event_def nullable_json_def
  transaction_def begin_eval tx_eval commit_eval published_def publish_entry_def

lemma run_orders:
  "locale_key ''s1.json'' \<le> locale_key ''s2.json''" "\<not> locale_key ''s2.json'' \<le> locale_key ''s1.json''"
  "locale_key ''c1.json'' \<le> locale_key ''c2.json''" "toISOString 60000 = Inr (to_iso 60000)"
  "overlaps ''file:a'' ''file:a''" "length (pad 3) = 16 \<and> list_all is_digit (pad 3)" "length (pad 4) = 16 \<and> list_all is_digit (pad 4)" "portable_id ''c2''"
  by code_simp+

lemma run_claim:
  "\<lparr>c_claimId = i, c_workspaceId = ''w'', c_ownerSessionId = s, c_resource = r, c_mode = m, c_enforcement = ''guarded'',
     c_reason = ''work'', c_acquiredAt = 0, c_expiresAt = t, c_generation = ''g''\<rparr> = sample_claim i s r m t"
  by (simp add: sample_claim_def)

lemma run_claim_ids: "n < 10 \<Longrightarrow> run_ids ''claim'' n = ''c1''" "10 \<le> n \<Longrightarrow> run_ids ''claim'' n = ''c2''"
  by (simp_all add: run_ids_def)

lemmas acquire_eval = acquire_tx_def requireOwner_t_def owner_error_def lease_end_def claims_t_def claim_conflicts_def
  conflicting_def claim_record_def write_claim_def isLive_def or_else_def

lemmas run_eval = run_orders run_claim run_claim_ids run_fields run_participant_valid run_participant_workspace sample_facts EVENT_TYPES_def CLAIM_MODES_def

lemmas run_records = run_store_def run_event_def fresh_store_def

abbreviation run_1 :: store where
  "run_1 \<equiv> run_store 4 (joined ''s1'' ''alice'') [opened 1 ''s1'']"

abbreviation run_2 :: store where
  "run_2 \<equiv> run_store 8 (joined ''s1'' ''alice'' @ joined ''s2'' ''bob'') [opened 1 ''s1'', opened 2 ''s2'']"

abbreviation run_3 :: store where
  "run_3 \<equiv> run_store 13 (joined ''s1'' ''alice'' @ joined ''s2'' ''bob'' @ [((Claim, ''c1''), ClaimR (shared_claim ''c1'' ''s1''))])
     [opened 1 ''s1'', opened 2 ''s2'', taken 3 ''s1'' ''c1'']"

abbreviation run_4 :: store where
  "run_4 \<equiv> run_store 18 (joined ''s1'' ''alice'' @ joined ''s2'' ''bob''
     @ [((Claim, ''c1''), ClaimR (shared_claim ''c1'' ''s1'')), ((Claim, ''c2''), ClaimR (shared_claim ''c2'' ''s2''))])
     [opened 1 ''s1'', opened 2 ''s2'', taken 3 ''s1'' ''c1'', taken 4 ''s2'' ''c2'']"

lemma open_first:
  "open_durable_step (\<lambda>_. Inr ()) (sample_session ''s1'' ''alice'' ''g'') (run_participant ''alice'') ''w'' 0 (fresh_store ''w'' run_ids)
     = Inr (sample_session ''s1'' ''alice'' ''g'', run_1)"
proof -
  have "fresh_store ''w'' run_ids = run_store 0 [] []" by (simp add: run_records)
  then show ?thesis by (simp add: open_eval run_eval) (simp add: run_records)
qed

lemma open_second:
  "open_durable_step (\<lambda>_. Inr ()) (sample_session ''s2'' ''bob'' ''g'') (run_participant ''bob'') ''w'' 0 run_1
     = Inr (sample_session ''s2'' ''bob'' ''g'', run_2)"
  by (simp add: open_eval run_eval) (simp add: run_records)

lemma acquire_first:
  "transaction (Some [Session, Claim]) [] (acquire_tx (share ''s1'') (sample_session ''s1'' ''alice'' ''g'') [''file:a''] False 0) run_2
     = Inr ([shared_claim ''c1'' ''s1''], run_3)"
  by (simp add: acquire_eval open_eval run_eval share_def) (simp add: run_records)

lemma acquire_second:
  "transaction (Some [Session, Claim]) [] (acquire_tx (share ''s2'') (sample_session ''s2'' ''bob'' ''g'') [''file:a''] False 0) run_3
     = Inr ([shared_claim ''c2'' ''s2''], run_4)"
  by (simp add: acquire_eval open_eval run_eval share_def) (simp add: run_records)

lemma claiming: "atomic sha 0 run_2 run_3" "atomic sha 0 run_3 run_4"
  by (rule atomic.acquire [OF acquire_first], rule atomic.acquire [OF acquire_second])

lemma concrete_run:
  "(sys_step sha pidIsAlive)\<^sup>*\<^sup>* (0, fresh_store ''w'' run_ids) (0, run_2)"
  "(sys_step sha pidIsAlive)\<^sup>*\<^sup>* (0, fresh_store ''w'' run_ids) (0, run_4)"
proof -
  let ?R = "sys_step sha pidIsAlive"
  have "?R (0, fresh_store ''w'' run_ids) (0, run_1)" "?R (0, run_1) (0, run_2)"
    by (rule sys_step.call [OF atomic.open_session [OF open_first]], rule sys_step.call [OF atomic.open_session [OF open_second]])
  then show two: "?R\<^sup>*\<^sup>* (0, fresh_store ''w'' run_ids) (0, run_2)" by (meson rtranclp.rtrancl_into_rtrancl rtranclp.rtrancl_refl)
  have "?R\<^sup>*\<^sup>* (0, fresh_store ''w'' run_ids) (0, run_3)" using two sys_step.call [OF claiming(1)] by (rule rtranclp.rtrancl_into_rtrancl)
  then show "?R\<^sup>*\<^sup>* (0, fresh_store ''w'' run_ids) (0, run_4)" using sys_step.call [OF claiming(2)] by (rule rtranclp.rtrancl_into_rtrancl)
qed

theorem claims_stay_exclusive_witness:
  "c_mode (shared_claim ''c1'' ''s1'') = ''shared'' \<and> c_mode (shared_claim ''c2'' ''s2'') = ''shared''"
proof -
  have "store_map run_4 (Claim, ''c1'') = Some (ClaimR (shared_claim ''c1'' ''s1''), ''g'')"
    "store_map run_4 (Claim, ''c2'') = Some (ClaimR (shared_claim ''c2'' ''s2''), ''g'')"
    by (simp_all add: store_map_def run_fields)
  from claims_stay_exclusive [OF concrete_run(2) [of "\<lambda>_. []" "\<lambda>_. True"] this] show ?thesis by (simp add: run_orders sample_facts)
qed

theorem every_run_is_well_typed_witness: "validate_event (taken 4 ''s2'' ''c2'') = Inr ()"
proof -
  have "taken 4 ''s2'' ''c2'' \<in> set (st_events run_4)" by (simp add: run_fields)
  with every_run_is_well_typed [OF concrete_run(2) [of "\<lambda>_. []" "\<lambda>_. True"]] show ?thesis by blast
qed

theorem services_keep_the_record_witness: "\<exists>es. st_events run_4 = st_events run_2 @ es"
proof -
  have "calls (\<lambda>_. []) UNIV run_2 run_3" "calls (\<lambda>_. []) UNIV run_3 run_4" by (rule callsI [OF claiming(1)], simp, rule callsI [OF claiming(2)], simp)
  then have "(calls (\<lambda>_. []) UNIV)\<^sup>*\<^sup>* run_2 run_4" by (meson rtranclp.rtrancl_into_rtrancl rtranclp.rtrancl_refl)
  from services_keep_the_record [OF concrete_run(1) this] show ?thesis by (rule conjunct1)
qed

end
