(* ===== verification/Disk.thy ===== *)
theory Disk
  imports Store
begin

text \<open>
  The files under a store's root and the programs that write them. A file is named by what its
  path is made of and holds the value its bytes encode. A program returns its result together with
  the disks its writes led through, in order: a process that stops anywhere leaves the disk it
  started from or one of these. The stages and temporaries that \<open>publishAtomic\<close> keeps beside a file
  are never read back and are left out.
\<close>

section \<open>Paths and contents\<close>

datatype file_path = StatePath kind id | EventPath nat | MarkerPath kind id id | EntryPath id | ActivePath nat | FloorPath | IdentityPath

fun path_string :: "file_path \<Rightarrow> string" where
  "path_string (StatePath k i) = ''state/'' @ kind_name k @ ''/'' @ i @ ''.json''"
| "path_string (EventPath n) = ''events/'' @ pad n @ ''.json''"
| "path_string (MarkerPath k i g) = ''retained/state/'' @ kind_name k @ ''/'' @ i @ ''/'' @ g @ ''.json''"
| "path_string (EntryPath i) = ''journal/'' @ i @ ''.json''"
| "path_string (ActivePath n) = ''journal/active.'' @ (if n = 0 then ''0'' else ''1'')"
| "path_string FloorPath = ''locks/retention.json''"
| "path_string IdentityPath = ''protocol.json''"

datatype file_body =
    StateBody kind id envelope
  | EventBody event
  | MarkerBody kind id id

record publication =
  pub_path :: file_path
  pub_bytes :: file_body
  pub_replace :: bool
  pub_retainedPath :: "file_path option"

record journal_entry =
  je_journalVersion :: nat
  je_transactionId :: id
  je_firstSequence :: nat
  je_startedAt :: time
  je_publications :: "publication list"

datatype active_state = Idle | Open id nat

record active_record =
  ar_activeJournalVersion :: nat
  ar_generation :: nat
  ar_previousChecksum :: "string option"
  ar_state :: active_state

text \<open>A store's identity; the instant it was initialised is \<open>None\<close> when the text there is not a time.\<close>

record identity =
  si_storeVersion :: nat
  si_workspaceId :: id
  si_initialisedAt :: "time option"

text \<open>\<open>Other\<close> is a file whose bytes decode to none of these.\<close>

datatype content =
    Body file_body
  | EntryFile journal_entry
  | AuthorityFile string active_record
  | FloorFile nat
  | IdentityFile identity
  | Other string

type_synonym disk = "(file_path \<times> content) list"

section \<open>Programs that write\<close>

type_synonym 'a fio = "disk \<Rightarrow> 'a res \<times> disk list"

definition final :: "disk \<Rightarrow> disk list \<Rightarrow> disk" where
  "final d ds = last (d # ds)"

definition lift_f :: "'a res \<Rightarrow> 'a fio" where
  "lift_f r d = (r, [])"

definition return_f :: "'a \<Rightarrow> 'a fio" where
  "return_f x = lift_f (Inr x)"

definition read_f :: "(disk \<Rightarrow> 'a res) \<Rightarrow> 'a fio" where
  "read_f g d = (g d, [])"

definition bind_f :: "'a fio \<Rightarrow> ('a \<Rightarrow> 'b fio) \<Rightarrow> 'b fio" where
  "bind_f m f d = (case m d of
     (Inl e, ds) \<Rightarrow> (Inl e, ds)
   | (Inr x, ds) \<Rightarrow> (case f x (final d ds) of (r, es) \<Rightarrow> (r, ds @ es)))"

definition catch_f :: "exit_code \<Rightarrow> 'a fio \<Rightarrow> 'a \<Rightarrow> 'a fio" where
  "catch_f code m x d = (case m d of
     (Inl (AccError c msg), ds) \<Rightarrow> if c = code then (Inr x, ds) else (Inl (AccError c msg), ds)
   | r \<Rightarrow> r)"

definition write_f :: "file_path \<Rightarrow> content \<Rightarrow> unit fio" where
  "write_f p c d = (Inr (), [AList.update p c d])"

section \<open>publishAtomic\<close>

datatype outcome = Published | Already_published

definition publishAtomic :: "file_path \<Rightarrow> content \<Rightarrow> bool \<Rightarrow> outcome fio" where
  "publishAtomic destination bytes overwrite =
     bind_f (read_f (\<lambda>d. if overwrite then Inr None else case map_of d destination of
         None \<Rightarrow> Inr None
       | Some existing \<Rightarrow> if existing = bytes then Inr (Some Already_published)
           else Inl (AccError CONFLICT ''record already published with different bytes''))) (\<lambda>settled.
     case settled of
       Some outcome \<Rightarrow> return_f outcome
     | None \<Rightarrow> bind_f (write_f destination bytes) (\<lambda>_. return_f Published))"

section \<open>Laws of programs\<close>

lemma final_simps [simp]: "final d [] = d" "final d (ds @ [e]) = e" "final d [e] = e"
  by (simp_all add: final_def)

lemma final_append [simp]: "final d (ds @ es) = final (final d ds) es"
  by (simp add: final_def)

lemma final_mem: "final d ds \<in> set (d # ds)"
  unfolding final_def by (rule last_in_set) simp

lemma lift_f_eq [simp]: "lift_f r d = (r, [])" "return_f x d = (Inr x, [])" "read_f g d = (g d, [])"
  by (simp_all add: lift_f_def return_f_def read_f_def)

lemma bind_f_ok:
  "m d = (Inr x, ds) \<Longrightarrow> f x (final d ds) = (r, es) \<Longrightarrow> bind_f m f d = (r, ds @ es)"
  by (simp add: bind_f_def)

lemma bind_f_lift [simp]: "bind_f (lift_f (Inr x)) f d = f x d" "bind_f (lift_f (Inl e)) f d = (Inl e, [])"
  "bind_f (return_f x) f d = f x d"
  by (simp_all add: bind_f_def return_f_def split: prod.splits)

lemma bind_f_read: "bind_f (read_f g) f d = (case g d of Inl e \<Rightarrow> (Inl e, []) | Inr x \<Rightarrow> f x d)"
  by (auto simp: bind_f_def split: sum.splits prod.splits)

lemma publishAtomic_eq:
  "publishAtomic p c overwrite d =
     (if overwrite \<or> map_of d p = None then (Inr Published, [AList.update p c d])
      else if map_of d p = Some c then (Inr Already_published, [])
      else (Inl (AccError CONFLICT ''record already published with different bytes''), []))"
  by (auto simp: publishAtomic_def bind_f_def write_f_def split: option.splits)

text \<open>
  Publishing is idempotent, and a file that is already there unchanged is accepted: what is on the
  disk afterwards does not depend on whether it was published before.
\<close>

lemma publishAtomic_ok:
  assumes "overwrite \<or> map_of d p = None \<or> map_of d p = Some c"
  shows "\<exists>out ds. publishAtomic p c overwrite d = (Inr out, ds) \<and> map_of (final d ds) = (map_of d)(p \<mapsto> c)
    \<and> (\<forall>e \<in> set ds. map_of e = (map_of d)(p \<mapsto> c))"
  using assms by (cases "overwrite \<or> map_of d p = None") (auto simp: publishAtomic_eq update_conv' fun_upd_idem)

lemma find_fresh_key: "f x \<notin> f ` set xs \<Longrightarrow> find (\<lambda>y. f y = f x) xs = None"
  unfolding find_None_iff by (metis imageI)

section \<open>Redoing an interrupted sequence of writes\<close>

locale redo =
  fixes get :: "'d \<Rightarrow> 'k \<Rightarrow> 'v option" and put :: "'p \<Rightarrow> 'd \<Rightarrow> 'd" and target :: "'p \<Rightarrow> 'k" and val :: "'p \<Rightarrow> 'v"
  assumes get_put: "get (put p d) k = (if k = target p then Some (val p) else get d k)"
begin

definition all_put :: "'p list \<Rightarrow> 'd \<Rightarrow> 'd" where
  "all_put ps d = fold put ps d"

lemma get_all_put:
  assumes "distinct (map target ps)"
  shows "get (all_put ps d) k = (case find (\<lambda>p. target p = k) ps of Some p \<Rightarrow> Some (val p) | None \<Rightarrow> get d k)"
  using assms
proof (induction ps arbitrary: d)
  case (Cons p ps)
  have "find (\<lambda>q. target q = k) ps = None" if "target p = k"
    using Cons.prems that by (metis distinct.simps(2) find_fresh_key list.simps(9) set_map)
  with Cons show ?case by (auto simp: all_put_def get_put split: option.splits)
qed (simp add: all_put_def)

lemma redo_prefix:
  assumes "distinct (map target ps)" and "\<And>k. get e k = get (all_put (take n ps) d) k"
  shows "get (all_put ps e) k = get (all_put ps d) k"
proof -
  have part: "distinct (map target (take n ps))" using assms(1) by (metis distinct_take take_map)
  have "get e k = get d k" if "find (\<lambda>p. target p = k) ps = None"
  proof -
    from that have "find (\<lambda>p. target p = k) (take n ps) = None" by (auto simp: find_None_iff dest: in_set_takeD)
    then show ?thesis by (simp add: assms(2) get_all_put [OF part])
  qed
  then show ?thesis by (simp add: get_all_put [OF assms(1)] split: option.splits)
qed

end

definition put_publication :: "publication \<Rightarrow> disk \<Rightarrow> disk" where
  "put_publication p d = AList.update (pub_path p) (Body (pub_bytes p)) d"

interpretation files: redo map_of put_publication pub_path "\<lambda>p. Body (pub_bytes p)"
  by unfold_locales (auto simp: put_publication_def update_conv')

end
