(* ===== verification/Active_Journal.thy ===== *)
theory Active_Journal
  imports Disk
begin

text \<open>
  The active-journal pointer: two slots written in turn, each holding a record with a generation,
  the checksum of the record before it and whether a transaction is open. The digest is the
  parameter \<open>checksum\<close>; what the code relies on is that it is 64 hexadecimal digits, and, for a
  reader that races a writer, that generations never repeat.
\<close>

section \<open>Records\<close>

definition ACTIVE_JOURNAL_VERSION :: nat where
  "ACTIVE_JOURNAL_VERSION = 2"

definition GENERATION_LIMIT :: nat where
  "GENERATION_LIMIT = 10 ^ 16"

definition READ_ATTEMPTS :: nat where
  "READ_ATTEMPTS = 4"

definition is_checksum :: "string \<Rightarrow> bool" where
  "is_checksum s \<longleftrightarrow> length s = 64 \<and> list_all (\<lambda>c. c \<in> set ''0123456789abcdef'') s"

definition validateActiveRecord :: "active_record \<Rightarrow> unit res" where
  "validateActiveRecord r =
     bind_r (throw_if (ar_activeJournalVersion r \<noteq> ACTIVE_JOURNAL_VERSION) DATA ''unknown active journal version'') (\<lambda>_.
     bind_r (throw_if (ar_generation r \<ge> GENERATION_LIMIT) DATA ''invalid active journal generation'') (\<lambda>_.
     bind_r (if ar_generation r = 0
        then throw_if (ar_state r \<noteq> Idle \<or> ar_previousChecksum r \<noteq> None) DATA ''invalid active journal genesis''
        else throw_if (case ar_previousChecksum r of None \<Rightarrow> True | Some c \<Rightarrow> \<not> is_checksum c) DATA
          ''invalid active journal previous checksum'') (\<lambda>_.
     case ar_state r of
       Idle \<Rightarrow> Inr ()
     | Open transactionId firstSequence \<Rightarrow>
         bind_r (assertPortableId transactionId ''transaction id'') (\<lambda>_.
         throw_if (firstSequence \<ge> GENERATION_LIMIT) DATA ''invalid active journal first sequence''))))"

record authority =
  au_checksum :: string
  au_record :: active_record
  au_slot :: nat

definition decodeAuthority :: "(active_record \<Rightarrow> string) \<Rightarrow> content \<Rightarrow> nat \<Rightarrow> authority res" where
  "decodeAuthority checksum bytes slot = (case bytes of
     AuthorityFile activeJournalChecksum r \<Rightarrow>
       bind_r (validateActiveRecord r) (\<lambda>_.
       bind_r (throw_if (ar_generation r mod 2 \<noteq> slot) DATA ''active journal generation chain is invalid'') (\<lambda>_.
       bind_r (throw_if (activeJournalChecksum \<noteq> checksum r) DATA ''active journal checksum mismatch'') (\<lambda>_.
       Inr \<lparr>au_checksum = activeJournalChecksum, au_record = r, au_slot = slot\<rparr>)))
   | _ \<Rightarrow> Inl (AccError DATA ''invalid active journal authority''))"

definition encodeAuthority :: "(active_record \<Rightarrow> string) \<Rightarrow> active_record \<Rightarrow> content" where
  "encodeAuthority checksum r = AuthorityFile (checksum r) r"

definition validateTransition :: "active_record \<Rightarrow> active_record \<Rightarrow> unit res" where
  "validateTransition current previous = throw_if ((ar_state previous = Idle) = (ar_state current = Idle)) DATA
     ''invalid active journal transition''"

definition decode_slot :: "(active_record \<Rightarrow> string) \<Rightarrow> content option \<Rightarrow> nat \<Rightarrow> authority option res" where
  "decode_slot checksum bytes slot = (case bytes of
     None \<Rightarrow> Inr None | Some b \<Rightarrow> bind_r (decodeAuthority checksum b slot) (\<lambda>a. Inr (Some a)))"

definition select_pair :: "authority \<Rightarrow> authority \<Rightarrow> authority option res" where
  "select_pair previous current =
     bind_r (throw_if (ar_generation (au_record current) \<noteq> Suc (ar_generation (au_record previous))) DATA
       ''active journal generation chain is invalid'') (\<lambda>_.
     bind_r (throw_if (ar_previousChecksum (au_record current) \<noteq> Some (au_checksum previous)) DATA
       ''active journal checksum chain is invalid'') (\<lambda>_.
     bind_r (validateTransition (au_record current) (au_record previous)) (\<lambda>_.
     Inr (Some current))))"

definition selectAuthority :: "(active_record \<Rightarrow> string) \<Rightarrow> content option \<Rightarrow> content option \<Rightarrow> authority option res" where
  "selectAuthority checksum slot0 slot1 =
     bind_r (decode_slot checksum slot0 0) (\<lambda>a0.
     bind_r (decode_slot checksum slot1 1) (\<lambda>a1.
     case (a0, a1) of
       (None, None) \<Rightarrow> Inr None
     | (Some only, None) \<Rightarrow> if ar_generation (au_record only) = 0 then Inr (Some only)
         else Inl (AccError DATA ''active journal authority peer is missing'')
     | (None, Some only) \<Rightarrow> Inl (AccError DATA ''active journal authority peer is missing'')
     | (Some a, Some b) \<Rightarrow> if ar_generation (au_record b) < ar_generation (au_record a)
         then select_pair b a else select_pair a b))"

section \<open>Reading the pointer\<close>

text \<open>
  The reads of one attempt are made at successive moments of a history of disks, which a writer may
  change in between; \<open>at k\<close> is the moment of the k-th read.
\<close>

fun read_attempts :: "nat \<Rightarrow> nat \<Rightarrow> (nat \<Rightarrow> nat) \<Rightarrow> (nat \<Rightarrow> disk) \<Rightarrow> (content option \<times> content option) res" where
  "read_attempts 0 k at history = Inl (AccError CONFLICT ''active journal changed while being read'')"
| "read_attempts (Suc n) k at history =
     (let slot0 = map_of (history (at k)) (ActivePath 0);
          slot1 = map_of (history (at (k + 1))) (ActivePath 1);
          slot0Confirmation = map_of (history (at (k + 2))) (ActivePath 0)
      in if slot0 = slot0Confirmation then Inr (slot0, slot1) else read_attempts n (k + 3) at history)"

definition readStableSlots :: "(nat \<Rightarrow> nat) \<Rightarrow> (nat \<Rightarrow> disk) \<Rightarrow> (content option \<times> content option) res" where
  "readStableSlots at history = read_attempts READ_ATTEMPTS 0 at history"

text \<open>With no writer beside it the first attempt settles.\<close>

definition readCurrent :: "(active_record \<Rightarrow> string) \<Rightarrow> disk \<Rightarrow> authority option res" where
  "readCurrent checksum d =
     bind_r (readStableSlots id (\<lambda>_. d)) (\<lambda>(slot0, slot1). selectAuthority checksum slot0 slot1)"

definition readActiveJournal :: "(active_record \<Rightarrow> string) \<Rightarrow> disk \<Rightarrow> active_record res" where
  "readActiveJournal checksum d =
     bind_r (readCurrent checksum d) (\<lambda>current. case current of
       None \<Rightarrow> Inl (AccError DATA ''active journal has no authority'')
     | Some a \<Rightarrow> Inr (au_record a))"

text \<open>The same beside writers, for a reader that holds no lock.\<close>

definition readActiveJournal_at :: "(active_record \<Rightarrow> string) \<Rightarrow> (nat \<Rightarrow> nat) \<Rightarrow> (nat \<Rightarrow> disk) \<Rightarrow> active_record res" where
  "readActiveJournal_at checksum at history =
     bind_r (readStableSlots at history) (\<lambda>(slot0, slot1).
     bind_r (selectAuthority checksum slot0 slot1) (\<lambda>current. case current of
       None \<Rightarrow> Inl (AccError DATA ''active journal has no authority'')
     | Some a \<Rightarrow> Inr (au_record a)))"

section \<open>Moving the pointer\<close>

definition genesis :: active_record where
  "genesis = \<lparr>ar_activeJournalVersion = ACTIVE_JOURNAL_VERSION, ar_generation = 0, ar_previousChecksum = None, ar_state = Idle\<rparr>"

definition initialiseActiveJournal :: "(active_record \<Rightarrow> string) \<Rightarrow> active_record fio" where
  "initialiseActiveJournal checksum =
     bind_f (read_f (readCurrent checksum)) (\<lambda>current. case current of
       Some a \<Rightarrow> return_f (au_record a)
     | None \<Rightarrow>
         bind_f (catch_f CONFLICT (publishAtomic (ActivePath 0) (encodeAuthority checksum genesis) False) Already_published) (\<lambda>_.
         read_f (readActiveJournal checksum)))"

definition nextGeneration :: "authority \<Rightarrow> nat res" where
  "nextGeneration current = (let next = Suc (ar_generation (au_record current)) in
     if next \<ge> GENERATION_LIMIT then Inl (AccError DATA ''active journal generation is exhausted'') else Inr next)"

definition appendTransition :: "(active_record \<Rightarrow> string) \<Rightarrow> active_state \<Rightarrow> (active_state \<Rightarrow> bool) \<Rightarrow> active_record fio" where
  "appendTransition checksum next expected =
     bind_f (read_f (readCurrent checksum)) (\<lambda>current. case current of
       None \<Rightarrow> lift_f (Inl (AccError CONFLICT ''active journal transition conflicts''))
     | Some a \<Rightarrow> if \<not> expected (ar_state (au_record a))
         then lift_f (Inl (AccError CONFLICT ''active journal transition conflicts''))
         else bind_f (lift_f (nextGeneration a)) (\<lambda>generation.
           let r = \<lparr>ar_activeJournalVersion = ACTIVE_JOURNAL_VERSION, ar_generation = generation,
             ar_previousChecksum = Some (au_checksum a), ar_state = next\<rparr>
           in bind_f (lift_f (validateActiveRecord r)) (\<lambda>_.
              bind_f (publishAtomic (ActivePath (1 - au_slot a)) (encodeAuthority checksum r) True) (\<lambda>_.
              return_f r))))"

definition activateJournal :: "(active_record \<Rightarrow> string) \<Rightarrow> journal_entry \<Rightarrow> active_record fio" where
  "activateJournal checksum entry = appendTransition checksum (Open (je_transactionId entry) (je_firstSequence entry))
     (\<lambda>current. current = Idle)"

definition idleJournal :: "(active_record \<Rightarrow> string) \<Rightarrow> id \<Rightarrow> active_record fio" where
  "idleJournal checksum transactionId = appendTransition checksum Idle
     (\<lambda>current. case current of Open t _ \<Rightarrow> t = transactionId | Idle \<Rightarrow> False)"

section \<open>What holds of the pointer\<close>

definition hex_digest :: "(active_record \<Rightarrow> string) \<Rightarrow> bool" where
  "hex_digest checksum \<longleftrightarrow> (\<forall>r. is_checksum (checksum r))"

lemma readCurrent_eq:
  "readCurrent checksum d = selectAuthority checksum (map_of d (ActivePath 0)) (map_of d (ActivePath 1))"
  by (simp add: readCurrent_def readStableSlots_def READ_ATTEMPTS_def numeral_eq_Suc)

lemma readCurrent_cong:
  "(\<And>n. map_of d (ActivePath n) = map_of e (ActivePath n)) \<Longrightarrow> readCurrent checksum d = readCurrent checksum e"
  by (simp add: readCurrent_eq)

lemma decode_slot_Some:
  "decode_slot checksum b slot = Inr (Some a) \<longleftrightarrow>
     (\<exists>r. b = Some (AuthorityFile (checksum r) r) \<and> validateActiveRecord r = Inr () \<and> ar_generation r mod 2 = slot
       \<and> a = \<lparr>au_checksum = checksum r, au_record = r, au_slot = slot\<rparr>)"
  by (auto simp: decode_slot_def decodeAuthority_def res_simps split: option.splits content.splits)

lemma decode_slot_None: "decode_slot checksum b slot = Inr None \<longleftrightarrow> b = None"
  by (auto simp: decode_slot_def decodeAuthority_def res_simps split: option.splits content.splits)

text \<open>The slot the pointer selects: its own file, and the predecessor in the other slot.\<close>

lemma readCurrent_Some:
  assumes "readCurrent checksum d = Inr (Some a)"
  shows "map_of d (ActivePath (au_slot a)) = Some (encodeAuthority checksum (au_record a))"
    and "validateActiveRecord (au_record a) = Inr ()" and "au_slot a = ar_generation (au_record a) mod 2"
    and "au_checksum a = checksum (au_record a)"
  using assms unfolding readCurrent_eq selectAuthority_def
  by (auto simp: res_simps decode_slot_Some decode_slot_None select_pair_def encodeAuthority_def split: option.splits if_splits)

definition successor :: "(active_record \<Rightarrow> string) \<Rightarrow> authority \<Rightarrow> active_state \<Rightarrow> authority" where
  "successor checksum a next = (let r = \<lparr>ar_activeJournalVersion = ACTIVE_JOURNAL_VERSION, ar_generation = Suc (ar_generation (au_record a)),
       ar_previousChecksum = Some (au_checksum a), ar_state = next\<rparr>
     in \<lparr>au_checksum = checksum r, au_record = r, au_slot = 1 - au_slot a\<rparr>)"

lemma successor_fields [simp]:
  "ar_activeJournalVersion (au_record (successor checksum a next)) = ACTIVE_JOURNAL_VERSION"
  "ar_generation (au_record (successor checksum a next)) = Suc (ar_generation (au_record a))"
  "ar_previousChecksum (au_record (successor checksum a next)) = Some (au_checksum a)"
  "ar_state (au_record (successor checksum a next)) = next"
  "au_checksum (successor checksum a next) = checksum (au_record (successor checksum a next))"
  "au_slot (successor checksum a next) = 1 - au_slot a"
  by (simp_all add: successor_def Let_def)

definition valid_state :: "active_state \<Rightarrow> bool" where
  "valid_state s \<longleftrightarrow> (case s of Idle \<Rightarrow> True | Open t n \<Rightarrow> portable_id t \<and> n < GENERATION_LIMIT)"

lemma slot_flip: "Suc n mod 2 = (1 :: nat) - n mod 2"
  by (cases "n mod 2 = 0") (auto simp: mod_Suc)

lemma successor_selected:
  assumes cur: "readCurrent checksum d = Inr (Some a)" and "hex_digest checksum" and "valid_state next"
    and "Suc (ar_generation (au_record a)) < GENERATION_LIMIT" and turn: "(ar_state (au_record a) = Idle) \<noteq> (next = Idle)"
    and new: "map_of e (ActivePath (1 - au_slot a)) = Some (encodeAuthority checksum (au_record (successor checksum a next)))"
    and same: "map_of e (ActivePath (au_slot a)) = map_of d (ActivePath (au_slot a))"
  shows "readCurrent checksum e = Inr (Some (successor checksum a next))" "validateActiveRecord (au_record (successor checksum a next)) = Inr ()"
proof -
  let ?b = "successor checksum a next"
  note old = readCurrent_Some [OF cur]
  have valid: "validateActiveRecord (au_record ?b) = Inr ()"
    using assms(2 - 4) by (auto simp: validateActiveRecord_def hex_digest_def old(4) valid_state_def res_simps
        assertPortableId_def portable_id_def split: active_state.splits)
  then show "validateActiveRecord (au_record ?b) = Inr ()" .
  have b: "decode_slot checksum (map_of e (ActivePath (1 - au_slot a))) (1 - au_slot a) = Inr (Some ?b)"
    unfolding decode_slot_Some using valid old(3) new
    by (intro exI [of _ "au_record ?b"]) (auto simp: encodeAuthority_def slot_flip)
  have a: "decode_slot checksum (map_of e (ActivePath (au_slot a))) (au_slot a) = Inr (Some a)"
    unfolding decode_slot_Some using old same by (intro exI [of _ "au_record a"]) (auto simp: encodeAuthority_def)
  have pair: "select_pair a ?b = Inr (Some ?b)"
    using turn by (auto simp: select_pair_def validateTransition_def)
  have "au_slot a = 0 \<or> au_slot a = 1" using old(3) by auto
  then show "readCurrent checksum e = Inr (Some ?b)"
  proof
    assume "au_slot a = 0"
    with a b pair show ?thesis by (simp add: readCurrent_eq selectAuthority_def)
  next
    assume "au_slot a = 1"
    with a b pair show ?thesis by (simp add: readCurrent_eq selectAuthority_def)
  qed
qed

lemma appendTransition_ok:
  assumes cur: "readCurrent checksum d = Inr (Some a)" and "hex_digest checksum" and "valid_state next"
    and "Suc (ar_generation (au_record a)) < GENERATION_LIMIT" and "(ar_state (au_record a) = Idle) \<noteq> (next = Idle)"
    and "expected (ar_state (au_record a))"
  defines "e \<equiv> AList.update (ActivePath (1 - au_slot a)) (encodeAuthority checksum (au_record (successor checksum a next))) d"
  shows "appendTransition checksum next expected d = (Inr (au_record (successor checksum a next)), [e])"
    and "readCurrent checksum e = Inr (Some (successor checksum a next))"
proof -
  have "au_slot a \<noteq> 1 - au_slot a" using readCurrent_Some(3) [OF cur] by presburger
  then have frame: "map_of e (ActivePath (au_slot a)) = map_of d (ActivePath (au_slot a))"
    "map_of e (ActivePath (1 - au_slot a)) = Some (encodeAuthority checksum (au_record (successor checksum a next)))"
    by (simp_all add: e_def update_conv')
  note next_sel = successor_selected [OF cur assms(2 - 5) frame(2) frame(1)]
  then show "readCurrent checksum e = Inr (Some (successor checksum a next))" by blast
  show "appendTransition checksum next expected d = (Inr (au_record (successor checksum a next)), [e])"
    using next_sel(2) assms(4, 6)
    by (simp add: appendTransition_def bind_f_read cur nextGeneration_def Let_def successor_def publishAtomic_eq bind_f_def e_def)
qed

section \<open>A reader beside the writers\<close>

text \<open>
  What a writer does to the pointer: it moves the selected record on into the other slot, or writes
  the first record, or writes some other file.
\<close>

definition pointer_step :: "(active_record \<Rightarrow> string) \<Rightarrow> disk \<Rightarrow> disk \<Rightarrow> bool" where
  "pointer_step checksum d e \<longleftrightarrow>
     (\<forall>n. map_of e (ActivePath n) = map_of d (ActivePath n))
   \<or> (\<exists>next expected r. appendTransition checksum next expected d = (Inr r, [e]))
   \<or> (\<exists>r. initialiseActiveJournal checksum d = (Inr r, [e]))"

fun slot_age :: "content option \<Rightarrow> nat" where
  "slot_age (Some (AuthorityFile c r)) = Suc (ar_generation r)"
| "slot_age _ = 0"

definition pointer_history :: "(active_record \<Rightarrow> string) \<Rightarrow> (nat \<Rightarrow> disk) \<Rightarrow> bool" where
  "pointer_history checksum history \<longleftrightarrow> (\<forall>t. pointer_step checksum (history t) (history (Suc t)))"

text \<open>A slot only grows older by a new record, so two equal readings of it saw it unchanged in between.\<close>

lemma appendTransition_shape:
  assumes "appendTransition checksum next expected d = (Inr r, ds)"
  obtains a where "readCurrent checksum d = Inr (Some a)" "r = au_record (successor checksum a next)"
    "ds = [AList.update (ActivePath (1 - au_slot a)) (encodeAuthority checksum r) d]"
  using assms
  by (auto simp: appendTransition_def bind_f_read nextGeneration_def Let_def successor_def publishAtomic_eq bind_f_def
      split: sum.splits option.splits if_splits)

lemma initialise_shape:
  assumes "initialiseActiveJournal checksum d = (Inr r, [e])"
  shows "map_of d (ActivePath 0) = None" "map_of e = (map_of d)(ActivePath 0 \<mapsto> encodeAuthority checksum genesis)"
  using assms
  by (auto simp: initialiseActiveJournal_def bind_f_read catch_f_def publishAtomic_eq bind_f_def update_conv'
      split: sum.splits option.splits if_splits acc_error.splits prod.splits)

lemma readCurrent_ages:
  assumes "readCurrent checksum d = Inr (Some a)"
  shows "slot_age (map_of d (ActivePath (1 - au_slot a))) \<le> ar_generation (au_record a)"
    "slot_age (map_of d (ActivePath (au_slot a))) = Suc (ar_generation (au_record a))"
proof -
  show "slot_age (map_of d (ActivePath (au_slot a))) = Suc (ar_generation (au_record a))"
    by (simp add: readCurrent_Some(1) [OF assms] encodeAuthority_def)
  show "slot_age (map_of d (ActivePath (1 - au_slot a))) \<le> ar_generation (au_record a)"
    using assms unfolding readCurrent_eq selectAuthority_def
    by (auto simp: res_simps decode_slot_Some decode_slot_None select_pair_def split: option.splits if_splits)
qed

lemma pointer_step_slot:
  assumes step: "pointer_step checksum d e" and changed: "map_of e (ActivePath n) \<noteq> map_of d (ActivePath n)"
  shows "slot_age (map_of d (ActivePath n)) < slot_age (map_of e (ActivePath n))"
  using step unfolding pointer_step_def
proof (elim disjE exE)
  assume "\<forall>n. map_of e (ActivePath n) = map_of d (ActivePath n)"
  with changed show ?thesis by simp
next
  fix nxt expected r assume "appendTransition checksum nxt expected d = (Inr r, [e])"
  then obtain a where a: "readCurrent checksum d = Inr (Some a)" "r = au_record (successor checksum a nxt)"
    and e: "e = AList.update (ActivePath (1 - au_slot a)) (encodeAuthority checksum r) d"
    by (elim appendTransition_shape) simp
  with changed have "n = 1 - au_slot a" by (auto simp: update_conv' split: if_splits)
  with readCurrent_ages(1) [OF a(1)] show ?thesis by (simp add: e a(2) update_conv' encodeAuthority_def)
next
  fix r assume "initialiseActiveJournal checksum d = (Inr r, [e])"
  from initialise_shape [OF this] changed show ?thesis by (auto simp: encodeAuthority_def split: if_splits)
qed

lemma first_change:
  fixes f :: "nat \<Rightarrow> 'a"
  assumes "r \<le> s" and "f r \<noteq> f s"
  shows "\<exists>t. f r \<noteq> f (Suc t) \<and> f r = f t \<and> r \<le> t \<and> Suc t \<le> s"
  using assms
proof (induction s rule: dec_induct)
  case (step s)
  then show ?case by (cases "f r = f s") (auto intro: exI [of _ s] le_SucI)
qed simp

lemma slot_age_mono:
  assumes "pointer_history checksum history" and "s \<le> t"
  shows "slot_age (map_of (history s) (ActivePath n)) \<le> slot_age (map_of (history t) (ActivePath n))"
  by (rule lift_Suc_mono_le [OF _ assms(2), of "\<lambda>t. slot_age (map_of (history t) (ActivePath n))"])
    (metis assms(1) pointer_history_def pointer_step_slot nat_less_le order_refl)

lemma slot_stable:
  assumes hist: "pointer_history checksum history" and "r \<le> s" and "s \<le> t"
    and same: "map_of (history r) (ActivePath n) = map_of (history t) (ActivePath n)"
  shows "map_of (history s) (ActivePath n) = map_of (history r) (ActivePath n)"
  using \<open>r \<le> s\<close> \<open>s \<le> t\<close>
proof (induction s rule: dec_induct)
  case (step s)
  have "slot_age (map_of (history r) (ActivePath n)) \<le> slot_age (map_of (history s) (ActivePath n))"
    "slot_age (map_of (history (Suc s)) (ActivePath n)) \<le> slot_age (map_of (history t) (ActivePath n))"
    using slot_age_mono [OF hist] step by auto
  with pointer_step_slot [of checksum "history s" "history (Suc s)" n] hist same step show ?case
    by (fastforce simp: pointer_history_def)
qed simp

lemma read_attempts_stable:
  assumes hist: "pointer_history checksum history" and "mono at"
    and "read_attempts n k at history = Inr (slot0, slot1)"
  shows "\<exists>j < k + 3 * n. slot0 = map_of (history (at j)) (ActivePath 0) \<and> slot1 = map_of (history (at j)) (ActivePath 1)"
  using assms(3)
proof (induction n arbitrary: k)
  case (Suc n)
  show ?case
  proof (cases "map_of (history (at k)) (ActivePath 0) = map_of (history (at (k + 2))) (ActivePath 0)")
    case True
    have "at k \<le> at (k + 1)" "at (k + 1) \<le> at (k + 2)" using assms(2) by (auto simp: mono_def)
    then have "map_of (history (at (k + 1))) (ActivePath 0) = map_of (history (at k)) (ActivePath 0)" by (rule slot_stable [OF hist _ _ True])
    then show ?thesis using True Suc.prems by (intro exI [of _ "k + 1"]) (simp add: Let_def)
  next
    case False
    with Suc.prems Suc.IH [of "k + 3"] show ?thesis by (simp add: Let_def add.assoc)
  qed
qed simp

text \<open>Where slot zero is written at most once, the second attempt settles at the latest.\<close>

lemma read_attempts_settle:
  assumes hist: "pointer_history checksum history" and "mono at"
    and once: "\<And>t. map_of (history t) (ActivePath 0) \<in> {x, y}"
  shows "\<exists>slot0 slot1. read_attempts (Suc (Suc n)) k at history = Inr (slot0, slot1)"
proof (cases "map_of (history (at k)) (ActivePath 0) = map_of (history (at (k + 2))) (ActivePath 0)")
  case True
  then show ?thesis by (simp add: Let_def)
next
  case False
  let ?slot = "\<lambda>j. map_of (history (at j)) (ActivePath 0)"
  have ages: "slot_age (?slot i) \<le> slot_age (?slot j)" if "i \<le> j" for i j
    by (rule slot_age_mono [OF hist]) (use that assms(2) in \<open>simp add: mono_def\<close>)
  have "slot_age (?slot k) \<noteq> slot_age (?slot (k + 2))"
  proof
    assume same: "slot_age (?slot k) = slot_age (?slot (k + 2))"
    have "\<exists>t. ?slot k \<noteq> map_of (history (Suc t)) (ActivePath 0) \<and> ?slot k = map_of (history t) (ActivePath 0) \<and> at k \<le> t \<and> Suc t \<le> at (k + 2)"
      by (rule first_change) (use False assms(2) in \<open>auto simp: mono_def\<close>)
    then obtain t where t: "map_of (history (Suc t)) (ActivePath 0) \<noteq> map_of (history t) (ActivePath 0)" "at k \<le> t" "Suc t \<le> at (k + 2)" by metis
    have "slot_age (map_of (history t) (ActivePath 0)) < slot_age (map_of (history (Suc t)) (ActivePath 0))"
      by (rule pointer_step_slot) (use hist t(1) in \<open>auto simp: pointer_history_def\<close>)
    with slot_age_mono [OF hist t(2), of 0] slot_age_mono [OF hist t(3), of 0] same show False by simp
  qed
  then have "slot_age (?slot k) < slot_age (?slot (k + 2))" using ages [of k "k + 2"] by simp
  then have later: "?slot j = ?slot (k + 2)" if "k + 2 \<le> j" for j
    using ages [OF that] once [of "at k"] once [of "at (k + 2)"] once [of "at j"] by auto
  have "?slot (k + 3) = ?slot (k + 3 + 2)" using later [of "k + 3"] later [of "k + 3 + 2"] by simp
  then show ?thesis by (simp add: Let_def)
qed

text \<open>
  C34. A reader beside running writers: when the two readings of slot zero agree, the pair of slots it
  returns is one that stood on the disk together at one moment, whatever writers did between
  the reads.
\<close>

theorem stable_slots_coexisted:
  assumes "pointer_history checksum history" and "mono at"
    and "readStableSlots at history = Inr (slot0, slot1)"
  shows "\<exists>t. slot0 = map_of (history t) (ActivePath 0) \<and> slot1 = map_of (history t) (ActivePath 1)"
  using read_attempts_stable [OF assms(1, 2)] assms(3) unfolding readStableSlots_def by blast

text \<open>A store that is opened, and a transaction that opens its journal between two reads.\<close>

definition sample_sum :: "active_record \<Rightarrow> string" where
  "sample_sum r = replicate 64 CHR ''a''"

definition sample_open :: disk where
  "sample_open = [(ActivePath 0, encodeAuthority sample_sum genesis)]"

definition sample_pointer :: authority where
  "sample_pointer = \<lparr>au_checksum = sample_sum genesis, au_record = genesis, au_slot = 0\<rparr>"

definition sample_decided :: disk where
  "sample_decided = AList.update (ActivePath 1)
     (encodeAuthority sample_sum (au_record (successor sample_sum sample_pointer (Open ''t'' 1)))) sample_open"

lemma hex_sample_sum: "hex_digest sample_sum"
  by (simp add: hex_digest_def is_checksum_def sample_sum_def list_all_length)

lemma sample_current: "readCurrent sample_sum sample_open = Inr (Some sample_pointer)"
  by (simp add: readCurrent_eq selectAuthority_def sample_open_def decode_slot_def decodeAuthority_def encodeAuthority_def
      validateActiveRecord_def genesis_def sample_pointer_def GENERATION_LIMIT_def)

lemma sample_transition:
  "appendTransition sample_sum (Open ''t'' 1) (\<lambda>s. s = Idle) sample_open
     = (Inr (au_record (successor sample_sum sample_pointer (Open ''t'' 1))), [sample_decided])"
proof -
  have "valid_state (Open ''t'' 1)" by (simp add: valid_state_def GENERATION_LIMIT_def) code_simp
  from appendTransition_ok(1) [OF sample_current hex_sample_sum this, of "\<lambda>s. s = Idle"] show ?thesis
    by (simp add: sample_pointer_def genesis_def GENERATION_LIMIT_def sample_decided_def)
qed

theorem stable_slots_coexisted_witness:
  "\<exists>t. map_of sample_open (ActivePath 0) = map_of (if t < (1 :: nat) then sample_open else sample_decided) (ActivePath 0)
     \<and> map_of sample_decided (ActivePath 1) = map_of (if t < 1 then sample_open else sample_decided) (ActivePath 1)"
proof (rule stable_slots_coexisted)
  show "pointer_history sample_sum (\<lambda>t :: nat. if t < 1 then sample_open else sample_decided)"
    unfolding pointer_history_def pointer_step_def using sample_transition by auto
  show "mono (\<lambda>k :: nat. k)" by (simp add: mono_def)
  have "map_of sample_decided (ActivePath 0) = map_of sample_open (ActivePath 0)"
    by (simp add: sample_decided_def update_conv')
  then show "readStableSlots (\<lambda>k. k) (\<lambda>t. if t < 1 then sample_open else sample_decided)
      = Inr (map_of sample_open (ActivePath 0), map_of sample_decided (ActivePath 1))"
    by (simp add: readStableSlots_def READ_ATTEMPTS_def numeral_eq_Suc)
qed

end
