(* ===== verification/Journal.thy ===== *)
theory Journal
  imports Active_Journal
begin

text \<open>
  The journal of a transaction: the entry that lists every file it publishes, the pointer that
  decides it, rolling it forward, and recovering one that a stopped process left open. A process
  that stops at any write, followed by any number of recoveries that stop too, leaves the files
  from before the entry or all of those it lists.
\<close>

section \<open>The journal\<close>

definition JOURNAL_VERSION :: nat where
  "JOURNAL_VERSION = 2"

text \<open>\<^verbatim>\<open>path.isAbsolute(p) || path.win32.isAbsolute(p)\<close>\<close>

definition is_absolute :: "string \<Rightarrow> bool" where
  "is_absolute p \<longleftrightarrow> (case p of
     c # d # e # _ \<Rightarrow> c = CHR ''/'' \<or> c = CHR 0x5C
       \<or> (is_lower c \<or> is_upper c) \<and> d = CHR '':'' \<and> (e = CHR ''/'' \<or> e = CHR 0x5C)
   | c # _ \<Rightarrow> c = CHR ''/'' \<or> c = CHR 0x5C
   | [] \<Rightarrow> False)"

text \<open>
  The segments of a path that passes name a file below the root, so resolving them against
  it and taking the path relative to it again gives the segments back: the last check of the
  code cannot fail and is left out.
\<close>

definition publicationDestination :: "string \<Rightarrow> string list res" where
  "publicationDestination p =
     bind_r (throw_if (p = [] \<or> is_absolute p) DATA ''journal publication path must be relative'') (\<lambda>_.
     let segments = split_on (CHR ''/'') (replace_char (CHR 0x5C) (CHR ''/'') p) in
     bind_r (throw_if (list_ex (\<lambda>s. s \<in> set ['''', ''.'', ''..'']) segments) DATA ''journal publication path is not managed'') (\<lambda>_.
     bind_r (throw_if (\<not> (hd segments = ''events'' \<or> hd segments = ''state''
         \<or> hd segments = ''retained'' \<and> take 1 (tl segments) = [''state''])) DATA ''journal publication path is not managed'') (\<lambda>_.
     Inr segments)))"

definition assert_destination :: "file_path \<Rightarrow> unit res" where
  "assert_destination p = bind_r (publicationDestination (path_string p)) (\<lambda>_. Inr ())"

definition assert_retained :: "file_path option \<Rightarrow> unit res" where
  "assert_retained p = (case p of None \<Rightarrow> Inr () | Some q \<Rightarrow> assert_destination q)"

definition journalEntry :: "id \<Rightarrow> nat \<Rightarrow> publication list \<Rightarrow> time \<Rightarrow> journal_entry" where
  "journalEntry transactionId firstSequence publications startedAt =
     \<lparr>je_journalVersion = JOURNAL_VERSION, je_transactionId = transactionId, je_firstSequence = firstSequence,
      je_startedAt = startedAt, je_publications = publications\<rparr>"

definition writeJournalEntry :: "(active_record \<Rightarrow> string) \<Rightarrow> journal_entry \<Rightarrow> unit fio" where
  "writeJournalEntry checksum entry =
     bind_f (lift_f (assertPortableId (je_transactionId entry) ''transaction id'')) (\<lambda>_.
     bind_f (publishAtomic (EntryPath (je_transactionId entry)) (EntryFile entry) False) (\<lambda>_.
     bind_f (activateJournal checksum entry) (\<lambda>_.
     return_f ())))"

definition retireJournalEntry :: "(active_record \<Rightarrow> string) \<Rightarrow> id \<Rightarrow> unit fio" where
  "retireJournalEntry checksum transactionId =
     bind_f (lift_f (assertPortableId transactionId ''transaction id'')) (\<lambda>_.
     bind_f (idleJournal checksum transactionId) (\<lambda>_.
     return_f ()))"

definition readOpenJournals :: "(active_record \<Rightarrow> string) \<Rightarrow> disk \<Rightarrow> journal_entry list res" where
  "readOpenJournals checksum d =
     bind_r (readActiveJournal checksum d) (\<lambda>active. case ar_state active of
       Idle \<Rightarrow> Inr []
     | Open transactionId firstSequence \<Rightarrow>
         bind_r (assertPortableId transactionId ''transaction id'') (\<lambda>_. case map_of d (EntryPath transactionId) of
           None \<Rightarrow> Inl (AccError DATA ''active journal entry is missing'')
         | Some (EntryFile entry) \<Rightarrow>
             bind_r (throw_if (je_journalVersion entry \<noteq> JOURNAL_VERSION) DATA ''unknown journal version'') (\<lambda>_.
             bind_r (throw_if (transactionId \<noteq> je_transactionId entry \<or> je_firstSequence entry \<noteq> firstSequence) DATA
               ''journal entry does not match its active record'') (\<lambda>_.
             bind_r (assertPortableId (je_transactionId entry) ''transaction id'') (\<lambda>_.
             bind_r (each_r (\<lambda>p. bind_r (assert_destination (pub_path p)) (\<lambda>_. assert_retained (pub_retainedPath p)))
               (je_publications entry)) (\<lambda>_.
             Inr [entry]))))
         | Some _ \<Rightarrow> Inl (AccError DATA ''invalid JSON record'')))"

definition readJournalCeiling :: "(active_record \<Rightarrow> string) \<Rightarrow> (nat \<Rightarrow> nat) \<Rightarrow> (nat \<Rightarrow> disk) \<Rightarrow> nat option res" where
  "readJournalCeiling checksum at history =
     bind_r (readActiveJournal_at checksum at history) (\<lambda>active.
     Inr (case ar_state active of Open _ firstSequence \<Rightarrow> Some firstSequence | Idle \<Rightarrow> None))"

text \<open>
  The publications of one entry in order, with the paths that were newly published. Flushing
  directories changes no file, so the pass over a prune's directories and \<^verbatim>\<open>retainFile\<close>,
  which only checks its parent directory, leave the disk as it is.
\<close>

fun roll_publications :: "publication list \<Rightarrow> file_path list fio" where
  "roll_publications [] = return_f []"
| "roll_publications (p # ps) =
     bind_f (lift_f (assert_destination (pub_path p))) (\<lambda>_.
     bind_f (lift_f (assert_retained (pub_retainedPath p))) (\<lambda>_.
     bind_f (publishAtomic (pub_path p) (Body (pub_bytes p)) (pub_replace p)) (\<lambda>outcome.
     bind_f (roll_publications ps) (\<lambda>published.
     return_f (if outcome = Published then pub_path p # published else published)))))"

definition rollForward :: "(active_record \<Rightarrow> string) \<Rightarrow> journal_entry \<Rightarrow> file_path list fio" where
  "rollForward checksum entry =
     bind_f (roll_publications (je_publications entry)) (\<lambda>published.
     bind_f (retireJournalEntry checksum (je_transactionId entry)) (\<lambda>_.
     return_f published))"

fun roll_all :: "(active_record \<Rightarrow> string) \<Rightarrow> journal_entry list \<Rightarrow> file_path list fio" where
  "roll_all checksum [] = return_f []"
| "roll_all checksum (e # es) =
     bind_f (rollForward checksum e) (\<lambda>published.
     bind_f (roll_all checksum es) (\<lambda>rest.
     return_f (published @ rest)))"

definition recoverOpenJournals :: "(active_record \<Rightarrow> string) \<Rightarrow> file_path list fio" where
  "recoverOpenJournals checksum =
     bind_f (read_f (readOpenJournals checksum)) (\<lambda>opened.
     if opened = [] then return_f []
     else bind_f (read_f (readOpenJournals checksum)) (roll_all checksum))"

section \<open>Which paths a journal may name\<close>

lemma journal_area_refused:
  assumes "path_string p = ''journal/'' @ s" shows "assert_destination p \<noteq> Inr ()"
proof -
  have "replace_char (CHR 0x5C) (CHR ''/'') (''journal/'' @ s)
      = ''journal'' @ CHR ''/'' # replace_char (CHR 0x5C) (CHR ''/'') s" by (simp add: replace_char_def)
  then have "hd (split_on (CHR ''/'') (replace_char (CHR 0x5C) (CHR ''/'') (''journal/'' @ s))) = ''journal''"
    by (simp only: split_on_append_sep) simp
  then show ?thesis by (simp add: assms assert_destination_def publicationDestination_def res_simps Let_def)
qed

lemma journal_paths_refused: "assert_destination (EntryPath i) \<noteq> Inr ()" "assert_destination (ActivePath n) \<noteq> Inr ()"
  by (rule journal_area_refused, simp)+

lemma assert_destination_managed:
  "assert_destination p = Inr () \<Longrightarrow> (\<exists>k i. p = StatePath k i) \<or> (\<exists>n. p = EventPath n) \<or> (\<exists>k i g. p = MarkerPath k i g)"
proof (cases p)
  case FloorPath
  have "assert_destination FloorPath \<noteq> Inr ()" by code_simp
  moreover assume "assert_destination p = Inr ()"
  ultimately show ?thesis by (simp add: FloorPath)
next
  case IdentityPath
  have "assert_destination IdentityPath \<noteq> Inr ()" by code_simp
  moreover assume "assert_destination p = Inr ()"
  ultimately show ?thesis by (simp add: IdentityPath)
qed (auto simp: journal_paths_refused)

definition plain_segment :: "string \<Rightarrow> bool" where
  "plain_segment w \<longleftrightarrow> CHR ''/'' \<notin> set w \<and> CHR 0x5C \<notin> set w \<and> w \<notin> {[], ''.'', ''..''}"

lemma destination_of_segments:
  assumes "ws \<noteq> []" and "\<forall>w \<in> set ws. plain_segment w" and "p = join_with ''/'' ws" and "\<not> is_absolute p"
    and "hd ws = ''events'' \<or> hd ws = ''state'' \<or> hd ws = ''retained'' \<and> take 1 (tl ws) = [''state'']"
  shows "publicationDestination p = Inr ws"
proof -
  have keep: "CHR 0x5C \<notin> set (join_with ''/'' ws)" using assms(1, 2)
    by (induction "''/''" ws rule: join_with.induct) (simp_all add: plain_segment_def)
  then have "replace_char (CHR 0x5C) (CHR ''/'') p = p" unfolding replace_char_def assms(3) by (intro map_idI) auto
  then have segments: "split_on (CHR ''/'') (replace_char (CHR 0x5C) (CHR ''/'') p) = ws"
    using assms(1 - 3) by (simp add: split_join plain_segment_def)
  have "p \<noteq> []" using assms(1 - 3) by (cases ws; cases "tl ws") (auto simp: plain_segment_def)
  moreover have "\<not> list_ex (\<lambda>s. s \<in> set [[], ''.'', ''..'']) ws" using assms(2) by (auto simp: list_ex_iff plain_segment_def)
  ultimately show ?thesis using assms(4, 5) by (auto simp: publicationDestination_def segments Let_def)
qed

lemma plain_portable: assumes "portable_id i" shows "plain_segment i" "plain_segment (i @ ''.json'')"
proof -
  have "list_all is_id_char i" "i \<noteq> []" "\<not> ends_with ''.'' i" using assms
    by (auto simp: portable_id_def PORTABLE_ID_def is_id_char_def split: list.splits)
  moreover have "\<not> is_id_char (CHR ''/'')" "\<not> is_id_char (CHR 0x5C)" by code_simp+
  moreover have "ends_with ''.'' ''.''" "ends_with ''.'' ''..''" by code_simp+
  ultimately show "plain_segment i" "plain_segment (i @ ''.json'')" by (auto simp: plain_segment_def list_all_iff)
qed

lemma plain_kind: "plain_segment (kind_name k)"
  by (cases k) (simp_all add: plain_segment_def)

lemma plain_number: "plain_segment (pad n @ ''.json'')"
proof -
  have digits: "c \<in> digit_char ` {..9}" if "c \<in> set (pad_digits w m)" for c w m
    using that by (induction w arbitrary: m) auto
  have "CHR ''/'' \<notin> digit_char ` {..9}" "CHR 0x5C \<notin> digit_char ` {..9}" by code_simp+
  with digits show ?thesis by (auto simp: plain_segment_def pad_def)
qed

text \<open>Every path that a transaction publishes or retains is one that the journal accepts.\<close>

lemma managed_destinations:
  "portable_id i \<Longrightarrow> assert_destination (StatePath k i) = Inr ()" "assert_destination (EventPath n) = Inr ()"
  "portable_id i \<Longrightarrow> portable_id g \<Longrightarrow> assert_destination (MarkerPath k i g) = Inr ()"
proof -
  have "publicationDestination (path_string (EventPath n)) = Inr [''events'', pad n @ ''.json'']"
    by (rule destination_of_segments) (simp_all add: plain_number is_absolute_def, simp add: plain_segment_def)
  then show "assert_destination (EventPath n) = Inr ()" by (simp add: assert_destination_def del: path_string.simps)
  assume i: "portable_id i"
  have "publicationDestination (path_string (StatePath k i)) = Inr [''state'', kind_name k, i @ ''.json'']"
    by (rule destination_of_segments) (simp_all add: plain_portable [OF i] plain_kind is_absolute_def, simp add: plain_segment_def)
  then show "assert_destination (StatePath k i) = Inr ()" by (simp add: assert_destination_def del: path_string.simps)
  assume g: "portable_id g"
  have "publicationDestination (path_string (MarkerPath k i g)) = Inr [''retained'', ''state'', kind_name k, i, g @ ''.json'']"
    by (rule destination_of_segments) (simp_all add: plain_portable [OF i] plain_portable [OF g] plain_kind is_absolute_def, simp add: plain_segment_def)
  then show "assert_destination (MarkerPath k i g) = Inr ()" by (simp add: assert_destination_def del: path_string.simps)
qed

section \<open>The phases of a journalled write\<close>

definition prepared :: "journal_entry \<Rightarrow> disk \<Rightarrow> disk" where
  "prepared e d = AList.update (EntryPath (je_transactionId e)) (EntryFile e) d"

definition opening_of :: "(active_record \<Rightarrow> string) \<Rightarrow> authority \<Rightarrow> journal_entry \<Rightarrow> authority" where
  "opening_of checksum a e = successor checksum a (Open (je_transactionId e) (je_firstSequence e))"

definition decided :: "(active_record \<Rightarrow> string) \<Rightarrow> authority \<Rightarrow> journal_entry \<Rightarrow> disk \<Rightarrow> disk" where
  "decided checksum a e d =
     AList.update (ActivePath (1 - au_slot a)) (encodeAuthority checksum (au_record (opening_of checksum a e))) (prepared e d)"

definition rolled :: "(active_record \<Rightarrow> string) \<Rightarrow> authority \<Rightarrow> journal_entry \<Rightarrow> disk \<Rightarrow> nat \<Rightarrow> disk" where
  "rolled checksum a e d n = files.all_put (take n (je_publications e)) (decided checksum a e d)"

definition finished :: "(active_record \<Rightarrow> string) \<Rightarrow> authority \<Rightarrow> journal_entry \<Rightarrow> disk \<Rightarrow> disk" where
  "finished checksum a e d = AList.update (ActivePath (au_slot a))
     (encodeAuthority checksum (au_record (successor checksum (opening_of checksum a e) Idle)))
     (rolled checksum a e d (length (je_publications e)))"

text \<open>What a commit establishes before it writes: nothing is open, and the entry can be rolled forward.\<close>

definition journalled :: "(active_record \<Rightarrow> string) \<Rightarrow> authority \<Rightarrow> journal_entry \<Rightarrow> disk \<Rightarrow> bool" where
  "journalled checksum a e d \<longleftrightarrow>
     hex_digest checksum \<and> readCurrent checksum d = Inr (Some a) \<and> ar_state (au_record a) = Idle
     \<and> Suc (Suc (ar_generation (au_record a))) < GENERATION_LIMIT
     \<and> je_journalVersion e = JOURNAL_VERSION \<and> valid_state (Open (je_transactionId e) (je_firstSequence e))
     \<and> map_of d (EntryPath (je_transactionId e)) \<in> {None, Some (EntryFile e)}
     \<and> distinct (map pub_path (je_publications e))
     \<and> (\<forall>p \<in> set (je_publications e). assert_destination (pub_path p) = Inr () \<and> assert_retained (pub_retainedPath p) = Inr ()
         \<and> (pub_replace p \<or> map_of d (pub_path p) \<in> {None, Some (Body (pub_bytes p))}))"

definition undecided_files :: "journal_entry \<Rightarrow> disk \<Rightarrow> disk \<Rightarrow> bool" where
  "undecided_files e d c \<longleftrightarrow> map_of c = map_of d \<or> map_of c = map_of (prepared e d)"

definition open_files :: "(active_record \<Rightarrow> string) \<Rightarrow> authority \<Rightarrow> journal_entry \<Rightarrow> disk \<Rightarrow> disk \<Rightarrow> bool" where
  "open_files checksum a e d c \<longleftrightarrow> (\<exists>n. map_of c = map_of (rolled checksum a e d n))"

definition done_files :: "(active_record \<Rightarrow> string) \<Rightarrow> authority \<Rightarrow> journal_entry \<Rightarrow> disk \<Rightarrow> disk \<Rightarrow> bool" where
  "done_files checksum a e d c \<longleftrightarrow> map_of c = map_of (finished checksum a e d)"

lemma managed_not_journal:
  "journalled checksum a e d \<Longrightarrow> p \<in> set (je_publications e) \<Longrightarrow> pub_path p \<noteq> ActivePath n \<and> pub_path p \<noteq> EntryPath i
     \<and> pub_path p \<noteq> FloorPath \<and> pub_path p \<noteq> IdentityPath"
  using assert_destination_managed [of "pub_path p"] by (auto simp: journalled_def)

lemma map_of_rolled:
  assumes "journalled checksum a e d"
  shows "map_of (rolled checksum a e d n) q = (case find (\<lambda>p. pub_path p = q) (take n (je_publications e)) of
     Some p \<Rightarrow> Some (Body (pub_bytes p)) | None \<Rightarrow> map_of (decided checksum a e d) q)"
proof -
  have "distinct (map pub_path (take n (je_publications e)))"
    using assms by (simp add: journalled_def flip: take_map)
  then show ?thesis by (simp add: rolled_def files.get_all_put)
qed

lemma rolled_journal:
  assumes "journalled checksum a e d" and "\<And>p. p \<in> set (je_publications e) \<Longrightarrow> pub_path p \<noteq> q"
  shows "map_of (rolled checksum a e d n) q = map_of (decided checksum a e d) q"
proof -
  have "find (\<lambda>p. pub_path p = q) (take n (je_publications e)) = None"
    using assms(2) by (auto simp: find_None_iff dest: in_set_takeD)
  then show ?thesis by (simp add: map_of_rolled [OF assms(1)])
qed

lemma open_pointer:
  assumes j: "journalled checksum a e d" and "open_files checksum a e d c"
  shows "readCurrent checksum c = Inr (Some (opening_of checksum a e))" "map_of c (EntryPath (je_transactionId e)) = Some (EntryFile e)"
proof -
  obtain n where c: "map_of c = map_of (rolled checksum a e d n)" using assms(2) by (auto simp: open_files_def)
  have paths: "map_of c (ActivePath s) = map_of (decided checksum a e d) (ActivePath s)"
    "map_of c (EntryPath i) = map_of (decided checksum a e d) (EntryPath i)" for s i
    using rolled_journal [OF j] managed_not_journal [OF j] by (simp_all add: c)
  show "map_of c (EntryPath (je_transactionId e)) = Some (EntryFile e)"
    by (simp add: paths decided_def prepared_def update_conv')
  have cur: "readCurrent checksum d = Inr (Some a)" using j by (simp add: journalled_def)
  then have "au_slot a \<noteq> 1 - au_slot a" using readCurrent_Some(3) [OF cur] by presburger
  then show "readCurrent checksum c = Inr (Some (opening_of checksum a e))" unfolding opening_of_def
    using j by (intro successor_selected(1) [OF cur])
      (auto simp: journalled_def paths decided_def prepared_def update_conv' opening_of_def)
qed

lemma settled_pointer:
  assumes j: "journalled checksum a e d" and "undecided_files e d c \<or> done_files checksum a e d c"
  shows "\<exists>b. readCurrent checksum c = Inr (Some b) \<and> ar_state (au_record b) = Idle"
  using assms(2)
proof
  assume "undecided_files e d c"
  then have "map_of c (ActivePath s) = map_of d (ActivePath s)" for s
    by (auto simp: undecided_files_def prepared_def update_conv')
  then have "readCurrent checksum c = readCurrent checksum d" by (rule readCurrent_cong)
  with j show ?thesis by (simp add: journalled_def)
next
  assume fin: "done_files checksum a e d c"
  let ?r = "rolled checksum a e d (length (je_publications e))" and ?b = "opening_of checksum a e"
  have cur: "readCurrent checksum ?r = Inr (Some ?b)"
    by (rule open_pointer(1) [OF j]) (auto simp: open_files_def)
  have a: "readCurrent checksum d = Inr (Some a)" using j by (simp add: journalled_def)
  have slots: "au_slot ?b = 1 - au_slot a" "1 - au_slot ?b = au_slot a" "au_slot a \<noteq> 1 - au_slot a"
    using readCurrent_Some(3) [OF a] by (simp_all add: opening_of_def, presburger+)
  have "readCurrent checksum c = Inr (Some (successor checksum ?b Idle))"
    using j fin slots by (intro successor_selected(1) [OF cur])
      (auto simp: journalled_def valid_state_def opening_of_def done_files_def finished_def update_conv')
  then show ?thesis by (intro exI conjI) (assumption, simp)
qed

lemma readOpen_settled:
  assumes "journalled checksum a e d" and "undecided_files e d c \<or> done_files checksum a e d c"
  shows "readOpenJournals checksum c = Inr []"
  using settled_pointer [OF assms] by (auto simp: readOpenJournals_def readActiveJournal_def)

lemma readOpen_open:
  assumes j: "journalled checksum a e d" and c: "open_files checksum a e d c"
  shows "readOpenJournals checksum c = Inr [e]"
proof -
  have "ar_state (au_record (opening_of checksum a e)) = Open (je_transactionId e) (je_firstSequence e)" by (simp add: opening_of_def)
  then show ?thesis using open_pointer [OF j c] j
    by (auto simp: readOpenJournals_def readActiveJournal_def journalled_def valid_state_def res_simps)
qed

section \<open>Rolling forward from anywhere\<close>

lemma rolled_put:
  assumes j: "journalled checksum a e d" and "i < length (je_publications e)" and "i \<le> m"
  defines "p \<equiv> je_publications e ! i"
  shows "(map_of (rolled checksum a e d m))(pub_path p \<mapsto> Body (pub_bytes p)) = map_of (rolled checksum a e d (max m (Suc i)))"
    and "pub_replace p \<or> map_of (rolled checksum a e d m) (pub_path p) = None
      \<or> map_of (rolled checksum a e d m) (pub_path p) = Some (Body (pub_bytes p))"
proof -
  let ?ps = "je_publications e"
  have dist: "distinct (map pub_path ?ps)" using j by (simp add: journalled_def)
  have p: "p \<in> set ?ps" using assms(2) by (simp add: p_def)
  have at: "map_of (rolled checksum a e d m) (pub_path p) = Some (Body (pub_bytes p))" if "i < m"
  proof -
    have "p \<in> set (take m ?ps)" using that assms(2) by (auto simp: p_def in_set_conv_nth intro!: exI [of _ i])
    moreover have "q = p" if "q \<in> set (take m ?ps)" "pub_path q = pub_path p" for q
      using dist that p by (auto simp: distinct_map dest: in_set_takeD inj_onD)
    ultimately have "find (\<lambda>q. pub_path q = pub_path p) (take m ?ps) = Some p"
      by (intro find_unique) auto
    then show ?thesis by (simp add: map_of_rolled [OF j])
  qed
  show "(map_of (rolled checksum a e d m))(pub_path p \<mapsto> Body (pub_bytes p)) = map_of (rolled checksum a e d (max m (Suc i)))"
  proof (cases "i < m")
    case True
    with at show ?thesis by (simp add: max_absorb1 fun_upd_idem)
  next
    case False
    with assms(3) have "m = i" by simp
    then have "rolled checksum a e d (max m (Suc i)) = put_publication p (rolled checksum a e d m)"
      using assms(2) by (simp add: rolled_def files.all_put_def p_def take_Suc_conv_app_nth)
    then show ?thesis by (simp add: put_publication_def update_conv')
  qed
  show "pub_replace p \<or> map_of (rolled checksum a e d m) (pub_path p) = None
      \<or> map_of (rolled checksum a e d m) (pub_path p) = Some (Body (pub_bytes p))"
  proof (cases "i < m")
    case False
    with assms(3) have m: "m = i" by simp
    have "distinct (map pub_path (take (Suc i) ?ps))" using dist by (simp flip: take_map)
    then have "pub_path p \<notin> pub_path ` set (take i ?ps)" using assms(2) by (simp add: take_Suc_conv_app_nth p_def)
    then have "find (\<lambda>q. pub_path q = pub_path p) (take i ?ps) = None" by (rule find_fresh_key)
    then have "map_of (rolled checksum a e d m) (pub_path p) = map_of d (pub_path p)"
      using managed_not_journal [OF j p] by (simp add: map_of_rolled [OF j] m decided_def prepared_def update_conv')
    with j p show ?thesis by (auto simp: journalled_def)
  qed (use at in auto)
qed

lemma roll_from:
  assumes j: "journalled checksum a e d"
  shows "i \<le> length (je_publications e) \<Longrightarrow> i \<le> m \<Longrightarrow> map_of c = map_of (rolled checksum a e d m) \<Longrightarrow>
    \<exists>out ds. roll_publications (drop i (je_publications e)) c = (Inr out, ds) \<and> (\<forall>x \<in> set ds. open_files checksum a e d x)
      \<and> map_of (final c ds) = map_of (rolled checksum a e d (length (je_publications e)))"
proof (induction "length (je_publications e) - i" arbitrary: i m c)
  case 0
  then have "take m (je_publications e) = je_publications e" "drop i (je_publications e) = []" by simp_all
  with 0 show ?case by (simp add: rolled_def)
next
  case (Suc k)
  let ?p = "je_publications e ! i"
  have i: "i < length (je_publications e)" using Suc.hyps(2) by simp
  then have drop: "drop i (je_publications e) = ?p # drop (Suc i) (je_publications e)" by (simp add: Cons_nth_drop_Suc)
  have ok: "assert_destination (pub_path ?p) = Inr ()" "assert_retained (pub_retainedPath ?p) = Inr ()"
    using j i by (simp_all add: journalled_def)
  note put = rolled_put [OF j i Suc.prems(2)]
  obtain o' ds where pub: "publishAtomic (pub_path ?p) (Body (pub_bytes ?p)) (pub_replace ?p) c = (Inr o', ds)"
    "map_of (final c ds) = (map_of c)(pub_path ?p \<mapsto> Body (pub_bytes ?p))"
    "\<forall>x \<in> set ds. map_of x = (map_of c)(pub_path ?p \<mapsto> Body (pub_bytes ?p))"
    using publishAtomic_ok [of "pub_replace ?p" c "pub_path ?p" "Body (pub_bytes ?p)"] put(2) Suc.prems(3) by auto
  have next_map: "map_of (final c ds) = map_of (rolled checksum a e d (max m (Suc i)))" using pub(2) put(1) Suc.prems(3) by simp
  then obtain out es where rest: "roll_publications (drop (Suc i) (je_publications e)) (final c ds) = (Inr out, es)"
    "\<forall>x \<in> set es. open_files checksum a e d x" "map_of (final (final c ds) es) = map_of (rolled checksum a e d (length (je_publications e)))"
    using Suc.hyps(1) [of "Suc i" "max m (Suc i)" "final c ds", OF _ _ _ next_map] Suc.hyps(2) i
    by (metis Suc_diff_Suc Suc_inject Suc_leI max.cobounded2)
  have "open_files checksum a e d x" if "x \<in> set ds" for x
    using pub(3) that put(1) Suc.prems(3) by (auto simp: open_files_def)
  with rest show ?case by (auto simp: drop bind_f_def ok pub(1))
qed

lemma rollForward_open:
  assumes j: "journalled checksum a e d" and c: "open_files checksum a e d c"
  shows "\<exists>out ds. rollForward checksum e c = (Inr out, ds) \<and> done_files checksum a e d (final c ds)
    \<and> (\<forall>x \<in> set ds. open_files checksum a e d x \<or> done_files checksum a e d x)"
proof -
  let ?r = "rolled checksum a e d (length (je_publications e))" and ?b = "opening_of checksum a e"
  obtain out ds where roll: "roll_publications (je_publications e) c = (Inr out, ds)" "\<forall>x \<in> set ds. open_files checksum a e d x"
    "map_of (final c ds) = map_of ?r"
    using c roll_from [OF j, of 0 _ c] unfolding open_files_def drop_0 by blast
  have cur: "readCurrent checksum (final c ds) = Inr (Some ?b)"
    by (rule open_pointer(1) [OF j]) (use roll(3) in \<open>auto simp: open_files_def\<close>)
  let ?e = "AList.update (ActivePath (1 - au_slot ?b)) (encodeAuthority checksum (au_record (successor checksum ?b Idle))) (final c ds)"
  have "readCurrent checksum d = Inr (Some a)" using j by (simp add: journalled_def)
  from readCurrent_Some(3) [OF this] have slot: "1 - au_slot ?b = au_slot a" by (simp add: opening_of_def)
  have "idleJournal checksum (je_transactionId e) (final c ds) = (Inr (au_record (successor checksum ?b Idle)), [?e])"
    unfolding idleJournal_def using j
    by (intro appendTransition_ok(1) [OF cur]) (auto simp: journalled_def valid_state_def opening_of_def)
  moreover have "portable_id (je_transactionId e)" using j by (simp add: journalled_def valid_state_def)
  ultimately have run: "rollForward checksum e c = (Inr out, ds @ [?e])"
    by (simp add: rollForward_def retireJournalEntry_def bind_f_def roll(1) assertPortableId_def portable_id_def)
  moreover have fin: "done_files checksum a e d ?e" unfolding done_files_def finished_def slot by (simp add: update_conv' roll(3))
  ultimately show ?thesis using run roll(2) by auto
qed

lemma recover_settled:
  assumes "journalled checksum a e d" and "undecided_files e d c \<or> done_files checksum a e d c"
  shows "recoverOpenJournals checksum c = (Inr [], [])"
  by (simp add: recoverOpenJournals_def bind_f_read readOpen_settled [OF assms])

lemma recover_open:
  assumes j: "journalled checksum a e d" and c: "open_files checksum a e d c"
  shows "\<exists>out ds. recoverOpenJournals checksum c = (Inr out, ds) \<and> done_files checksum a e d (final c ds)
    \<and> (\<forall>x \<in> set ds. open_files checksum a e d x \<or> done_files checksum a e d x)"
proof -
  obtain out ds where run: "rollForward checksum e c = (Inr out, ds)" "done_files checksum a e d (final c ds)"
    "\<forall>x \<in> set ds. open_files checksum a e d x \<or> done_files checksum a e d x" using rollForward_open [OF j c] by blast
  have "recoverOpenJournals checksum c = (Inr out, ds)"
    by (simp add: recoverOpenJournals_def bind_f_read readOpen_open [OF j c] bind_f_def run(1))
  with run(2, 3) show ?thesis by blast
qed

lemma write_entry:
  assumes j: "journalled checksum a e d"
  shows "\<exists>ds. writeJournalEntry checksum e d = (Inr (), ds) \<and> open_files checksum a e d (final d ds)
    \<and> (\<forall>x \<in> set ds. undecided_files e d x \<or> open_files checksum a e d x)"
proof -
  have "map_of d (EntryPath (je_transactionId e)) = None \<or> map_of d (EntryPath (je_transactionId e)) = Some (EntryFile e)"
    using j by (simp add: journalled_def)
  then obtain o' ds where pub: "publishAtomic (EntryPath (je_transactionId e)) (EntryFile e) False d = (Inr o', ds)"
    "map_of (final d ds) = map_of (prepared e d)" "\<forall>x \<in> set ds. map_of x = map_of (prepared e d)"
    using publishAtomic_ok [of False d "EntryPath (je_transactionId e)" "EntryFile e"] by (auto simp: prepared_def update_conv')
  have cur: "readCurrent checksum (final d ds) = Inr (Some a)"
  proof -
    have "readCurrent checksum (final d ds) = readCurrent checksum d"
      by (rule readCurrent_cong) (simp add: pub(2) prepared_def update_conv')
    then show ?thesis using j by (simp add: journalled_def)
  qed
  let ?e = "AList.update (ActivePath (1 - au_slot a)) (encodeAuthority checksum (au_record (opening_of checksum a e))) (final d ds)"
  have "activateJournal checksum e (final d ds) = (Inr (au_record (opening_of checksum a e)), [?e])"
    unfolding activateJournal_def opening_of_def using j
    by (intro appendTransition_ok(1) [OF cur]) (auto simp: journalled_def)
  moreover have "portable_id (je_transactionId e)" using j by (simp add: journalled_def valid_state_def)
  ultimately have run: "writeJournalEntry checksum e d = (Inr (), ds @ [?e])"
    by (simp add: writeJournalEntry_def bind_f_def pub(1) assertPortableId_def portable_id_def)
  moreover have open_e: "open_files checksum a e d ?e"
    unfolding open_files_def by (intro exI [of _ 0]) (simp add: rolled_def files.all_put_def decided_def update_conv' pub(2))
  ultimately show ?thesis using run pub(3) by (auto simp: undecided_files_def)
qed

text \<open>
  A recovery may itself stop at any of its writes. The disks that any number of such attempts
  lead to are those of \<open>interrupted\<close>.
\<close>

inductive interrupted :: "(active_record \<Rightarrow> string) \<Rightarrow> disk \<Rightarrow> disk \<Rightarrow> bool" for checksum :: "active_record \<Rightarrow> string" where
  stopped: "interrupted checksum d d"
| retried: "interrupted checksum c d \<Longrightarrow> e \<in> set (snd (recoverOpenJournals checksum d)) \<Longrightarrow> interrupted checksum c e"

lemma interrupted_phase:
  assumes "interrupted checksum c x" and j: "journalled checksum a e d"
  shows "(undecided_files e d c \<longrightarrow> undecided_files e d x)
    \<and> (open_files checksum a e d c \<or> done_files checksum a e d c \<longrightarrow> open_files checksum a e d x \<or> done_files checksum a e d x)"
  using assms(1)
proof (induction rule: interrupted.induct)
  case (retried c x y)
  have "open_files checksum a e d y \<or> done_files checksum a e d y" if "open_files checksum a e d x"
    using recover_open [OF j that] retried.hyps(2) by (metis snd_conv)
  moreover have "snd (recoverOpenJournals checksum x) = []" if "undecided_files e d x \<or> done_files checksum a e d x"
    using recover_settled [OF j that] by simp
  ultimately show ?case using retried.IH retried.hyps(2) by (metis empty_iff list.set(1))
qed simp

lemma recovered_phase:
  assumes j: "journalled checksum a e d" and "undecided_files e d x \<or> open_files checksum a e d x \<or> done_files checksum a e d x"
  shows "\<exists>out ds. recoverOpenJournals checksum x = (Inr out, ds)
    \<and> (if undecided_files e d x then undecided_files e d (final x ds) else done_files checksum a e d (final x ds))"
  using assms(2) recover_settled [OF j, of x] recover_open [OF j, of x] by (cases "undecided_files e d x") auto

end
