(* ===== verification/Commit_Files.thy ===== *)
theory Commit_Files
  imports Journal Transactions
begin

text \<open>
  The files a transaction publishes, the reading of them, and how they carry out the
  transactions of \<open>Store\<close>.
\<close>

section \<open>The files of a commit\<close>

fun record_publication :: "(kind \<times> id) \<times> entry \<Rightarrow> publication res" where
  "record_publication ((k, i), Live r g) =
     bind_r (assertPortableId i ''record id'') (\<lambda>_.
     Inr \<lparr>pub_path = StatePath k i, pub_bytes = StateBody k i \<lparr>v_generation = g, v_record = r\<rparr>, pub_replace = True,
       pub_retainedPath = None\<rparr>)"
| "record_publication ((k, i), Removed g) =
     bind_r (assertPortableId i ''record id'') (\<lambda>_.
     bind_r (assertPortableId g ''generation'') (\<lambda>_.
     Inr \<lparr>pub_path = MarkerPath k i g, pub_bytes = MarkerBody k i g, pub_replace = False,
       pub_retainedPath = Some (StatePath k i)\<rparr>))"

definition event_publication :: "event \<Rightarrow> publication" where
  "event_publication e = \<lparr>pub_path = EventPath (e_sequence e), pub_bytes = EventBody e, pub_replace = False,
     pub_retainedPath = None\<rparr>"

text \<open>The listing of the event directory: names of sixteen digits are listed in the order of their numbers.\<close>

definition event_numbers :: "disk \<Rightarrow> nat list" where
  "event_numbers d = sort (remdups (List.map_filter (\<lambda>(p, _). case p of EventPath n \<Rightarrow> Some n | _ \<Rightarrow> None) d))"

definition readEventFloor :: "disk \<Rightarrow> nat option" where
  "readEventFloor d = (case map_of d FloorPath of Some (FloorFile n) \<Rightarrow> Some n | _ \<Rightarrow> None)"

definition nextSequence_files :: "disk \<Rightarrow> nat res" where
  "nextSequence_files d =
     (let highest = (if event_numbers d = [] then readEventFloor d else Some (last (event_numbers d)))
      in case highest of
        None \<Rightarrow> Inr 1
      | Some h \<Rightarrow> if int h + 1 > MAX_SAFE_INTEGER then Inl (AccError DATA ''event sequence is exhausted'') else Inr (Suc h))"

text \<open>
  What a transaction publishes once its callback has ended; \<open>before\<close> is the pointer it read when it
  began, and \<open>now\<close> the clock.
\<close>

definition commit_files :: "(active_record \<Rightarrow> string) \<Rightarrow> active_state \<Rightarrow> time \<Rightarrow> view \<Rightarrow> unit fio" where
  "commit_files checksum before now v =
     bind_f (lift_f (map_r record_publication (x_staged v))) (\<lambda>records.
     if x_events v = [] \<and> records = [] then return_f ()
     else if single_record v \<and> before = Idle
       then bind_f (publishAtomic (pub_path (hd records)) (Body (pub_bytes (hd records))) True) (\<lambda>_. return_f ())
     else bind_f (read_f nextSequence_files) (\<lambda>first.
       bind_f (lift_f (throw_if (int first + int (length (x_events v)) - 1 > MAX_SAFE_INTEGER) DATA
         ''event sequence is exhausted'')) (\<lambda>_.
       let es = number_events first (x_events v);
           entry = journalEntry (st_ids (x_store v) ''transaction'' (x_issued v)) first (map event_publication es @ records) now
       in bind_f (lift_f (each_r validate_event es)) (\<lambda>_.
          bind_f (writeJournalEntry checksum entry) (\<lambda>_.
          bind_f (rollForward checksum entry) (\<lambda>_.
          return_f ()))))))"

section \<open>Reading the files back\<close>

definition generation_is_deleted :: "disk \<Rightarrow> kind \<Rightarrow> id \<Rightarrow> id \<Rightarrow> bool res" where
  "generation_is_deleted d k i g =
     bind_r (assertPortableId i ''record id'') (\<lambda>_.
     bind_r (assertPortableId g ''generation'') (\<lambda>_.
     case map_of d (MarkerPath k i g) of
       None \<Rightarrow> Inr False
     | Some (Body (MarkerBody k' i' g')) \<Rightarrow>
         if (k', i', g') = (k, i, g) then Inr True else Inl (AccError DATA ''retention marker does not match its path'')
     | Some _ \<Rightarrow> Inl (AccError DATA ''retention marker is not a closed record'')))"

definition readStateEnvelope_files :: "disk \<Rightarrow> id option \<Rightarrow> kind \<Rightarrow> id \<Rightarrow> envelope option res" where
  "readStateEnvelope_files d workspaceId k i =
     bind_r (assertPortableId i ''record id'') (\<lambda>_.
     case map_of d (StatePath k i) of
       None \<Rightarrow> Inr None
     | Some (Body (StateBody k' i' env)) \<Rightarrow>
         if (k', i') \<noteq> (k, i) then Inl (AccError DATA ''state record does not match its path'')
         else bind_r (generation_is_deleted d k i (v_generation env)) (\<lambda>gone.
           if gone then Inr None
           else bind_r (validate k (v_record env)) (\<lambda>_.
             if workspaceId \<noteq> None \<and> workspace_of (v_record env) \<noteq> workspaceId
             then Inl (AccError DATA ''state record belongs to a different workspace'')
             else Inr (Some env)))
     | Some _ \<Rightarrow> Inl (AccError DATA ''state record is not a valid envelope''))"

definition read_event :: "disk \<Rightarrow> nat \<Rightarrow> event res" where
  "read_event d n = (case map_of d (EventPath n) of
     Some (Body (EventBody e)) \<Rightarrow>
       if e_sequence e = n then Inr e else Inl (AccError DATA ''event record does not match its filename'')
   | _ \<Rightarrow> Inl (AccError DATA ''event record does not match its filename''))"

text \<open>
  A reader of the log holds no lock: the pointer, the listing of the event directory, each event file
  and the floor are read one after the other, at the moments \<open>at 0\<close>, \<open>at 1\<close>, ... of a history of disks
  that writers change in between. The pointer takes the first moments, as many as its attempts may
  need, the listing the one after them. A listed file that is gone is passed over.
\<close>

definition LISTING :: nat where
  "LISTING = 3 * READ_ATTEMPTS"

definition read_event_if_present :: "disk \<Rightarrow> nat \<Rightarrow> event option res" where
  "read_event_if_present d n = (case map_of d (EventPath n) of
     None \<Rightarrow> Inr None | Some _ \<Rightarrow> bind_r (read_event d n) (\<lambda>e. Inr (Some e)))"

fun page_files :: "(nat \<Rightarrow> nat) \<Rightarrow> (nat \<Rightarrow> disk) \<Rightarrow> id \<Rightarrow> nat \<Rightarrow> nat option \<Rightarrow> nat option \<Rightarrow> nat \<Rightarrow> event list \<Rightarrow> nat list
    \<Rightarrow> (event list \<times> nat) res" where
  "page_files at history workspace after ceiling limit k acc [] = Inr (acc, k)"
| "page_files at history workspace after ceiling limit k acc (n # ns) =
     (if n \<le> after then page_files at history workspace after ceiling limit k acc ns
      else if (case ceiling of None \<Rightarrow> False | Some c \<Rightarrow> n \<ge> c) then Inr (acc, k)
      else bind_r (read_event_if_present (history (at k)) n) (\<lambda>found. case found of
        None \<Rightarrow> page_files at history workspace after ceiling limit (Suc k) acc ns
      | Some e \<Rightarrow> bind_r (validate_event e) (\<lambda>_.
          if e_workspaceId e \<noteq> workspace then page_files at history workspace after ceiling limit (Suc k) acc ns
          else if limit = Some (length (acc @ [e])) then Inr (acc @ [e], Suc k)
          else page_files at history workspace after ceiling limit (Suc k) (acc @ [e]) ns)))"

definition eventsSince_files :: "(active_record \<Rightarrow> string) \<Rightarrow> (nat \<Rightarrow> nat) \<Rightarrow> (nat \<Rightarrow> disk) \<Rightarrow> id \<Rightarrow> nat option \<Rightarrow> nat option \<Rightarrow> event_page res" where
  "eventsSince_files checksum at history workspace cursor limit =
     (let after = (case cursor of None \<Rightarrow> 0 | Some c \<Rightarrow> c)
      in bind_r (readJournalCeiling checksum at history) (\<lambda>ceiling.
         bind_r (page_files at history workspace after ceiling limit (Suc LISTING) [] (event_numbers (history (at LISTING)))) (\<lambda>(es, k).
         Inr \<lparr>pg_cursor = (if es = [] then after else e_sequence (last es)), pg_events = es,
           pg_trimmedThrough = readEventFloor (history (at k))\<rparr>)))"

section \<open>The store that files hold\<close>

definition disk_ok :: "disk \<Rightarrow> bool" where
  "disk_ok d \<longleftrightarrow>
     (\<forall>n c. map_of d (EventPath n) = Some c \<longrightarrow> (\<exists>e. c = Body (EventBody e) \<and> e_sequence e = n))
   \<and> (\<forall>k i c. map_of d (StatePath k i) = Some c \<longrightarrow> (\<exists>env. c = Body (StateBody k i env) \<and> portable_id (v_generation env)))
   \<and> (\<forall>k i g c. map_of d (MarkerPath k i g) = Some c \<longrightarrow> c = Body (MarkerBody k i g))"

definition stored :: "disk \<Rightarrow> kind \<Rightarrow> id \<Rightarrow> envelope option" where
  "stored d k i = (case map_of d (StatePath k i) of
     Some (Body (StateBody _ _ env)) \<Rightarrow> if map_of d (MarkerPath k i (v_generation env)) = None then Some env else None
   | _ \<Rightarrow> None)"

definition represents :: "disk \<Rightarrow> store \<Rightarrow> bool" where
  "represents d st \<longleftrightarrow> disk_ok d \<and> (\<forall>k i. stored d k i = map_of (st_state st) (k, i))
     \<and> map_r (read_event d) (event_numbers d) = Inr (st_events st) \<and> readEventFloor d = st_floor st"

lemma set_map_filter_events:
  "set (List.map_filter (\<lambda>(p, _). case p of EventPath n \<Rightarrow> Some n | _ \<Rightarrow> None) d) = {n. map_of d (EventPath n) \<noteq> None}"
proof -
  have "map_of d (EventPath n) \<noteq> None \<longleftrightarrow> (\<exists>c. (EventPath n, c) \<in> set d)" for n
    by (force simp: map_of_eq_None_iff image_iff)
  then show ?thesis by (force simp: map_filter_def split: file_path.splits)
qed

lemma event_numbers_eq: "event_numbers d = sorted_list_of_set {n. map_of d (EventPath n) \<noteq> None}"
  by (simp add: event_numbers_def set_map_filter_events flip: sorted_list_of_set_sort_remdups)

lemma set_event_numbers [simp]: "set (event_numbers d) = {n. map_of d (EventPath n) \<noteq> None}"
  by (simp add: event_numbers_def set_map_filter_events)

lemma finite_events [simp]: "finite {n. map_of (d :: disk) (EventPath n) \<noteq> None}"
  by (rule List.finite_set [of "event_numbers d", unfolded set_event_numbers])

lemma event_numbers_cong:
  "(\<And>n. map_of c (EventPath n) = map_of d (EventPath n)) \<Longrightarrow> event_numbers c = event_numbers d"
  by (simp add: event_numbers_eq)

definition same_record_files :: "disk \<Rightarrow> disk \<Rightarrow> bool" where
  "same_record_files c d \<longleftrightarrow> (\<forall>q. (\<forall>i. q \<noteq> EntryPath i) \<longrightarrow> (\<forall>n. q \<noteq> ActivePath n) \<longrightarrow> map_of c q = map_of d q)"

lemma represents_cong:
  assumes "same_record_files c d" and "represents d st"
  shows "represents c st"
proof -
  have same: "map_of c (EventPath n) = map_of d (EventPath n)" "map_of c (StatePath k i) = map_of d (StatePath k i)"
    "map_of c (MarkerPath k i g) = map_of d (MarkerPath k i g)" "map_of c FloorPath = map_of d FloorPath" for n k i g
    using assms(1) by (simp_all add: same_record_files_def)
  have "event_numbers c = event_numbers d" by (rule event_numbers_cong) (rule same(1))
  moreover have "read_event c = read_event d" by (rule ext) (simp add: read_event_def same)
  moreover have "stored c = stored d" by (intro ext) (simp only: stored_def same)
  moreover have "disk_ok c = disk_ok d" "readEventFloor c = readEventFloor d" by (simp_all only: disk_ok_def readEventFloor_def same)
  ultimately show ?thesis using assms(2) by (simp add: represents_def)
qed

lemma represents_issued [simp]: "represents d (st\<lparr>st_issued := n\<rparr>) = represents d st"
  by (simp add: represents_def)

lemma represents_state: "represents d st \<Longrightarrow> map_of (st_state st) (k, i) = stored d k i"
  by (simp add: represents_def)

text \<open>Reading the files is reading the store they hold.\<close>

lemma readStateEnvelope_agrees:
  assumes "represents d st"
  shows "readStateEnvelope_files d (if bound then Some (st_workspaceId st) else None) k i = readStateEnvelope st bound k i"
proof (cases "map_of d (StatePath k i)")
  case None
  then have "stored d k i = None" by (simp add: stored_def)
  then have "map_of (st_state st) (k, i) = None" using assms by (simp add: represents_def)
  with None show ?thesis by (simp add: readStateEnvelope_files_def readStateEnvelope_def)
next
  case (Some c)
  then obtain env where c: "map_of d (StatePath k i) = Some (Body (StateBody k i env))" and g: "portable_id (v_generation env)"
    using assms unfolding represents_def disk_ok_def by metis
  have st: "map_of (st_state st) (k, i) = (if map_of d (MarkerPath k i (v_generation env)) = None then Some env else None)"
    by (simp add: represents_state [OF assms] stored_def c)
  have marker: "map_of d (MarkerPath k i (v_generation env)) = Some x \<Longrightarrow> x = Body (MarkerBody k i (v_generation env))" for x
    using assms unfolding represents_def disk_ok_def by metis
  have "generation_is_deleted d k i (v_generation env) = Inr (map_of d (MarkerPath k i (v_generation env)) \<noteq> None)" if "portable_id i"
    using marker g that
    by (cases "map_of d (MarkerPath k i (v_generation env))") (auto simp: generation_is_deleted_def assertPortableId_def portable_id_def)
  then show ?thesis
    by (cases "portable_id i") (auto simp: readStateEnvelope_files_def readStateEnvelope_def c st assertPortableId_def portable_id_def)
qed

lemma nextSequence_agrees:
  assumes "represents d st" shows "nextSequence_files d = nextSequence st"
proof -
  have ev: "map_r (read_event d) (event_numbers d) = Inr (st_events st)" using assms by (simp add: represents_def)
  then have len: "length (st_events st) = length (event_numbers d)" by (rule map_r_length)
  have "e_sequence (last (st_events st)) = last (event_numbers d)" if "event_numbers d \<noteq> []"
  proof -
    have "read_event d (last (event_numbers d)) = Inr (last (st_events st))"
      using ev that len unfolding map_r_eq_Inr list_all2_conv_all_nth by (metis diff_less last_conv_nth length_greater_0_conv zero_less_one)
    then show ?thesis by (auto simp: read_event_def split: option.splits content.splits file_body.splits if_splits)
  qed
  with len assms show ?thesis by (auto simp: nextSequence_files_def nextSequence_def represents_def Let_def)
qed

section \<open>What a commit publishes\<close>

text \<open>
  The identifiers a commit takes are new: a generation it gives a record was never retired, and
  no journal entry has its transaction's name; and they can be part of a file's name.
\<close>

definition fresh_names :: "view \<Rightarrow> disk \<Rightarrow> bool" where
  "fresh_names v d \<longleftrightarrow>
     (\<forall>((k, i), en) \<in> set (x_staged v). portable_id i \<and> (case en of
         Live r g \<Rightarrow> portable_id g \<and> map_of d (MarkerPath k i g) = None | Removed g \<Rightarrow> portable_id g))
   \<and> portable_id (st_ids (x_store v) ''transaction'' (x_issued v))
   \<and> map_of d (EntryPath (st_ids (x_store v) ''transaction'' (x_issued v))) = None"

fun publication_of :: "(kind \<times> id) \<times> entry \<Rightarrow> publication" where
  "publication_of ((k, i), Live r g) = \<lparr>pub_path = StatePath k i, pub_bytes = StateBody k i \<lparr>v_generation = g, v_record = r\<rparr>,
     pub_replace = True, pub_retainedPath = None\<rparr>"
| "publication_of ((k, i), Removed g) = \<lparr>pub_path = MarkerPath k i g, pub_bytes = MarkerBody k i g, pub_replace = False,
     pub_retainedPath = Some (StatePath k i)\<rparr>"

lemma record_publications:
  assumes "fresh_names v d"
  shows "map_r record_publication (x_staged v) = Inr (map publication_of (x_staged v))"
proof -
  have "record_publication x = Inr (publication_of x)" if "x \<in> set (x_staged v)" for x
    using assms that by (cases x rule: publication_of.cases)
      (auto simp: fresh_names_def assertPortableId_def portable_id_def)
  then show ?thesis by (simp add: map_r_eq_Inr list_all2_map2 list_all2_same)
qed

definition publications_of :: "nat \<Rightarrow> view \<Rightarrow> publication list" where
  "publications_of first v = map event_publication (number_events first (x_events v)) @ map publication_of (x_staged v)"

lemma event_publication_simps [simp]:
  "pub_path (event_publication e) = EventPath (e_sequence e)" "pub_bytes (event_publication e) = EventBody e"
  "pub_replace (event_publication e) = False" "pub_retainedPath (event_publication e) = None"
  by (simp_all add: event_publication_def)

lemma publication_paths [simp]:
  "EventPath n = pub_path (publication_of (key, en)) \<longleftrightarrow> False" "FloorPath = pub_path (publication_of (key, en)) \<longleftrightarrow> False"
  "StatePath k i = pub_path (publication_of (key, en)) \<longleftrightarrow> key = (k, i) \<and> (\<exists>r g. en = Live r g)"
  "MarkerPath k i g = pub_path (publication_of (key, en)) \<longleftrightarrow> key = (k, i) \<and> en = Removed g"
  by (cases key; cases en; auto)+

lemma inj_publication_path:
  "pub_path (publication_of x) = pub_path (publication_of y) \<Longrightarrow> fst x = fst y"
  by (cases x rule: publication_of.cases; cases y rule: publication_of.cases) auto

lemma map_sequence_number_events: "map e_sequence (number_events n es) = [n ..< n + length es]"
  by (induction n es rule: number_events.induct) (simp_all add: upt_conv_Cons del: upt_Suc)

lemma distinct_finer:
  assumes "distinct (map f xs)" and "\<And>x y. g x = g y \<Longrightarrow> f x = f y"
  shows "distinct (map g xs)"
proof -
  have "g (xs ! i) \<noteq> g (xs ! j)" if "i < length xs" "j < length xs" "i \<noteq> j" for i j
  proof
    assume "g (xs ! i) = g (xs ! j)"
    then have "f (xs ! i) = f (xs ! j)" by (rule assms(2))
    with assms(1) that show False by (simp add: distinct_conv_nth)
  qed
  then show ?thesis by (simp add: distinct_conv_nth)
qed

lemma distinct_publications:
  assumes "distinct (map fst (x_staged v))"
  shows "distinct (map pub_path (publications_of first v))"
proof -
  have "distinct (map (pub_path \<circ> publication_of) (x_staged v))"
    by (rule distinct_finer [OF assms], rule inj_publication_path) simp
  moreover have "distinct (map (pub_path \<circ> event_publication) (number_events first (x_events v)))"
    by (rule distinct_finer [of e_sequence]) (simp_all add: map_sequence_number_events)
  moreover have "EventPath n \<noteq> pub_path (publication_of x)" for n x by (cases x rule: publication_of.cases) auto
  ultimately show ?thesis by (auto simp: publications_of_def)
qed

section \<open>Committing through the journal\<close>

text \<open>The pointer a commit finds: idle, with two generations left.\<close>

definition idle_pointer :: "(active_record \<Rightarrow> string) \<Rightarrow> authority \<Rightarrow> disk \<Rightarrow> bool" where
  "idle_pointer checksum a d \<longleftrightarrow> hex_digest checksum \<and> readCurrent checksum d = Inr (Some a) \<and> ar_state (au_record a) = Idle
     \<and> Suc (Suc (ar_generation (au_record a))) < GENERATION_LIMIT"

definition entry_of :: "nat \<Rightarrow> time \<Rightarrow> view \<Rightarrow> journal_entry" where
  "entry_of first now v = journalEntry (st_ids (x_store v) ''transaction'' (x_issued v)) first (publications_of first v) now"

lemma entry_of_simps [simp]:
  "je_journalVersion (entry_of first now v) = JOURNAL_VERSION" "je_publications (entry_of first now v) = publications_of first v"
  "je_transactionId (entry_of first now v) = st_ids (x_store v) ''transaction'' (x_issued v)" "je_firstSequence (entry_of first now v) = first"
  by (simp_all add: entry_of_def journalEntry_def)

lemma sorted_le_last: "sorted xs \<Longrightarrow> x \<in> set xs \<Longrightarrow> x \<le> last xs"
  by (induction xs rule: rev_induct) (auto simp: sorted_append)

lemma next_above:
  assumes "represents d st" and "nextSequence st = Inr first"
  shows "map_of d (EventPath n) \<noteq> None \<Longrightarrow> n < first" "int first \<le> MAX_SAFE_INTEGER"
proof -
  have eq: "nextSequence_files d = Inr first" using assms by (simp add: nextSequence_agrees)
  then show "int first \<le> MAX_SAFE_INTEGER"
    by (auto simp: nextSequence_files_def Let_def MAX_SAFE_INTEGER_def split: option.splits if_splits)
  assume "map_of d (EventPath n) \<noteq> None"
  then have n: "n \<in> set (event_numbers d)" by simp
  then have ne: "event_numbers d \<noteq> []" by (metis list.distinct(1) list.set_cases)
  have "sorted (event_numbers d)" by (simp add: event_numbers_def)
  then have "n \<le> last (event_numbers d)" using n by (rule sorted_le_last)
  with eq ne show "n < first" by (auto simp: nextSequence_files_def Let_def split: if_splits)
qed

lemma event_mem: "e \<in> set (number_events first es) \<Longrightarrow> first \<le> e_sequence e \<and> e_sequence e < first + length es"
  by (induction first es rule: number_events.induct) auto

lemma commit_journalled:
  assumes rep: "represents d (x_store v)" and fresh: "fresh_names v d" and "distinct (map fst (x_staged v))"
    and first: "nextSequence (x_store v) = Inr first" and "idle_pointer checksum a d"
  shows "journalled checksum a (entry_of first now v) d"
proof -
  have "assert_destination (pub_path p) = Inr () \<and> assert_retained (pub_retainedPath p) = Inr ()
      \<and> (pub_replace p \<or> map_of d (pub_path p) \<in> {None, Some (Body (pub_bytes p))})"
    if p: "p \<in> set (publications_of first v)" for p
  proof (cases "p \<in> set (map event_publication (number_events first (x_events v)))")
    case True
    then obtain e where e: "p = event_publication e" "e \<in> set (number_events first (x_events v))" by auto
    then have "map_of d (EventPath (e_sequence e)) = None" using event_mem next_above(1) [OF rep first] by fastforce
    then show ?thesis by (simp add: e(1) managed_destinations assert_retained_def)
  next
    case False
    then obtain x where x: "p = publication_of x" "x \<in> set (x_staged v)" using p by (auto simp: publications_of_def)
    have marker: "map_of d (MarkerPath k i g) \<in> {None, Some (Body (MarkerBody k i g))}" for k i g
      using rep by (cases "map_of d (MarkerPath k i g)") (auto simp: represents_def disk_ok_def)
    have names: "case x of ((k, i), Live r g) \<Rightarrow> portable_id i | ((k, i), Removed g) \<Rightarrow> portable_id i \<and> portable_id g"
      using fresh x(2) by (auto simp: fresh_names_def split: entry.splits prod.splits)
    show ?thesis using marker names unfolding x(1)
      by (cases x rule: publication_of.cases) (simp_all add: managed_destinations assert_retained_def)
  qed
  moreover have "first < GENERATION_LIMIT" using next_above(2) [OF rep first] by (simp add: GENERATION_LIMIT_def MAX_SAFE_INTEGER_def)
  ultimately show ?thesis
    using assms(5) fresh distinct_publications [OF assms(3)]
    by (auto simp: journalled_def idle_pointer_def fresh_names_def valid_state_def)
qed

lemma finished_published:
  assumes j: "journalled checksum a e d" and p: "p \<in> set (je_publications e)"
  shows "map_of (finished checksum a e d) (pub_path p) = Some (Body (pub_bytes p))"
proof -
  have "distinct (map pub_path (je_publications e))" using j by (simp add: journalled_def)
  then have "find (\<lambda>q. pub_path q = pub_path p) (je_publications e) = Some p"
    using p by (intro find_unique) (auto simp: distinct_map dest: inj_onD)
  then have "map_of (rolled checksum a e d (length (je_publications e))) (pub_path p) = Some (Body (pub_bytes p))"
    by (simp add: map_of_rolled [OF j])
  then show ?thesis using managed_not_journal [OF j p] by (simp add: finished_def update_conv')
qed

lemma finished_other:
  assumes j: "journalled checksum a e d" and "q \<notin> pub_path ` set (je_publications e)"
    and "\<And>i. q \<noteq> EntryPath i" and "\<And>n. q \<noteq> ActivePath n"
  shows "map_of (finished checksum a e d) q = map_of d q"
proof -
  have "map_of (rolled checksum a e d (length (je_publications e))) q = map_of (decided checksum a e d) q"
    by (rule rolled_journal [OF j]) (use assms(2) in blast)
  with assms(3, 4) show ?thesis by (simp add: finished_def decided_def prepared_def update_conv')
qed

text \<open>The records after the publications of a commit are those of \<open>publish_entry\<close>.\<close>

definition publishes :: "view \<Rightarrow> disk \<Rightarrow> disk \<Rightarrow> bool" where
  "publishes v d c \<longleftrightarrow>
     (\<forall>k i. map_of c (StatePath k i) = (case map_of (x_staged v) (k, i) of
        Some (Live r g) \<Rightarrow> Some (Body (StateBody k i \<lparr>v_generation = g, v_record = r\<rparr>)) | _ \<Rightarrow> map_of d (StatePath k i)))
   \<and> (\<forall>k i g. map_of c (MarkerPath k i g) = (if map_of (x_staged v) (k, i) = Some (Removed g)
        then Some (Body (MarkerBody k i g)) else map_of d (MarkerPath k i g)))
   \<and> map_of c FloorPath = map_of d FloorPath"

lemma publishes_stored:
  assumes pub: "publishes v d c" and rep: "represents d (x_store v)" and fresh: "fresh_names v d"
    and dist: "distinct (map fst (x_staged v))"
  shows "stored c k i = map_of (st_state (published v)) (k, i)"
proof -
  note state = represents_state [OF rep, of k i] and after = map_of_publish_all [OF dist, of "st_state (x_store v)" "(k, i)"]
  have files: "map_of c (StatePath k i) = (case map_of (x_staged v) (k, i) of
        Some (Live r g) \<Rightarrow> Some (Body (StateBody k i \<lparr>v_generation = g, v_record = r\<rparr>)) | _ \<Rightarrow> map_of d (StatePath k i))"
      "\<And>g. map_of c (MarkerPath k i g) = (if map_of (x_staged v) (k, i) = Some (Removed g)
        then Some (Body (MarkerBody k i g)) else map_of d (MarkerPath k i g))"
    using pub by (simp_all add: publishes_def)
  show ?thesis
  proof (cases "map_of (x_staged v) (k, i)")
    case None
    then have "stored c k i = stored d k i" by (simp only: stored_def files option.case if_False option.distinct)
    with None after show ?thesis by (simp add: published_def state)
  next
    case (Some en)
    show ?thesis
    proof (cases en)
      case (Live r g)
      have "((k, i), Live r g) \<in> set (x_staged v)" using Some Live by (simp add: map_of_SomeD)
      then have "map_of d (MarkerPath k i g) = None" using fresh by (auto simp: fresh_names_def)
      then show ?thesis using after by (simp add: published_def stored_def files Some Live)
    next
      case (Removed g)
      show ?thesis
      proof (cases "map_of d (StatePath k i)")
        case (Some c0)
        then obtain env where env: "map_of d (StatePath k i) = Some (Body (StateBody k i env))"
          using rep unfolding represents_def disk_ok_def by metis
        show ?thesis using after by (simp add: published_def stored_def files \<open>map_of (x_staged v) (k, i) = Some en\<close> Removed env state)
      qed (use after in \<open>simp add: published_def stored_def files Some Removed state\<close>)
    qed
  qed
qed

lemma publishes_ok:
  assumes pub: "publishes v d c" and ok: "disk_ok d" and fresh: "fresh_names v d"
  shows "\<forall>k i x. map_of c (StatePath k i) = Some x \<longrightarrow> (\<exists>env. x = Body (StateBody k i env) \<and> portable_id (v_generation env))"
    "\<forall>k i g x. map_of c (MarkerPath k i g) = Some x \<longrightarrow> x = Body (MarkerBody k i g)"
proof (intro allI impI)
  fix k i x assume x: "map_of c (StatePath k i) = Some x"
  show "\<exists>env. x = Body (StateBody k i env) \<and> portable_id (v_generation env)"
  proof (cases "\<exists>r g. map_of (x_staged v) (k, i) = Some (Live r g)")
    case True
    then obtain r g where rg: "map_of (x_staged v) (k, i) = Some (Live r g)" by blast
    then have "portable_id g" using fresh by (auto simp: fresh_names_def dest!: map_of_SomeD)
    with rg x pub show ?thesis by (auto simp: publishes_def)
  next
    case False
    then have "map_of d (StatePath k i) = Some x" using x pub by (auto simp: publishes_def split: option.splits entry.splits)
    with ok show ?thesis unfolding disk_ok_def by metis
  qed
next
  show "\<forall>k i g x. map_of c (MarkerPath k i g) = Some x \<longrightarrow> x = Body (MarkerBody k i g)"
    using pub ok by (auto simp: publishes_def disk_ok_def split: if_splits)
qed

lemma finished_publishes:
  assumes j: "journalled checksum a (entry_of first now v) d" and c: "done_files checksum a (entry_of first now v) d c"
    and dist: "distinct (map fst (x_staged v))"
  shows "publishes v d c" and "\<And>n. map_of c (EventPath n) = (case find (\<lambda>e. e_sequence e = n) (number_events first (x_events v)) of
      Some e \<Rightarrow> Some (Body (EventBody e)) | None \<Rightarrow> map_of d (EventPath n))"
proof -
  note pubs = finished_published [OF j, unfolded entry_of_simps]
  note others = finished_other [OF j, unfolded entry_of_simps]
  note c = c [unfolded done_files_def]
  show "map_of c (EventPath n) = (case find (\<lambda>e. e_sequence e = n) (number_events first (x_events v)) of
      Some e \<Rightarrow> Some (Body (EventBody e)) | None \<Rightarrow> map_of d (EventPath n))" for n
  proof (cases "find (\<lambda>e. e_sequence e = n) (number_events first (x_events v))")
    case None
    then have "EventPath n \<notin> pub_path ` set (publications_of first v)"
      by (auto simp: find_None_iff publications_of_def)
    then show ?thesis by (simp add: c None others)
  next
    case (Some e)
    then have e: "e \<in> set (number_events first (x_events v))" "e_sequence e = n" by (auto simp: find_Some_iff)
    then have "event_publication e \<in> set (publications_of first v)" by (simp add: publications_of_def)
    from pubs [OF this] Some e show ?thesis by (simp add: c)
  qed
  have staged: "publication_of ((k, i), en) \<in> set (publications_of first v)" if "map_of (x_staged v) (k, i) = Some en" for k i en
    using map_of_SomeD [OF that] by (auto simp: publications_of_def)
  have gone: "en = en'" if "((k, i), en) \<in> set (x_staged v)" "map_of (x_staged v) (k, i) = Some en'" for k i en en'
    using that dist by simp
  have state: "map_of c (StatePath k i) = map_of d (StatePath k i)" if "\<forall>r g. map_of (x_staged v) (k, i) \<noteq> Some (Live r g)" for k i
  proof -
    have "StatePath k i \<notin> pub_path ` set (publications_of first v)"
      using that dist by (auto simp: publications_of_def)
    then show ?thesis by (simp add: c others)
  qed
  have marker: "map_of c (MarkerPath k i g) = map_of d (MarkerPath k i g)" if "map_of (x_staged v) (k, i) \<noteq> Some (Removed g)" for k i g
  proof -
    have "MarkerPath k i g \<notin> pub_path ` set (publications_of first v)"
      using that dist by (auto simp: publications_of_def)
    then show ?thesis by (simp add: c others)
  qed
  have "FloorPath \<notin> pub_path ` set (publications_of first v)" by (auto simp: publications_of_def)
  then have "map_of c FloorPath = map_of d FloorPath" by (simp add: c others)
  moreover have "map_of c (StatePath k i) = Some (Body (StateBody k i \<lparr>v_generation = g, v_record = r\<rparr>))"
    if "map_of (x_staged v) (k, i) = Some (Live r g)" for k i r g
    using pubs [OF staged [OF that]] by (simp add: c)
  moreover have "map_of c (MarkerPath k i g) = Some (Body (MarkerBody k i g))"
    if "map_of (x_staged v) (k, i) = Some (Removed g)" for k i g
    using pubs [OF staged [OF that]] by (simp add: c)
  ultimately show "publishes v d c" using state marker by (auto simp: publishes_def split: option.splits entry.splits)
qed

lemma sorted_distinct_same: "sorted xs \<Longrightarrow> distinct xs \<Longrightarrow> sorted ys \<Longrightarrow> distinct ys \<Longrightarrow> set xs = set ys \<Longrightarrow> xs = (ys :: nat list)"
  by (rule sorted_distinct_set_unique)

lemma sorted_event_numbers: "sorted (event_numbers d)" "distinct (event_numbers d)"
  by (simp_all add: event_numbers_def)

text \<open>Files at and above a number follow those below it in the listing.\<close>

lemma event_numbers_above:
  assumes "\<And>n. map_of d (EventPath n) \<noteq> None \<Longrightarrow> n < first"
    and "\<And>n. n < first \<Longrightarrow> map_of c (EventPath n) = map_of d (EventPath n)"
    and new: "sorted new" "distinct new" "\<And>n. n \<in> set new \<longleftrightarrow> first \<le> n \<and> map_of c (EventPath n) \<noteq> None"
  shows "event_numbers c = event_numbers d @ new"
proof (rule sorted_distinct_same [OF sorted_event_numbers])
  have "x < first" if "x \<in> set (event_numbers d)" for x using that assms(1) by simp
  then show "sorted (event_numbers d @ new)" "distinct (event_numbers d @ new)"
    using new sorted_event_numbers [of d] by (fastforce simp: sorted_append)+
  show "set (event_numbers c) = set (event_numbers d @ new)"
    using assms(1, 2) new(3) by (auto simp: set_eq_iff)
qed

lemma number_events_find:
  "e \<in> set (number_events first es) \<Longrightarrow> find (\<lambda>x. e_sequence x = e_sequence e) (number_events first es) = Some e"
proof (rule find_unique)
  fix y assume "e \<in> set (number_events first es)" "y \<in> set (number_events first es)" "e_sequence y = e_sequence e"
  moreover have "inj_on e_sequence (set (number_events first es))"
    using map_sequence_number_events [of first es] by (metis distinct_map distinct_upt)
  ultimately show "y = e" by (meson inj_onD)
qed simp_all

lemma number_events_missing: "n < first \<Longrightarrow> find (\<lambda>x. e_sequence x = n) (number_events first es) = None"
  unfolding find_None_iff using event_mem [of _ first es] by (auto simp: not_less [symmetric])

lemma read_event_cong: "map_of c (EventPath n) = map_of d (EventPath n) \<Longrightarrow> read_event c n = read_event d n"
  by (simp add: read_event_def)

lemma finished_represents:
  assumes rep: "represents d (x_store v)" and fresh: "fresh_names v d" and dist: "distinct (map fst (x_staged v))"
    and first: "nextSequence (x_store v) = Inr first" and p: "idle_pointer checksum a d"
    and c: "done_files checksum a (entry_of first now v) d c"
  shows "represents c ((published v)\<lparr>st_events := st_events (x_store v) @ number_events first (x_events v), st_issued := k\<rparr>)"
proof -
  let ?es = "number_events first (x_events v)"
  note j = commit_journalled [OF rep fresh dist first p, of now]
  note pub = finished_publishes [OF j c dist]
  have old: "map_of c (EventPath n) = map_of d (EventPath n)" if "n < first" for n
    using pub(2) number_events_missing [OF that] by simp
  have new: "map_of c (EventPath (e_sequence e)) = Some (Body (EventBody e))" if "e \<in> set ?es" for e
    using pub(2) number_events_find [OF that] by simp
  have mem: "n \<in> set (map e_sequence ?es) \<longleftrightarrow> first \<le> n \<and> map_of c (EventPath n) \<noteq> None" for n
  proof
    assume "n \<in> set (map e_sequence ?es)"
    then obtain e where "e \<in> set ?es" "n = e_sequence e" by auto
    with new event_mem show "first \<le> n \<and> map_of c (EventPath n) \<noteq> None" by auto
  next
    assume n: "first \<le> n \<and> map_of c (EventPath n) \<noteq> None"
    then have "map_of d (EventPath n) = None" using next_above(1) [OF rep first, of n] by (metis not_le)
    with n pub(2) [of n] show "n \<in> set (map e_sequence ?es)" by (auto simp: find_Some_iff split: option.splits)
  qed
  have numbers: "event_numbers c = event_numbers d @ map e_sequence ?es"
    by (rule event_numbers_above [OF next_above(1) [OF rep first] old _ _ mem]) (simp_all add: map_sequence_number_events)
  have "list_all2 (\<lambda>n e. read_event d n = Inr e) (event_numbers d) (st_events (x_store v))"
    using rep by (simp add: represents_def map_r_eq_Inr)
  moreover have "read_event c n = read_event d n" if "n \<in> set (event_numbers d)" for n
    using that next_above(1) [OF rep first] by (intro read_event_cong old) simp
  ultimately have "list_all2 (\<lambda>n e. read_event c n = Inr e) (event_numbers d) (st_events (x_store v))"
    by (elim list.rel_mono_strong) simp
  moreover have "list_all2 (\<lambda>n e. read_event c n = Inr e) (map e_sequence ?es) ?es"
    by (simp add: list_all2_map1 list_all2_same read_event_def new)
  ultimately have events: "map_r (read_event c) (event_numbers c) = Inr (st_events (x_store v) @ ?es)"
    by (simp add: numbers map_r_eq_Inr list_all2_appendI)
  have "disk_ok d" using rep by (simp add: represents_def)
  then have "\<forall>n x. map_of c (EventPath n) = Some x \<longrightarrow> (\<exists>e. x = Body (EventBody e) \<and> e_sequence e = n)"
    using pub(2) by (auto simp: disk_ok_def find_Some_iff split: option.splits)
  with publishes_ok [OF pub(1) \<open>disk_ok d\<close> fresh] have "disk_ok c" by (simp add: disk_ok_def)
  moreover have "readEventFloor c = st_floor (published v)"
    using rep pub(1) by (simp add: represents_def publishes_def readEventFloor_def published_def)
  ultimately show ?thesis
    using events publishes_stored [OF pub(1) rep fresh dist] by (simp add: represents_def)
qed

section \<open>A commit that stops anywhere\<close>

lemma recover_idle:
  assumes "readCurrent checksum x = Inr (Some a)" and "ar_state (au_record a) = Idle"
  shows "recoverOpenJournals checksum x = (Inr [], [])"
  by (simp add: recoverOpenJournals_def bind_f_read readOpenJournals_def readActiveJournal_def assms)

lemma interrupted_idle:
  "interrupted checksum c x \<Longrightarrow> readCurrent checksum c = Inr (Some a) \<Longrightarrow> ar_state (au_record a) = Idle \<Longrightarrow> x = c"
  by (induction rule: interrupted.induct) (simp_all add: recover_idle)

definition settles :: "(active_record \<Rightarrow> string) \<Rightarrow> disk \<Rightarrow> store \<Rightarrow> store \<Rightarrow> bool" where
  "settles checksum c old new \<longleftrightarrow> (\<forall>x. interrupted checksum c x \<longrightarrow> (\<exists>out es. recoverOpenJournals checksum x = (Inr out, es)
     \<and> (represents (final x es) old \<or> represents (final x es) new)))"

lemma settles_idle:
  assumes "readCurrent checksum c = Inr (Some a)" and "ar_state (au_record a) = Idle" and "represents c old \<or> represents c new"
  shows "settles checksum c old new"
  unfolding settles_def using interrupted_idle [OF _ assms(1, 2)] recover_idle [OF assms(1, 2)] assms(3) by fastforce

lemma same_undecided:
  "undecided_files e d x \<Longrightarrow> same_record_files x d"
  by (auto simp: undecided_files_def same_record_files_def prepared_def update_conv')

lemma settles_journalled:
  assumes j: "journalled checksum a e d" and old: "represents d st"
    and new: "\<And>c. done_files checksum a e d c \<Longrightarrow> represents c st'"
    and c: "undecided_files e d c \<or> open_files checksum a e d c \<or> done_files checksum a e d c"
  shows "settles checksum c st st'"
  unfolding settles_def
proof (intro allI impI)
  fix x assume "interrupted checksum c x"
  from interrupted_phase [OF this j] c have "undecided_files e d x \<or> open_files checksum a e d x \<or> done_files checksum a e d x" by blast
  from recovered_phase [OF j this] obtain out es where "recoverOpenJournals checksum x = (Inr out, es)"
    "undecided_files e d (final x es) \<or> done_files checksum a e d (final x es)" by metis
  with new same_undecided represents_cong [OF _ old]
  show "\<exists>out es. recoverOpenJournals checksum x = (Inr out, es) \<and> (represents (final x es) st \<or> represents (final x es) st')"
    by blast
qed

lemma single_publishes:
  assumes "single_record v" and "represents d (x_store v)" and fresh: "fresh_names v d"
  shows "\<exists>p. map publication_of (x_staged v) = [p] \<and> (\<forall>n. pub_path p \<noteq> ActivePath n)
    \<and> (\<forall>c. map_of c = (map_of d)(pub_path p \<mapsto> Body (pub_bytes p)) \<longrightarrow> represents c (published v))"
proof -
  obtain k i r g where s: "x_staged v = [((k, i), Live r g)]"
    using assms(1) by (auto simp: single_record_def split: list.splits prod.splits entry.splits)
  let ?p = "publication_of ((k, i), Live r g)"
  have "represents c (published v)" if c: "map_of c = (map_of d)(pub_path ?p \<mapsto> Body (pub_bytes ?p))" for c
  proof -
    have pub: "publishes v d c" by (auto simp: publishes_def s c)
    have ev: "map_of c (EventPath n) = map_of d (EventPath n)" for n by (simp add: c)
    have "event_numbers c = event_numbers d" "read_event c = read_event d"
      by (rule event_numbers_cong [OF ev], rule ext, rule read_event_cong [OF ev])
    moreover have ok: "disk_ok d" using assms(2) by (simp add: represents_def)
    have "\<forall>n x. map_of c (EventPath n) = Some x \<longrightarrow> (\<exists>e. x = Body (EventBody e) \<and> e_sequence e = n)"
      using ok unfolding ev disk_ok_def by (elim conjE)
    with publishes_ok [OF pub ok fresh] have "disk_ok c" unfolding disk_ok_def by (intro conjI)
    moreover have "readEventFloor c = readEventFloor d" by (simp add: readEventFloor_def c)
    ultimately show ?thesis using assms(2) publishes_stored [OF pub assms(2) fresh]
      by (simp add: represents_def s) (simp add: published_def)
  qed
  then show ?thesis by (intro exI [of _ ?p]) (simp add: s)
qed

text \<open>
  The disks a commit leads through: nothing is open and the files hold the store before or after
  it, or its entry is being rolled forward.
\<close>

definition settled_disk :: "(active_record \<Rightarrow> string) \<Rightarrow> store \<Rightarrow> store \<Rightarrow> disk \<Rightarrow> bool" where
  "settled_disk checksum old new c \<longleftrightarrow> (\<exists>b. readCurrent checksum c = Inr (Some b) \<and> ar_state (au_record b) = Idle)
     \<and> (represents c old \<or> represents c new)"

definition open_disk :: "(active_record \<Rightarrow> string) \<Rightarrow> authority \<Rightarrow> time \<Rightarrow> view \<Rightarrow> disk \<Rightarrow> disk \<Rightarrow> bool" where
  "open_disk checksum a now v d c \<longleftrightarrow> (\<exists>first. nextSequence (x_store v) = Inr first \<and> open_files checksum a (entry_of first now v) d c)"

text \<open>A commit that goes through the journal.\<close>

lemma commit_journal_run:
  assumes rep: "represents d (x_store v)" and fresh: "fresh_names v d" and dist: "distinct (map fst (x_staged v))"
    and p: "idle_pointer checksum a d" and many: "\<not> single_record v" "x_events v \<noteq> [] \<or> x_staged v \<noteq> []"
    and first: "nextSequence (x_store v) = Inr first" and top: "int first + int (length (x_events v)) - 1 \<le> MAX_SAFE_INTEGER"
    and valid: "each_r validate_event (number_events first (x_events v)) = Inr ()"
  shows "\<exists>ds. commit_files checksum Idle now v d = (Inr (), ds) \<and> done_files checksum a (entry_of first now v) d (final d ds)
    \<and> (\<forall>c \<in> set (d # ds). undecided_files (entry_of first now v) d c \<or> open_files checksum a (entry_of first now v) d c
      \<or> done_files checksum a (entry_of first now v) d c)"
proof -
  note j = commit_journalled [OF rep fresh dist first p, of now]
  let ?e = "entry_of first now v"
  obtain ds where w: "writeJournalEntry checksum ?e d = (Inr (), ds)" "open_files checksum a ?e d (final d ds)"
    "\<forall>x \<in> set ds. undecided_files ?e d x \<or> open_files checksum a ?e d x" using write_entry [OF j] by blast
  obtain out es where r: "rollForward checksum ?e (final d ds) = (Inr out, es)" "done_files checksum a ?e d (final (final d ds) es)"
    "\<forall>x \<in> set es. open_files checksum a ?e d x \<or> done_files checksum a ?e d x" using rollForward_open [OF j w(2)] by blast
  have "commit_files checksum Idle now v d = (Inr (), ds @ es)"
    using many top valid w(1) r(1)
    by (auto simp: commit_files_def record_publications [OF fresh] bind_f_read nextSequence_agrees [OF rep] first Let_def bind_f_def
        entry_of_def publications_of_def)
  then show ?thesis using w(3) r(2, 3) by (intro exI [of _ "ds @ es"]) (auto simp: undecided_files_def)
qed

lemma commit_files_run:
  assumes rep: "represents d (x_store v)" and fresh: "fresh_names v d" and dist: "distinct (map fst (x_staged v))"
    and p: "idle_pointer checksum a d" and com: "commit v = Inr st'"
  shows "\<exists>ds. commit_files checksum Idle now v d = (Inr (), ds) \<and> represents (final d ds) st'
    \<and> (\<forall>c \<in> set (d # ds). settled_disk checksum (x_store v) st' c \<or> open_disk checksum a now v d c)"
proof -
  note recs = record_publications [OF fresh]
  have cur: "readCurrent checksum d = Inr (Some a)" "ar_state (au_record a) = Idle" using p by (simp_all add: idle_pointer_def)
  consider (none) "x_events v = [] \<and> x_staged v = []" | (single) "x_staged v \<noteq> []" "single_record v" | (many) "x_events v \<noteq> [] \<or> x_staged v \<noteq> []" "\<not> single_record v"
    by (auto simp: single_record_def)
  then show ?thesis
  proof cases
    case none
    with com have "represents d st'" using rep by (auto simp: commit_def)
    moreover have "commit_files checksum Idle now v d = (Inr (), [])" using none by (simp add: commit_files_def)
    ultimately show ?thesis using cur rep by (simp add: settled_disk_def)
  next
    case single
    with com have st': "st' = published v" by (auto simp: commit_def)
    obtain q where q: "map publication_of (x_staged v) = [q]"
      "\<forall>n. pub_path q \<noteq> ActivePath n" "\<forall>c. map_of c = (map_of d)(pub_path q \<mapsto> Body (pub_bytes q)) \<longrightarrow> represents c (published v)"
      using single_publishes [OF single(2) rep fresh] by (elim exE conjE) (rule that; assumption)
    let ?c = "AList.update (pub_path q) (Body (pub_bytes q)) d"
    have run: "commit_files checksum Idle now v d = (Inr (), [?c])"
      using single(2) by (simp add: commit_files_def recs q(1) publishAtomic_eq bind_f_def)
    have rep': "represents ?c st'" using q(3) st' by (simp add: update_conv')
    have "readCurrent checksum ?c = readCurrent checksum d"
      by (rule readCurrent_cong) (simp add: update_conv' q(2) [THEN spec, THEN not_sym])
    with cur have "readCurrent checksum ?c = Inr (Some a)" by simp
    with run rep rep' cur show ?thesis by (simp add: settled_disk_def)
  next
    case many
    then obtain first where first: "nextSequence (x_store v) = Inr first"
      and top: "int first + int (length (x_events v)) - 1 \<le> MAX_SAFE_INTEGER"
      and valid: "each_r validate_event (number_events first (x_events v)) = Inr ()"
      and st': "st' = (published v)\<lparr>st_events := st_events (x_store v) @ number_events first (x_events v), st_issued := Suc (x_issued v)\<rparr>"
      using com by (auto simp: commit_def bind_r_eq_Inr Let_def split: if_splits)
    note j = commit_journalled [OF rep fresh dist first p, of now]
    let ?e = "entry_of first now v"
    obtain ds where r: "commit_files checksum Idle now v d = (Inr (), ds)" "done_files checksum a ?e d (final d ds)"
      and phases: "\<And>c. c \<in> set (d # ds) \<Longrightarrow> undecided_files ?e d c \<or> open_files checksum a ?e d c \<or> done_files checksum a ?e d c"
      using commit_journal_run [OF rep fresh dist p many(2, 1) first top valid, of now] by blast
    have new: "represents c st'" if "done_files checksum a ?e d c" for c
      unfolding st' by (rule finished_represents [OF rep fresh dist first p that])
    have "represents (final d ds) st'" using new [OF r(2)] .
    moreover have "settled_disk checksum (x_store v) st' c \<or> open_disk checksum a now v d c" if "c \<in> set (d # ds)" for c
    proof -
      note phases [OF that]
      moreover have "settled_disk checksum (x_store v) st' c" if "undecided_files ?e d c \<or> done_files checksum a ?e d c"
        using settled_pointer [OF j that] that new same_undecided represents_cong [OF _ rep] unfolding settled_disk_def by blast
      ultimately show ?thesis using first by (auto simp: open_disk_def)
    qed
    ultimately show ?thesis using r(1) by blast
  qed
qed

lemma commit_done:
  assumes rep: "represents d (x_store v)" and fresh: "fresh_names v d" and dist: "distinct (map fst (x_staged v))"
    and p: "idle_pointer checksum a d" and com: "commit v = Inr st'" and first: "nextSequence (x_store v) = Inr first"
    and c: "done_files checksum a (entry_of first now v) d c"
  shows "represents c st'"
proof -
  have "st_state st' = st_state (published v) \<and> st_floor st' = st_floor (published v)
      \<and> st_events st' = st_events (x_store v) @ number_events first (x_events v)"
    using com first by (auto simp: commit_def published_def single_record_def bind_r_eq_Inr Let_def split: if_splits)
  with finished_represents [OF rep fresh dist first p c, of 0] show ?thesis by (simp add: represents_def)
qed

text \<open>
  C2. A transaction is all or nothing on the disk: committing a view carries out \<open>commit\<close>, and a process
  that stops at any write of it, with any number of recoveries that stop at any write after
  it, leaves files from which the next recovery returns with exactly the store from before
  the transaction or exactly the store after it.
\<close>

theorem interrupted_commit_is_all_or_nothing:
  assumes "represents d (x_store v)" and "fresh_names v d" and "distinct (map fst (x_staged v))"
    and "idle_pointer checksum a d" and "commit v = Inr st'"
  shows "\<exists>ds. commit_files checksum Idle now v d = (Inr (), ds) \<and> represents (final d ds) st'
    \<and> (\<forall>c \<in> set (d # ds). \<forall>x. interrupted checksum c x \<longrightarrow> (\<exists>out es. recoverOpenJournals checksum x = (Inr out, es)
        \<and> (represents (final x es) (x_store v) \<or> represents (final x es) st')))"
proof -
  have "settles checksum c (x_store v) st'" if "settled_disk checksum (x_store v) st' c \<or> open_disk checksum a now v d c" for c
  proof (cases "open_disk checksum a now v d c")
    case True
    then obtain first where first: "nextSequence (x_store v) = Inr first" and c: "open_files checksum a (entry_of first now v) d c"
      by (auto simp: open_disk_def)
    have "represents y st'" if "done_files checksum a (entry_of first now v) d y" for y
      using commit_done [OF assms first that] .
    then show ?thesis
      using c by (intro settles_journalled [OF commit_journalled [OF assms(1 - 3) first assms(4)] assms(1)]) auto
  qed (use that settles_idle in \<open>auto simp: settled_disk_def\<close>)
  then show ?thesis using commit_files_run [OF assms, of now] unfolding settles_def by blast
qed

section \<open>A first transaction\<close>

definition first_event :: event where
  "first_event = \<lparr>e_sequence = 1, e_eventId = ''e'', e_workspaceId = ''w'', e_actorSessionId = ''s1'',
     e_type = ''session.opened'', e_occurredAt = 0, e_payload = []\<rparr>"

definition first_participant :: entity where
  "first_participant = ParticipantR \<lparr>p_participantId = ''alice'', p_workspaceId = ''w'', p_displayName = ''Alice'', p_kind = ''agent'', p_createdAt = 0\<rparr>"

definition empty_store :: store where
  "empty_store = \<lparr>st_workspaceId = ''w'', st_ids = (\<lambda>label n. label), st_issued = 0, st_state = [], st_ephemeral = [], st_events = [], st_floor = None\<rparr>"

definition first_view :: view where
  "first_view = \<lparr>x_wanted = None, x_exact = [], x_loaded = [], x_staged = [((Participant, ''alice''), Live first_participant ''g'')],
     x_events = [first_event], x_issued = 0, x_store = empty_store\<rparr>"

definition first_store :: store where
  "first_store = empty_store\<lparr>st_state := [((Participant, ''alice''), \<lparr>v_generation = ''g'', v_record = first_participant\<rparr>)],
     st_events := [first_event], st_issued := 1\<rparr>"

lemma first_commit: "commit first_view = Inr first_store"
proof -
  have "validate_event first_event = Inr ()" by code_simp
  moreover have "first_event\<lparr>e_sequence := Suc 0\<rparr> = first_event" by (simp add: first_event_def)
  ultimately show ?thesis
    by (simp add: commit_eval first_view_def empty_store_def published_def publish_entry_def first_store_def)
qed

lemma first_hypotheses:
  "represents sample_open (x_store first_view)" "fresh_names first_view sample_open" "distinct (map fst (x_staged first_view))"
  "idle_pointer sample_sum sample_pointer sample_open"
proof -
  have "event_numbers sample_open = []" by (simp add: event_numbers_def sample_open_def map_filter_def)
  then show "represents sample_open (x_store first_view)"
    by (simp add: represents_def disk_ok_def stored_def readEventFloor_def first_view_def empty_store_def)
      (simp add: sample_open_def)
  have "portable_id ''alice''" "portable_id ''g''" "portable_id ''transaction''" by code_simp+
  then show "fresh_names first_view sample_open" by (simp add: fresh_names_def first_view_def empty_store_def sample_open_def)
  show "distinct (map fst (x_staged first_view))" by (simp add: first_view_def)
  show "idle_pointer sample_sum sample_pointer sample_open"
    by (simp add: idle_pointer_def hex_sample_sum sample_current) (simp add: sample_pointer_def genesis_def GENERATION_LIMIT_def)
qed

theorem interrupted_commit_is_all_or_nothing_witness:
  "\<exists>ds. commit_files sample_sum Idle 0 first_view sample_open = (Inr (), ds) \<and> represents (final sample_open ds) first_store"
  using interrupted_commit_is_all_or_nothing [OF first_hypotheses first_commit, of 0] by blast

end
