(* ===== verification/Recovery.thy ===== *)
theory Recovery
  imports Commit_Files Prune
begin

text \<open>
  The identity of a store, opening one, and what \<^verbatim>\<open>acc doctor\<close> finds and repairs: the
  inspection of identity, journal, state files and event files, and the repair that rolls open
  entries forward and retires the journal entries the pointer does not name. Counting and sweeping
  stages changes no file of the model and is left out.
\<close>

section \<open>Identity\<close>

definition STORE_VERSION :: nat where
  "STORE_VERSION = 8"

definition MIGRATABLE :: "nat list" where
  "MIGRATABLE = [6, 7]"

datatype refusal = Migration_required acc_error | Refused acc_error

definition assertIdentity :: "content \<Rightarrow> id option \<Rightarrow> nat list \<Rightarrow> refusal + identity" where
  "assertIdentity found workspaceId versions = (case found of
     IdentityFile r \<Rightarrow>
       if si_storeVersion r \<notin> set versions
       then if si_storeVersion r \<in> set MIGRATABLE
         then Inl (Migration_required (AccError DATA ''store contract requires migration''))
         else Inl (Refused (AccError DATA ''unknown store version''))
       else if si_initialisedAt r = None then Inl (Refused (AccError DATA ''invalid store identity''))
       else if \<not> portable_id (si_workspaceId r) then Inl (Refused (AccError DATA ''invalid store workspace id''))
       else if workspaceId \<noteq> None \<and> workspaceId \<noteq> Some (si_workspaceId r)
         then Inl (Refused (AccError DATA ''store belongs to a different workspace''))
       else Inr r
   | _ \<Rightarrow> Inl (Refused (AccError DATA ''unknown store version'')))"

fun refusal_error :: "refusal \<Rightarrow> acc_error" where
  "refusal_error (Migration_required e) = e"
| "refusal_error (Refused e) = e"

definition identity_res :: "refusal + identity \<Rightarrow> identity res" where
  "identity_res r = (case r of Inl e \<Rightarrow> Inl (refusal_error e) | Inr i \<Rightarrow> Inr i)"

definition requireStoreIdentity :: "id \<Rightarrow> time \<Rightarrow> bool \<Rightarrow> identity fio" where
  "requireStoreIdentity workspaceId now create =
     bind_f (lift_f (assertPortableId workspaceId ''workspace id'')) (\<lambda>_.
     bind_f (read_f (\<lambda>d. Inr (map_of d IdentityPath))) (\<lambda>found. case found of
       Some r \<Rightarrow> lift_f (identity_res (assertIdentity r (Some workspaceId) [STORE_VERSION]))
     | None \<Rightarrow> if \<not> create then lift_f (Inl (AccError DATA ''store is not initialised''))
         else bind_f (catch_f CONFLICT (publishAtomic IdentityPath (IdentityFile
             \<lparr>si_storeVersion = STORE_VERSION, si_workspaceId = workspaceId, si_initialisedAt = Some now\<rparr>) False) Already_published) (\<lambda>_.
           read_f (\<lambda>d. case map_of d IdentityPath of
             None \<Rightarrow> Inl (JsError ''TypeError'')
           | Some r \<Rightarrow> identity_res (assertIdentity r (Some workspaceId) [STORE_VERSION])))))"

definition readStoreIdentity :: "disk \<Rightarrow> refusal + identity option" where
  "readStoreIdentity d = (case map_of d IdentityPath of
     None \<Rightarrow> Inr None
   | Some r \<Rightarrow> (case assertIdentity r None [STORE_VERSION] of Inl e \<Rightarrow> Inl e | Inr i \<Rightarrow> Inr (Some i)))"

section \<open>Opening a store\<close>

text \<open>
  \<^verbatim>\<open>openFilesystemStore\<close>: the identity, the pointer, and recovery, in this order, before
  anything is read.
\<close>

definition openFilesystemStore :: "(active_record \<Rightarrow> string) \<Rightarrow> id \<Rightarrow> time \<Rightarrow> unit fio" where
  "openFilesystemStore checksum workspaceId now =
     bind_f (requireStoreIdentity workspaceId now True) (\<lambda>_.
     bind_f (initialiseActiveJournal checksum) (\<lambda>_.
     bind_f (recoverOpenJournals checksum) (\<lambda>_.
     return_f ())))"

section \<open>Inspection\<close>

datatype fault = JournalArea | At file_path

record inspection =
  in_pending :: "journal_entry list"
  in_blocked :: "fault list"
  in_corrupt :: "fault list"
  in_migrationRequired :: bool

definition state_files :: "disk \<Rightarrow> file_path list" where
  "state_files d = filter (\<lambda>p. case p of StatePath _ _ \<Rightarrow> True | _ \<Rightarrow> False) (remdups (map fst d))"

definition state_file_ok :: "disk \<Rightarrow> file_path \<Rightarrow> bool" where
  "state_file_ok d p = (case (p, map_of d p) of
     (StatePath k i, Some (Body (StateBody k' i' env))) \<Rightarrow> k' = k \<and> i' = i \<and> validate k (v_record env) = Inr ()
   | _ \<Rightarrow> False)"

fun check_events :: "disk \<Rightarrow> bool \<Rightarrow> nat \<Rightarrow> nat list \<Rightarrow> fault list" where
  "check_events d pending expected [] = []"
| "check_events d pending expected (n # ns) = (case bind_r (read_event d n) validate_event of
     Inl _ \<Rightarrow> At (EventPath n) # check_events d pending expected ns
   | Inr _ \<Rightarrow> (if n \<noteq> expected \<and> \<not> pending then [At (EventPath n)] else []) @ check_events d pending (Suc n) ns)"

definition inspect :: "(active_record \<Rightarrow> string) \<Rightarrow> disk \<Rightarrow> inspection" where
  "inspect checksum d = (case readStoreIdentity d of
     Inl e \<Rightarrow> \<lparr>in_pending = [], in_blocked = [At IdentityPath], in_corrupt = [],
       in_migrationRequired = (case e of Migration_required _ \<Rightarrow> True | Refused _ \<Rightarrow> False)\<rparr>
   | Inr found \<Rightarrow>
       let blocked = (if found = None then [At IdentityPath] else [])
       in case readOpenJournals checksum d of
         Inl _ \<Rightarrow> \<lparr>in_pending = [], in_blocked = blocked, in_corrupt = [JournalArea], in_migrationRequired = False\<rparr>
       | Inr pending \<Rightarrow> \<lparr>in_pending = pending, in_blocked = blocked,
           in_corrupt = map At (filter (\<lambda>p. \<not> state_file_ok d p) (state_files d)) @ check_events d (pending \<noteq> []) 1 (event_numbers d),
           in_migrationRequired = False\<rparr>)"

record repair_report =
  rr_healthy :: bool
  rr_repaired :: "id list"
  rr_blocked :: "fault list"
  rr_corrupt :: "fault list"
  rr_trimmedThrough :: "nat option"

definition report :: "inspection \<Rightarrow> id list \<Rightarrow> nat option \<Rightarrow> repair_report" where
  "report state repaired trimmedThrough = \<lparr>rr_healthy = (in_blocked state = [] \<and> in_corrupt state = []), rr_repaired = repaired,
     rr_blocked = in_blocked state, rr_corrupt = in_corrupt state, rr_trimmedThrough = trimmedThrough\<rparr>"

definition diagnoseFilesystemStore :: "(active_record \<Rightarrow> string) \<Rightarrow> disk \<Rightarrow> repair_report" where
  "diagnoseFilesystemStore checksum d =
     (let state = inspect checksum d in report state (map je_transactionId (in_pending state)) (readEventFloor d))"

section \<open>Repair\<close>

definition condemnRetiredJournals :: "(active_record \<Rightarrow> string) \<Rightarrow> disk \<Rightarrow> disk" where
  "condemnRetiredJournals checksum d = (case readActiveJournal checksum d of
     Inl _ \<Rightarrow> d
   | Inr active \<Rightarrow> filter (\<lambda>(p, _). case p of
       EntryPath i \<Rightarrow> (case ar_state active of Open t _ \<Rightarrow> i = t | Idle \<Rightarrow> False)
     | _ \<Rightarrow> True) d)"

definition repairFilesystemStore :: "(active_record \<Rightarrow> string) \<Rightarrow> repair_report fio" where
  "repairFilesystemStore checksum d =
     (let state = inspect checksum d in
      if in_blocked state \<noteq> [] \<or> in_corrupt state \<noteq> [] then (Inr (report state [] None), [])
      else bind_f (read_f (readOpenJournals checksum)) (\<lambda>entries.
        bind_f (roll_all checksum entries) (\<lambda>_.
        bind_f (\<lambda>e. (Inr (), [condemnRetiredJournals checksum e])) (\<lambda>_.
        read_f (\<lambda>e. Inr (report \<lparr>in_pending = [], in_blocked = [], in_corrupt = [], in_migrationRequired = False\<rparr>
          (map je_transactionId entries) (readEventFloor e)))))) d)"

definition assertRepairable :: "repair_report \<Rightarrow> repair_report res" where
  "assertRepairable r = bind_r (throw_if (\<not> rr_healthy r) DATA ''store state is ambiguous; repair is blocked'') (\<lambda>_. Inr r)"

section \<open>Opening\<close>

text \<open>The first record of the pointer, on a disk with no slot.\<close>

lemma initialise_empty:
  fixes checksum :: "active_record \<Rightarrow> string"
  assumes "map_of d (ActivePath 0) = None" and "map_of d (ActivePath 1) = None"
  defines "e \<equiv> AList.update (ActivePath 0) (encodeAuthority checksum genesis) d"
  shows "initialiseActiveJournal checksum d = (Inr genesis, [e])"
    and "readCurrent checksum e = Inr (Some \<lparr>au_checksum = checksum genesis, au_record = genesis, au_slot = 0\<rparr>)"
proof -
  show cur: "readCurrent checksum e = Inr (Some \<lparr>au_checksum = checksum genesis, au_record = genesis, au_slot = 0\<rparr>)"
    using assms(2) by (simp add: e_def readCurrent_eq update_conv' selectAuthority_def decode_slot_def decodeAuthority_def encodeAuthority_def
        validateActiveRecord_def genesis_def GENERATION_LIMIT_def)
  have none: "readCurrent checksum d = Inr None" using assms(1, 2) by (simp add: readCurrent_eq selectAuthority_def decode_slot_def)
  have "readActiveJournal checksum e = Inr genesis" by (simp add: readActiveJournal_def cur)
  then show "initialiseActiveJournal checksum d = (Inr genesis, [e])"
    using assms(1) by (simp add: initialiseActiveJournal_def bind_f_read none catch_f_def bind_f_def publishAtomic_eq e_def)
qed

text \<open>
  C37. A store never adopts another workspace's directory: opening a root whose identity names another
  workspace, or another contract, is refused and writes nothing.
\<close>

theorem foreign_store_is_refused:
  assumes "map_of d IdentityPath = Some (IdentityFile r)" and "si_workspaceId r \<noteq> workspaceId \<or> si_storeVersion r \<noteq> STORE_VERSION"
  shows "\<exists>msg. openFilesystemStore checksum workspaceId now d = (Inl (AccError DATA msg), [])"
proof (cases "portable_id workspaceId")
  case True
  then have "assertPortableId workspaceId ''workspace id'' = Inr workspaceId" by (simp add: assertPortableId_ok)
  with assms show ?thesis
    by (auto simp: openFilesystemStore_def requireStoreIdentity_def bind_f_def assertIdentity_def identity_res_def)
next
  case False
  then show ?thesis
    by (simp add: openFilesystemStore_def requireStoreIdentity_def bind_f_def assertPortableId_error)
qed

theorem foreign_store_is_refused_witness:
  "\<exists>msg. openFilesystemStore sample_sum ''w''  0
     [(IdentityPath, IdentityFile \<lparr>si_storeVersion = 8, si_workspaceId = ''other'', si_initialisedAt = Some 0\<rparr>)]
     = (Inl (AccError DATA msg), [])"
  by (rule foreign_store_is_refused [where r = "\<lparr>si_storeVersion = 8, si_workspaceId = ''other'', si_initialisedAt = Some 0\<rparr>"]) simp_all

section \<open>What repair does\<close>

lemma check_events_first:
  assumes "n \<noteq> expected"
  shows "At (EventPath n) \<in> set (check_events d False expected (n # ns))"
  using assms by (simp split: sum.splits)

text \<open>
  C38. A trimmed log is taken for a damaged one: in a store whose oldest events were trimmed, with
  nothing else wrong, the inspection reports the first event that is left as corrupt, because it
  expects every log to begin at sequence one; the store is then called unhealthy, and repair
  changes nothing and is refused.
\<close>

theorem trimmed_log_is_reported_corrupt:
  assumes "represents d st" and "readStoreIdentity d = Inr (Some i)" and "readCurrent checksum d = Inr (Some a)"
    and "ar_state (au_record a) = Idle" and "st_events st = e # es" and "1 < e_sequence e"
  shows "At (EventPath (e_sequence e)) \<in> set (rr_corrupt (diagnoseFilesystemStore checksum d))
    \<and> \<not> rr_healthy (diagnoseFilesystemStore checksum d)
    \<and> (\<exists>r. repairFilesystemStore checksum d = (Inr r, []) \<and> assertRepairable r
        = Inl (AccError DATA ''store state is ambiguous; repair is blocked''))"
proof -
  have "readOpenJournals checksum d = Inr []" by (simp add: readOpenJournals_def readActiveJournal_def assms(3, 4))
  then have insp: "in_pending (inspect checksum d) = []" "in_blocked (inspect checksum d) = []"
    "in_corrupt (inspect checksum d) = map At (filter (\<lambda>p. \<not> state_file_ok d p) (state_files d)) @ check_events d False 1 (event_numbers d)"
    by (simp_all add: inspect_def assms(2))
  have "map_r (read_event d) (event_numbers d) = Inr (e # es)" using assms(1, 5) by (simp add: represents_def)
  then obtain ns where "event_numbers d = e_sequence e # ns"
    by (cases "event_numbers d") (auto simp: bind_r_eq_Inr read_event_def split: option.splits content.splits file_body.splits if_splits)
  then have mem: "At (EventPath (e_sequence e)) \<in> set (in_corrupt (inspect checksum d))"
    using check_events_first [of "e_sequence e" 1] assms(6) by (simp add: insp)
  then have "in_corrupt (inspect checksum d) \<noteq> []" by auto
  then show ?thesis using mem
    by (simp add: diagnoseFilesystemStore_def repairFilesystemStore_def report_def Let_def assertRepairable_def)
qed

definition trimmed_workspace :: store where
  "trimmed_workspace = logged_workspace\<lparr>st_floor := Some 1, st_events := [sample_event 2]\<rparr>"

definition trimmed_disk :: disk where
  "trimmed_disk = [(IdentityPath, IdentityFile \<lparr>si_storeVersion = 8, si_workspaceId = ''w'', si_initialisedAt = Some 0\<rparr>),
     (FloorPath, FloorFile 1), (EventPath 2, Body (EventBody (sample_event 2)))] @ sample_open"

lemma trimmed_files:
  "event_numbers trimmed_disk = [2]" "map_of trimmed_disk FloorPath = Some (FloorFile 1)"
  "map_of trimmed_disk (EventPath n) = (if n = 2 then Some (Body (EventBody (sample_event 2))) else None)"
  "map_of trimmed_disk (StatePath k i) = None" "map_of trimmed_disk (MarkerPath k i g) = None"
  "map_of trimmed_disk (ActivePath n) = map_of sample_open (ActivePath n)"
  by (simp_all add: trimmed_disk_def sample_open_def event_numbers_def map_filter_def)

theorem trimmed_log_is_reported_corrupt_witness:
  "trimEventLog 512 1 logged_workspace = Inr (1, trimmed_workspace) \<and> represents trimmed_disk trimmed_workspace
    \<and> \<not> rr_healthy (diagnoseFilesystemStore sample_sum trimmed_disk)"
proof -
  have run: "trimEventLog 512 1 logged_workspace = Inr (1, trimmed_workspace)"
    by (simp add: trimEventLog_def raiseEventFloor_def allocated_def logged_workspace_def trimmed_workspace_def) (simp add: sample_event_def)
  have rep: "represents trimmed_disk trimmed_workspace"
    by (simp add: represents_def disk_ok_def stored_def readEventFloor_def trimmed_files read_event_def trimmed_workspace_def logged_workspace_def)
      (simp add: sample_event_def)
  have cur: "readCurrent sample_sum trimmed_disk = Inr (Some sample_pointer)"
    using sample_current by (simp add: readCurrent_eq trimmed_files)
  have "readStoreIdentity trimmed_disk = Inr (Some \<lparr>si_storeVersion = 8, si_workspaceId = ''w'', si_initialisedAt = Some 0\<rparr>)"
  proof -
    have "portable_id ''w''" by code_simp
    then show ?thesis by (simp add: readStoreIdentity_def trimmed_disk_def assertIdentity_def STORE_VERSION_def)
  qed
  from trimmed_log_is_reported_corrupt [OF rep this cur, of "sample_event 2" "[]"]
  show ?thesis using run rep by (simp add: sample_pointer_def genesis_def trimmed_workspace_def) (simp add: sample_event_def)
qed

end
