(* ===== verification/Readers.thy ===== *)
theory Readers
  imports Commit_Files
begin

text \<open>
  A reader of the event log beside a commit. The commit leads through a sequence of disks, one
  file written at a time; the reader reads the pointer, the listing, each event file and the floor at
  moments of that sequence, with no lock. What it is given is the page of a log between
  the one before the transaction and the one after it.
\<close>

section \<open>The disks a commit leads through\<close>

text \<open>One write: a file takes a value, and the pointer moves only as its transitions do.\<close>

definition file_step :: "(active_record \<Rightarrow> string) \<Rightarrow> disk \<Rightarrow> disk \<Rightarrow> bool" where
  "file_step checksum d e \<longleftrightarrow> (\<exists>p c. e = AList.update p c d) \<and> pointer_step checksum d e"

definition traces :: "(disk \<Rightarrow> disk \<Rightarrow> bool) \<Rightarrow> 'a fio \<Rightarrow> bool" where
  "traces R m \<longleftrightarrow> (\<forall>d. successively R (d # snd (m d)))"

named_theorems traces_intros

lemma traces_bind_result:
  assumes "traces R m" and "\<And>d x ds. m d = (Inr x, ds) \<Longrightarrow> traces R (f x)"
  shows "traces R (bind_f m f)"
  unfolding traces_def
proof
  fix d
  obtain r ds where run: "m d = (r, ds)" by (metis prod.exhaust)
  have one: "successively R (d # ds)" using assms(1) run unfolding traces_def by (metis snd_conv)
  show "successively R (d # snd (bind_f m f d))"
  proof (cases r)
    case (Inr x)
    obtain r' es where rest: "f x (final d ds) = (r', es)" by (metis prod.exhaust)
    have "successively R (final d ds # es)" using assms(2) run Inr rest unfolding traces_def by (metis snd_conv)
    then have "es = [] \<or> R (last (d # ds)) (hd es) \<and> successively R es" by (cases es) (simp_all add: final_def)
    with one have "successively R ((d # ds) @ es)" unfolding successively_append_iff by auto
    then show ?thesis by (simp add: bind_f_def run Inr rest)
  qed (simp add: bind_f_def run one)
qed

lemma traces_bind [traces_intros]: "traces R m \<Longrightarrow> (\<And>x. traces R (f x)) \<Longrightarrow> traces R (bind_f m f)"
  by (rule traces_bind_result)

lemma traces_lift [traces_intros]: "traces R (lift_f r)" "traces R (return_f x)" "traces R (read_f g)"
  by (simp_all add: traces_def)

lemma traces_bind_lift: "(\<And>x. r = Inr x \<Longrightarrow> traces R (f x)) \<Longrightarrow> traces R (bind_f (lift_f r) f)"
  by (rule traces_bind_result) (auto intro: traces_intros)

lemma traces_if [traces_intros]: "(b \<Longrightarrow> traces R m) \<Longrightarrow> (\<not> b \<Longrightarrow> traces R n) \<Longrightarrow> traces R (if b then m else n)"
  by simp

lemma traces_publish:
  assumes "\<And>n. p \<noteq> ActivePath n" shows "traces (file_step checksum) (publishAtomic p c overwrite)"
proof -
  have "pointer_step checksum d (AList.update p c d)" for d
    unfolding pointer_step_def by (rule disjI1) (use assms [THEN not_sym] in \<open>simp add: update_conv'\<close>)
  then have "file_step checksum d (AList.update p c d)" for d unfolding file_step_def by blast
  then show ?thesis by (simp add: traces_def publishAtomic_eq)
qed

lemma traces_append: "traces (file_step checksum) (appendTransition checksum next_state expected)"
  unfolding traces_def
proof
  fix d
  obtain r ds where run: "appendTransition checksum next_state expected d = (r, ds)" by (metis prod.exhaust)
  show "successively (file_step checksum) (d # snd (appendTransition checksum next_state expected d))"
  proof (cases r)
    case (Inl e)
    then have "ds = []" using run
      by (auto simp: appendTransition_def bind_f_read nextGeneration_def Let_def publishAtomic_eq bind_f_def
          split: sum.splits option.splits if_splits)
    with run show ?thesis by simp
  next
    case (Inr x)
    note moved = run [unfolded Inr]
    obtain e where e: "ds = [e]" "\<exists>p c. e = AList.update p c d" by (rule appendTransition_shape [OF moved]) blast
    then have "pointer_step checksum d e" using moved unfolding pointer_step_def by blast
    with e run show ?thesis by (simp add: file_step_def)
  qed
qed

lemma traces_journal [traces_intros]:
  "traces (file_step checksum) (writeJournalEntry checksum entry)" "traces (file_step checksum) (rollForward checksum entry)"
proof -
  show "traces (file_step checksum) (writeJournalEntry checksum entry)"
    unfolding writeJournalEntry_def activateJournal_def by (intro traces_intros traces_append traces_publish) simp
  have "traces (file_step checksum) (roll_publications ps)" for ps
  proof (induction ps)
    case (Cons p ps)
    have "pub_path p \<noteq> ActivePath n" if "assert_destination (pub_path p) = Inr x" for x n
      using that journal_paths_refused by (cases x) auto
    then show ?case unfolding roll_publications.simps
      by (intro traces_bind_lift traces_bind traces_publish Cons.IH traces_lift)
  qed (simp only: roll_publications.simps traces_lift)
  then show "traces (file_step checksum) (rollForward checksum entry)"
    unfolding rollForward_def retireJournalEntry_def idleJournal_def by (intro traces_intros traces_append)
qed

lemma record_path: "record_publication x = Inr p \<Longrightarrow> pub_path p \<noteq> ActivePath n"
  by (cases x rule: record_publication.cases) (auto simp: bind_r_eq_Inr)

lemma traces_commit: "traces (file_step checksum) (commit_files checksum before now v)"
  unfolding commit_files_def Let_def
proof (rule traces_bind_lift)
  fix records assume records: "map_r record_publication (x_staged v) = Inr records"
  have path: "pub_path (hd records) \<noteq> ActivePath n" if "\<not> (x_events v = [] \<and> records = [])" "single_record v \<and> before = Idle" for n
  proof -
    have "x_staged v \<noteq> []" using that(2) by (auto simp: single_record_def)
    then obtain x xs where "x_staged v = x # xs" by (cases "x_staged v") auto
    with records obtain p ps where "record_publication x = Inr p" "records = p # ps" by (auto simp: bind_r_eq_Inr)
    with record_path show ?thesis by auto
  qed
  show "traces (file_step checksum) (if x_events v = [] \<and> records = [] then return_f ()
     else if single_record v \<and> before = Idle
       then bind_f (publishAtomic (pub_path (hd records)) (Body (pub_bytes (hd records))) True) (\<lambda>_. return_f ())
     else bind_f (read_f nextSequence_files) (\<lambda>first.
       bind_f (lift_f (throw_if (int first + int (length (x_events v)) - 1 > MAX_SAFE_INTEGER) DATA
         ''event sequence is exhausted'')) (\<lambda>_.
          bind_f (lift_f (each_r validate_event (number_events first (x_events v)))) (\<lambda>_.
          bind_f (writeJournalEntry checksum (journalEntry (st_ids (x_store v) ''transaction'' (x_issued v)) first
            (map event_publication (number_events first (x_events v)) @ records) now)) (\<lambda>_.
          bind_f (rollForward checksum (journalEntry (st_ids (x_store v) ''transaction'' (x_issued v)) first
            (map event_publication (number_events first (x_events v)) @ records) now)) (\<lambda>_.
          return_f ()))))))"
    by (intro traces_intros traces_publish path)
qed

text \<open>The disks in time, the last one for ever.\<close>

definition history_of :: "disk \<Rightarrow> disk list \<Rightarrow> nat \<Rightarrow> disk" where
  "history_of d ds t = (d # ds) ! min t (length ds)"

lemma history_mem: "history_of d ds t \<in> set (d # ds)"
  unfolding history_of_def by (rule nth_mem) simp

lemma history_0 [simp]: "history_of d ds 0 = d"
  by (simp add: history_of_def)

lemma history_end: "history_of d ds (length ds) = final d ds"
  by (simp add: history_of_def final_def last_conv_nth)

lemma history_step:
  assumes "successively R (d # ds)"
  shows "R (history_of d ds t) (history_of d ds (Suc t)) \<or> history_of d ds (Suc t) = history_of d ds t"
proof (cases "t < length ds")
  case True
  then have "Suc t < length (d # ds)" by simp
  with assms have "R ((d # ds) ! t) ((d # ds) ! Suc t)" unfolding successively_conv_nth by blast
  with True show ?thesis by (simp add: history_of_def)
qed (simp add: history_of_def)

definition commit_moments :: "(active_record \<Rightarrow> string) \<Rightarrow> time \<Rightarrow> view \<Rightarrow> disk \<Rightarrow> nat \<Rightarrow> disk" where
  "commit_moments checksum now v d = history_of d (snd (commit_files checksum Idle now v d))"

lemma moments_0 [simp]: "commit_moments checksum now v d 0 = d"
  by (simp add: commit_moments_def)

lemma moments_step: "file_step checksum (commit_moments checksum now v d t) (commit_moments checksum now v d (Suc t))
    \<or> commit_moments checksum now v d (Suc t) = commit_moments checksum now v d t"
  unfolding commit_moments_def using traces_commit [of checksum Idle now v] by (intro history_step) (simp add: traces_def)

lemma moments_pointer: "pointer_history checksum (commit_moments checksum now v d)"
  unfolding pointer_history_def
proof
  fix t
  from moments_step [of checksum now v d t]
  show "pointer_step checksum (commit_moments checksum now v d t) (commit_moments checksum now v d (Suc t))"
  proof
    assume "commit_moments checksum now v d (Suc t) = commit_moments checksum now v d t"
    then show ?thesis unfolding pointer_step_def by (intro disjI1) simp
  qed (simp add: file_step_def)
qed

lemma moments_keep_file:
  assumes "s \<le> t" and "map_of (commit_moments checksum now v d s) q \<noteq> None"
  shows "map_of (commit_moments checksum now v d t) q \<noteq> None"
  using assms
proof (induction t rule: dec_induct)
  case (step t)
  then show ?case using moments_step [of checksum now v d t] by (auto simp: file_step_def update_conv')
qed

section \<open>What is on the disk of the events\<close>

text \<open>The first \<open>m\<close> of the new events are there, and of the others what was there before.\<close>

definition log_part :: "disk \<Rightarrow> nat \<Rightarrow> event list \<Rightarrow> nat \<Rightarrow> disk \<Rightarrow> bool" where
  "log_part d first new m c \<longleftrightarrow> map_of c FloorPath = map_of d FloorPath
     \<and> (\<forall>n. map_of c (EventPath n) = (if first \<le> n \<and> n < first + m then Some (Body (EventBody (new ! (n - first)))) else map_of d (EventPath n)))"

lemma find_numbered:
  assumes "m \<le> length es"
  shows "find (\<lambda>e. e_sequence e = n) (take m (number_events first es))
    = (if first \<le> n \<and> n < first + m then Some (number_events first es ! (n - first)) else None)"
proof -
  let ?new = "number_events first es"
  have len: "length ?new = length es" using map_sequence_number_events [of first es] by (metis length_map length_upt diff_add_inverse)
  have seq: "e_sequence (?new ! j) = first + j" if "j < length es" for j
    using that len map_sequence_number_events [of first es] by (metis nth_map nth_upt add_less_cancel_left)
  show ?thesis
  proof (cases "first \<le> n \<and> n < first + m")
    case True
    then have j: "n - first < m" by arith
    then have "?new ! (n - first) \<in> set (take m ?new)" using assms len by (auto simp: in_set_conv_nth intro!: exI [of _ "n - first"])
    moreover have "e_sequence (?new ! (n - first)) = n" using seq [of "n - first"] j assms True by simp
    moreover have "y = ?new ! (n - first)" if y: "y \<in> set (take m ?new)" "e_sequence y = n" for y
    proof -
      obtain i where i: "i < m" "i < length es" "y = ?new ! i" using y(1) len by (auto simp: in_set_conv_nth)
      have "n = first + i" by (rule trans [OF y(2) [symmetric] seq [OF i(2), folded i(3)]])
      then show ?thesis by (simp add: i(3))
    qed
    ultimately have "find (\<lambda>e. e_sequence e = n) (take m ?new) = Some (?new ! (n - first))" by (rule find_unique)
    with True show ?thesis by (simp only: if_True simp_thms)
  next
    case False
    have "e_sequence y \<noteq> n" if y: "y \<in> set (take m ?new)" for y
    proof -
      obtain i where i: "i < m" "i < length es" "y = ?new ! i" using y len by (auto simp: in_set_conv_nth)
      have "e_sequence y = first + i" by (rule seq [OF i(2), folded i(3)])
      with False i(1) show ?thesis by auto
    qed
    with False show ?thesis by (auto simp: find_None_iff)
  qed
qed

lemma find_map_event:
  "find (\<lambda>p. pub_path p = EventPath n) (map event_publication es) = map_option event_publication (find (\<lambda>e. e_sequence e = n) es)"
  by (induction es) simp_all

lemma find_in_append: "find P (xs @ ys) = (case find P xs of None \<Rightarrow> find P ys | Some x \<Rightarrow> Some x)"
  by (induction xs) simp_all

lemma find_published_event:
  "find (\<lambda>p. pub_path p = EventPath n) (take k (publications_of first v))
    = map_option event_publication (find (\<lambda>e. e_sequence e = n) (take k (number_events first (x_events v))))"
proof -
  have none: "find (\<lambda>p. pub_path p = EventPath n) (map publication_of xs) = None" for xs
  proof -
    have "pub_path (publication_of x) \<noteq> EventPath n" for x by (cases x) (metis publication_paths(1))
    then show ?thesis unfolding find_None_iff by (auto simp del: publication_of.simps)
  qed
  show ?thesis by (simp add: publications_of_def find_in_append none take_map find_map_event split: option.split)
qed

lemma rolled_log_part:
  assumes j: "journalled checksum a (entry_of first now v) d"
  shows "log_part d first (number_events first (x_events v)) (min k (length (x_events v))) (rolled checksum a (entry_of first now v) d k)"
proof -
  let ?new = "number_events first (x_events v)" and ?m = "min k (length (x_events v))"
  have len: "length ?new = length (x_events v)" using map_sequence_number_events [of first "x_events v"] by (metis length_map length_upt diff_add_inverse)
  then have "take k ?new = take ?m ?new" by (cases "k \<le> length (x_events v)") simp_all
  then have "map_of (rolled checksum a (entry_of first now v) d k) (EventPath n)
      = (if first \<le> n \<and> n < first + ?m then Some (Body (EventBody (?new ! (n - first)))) else map_of d (EventPath n))" for n
    by (simp add: map_of_rolled [OF j] find_published_event find_numbered decided_def prepared_def update_conv' event_publication_def)
  moreover have "map_of (rolled checksum a (entry_of first now v) d k) FloorPath = map_of d FloorPath"
    using rolled_journal [OF j, of FloorPath k] managed_not_journal [OF j] by (simp add: decided_def prepared_def update_conv')
  ultimately show ?thesis by (simp add: log_part_def)
qed

lemma log_part_cong:
  "map_of c FloorPath = map_of c' FloorPath \<Longrightarrow> (\<And>n. map_of c (EventPath n) = map_of c' (EventPath n)) \<Longrightarrow> log_part d first new m c = log_part d first new m c'"
  by (simp add: log_part_def)

lemma log_part_same: "map_of c FloorPath = map_of d FloorPath \<Longrightarrow> (\<And>n. map_of c (EventPath n) = map_of d (EventPath n)) \<Longrightarrow> log_part d first new 0 c"
  by (auto simp: log_part_def)

text \<open>
  What the disks of a commit say of the log: \<open>first\<close> is above every event there was, \<open>new\<close> are the
  events of the transaction; each disk has a first part of them; the pointer is idle, or open at
  \<open>first\<close>; and slot zero is written at most once.
\<close>

definition commit_log :: "(active_record \<Rightarrow> string) \<Rightarrow> time \<Rightarrow> view \<Rightarrow> disk \<Rightarrow> nat \<Rightarrow> event list \<Rightarrow> bool" where
  "commit_log checksum now v d first new \<longleftrightarrow>
     (\<forall>n. map_of d (EventPath n) \<noteq> None \<longrightarrow> n < first) \<and> map e_sequence new = [first ..< first + length new]
   \<and> (\<forall>t. \<exists>m \<le> length new. log_part d first new m (commit_moments checksum now v d t))
   \<and> (\<forall>t. \<exists>b. readCurrent checksum (commit_moments checksum now v d t) = Inr (Some b)
       \<and> (ar_state (au_record b) = Idle \<or> (\<exists>i. ar_state (au_record b) = Open i first)))
   \<and> (\<exists>y. \<forall>t. map_of (commit_moments checksum now v d t) (ActivePath 0) \<in> {map_of d (ActivePath 0), y})"

lemma commit_logI:
  assumes "\<And>n. map_of d (EventPath n) \<noteq> None \<Longrightarrow> n < first" and "map e_sequence new = [first ..< first + length new]"
    and "commit_files checksum Idle now v d = (r, ds)"
    and "\<And>c. c \<in> set (d # ds) \<Longrightarrow> (\<exists>m \<le> length new. log_part d first new m c)
      \<and> (\<exists>b. readCurrent checksum c = Inr (Some b) \<and> (ar_state (au_record b) = Idle \<or> (\<exists>i. ar_state (au_record b) = Open i first)))
      \<and> map_of c (ActivePath 0) \<in> {map_of d (ActivePath 0), y}"
  shows "commit_log checksum now v d first new"
proof -
  have "commit_moments checksum now v d t \<in> set (d # ds)" for t
    using history_mem [of d ds t] by (simp add: commit_moments_def assms(3))
  from assms(4) [OF this] show ?thesis unfolding commit_log_def using assms(1, 2) by blast
qed

lemma journal_slot_zero:
  assumes j: "journalled checksum a e d"
  shows "\<exists>y. \<forall>c. undecided_files e d c \<or> open_files checksum a e d c \<or> done_files checksum a e d c
    \<longrightarrow> map_of c (ActivePath 0) \<in> {map_of d (ActivePath 0), y}"
proof -
  let ?opened = "Some (encodeAuthority checksum (au_record (opening_of checksum a e)))"
  let ?closed = "Some (encodeAuthority checksum (au_record (successor checksum (opening_of checksum a e) Idle)))"
  have "readCurrent checksum d = Inr (Some a)" using j by (simp add: journalled_def)
  from readCurrent_Some(3) [OF this] have slot: "au_slot a = 0 \<or> au_slot a = 1" by presburger
  have un: "map_of c (ActivePath 0) = map_of d (ActivePath 0)" if "undecided_files e d c" for c
    using that by (auto simp: undecided_files_def prepared_def update_conv')
  have rolled: "map_of (rolled checksum a e d n) (ActivePath 0) = (if au_slot a = 0 then map_of d (ActivePath 0) else ?opened)" for n
  proof -
    have "map_of (rolled checksum a e d n) (ActivePath 0) = map_of (decided checksum a e d) (ActivePath 0)"
      using rolled_journal [OF j] managed_not_journal [OF j] by simp
    with slot show ?thesis by (auto simp: decided_def prepared_def update_conv')
  qed
  have "map_of c (ActivePath 0) = (if au_slot a = 0 then ?closed else ?opened)" if "done_files checksum a e d c" for c
    using that rolled slot by (auto simp: done_files_def finished_def update_conv')
  then show ?thesis using un rolled
    by (intro exI [of _ "if au_slot a = 0 then ?closed else ?opened"]) (auto simp: open_files_def split: if_splits)
qed

lemma commit_has_log:
  assumes rep: "represents d (x_store v)" and fresh: "fresh_names v d" and dist: "distinct (map fst (x_staged v))"
    and p: "idle_pointer checksum a d" and com: "commit v = Inr st'"
  obtains first new where "commit_log checksum now v d first new" "st_events st' = st_events (x_store v) @ new"
proof -
  have cur: "readCurrent checksum d = Inr (Some a)" "ar_state (au_record a) = Idle" using p by (simp_all add: idle_pointer_def)
  define top where "top = Suc (sum_list (event_numbers d))"
  have below: "n < top" if "map_of d (EventPath n) \<noteq> None" for n
    using that member_le_sum_list [of n "event_numbers d"] by (simp add: top_def less_Suc_eq_le)
  consider (none) "x_events v = [] \<and> x_staged v = []" | (single) "x_staged v \<noteq> []" "single_record v" | (many) "x_events v \<noteq> [] \<or> x_staged v \<noteq> []" "\<not> single_record v"
    by (auto simp: single_record_def)
  then show thesis
  proof cases
    case none
    then have run: "commit_files checksum Idle now v d = (Inr (), [])" by (simp add: commit_files_def)
    have "commit_log checksum now v d top []"
      by (rule commit_logI [OF below _ run, where y = None]) (use cur log_part_same [of d d top "[]"] in auto)
    with that none com show thesis by (auto simp: commit_def)
  next
    case single
    obtain k i r g where s: "x_staged v = [((k, i), Live r g)]"
      using single(2) by (auto simp: single_record_def split: list.splits prod.splits entry.splits)
    let ?c = "AList.update (StatePath k i) (Body (StateBody k i \<lparr>v_generation = g, v_record = r\<rparr>)) d"
    have run: "commit_files checksum Idle now v d = (Inr (), [?c])"
      using single(2) record_publications [OF fresh, unfolded s] by (simp add: commit_files_def s publishAtomic_eq bind_f_def)
    have "readCurrent checksum ?c = readCurrent checksum d" by (rule readCurrent_cong) (simp add: update_conv')
    then have "commit_log checksum now v d top []"
      by (intro commit_logI [OF below _ run, where y = None])
        (use cur log_part_same [of d d top "[]"] log_part_same [of ?c d top "[]"] in \<open>auto simp: update_conv'\<close>)
    with that single com show thesis by (auto simp: commit_def published_def)
  next
    case many
    then obtain first where first: "nextSequence (x_store v) = Inr first"
      and top: "int first + int (length (x_events v)) - 1 \<le> MAX_SAFE_INTEGER"
      and valid: "each_r validate_event (number_events first (x_events v)) = Inr ()"
      and st': "st_events st' = st_events (x_store v) @ number_events first (x_events v)"
      using com by (auto simp: commit_def published_def bind_r_eq_Inr Let_def split: if_splits)
    note j = commit_journalled [OF rep fresh dist first p, of now]
    let ?e = "entry_of first now v" and ?new = "number_events first (x_events v)"
    have len: "length ?new = length (x_events v)"
      using map_sequence_number_events [of first "x_events v"] by (metis length_map length_upt diff_add_inverse)
    obtain ds where run: "commit_files checksum Idle now v d = (Inr (), ds)"
      and phases: "\<And>c. c \<in> set (d # ds) \<Longrightarrow> undecided_files ?e d c \<or> open_files checksum a ?e d c \<or> done_files checksum a ?e d c"
      using commit_journal_run [OF rep fresh dist p many(2, 1) first top valid, of now] by blast
    obtain y where y: "\<forall>c. undecided_files ?e d c \<or> open_files checksum a ?e d c \<or> done_files checksum a ?e d c
      \<longrightarrow> map_of c (ActivePath 0) \<in> {map_of d (ActivePath 0), y}" using journal_slot_zero [OF j] by (rule exE)
    have part: "\<exists>m \<le> length ?new. log_part d first ?new m c" if "c \<in> set (d # ds)" for c
      using phases [OF that]
    proof (elim disjE)
      assume "undecided_files ?e d c"
      then have "log_part d first ?new 0 c" by (intro log_part_same) (auto simp: undecided_files_def prepared_def update_conv')
      then show ?thesis by blast
    next
      assume "open_files checksum a ?e d c"
      then obtain k where "map_of c = map_of (rolled checksum a ?e d k)" by (auto simp: open_files_def)
      with rolled_log_part [OF j, of k] have "log_part d first ?new (min k (length (x_events v))) c" by (simp add: log_part_def)
      with len show ?thesis by (metis min.cobounded2)
    next
      assume "done_files checksum a ?e d c"
      then have "log_part d first ?new (min (length (je_publications ?e)) (length (x_events v))) c"
        using rolled_log_part [OF j, of "length (je_publications ?e)"] by (simp add: log_part_def done_files_def finished_def update_conv')
      with len show ?thesis by (metis min.cobounded2)
    qed
    have pointer: "\<exists>b. readCurrent checksum c = Inr (Some b) \<and> (ar_state (au_record b) = Idle \<or> (\<exists>i. ar_state (au_record b) = Open i first))"
      if "c \<in> set (d # ds)" for c
      using phases [OF that]
    proof (elim disjE)
      assume "open_files checksum a ?e d c"
      from open_pointer(1) [OF j this] show ?thesis by (auto simp: opening_of_def)
    qed (use settled_pointer [OF j] in blast)+
    have "commit_log checksum now v d first ?new"
      by (rule commit_logI [OF next_above(1) [OF rep first] _ run, where y = y])
        (assumption, simp only: map_sequence_number_events len, intro conjI part pointer y [rule_format] phases)
    with that st' show thesis by blast
  qed
qed

section \<open>What the reader is given\<close>

lemma ceiling_read:
  assumes log: "commit_log checksum now v d first new" and "mono at"
  defines "H \<equiv> commit_moments checksum now v d"
  shows "\<exists>j < LISTING. \<exists>b. readCurrent checksum (H (at j)) = Inr (Some b)
    \<and> readJournalCeiling checksum at H = Inr (if ar_state (au_record b) = Idle then None else Some first)"
proof -
  obtain y where "\<And>t. map_of (H t) (ActivePath 0) \<in> {map_of d (ActivePath 0), y}" using log unfolding commit_log_def H_def by blast
  from read_attempts_settle [OF moments_pointer [of checksum now v d, folded H_def] assms(2) this, of 2 0]
  obtain slot0 slot1 where slots: "readStableSlots at H = Inr (slot0, slot1)"
    by (auto simp: readStableSlots_def READ_ATTEMPTS_def eval_nat_numeral)
  then obtain j where j: "j < LISTING" "slot0 = map_of (H (at j)) (ActivePath 0)" "slot1 = map_of (H (at j)) (ActivePath 1)"
    using read_attempts_stable [OF moments_pointer [of checksum now v d, folded H_def] assms(2), of READ_ATTEMPTS 0]
    by (auto simp: readStableSlots_def LISTING_def)
  obtain b where b: "readCurrent checksum (H (at j)) = Inr (Some b)" "ar_state (au_record b) = Idle \<or> (\<exists>i. ar_state (au_record b) = Open i first)"
    using log unfolding commit_log_def H_def by blast
  have "readJournalCeiling checksum at H = Inr (if ar_state (au_record b) = Idle then None else Some first)"
    using b(2) b(1) [unfolded readCurrent_eq] by (auto simp: readJournalCeiling_def readActiveJournal_at_def slots j(2, 3))
  with j(1) b(1) show ?thesis by blast
qed

text \<open>The files a reader reads after a listing are those of the moment of the listing.\<close>

lemma page_files_agrees:
  assumes "\<And>j n. k \<le> j \<Longrightarrow> n \<in> set ns \<Longrightarrow> read_event_if_present (history (at j)) n = Inr (Some (f n))"
    and "\<And>n. n \<in> set ns \<Longrightarrow> e_sequence (f n) = n"
  shows "\<exists>k'. page_files at history w after ceiling limit k acc ns = bind_r (page_events w after ceiling limit acc (map f ns)) (\<lambda>es. Inr (es, k'))"
  using assms
proof (induction ns arbitrary: k acc)
  case (Cons n ns)
  have later: "\<exists>k'. page_files at history w after ceiling limit k2 acc2 ns
      = bind_r (page_events w after ceiling limit acc2 (map f ns)) (\<lambda>es. Inr (es, k'))" if "k \<le> k2" for k2 acc2
    by (rule Cons.IH) (use Cons.prems that in auto)
  show ?case
  proof (cases "validate_event (f n)")
    case (Inl e)
    with Cons.prems later [of k acc] show ?thesis by (auto cong: option.case_cong)
  next
    case (Inr u)
    with Cons.prems later [of k acc] later [of "Suc k" acc] later [of "Suc k" "acc @ [f n]"] show ?thesis
      by (auto cong: option.case_cong)
  qed
qed simp

lemma page_events_ceiling:
  assumes "\<forall>e \<in> set es. e_sequence e < first" and "\<forall>e \<in> set es2. first \<le> e_sequence e"
  shows "page_events w after (Some first) limit acc (es @ es2) = page_events w after None limit acc es"
  using assms(1)
proof (induction es arbitrary: acc)
  case Nil
  have "page_events w after (Some first) limit acc es2 = Inr acc" using assms(2) by (induction es2) auto
  then show ?case by simp
qed (simp cong: if_cong)

lemma listed_log:
  assumes rep: "represents d st" and below: "\<And>n. map_of d (EventPath n) \<noteq> None \<Longrightarrow> n < first"
    and seq: "map e_sequence new = [first ..< first + length new]" and m: "m \<le> length new" "log_part d first new m c"
  shows "event_numbers c = event_numbers d @ [first ..< first + m]"
    and "map_r (read_event c) (event_numbers c) = Inr (st_events st @ take m new)"
proof -
  have files: "map_of c (EventPath n) = (if first \<le> n \<and> n < first + m then Some (Body (EventBody (new ! (n - first)))) else map_of d (EventPath n))" for n
    using m(2) by (simp add: log_part_def)
  have old_below: "n < first" if "map_of d (EventPath n) = Some x" for n x by (rule below) (simp add: that)
  show numbers: "event_numbers c = event_numbers d @ [first ..< first + m]"
    by (rule event_numbers_above [OF below]) (auto simp: files dest!: old_below)
  have old: "map_r (read_event c) (event_numbers d) = Inr (st_events st)"
  proof -
    have same: "read_event c n = read_event d n" if "n \<in> set (event_numbers d)" for n
      using that below [of n] by (simp add: read_event_def files)
    have "list_all2 (\<lambda>n e. read_event d n = Inr e) (event_numbers d) (st_events st)"
      using rep by (simp add: represents_def map_r_eq_Inr)
    then show ?thesis unfolding map_r_eq_Inr by (rule list.rel_mono_strong) (simp add: same)
  qed
  have "read_event c (first + j) = Inr (new ! j)" if "j < m" for j
  proof -
    have "e_sequence (new ! j) = first + j" using that m(1) seq by (metis add_less_cancel_left less_le_trans nth_map nth_upt)
    with that show ?thesis by (simp add: read_event_def files)
  qed
  then have "map_r (read_event c) [first ..< first + m] = Inr (take m new)"
    using m(1) by (auto simp: map_r_eq_Inr list_all2_conv_all_nth)
  with old show "map_r (read_event c) (event_numbers c) = Inr (st_events st @ take m new)"
    unfolding numbers map_r_eq_Inr by (rule list_all2_appendI)
qed

text \<open>A listed event does not change while the reader reads on.\<close>

lemma listed_event_stays:
  assumes log: "commit_log checksum now v d first new" and "s \<le> t"
  defines "H \<equiv> commit_moments checksum now v d"
  assumes there: "map_of (H s) (EventPath n) \<noteq> None"
  shows "map_of (H t) (EventPath n) = map_of (H s) (EventPath n)"
proof -
  have stays: "map_of (H t) (EventPath n) \<noteq> None" using moments_keep_file [OF assms(2)] there by (simp add: H_def)
  obtain m m' where m: "log_part d first new m (H s)" "log_part d first new m' (H t)"
    using log unfolding commit_log_def H_def by blast
  have "\<not> first \<le> n" if "map_of d (EventPath n) \<noteq> None" using log that by (auto simp: commit_log_def not_le)
  then show ?thesis using there stays m by (auto simp: log_part_def split: if_splits)
qed

lemma read_present: "map_of c (EventPath n) \<noteq> None \<Longrightarrow> read_event c n = Inr e \<Longrightarrow> read_event_if_present c n = Inr (Some e)"
  by (auto simp: read_event_if_present_def)

lemma floor_stays:
  assumes "commit_log checksum now v d first new"
  shows "readEventFloor (commit_moments checksum now v d t) = readEventFloor d"
  using assms unfolding commit_log_def log_part_def readEventFloor_def by metis

text \<open>The page, by the first events of the transaction that the listing shows and the ceiling.\<close>

lemma reader_page:
  assumes log: "commit_log checksum now v d first new" and rep: "represents d st" and "mono at"
  defines "H \<equiv> commit_moments checksum now v d"
  assumes ceiling: "readJournalCeiling checksum at H = Inr ceiling" "ceiling = None \<or> ceiling = Some first"
  shows "\<exists>m \<le> length new. length (event_numbers (H (at LISTING))) = length (st_events st) + m
    \<and> eventsSince_files checksum at H w cursor limit
      = eventsSince (st\<lparr>st_events := st_events st @ (if ceiling = None then take m new else [])\<rparr>) None w cursor limit"
proof -
  let ?c = "H (at LISTING)"
  have below: "n < first" if "map_of d (EventPath n) \<noteq> None" for n using log that unfolding commit_log_def by blast
  have seq: "map e_sequence new = [first ..< first + length new]" using log by (simp add: commit_log_def)
  obtain m where m: "m \<le> length new" "log_part d first new m ?c" using log unfolding commit_log_def H_def by blast
  have listed: "event_numbers ?c = event_numbers d @ [first ..< first + m]"
    "map_r (read_event ?c) (event_numbers ?c) = Inr (st_events st @ take m new)"
    by (rule listed_log [OF rep below seq m], assumption)+
  let ?f = "\<lambda>n. projr (read_event ?c n)"
  have read: "read_event ?c n = Inr (?f n)" "e_sequence (?f n) = n" if n: "n \<in> set (event_numbers ?c)" for n
  proof -
    obtain e where e: "read_event ?c n = Inr e" using map_r_mem_rev [OF listed(2) n] by blast
    then show "read_event ?c n = Inr (?f n)" by simp
    show "e_sequence (?f n) = n" using e by (auto simp: read_event_def split: option.splits content.splits file_body.splits if_splits)
  qed
  have events: "map ?f (event_numbers ?c) = st_events st @ take m new"
    using listed(2) unfolding map_r_eq_Inr by (auto simp: list_all2_conv_all_nth intro!: nth_equalityI)
  have later: "read_event_if_present (H (at j)) n = Inr (Some (?f n))" if "Suc LISTING \<le> j" "n \<in> set (event_numbers ?c)" for j n
  proof -
    have "at LISTING \<le> at j" using that(1) assms(3) by (simp add: mono_def)
    then have same: "map_of (H (at j)) (EventPath n) = map_of ?c (EventPath n)"
      using listed_event_stays [OF log] that(2) by (simp add: H_def)
    then have "read_event (H (at j)) n = read_event ?c n" by (simp add: read_event_def)
    with read(1) [OF that(2)] same that(2) show ?thesis by (intro read_present) simp_all
  qed
  define after where "after = (case cursor of None \<Rightarrow> 0 | Some c \<Rightarrow> c)"
  have page: "\<exists>k. page_files at H w after ceiling limit (Suc LISTING) [] (event_numbers ?c)
      = bind_r (page_events w after ceiling limit [] (st_events st @ take m new)) (\<lambda>es. Inr (es, k))"
    unfolding events [symmetric] by (rule page_files_agrees [where f = ?f]) (rule later read(2); assumption)+
  have seqs: "map e_sequence (st_events st @ take m new) = event_numbers ?c"
    unfolding events [symmetric] map_map by (rule map_idI) (simp add: read(2))
  have ends: "page_events w after (Some first) limit [] (st_events st @ take m new) = page_events w after None limit [] (st_events st)"
  proof (rule page_events_ceiling)
    have len: "length (st_events st) = length (event_numbers d)" using rep by (auto simp: represents_def dest: map_r_length)
    have "map e_sequence (st_events st) @ map e_sequence (take m new) = event_numbers d @ [first ..< first + m]"
      using seqs listed(1) by simp
    then have "map e_sequence (st_events st) = event_numbers d" "map e_sequence (take m new) = [first ..< first + m]"
      using len by (auto simp: append_eq_append_conv)
    then have old: "e_sequence ` set (st_events st) = set (event_numbers d)" and taken: "e_sequence ` set (take m new) = {first ..< first + m}"
      by (metis set_map, metis set_map set_upt)
    show "\<forall>e \<in> set (st_events st). e_sequence e < first"
    proof
      fix e assume "e \<in> set (st_events st)"
      then have "e_sequence e \<in> set (event_numbers d)" unfolding old [symmetric] by (rule imageI)
      with below show "e_sequence e < first" by simp
    qed
    show "\<forall>e \<in> set (take m new). first \<le> e_sequence e"
    proof
      fix e assume "e \<in> set (take m new)"
      then have "e_sequence e \<in> {first ..< first + m}" unfolding taken [symmetric] by (rule imageI)
      then show "first \<le> e_sequence e" by simp
    qed
  qed
  have "st_floor st = readEventFloor d" using rep by (simp add: represents_def)
  moreover note floor_stays [OF log, folded H_def]
  ultimately have "eventsSince_files checksum at H w cursor limit
      = eventsSince (st\<lparr>st_events := st_events st @ (if ceiling = None then take m new else [])\<rparr>) None w cursor limit"
    using page ceiling ends unfolding eventsSince_files_def eventsSince_def after_def [symmetric]
    by (auto simp: bind_r_def Let_def split: sum.splits)
  moreover have "length (event_numbers ?c) = length (st_events st) + m" using seqs m(1) by (metis length_append length_map length_take min.absorb2)
  ultimately show ?thesis using m(1) by blast
qed

definition transaction_open :: "(active_record \<Rightarrow> string) \<Rightarrow> disk \<Rightarrow> bool" where
  "transaction_open checksum c \<longleftrightarrow> (case readActiveJournal checksum c of Inl _ \<Rightarrow> False | Inr r \<Rightarrow> ar_state r \<noteq> Idle)"

lemma transaction_open_current:
  "readCurrent checksum c = Inr (Some b) \<Longrightarrow> transaction_open checksum c \<longleftrightarrow> ar_state (au_record b) \<noteq> Idle"
  by (simp add: transaction_open_def readActiveJournal_def)

text \<open>
  C10. A reader beside a commit: whatever the moments of its reads, it is given the page of a log that
  begins with the log before the transaction and is a beginning of the log after it, so that no event
  is skipped or reordered. It is the log before when every reading of the pointer fell while
  the transaction was open, and what the listing shows when every reading fell while it was not.
\<close>

theorem readers_see_a_prefix:
  assumes "represents d (x_store v)" and "fresh_names v d" and "distinct (map fst (x_staged v))"
    and "idle_pointer checksum a d" and "commit v = Inr st'" and "mono at"
  shows "\<exists>log. prefix (st_events (x_store v)) log \<and> prefix log (st_events st')
    \<and> ((\<forall>j < LISTING. transaction_open checksum (commit_moments checksum now v d (at j))) \<longrightarrow> log = st_events (x_store v))
    \<and> ((\<forall>j < LISTING. \<not> transaction_open checksum (commit_moments checksum now v d (at j)))
        \<longrightarrow> length log = length (event_numbers (commit_moments checksum now v d (at LISTING))))
    \<and> eventsSince_files checksum at (commit_moments checksum now v d) w cursor limit
        = eventsSince ((x_store v)\<lparr>st_events := log\<rparr>) None w cursor limit"
proof -
  obtain first new where log: "commit_log checksum now v d first new" and st': "st_events st' = st_events (x_store v) @ new"
    using commit_has_log [OF assms(1 - 5)] .
  from ceiling_read [OF log assms(6)] obtain j b where j: "j < LISTING" "readCurrent checksum (commit_moments checksum now v d (at j)) = Inr (Some b)"
    "readJournalCeiling checksum at (commit_moments checksum now v d) = Inr (if ar_state (au_record b) = Idle then None else Some first)" by blast
  note seen = transaction_open_current [OF j(2)]
  obtain m where m: "m \<le> length new" "length (event_numbers (commit_moments checksum now v d (at LISTING))) = length (st_events (x_store v)) + m"
    "eventsSince_files checksum at (commit_moments checksum now v d) w cursor limit = eventsSince ((x_store v)\<lparr>st_events := st_events (x_store v)
      @ (if ar_state (au_record b) = Idle then take m new else [])\<rparr>) None w cursor limit"
    using reader_page [OF log assms(1, 6) j(3), of w cursor limit] by (cases "ar_state (au_record b) = Idle") auto
  let ?log = "st_events (x_store v) @ (if ar_state (au_record b) = Idle then take m new else [])"
  have "prefix (st_events (x_store v)) ?log" "prefix ?log (st_events st')" by (simp_all add: st' take_is_prefix)
  moreover have "(\<forall>j < LISTING. transaction_open checksum (commit_moments checksum now v d (at j))) \<longrightarrow> ?log = st_events (x_store v)"
    using seen j(1) by auto
  moreover have "(\<forall>j < LISTING. \<not> transaction_open checksum (commit_moments checksum now v d (at j)))
      \<longrightarrow> length ?log = length (event_numbers (commit_moments checksum now v d (at LISTING)))"
    using seen j(1) m(1, 2) by auto
  ultimately show ?thesis using m(3) by blast
qed

lemma count_step:
  assumes "file_step checksum d e" shows "length (event_numbers e) \<le> Suc (length (event_numbers d))"
proof -
  obtain p c where e: "e = AList.update p c d" using assms by (auto simp: file_step_def)
  have count: "length (event_numbers x) = card {n. map_of x (EventPath n) \<noteq> None}" for x
    by (simp add: event_numbers_eq)
  have "{n. map_of e (EventPath n) \<noteq> None} \<subseteq> insert (THE n. p = EventPath n) {n. map_of d (EventPath n) \<noteq> None}"
    by (auto simp: e update_conv' split: if_splits)
  then have "card {n. map_of e (EventPath n) \<noteq> None} \<le> card (insert (THE n. p = EventPath n) {n. map_of d (EventPath n) \<noteq> None})"
    by (rule card_mono [rotated]) (simp only: finite_insert finite_events)
  also have "\<dots> \<le> Suc (card {n. map_of d (EventPath n) \<noteq> None})" by (simp only: card_insert_if [OF finite_events]) simp
  finally show ?thesis by (simp only: count)
qed

lemma count_grows:
  "length (event_numbers (commit_moments checksum now v d t)) \<le> length (event_numbers (commit_moments checksum now v d (Suc t)))"
proof -
  have "set (event_numbers (commit_moments checksum now v d t)) \<subseteq> set (event_numbers (commit_moments checksum now v d (Suc t)))"
    using moments_keep_file [of t "Suc t" checksum now v d] by auto
  from card_mono [OF List.finite_set this] show ?thesis using sorted_event_numbers(2) by (simp only: distinct_card)
qed

text \<open>Events appear one at a time.\<close>

lemma some_moment:
  assumes "represents d (x_store v)" and "fresh_names v d" and "distinct (map fst (x_staged v))"
    and "idle_pointer checksum a d" and "commit v = Inr st'"
    and "length (st_events (x_store v)) \<le> n" and "n \<le> length (st_events st')"
  shows "\<exists>t. length (event_numbers (commit_moments checksum now v d t)) = n"
proof -
  let ?H = "commit_moments checksum now v d" and ?old = "st_events (x_store v)"
  obtain ds where ds: "commit_files checksum Idle now v d = (Inr (), ds)" "represents (final d ds) st'"
    using commit_files_run [OF assms(1 - 5)] by blast
  have ends: "?H 0 = d" "?H (length ds) = final d ds" by (simp_all add: commit_moments_def ds(1) history_end)
  have counts: "length (event_numbers d) = length ?old" "length (event_numbers (final d ds)) = length (st_events st')"
    using assms(1) ds(2) by (auto simp: represents_def dest: map_r_length)
  have "\<bar>int (length (event_numbers (?H (i + 1)))) - int (length (event_numbers (?H i)))\<bar> \<le> 1" for i
  proof -
    have "length (event_numbers (?H (Suc i))) \<le> Suc (length (event_numbers (?H i)))"
      using moments_step [of checksum now v d i] count_step by auto
    with count_grows [of checksum now v d i] show ?thesis by simp
  qed
  then have "\<exists>i \<le> length ds. int (length (event_numbers (?H i))) = int n"
    by (intro nat0_intermed_int_val) (use assms(6, 7) counts ends in simp_all)
  then show ?thesis by auto
qed

text \<open>
  C8. The ceiling does not keep a reader off a transaction in progress: a reader that finds the pointer idle
  and lists the events after the writer has begun to publish them is given any first part of the
  transaction's events, as the moment falls.
\<close>

theorem racing_reader_sees_any_part:
  assumes "represents d (x_store v)" and "fresh_names v d" and "distinct (map fst (x_staged v))"
    and "idle_pointer checksum a d" and "commit v = Inr st'"
    and "length (st_events (x_store v)) \<le> n" and "n \<le> length (st_events st')"
  shows "\<exists>at. mono at \<and> eventsSince_files checksum at (commit_moments checksum now v d) w cursor limit
    = eventsSince ((x_store v)\<lparr>st_events := take n (st_events st')\<rparr>) None w cursor limit"
proof -
  let ?H = "commit_moments checksum now v d" and ?old = "st_events (x_store v)"
  obtain first new where log: "commit_log checksum now v d first new" and st': "st_events st' = ?old @ new"
    using commit_has_log [OF assms(1 - 5)] .
  obtain t where t: "length (event_numbers (?H t)) = n" using some_moment [OF assms] by blast
  let ?at = "\<lambda>k. if k < LISTING then 0 else t"
  have mono: "mono ?at" by (simp add: mono_def)
  from ceiling_read [OF log mono] obtain j b where "j < LISTING" "readCurrent checksum (?H (?at j)) = Inr (Some b)"
    and ceiling: "readJournalCeiling checksum ?at ?H = Inr (if ar_state (au_record b) = Idle then None else Some first)" by blast
  then have "b = a" "ar_state (au_record b) = Idle" using assms(4) by (simp_all add: idle_pointer_def)
  with ceiling have "readJournalCeiling checksum ?at ?H = Inr None" by simp
  from reader_page [OF log assms(1) mono this, of w cursor limit] obtain m where m: "m \<le> length new" "length (event_numbers (?H (?at LISTING))) = length ?old + m"
    "eventsSince_files checksum ?at ?H w cursor limit = eventsSince ((x_store v)\<lparr>st_events := ?old @ take m new\<rparr>) None w cursor limit" by auto
  then have "?old @ take m new = take n (st_events st')" using t by (simp add: st')
  with m(3) mono show ?thesis by metis
qed

section \<open>A transaction of two events\<close>

definition second_event :: event where
  "second_event = first_event\<lparr>e_eventId := ''f'', e_sequence := 2\<rparr>"

definition two_view :: view where
  "two_view = first_view\<lparr>x_events := [first_event, second_event]\<rparr>"

definition two_store :: store where
  "two_store = first_store\<lparr>st_events := [first_event, second_event]\<rparr>"

lemma events_valid: "validate_event first_event = Inr ()" "validate_event second_event = Inr ()"
  by code_simp+

lemma two_commit: "commit two_view = Inr two_store"
proof -
  have "first_event\<lparr>e_sequence := Suc 0\<rparr> = first_event" "second_event\<lparr>e_sequence := Suc (Suc 0)\<rparr> = second_event"
    by (simp_all add: first_event_def second_event_def)
  with events_valid show ?thesis
    by (simp add: commit_eval two_view_def first_view_def empty_store_def published_def publish_entry_def two_store_def first_store_def)
qed

lemma two_hypotheses:
  "represents sample_open (x_store two_view)" "fresh_names two_view sample_open" "distinct (map fst (x_staged two_view))"
  using first_hypotheses by (simp_all add: two_view_def fresh_names_def)

lemma two_pointer: "idle_pointer sample_sum sample_pointer sample_open"
  by (rule first_hypotheses(4))

lemma two_sizes: "st_events (x_store two_view) = []" "st_events two_store = [first_event, second_event]"
  by (simp_all add: two_view_def first_view_def empty_store_def two_store_def first_store_def)

text \<open>At some moment one of the two events is listed, and the transaction is open.\<close>

lemma two_moments:
  obtains t where "transaction_open sample_sum (commit_moments sample_sum 0 two_view sample_open t)"
    "length (event_numbers (commit_moments sample_sum 0 two_view sample_open t)) = 1"
proof -
  let ?H = "commit_moments sample_sum 0 two_view sample_open" and ?e = "entry_of 1 0 two_view"
  have first: "nextSequence (x_store two_view) = Inr 1" by (simp add: nextSequence_def two_view_def first_view_def empty_store_def)
  note j = commit_journalled [OF two_hypotheses first two_pointer, of 0]
  obtain t where t: "length (event_numbers (?H t)) = 1"
    using some_moment [OF two_hypotheses two_pointer two_commit, of 1 0] two_sizes by auto
  have "\<not> single_record two_view" "x_events two_view \<noteq> [] \<or> x_staged two_view \<noteq> []" by (simp_all add: two_view_def single_record_def)
  moreover have "int 1 + int (length (x_events two_view)) - 1 \<le> MAX_SAFE_INTEGER" by (simp add: two_view_def MAX_SAFE_INTEGER_def)
  moreover have "each_r validate_event (number_events 1 (x_events two_view)) = Inr ()"
  proof -
    have "number_events 1 (x_events two_view) = [first_event, second_event]"
      by (simp add: two_view_def first_event_def second_event_def)
    with events_valid show ?thesis by simp
  qed
  ultimately obtain ds where ds: "commit_files sample_sum Idle 0 two_view sample_open = (Inr (), ds)"
    and phases: "\<forall>c \<in> set (sample_open # ds). undecided_files ?e sample_open c \<or> open_files sample_sum sample_pointer ?e sample_open c
      \<or> done_files sample_sum sample_pointer ?e sample_open c"
    using commit_journal_run [OF two_hypotheses(1 - 3) two_pointer _ _ first, of 0] by blast
  have "?H t \<in> set (sample_open # ds)" using history_mem [of sample_open ds t] by (simp add: commit_moments_def ds)
  with phases consider "undecided_files ?e sample_open (?H t)" | "done_files sample_sum sample_pointer ?e sample_open (?H t)"
    | "open_files sample_sum sample_pointer ?e sample_open (?H t)" by blast
  then show thesis
  proof cases
    case 1
    from represents_cong [OF same_undecided [OF this] two_hypotheses(1)] have "length (event_numbers (?H t)) = 0"
      using two_sizes by (auto simp: represents_def dest: map_r_length)
    with t show thesis by simp
  next
    case 2
    from commit_done [OF two_hypotheses two_pointer two_commit first this] have "length (event_numbers (?H t)) = 2"
      using two_sizes by (auto simp: represents_def dest: map_r_length)
    with t show thesis by simp
  next
    case 3
    from open_pointer(1) [OF j this] have "transaction_open sample_sum (?H t)"
      using transaction_open_current by (simp add: opening_of_def)
    with t that show thesis by blast
  qed
qed

theorem readers_see_a_prefix_witness:
  "\<exists>t. length (event_numbers (commit_moments sample_sum 0 two_view sample_open t)) = 1
    \<and> eventsSince_files sample_sum (\<lambda>_. t) (commit_moments sample_sum 0 two_view sample_open) ''w'' None None
      = Inr \<lparr>pg_cursor = 0, pg_events = [], pg_trimmedThrough = None\<rparr>"
proof -
  obtain t where t: "transaction_open sample_sum (commit_moments sample_sum 0 two_view sample_open t)"
    "length (event_numbers (commit_moments sample_sum 0 two_view sample_open t)) = 1" by (rule two_moments)
  have "mono (\<lambda>_ :: nat. t)" by (simp add: mono_def)
  from readers_see_a_prefix [OF two_hypotheses two_pointer two_commit this, of 0 "''w''" None None] t(1)
  have "eventsSince_files sample_sum (\<lambda>_. t) (commit_moments sample_sum 0 two_view sample_open) ''w'' None None
      = eventsSince ((x_store two_view)\<lparr>st_events := st_events (x_store two_view)\<rparr>) None ''w'' None None" by auto
  also have "\<dots> = Inr \<lparr>pg_cursor = 0, pg_events = [], pg_trimmedThrough = None\<rparr>"
    by (simp add: eventsSince_def two_view_def first_view_def empty_store_def)
  finally show ?thesis using t(2) by blast
qed

theorem racing_reader_sees_any_part_witness:
  "\<exists>at. mono at \<and> eventsSince_files sample_sum at (commit_moments sample_sum 0 two_view sample_open) ''w'' None None
    = Inr \<lparr>pg_cursor = 1, pg_events = [first_event], pg_trimmedThrough = None\<rparr>"
proof -
  have "eventsSince ((x_store two_view)\<lparr>st_events := take 1 (st_events two_store)\<rparr>) None ''w'' None None
      = Inr \<lparr>pg_cursor = 1, pg_events = [first_event], pg_trimmedThrough = None\<rparr>"
    using events_valid by (simp add: eventsSince_def two_view_def first_view_def empty_store_def two_store_def first_store_def first_event_def)
  with racing_reader_sees_any_part [OF two_hypotheses two_pointer two_commit, of 1 0 "''w''" None None] two_sizes
  show ?thesis by simp
qed

end
