(* ===== verification/Writer_Mutex.thy ===== *)
theory Writer_Mutex
  imports Prelude
begin

text \<open>
  The writer mutex: a directory that a writer renames into place with its owner record inside, and
  that others move aside when its owner is gone. Every await of \<open>withWriterMutex\<close> is a point where other
  processes run, so the loop is a step relation over the lock directory and the phases of the
  writers. The theorems: as long as no process exits between being observed and being judged,
  at most one live writer is inside; and a run in which one does exit in that window, after
  releasing, ends with two live writers inside.
\<close>

section \<open>The lock directory\<close>

definition STALE_MS :: int where
  "STALE_MS = 60000"

text \<open>
  The longest a live writer waits and writes. This is an assumption on the operations under the lock,
  not a check of the code: the acquisition gives up after 2.5 seconds and a hook is given five, but
  \<^verbatim>\<open>withWriterMutex\<close> itself sets no limit to the operation it runs, and relies on \<open>STALE_MS\<close> being
  longer than any. Half of it is taken here. The clock is one for all writers and never goes back,
  as that of the processes of one machine when nobody sets it.
\<close>

definition WRITE_MS :: int where
  "WRITE_MS = 30000"

record owner =
  ow_pid :: int
  ow_token :: id
  ow_acquiredAt :: time

text \<open>The record in a lock: readable, or bytes a crash of the machine kept from the disk, with the file's time.\<close>

datatype lock_record = Owned owner | Unreadable time

record locks =
  lk_canonical :: "lock_record option"
  lk_reclaimed :: "lock_record list"

text \<open>
  \<open>rename\<close> of a directory: it fails when the target is there and not empty. A canonical lock
  that is absent and one that is empty are both \<open>None\<close>, since a rename replaces an empty directory.
\<close>

definition rename_candidate :: "owner \<Rightarrow> locks \<Rightarrow> locks option" where
  "rename_candidate own l = (case lk_canonical l of
     None \<Rightarrow> Some (l\<lparr>lk_canonical := Some (Owned own)\<rparr>) | Some _ \<Rightarrow> None)"

definition rename_released :: "locks \<Rightarrow> locks" where
  "rename_released l = l\<lparr>lk_canonical := None\<rparr>"

text \<open>The name a lock is reclaimed under is the digest of the record that was observed.\<close>

definition rename_reclaimed :: "lock_record \<Rightarrow> locks \<Rightarrow> locks option" where
  "rename_reclaimed observed l =
     (if observed \<in> set (lk_reclaimed l) \<or> lk_canonical l = None then None
      else Some (l\<lparr>lk_canonical := None, lk_reclaimed := observed # lk_reclaimed l\<rparr>))"

definition readOwner :: "locks \<Rightarrow> lock_record option" where
  "readOwner l = lk_canonical l"

definition is_stale :: "(int \<Rightarrow> bool) \<Rightarrow> time \<Rightarrow> time \<Rightarrow> lock_record \<Rightarrow> bool" where
  "is_stale pidIsAlive now wallNow r = (case r of
     Unreadable modifiedMs \<Rightarrow> wallNow - modifiedMs > STALE_MS
   | Owned own \<Rightarrow> \<not> (pidIsAlive (ow_pid own) \<and> \<not> now - ow_acquiredAt own > STALE_MS))"

section \<open>Writers\<close>

datatype phase =
    Starting
  | Trying
  | Refused_lock
  | Observed "lock_record option"
  | Condemning lock_record
  | Inside
  | Leaving
  | Releasing
  | Finished

record world =
  wd_locks :: locks
  wd_phase :: "id \<Rightarrow> phase"
  wd_acquiredAt :: "id \<Rightarrow> time"
  wd_running :: "id \<Rightarrow> bool"
  wd_now :: time

definition owner_of :: "(id \<Rightarrow> int) \<Rightarrow> world \<Rightarrow> id \<Rightarrow> owner" where
  "owner_of pid w t = \<lparr>ow_pid = pid t, ow_token = t, ow_acquiredAt = wd_acquiredAt w t\<rparr>"

definition set_phase :: "id \<Rightarrow> phase \<Rightarrow> world \<Rightarrow> world" where
  "set_phase t p w = w\<lparr>wd_phase := (wd_phase w)(t := p)\<rparr>"

fun critical :: "phase \<Rightarrow> bool" where
  "critical Inside = True" | "critical Leaving = True" | "critical Releasing = True" | "critical _ = False"

fun active :: "phase \<Rightarrow> bool" where
  "active Starting = False" | "active Finished = False" | "active _ = True"

definition holds_lock :: "world \<Rightarrow> id \<Rightarrow> bool" where
  "holds_lock w t \<longleftrightarrow> wd_running w t \<and> critical (wd_phase w t)"

text \<open>
  One step of one writer, or of the clock. Signal zero finds every process that runs; a process
  identifier may have been given to another process, so it may also find one that does not.
  No writer takes longer than \<open>WRITE_MS\<close>, which is the premise of \<open>tick\<close>. A process whose write is
  done may end; \<open>quits\<close> says whether it may also end while another has read its record and not yet
  judged it.
\<close>

definition unobserved :: "world \<Rightarrow> id \<Rightarrow> bool" where
  "unobserved w t \<longleftrightarrow> (\<forall>s own. wd_running w s \<longrightarrow> wd_phase w s = Observed (Some (Owned own)) \<longrightarrow> ow_token own \<noteq> t)"

inductive mutex_step :: "bool \<Rightarrow> (id \<Rightarrow> int) \<Rightarrow> world \<Rightarrow> world \<Rightarrow> bool" for quits :: bool and pid :: "id \<Rightarrow> int" where
  start: "wd_phase w t = Starting \<Longrightarrow> wd_running w t
    \<Longrightarrow> mutex_step quits pid w (set_phase t Trying w\<lparr>wd_acquiredAt := (wd_acquiredAt w)(t := wd_now w)\<rparr>)"
| acquire: "wd_phase w t = Trying \<Longrightarrow> wd_running w t \<Longrightarrow> rename_candidate (owner_of pid w t) (wd_locks w) = Some l
    \<Longrightarrow> mutex_step quits pid w (set_phase t Inside w\<lparr>wd_locks := l\<rparr>)"
| refuse: "wd_phase w t = Trying \<Longrightarrow> wd_running w t \<Longrightarrow> rename_candidate (owner_of pid w t) (wd_locks w) = None
    \<Longrightarrow> mutex_step quits pid w (set_phase t Refused_lock w)"
| give_up: "wd_phase w t = Trying \<Longrightarrow> wd_running w t \<Longrightarrow> mutex_step quits pid w (set_phase t Finished w)"
| observe: "wd_phase w t = Refused_lock \<Longrightarrow> wd_running w t
    \<Longrightarrow> mutex_step quits pid w (set_phase t (Observed (readOwner (wd_locks w))) w)"
| again: "wd_phase w t = Observed seen \<Longrightarrow> wd_running w t \<Longrightarrow> mutex_step quits pid w (set_phase t Trying w)"
| judge: "wd_phase w t = Observed (Some r) \<Longrightarrow> wd_running w t \<Longrightarrow> (\<And>s. wd_running w s \<Longrightarrow> pidIsAlive (pid s))
    \<Longrightarrow> is_stale pidIsAlive (wd_now w) wallNow r \<Longrightarrow> mutex_step quits pid w (set_phase t (Condemning r) w)"
| strike: "wd_phase w t = Condemning r \<Longrightarrow> wd_running w t \<Longrightarrow> rename_reclaimed r (wd_locks w) = Some l
    \<Longrightarrow> mutex_step quits pid w (set_phase t Trying w\<lparr>wd_locks := l\<rparr>)"
| miss: "wd_phase w t = Condemning r \<Longrightarrow> wd_running w t \<Longrightarrow> rename_reclaimed r (wd_locks w) = None
    \<Longrightarrow> mutex_step quits pid w (set_phase t Trying w)"
| leave: "wd_phase w t = Inside \<Longrightarrow> wd_running w t \<Longrightarrow> mutex_step quits pid w (set_phase t Leaving w)"
| own_release: "wd_phase w t = Leaving \<Longrightarrow> wd_running w t \<Longrightarrow> readOwner (wd_locks w) = Some (Owned own) \<Longrightarrow> ow_token own = t
    \<Longrightarrow> mutex_step quits pid w (set_phase t Releasing w)"
| lost_release: "wd_phase w t = Leaving \<Longrightarrow> wd_running w t
    \<Longrightarrow> (\<nexists>own. readOwner (wd_locks w) = Some (Owned own) \<and> ow_token own = t) \<Longrightarrow> mutex_step quits pid w (set_phase t Finished w)"
| release: "wd_phase w t = Releasing \<Longrightarrow> wd_running w t
    \<Longrightarrow> mutex_step quits pid w (set_phase t Finished w\<lparr>wd_locks := rename_released (wd_locks w)\<rparr>)"
| killed: "wd_phase w t \<noteq> Finished \<Longrightarrow> mutex_step quits pid w (w\<lparr>wd_running := (wd_running w)(t := False)\<rparr>)"
| quit: "wd_phase w t = Finished \<Longrightarrow> quits \<or> unobserved w t \<Longrightarrow> mutex_step quits pid w (w\<lparr>wd_running := (wd_running w)(t := False)\<rparr>)"
| tick: "wd_now w \<le> later \<Longrightarrow> (\<And>t. wd_running w t \<Longrightarrow> active (wd_phase w t) \<Longrightarrow> later - wd_acquiredAt w t \<le> WRITE_MS)
    \<Longrightarrow> mutex_step quits pid w (w\<lparr>wd_now := later\<rparr>)"

section \<open>At most one writer inside\<close>

definition dead_record :: "world \<Rightarrow> lock_record \<Rightarrow> bool" where
  "dead_record w r \<longleftrightarrow> (\<forall>own. r = Owned own \<longrightarrow> \<not> wd_running w (ow_token own))"

text \<open>Where a record that was observed is now.\<close>

definition traced :: "world \<Rightarrow> lock_record \<Rightarrow> bool" where
  "traced w r \<longleftrightarrow> lk_canonical (wd_locks w) = Some r \<or> r \<in> set (lk_reclaimed (wd_locks w))
     \<or> (\<exists>own. r = Owned own \<and> wd_running w (ow_token own) \<and> wd_phase w (ow_token own) = Finished)"

definition recent :: "(id \<Rightarrow> int) \<Rightarrow> world \<Rightarrow> id \<Rightarrow> lock_record \<Rightarrow> bool" where
  "recent pid w t r \<longleftrightarrow> (\<forall>own. r = Owned own \<longrightarrow> wd_running w (ow_token own) \<longrightarrow>
     ow_pid own = pid (ow_token own) \<and> wd_acquiredAt w t \<le> ow_acquiredAt own + WRITE_MS)"

definition mutex_ok :: "(id \<Rightarrow> int) \<Rightarrow> world \<Rightarrow> bool" where
  "mutex_ok pid w \<longleftrightarrow>
     (\<forall>t. holds_lock w t \<longrightarrow> lk_canonical (wd_locks w) = Some (Owned (owner_of pid w t)))
   \<and> (\<forall>own. lk_canonical (wd_locks w) = Some (Owned own) \<longrightarrow> wd_running w (ow_token own) \<longrightarrow>
        own = owner_of pid w (ow_token own) \<and> critical (wd_phase w (ow_token own)))
   \<and> (\<forall>t. wd_running w t \<longrightarrow> active (wd_phase w t) \<longrightarrow> wd_acquiredAt w t \<le> wd_now w \<and> wd_now w - wd_acquiredAt w t \<le> WRITE_MS)
   \<and> (\<forall>t r. wd_running w t \<longrightarrow> wd_phase w t = Observed (Some r) \<longrightarrow> recent pid w t r \<and> traced w r)
   \<and> (\<forall>t r. wd_running w t \<longrightarrow> wd_phase w t = Condemning r \<longrightarrow> dead_record w r
        \<and> (lk_canonical (wd_locks w) = Some r \<or> r \<in> set (lk_reclaimed (wd_locks w))))"

lemma mutex_okD:
  assumes "mutex_ok pid w"
  shows "holds_lock w t \<Longrightarrow> lk_canonical (wd_locks w) = Some (Owned (owner_of pid w t))"
    and "lk_canonical (wd_locks w) = Some (Owned own) \<Longrightarrow> wd_running w (ow_token own) \<Longrightarrow>
        own = owner_of pid w (ow_token own) \<and> critical (wd_phase w (ow_token own))"
    and "wd_running w t \<Longrightarrow> active (wd_phase w t) \<Longrightarrow> wd_acquiredAt w t \<le> wd_now w \<and> wd_now w - wd_acquiredAt w t \<le> WRITE_MS"
    and "wd_running w t \<Longrightarrow> wd_phase w t = Observed (Some r) \<Longrightarrow> recent pid w t r \<and> traced w r"
    and "wd_running w t \<Longrightarrow> wd_phase w t = Condemning r \<Longrightarrow> dead_record w r
        \<and> (lk_canonical (wd_locks w) = Some r \<or> r \<in> set (lk_reclaimed (wd_locks w)))"
  using assms by (simp_all add: mutex_ok_def)

lemma set_phase_simps [simp]:
  "wd_locks (set_phase t p w) = wd_locks w" "wd_acquiredAt (set_phase t p w) = wd_acquiredAt w"
  "wd_running (set_phase t p w) = wd_running w" "wd_now (set_phase t p w) = wd_now w"
  "wd_phase (set_phase t p w) = (wd_phase w)(t := p)"
  by (simp_all add: set_phase_def)

lemma owner_of_token [simp]: "ow_token (owner_of pid w t) = t" "ow_pid (owner_of pid w t) = pid t" "ow_acquiredAt (owner_of pid w t) = wd_acquiredAt w t"
  by (simp_all add: owner_of_def)

lemma owner_of_frame [simp]:
  "owner_of pid (set_phase s p w) t = owner_of pid w t" "owner_of pid (w\<lparr>wd_locks := l\<rparr>) t = owner_of pid w t"
  "owner_of pid (w\<lparr>wd_running := f\<rparr>) t = owner_of pid w t" "owner_of pid (w\<lparr>wd_now := n\<rparr>) t = owner_of pid w t"
  by (simp_all add: owner_of_def)

text \<open>A record judged stale belongs to no process that runs.\<close>

lemma stale_is_dead:
  assumes ok: "mutex_ok pid w" and t: "wd_running w t" "wd_phase w t = Observed (Some r)"
    and alive: "\<And>s. wd_running w s \<Longrightarrow> pidIsAlive (pid s)" and stale: "is_stale pidIsAlive (wd_now w) wallNow r"
  shows "dead_record w r"
  unfolding dead_record_def
proof (intro allI impI notI)
  fix own assume r: "r = Owned own" and run: "wd_running w (ow_token own)"
  then have "ow_pid own = pid (ow_token own)" "wd_acquiredAt w t \<le> ow_acquiredAt own + WRITE_MS"
    using mutex_okD(4) [OF ok t] by (simp_all add: recent_def)
  moreover have "wd_now w - wd_acquiredAt w t \<le> WRITE_MS" using mutex_okD(3) [OF ok t(1)] t(2) by simp
  ultimately show False using stale alive [OF run] by (simp add: r is_stale_def WRITE_MS_def STALE_MS_def)
qed

lemma dead_traced: "dead_record w r \<Longrightarrow> traced w r \<Longrightarrow> lk_canonical (wd_locks w) = Some r \<or> r \<in> set (lk_reclaimed (wd_locks w))"
  by (auto simp: dead_record_def traced_def)

lemma phase_only:
  assumes "mutex_ok pid w" and "critical p \<longleftrightarrow> critical (wd_phase w t)" and "active p \<longrightarrow> active (wd_phase w t)"
    and "wd_phase w t \<noteq> Finished" and "\<And>r. p = Observed (Some r) \<Longrightarrow> wd_running w t \<Longrightarrow> recent pid w t r \<and> traced w r"
    and "\<And>r. p = Condemning r \<Longrightarrow> wd_running w t \<Longrightarrow> dead_record w r
        \<and> (lk_canonical (wd_locks w) = Some r \<or> r \<in> set (lk_reclaimed (wd_locks w)))"
  shows "mutex_ok pid (set_phase t p w)"
proof -
  have traced: "traced (set_phase t p w) r" if "traced w r" for r using that assms(4) by (auto simp: traced_def)
  have "recent pid (set_phase t p w) s r = recent pid w s r" "dead_record (set_phase t p w) r = dead_record w r" for s r
    by (simp_all add: recent_def dead_record_def)
  moreover have "holds_lock (set_phase t p w) s = holds_lock w s" for s using assms(2) by (simp add: holds_lock_def)
  ultimately show ?thesis using mutex_okD [OF assms(1)] assms(2, 3, 5, 6) traced
    unfolding mutex_ok_def by (simp add: fun_upd_def) blast
qed

lemma traced_step:
  assumes "traced w r" and "\<And>s. wd_running w s \<Longrightarrow> wd_phase w s = Finished \<Longrightarrow> wd_running w' s \<and> wd_phase w' s = Finished"
    and "set (lk_reclaimed (wd_locks w)) \<subseteq> set (lk_reclaimed (wd_locks w'))" and "lk_canonical (wd_locks w) = Some r \<Longrightarrow> traced w' r"
  shows "traced w' r"
  using assms unfolding traced_def by blast

lemma mutex_okI:
  assumes "\<And>t. holds_lock w t \<Longrightarrow> lk_canonical (wd_locks w) = Some (Owned (owner_of pid w t))"
    and "\<And>own. lk_canonical (wd_locks w) = Some (Owned own) \<Longrightarrow> wd_running w (ow_token own) \<Longrightarrow>
        own = owner_of pid w (ow_token own) \<and> critical (wd_phase w (ow_token own))"
    and "\<And>t. wd_running w t \<Longrightarrow> active (wd_phase w t) \<Longrightarrow> wd_acquiredAt w t \<le> wd_now w \<and> wd_now w - wd_acquiredAt w t \<le> WRITE_MS"
    and "\<And>t r. wd_running w t \<Longrightarrow> wd_phase w t = Observed (Some r) \<Longrightarrow> recent pid w t r \<and> traced w r"
    and "\<And>t r. wd_running w t \<Longrightarrow> wd_phase w t = Condemning r \<Longrightarrow> dead_record w r
        \<and> (lk_canonical (wd_locks w) = Some r \<or> r \<in> set (lk_reclaimed (wd_locks w)))"
  shows "mutex_ok pid w"
  using assms by (simp add: mutex_ok_def)

lemma mutex_ok_start:
  assumes ok: "mutex_ok pid w" and t: "wd_phase w t = Starting" "wd_running w t"
  shows "mutex_ok pid (set_phase t Trying w\<lparr>wd_acquiredAt := (wd_acquiredAt w)(t := wd_now w)\<rparr>)" (is "mutex_ok pid ?w")
proof (rule mutex_okI)
  have other: "owner_of pid ?w s = owner_of pid w s" if "s \<noteq> t" for s using that by (simp add: owner_of_def)
  show "lk_canonical (wd_locks ?w) = Some (Owned (owner_of pid ?w s))" if "holds_lock ?w s" for s
    using that t mutex_okD(1) [OF ok, of s] other by (auto simp: holds_lock_def split: if_splits)
  show "own = owner_of pid ?w (ow_token own) \<and> critical (wd_phase ?w (ow_token own))"
    if "lk_canonical (wd_locks ?w) = Some (Owned own)" "wd_running ?w (ow_token own)" for own
  proof -
    have "own = owner_of pid w (ow_token own) \<and> critical (wd_phase w (ow_token own))" using mutex_okD(2) [OF ok] that by simp
    moreover from this t have "ow_token own \<noteq> t" by auto
    ultimately show ?thesis using other [of "ow_token own"] by auto
  qed
  show "wd_acquiredAt ?w s \<le> wd_now ?w \<and> wd_now ?w - wd_acquiredAt ?w s \<le> WRITE_MS" if "wd_running ?w s" "active (wd_phase ?w s)" for s
    using that mutex_okD(3) [OF ok, of s] by (cases "s = t") (simp_all add: WRITE_MS_def)
  show "recent pid ?w s r \<and> traced ?w r" if "wd_running ?w s" "wd_phase ?w s = Observed (Some r)" for s r
  proof -
    have "s \<noteq> t" "recent pid w s r" "traced w r" using that mutex_okD(4) [OF ok, of s r] by (auto split: if_splits)
    moreover have "traced ?w r" by (rule traced_step [OF \<open>traced w r\<close>]) (use t in \<open>auto simp: traced_def\<close>)
    ultimately show ?thesis by (simp add: recent_def)
  qed
  show "dead_record ?w r \<and> (lk_canonical (wd_locks ?w) = Some r \<or> r \<in> set (lk_reclaimed (wd_locks ?w)))"
    if "wd_running ?w s" "wd_phase ?w s = Condemning r" for s r
    using that mutex_okD(5) [OF ok, of s r] by (auto simp: dead_record_def split: if_splits)
qed

lemma mutex_ok_locks:
  assumes ok: "mutex_ok pid w" and t: "wd_phase w t \<noteq> Finished" "wd_running w t" "active (wd_phase w t)"
    and p: "p = Inside \<or> p = Trying \<or> p = Finished"
    and holders: "\<And>s. holds_lock (set_phase t p w\<lparr>wd_locks := l\<rparr>) s \<Longrightarrow> s = t \<and> p = Inside \<and> lk_canonical l = Some (Owned (owner_of pid w t))"
    and canonical: "\<And>own. lk_canonical l = Some (Owned own) \<Longrightarrow> p = Inside \<and> own = owner_of pid w t"
    and kept: "set (lk_reclaimed (wd_locks w)) \<subseteq> set (lk_reclaimed l)"
    and left: "\<And>r. lk_canonical (wd_locks w) = Some r \<Longrightarrow> r \<in> set (lk_reclaimed l) \<or> p = Finished \<and> r = Owned (owner_of pid w t)"
  shows "mutex_ok pid (set_phase t p w\<lparr>wd_locks := l\<rparr>)" (is "mutex_ok pid ?w")
proof (rule mutex_okI)
  have same: "recent pid ?w s r = recent pid w s r" "dead_record ?w r = dead_record w r" for s r
    by (simp_all add: recent_def dead_record_def)
  show "lk_canonical (wd_locks ?w) = Some (Owned (owner_of pid ?w s))" if "holds_lock ?w s" for s
    using holders [OF that] by simp
  show "own = owner_of pid ?w (ow_token own) \<and> critical (wd_phase ?w (ow_token own))"
    if "lk_canonical (wd_locks ?w) = Some (Owned own)" "wd_running ?w (ow_token own)" for own
    using canonical [of own] that by simp
  show "wd_acquiredAt ?w s \<le> wd_now ?w \<and> wd_now ?w - wd_acquiredAt ?w s \<le> WRITE_MS" if "wd_running ?w s" "active (wd_phase ?w s)" for s
    using that t mutex_okD(3) [OF ok, of s] by (cases "s = t") simp_all
  show "recent pid ?w s r \<and> traced ?w r" if "wd_running ?w s" "wd_phase ?w s = Observed (Some r)" for s r
  proof -
    have "s \<noteq> t" using that(2) p by auto
    then have "recent pid w s r" "traced w r" using that mutex_okD(4) [OF ok, of s r] by simp_all
    moreover have "traced ?w r"
    proof (rule traced_step [OF \<open>traced w r\<close>])
      assume "lk_canonical (wd_locks w) = Some r"
      from left [OF this] show "traced ?w r"
      proof (elim disjE conjE)
        assume "r \<in> set (lk_reclaimed l)"
        then show ?thesis by (simp add: traced_def)
      next
        assume "p = Finished" "r = Owned (owner_of pid w t)"
        then show ?thesis unfolding traced_def by (intro disjI2 exI [of _ "owner_of pid w t"]) (simp add: t(2))
      qed
    qed (use t kept in auto)
    ultimately show ?thesis by (simp add: same)
  qed
  show "dead_record ?w r \<and> (lk_canonical (wd_locks ?w) = Some r \<or> r \<in> set (lk_reclaimed (wd_locks ?w)))"
    if "wd_running ?w s" "wd_phase ?w s = Condemning r" for s r
  proof -
    have "s \<noteq> t" using that(2) p by auto
    have dead: "dead_record w r" "lk_canonical (wd_locks w) = Some r \<or> r \<in> set (lk_reclaimed (wd_locks w))"
      using that mutex_okD(5) [OF ok, of s r] by (simp_all add: \<open>s \<noteq> t\<close>)
    then have "r \<noteq> Owned (owner_of pid w t)" using t(2) by (auto simp: dead_record_def)
    with dead left [of r] kept show ?thesis by (auto simp: same)
  qed
qed

lemma mutex_ok_acquire:
  assumes ok: "mutex_ok pid w" and t: "wd_phase w t = Trying" "wd_running w t"
    and l: "rename_candidate (owner_of pid w t) (wd_locks w) = Some l"
  shows "mutex_ok pid (set_phase t Inside w\<lparr>wd_locks := l\<rparr>)"
proof -
  have free: "lk_canonical (wd_locks w) = None" and l: "l = (wd_locks w)\<lparr>lk_canonical := Some (Owned (owner_of pid w t))\<rparr>"
    using l by (auto simp: rename_candidate_def split: option.splits)
  then have none: "\<not> holds_lock w s" for s using mutex_okD(1) [OF ok, of s] by auto
  show ?thesis by (rule mutex_ok_locks [OF ok]) (use t free none in \<open>auto simp: l holds_lock_def split: if_splits\<close>)
qed

lemma mutex_ok_strike:
  assumes ok: "mutex_ok pid w" and t: "wd_phase w t = Condemning r" "wd_running w t"
    and l: "rename_reclaimed r (wd_locks w) = Some l"
  shows "mutex_ok pid (set_phase t Trying w\<lparr>wd_locks := l\<rparr>)"
proof -
  have new: "r \<notin> set (lk_reclaimed (wd_locks w))" and l: "l = (wd_locks w)\<lparr>lk_canonical := None, lk_reclaimed := r # lk_reclaimed (wd_locks w)\<rparr>"
    using l by (auto simp: rename_reclaimed_def split: if_splits)
  have can: "lk_canonical (wd_locks w) = Some r" and dead: "dead_record w r" using mutex_okD(5) [OF ok t(2, 1)] new by blast+
  have none: "\<not> holds_lock w s" for s
    using mutex_okD(1) [OF ok, of s] can dead by (auto simp: dead_record_def holds_lock_def)
  show ?thesis by (rule mutex_ok_locks [OF ok]) (use t can none in \<open>auto simp: l holds_lock_def split: if_splits\<close>)
qed

lemma mutex_ok_release:
  assumes ok: "mutex_ok pid w" and t: "wd_phase w t = Releasing" "wd_running w t"
  shows "mutex_ok pid (set_phase t Finished w\<lparr>wd_locks := rename_released (wd_locks w)\<rparr>)"
proof -
  have can: "lk_canonical (wd_locks w) = Some (Owned (owner_of pid w t))"
    using mutex_okD(1) [OF ok] t by (simp add: holds_lock_def)
  have one: "s = t" if "holds_lock w s" for s
  proof -
    have "owner_of pid w s = owner_of pid w t" using mutex_okD(1) [OF ok that] can by simp
    then show ?thesis by (metis owner_of_token(1))
  qed
  show ?thesis by (rule mutex_ok_locks [OF ok]) (use t can one in \<open>auto simp: rename_released_def holds_lock_def split: if_splits\<close>)
qed

lemma mutex_ok_killed:
  assumes ok: "mutex_ok pid w" and "wd_phase w t \<noteq> Finished"
  shows "mutex_ok pid (w\<lparr>wd_running := (wd_running w)(t := False)\<rparr>)" (is "mutex_ok pid ?w")
proof -
  have "traced ?w r" if "traced w r" for r by (rule traced_step [OF that]) (use assms(2) in \<open>auto simp: traced_def\<close>)
  moreover have "recent pid ?w s r" if "recent pid w s r" for s r using that by (simp add: recent_def)
  moreover have "dead_record ?w r" if "dead_record w r" for r using that by (simp add: dead_record_def)
  moreover have "holds_lock ?w s \<Longrightarrow> holds_lock w s" for s by (simp add: holds_lock_def split: if_splits)
  ultimately show ?thesis using mutex_okD [OF ok] unfolding mutex_ok_def by simp
qed

lemma mutex_ok_quit:
  assumes ok: "mutex_ok pid w" and t: "wd_phase w t = Finished" "unobserved w t"
  shows "mutex_ok pid (w\<lparr>wd_running := (wd_running w)(t := False)\<rparr>)" (is "mutex_ok pid ?w")
proof -
  have "traced ?w r" if "wd_running w s" "wd_phase w s = Observed (Some r)" for s r
  proof -
    have "traced w r" using mutex_okD(4) [OF ok that] by simp
    moreover have "r = Owned own \<Longrightarrow> ow_token own \<noteq> t" for own using t(2) that by (auto simp: unobserved_def)
    ultimately show ?thesis by (auto simp: traced_def)
  qed
  moreover have "recent pid ?w s r" if "recent pid w s r" for s r using that by (simp add: recent_def)
  moreover have "dead_record ?w r" if "dead_record w r" for r using that by (simp add: dead_record_def)
  moreover have "holds_lock ?w s \<Longrightarrow> holds_lock w s" for s by (simp add: holds_lock_def split: if_splits)
  ultimately show ?thesis using mutex_okD [OF ok] by (intro mutex_okI) (simp_all split: if_splits)
qed

lemma observe_recent:
  assumes ok: "mutex_ok pid w" and t: "wd_phase w t = Refused_lock" "wd_running w t" and can: "lk_canonical (wd_locks w) = Some r"
  shows "recent pid w t r"
  unfolding recent_def
proof (intro allI impI)
  fix own assume r: "r = Owned own" and run: "wd_running w (ow_token own)"
  have own: "own = owner_of pid w (ow_token own)" "critical (wd_phase w (ow_token own))"
    using mutex_okD(2) [OF ok can [unfolded r] run] by blast+
  then have "active (wd_phase w (ow_token own))" by (cases "wd_phase w (ow_token own)") auto
  then have "wd_now w - wd_acquiredAt w (ow_token own) \<le> WRITE_MS" using mutex_okD(3) [OF ok run] by blast
  moreover have "wd_acquiredAt w t \<le> wd_now w" using mutex_okD(3) [OF ok t(2)] t(1) by simp
  moreover have "ow_pid own = pid (ow_token own)" "ow_acquiredAt own = wd_acquiredAt w (ow_token own)" using own(1) by (metis owner_of_token)+
  ultimately show "ow_pid own = pid (ow_token own) \<and> wd_acquiredAt w t \<le> ow_acquiredAt own + WRITE_MS" by linarith
qed

lemma mutex_step_ok: "mutex_step False pid w w' \<Longrightarrow> mutex_ok pid w \<Longrightarrow> mutex_ok pid w'"
proof (induction rule: mutex_step.induct)
  case (observe w t)
  then show ?case using observe_recent by (intro phase_only) (auto simp: readOwner_def traced_def)
next
  case (judge w t r pidIsAlive wallNow)
  have "dead_record w r" using stale_is_dead [OF judge.prems judge.hyps(2, 1) judge.hyps(3, 4)] by blast
  with judge mutex_okD(4) [OF judge.prems judge.hyps(2, 1)] dead_traced show ?case by (intro phase_only) auto
next
  case (lost_release w t)
  then have "holds_lock w t" by (simp add: holds_lock_def)
  from mutex_okD(1) [OF lost_release.prems this] lost_release.hyps(3) show ?case by (auto simp: readOwner_def)
next
  case (tick w later)
  have "traced (w\<lparr>wd_now := later\<rparr>) r = traced w r" "recent pid (w\<lparr>wd_now := later\<rparr>) s r = recent pid w s r"
    "dead_record (w\<lparr>wd_now := later\<rparr>) r = dead_record w r" "holds_lock (w\<lparr>wd_now := later\<rparr>) s = holds_lock w s" for s r
    by (simp_all add: traced_def recent_def dead_record_def holds_lock_def)
  with mutex_okD [OF tick.prems] tick.hyps show ?case by (intro mutex_okI) (auto intro: order_trans)
qed (auto intro: mutex_ok_start mutex_ok_acquire mutex_ok_strike mutex_ok_release mutex_ok_killed mutex_ok_quit phase_only)

text \<open>A workspace where nobody writes yet, with what earlier writers left behind.\<close>

definition resting :: "(id \<Rightarrow> bool) \<Rightarrow> lock_record option \<Rightarrow> lock_record list \<Rightarrow> time \<Rightarrow> world" where
  "resting running left old now = \<lparr>wd_locks = \<lparr>lk_canonical = left, lk_reclaimed = old\<rparr>, wd_phase = (\<lambda>_. Starting),
     wd_acquiredAt = (\<lambda>_. 0), wd_running = running, wd_now = now\<rparr>"

definition abandoned :: "(id \<Rightarrow> bool) \<Rightarrow> lock_record option \<Rightarrow> bool" where
  "abandoned running left \<longleftrightarrow> (case left of Some (Owned own) \<Rightarrow> \<not> running (ow_token own) | _ \<Rightarrow> True)"

lemma resting_ok: "abandoned running left \<Longrightarrow> mutex_ok pid (resting running left old now)"
  by (auto simp: mutex_ok_def resting_def abandoned_def holds_lock_def)

text \<open>
  C35. The lock keeps writers apart: whatever is left from crashed writers, and however live ones
  wait, reclaim, die and release, at most one live writer is inside, and the lock names it, as
  long as no process ends between being observed and being judged, no live writer takes
  longer than \<open>WRITE_MS\<close> from the time in its record to its release, and the clock of the machine does
  not go back.
\<close>

theorem one_writer_inside:
  assumes "(mutex_step False pid)\<^sup>*\<^sup>* (resting running left old now) w" and "abandoned running left"
    and "holds_lock w s" and "holds_lock w t"
  shows "s = t \<and> readOwner (wd_locks w) = Some (Owned (owner_of pid w t))"
proof -
  from assms(1) have ok: "mutex_ok pid w"
    by (induction rule: rtranclp_induct) (simp_all add: resting_ok [OF assms(2)] mutex_step_ok)
  have "Owned (owner_of pid w s) = Owned (owner_of pid w t)" using mutex_okD(1) [OF ok assms(3)] mutex_okD(1) [OF ok assms(4)] by simp
  then have "s = t" by (metis lock_record.inject(1) owner_of_token(1))
  with mutex_okD(1) [OF ok assms(4)] show ?thesis by (simp add: readOwner_def)
qed

section \<open>A late reclaim\<close>

definition sample_pid :: "id \<Rightarrow> int" where
  "sample_pid t = (if t = ''a'' then 1 else if t = ''p'' then 2 else 3)"

abbreviation race_0 :: world where "race_0 \<equiv> resting (\<lambda>_. True) None [] 0"

definition race_lock :: "id \<Rightarrow> lock_record" where
  "race_lock t = Owned \<lparr>ow_pid = sample_pid t, ow_token = t, ow_acquiredAt = 0\<rparr>"

definition race_world :: "lock_record option \<Rightarrow> lock_record list \<Rightarrow> (id \<times> phase) list \<Rightarrow> id list \<Rightarrow> world" where
  "race_world canonical reclaimed phases ended = \<lparr>wd_locks = \<lparr>lk_canonical = canonical, lk_reclaimed = reclaimed\<rparr>,
     wd_phase = (\<lambda>t. case map_of phases t of Some p \<Rightarrow> p | None \<Rightarrow> Starting), wd_acquiredAt = (\<lambda>_. 0),
     wd_running = (\<lambda>t. t \<notin> set ended), wd_now = 0\<rparr>"

lemma race_moves:
  assumes "map_of phases t = Some ph \<or> map_of phases t = None \<and> ph = Starting" and "t \<notin> set ended"
  shows "ph = Starting \<Longrightarrow> mutex_step b sample_pid (race_world c rs phases ended) (race_world c rs ((t, Trying) # phases) ended)"
    "ph = Trying \<Longrightarrow> c = None \<Longrightarrow> mutex_step b sample_pid (race_world c rs phases ended) (race_world (Some (race_lock t)) rs ((t, Inside) # phases) ended)"
    "ph = Trying \<Longrightarrow> c \<noteq> None \<Longrightarrow> mutex_step b sample_pid (race_world c rs phases ended) (race_world c rs ((t, Refused_lock) # phases) ended)"
    "ph = Refused_lock \<Longrightarrow> mutex_step b sample_pid (race_world c rs phases ended) (race_world c rs ((t, Observed c) # phases) ended)"
    "ph = Inside \<Longrightarrow> mutex_step b sample_pid (race_world c rs phases ended) (race_world c rs ((t, Leaving) # phases) ended)"
    "ph = Leaving \<Longrightarrow> c = Some (race_lock t) \<Longrightarrow> mutex_step b sample_pid (race_world c rs phases ended) (race_world c rs ((t, Releasing) # phases) ended)"
    "ph = Releasing \<Longrightarrow> mutex_step b sample_pid (race_world c rs phases ended) (race_world None rs ((t, Finished) # phases) ended)"
    "ph = Condemning r \<Longrightarrow> r \<notin> set rs \<Longrightarrow> c \<noteq> None \<Longrightarrow> mutex_step b sample_pid (race_world c rs phases ended) (race_world None (r # rs) ((t, Trying) # phases) ended)"
proof -
  let ?w = "race_world c rs phases ended"
  have ph: "wd_phase ?w t = ph" "wd_running ?w t" using assms by (auto simp: race_world_def)
  have own: "owner_of sample_pid (race_world c' rs' ps ended) t = \<lparr>ow_pid = sample_pid t, ow_token = t, ow_acquiredAt = 0\<rparr>" for c' rs' ps
    by (simp add: owner_of_def race_world_def)
  have upd: "set_phase t q (race_world c' rs' phases ended) = race_world c' rs' ((t, q) # phases) ended" for q c' rs'
    by (auto simp: set_phase_def race_world_def fun_eq_iff)
  have lk: "race_world c'' rs'' ps ended\<lparr>wd_locks := \<lparr>lk_canonical = c', lk_reclaimed = rs'\<rparr>\<rparr> = race_world c' rs' ps ended" for c' rs' c'' rs'' ps
    by (simp add: race_world_def)
  have at: "wd_locks (race_world c' rs' ps ended) = \<lparr>lk_canonical = c', lk_reclaimed = rs'\<rparr>" for c' rs' ps by (simp_all add: race_world_def)
  show "ph = Starting \<Longrightarrow> mutex_step b sample_pid ?w (race_world c rs ((t, Trying) # phases) ended)"
    using mutex_step.start [of ?w t b sample_pid] ph upd [of Trying c rs]
    by (simp add: set_phase_def) (simp add: race_world_def fun_upd_idem)
  show "ph = Trying \<Longrightarrow> c = None \<Longrightarrow> mutex_step b sample_pid ?w (race_world (Some (race_lock t)) rs ((t, Inside) # phases) ended)"
    using mutex_step.acquire [of ?w t sample_pid "\<lparr>lk_canonical = Some (race_lock t), lk_reclaimed = rs\<rparr>" b] ph
    by (simp add: rename_candidate_def at own lk upd race_lock_def)
  show "ph = Trying \<Longrightarrow> c \<noteq> None \<Longrightarrow> mutex_step b sample_pid ?w (race_world c rs ((t, Refused_lock) # phases) ended)"
    using mutex_step.refuse [of ?w t sample_pid b] ph by (auto simp: rename_candidate_def at upd)
  show "ph = Refused_lock \<Longrightarrow> mutex_step b sample_pid ?w (race_world c rs ((t, Observed c) # phases) ended)"
    using mutex_step.observe [of ?w t b sample_pid] ph by (simp add: readOwner_def at upd)
  show "ph = Inside \<Longrightarrow> mutex_step b sample_pid ?w (race_world c rs ((t, Leaving) # phases) ended)"
    using mutex_step.leave [of ?w t b sample_pid] ph by (simp add: upd)
  show "ph = Leaving \<Longrightarrow> c = Some (race_lock t) \<Longrightarrow> mutex_step b sample_pid ?w (race_world c rs ((t, Releasing) # phases) ended)"
    using mutex_step.own_release [of ?w t "\<lparr>ow_pid = sample_pid t, ow_token = t, ow_acquiredAt = 0\<rparr>" b sample_pid] ph by (simp add: readOwner_def at race_lock_def upd)
  show "ph = Releasing \<Longrightarrow> mutex_step b sample_pid ?w (race_world None rs ((t, Finished) # phases) ended)"
    using mutex_step.release [of ?w t b sample_pid] ph by (simp add: rename_released_def at lk upd)
  show "ph = Condemning r \<Longrightarrow> r \<notin> set rs \<Longrightarrow> c \<noteq> None \<Longrightarrow> mutex_step b sample_pid ?w (race_world None (r # rs) ((t, Trying) # phases) ended)"
    using mutex_step.strike [of ?w t r "\<lparr>lk_canonical = None, lk_reclaimed = r # rs\<rparr>" b sample_pid] ph by (simp add: rename_reclaimed_def at lk upd)
qed

text \<open>
  Writer \<open>a\<close> is inside when \<open>p\<close> reads its record; \<open>a\<close> releases and its process ends; \<open>q\<close> takes the
  lock; \<open>p\<close> finds \<open>a\<close> gone and moves aside the lock that is there, which is now \<open>q\<close>'s.
\<close>

text \<open>
  C36. The retained name does not protect a successor from a late contender when the observed owner
  released in between: a writer that read the owner's record before the owner released, and
  asks whether its process is alive after it has exited, moves the next writer's lock
  aside and enters beside it. Two live writers are then inside.
\<close>

theorem late_reclaim_evicts_successor:
  "\<exists>w. (mutex_step True sample_pid)\<^sup>*\<^sup>* (resting (\<lambda>_. True) None [] 0) w
     \<and> wd_phase w ''p'' = Inside \<and> wd_phase w ''q'' = Inside \<and> wd_running w ''p'' \<and> wd_running w ''q''"
proof -
  let ?S = "mutex_step True sample_pid" and ?a = "race_lock ''a''"
  let ?w0 = "race_world None [] [] []"
  let ?w1 = "race_world None [] [(''a'', Trying)] []"
  let ?w2 = "race_world (Some (race_lock ''a'')) [] [(''a'', Inside), (''a'', Trying)] []"
  let ?w3 = "race_world (Some (race_lock ''a'')) [] [(''p'', Trying), (''a'', Inside), (''a'', Trying)] []"
  let ?w4 = "race_world (Some (race_lock ''a'')) [] [(''p'', Refused_lock), (''p'', Trying), (''a'', Inside), (''a'', Trying)] []"
  let ?w5 = "race_world (Some (race_lock ''a'')) [] [(''p'', Observed (Some ?a)), (''p'', Refused_lock), (''p'', Trying), (''a'', Inside), (''a'', Trying)] []"
  let ?w6 = "race_world (Some (race_lock ''a'')) [] [(''a'', Leaving), (''p'', Observed (Some ?a)), (''p'', Refused_lock), (''p'', Trying), (''a'', Inside), (''a'', Trying)] []"
  let ?w7 = "race_world (Some (race_lock ''a'')) [] [(''a'', Releasing), (''a'', Leaving), (''p'', Observed (Some ?a)), (''p'', Refused_lock), (''p'', Trying), (''a'', Inside), (''a'', Trying)] []"
  let ?w8 = "race_world None [] [(''a'', Finished), (''a'', Releasing), (''a'', Leaving), (''p'', Observed (Some ?a)), (''p'', Refused_lock), (''p'', Trying), (''a'', Inside), (''a'', Trying)] []"
  let ?w9 = "race_world None [] [(''a'', Finished), (''a'', Releasing), (''a'', Leaving), (''p'', Observed (Some ?a)), (''p'', Refused_lock), (''p'', Trying), (''a'', Inside), (''a'', Trying)] [''a'']"
  let ?w10 = "race_world None [] [(''q'', Trying), (''a'', Finished), (''a'', Releasing), (''a'', Leaving), (''p'', Observed (Some ?a)), (''p'', Refused_lock), (''p'', Trying), (''a'', Inside), (''a'', Trying)] [''a'']"
  let ?w11 = "race_world (Some (race_lock ''q'')) [] [(''q'', Inside), (''q'', Trying), (''a'', Finished), (''a'', Releasing), (''a'', Leaving), (''p'', Observed (Some ?a)), (''p'', Refused_lock), (''p'', Trying), (''a'', Inside), (''a'', Trying)] [''a'']"
  let ?w12 = "race_world (Some (race_lock ''q'')) [] [(''p'', Condemning ?a), (''q'', Inside), (''q'', Trying), (''a'', Finished), (''a'', Releasing), (''a'', Leaving), (''p'', Observed (Some ?a)), (''p'', Refused_lock), (''p'', Trying), (''a'', Inside), (''a'', Trying)] [''a'']"
  let ?w13 = "race_world None [?a] [(''p'', Trying), (''p'', Condemning ?a), (''q'', Inside), (''q'', Trying), (''a'', Finished), (''a'', Releasing), (''a'', Leaving), (''p'', Observed (Some ?a)), (''p'', Refused_lock), (''p'', Trying), (''a'', Inside), (''a'', Trying)] [''a'']"
  let ?w14 = "race_world (Some (race_lock ''p'')) [?a] [(''p'', Inside), (''p'', Trying), (''p'', Condemning ?a), (''q'', Inside), (''q'', Trying), (''a'', Finished), (''a'', Releasing), (''a'', Leaving), (''p'', Observed (Some ?a)), (''p'', Refused_lock), (''p'', Trying), (''a'', Inside), (''a'', Trying)] [''a'']"
  have s1: "?S ?w0 ?w1" by (rule race_moves(1)) simp_all
  have s2: "?S ?w1 ?w2" by (rule race_moves(2)) simp_all
  have s3: "?S ?w2 ?w3" by (rule race_moves(1)) simp_all
  have s4: "?S ?w3 ?w4" by (rule race_moves(3)) simp_all
  have s5: "?S ?w4 ?w5" by (rule race_moves(4)) simp_all
  have s6: "?S ?w5 ?w6" by (rule race_moves(5)) simp_all
  have s7: "?S ?w6 ?w7" by (rule race_moves(6)) simp_all
  have s8: "?S ?w7 ?w8" by (rule race_moves(7)) simp_all
  have s9: "?S ?w8 ?w9"
  proof -
    have "?w9 = ?w8\<lparr>wd_running := (wd_running ?w8)(''a'' := False)\<rparr>" by (simp add: race_world_def fun_eq_iff)
    moreover have "wd_phase ?w8 ''a'' = Finished" by (simp add: race_world_def)
    ultimately show ?thesis using mutex_step.quit [where quits = True and w = ?w8 and t = "''a''" and pid = sample_pid] by simp
  qed
  have s10: "?S ?w9 ?w10" by (rule race_moves(1)) simp_all
  have s11: "?S ?w10 ?w11" by (rule race_moves(2)) simp_all
  have s12: "?S ?w11 ?w12"
  proof -
    have "set_phase ''p'' (Condemning ?a) ?w11 = ?w12" by (auto simp: set_phase_def race_world_def fun_eq_iff)
    moreover have "wd_phase ?w11 ''p'' = Observed (Some ?a)" "wd_running ?w11 ''p''" by (simp_all add: race_world_def)
    moreover have "(\<lambda>n. n \<noteq> 1) (sample_pid s)" if "wd_running ?w11 s" for s using that by (auto simp: race_world_def sample_pid_def)
    moreover have "is_stale (\<lambda>n. n \<noteq> 1) (wd_now ?w11) 0 ?a" by (simp add: is_stale_def race_lock_def sample_pid_def)
    ultimately show ?thesis using mutex_step.judge [where w = ?w11 and t = "''p''" and r = ?a and pid = sample_pid and pidIsAlive = "\<lambda>n. n \<noteq> 1" and wallNow = 0 and quits = True] by simp
  qed
  have s13: "?S ?w12 ?w13" by (rule race_moves(8)) simp_all
  have s14: "?S ?w13 ?w14" by (rule race_moves(2)) simp_all
  have "race_0 = ?w0" by (simp add: resting_def race_world_def)
  then have "?S\<^sup>*\<^sup>* race_0 ?w14"
    using s1 s2 s3 s4 s5 s6 s7 s8 s9 s10 s11 s12 s13 s14 by (simp add: rtranclp.rtrancl_into_rtrancl)
  then show ?thesis by (intro exI conjI) (assumption, simp_all add: race_world_def)
qed

theorem one_writer_inside_witness:
  "readOwner (wd_locks (race_world (Some (race_lock ''a'')) [] [(''a'', Inside), (''a'', Trying)] [])) = Some (race_lock ''a'')"
proof -
  let ?w = "race_world (Some (race_lock ''a'')) [] [(''a'', Inside), (''a'', Trying)] []"
  have zero: "race_0 = race_world None [] [] []" by (simp add: resting_def race_world_def)
  have "mutex_step False sample_pid race_0 (race_world None [] [(''a'', Trying)] [])" unfolding zero by (rule race_moves(1)) simp_all
  moreover have "mutex_step False sample_pid (race_world None [] [(''a'', Trying)] []) ?w" by (rule race_moves(2)) simp_all
  ultimately have run: "(mutex_step False sample_pid)\<^sup>*\<^sup>* race_0 ?w" by (meson rtranclp.rtrancl_into_rtrancl rtranclp.rtrancl_refl)
  have "abandoned (\<lambda>_. True) None" "holds_lock ?w ''a''" by (simp_all add: abandoned_def holds_lock_def race_world_def)
  from one_writer_inside [OF run this(1) this(2) this(2)] show ?thesis by (simp add: owner_of_def race_world_def race_lock_def)
qed

end
