(* ===== verification/Index_Pages.thy ===== *)
theory Index_Pages
  imports Protocol_Base
begin

text \<open>
  The pages of the transaction index (\<^verbatim>\<open>packages/storage-filesystem/src/index-pages.mjs\<close>): what a
  page may hold, its canonical text, and its content address. SHA-256 is the parameter \<open>sha\<close> from
  text to a digest; the code relies on its digests being 64 hexadecimal digits.
  The lemmas: the text of a tuple determines it, collation tells two strings apart, and a page of
  identifiers of ordinary length never exceeds the byte limit.
\<close>

section \<open>Errors\<close>

datatype index_error = IndexCacheUnavailable string | Thrown acc_error

type_synonym 'a ix = "index_error + 'a"

abbreviation unavailable :: "string \<Rightarrow> 'a ix" where
  "unavailable reason \<equiv> Inl (IndexCacheUnavailable reason)"

definition bind_i :: "'a ix \<Rightarrow> ('a \<Rightarrow> 'b ix) \<Rightarrow> 'b ix" where
  "bind_i m f = (case m of Inl e \<Rightarrow> Inl e | Inr x \<Rightarrow> f x)"

definition refuse_if :: "bool \<Rightarrow> string \<Rightarrow> unit ix" where
  "refuse_if c reason = (if c then unavailable reason else Inr ())"

fun each_i :: "('a \<Rightarrow> unit ix) \<Rightarrow> 'a list \<Rightarrow> unit ix" where
  "each_i f [] = Inr ()"
| "each_i f (x # xs) = bind_i (f x) (\<lambda>_. each_i f xs)"

lemma bind_i_simps [simp]: "bind_i (Inl e) f = Inl e" "bind_i (Inr x) f = f x"
  by (simp_all add: bind_i_def)

lemma bind_i_eq_Inr: "bind_i m f = Inr y \<longleftrightarrow> (\<exists>x. m = Inr x \<and> f x = Inr y)"
  by (cases m) simp_all

lemma refuse_if_ok [simp]: "refuse_if c reason = Inr u \<longleftrightarrow> \<not> c"
  by (simp add: refuse_if_def)

lemma refuse_if_False [simp]: "refuse_if False reason = Inr ()"
  by (simp add: refuse_if_def)

lemma each_i_ok [simp]: "each_i f xs = Inr u \<longleftrightarrow> (\<forall>x \<in> set xs. f x = Inr ())"
  by (induction xs) (auto simp: bind_i_eq_Inr)

section \<open>Pages\<close>

type_synonym hash = string

definition INDEX_PAGE_BYTES :: nat where "INDEX_PAGE_BYTES = 65536"

definition INDEX_PAGE_ENTRIES :: nat where "INDEX_PAGE_ENTRIES = 32"

definition INLINE_GROUP_IDS :: nat where "INLINE_GROUP_IDS = 8"

text \<open>The identifiers under one tuple: in the entry itself, or on a page of their own.\<close>

datatype members = Inline "id list" | Paged hash

record leaf_entry =
  le_digest :: hash
  le_tuple :: "string list"
  le_ids :: members

datatype page =
    Branch "(char \<times> hash) list"
  | Leaf "leaf_entry list" "hash option"
  | Group "id list" "hash option"

definition hex_digits :: string where
  "hex_digits = ''0123456789abcdef''"

definition is_hash :: "string \<Rightarrow> bool" where
  "is_hash h \<longleftrightarrow> length h = 64 \<and> list_all (\<lambda>c. c \<in> set hex_digits) h"

definition assertPageHash :: "string \<Rightarrow> hash ix" where
  "assertPageHash h = (if is_hash h then Inr h else unavailable ''invalid_reference'')"

definition hex_sha :: "(string \<Rightarrow> hash) \<Rightarrow> bool" where
  "hex_sha sha \<longleftrightarrow> (\<forall>s. is_hash (sha s))"

subsection \<open>JSON text\<close>

text \<open>Identifiers and hashes hold no character that JSON escapes.\<close>

definition quoted :: "string \<Rightarrow> string" where
  "quoted s = [CHR 0x22] @ s @ [CHR 0x22]"

definition json_array :: "string list \<Rightarrow> string" where
  "json_array xs = ''['' @ join_with '','' xs @ '']''"

definition json_object :: "(string \<times> string) list \<Rightarrow> string" where
  "json_object fs = ''{'' @ join_with '','' (map (\<lambda>(name, text). quoted name @ '':'' @ text) fs) @ ''}''"

definition canonicalTuple :: "string list \<Rightarrow> string ix" where
  "canonicalTuple tuple =
     (if length tuple \<notin> {2, 3} \<or> \<not> list_all portable_id tuple then unavailable ''invalid_tuple''
      else Inr (json_array (map quoted tuple)))"

fun members_text :: "members \<Rightarrow> string" where
  "members_text (Inline ids) = json_array (map quoted ids)"
| "members_text (Paged h) = quoted h"

fun next_text :: "hash option \<Rightarrow> string" where
  "next_text None = ''null''"
| "next_text (Some h) = quoted h"

definition entry_text :: "leaf_entry \<Rightarrow> string" where
  "entry_text e = json_object [(''digest'', quoted (le_digest e)),
     (''tuple'', json_array (map quoted (le_tuple e))), (''ids'', members_text (le_ids e))]"

fun page_text :: "page \<Rightarrow> string" where
  "page_text (Branch cs) = json_object [(''type'', quoted ''branch''),
     (''children'', json_array (map (\<lambda>(route, h). json_array [quoted [route], quoted h]) cs))] @ [CHR 0x0A]"
| "page_text (Group ids nxt) = json_object [(''type'', quoted ''group''),
     (''ids'', json_array (map quoted ids)), (''next'', next_text nxt)] @ [CHR 0x0A]"
| "page_text (Leaf es nxt) = json_object [(''type'', quoted ''leaf''),
     (''entries'', json_array (map entry_text es)), (''next'', next_text nxt)] @ [CHR 0x0A]"

subsection \<open>Validation\<close>

definition unique :: "'a list \<Rightarrow> unit ix" where
  "unique values = refuse_if (length (js_uniq values) \<noteq> length values) ''duplicate_page_entry''"

definition limited :: "'a list \<Rightarrow> nat \<Rightarrow> unit ix" where
  "limited values limit = refuse_if (values = [] \<or> length values > limit) ''page_entry_limit''"

text \<open>\<^verbatim>\<open>values.some((v, i) => i > 0 && values[i - 1].localeCompare(v) >= 0)\<close>\<close>

fun out_of_order :: "string list \<Rightarrow> bool" where
  "out_of_order (a # b # rest) \<longleftrightarrow> \<not> locale_less a b \<or> out_of_order (b # rest)"
| "out_of_order _ \<longleftrightarrow> False"

definition recordIds :: "id list \<Rightarrow> nat \<Rightarrow> unit ix" where
  "recordIds ids limit =
     bind_i (limited ids limit) (\<lambda>_.
     bind_i (refuse_if (\<not> list_all portable_id ids) ''invalid_record_id'') (\<lambda>_.
     bind_i (unique ids) (\<lambda>_.
     refuse_if (out_of_order ids) ''noncanonical_ids'')))"

definition hash_of_next :: "hash option \<Rightarrow> unit ix" where
  "hash_of_next nxt = (case nxt of None \<Rightarrow> Inr () | Some h \<Rightarrow> bind_i (assertPageHash h) (\<lambda>_. Inr ()))"

definition validate_entry :: "leaf_entry \<Rightarrow> unit ix" where
  "validate_entry e =
     bind_i (assertPageHash (le_digest e)) (\<lambda>_.
     bind_i (canonicalTuple (le_tuple e)) (\<lambda>_.
     case le_ids e of
       Inline ids \<Rightarrow> recordIds ids INLINE_GROUP_IDS
     | Paged h \<Rightarrow> bind_i (assertPageHash h) (\<lambda>_. Inr ())))"

definition keys_of :: "leaf_entry list \<Rightarrow> string list" where
  "keys_of es = map (\<lambda>e. json_array (map quoted (le_tuple e))) es"

fun validateIndexPage :: "page \<Rightarrow> unit ix" where
  "validateIndexPage (Branch cs) =
     bind_i (limited cs 16) (\<lambda>_.
     bind_i (each_i (\<lambda>(route, h). bind_i (refuse_if (route \<notin> set hex_digits) ''invalid_child'') (\<lambda>_.
       bind_i (assertPageHash h) (\<lambda>_. Inr ()))) cs) (\<lambda>_.
     bind_i (unique (map fst cs)) (\<lambda>_.
     refuse_if (map fst cs \<noteq> sort (map fst cs)) ''noncanonical_routes'')))"
| "validateIndexPage (Leaf es nxt) =
     bind_i (limited es INDEX_PAGE_ENTRIES) (\<lambda>_.
     bind_i (hash_of_next nxt) (\<lambda>_.
     bind_i (each_i validate_entry es) (\<lambda>_.
     bind_i (unique (keys_of es)) (\<lambda>_.
     refuse_if (out_of_order (keys_of es)) ''noncanonical_keys''))))"
| "validateIndexPage (Group ids nxt) =
     bind_i (hash_of_next nxt) (\<lambda>_. recordIds ids INDEX_PAGE_ENTRIES)"

definition page_hash :: "(string \<Rightarrow> hash) \<Rightarrow> page \<Rightarrow> hash" where
  "page_hash sha p = sha (page_text p)"

definition encodeIndexPage :: "(string \<Rightarrow> hash) \<Rightarrow> page \<Rightarrow> hash ix" where
  "encodeIndexPage sha p =
     bind_i (validateIndexPage p) (\<lambda>_.
     if length (page_text p) > INDEX_PAGE_BYTES then unavailable ''page_byte_limit'' else Inr (page_hash sha p))"

text \<open>The same with the limit as a binary number, for evaluation.\<close>

lemma encodeIndexPage_code [code]:
  "encodeIndexPage sha p = bind_i (validateIndexPage p) (\<lambda>_.
     if int (length (page_text p)) > 65536 then unavailable ''page_byte_limit'' else Inr (page_hash sha p))"
  by (simp add: encodeIndexPage_def INDEX_PAGE_BYTES_def)

subsection \<open>The page files\<close>

text \<open>
  The pages ever written, the last one first. A file that does not hold the canonical bytes of its
  address is as good as missing: \<^verbatim>\<open>decodeIndexPage\<close> refuses it.
\<close>

type_synonym page_store = "page list"

definition readPage :: "(string \<Rightarrow> hash) \<Rightarrow> page_store \<Rightarrow> hash \<Rightarrow> page ix" where
  "readPage sha ps h =
     bind_i (assertPageHash h) (\<lambda>_.
     case find (\<lambda>p. page_hash sha p = h) ps of
       None \<Rightarrow> unavailable ''missing_page''
     | Some p \<Rightarrow> bind_i (encodeIndexPage sha p) (\<lambda>_. Inr p))"

definition writePage :: "(string \<Rightarrow> hash) \<Rightarrow> page \<Rightarrow> page_store \<Rightarrow> hash ix \<times> page_store" where
  "writePage sha p ps = (case encodeIndexPage sha p of Inl e \<Rightarrow> (Inl e, ps) | Inr h \<Rightarrow> (Inr h, p # ps))"

section \<open>Collation tells strings apart\<close>

lemma position_nth: "position x xs = Some i \<Longrightarrow> i < length xs \<and> xs ! i = x"
  by (induction xs arbitrary: i) (auto split: if_splits)

lemma collation_weights:
  "is_digit c \<Longrightarrow> primary_weight c = 100 + of_char c \<and> 148 \<le> primary_weight c \<and> primary_weight c \<le> 157 \<and> case_weight c = 0"
  "is_lower c \<Longrightarrow> primary_weight c = 200 + of_char c \<and> 297 \<le> primary_weight c \<and> primary_weight c \<le> 322 \<and> case_weight c = 0"
  "is_upper c \<Longrightarrow> primary_weight c = 232 + of_char c \<and> 297 \<le> primary_weight c \<and> primary_weight c \<le> 322 \<and> case_weight c = 1"
  by (auto simp: primary_weight_def case_weight_def is_digit_def is_lower_def is_upper_def less_eq_char_def)

lemma collation_other:
  assumes "\<not> is_digit c" "\<not> is_lower c" "\<not> is_upper c"
  shows "(primary_weight c < 100 \<and> collation_punctuation ! primary_weight c = c \<or> primary_weight c = 400 + of_char c) \<and> case_weight c = 0"
proof (cases "position c collation_punctuation")
  case (Some i)
  moreover have "length collation_punctuation < 100" by (simp add: collation_punctuation_def)
  ultimately show ?thesis using position_nth [OF Some] assms by (auto simp: primary_weight_def case_weight_def)
qed (use assms in \<open>auto simp: primary_weight_def case_weight_def\<close>)

lemma collation_char_inj:
  assumes "primary_weight c = primary_weight d" and "case_weight c = case_weight d"
  shows "c = d"
proof -
  have kinds: "is_digit e \<or> is_lower e \<or> is_upper e \<or> (\<not> is_digit e \<and> \<not> is_lower e \<and> \<not> is_upper e)" for e by blast
  have eq: "of_char c = (of_char d :: nat) \<Longrightarrow> c = d" by simp
  from kinds [of c] kinds [of d] show ?thesis
    using assms collation_weights [of c] collation_weights [of d] collation_other [of c] collation_other [of d] eq
    by (elim disjE conjE) (simp_all, fastforce+)
qed

lemma map_pair_inj:
  assumes "map f xs = map f ys" "map g xs = map g ys" "\<And>x y. f x = f y \<Longrightarrow> g x = g y \<Longrightarrow> x = y"
  shows "xs = ys"
proof (rule nth_equalityI)
  show "length xs = length ys" using assms(1) by (rule map_eq_imp_length_eq)
  fix i assume "i < length xs"
  with \<open>length xs = length ys\<close> show "xs ! i = ys ! i" using assms by (metis nth_map)
qed

lemma locale_key_inj [simp]: "locale_key a = locale_key b \<longleftrightarrow> a = b"
  by (auto simp: locale_key_def intro: map_pair_inj collation_char_inj)

abbreviation ordered :: "string list \<Rightarrow> bool" where
  "ordered xs \<equiv> sorted_wrt (\<lambda>a b. locale_key a < locale_key b) xs"

lemma out_of_order_iff: "\<not> out_of_order xs \<longleftrightarrow> ordered xs"
proof (induction xs rule: out_of_order.induct)
  case (1 a b rest)
  then show ?case by (auto simp: locale_less_def intro: order.strict_trans)
qed simp_all

lemma ordered_locale_sort: "distinct (map f xs) \<Longrightarrow> ordered (map f (locale_sort f xs))"
proof -
  assume d: "distinct (map f xs)"
  have "distinct (map f (locale_sort f xs))" using d by (simp add: distinct_map)
  moreover have "sorted (map (\<lambda>x. locale_key (f x)) (locale_sort f xs))" by (simp add: locale_sort_def)
  ultimately show ?thesis by (auto simp: sorted_wrt_iff_nth_less distinct_conv_nth sorted_iff_nth_mono order_less_le)
qed

lemma ordered_sort: "distinct xs \<Longrightarrow> ordered (locale_sort (\<lambda>i. i) xs)"
  using ordered_locale_sort [of "\<lambda>i. i" xs] by simp

lemma ordered_distinct: "ordered xs \<Longrightarrow> distinct xs"
  by (induction xs) auto

text \<open>A strictly ordered list is determined by its elements.\<close>

lemma ordered_unique: "ordered xs \<Longrightarrow> ordered ys \<Longrightarrow> set xs = set ys \<Longrightarrow> xs = ys"
proof (induction xs arbitrary: ys)
  case (Cons x xs)
  then obtain y ys' where ys: "ys = y # ys'" by (cases ys) auto
  have "x = y"
  proof (rule ccontr)
    assume "x \<noteq> y"
    with Cons.prems ys have "y \<in> set xs" "x \<in> set ys'" by auto
    with Cons.prems ys have "locale_key x < locale_key y" "locale_key y < locale_key x" by auto
    then show False by (rule order.asym)
  qed
  moreover have "x \<notin> set xs" "y \<notin> set ys'" using Cons.prems ys by auto
  ultimately have "set xs = set ys'" using Cons.prems(3) ys by (simp add: insert_ident)
  with \<open>x = y\<close> Cons ys show ?case by simp
qed simp

section \<open>The text of a tuple determines it\<close>

abbreviation tuple_text :: "string list \<Rightarrow> string" where
  "tuple_text tuple \<equiv> json_array (map quoted tuple)"

definition index_tuple :: "string list \<Rightarrow> bool" where
  "index_tuple tuple \<longleftrightarrow> length tuple \<in> {2, 3} \<and> list_all portable_id tuple"

lemma canonicalTuple_iff [simp]: "canonicalTuple tuple = Inr key \<longleftrightarrow> index_tuple tuple \<and> key = tuple_text tuple"
  by (auto simp: canonicalTuple_def index_tuple_def)

lemma canonicalTuple_ok: "index_tuple tuple \<Longrightarrow> canonicalTuple tuple = Inr (tuple_text tuple)"
  by simp

lemma portable_no_quote: "portable_id i \<Longrightarrow> CHR 0x22 \<notin> set i"
  by (auto simp: portable_id_def PORTABLE_ID_def is_alnum_def is_id_char_def is_digit_def is_lower_def is_upper_def
      less_eq_char_def list_all_iff split: list.splits)

lemma tuple_text_split:
  assumes "index_tuple tuple"
  shows "split_on (CHR 0x22) (tuple_text tuple) = ''['' # concat (map (\<lambda>i. [i, '','']) (butlast tuple)) @ [last tuple, '']'']"
proof -
  consider a b where "tuple = [a, b]" | a b c where "tuple = [a, b, c]"
    using assms by (auto simp: index_tuple_def numeral_2_eq_2 numeral_3_eq_3 length_Suc_conv)
  then show ?thesis
    by cases (use assms portable_no_quote in \<open>auto simp: index_tuple_def json_array_def quoted_def split_on_append_sep split_on_no_sep\<close>)
qed

lemma tuple_text_inj:
  assumes "index_tuple s" "index_tuple t" "tuple_text s = tuple_text t"
  shows "s = t"
proof -
  have "concat (map (\<lambda>i. [i, '','']) (butlast s)) @ [last s, '']''] = concat (map (\<lambda>i. [i, '','']) (butlast t)) @ [last t, '']'']"
    using tuple_text_split [OF assms(1)] tuple_text_split [OF assms(2)] assms(3) by simp
  then show ?thesis using assms(1, 2)
    by (auto simp: index_tuple_def numeral_2_eq_2 numeral_3_eq_3 length_Suc_conv)
qed

section \<open>The byte limit\<close>

text \<open>
  An identifier may have 200 characters. Every identifier the workspace makes itself is far shorter;
  with 170 at most, the fullest page fits.
\<close>

definition short_id :: "id \<Rightarrow> bool" where
  "short_id i \<longleftrightarrow> portable_id i \<and> length i \<le> 170"

fun short_page :: "page \<Rightarrow> bool" where
  "short_page (Branch cs) = True"
| "short_page (Group ids nxt) = list_all short_id ids"
| "short_page (Leaf es nxt) = list_all (\<lambda>e. list_all short_id (le_tuple e)
     \<and> (case le_ids e of Inline ids \<Rightarrow> list_all short_id ids | Paged _ \<Rightarrow> True)) es"

lemma length_join_bound: "\<forall>w \<in> set ws. length w \<le> k \<Longrightarrow> length (join_with sep ws) \<le> length ws * (k + length sep)"
  by (induction sep ws rule: join_with.induct) (auto simp: algebra_simps)

lemma length_array_bound:
  assumes "\<forall>w \<in> set ws. length w \<le> k" and "length ws \<le> n"
  shows "length (json_array ws) \<le> n * (k + 1) + 2"
proof -
  have "length (join_with '','' ws) \<le> length ws * (k + 1)" using length_join_bound [OF assms(1), of "'',''"] by simp
  also have "\<dots> \<le> n * (k + 1)" using assms(2) by (rule mult_le_mono1)
  finally show ?thesis by (simp add: json_array_def)
qed

lemma length_quoted [simp]: "length (quoted s) = length s + 2"
  by (simp add: quoted_def)

lemma length_ids_bound: "list_all short_id ids \<Longrightarrow> length ids \<le> n \<Longrightarrow> length (json_array (map quoted ids)) \<le> n * 173 + 2"
  using length_array_bound [of "map quoted ids" 172 n] by (auto simp: list_all_iff short_id_def)

lemma assertPageHash_ok [simp]: "assertPageHash h = Inr g \<longleftrightarrow> is_hash h \<and> g = h"
  by (auto simp: assertPageHash_def)

lemma hash_of_next_ok [simp]: "hash_of_next nxt = Inr u \<longleftrightarrow> (\<forall>h. nxt = Some h \<longrightarrow> is_hash h)"
  by (auto simp: hash_of_next_def bind_i_eq_Inr split: option.splits)

lemma length_next_bound: "hash_of_next nxt = Inr () \<Longrightarrow> length (next_text nxt) \<le> 66"
  by (cases nxt) (auto simp: is_hash_def)

lemma unique_ok [simp]: "unique xs = Inr u \<longleftrightarrow> distinct xs"
  by (auto simp: unique_def length_js_uniq)

lemma limited_ok [simp]: "limited xs n = Inr u \<longleftrightarrow> xs \<noteq> [] \<and> length xs \<le> n"
  by (auto simp: limited_def)

lemma recordIds_ok [simp]: "recordIds ids n = Inr u \<longleftrightarrow> ids \<noteq> [] \<and> length ids \<le> n \<and> list_all portable_id ids \<and> ordered ids"
  by (auto simp: recordIds_def bind_i_eq_Inr out_of_order_iff ordered_distinct)

definition members_ok :: "members \<Rightarrow> bool" where
  "members_ok m = (case m of Inline ids \<Rightarrow> recordIds ids INLINE_GROUP_IDS = Inr () | Paged h \<Rightarrow> is_hash h)"

lemma validate_entry_ok [simp]: "validate_entry e = Inr u \<longleftrightarrow> is_hash (le_digest e) \<and> index_tuple (le_tuple e) \<and> members_ok (le_ids e)"
  by (auto simp: validate_entry_def bind_i_eq_Inr members_ok_def split: members.splits)

lemma validate_ok:
  "validateIndexPage (Branch cs) = Inr u \<longleftrightarrow> cs \<noteq> [] \<and> length cs \<le> 16 \<and> distinct (map fst cs) \<and> sorted (map fst cs)
     \<and> (\<forall>(r, h) \<in> set cs. r \<in> set hex_digits \<and> is_hash h)"
  "validateIndexPage (Leaf es nxt) = Inr u \<longleftrightarrow> es \<noteq> [] \<and> length es \<le> 32 \<and> (\<forall>h. nxt = Some h \<longrightarrow> is_hash h)
     \<and> (\<forall>e \<in> set es. validate_entry e = Inr ()) \<and> ordered (keys_of es)"
  "validateIndexPage (Group ids nxt) = Inr u \<longleftrightarrow> (\<forall>h. nxt = Some h \<longrightarrow> is_hash h) \<and> recordIds ids 32 = Inr ()"
proof -
  have "map fst cs = sort (map fst cs) \<longleftrightarrow> sorted (map fst cs)" by (metis sorted_sort sorted_sort_id)
  then show "validateIndexPage (Branch cs) = Inr u \<longleftrightarrow> cs \<noteq> [] \<and> length cs \<le> 16 \<and> distinct (map fst cs) \<and> sorted (map fst cs)
     \<and> (\<forall>(r, h) \<in> set cs. r \<in> set hex_digits \<and> is_hash h)"
    by (auto simp: bind_i_eq_Inr)
  show "validateIndexPage (Leaf es nxt) = Inr u \<longleftrightarrow> es \<noteq> [] \<and> length es \<le> 32 \<and> (\<forall>h. nxt = Some h \<longrightarrow> is_hash h)
     \<and> (\<forall>e \<in> set es. validate_entry e = Inr ()) \<and> ordered (keys_of es)"
    by (auto simp: bind_i_eq_Inr out_of_order_iff INDEX_PAGE_ENTRIES_def ordered_distinct)
  show "validateIndexPage (Group ids nxt) = Inr u \<longleftrightarrow> (\<forall>h. nxt = Some h \<longrightarrow> is_hash h) \<and> recordIds ids 32 = Inr ()"
    by (auto simp: bind_i_eq_Inr INDEX_PAGE_ENTRIES_def)
qed

declare validateIndexPage.simps [simp del] validate_ok [simp]

lemma length_entry_bound:
  assumes "validate_entry e = Inr ()" and "list_all short_id (le_tuple e)"
    and "case le_ids e of Inline ids \<Rightarrow> list_all short_id ids | Paged _ \<Rightarrow> True"
  shows "length (entry_text e) \<le> 2040"
proof -
  have "length (le_digest e) = 64" "length (le_tuple e) \<le> 3" using assms(1) by (auto simp: is_hash_def index_tuple_def)
  moreover have "length (members_text (le_ids e)) \<le> 8 * 173 + 2"
    using assms(1, 3) length_ids_bound [of _ 8] by (cases "le_ids e") (auto simp: members_ok_def is_hash_def INLINE_GROUP_IDS_def)
  moreover have "length (json_array (map quoted (le_tuple e))) \<le> 3 * 173 + 2"
    using length_ids_bound [OF assms(2)] calculation(2) by blast
  ultimately show ?thesis by (simp add: entry_text_def json_object_def)
qed

lemma length_page_bound:
  assumes "validateIndexPage p = Inr ()" and "short_page p"
  shows "length (page_text p) \<le> INDEX_PAGE_BYTES"
proof (cases p)
  case (Branch cs)
  have "\<forall>w \<in> set (map (\<lambda>(route, h). json_array [quoted [route], quoted h]) cs). length w \<le> 72"
    using assms(1) by (auto simp: Branch is_hash_def json_array_def)
  from length_array_bound [OF this, of 16] assms(1) show ?thesis
    by (simp add: Branch validate_ok json_object_def INDEX_PAGE_BYTES_def)
next
  case (Group ids nxt)
  then have "length (json_array (map quoted ids)) \<le> 32 * 173 + 2" "length (next_text nxt) \<le> 66"
    using assms length_ids_bound [of ids 32] length_next_bound [of nxt] by (auto simp: validate_ok)
  then show ?thesis by (simp add: Group json_object_def INDEX_PAGE_BYTES_def)
next
  case (Leaf es nxt)
  then have "\<forall>w \<in> set (map entry_text es). length w \<le> 2040"
    using assms length_entry_bound by (auto simp: validate_ok list_all_iff)
  from length_array_bound [OF this, of 32] have "length (json_array (map entry_text es)) \<le> 32 * 2041 + 2"
    using assms(1) by (simp add: Leaf validate_ok)
  moreover have "length (next_text nxt) \<le> 66" using assms(1) length_next_bound by (simp add: Leaf validate_ok)
  ultimately show ?thesis by (simp add: Leaf json_object_def INDEX_PAGE_BYTES_def)
qed

section \<open>Reading what was written\<close>

text \<open>What a hash leads to, and that no two pages ever written share one.\<close>

definition stored :: "(string \<Rightarrow> hash) \<Rightarrow> page_store \<Rightarrow> hash \<Rightarrow> page option" where
  "stored sha ps h = (case readPage sha ps h of Inl _ \<Rightarrow> None | Inr p \<Rightarrow> Some p)"

definition clean :: "(string \<Rightarrow> hash) \<Rightarrow> page_store \<Rightarrow> bool" where
  "clean sha ps \<longleftrightarrow> inj_on (page_hash sha) (set ps)"

lemma encode_short: "validateIndexPage p = Inr () \<Longrightarrow> short_page p \<Longrightarrow> encodeIndexPage sha p = Inr (page_hash sha p)"
  using length_page_bound [of p] by (simp add: encodeIndexPage_def)

lemma stored_Some:
  "stored sha ps h = Some p \<longleftrightarrow> is_hash h \<and> find (\<lambda>p. page_hash sha p = h) ps = Some p \<and> encodeIndexPage sha p = Inr (page_hash sha p)"
proof (cases "is_hash h \<and> (\<exists>q. find (\<lambda>p. page_hash sha p = h) ps = Some q)")
  case True
  then obtain q where q: "is_hash h" "find (\<lambda>p. page_hash sha p = h) ps = Some q" by blast
  have "encodeIndexPage sha q = Inr g \<Longrightarrow> g = page_hash sha q" for g by (auto simp: encodeIndexPage_def bind_i_eq_Inr split: if_splits)
  then show ?thesis using q by (cases "encodeIndexPage sha q") (auto simp: stored_def readPage_def assertPageHash_def)
next
  case False
  then show ?thesis by (auto simp: stored_def readPage_def assertPageHash_def split: option.splits)
qed

lemma stored_valid: "stored sha ps h = Some p \<Longrightarrow> validateIndexPage p = Inr () \<and> page_hash sha p = h \<and> p \<in> set ps \<and> is_hash h"
proof -
  assume "stored sha ps h = Some p"
  then have h: "is_hash h" and f: "find (\<lambda>p. page_hash sha p = h) ps = Some p" and e: "encodeIndexPage sha p = Inr (page_hash sha p)"
    by (simp_all add: stored_Some)
  from e have "validateIndexPage p = Inr ()" by (auto simp: encodeIndexPage_def bind_i_eq_Inr)
  moreover from f have "page_hash sha p = h" "p \<in> set ps" by (auto simp: find_Some_iff)
  ultimately show ?thesis using h by simp
qed

lemma stored_read: "stored sha ps h = Some p \<Longrightarrow> readPage sha ps h = Inr p"
  by (auto simp: stored_def split: sum.splits)

lemma find_clean:
  assumes "clean sha ps" and "p \<in> set ps" and "page_hash sha p = h"
  shows "find (\<lambda>p. page_hash sha p = h) ps = Some p"
proof (cases "find (\<lambda>p. page_hash sha p = h) ps")
  case None
  then show ?thesis using assms by (auto simp: find_None_iff)
next
  case (Some q)
  then have "q \<in> set ps" "page_hash sha q = h" by (auto simp: find_Some_iff)
  then have "q = p" using assms by (auto simp: clean_def inj_on_def)
  with Some show ?thesis by simp
qed

lemma stored_grows: "clean sha (qs @ ps) \<Longrightarrow> stored sha ps h = Some p \<Longrightarrow> stored sha (qs @ ps) h = Some p"
proof -
  assume c: "clean sha (qs @ ps)" and st: "stored sha ps h = Some p"
  have "find (\<lambda>p. page_hash sha p = h) (qs @ ps) = Some p" using stored_valid [OF st] by (intro find_clean [OF c]) auto
  with st show ?thesis by (simp add: stored_Some)
qed

lemma clean_append: "clean sha (qs @ ps) \<Longrightarrow> clean sha ps"
  by (auto simp: clean_def intro: inj_on_subset)

lemma write_short:
  assumes "validateIndexPage p = Inr ()" and "short_page p"
  shows "writePage sha p ps = (Inr (page_hash sha p), p # ps)"
  using encode_short [OF assms] by (simp add: writePage_def)

lemma stored_written:
  assumes "validateIndexPage p = Inr ()" and "short_page p" and "hex_sha sha"
  shows "stored sha (p # ps) (page_hash sha p) = Some p"
  using encode_short [OF assms(1, 2)] assms(3) by (auto simp: stored_Some hex_sha_def page_hash_def)

end
