(* ===== verification/Index_Tree.thy ===== *)
theory Index_Tree
  imports Index_Pages
begin

text \<open>
  The index tree (\<^verbatim>\<open>packages/storage-filesystem/src/index-tree.mjs\<close>): a radix tree over the
  digests of the tuples, in content-addressed pages that are never changed. The identifiers under
  one tuple are kept in the entry, or in a radix tree of their own over the identifiers' digests.
  An operation takes the page files and returns them with the pages it wrote.
\<close>

section \<open>Operations that write pages\<close>

type_synonym 'a io = "page_store \<Rightarrow> 'a ix \<times> page_store"

definition return_p :: "'a \<Rightarrow> 'a io" where
  "return_p x ps = (Inr x, ps)"

definition lift_p :: "'a ix \<Rightarrow> 'a io" where
  "lift_p m ps = (m, ps)"

definition bind_p :: "'a io \<Rightarrow> ('a \<Rightarrow> 'b io) \<Rightarrow> 'b io" where
  "bind_p m f ps = (case m ps of (Inl e, ps1) \<Rightarrow> (Inl e, ps1) | (Inr x, ps1) \<Rightarrow> f x ps1)"

fun map_p :: "('a \<Rightarrow> 'b io) \<Rightarrow> 'a list \<Rightarrow> 'b list io" where
  "map_p f [] = return_p []"
| "map_p f (x # xs) = bind_p (f x) (\<lambda>y. bind_p (map_p f xs) (\<lambda>ys. return_p (y # ys)))"

datatype delta_operation = PutId | RemoveId

record index_delta =
  dl_tuple :: "string list"
  dl_id :: id
  dl_operation :: delta_operation

definition read_page :: "(string \<Rightarrow> hash) \<Rightarrow> page_store \<Rightarrow> hash list \<Rightarrow> hash \<Rightarrow> page ix" where
  "read_page sha ps seen h =
     bind_i (assertPageHash h) (\<lambda>_.
     if h \<in> set seen then unavailable ''page_cycle'' else readPage sha ps h)"

text \<open>The pages not yet seen: every page read is one of them, which is why the walks below end.\<close>

definition unseen :: "(string \<Rightarrow> hash) \<Rightarrow> page_store \<Rightarrow> hash list \<Rightarrow> nat" where
  "unseen sha ps seen = card (page_hash sha ` set ps - set seen)"

lemma read_page_unseen:
  assumes "read_page sha ps seen h = Inr p"
  shows "unseen sha ps (h # seen) < unseen sha ps seen"
proof -
  have "h \<notin> set seen" "readPage sha ps h = Inr p"
    using assms by (auto simp: read_page_def bind_i_eq_Inr split: if_splits)
  moreover from this(2) have "stored sha ps h = Some p" by (simp add: stored_def)
  then have "h \<in> page_hash sha ` set ps" using stored_valid by fastforce
  ultimately show ?thesis unfolding unseen_def by (intro psubset_card_mono) auto
qed

section \<open>Groups of identifiers\<close>

text \<open>
  \<^verbatim>\<open>collect\<close>: the third argument is how many digits of the digest are left, 64 less the depth.
\<close>

fun each_child :: "(char \<Rightarrow> hash \<Rightarrow> hash list \<Rightarrow> (id list \<times> hash list) ix)
    \<Rightarrow> (char \<times> hash) list \<Rightarrow> hash list \<Rightarrow> (id list \<times> hash list) ix" where
  "each_child f [] seen = Inr ([], seen)"
| "each_child f ((route, child) # cs) seen =
     bind_i (f route child seen) (\<lambda>(ids, seen1).
     bind_i (each_child f cs seen1) (\<lambda>(more, seen2). Inr (ids @ more, seen2)))"

definition group_page_ids :: "(string \<Rightarrow> hash) \<Rightarrow> string \<Rightarrow> page \<Rightarrow> id list ix" where
  "group_page_ids sha path page = (case page of
     Group ids None \<Rightarrow> if list_all (\<lambda>i. starts_with path (sha i)) ids then Inr ids else unavailable ''misrouted_group_id''
   | _ \<Rightarrow> unavailable ''invalid_group_reference'')"

primrec collect :: "(string \<Rightarrow> hash) \<Rightarrow> page_store \<Rightarrow> nat \<Rightarrow> string \<Rightarrow> hash \<Rightarrow> hash list \<Rightarrow> (id list \<times> hash list) ix" where
  "collect sha ps 0 = (\<lambda>path h seen. bind_i (read_page sha ps seen h) (\<lambda>page. case page of
       Branch _ \<Rightarrow> unavailable ''radix_depth_exceeded''
     | _ \<Rightarrow> bind_i (group_page_ids sha path page) (\<lambda>ids. Inr (ids, h # seen))))"
| "collect sha ps (Suc r) = (\<lambda>path h seen. bind_i (read_page sha ps seen h) (\<lambda>page. case page of
       Branch cs \<Rightarrow> each_child (\<lambda>route child. collect sha ps r (path @ [route]) child) cs (h # seen)
     | _ \<Rightarrow> bind_i (group_page_ids sha path page) (\<lambda>ids. Inr (ids, h # seen))))"

definition groupLookup :: "(string \<Rightarrow> hash) \<Rightarrow> page_store \<Rightarrow> hash \<Rightarrow> id list ix" where
  "groupLookup sha ps root =
     bind_i (collect sha ps 64 [] root []) (\<lambda>(ids, _). Inr (locale_sort (\<lambda>i. i) ids))"

text \<open>
  The map from routes to the elements on them, in the order of the routes. A digest has 64
  digits, so that the digit at the depth is always there.
\<close>

definition routes_of :: "('a \<Rightarrow> char) \<Rightarrow> 'a list \<Rightarrow> (char \<times> 'a list) list" where
  "routes_of digit xs = map (\<lambda>route. (route, filter (\<lambda>x. digit x = route) xs)) (sort (remdups (map digit xs)))"

definition group_page :: "(string \<Rightarrow> hash) \<Rightarrow> id list \<Rightarrow> hash io" where
  "group_page sha ids = writePage sha (Group (locale_sort (\<lambda>i. i) ids) None)"

primrec groupPages :: "(string \<Rightarrow> hash) \<Rightarrow> nat \<Rightarrow> id list \<Rightarrow> hash io" where
  "groupPages sha 0 = group_page sha"
| "groupPages sha (Suc r) = (\<lambda>ids.
     if length ids \<le> 32 then group_page sha ids
     else bind_p (map_p (\<lambda>(route, sub). bind_p (groupPages sha r sub) (\<lambda>h. return_p (route, h)))
            (routes_of (\<lambda>i. sha i ! (64 - Suc r)) ids)) (\<lambda>children.
          writePage sha (Branch children)))"

text \<open>The children of a branch with one of them replaced; a branch that would be empty is none.\<close>

definition rebranch :: "(string \<Rightarrow> hash) \<Rightarrow> hash \<Rightarrow> (char \<times> hash) list \<Rightarrow> char \<Rightarrow> hash option \<Rightarrow> hash option io" where
  "rebranch sha root cs route nxt =
     (if nxt = map_of cs route then return_p (Some root)
      else let children = locale_sort (\<lambda>(digit, _). [digit])
             (filter (\<lambda>(digit, _). digit \<noteq> route) cs @ (case nxt of None \<Rightarrow> [] | Some h \<Rightarrow> [(route, h)]))
        in if children = [] then return_p None
           else bind_p (writePage sha (Branch children)) (\<lambda>h. return_p (Some h)))"

text \<open>The identifiers of a page after a change, or \<open>None\<close> when it changes nothing.\<close>

definition spliced :: "id list \<Rightarrow> id \<Rightarrow> delta_operation \<Rightarrow> id list option" where
  "spliced ids i operation =
     (let position = length (takeWhile (\<lambda>found. locale_key found < locale_key i) ids)
      in if position < length ids \<and> ids ! position = i
         then if operation = PutId then None else Some (take position ids @ drop (Suc position) ids)
         else if operation = RemoveId then None else Some (take position ids @ i # drop position ids))"

function groupUpdate :: "(string \<Rightarrow> hash) \<Rightarrow> hash option \<Rightarrow> id \<Rightarrow> delta_operation \<Rightarrow> nat \<Rightarrow> hash list
    \<Rightarrow> page_store \<Rightarrow> hash option ix \<times> page_store" where
  "groupUpdate sha root i operation depth seen ps = (case root of
     None \<Rightarrow> if operation = RemoveId then (Inr None, ps)
       else bind_p (group_page sha [i]) (\<lambda>h. return_p (Some h)) ps
   | Some h \<Rightarrow> (case read_page sha ps seen h of
       Inl e \<Rightarrow> (Inl e, ps)
     | Inr (Branch cs) \<Rightarrow>
         if depth \<ge> 64 then (unavailable ''radix_depth_exceeded'', ps)
         else (case groupUpdate sha (map_of cs (sha i ! depth)) i operation (depth + 1) (h # seen) ps of
             (Inl e, ps1) \<Rightarrow> (Inl e, ps1)
           | (Inr nxt, ps1) \<Rightarrow> rebranch sha h cs (sha i ! depth) nxt ps1)
     | Inr (Group ids None) \<Rightarrow> (case spliced ids i operation of
           None \<Rightarrow> (Inr (Some h), ps)
         | Some [] \<Rightarrow> (Inr None, ps)
         | Some ids1 \<Rightarrow> bind_p (groupPages sha (64 - depth) ids1) (\<lambda>h. return_p (Some h)) ps)
     | Inr _ \<Rightarrow> (unavailable ''invalid_group_reference'', ps)))"
  by pat_completeness auto
termination
  by (relation "measure (\<lambda>(sha, root, i, operation, depth, seen, ps). unseen sha ps seen)")
    (auto intro: read_page_unseen)

section \<open>The tree of tuples\<close>

definition digestTuple :: "(string \<Rightarrow> hash) \<Rightarrow> string list \<Rightarrow> hash ix" where
  "digestTuple sha tuple = bind_i (canonicalTuple tuple) (\<lambda>key. Inr (sha key))"

definition checkNode :: "(string \<Rightarrow> hash) \<Rightarrow> page \<Rightarrow> nat \<Rightarrow> string \<Rightarrow> unit ix" where
  "checkNode sha page depth path = (case page of
     Branch _ \<Rightarrow> refuse_if (depth \<ge> 64) ''radix_depth_exceeded''
   | Leaf es nxt \<Rightarrow> bind_i (refuse_if (nxt \<noteq> None \<and> depth \<noteq> 64) ''unexpected_collision_page'') (\<lambda>_.
       each_i (\<lambda>e. bind_i (digestTuple sha (le_tuple e)) (\<lambda>digest.
         refuse_if (\<not> starts_with path (le_digest e) \<or> le_digest e \<noteq> digest) ''misrouted_tuple'')) es)
   | Group _ _ \<Rightarrow> unavailable ''invalid_tree_reference'')"

abbreviation keyOf :: "leaf_entry \<Rightarrow> string" where
  "keyOf e \<equiv> tuple_text (le_tuple e)"

text \<open>The loop of \<^verbatim>\<open>lookup\<close>; the depth is the length of the prefix, which is \<open>path\<close> here.\<close>

function lookup_loop :: "(string \<Rightarrow> hash) \<Rightarrow> page_store \<Rightarrow> string \<Rightarrow> hash \<Rightarrow> hash option \<Rightarrow> string \<Rightarrow> hash list
    \<Rightarrow> members option \<Rightarrow> members option ix" where
  "lookup_loop sha ps key digest root path seen idsRoot = (case root of
     None \<Rightarrow> Inr idsRoot
   | Some h \<Rightarrow> (case read_page sha ps seen h of
       Inl e \<Rightarrow> Inl e
     | Inr page \<Rightarrow> (case checkNode sha page (length path) path of
         Inl e \<Rightarrow> Inl e
       | Inr _ \<Rightarrow> (case page of
           Branch cs \<Rightarrow> (let route = digest ! length path
             in lookup_loop sha ps key digest (map_of cs route) (path @ [route]) (h # seen) idsRoot)
         | Leaf es nxt \<Rightarrow> (case find (\<lambda>e. keyOf e = key) es of
               None \<Rightarrow> lookup_loop sha ps key digest nxt path (h # seen) idsRoot
             | Some e \<Rightarrow> if idsRoot \<noteq> None then unavailable ''duplicate_collision_key''
                 else lookup_loop sha ps key digest nxt path (h # seen) (Some (le_ids e)))
         | Group _ _ \<Rightarrow> unavailable ''invalid_tree_reference''))))"
  by pat_completeness auto
termination
  by (relation "measure (\<lambda>(sha, ps, key, digest, root, path, seen, idsRoot). unseen sha ps seen)")
    (auto intro: read_page_unseen)

definition tree_lookup :: "(string \<Rightarrow> hash) \<Rightarrow> page_store \<Rightarrow> hash option \<Rightarrow> string list \<Rightarrow> id list ix" where
  "tree_lookup sha ps root tuple =
     bind_i (canonicalTuple tuple) (\<lambda>key.
     bind_i (assertPageHash (sha key)) (\<lambda>digest.
     bind_i (lookup_loop sha ps key digest root [] [] None) (\<lambda>found. case found of
       None \<Rightarrow> Inr []
     | Some (Inline ids) \<Rightarrow> Inr ids
     | Some (Paged h) \<Rightarrow> groupLookup sha ps h)))"

definition leaf_page :: "(string \<Rightarrow> hash) \<Rightarrow> leaf_entry list \<Rightarrow> hash option \<Rightarrow> hash io" where
  "leaf_page sha es nxt = writePage sha (Leaf (locale_sort keyOf es) nxt)"

text \<open>The collision pages of more than 32 entries with one digest: the last 32 first.\<close>

function chain_pages :: "(string \<Rightarrow> hash) \<Rightarrow> leaf_entry list \<Rightarrow> hash option \<Rightarrow> page_store \<Rightarrow> hash ix \<times> page_store" where
  "chain_pages sha es nxt ps = (case leaf_page sha (drop (length es - 32) es) nxt ps of
     (Inl e, ps1) \<Rightarrow> (Inl e, ps1)
   | (Inr h, ps1) \<Rightarrow> if length es \<le> 32 then (Inr h, ps1) else chain_pages sha (take (length es - 32) es) (Some h) ps1)"
  by pat_completeness auto
termination
  by (relation "measure (\<lambda>(sha, es, nxt, ps). length es)") auto

primrec split_entries :: "(string \<Rightarrow> hash) \<Rightarrow> nat \<Rightarrow> leaf_entry list \<Rightarrow> hash io" where
  "split_entries sha 0 = (\<lambda>es. if length es \<le> 32 then leaf_page sha es None else chain_pages sha es None)"
| "split_entries sha (Suc r) = (\<lambda>es.
     if length es \<le> 32 then leaf_page sha es None
     else bind_p (map_p (\<lambda>(route, sub). bind_p (split_entries sha r sub) (\<lambda>h. return_p (route, h)))
            (routes_of (\<lambda>e. le_digest e ! (64 - Suc r)) es)) (\<lambda>children.
          writePage sha (Branch children)))"

definition groupChange :: "(string \<Rightarrow> hash) \<Rightarrow> members \<Rightarrow> id \<Rightarrow> delta_operation \<Rightarrow> members option io" where
  "groupChange sha m i operation = (case m of
     Paged h \<Rightarrow> bind_p (groupUpdate sha (Some h) i operation 0 []) (\<lambda>nxt. return_p (map_option Paged nxt))
   | Inline ids \<Rightarrow>
       (let ids1 = locale_sort (\<lambda>i. i) (filter (\<lambda>found. found \<noteq> i) ids @ (if operation = PutId then [i] else []))
        in if ids1 = ids then return_p (Some m)
           else if ids1 = [] then return_p None
           else if length ids1 \<le> INLINE_GROUP_IDS then return_p (Some (Inline ids1))
           else bind_p (groupPages sha 64 ids1) (\<lambda>h. return_p (Some (Paged h)))))"

definition entry_index :: "string \<Rightarrow> leaf_entry list \<Rightarrow> nat option" where
  "entry_index key es = position key (map keyOf es)"

text \<open>\<^verbatim>\<open>update\<close> after the digest and the key of the tuple were made, which do not change on the way down.\<close>

function update_node :: "(string \<Rightarrow> hash) \<Rightarrow> hash option \<Rightarrow> string list \<Rightarrow> hash \<Rightarrow> string \<Rightarrow> id \<Rightarrow> delta_operation
    \<Rightarrow> string \<Rightarrow> hash list \<Rightarrow> page_store \<Rightarrow> hash option ix \<times> page_store" where
  "update_node sha root tuple digest key i operation path seen ps = (case root of
     None \<Rightarrow> if operation = RemoveId then (Inr None, ps)
       else bind_p (leaf_page sha [\<lparr>le_digest = digest, le_tuple = tuple, le_ids = Inline [i]\<rparr>] None)
         (\<lambda>h. return_p (Some h)) ps
   | Some h \<Rightarrow> (case read_page sha ps seen h of
       Inl e \<Rightarrow> (Inl e, ps)
     | Inr page \<Rightarrow> (case checkNode sha page (length path) path of
         Inl e \<Rightarrow> (Inl e, ps)
       | Inr _ \<Rightarrow> (case page of
           Branch cs \<Rightarrow> (let route = digest ! length path in
             case update_node sha (map_of cs route) tuple digest key i operation (path @ [route]) (h # seen) ps of
               (Inl e, ps1) \<Rightarrow> (Inl e, ps1)
             | (Inr nxt, ps1) \<Rightarrow> rebranch sha h cs route nxt ps1)
         | Leaf es nxt \<Rightarrow> (case entry_index key es of
             Some at_entry \<Rightarrow> (case groupChange sha (le_ids (es ! at_entry)) i operation ps of
                 (Inl e, ps1) \<Rightarrow> (Inl e, ps1)
               | (Inr ids, ps1) \<Rightarrow>
                   if ids = Some (le_ids (es ! at_entry)) then (Inr (Some h), ps1)
                   else let es1 = (case ids of
                       None \<Rightarrow> take at_entry es @ drop (Suc at_entry) es
                     | Some m \<Rightarrow> es[at_entry := (es ! at_entry)\<lparr>le_ids := m\<rparr>])
                     in if es1 = [] then (Inr nxt, ps1)
                        else bind_p (leaf_page sha es1 nxt) (\<lambda>h. return_p (Some h)) ps1)
           | None \<Rightarrow>
               if nxt \<noteq> None then
                 (case update_node sha nxt tuple digest key i operation path (h # seen) ps of
                    (Inl e, ps1) \<Rightarrow> (Inl e, ps1)
                  | (Inr nxt1, ps1) \<Rightarrow> if nxt1 = nxt then (Inr (Some h), ps1)
                      else bind_p (leaf_page sha es nxt1) (\<lambda>h. return_p (Some h)) ps1)
               else if operation = RemoveId then (Inr (Some h), ps)
               else bind_p (split_entries sha (64 - length path)
                   (es @ [\<lparr>le_digest = digest, le_tuple = tuple, le_ids = Inline [i]\<rparr>])) (\<lambda>h. return_p (Some h)) ps)
         | Group _ _ \<Rightarrow> (unavailable ''invalid_tree_reference'', ps)))))"
  by pat_completeness auto
termination
  by (relation "measure (\<lambda>(sha, root, tuple, digest, key, i, operation, path, seen, ps). unseen sha ps seen)")
    (auto intro: read_page_unseen)

definition update_tree :: "(string \<Rightarrow> hash) \<Rightarrow> hash option \<Rightarrow> string list \<Rightarrow> id \<Rightarrow> delta_operation \<Rightarrow> hash option io" where
  "update_tree sha root tuple i operation =
     bind_p (lift_p (bind_i (digestTuple sha tuple) assertPageHash)) (\<lambda>digest.
     bind_p (lift_p (canonicalTuple tuple)) (\<lambda>key.
     update_node sha root tuple digest key i operation [] []))"

definition check_id :: "id \<Rightarrow> unit ix" where
  "check_id i = (case assertPortableId i ''index record ID'' of Inl e \<Rightarrow> Inl (Thrown e) | Inr _ \<Rightarrow> Inr ())"

fun apply_deltas :: "(string \<Rightarrow> hash) \<Rightarrow> hash option \<Rightarrow> index_delta list \<Rightarrow> hash option io" where
  "apply_deltas sha root [] = return_p root"
| "apply_deltas sha root (d # ds) =
     bind_p (lift_p (check_id (dl_id d))) (\<lambda>_.
     bind_p (update_tree sha root (dl_tuple d) (dl_id d) (dl_operation d)) (\<lambda>root1.
     apply_deltas sha root1 ds))"

definition check_put :: "index_delta \<Rightarrow> unit ix" where
  "check_put d =
     bind_i (check_id (dl_id d)) (\<lambda>_.
     bind_i (refuse_if (dl_operation d \<noteq> PutId) ''invalid_delta'') (\<lambda>_.
     bind_i (canonicalTuple (dl_tuple d)) (\<lambda>_. Inr ())))"

definition group_members :: "(string \<Rightarrow> hash) \<Rightarrow> id list \<Rightarrow> members io" where
  "group_members sha ids =
     (let sorted_ids = locale_sort (\<lambda>i. i) ids
      in if length sorted_ids \<le> INLINE_GROUP_IDS then return_p (Inline sorted_ids)
         else bind_p (groupPages sha 64 sorted_ids) (\<lambda>h. return_p (Paged h)))"

definition build_entry :: "(string \<Rightarrow> hash) \<Rightarrow> index_delta list \<Rightarrow> string list \<Rightarrow> leaf_entry io" where
  "build_entry sha puts tuple =
     bind_p (lift_p (bind_i (digestTuple sha tuple) assertPageHash)) (\<lambda>digest.
     bind_p (group_members sha (js_uniq [dl_id d. d \<leftarrow> puts, dl_tuple d = tuple])) (\<lambda>m.
     return_p \<lparr>le_digest = digest, le_tuple = tuple, le_ids = m\<rparr>))"

definition build :: "(string \<Rightarrow> hash) \<Rightarrow> index_delta list \<Rightarrow> hash option io" where
  "build sha puts =
     bind_p (lift_p (each_i check_put puts)) (\<lambda>_.
     if puts = [] then return_p None
     else bind_p (map_p (build_entry sha puts) (js_uniq (map dl_tuple puts))) (\<lambda>es.
       bind_p (split_entries sha 64 es) (\<lambda>h. return_p (Some h))))"

end
