(* ===== verification/Index_Radix.thy ===== *)
theory Index_Radix
  imports Index_Tree
begin

text \<open>
  What the pages of an index mean. \<open>radix\<close> says that the pages from a hash on are a radix tree of
  a set of elements, and lists the pages in the order a walk meets them. It is stated once for the
  two trees there are, the tuples and the identifiers under one tuple, as a locale over what a page
  holds itself; both are interpretations of it.
\<close>

section \<open>Radix trees in pages\<close>

lemma starts_with_snoc: "starts_with (p @ [a]) d \<longleftrightarrow> starts_with p d \<and> length p < length d \<and> d ! length p = a"
proof (cases "length p < length d")
  case True
  then show ?thesis by (auto simp: starts_with_def take_Suc_conv_app_nth)
qed (auto simp: starts_with_def)

lemma starts_with_refl [simp]: "starts_with p p"
  by (simp add: starts_with_def)

lemma starts_with_trans: "starts_with p q \<Longrightarrow> starts_with q d \<Longrightarrow> starts_with p d"
  by (auto simp: starts_with_iff)

text \<open>
  \<open>content\<close> gives the elements a page holds itself and the page its collisions continue on;
  \<open>dig\<close> is the digest of an element, \<open>key\<close> what tells elements apart, \<open>good\<close> what every element is.
\<close>

inductive radix :: "(hash \<Rightarrow> page option) \<Rightarrow> (page \<Rightarrow> ('a list \<times> hash option) option) \<Rightarrow> ('a \<Rightarrow> string) \<Rightarrow> ('a \<Rightarrow> 'k)
    \<Rightarrow> ('a \<Rightarrow> bool) \<Rightarrow> string \<Rightarrow> hash \<Rightarrow> 'a set \<Rightarrow> hash list \<Rightarrow> bool"
  for rd content dig key good where
  page: "rd h = Some p \<Longrightarrow> content p = Some (xs, None) \<Longrightarrow> xs \<noteq> [] \<Longrightarrow> inj_on key (set xs)
    \<Longrightarrow> (\<And>x. x \<in> set xs \<Longrightarrow> starts_with path (dig x) \<and> good x) \<Longrightarrow> length path \<le> 64
    \<Longrightarrow> radix rd content dig key good path h (set xs) [h]"
| chain: "rd h = Some p \<Longrightarrow> content p = Some (xs, Some n) \<Longrightarrow> xs \<noteq> [] \<Longrightarrow> inj_on key (set xs)
    \<Longrightarrow> (\<And>x. x \<in> set xs \<Longrightarrow> starts_with path (dig x) \<and> good x) \<Longrightarrow> length path = 64
    \<Longrightarrow> radix rd content dig key good path n A hs \<Longrightarrow> key ` set xs \<inter> key ` A = {}
    \<Longrightarrow> radix rd content dig key good path h (set xs \<union> A) (h # hs)"
| branch: "rd h = Some (Branch cs) \<Longrightarrow> length path < 64
    \<Longrightarrow> (\<And>route c. (route, c) \<in> set cs \<Longrightarrow> radix rd content dig key good (path @ [route]) c (A route) (H route))
    \<Longrightarrow> radix rd content dig key good path h (\<Union>(A ` fst ` set cs)) (h # concat (map (H \<circ> fst) cs))"

text \<open>The laws of what a page holds: a branch holds nothing itself, and elements of one key share their digest.\<close>

locale radix_pages =
  fixes rd :: "hash \<Rightarrow> page option"
    and content :: "page \<Rightarrow> ('a list \<times> hash option) option"
    and dig :: "'a \<Rightarrow> string"
    and key :: "'a \<Rightarrow> 'k"
    and good :: "'a \<Rightarrow> bool"
  assumes content_branch: "content (Branch cs) = None"
    and branch_routes: "rd h = Some (Branch cs) \<Longrightarrow> cs \<noteq> [] \<and> distinct (map fst cs)"
    and good_digest: "good x \<Longrightarrow> good y \<Longrightarrow> key x = key y \<Longrightarrow> dig x = dig y"
begin

abbreviation tree :: "string \<Rightarrow> hash \<Rightarrow> 'a set \<Rightarrow> hash list \<Rightarrow> bool" where
  "tree \<equiv> radix rd content dig key good"

lemma tree_path: "tree path h A hs \<Longrightarrow> x \<in> A \<Longrightarrow> starts_with path (dig x)"
proof (induction arbitrary: x rule: radix.induct)
  case (branch h cs path A H)
  then obtain route c where "(route, c) \<in> set cs" "x \<in> A route" by auto
  from branch.IH [OF this] show ?case by (auto simp: starts_with_iff)
qed auto

lemma tree_nonempty: "tree path h A hs \<Longrightarrow> A \<noteq> {}"
proof (induction rule: radix.induct)
  case (branch h cs path A H)
  then obtain route c where "(route, c) \<in> set cs" using branch_routes by (metis list.set_intros(1) neq_Nil_conv surj_pair)
  with branch.IH show ?case by force
qed auto

lemma tree_depth: "tree path h A hs \<Longrightarrow> length path \<le> 64"
  by (induction rule: radix.induct) auto

lemma tree_good: "tree path h A hs \<Longrightarrow> x \<in> A \<Longrightarrow> good x"
  by (induction rule: radix.induct) auto

lemma tree_head: "tree path h A hs \<Longrightarrow> \<exists>rest. hs = h # rest"
  by (auto elim: radix.cases)

text \<open>What lies under a hash does not depend on where it is met.\<close>

inductive_cases page_cases: "tree path h A hs"

lemma tree_det: "tree path h A hs \<Longrightarrow> tree path' h A' hs' \<Longrightarrow> A' = A \<and> hs' = hs"
proof (induction arbitrary: path' A' hs' rule: radix.induct)
  case (page h p xs path)
  show ?case by (rule page_cases [OF page.prems]) (use page.hyps in \<open>auto simp: content_branch\<close>)
next
  case (chain h p xs n path A hs)
  show ?case
  proof (rule page_cases [OF chain.prems])
    fix p' xs' n' B gs
    assume *: "rd h = Some p'" "content p' = Some (xs', Some n')" "A' = set xs' \<union> B" "hs' = h # gs" "tree path' n' B gs"
    then have "p' = p" using chain.hyps by simp
    then have "xs' = xs" "n' = n" using * chain.hyps by simp_all
    moreover have "B = A \<and> gs = hs" using chain.IH *(5) \<open>n' = n\<close> by simp
    ultimately show ?thesis using * by simp
  qed (use chain.hyps in \<open>auto simp: content_branch\<close>)
next
  case (branch h cs path A H)
  show ?case
  proof (rule page_cases [OF branch.prems])
    fix cs' B G
    assume *: "A' = (\<Union>rc \<in> set cs'. B (fst rc))" "hs' = h # concat (map (G \<circ> fst) cs')" "rd h = Some (Branch cs')"
      and sub: "\<And>route c. (route, c) \<in> set cs' \<Longrightarrow> tree (path' @ [route]) c (B route) (G route)"
    then have cs: "cs' = cs" using branch.hyps by simp
    have "B (fst rc) = A (fst rc) \<and> G (fst rc) = H (fst rc)" if "rc \<in> set cs" for rc
      using branch.IH [of "fst rc" "snd rc"] sub [of "fst rc" "snd rc"] that cs by simp
    then show ?thesis unfolding * cs by (auto intro!: arg_cong [of _ _ concat])
  qed (use branch.hyps in \<open>auto simp: content_branch\<close>)
qed

text \<open>Every page of a tree is the root of a part of it.\<close>

lemma tree_sub:
  "tree path h A hs \<Longrightarrow> g \<in> set hs \<Longrightarrow> \<exists>q B gs. tree q g B gs \<and> starts_with path q \<and> length gs \<le> length hs"
proof (induction rule: radix.induct)
  case (page h p xs path)
  then have "tree path h (set xs) [h]" by (intro radix.page) auto
  with page.prems have "tree path g (set xs) [h] \<and> starts_with path path \<and> length [h] \<le> length [h]" by simp
  then show ?case by blast
next
  case (chain h p xs n path A hs)
  show ?case
  proof (cases "g = h")
    case True
    have "tree path h (set xs \<union> A) (h # hs)" using chain.hyps by (intro radix.chain) auto
    with True have "tree path g (set xs \<union> A) (h # hs) \<and> starts_with path path \<and> length (h # hs) \<le> length (h # hs)" by simp
    then show ?thesis by blast
  qed (use chain in force)
next
  case (branch h cs path A H)
  show ?case
  proof (cases "g = h")
    case True
    have "tree path h (\<Union>(A ` fst ` set cs)) (h # concat (map (H \<circ> fst) cs))" using branch.hyps by (intro radix.branch) auto
    with True have "tree path g (\<Union>(A ` fst ` set cs)) (h # concat (map (H \<circ> fst) cs)) \<and> starts_with path path" by simp
    then show ?thesis using True by blast
  next
    case False
    then obtain route c where rc: "(route, c) \<in> set cs" "g \<in> set (H route)" using branch.prems by force
    from branch.IH [OF rc] obtain q B gs where "tree q g B gs" "starts_with (path @ [route]) q" "length gs \<le> length (H route)" by blast
    moreover have "length (H route) \<le> length (concat (map (H \<circ> fst) cs))"
      using rc(1) by (induction cs) (auto simp: trans_le_add2)
    moreover have "starts_with path q" by (rule starts_with_trans [OF _ calculation(2)]) simp
    ultimately show ?thesis by fastforce
  qed
qed

lemma tree_length_contra: "tree path h A hs \<Longrightarrow> tree q g B gs \<Longrightarrow> h \<in> set gs \<Longrightarrow> length hs \<le> length gs"
  using tree_sub tree_det by metis

lemma child_length: "rc \<in> set cs \<Longrightarrow> length (H (fst rc)) \<le> length (concat (map (H \<circ> fst) cs))"
  by (induction cs) (auto simp: trans_le_add2)

lemma branch_fresh:
  assumes "rd h = Some (Branch cs)" and "length path < 64"
    and sub: "\<And>route c. (route, c) \<in> set cs \<Longrightarrow> tree (path @ [route]) c (A route) (H route)"
  shows "(route, c) \<in> set cs \<Longrightarrow> h \<notin> set (H route)"
    and "(route, c) \<in> set cs \<Longrightarrow> (route', c') \<in> set cs \<Longrightarrow> route \<noteq> route' \<Longrightarrow> set (H route) \<inter> set (H route') = {} \<and> A route \<inter> A route' = {}"
proof -
  have whole: "tree path h (\<Union>(A ` fst ` set cs)) (h # concat (map (H \<circ> fst) cs))" by (rule radix.branch [OF assms])
  show "h \<notin> set (H route)" if "(route, c) \<in> set cs"
    using tree_length_contra [OF whole sub [OF that]] child_length [OF that, of H] by auto
  have apart: False if "starts_with (path @ [route]) d" "starts_with (path @ [route']) d" "route \<noteq> route'" for d route route'
    using that by (simp add: starts_with_snoc)
  show "set (H route) \<inter> set (H route') = {} \<and> A route \<inter> A route' = {}"
    if rc: "(route, c) \<in> set cs" "(route', c') \<in> set cs" and ne: "route \<noteq> route'"
  proof (intro conjI equals0I)
    fix g assume g: "g \<in> set (H route) \<inter> set (H route')"
    then obtain q B gs q' B' gs' where t: "tree q g B gs" "starts_with (path @ [route]) q" "tree q' g B' gs'" "starts_with (path @ [route']) q'"
      using tree_sub [OF sub [OF rc(1)]] tree_sub [OF sub [OF rc(2)]] by (meson IntD1 IntD2)
    then have "B' = B" using tree_det by blast
    moreover obtain x where "x \<in> B" using tree_nonempty [OF t(1)] by blast
    ultimately have "starts_with q (dig x)" "starts_with q' (dig x)" using tree_path t by blast+
    then have "starts_with (path @ [route]) (dig x)" "starts_with (path @ [route']) (dig x)" using t(2, 4) starts_with_trans by blast+
    from apart [OF this ne] show False .
  next
    fix x assume "x \<in> A route \<inter> A route'"
    then show False using apart ne tree_path [OF sub [OF rc(1)]] tree_path [OF sub [OF rc(2)]] by blast
  qed
qed

lemma chain_fresh:
  assumes "rd h = Some p" "content p = Some (xs, Some n)" "xs \<noteq> []" "inj_on key (set xs)"
    "\<And>x. x \<in> set xs \<Longrightarrow> starts_with path (dig x) \<and> good x" "length path = 64"
    "tree path n A hs" "key ` set xs \<inter> key ` A = {}"
  shows "h \<notin> set hs"
  using tree_length_contra [OF radix.chain [OF assms] assms(7)] by auto

lemma tree_inj: "tree path h A hs \<Longrightarrow> inj_on key A"
proof (induction rule: radix.induct)
  case (chain h p xs n path A hs)
  then show ?case by (auto simp: inj_on_Un)
next
  case (branch h cs path A H)
  show ?case
  proof (rule inj_onI)
    fix x y assume "x \<in> \<Union>(A ` fst ` set cs)" "y \<in> \<Union>(A ` fst ` set cs)" and eq: "key x = key y"
    then obtain r c r' c' where rc: "(r, c) \<in> set cs" "x \<in> A r" "(r', c') \<in> set cs" "y \<in> A r'" by auto
    have "starts_with (path @ [r]) (dig x)" "starts_with (path @ [r']) (dig y)" "good x" "good y"
      using tree_path tree_good branch.hyps(3) rc by blast+
    moreover have "dig x = dig y" by (rule good_digest [OF calculation(3, 4) eq])
    ultimately have "r = r'" by (simp add: starts_with_snoc)
    with branch.IH [OF rc(1)] rc eq show "x = y" by (simp add: inj_onD)
  qed
qed auto

end

lemma radix_mono:
  assumes "radix rd content dig key good path h A hs" and "\<And>g p. rd g = Some p \<Longrightarrow> rd' g = Some p"
  shows "radix rd' content dig key good path h A hs"
  using assms(1)
proof (induction rule: radix.induct)
  case (branch h cs path A H)
  show ?case by (rule radix.branch [OF assms(2) [OF branch.hyps(1)] branch.hyps(2) branch.IH])
qed (auto intro: radix.intros assms(2))

section \<open>The two trees\<close>

fun content_group :: "page \<Rightarrow> (id list \<times> hash option) option" where
  "content_group (Group ids None) = Some (ids, None)"
| "content_group _ = None"

fun content_leaf :: "page \<Rightarrow> (leaf_entry list \<times> hash option) option" where
  "content_leaf (Leaf es nxt) = Some (es, nxt)"
| "content_leaf _ = None"

definition routed :: "(string \<Rightarrow> hash) \<Rightarrow> leaf_entry \<Rightarrow> bool" where
  "routed sha e \<longleftrightarrow> index_tuple (le_tuple e) \<and> le_digest e = sha (keyOf e)"

interpretation groups: radix_pages "stored sha ps" content_group sha "\<lambda>i. i" "\<lambda>_. True" for sha ps
  by unfold_locales (auto dest: stored_valid)

interpretation entries: radix_pages "stored sha ps" content_leaf le_digest keyOf "routed sha" for sha ps
  by unfold_locales (auto dest: stored_valid simp: routed_def)

end
