(* ===== verification/Index_Lookup.thy ===== *)
theory Index_Lookup
  imports Index_Radix
begin

text \<open>
  Looking up in an index: the walk of a group returns its identifiers in order, the loop of
  \<^verbatim>\<open>lookup\<close> finds the entry of a tuple wherever it is, collision pages included, and neither
  meets a page twice or a fault.
\<close>

section \<open>Groups\<close>

abbreviation group_at :: "(string \<Rightarrow> hash) \<Rightarrow> page_store \<Rightarrow> string \<Rightarrow> hash \<Rightarrow> id set \<Rightarrow> hash list \<Rightarrow> bool" where
  "group_at sha ps \<equiv> radix (stored sha ps) content_group sha (\<lambda>i. i) (\<lambda>_. True)"

lemma content_group_Some: "content_group p = Some (ids, n) \<longleftrightarrow> p = Group ids None \<and> n = None"
  by (cases p rule: content_group.cases) auto

lemma content_leaf_Some: "content_leaf p = Some (es, n) \<longleftrightarrow> p = Leaf es n"
  by (cases p) auto

lemma read_stored: "stored sha ps h = Some p \<Longrightarrow> h \<notin> set seen \<Longrightarrow> read_page sha ps seen h = Inr p"
  using stored_valid [of sha ps h p] stored_read [of sha ps h p] by (simp add: read_page_def assertPageHash_def)

lemma each_child_ok:
  assumes "\<And>route c s. (route, c) \<in> set cs \<Longrightarrow> set s \<inter> set (H route) = {}
      \<Longrightarrow> \<exists>ids s'. f route c s = Inr (ids, s') \<and> set ids = A route \<and> distinct ids \<and> set s' = set s \<union> set (H route)"
    and "distinct (map fst cs)" and "set seen \<inter> (\<Union>rc \<in> set cs. set (H (fst rc))) = {}"
    and "\<And>route c route' c'. (route, c) \<in> set cs \<Longrightarrow> (route', c') \<in> set cs \<Longrightarrow> route \<noteq> route'
      \<Longrightarrow> set (H route) \<inter> set (H route') = {} \<and> A route \<inter> A route' = {}"
  shows "\<exists>ids s'. each_child f cs seen = Inr (ids, s') \<and> set ids = (\<Union>rc \<in> set cs. A (fst rc)) \<and> distinct ids
    \<and> set s' = set seen \<union> (\<Union>rc \<in> set cs. set (H (fst rc)))"
  using assms
proof (induction cs arbitrary: seen)
  case (Cons rc cs)
  obtain route c where rc: "rc = (route, c)" by (cases rc)
  have "set seen \<inter> set (H route) = {}" using Cons.prems(3) rc by auto
  with Cons.prems(1) [of route c seen] obtain ids s1 where one: "f route c seen = Inr (ids, s1)" "set ids = A route" "distinct ids"
    "set s1 = set seen \<union> set (H route)" by (auto simp: rc)
  have other: "set (H route) \<inter> set (H (fst rc')) = {} \<and> A route \<inter> A (fst rc') = {}" if "rc' \<in> set cs" for rc'
  proof -
    have "fst rc' \<noteq> route" using that Cons.prems(2) rc by auto
    then show ?thesis using Cons.prems(4) [of route c "fst rc'" "snd rc'"] that rc by auto
  qed
  have "\<exists>more s'. each_child f cs s1 = Inr (more, s') \<and> set more = (\<Union>rc \<in> set cs. A (fst rc)) \<and> distinct more
    \<and> set s' = set s1 \<union> (\<Union>rc \<in> set cs. set (H (fst rc)))"
  proof (rule Cons.IH)
    show "set s1 \<inter> (\<Union>rc \<in> set cs. set (H (fst rc))) = {}" using Cons.prems(3) other by (auto simp: one(4) rc)
    show "distinct (map fst cs)" using Cons.prems(2) by simp
    show "\<exists>ids s'. f route c s = Inr (ids, s') \<and> set ids = A route \<and> distinct ids \<and> set s' = set s \<union> set (H route)"
      if "(route, c) \<in> set cs" "set s \<inter> set (H route) = {}" for route c s
      by (rule Cons.prems(1)) (use that in simp_all)
    show "set (H r) \<inter> set (H r') = {} \<and> A r \<inter> A r' = {}" if "(r, c) \<in> set cs" "(r', c') \<in> set cs" "r \<noteq> r'" for r c r' c'
      by (rule Cons.prems(4) [of r c r' c']) (use that in simp_all)
  qed
  with one other show ?case by (fastforce simp: rc)
qed simp

lemma page_prefix_all: "(\<And>x. x \<in> set xs \<Longrightarrow> starts_with path (f x) \<and> True) \<Longrightarrow> list_all (\<lambda>x. starts_with path (f x)) xs"
  by (auto simp: list_all_iff)

lemma collect_page:
  assumes "stored sha ps h = Some (Group ids None)" and "\<And>i. i \<in> set ids \<Longrightarrow> starts_with path (sha i)" and "h \<notin> set seen"
  shows "collect sha ps r path h seen = Inr (ids, h # seen)"
  using assms read_stored [OF assms(1, 3)] by (cases r) (auto simp: group_page_ids_def list_all_iff)

lemma collect_ok:
  "group_at sha ps path h A hs \<Longrightarrow> length path + r = 64 \<Longrightarrow> set seen \<inter> set hs = {}
    \<Longrightarrow> \<exists>ids seen'. collect sha ps r path h seen = Inr (ids, seen') \<and> set ids = A \<and> distinct ids \<and> set seen' = set seen \<union> set hs"
proof (induction arbitrary: r seen rule: radix.induct)
  case (page h p xs path)
  then have p: "p = Group xs None" by (simp add: content_group_Some)
  have "distinct xs" using stored_valid [OF page.hyps(1)] ordered_distinct by (auto simp: p)
  then show ?case using collect_page [of sha ps h xs path seen r] page by (auto simp: p)
next
  case (chain h p xs n path A hs)
  then show ?case by (simp add: content_group_Some)
next
  case (branch h cs path A H)
  then obtain r' where r: "r = Suc r'" by (cases r) auto
  note fresh = groups.branch_fresh [OF branch.hyps(1, 2, 3)]
  have "h \<notin> set seen" using branch.prems by auto
  then have eq: "collect sha ps r path h seen = each_child (\<lambda>route child. collect sha ps r' (path @ [route]) child) cs (h # seen)"
    using read_stored [OF branch.hyps(1)] by (simp add: r)
  have cs: "distinct (map fst cs)" using stored_valid [OF branch.hyps(1)] by simp
  have "\<exists>ids s'. each_child (\<lambda>route child. collect sha ps r' (path @ [route]) child) cs (h # seen) = Inr (ids, s')
    \<and> set ids = (\<Union>rc \<in> set cs. A (fst rc)) \<and> distinct ids \<and> set s' = set (h # seen) \<union> (\<Union>rc \<in> set cs. set (H (fst rc)))"
  proof (rule each_child_ok [OF _ cs])
    fix route c s assume "(route, c) \<in> set cs" "set s \<inter> set (H route) = {}"
    then show "\<exists>ids s'. collect sha ps r' (path @ [route]) c s = Inr (ids, s') \<and> set ids = A route \<and> distinct ids \<and> set s' = set s \<union> set (H route)"
      using branch.IH branch.prems(1) r by simp
  next
    show "set (h # seen) \<inter> (\<Union>rc \<in> set cs. set (H (fst rc))) = {}"
      using branch.prems(2) fresh(1) by (auto simp: disjoint_iff)
  qed (use fresh(2) in blast)
  then show ?case by (auto simp: eq)
qed

lemma groupLookup_ok:
  assumes "group_at sha ps [] h A hs"
  shows "\<exists>ids. groupLookup sha ps h = Inr ids \<and> set ids = A \<and> ordered ids"
proof -
  obtain ids seen where "collect sha ps 64 [] h [] = Inr (ids, seen)" "set ids = A" "distinct ids"
    using collect_ok [OF assms, of 64 "[]"] by auto
  then show ?thesis using ordered_sort [of ids] by (simp add: groupLookup_def)
qed

section \<open>Tuples\<close>

abbreviation entries_at :: "(string \<Rightarrow> hash) \<Rightarrow> page_store \<Rightarrow> string \<Rightarrow> hash \<Rightarrow> leaf_entry set \<Rightarrow> hash list \<Rightarrow> bool" where
  "entries_at sha ps \<equiv> radix (stored sha ps) content_leaf le_digest keyOf (routed sha)"

declare lookup_loop.simps [simp del]

lemma checkNode_leaf:
  assumes "\<And>e. e \<in> set es \<Longrightarrow> starts_with path (le_digest e) \<and> routed sha e" and "nxt = None \<or> length path = 64"
  shows "checkNode sha (Leaf es nxt) (length path) path = Inr ()"
proof -
  have "starts_with path (sha (keyOf e)) \<and> le_digest e = sha (keyOf e) \<and> digestTuple sha (le_tuple e) = Inr (sha (keyOf e))"
    if "e \<in> set es" for e
    using assms(1) [OF that] by (auto simp: routed_def digestTuple_def canonicalTuple_ok)
  then show ?thesis using assms(2) by (auto simp: checkNode_def)
qed

lemma checkNode_branch: "length path < 64 \<Longrightarrow> checkNode sha (Branch cs) (length path) path = Inr ()"
  by (simp add: checkNode_def)

lemma routed_here: "routed sha e \<Longrightarrow> keyOf e = key \<Longrightarrow> le_digest e = sha key"
  by (simp add: routed_def)

text \<open>The entry of a key is under the child its digest routes to, or nowhere.\<close>

lemma routed_child:
  assumes "\<And>route c. (route, c) \<in> set cs \<Longrightarrow> entries_at sha ps (path @ [route]) c (A route) (H route)"
    and "e \<in> (\<Union>rc \<in> set cs. A (fst rc))" and "keyOf e = key" and "distinct (map fst cs)"
  shows "\<exists>c. map_of cs (sha key ! length path) = Some c \<and> e \<in> A (sha key ! length path)"
proof -
  obtain route c where rc: "(route, c) \<in> set cs" "e \<in> A route" using assms(2) by auto
  have "starts_with (path @ [route]) (le_digest e)" "routed sha e"
    using entries.tree_path [OF assms(1) [OF rc(1)] rc(2)] entries.tree_good [OF assms(1) [OF rc(1)] rc(2)] by simp_all
  then have "route = sha key ! length path" using routed_here [OF _ assms(3)] by (simp add: starts_with_snoc)
  with rc assms(4) show ?thesis by (auto intro!: exI [of _ c])
qed

lemma child_seen: "(route, c) \<in> set cs \<Longrightarrow> set (H route) \<subseteq> set (concat (map (H \<circ> fst) cs))"
  by force

lemma apart_keys: "f ` X \<inter> f ` Y = {} \<Longrightarrow> x \<in> X \<Longrightarrow> y \<in> Y \<Longrightarrow> f x = k \<Longrightarrow> f y \<noteq> k"
  by blast

lemma find_keyed:
  assumes "inj_on f (set xs)" and "x \<in> set xs" and "f x = k"
  shows "find (\<lambda>y. f y = k) xs = Some x"
proof (rule find_unique [OF assms(2)])
  show "y = x" if "y \<in> set xs" "f y = k" for y by (rule inj_onD [OF assms(1)]) (use that assms in simp_all)
qed (rule assms(3))

lemma lookup_absent:
  "entries_at sha ps path h A hs \<Longrightarrow> set seen \<inter> set hs = {} \<Longrightarrow> (\<And>e. e \<in> A \<Longrightarrow> keyOf e \<noteq> key)
    \<Longrightarrow> lookup_loop sha ps key (sha key) (Some h) path seen found = Inr found"
proof (induction arbitrary: seen rule: radix.induct)
  case (page h p xs path)
  then have p: "p = Leaf xs None" by (simp add: content_leaf_Some)
  have "find (\<lambda>e. keyOf e = key) xs = None" using page.prems(2) by (simp add: find_None_iff)
  then show ?case using read_stored [OF page.hyps(1), of seen] checkNode_leaf [OF page.hyps(5), where nxt = None] page.prems(1)
    by (subst lookup_loop.simps) (simp add: p lookup_loop.simps)
next
  case (chain h p xs n path A hs)
  then have p: "p = Leaf xs (Some n)" by (simp add: content_leaf_Some)
  have "find (\<lambda>e. keyOf e = key) xs = None" using chain.prems(2) by (auto simp: find_None_iff)
  moreover have "lookup_loop sha ps key (sha key) (Some n) path (h # seen) found = Inr found"
    using chain.IH [of "h # seen"] chain.prems entries.chain_fresh [OF chain.hyps(1 - 8)] by auto
  ultimately show ?case using read_stored [OF chain.hyps(1), of seen] checkNode_leaf [OF chain.hyps(5), where nxt = "Some n"] chain.prems(1) chain.hyps(6)
    by (subst lookup_loop.simps) (simp add: p)
next
  case (branch h cs path A H)
  let ?route = "sha key ! length path"
  have step: "lookup_loop sha ps key (sha key) (Some h) path seen found
      = lookup_loop sha ps key (sha key) (map_of cs ?route) (path @ [?route]) (h # seen) found"
    using read_stored [OF branch.hyps(1), of seen] checkNode_branch [OF branch.hyps(2)] branch.prems(1)
    by (subst lookup_loop.simps) (simp add: Let_def)
  show ?case
  proof (cases "map_of cs ?route")
    case None
    then show ?thesis unfolding step by (subst lookup_loop.simps) simp
  next
    case (Some c)
    then have rc: "(?route, c) \<in> set cs" by (rule map_of_SomeD)
    have fresh: "set (h # seen) \<inter> set (H ?route) = {}"
      using branch.prems(1) entries.branch_fresh(1) [OF branch.hyps(1, 2, 3) rc] child_seen [OF rc, of H] by (simp add: disjoint_iff) blast
    have "A ?route \<subseteq> \<Union>(A ` fst ` set cs)" using rc by force
    then have absent: "keyOf e \<noteq> key" if "e \<in> A ?route" for e using branch.prems(2) that by blast
    show ?thesis unfolding step Some by (rule branch.IH [OF rc fresh absent])
  qed
qed

lemma lookup_present:
  "entries_at sha ps path h A hs \<Longrightarrow> set seen \<inter> set hs = {} \<Longrightarrow> e \<in> A \<Longrightarrow> keyOf e = key
    \<Longrightarrow> lookup_loop sha ps key (sha key) (Some h) path seen None = Inr (Some (le_ids e))"
proof (induction arbitrary: seen rule: radix.induct)
  case (page h p xs path)
  then have p: "p = Leaf xs None" by (simp add: content_leaf_Some)
  have "find (\<lambda>e. keyOf e = key) xs = Some e" by (rule find_keyed [OF page.hyps(4) page.prems(2, 3)])
  then show ?case using read_stored [OF page.hyps(1), of seen] checkNode_leaf [OF page.hyps(5), where nxt = None] page.prems(1)
    by (subst lookup_loop.simps) (simp add: p lookup_loop.simps)
next
  case (chain h p xs n path A hs)
  then have p: "p = Leaf xs (Some n)" by (simp add: content_leaf_Some)
  have fresh: "set (h # seen) \<inter> set hs = {}" using chain.prems(1) entries.chain_fresh [OF chain.hyps(1 - 8)] by auto
  have step: "lookup_loop sha ps key (sha key) (Some h) path seen None = (case find (\<lambda>e. keyOf e = key) xs of
      None \<Rightarrow> lookup_loop sha ps key (sha key) (Some n) path (h # seen) None
    | Some e \<Rightarrow> lookup_loop sha ps key (sha key) (Some n) path (h # seen) (Some (le_ids e)))"
    using read_stored [OF chain.hyps(1), of seen] checkNode_leaf [OF chain.hyps(5), where nxt = "Some n"] chain.prems(1) chain.hyps(6)
    by (subst lookup_loop.simps) (simp add: p split: option.split)
  show ?case
  proof (cases "e \<in> set xs")
    case True
    have "find (\<lambda>e. keyOf e = key) xs = Some e" by (rule find_keyed [OF chain.hyps(4) True chain.prems(3)])
    moreover have "keyOf e' \<noteq> key" if "e' \<in> A" for e' by (rule apart_keys [OF chain.hyps(8) True that chain.prems(3)])
    ultimately show ?thesis using lookup_absent [OF chain.hyps(7) fresh] by (simp add: step)
  next
    case False
    then have "e \<in> A" using chain.prems(2) by simp
    then have "find (\<lambda>e. keyOf e = key) xs = None" using apart_keys [OF chain.hyps(8) _ \<open>e \<in> A\<close>] chain.prems(3) unfolding find_None_iff by blast
    then show ?thesis using chain.IH [OF fresh \<open>e \<in> A\<close> chain.prems(3)] by (simp add: step)
  qed
next
  case (branch h cs path A H)
  let ?route = "sha key ! length path"
  have "distinct (map fst cs)" using stored_valid [OF branch.hyps(1)] by simp
  then obtain c where c: "map_of cs ?route = Some c" "e \<in> A ?route"
    using routed_child [OF branch.hyps(3) _ branch.prems(3)] branch.prems(2) by force
  then have rc: "(?route, c) \<in> set cs" by (blast dest: map_of_SomeD)
  have "set (h # seen) \<inter> set (H ?route) = {}"
    using branch.prems(1) entries.branch_fresh(1) [OF branch.hyps(1, 2, 3) rc] child_seen [OF rc, of H] by (simp add: disjoint_iff) blast
  from branch.IH [OF rc this c(2) branch.prems(3)] show ?case
    using read_stored [OF branch.hyps(1), of seen] checkNode_branch [OF branch.hyps(2)] branch.prems(1) c(1)
    by (subst lookup_loop.simps) (simp add: Let_def)
qed

end
