(* ===== verification/Index_Update.thy ===== *)
theory Index_Update
  imports Index_Lookup
begin

text \<open>
  Changing an index: every operation ends, faults nowhere, keeps the pages that are there and leaves
  pages that hold exactly the changed set of identifiers under each tuple. What it relies on:
  digests are 64 hexadecimal digits, no two pages written share one, nor two identifiers, and
  identifiers are of ordinary length. Two tuples may share a digest: their entries are chained.
\<close>

section \<open>What an operation that writes ensures\<close>

abbreviation short_pages :: "page_store \<Rightarrow> bool" where
  "short_pages ps \<equiv> list_all short_page ps"

text \<open>Pages are only added; and unless two pages share a hash the operation succeeds with \<open>P\<close>.\<close>

definition ensures :: "(string \<Rightarrow> hash) \<Rightarrow> 'a io \<Rightarrow> page_store \<Rightarrow> ('a \<Rightarrow> page_store \<Rightarrow> bool) \<Rightarrow> bool" where
  "ensures sha m ps P \<longleftrightarrow> (\<forall>res ps'. m ps = (res, ps') \<longrightarrow> suffix ps ps'
     \<and> (clean sha ps' \<longrightarrow> (\<exists>x. res = Inr x \<and> short_pages ps' \<and> P x ps')))"

definition grows :: "'a io \<Rightarrow> bool" where
  "grows m \<longleftrightarrow> (\<forall>ps res ps'. m ps = (res, ps') \<longrightarrow> suffix ps ps')"

named_theorems grows_intros

lemma clean_suffix: "clean sha ps' \<Longrightarrow> suffix ps ps' \<Longrightarrow> clean sha ps"
  by (auto simp: suffix_def intro: clean_append)

lemma stored_suffix: "clean sha ps' \<Longrightarrow> suffix ps ps' \<Longrightarrow> stored sha ps h = Some p \<Longrightarrow> stored sha ps' h = Some p"
  by (auto simp: suffix_def intro: stored_grows)

lemma radix_suffix:
  "radix (stored sha ps) content dig key good path h A hs \<Longrightarrow> clean sha ps' \<Longrightarrow> suffix ps ps'
    \<Longrightarrow> radix (stored sha ps') content dig key good path h A hs"
  by (erule radix_mono) (rule stored_suffix)

lemma grows_return [grows_intros]: "grows (return_p x)"
  by (simp add: grows_def return_p_def)

lemma grows_lift [grows_intros]: "grows (lift_p m)"
  by (simp add: grows_def lift_p_def)

lemma grows_bind [grows_intros]:
  assumes "grows m" and "\<And>x. grows (f x)" shows "grows (bind_p m f)"
  unfolding grows_def
proof (intro allI impI)
  fix ps res ps' assume run: "bind_p m f ps = (res, ps')"
  obtain r ps1 where m: "m ps = (r, ps1)" by (cases "m ps")
  then have "suffix ps ps1" using assms(1) by (simp add: grows_def)
  moreover have "suffix ps1 ps'" using run m assms(2) by (cases r) (auto simp: bind_p_def grows_def)
  ultimately show "suffix ps ps'" by (rule suffix_order.trans)
qed

lemma grows_write [grows_intros]: "grows (writePage sha p)"
  by (auto simp: grows_def writePage_def suffix_def split: sum.splits)

lemma grows_map [grows_intros]: "(\<And>x. grows (f x)) \<Longrightarrow> grows (map_p f xs)"
  by (induction xs) (auto intro!: grows_intros)

lemma grows_group_page [grows_intros]: "grows (group_page sha ids)"
  by (simp add: group_page_def grows_write)

lemma grows_leaf_page [grows_intros]: "grows (leaf_page sha es nxt)"
  by (simp add: leaf_page_def grows_write)

lemma grows_groupPages [grows_intros]: "grows (groupPages sha r ids)"
proof (induction r arbitrary: ids)
  case 0
  then show ?case by (simp add: grows_group_page)
next
  case (Suc r)
  then show ?case by (auto intro!: grows_intros simp: split_def)
qed

lemma grows_rebranch [grows_intros]: "grows (rebranch sha root cs route nxt)"
  unfolding rebranch_def Let_def by (auto intro!: grows_intros)

lemma ensures_return: "short_pages ps \<Longrightarrow> P x ps \<Longrightarrow> ensures sha (return_p x) ps P"
  by (simp add: ensures_def return_p_def)

lemma ensures_bind:
  assumes "ensures sha m ps P" and "\<And>x. grows (f x)"
    and "\<And>x ps1. suffix ps ps1 \<Longrightarrow> clean sha ps1 \<Longrightarrow> short_pages ps1 \<Longrightarrow> P x ps1 \<Longrightarrow> ensures sha (f x) ps1 Q"
  shows "ensures sha (bind_p m f) ps Q"
  unfolding ensures_def
proof (intro allI impI)
  fix res ps' assume run: "bind_p m f ps = (res, ps')"
  obtain r ps1 where m: "m ps = (r, ps1)" by (cases "m ps")
  then have one: "suffix ps ps1" "clean sha ps1 \<Longrightarrow> \<exists>x. r = Inr x \<and> short_pages ps1 \<and> P x ps1"
    using assms(1) by (simp_all add: ensures_def)
  have two: "suffix ps1 ps'" using run m assms(2) by (cases r) (auto simp: bind_p_def grows_def)
  then have whole: "suffix ps ps'" using one(1) by (rule suffix_order.trans [rotated])
  moreover have "\<exists>x. res = Inr x \<and> short_pages ps' \<and> Q x ps'" if "clean sha ps'"
  proof -
    have clean: "clean sha ps1" by (rule clean_suffix [OF that two])
    then obtain x where x: "r = Inr x" "short_pages ps1" "P x ps1" using one(2) by blast
    then have "f x ps1 = (res, ps')" using run m by (simp add: bind_p_def)
    with assms(3) [OF one(1) clean x(2, 3)] that show ?thesis by (simp add: ensures_def)
  qed
  ultimately show "suffix ps ps' \<and> (clean sha ps' \<longrightarrow> (\<exists>x. res = Inr x \<and> short_pages ps' \<and> Q x ps'))" by blast
qed

lemma ensures_weaken: "ensures sha m ps P \<Longrightarrow> (\<And>x ps'. clean sha ps' \<Longrightarrow> suffix ps ps' \<Longrightarrow> P x ps' \<Longrightarrow> Q x ps') \<Longrightarrow> ensures sha m ps Q"
  unfolding ensures_def by blast

lemma ensures_write:
  assumes "validateIndexPage p = Inr ()" and "short_page p" and "hex_sha sha" and "short_pages ps"
    and "stored sha (p # ps) (page_hash sha p) = Some p \<Longrightarrow> suffix ps (p # ps) \<Longrightarrow> clean sha (p # ps) \<Longrightarrow> P (page_hash sha p) (p # ps)"
  shows "ensures sha (writePage sha p) ps P"
  using assms write_short [OF assms(1, 2)] stored_written [OF assms(1 - 3)]
  by (auto simp: ensures_def suffix_def)

lemma ensures_lift: "m = Inr x \<Longrightarrow> ensures sha (f x) ps P \<Longrightarrow> ensures sha (bind_p (lift_p m) f) ps P"
  by (simp add: ensures_def bind_p_def lift_p_def)

lemma case_bind_p:
  "(case m ps of (Inl e, ps1) \<Rightarrow> (Inl e, ps1) | (Inr x, ps1) \<Rightarrow> f x ps1) = bind_p m f ps"
  by (simp add: bind_p_def)

section \<open>Branches\<close>

lemma hex_collation:
  assumes "a \<in> set hex_digits" and "b \<in> set hex_digits" and "locale_key [a] \<le> locale_key [b]"
  shows "a \<le> b"
proof -
  have "\<forall>a \<in> set hex_digits. \<forall>b \<in> set hex_digits. locale_key [a] \<le> locale_key [b] \<longrightarrow> a \<le> b" by code_simp
  with assms show ?thesis by blast
qed

lemma hex_routes:
  assumes "set routes \<subseteq> set hex_digits" and "distinct routes"
  shows "length routes \<le> 16"
proof -
  have "length routes = card (set routes)" using assms(2) by (simp add: distinct_card)
  also have "\<dots> \<le> card (set hex_digits)" using assms(1) by (intro card_mono) simp_all
  also have "\<dots> \<le> length hex_digits" by (rule card_length)
  finally show ?thesis by (simp add: hex_digits_def)
qed

lemma sorted_children:
  assumes "fst ` set cs \<subseteq> set hex_digits"
  shows "sorted (map fst (locale_sort (\<lambda>(digit, _). [digit]) cs))"
proof -
  let ?cs = "locale_sort (\<lambda>(digit, _). [digit]) cs"
  have "sorted (map (\<lambda>rc. locale_key [fst rc]) ?cs)" by (simp add: locale_sort_def split_def)
  then have "sorted_wrt (\<lambda>x y. locale_key [fst x] \<le> locale_key [fst y]) ?cs" by (simp add: sorted_map)
  then have "sorted_wrt (\<lambda>x y. fst x \<le> fst y) ?cs"
    by (rule sorted_wrt_mono_rel [rotated]) (use assms in \<open>auto intro: hex_collation\<close>)
  then show ?thesis by (simp add: sorted_map)
qed

text \<open>A tree that may be empty.\<close>

definition tree_opt where
  "tree_opt rd content dig key good path root A \<longleftrightarrow>
     (case root of None \<Rightarrow> A = {} | Some h \<Rightarrow> \<exists>hs. radix rd content dig key good path h A hs)"

lemma tree_opt_simps [simp]:
  "tree_opt rd content dig key good path None A \<longleftrightarrow> A = {}"
  "tree_opt rd content dig key good path (Some h) A \<longleftrightarrow> (\<exists>hs. radix rd content dig key good path h A hs)"
  by (simp_all add: tree_opt_def)

lemma tree_opt_suffix:
  "tree_opt (stored sha ps) content dig key good path root A \<Longrightarrow> clean sha ps' \<Longrightarrow> suffix ps ps'
    \<Longrightarrow> tree_opt (stored sha ps') content dig key good path root A"
  by (cases root) (auto intro: radix_suffix)

lemma radix_hash: "radix (stored sha ps) content dig key good path h A hs \<Longrightarrow> is_hash h"
  by (induction rule: radix.induct) (blast dest: stored_valid)+

lemma ensures_branch:
  assumes cs: "cs \<noteq> []" "distinct (map fst cs)" "sorted (map fst cs)" "fst ` set cs \<subseteq> set hex_digits"
    and sub: "\<And>route c. (route, c) \<in> set cs \<Longrightarrow> \<exists>hs. radix (stored sha ps) content dig key good (path @ [route]) c (A route) hs"
    and "length path < 64" and "hex_sha sha" and "short_pages ps"
  shows "ensures sha (writePage sha (Branch cs)) ps (\<lambda>h ps'. \<exists>hs. radix (stored sha ps') content dig key good path h (\<Union>(A ` fst ` set cs)) hs)"
proof (rule ensures_write)
  show "validateIndexPage (Branch cs) = Inr ()"
  proof -
    have "r \<in> set hex_digits \<and> is_hash h" if "(r, h) \<in> set cs" for r h
      using cs(4) that sub [OF that] radix_hash by fastforce
    then show ?thesis using cs(1 - 3) hex_routes [of "map fst cs"] cs(4) by auto
  qed
next
  assume new: "stored sha (Branch cs # ps) (page_hash sha (Branch cs)) = Some (Branch cs)" "suffix ps (Branch cs # ps)" "clean sha (Branch cs # ps)"
  have "\<forall>rc \<in> set cs. \<exists>hs. radix (stored sha ps) content dig key good (path @ [fst rc]) (snd rc) (A (fst rc)) hs"
    using sub by (metis prod.collapse)
  then obtain G where G: "\<And>rc. rc \<in> set cs \<Longrightarrow> radix (stored sha ps) content dig key good (path @ [fst rc]) (snd rc) (A (fst rc)) (G rc)" by metis
  define H where "H route = G (route, the (map_of cs route))" for route
  have "radix (stored sha (Branch cs # ps)) content dig key good (path @ [route]) c (A route) (H route)" if "(route, c) \<in> set cs" for route c
    using radix_suffix [OF G [OF that] new(3, 2)] that cs(2) by (simp add: H_def map_of_is_SomeI)
  from radix.branch [OF new(1) assms(6) this]
  show "\<exists>hs. radix (stored sha (Branch cs # ps)) content dig key good path (page_hash sha (Branch cs)) (\<Union>(A ` fst ` set cs)) hs" by blast
qed (use assms in simp_all)

section \<open>Groups\<close>

text \<open>Pages of a list split by the next digit: the part that groups and tuples share.\<close>

lemma ensures_map:
  assumes "\<And>x ps1. x \<in> set xs \<Longrightarrow> short_pages ps1 \<Longrightarrow> ensures sha (f x) ps1 (Q x)" and grows: "\<And>x. grows (f x)"
    and kept: "\<And>x y ps1 ps2. Q x y ps1 \<Longrightarrow> clean sha ps2 \<Longrightarrow> suffix ps1 ps2 \<Longrightarrow> Q x y ps2" and "short_pages ps"
  shows "ensures sha (map_p f xs) ps (\<lambda>ys ps'. list_all2 (\<lambda>x y. Q x y ps') xs ys)"
  using assms(1, 4)
proof (induction xs arbitrary: ps)
  case Nil
  then show ?case by (auto intro: ensures_return)
next
  case (Cons x xs)
  have IH: "ensures sha (map_p f xs) ps1 (\<lambda>ys ps'. list_all2 (\<lambda>x y. Q x y ps') xs ys)" if "short_pages ps1" for ps1
    by (rule Cons.IH) (use that Cons.prems(1) in auto)
  show ?case unfolding map_p.simps
  proof (rule ensures_bind [OF Cons.prems(1) [of x]])
    fix y ps1 assume "short_pages ps1" "Q x y ps1"
    show "ensures sha (bind_p (map_p f xs) (\<lambda>ys. return_p (y # ys))) ps1 (\<lambda>ys ps'. list_all2 (\<lambda>x y. Q x y ps') (x # xs) ys)"
    proof (rule ensures_bind [OF IH [OF \<open>short_pages ps1\<close>] grows_return])
      fix ys ps2 assume ps2: "suffix ps1 ps2" "clean sha ps2" "short_pages ps2" and "list_all2 (\<lambda>x y. Q x y ps2) xs ys"
      with kept [OF \<open>Q x y ps1\<close> ps2(2, 1)] show "ensures sha (return_p (y # ys)) ps2 (\<lambda>ys ps'. list_all2 (\<lambda>x y. Q x y ps') (x # xs) ys)"
        by (auto intro!: ensures_return)
    qed
  qed (use Cons.prems(2) in \<open>auto intro!: grows_intros grows\<close>)
qed

lemma ensures_children:
  assumes "\<And>route sub ps1. (route, sub) \<in> set rs \<Longrightarrow> short_pages ps1 \<Longrightarrow>
      ensures sha (m sub) ps1 (\<lambda>h ps'. \<exists>hs. radix (stored sha ps') content dig key good (path @ [route]) h (set sub) hs)"
    and "\<And>sub. grows (m sub)" and "short_pages ps"
  shows "ensures sha (map_p (\<lambda>(route, sub). bind_p (m sub) (\<lambda>h. return_p (route, h))) rs) ps
    (\<lambda>cs ps'. list_all2 (\<lambda>sub child. fst child = fst sub
       \<and> (\<exists>hs. radix (stored sha ps') content dig key good (path @ [fst sub]) (snd child) (set (snd sub)) hs)) rs cs)"
proof (rule ensures_map [OF _ _ _ assms(3)])
  fix x ps1 assume x: "x \<in> set rs" "short_pages ps1"
  obtain route sub where rs: "x = (route, sub)" by (cases x)
  show "ensures sha (case x of (route, sub) \<Rightarrow> bind_p (m sub) (\<lambda>h. return_p (route, h))) ps1
    (\<lambda>y ps'. fst y = fst x \<and> (\<exists>hs. radix (stored sha ps') content dig key good (path @ [fst x]) (snd y) (set (snd x)) hs))"
    using x unfolding rs prod.case by (intro ensures_bind [OF assms(1)]) (auto intro!: ensures_return grows_return)
qed (auto simp: split_def intro!: grows_intros assms(2) intro: radix_suffix)

lemma routes_facts:
  "map fst (routes_of f xs) = sort (remdups (map f xs))"
  "(route, sub) \<in> set (routes_of f xs) \<Longrightarrow> sub = filter (\<lambda>x. f x = route) xs \<and> sub \<noteq> []"
  by (auto simp: routes_of_def comp_def filter_empty_conv)

lemma ensures_split:
  assumes "\<And>route sub ps1. (route, sub) \<in> set (routes_of f xs) \<Longrightarrow> short_pages ps1 \<Longrightarrow>
      ensures sha (m sub) ps1 (\<lambda>h ps'. \<exists>hs. radix (stored sha ps') content dig key good (path @ [route]) h (set sub) hs)"
    and grows: "\<And>sub. grows (m sub)" and short: "short_pages ps"
    and xs: "xs \<noteq> []" "\<And>x. x \<in> set xs \<Longrightarrow> f x \<in> set hex_digits" and "length path < 64" and "hex_sha sha"
  shows "ensures sha (bind_p (map_p (\<lambda>(route, sub). bind_p (m sub) (\<lambda>h. return_p (route, h))) (routes_of f xs))
      (\<lambda>children. writePage sha (Branch children))) ps
    (\<lambda>h ps'. \<exists>hs. radix (stored sha ps') content dig key good path h (set xs) hs)"
proof (rule ensures_bind [OF ensures_children [OF assms(1) grows short] grows_write])
  fix cs ps1 assume ps1: "short_pages ps1" "clean sha ps1"
    and all: "list_all2 (\<lambda>sub child. fst child = fst sub \<and>
      (\<exists>hs. radix (stored sha ps1) content dig key good (path @ [fst sub]) (snd child) (set (snd sub)) hs)) (routes_of f xs) cs"
  then have fst: "map fst cs = map fst (routes_of f xs)"
    by (auto simp: list_all2_conv_all_nth intro!: nth_equalityI)
  let ?A = "\<lambda>route. {x \<in> set xs. f x = route}"
  have sub: "\<exists>hs. radix (stored sha ps1) content dig key good (path @ [route]) c (?A route) hs" if "(route, c) \<in> set cs" for route c
  proof -
    obtain i where i: "i < length cs" "cs ! i = (route, c)" using \<open>(route, c) \<in> set cs\<close> by (auto simp: in_set_conv_nth)
    obtain r sub where rs: "routes_of f xs ! i = (r, sub)" by (cases "routes_of f xs ! i")
    have "i < length (routes_of f xs)" using all i(1) by (auto simp: list_all2_conv_all_nth)
    then have "(r, sub) \<in> set (routes_of f xs)" using rs by (metis nth_mem)
    then have "sub = filter (\<lambda>x. f x = r) xs" using routes_facts(2) by blast
    moreover have "r = route" "\<exists>hs. radix (stored sha ps1) content dig key good (path @ [route]) c (set sub) hs"
      using list_all2_nthD2 [OF all i(1)] by (auto simp: i rs)
    ultimately show ?thesis by simp
  qed
  have "\<Union>(?A ` fst ` set cs) = set xs"
  proof -
    have "fst ` set cs = f ` set xs" using fst routes_facts(1) [of f xs] by (metis list.set_map set_remdups set_sort)
    then show ?thesis by auto
  qed
  moreover have "ensures sha (writePage sha (Branch cs)) ps1 (\<lambda>h ps'. \<exists>hs. radix (stored sha ps') content dig key good path h (\<Union>(?A ` fst ` set cs)) hs)"
  proof (rule ensures_branch [OF _ _ _ _ sub])
    have "set (map fst cs) = f ` set xs" by (simp add: fst routes_facts(1))
    then show "cs \<noteq> []" using xs(1) by auto
    show "distinct (map fst cs)" "sorted (map fst cs)" using fst by (simp_all add: routes_facts(1))
    have "set (map fst cs) = f ` set xs" by (simp add: fst routes_facts(1))
    then show "fst ` set cs \<subseteq> set hex_digits" using xs(2) by auto
  qed (use assms ps1 in simp_all)
  ultimately show "ensures sha (writePage sha (Branch cs)) ps1 (\<lambda>h ps'. \<exists>hs. radix (stored sha ps') content dig key good path h (set xs) hs)" by simp
qed

text \<open>The next digit of a digest, and identifiers apart by theirs.\<close>

lemma digest_digit: "hex_sha sha \<Longrightarrow> d < 64 \<Longrightarrow> sha s ! d \<in> set hex_digits"
  by (simp add: hex_sha_def is_hash_def list_all_length)

lemma digest_length: "hex_sha sha \<Longrightarrow> length (sha s) = 64"
  by (simp add: hex_sha_def is_hash_def)

lemma starts_with_digit: "hex_sha sha \<Longrightarrow> length path < 64 \<Longrightarrow> starts_with path (sha s) \<Longrightarrow> starts_with (path @ [sha s ! length path]) (sha s)"
  by (simp add: starts_with_snoc digest_length)

lemma starts_with_whole: "hex_sha sha \<Longrightarrow> length path = 64 \<Longrightarrow> starts_with path (sha s) \<longleftrightarrow> sha s = path"
  by (auto simp: starts_with_def digest_length)

lemma ensures_group_page:
  assumes "ids \<noteq> []" "distinct ids" "length ids \<le> 32" "list_all short_id ids" "\<And>i. i \<in> set ids \<Longrightarrow> starts_with path (sha i)"
    and "length path \<le> 64" "hex_sha sha" "short_pages ps"
  shows "ensures sha (group_page sha ids) ps (\<lambda>h ps'. \<exists>hs. group_at sha ps' path h (set ids) hs)"
  unfolding group_page_def
proof (rule ensures_write)
  have "list_all portable_id ids" using assms(4) by (auto simp: list_all_iff short_id_def)
  then show "validateIndexPage (Group (locale_sort (\<lambda>i. i) ids) None) = Inr ()"
    using assms(1 - 3) ordered_sort [OF assms(2)] by (simp add: list_all_iff) (metis list.set(1) set_empty set_locale_sort)
  show "short_page (Group (locale_sort (\<lambda>i. i) ids) None)" using assms(4) by (simp add: list_all_iff)
next
  let ?p = "Group (locale_sort (\<lambda>i. i) ids) None"
  assume st: "stored sha (?p # ps) (page_hash sha ?p) = Some ?p"
  have "radix (stored sha (?p # ps)) content_group sha (\<lambda>i. i) (\<lambda>_. True) path (page_hash sha ?p)
      (set (locale_sort (\<lambda>i. i) ids)) [page_hash sha ?p]"
    by (rule radix.page [where p = ?p]) (use assms st in \<open>simp_all flip: set_empty\<close>)
  then
  have "group_at sha (?p # ps) path (page_hash sha ?p) (set (locale_sort (\<lambda>i. i) ids)) [page_hash sha ?p]"
    by simp
  then show "\<exists>hs. group_at sha (?p # ps) path (page_hash sha ?p) (set ids) hs" by auto
qed (use assms in simp_all)

lemma one_id:
  assumes "distinct ids" "inj_on sha (set ids)" "\<And>i. i \<in> set ids \<Longrightarrow> sha i = path"
  shows "length ids \<le> 1"
proof -
  have "card (sha ` set ids) \<le> card {path}" using assms(3) by (intro card_mono) auto
  then show ?thesis using assms(1, 2) by (simp add: card_image distinct_card)
qed

lemma ensures_groupPages:
  assumes "hex_sha sha"
  shows "ids \<noteq> [] \<Longrightarrow> distinct ids \<Longrightarrow> list_all short_id ids \<Longrightarrow> (\<And>i. i \<in> set ids \<Longrightarrow> starts_with path (sha i))
    \<Longrightarrow> inj_on sha (set ids) \<Longrightarrow> length path + r = 64 \<Longrightarrow> short_pages ps
    \<Longrightarrow> ensures sha (groupPages sha r ids) ps (\<lambda>h ps'. \<exists>hs. group_at sha ps' path h (set ids) hs)"
proof (induction r arbitrary: ids path ps)
  case 0
  then have "length ids \<le> 1" using one_id [of ids sha path] starts_with_whole [OF assms] by auto
  with 0 assms show ?case by (simp add: ensures_group_page)
next
  case (Suc r)
  show ?case
  proof (cases "length ids \<le> 32")
    case True
    with Suc.prems assms show ?thesis by (simp add: ensures_group_page)
  next
    case False
    have depth: "63 - r = length path" "length path < 64" using Suc.prems(6) by simp_all
    have "ensures sha (bind_p (map_p (\<lambda>(route, sub). bind_p (groupPages sha r sub) (\<lambda>h. return_p (route, h)))
        (routes_of (\<lambda>i. sha i ! length path) ids)) (\<lambda>children. writePage sha (Branch children))) ps
      (\<lambda>h ps'. \<exists>hs. group_at sha ps' path h (set ids) hs)"
    proof (rule ensures_split)
      fix route sub ps1 assume rs: "(route, sub) \<in> set (routes_of (\<lambda>i. sha i ! length path) ids)" and "short_pages ps1"
      have sub: "sub = filter (\<lambda>i. sha i ! length path = route) ids" "sub \<noteq> []" using routes_facts(2) [OF rs] by blast+
      then have "starts_with (path @ [route]) (sha i)" if "i \<in> set sub" for i
        using that starts_with_digit [OF assms depth(2) Suc.prems(4)] by auto
      moreover have "inj_on sha (set sub)" "distinct sub" "list_all short_id sub"
        using Suc.prems sub by (auto intro: inj_on_subset simp: list_all_iff)
      ultimately show "ensures sha (groupPages sha r sub) ps1 (\<lambda>h ps'. \<exists>hs. group_at sha ps' (path @ [route]) h (set sub) hs)"
        using Suc.IH [OF sub(2), of "path @ [route]"] Suc.prems(6) \<open>short_pages ps1\<close> by simp
    qed (use Suc.prems depth assms in \<open>auto intro: grows_groupPages digest_digit\<close>)
    then show ?thesis using False by (simp add: depth(1))
  qed
qed

subsection \<open>Changing one identifier\<close>

definition change :: "delta_operation \<Rightarrow> id \<Rightarrow> id set \<Rightarrow> id set" where
  "change operation i S = (if operation = PutId then insert i S else S - {i})"

lemma change_simps [simp]: "change PutId i S = insert i S" "change RemoveId i S = S - {i}"
  by (simp_all add: change_def)

lemma change_split: "i \<notin> X \<Longrightarrow> change operation i (X \<union> S) = X \<union> change operation i S"
  by (auto simp: change_def)

lemma ordered_position:
  fixes i :: id
  assumes "ordered ids"
  defines "before \<equiv> takeWhile (\<lambda>found. locale_key found < locale_key i) ids"
  shows "i \<in> set ids \<longleftrightarrow> length before < length ids \<and> ids ! length before = i"
    and "\<And>x. x \<in> set (drop (length before) ids) \<Longrightarrow> x \<noteq> i \<Longrightarrow> locale_key i < locale_key x"
proof -
  let ?P = "\<lambda>found. locale_key found < locale_key i"
  have split: "ids = before @ dropWhile ?P ids" by (simp add: before_def)
  have after: "locale_key i \<le> locale_key x" if "x \<in> set (dropWhile ?P ids)" for x
  proof (cases "dropWhile ?P ids")
    case (Cons y ys)
    then have "\<not> ?P y" by (metis hd_dropWhile list.distinct(1) list.sel(1))
    moreover have "ordered (y # ys)" using assms(1) split Cons by (metis sorted_wrt_append)
    ultimately show ?thesis using that Cons by (auto dest: order.strict_implies_order intro: order_trans)
  next
    case Nil
    with that show ?thesis by (simp only: list.set empty_iff)
  qed
  have drop: "drop (length before) ids = dropWhile ?P ids" using split by (metis append_eq_conv_conj)
  show "locale_key i < locale_key x" if "x \<in> set (drop (length before) ids)" "x \<noteq> i" for x
    using after [of x] that by (simp add: drop order_le_neq_trans)
  show "i \<in> set ids \<longleftrightarrow> length before < length ids \<and> ids ! length before = i"
  proof
    assume "i \<in> set ids"
    moreover have "i \<notin> set before" by (auto simp: before_def dest: set_takeWhileD)
    ultimately have "i \<in> set (dropWhile ?P ids)" using split by (metis Un_iff set_append)
    then obtain y ys where ys: "dropWhile ?P ids = y # ys" by (cases "dropWhile ?P ids") auto
    have "y = i"
    proof (rule ccontr)
      assume "y \<noteq> i"
      have "ordered (y # ys)" using assms(1) split ys by (metis sorted_wrt_append)
      with \<open>i \<in> set (dropWhile ?P ids)\<close> \<open>y \<noteq> i\<close> ys have "locale_key y < locale_key i" by auto
      moreover have "\<not> ?P y" using ys by (metis hd_dropWhile list.distinct(1) list.sel(1))
      ultimately show False by simp
    qed
    then show "length before < length ids \<and> ids ! length before = i"
      using split ys by (metis length_append length_Cons less_add_same_cancel1 nth_append_length zero_less_Suc)
  qed (auto dest: nth_mem)
qed

lemma spliced_ok:
  assumes "ordered ids"
  shows "case spliced ids i operation of
      None \<Rightarrow> change operation i (set ids) = set ids
    | Some ids1 \<Rightarrow> set ids1 = change operation i (set ids) \<and> distinct ids1"
proof -
  let ?n = "length (takeWhile (\<lambda>found. locale_key found < locale_key i) ids)"
  note pos = ordered_position(1) [OF assms, of i]
  have dist: "distinct ids" by (rule ordered_distinct [OF assms])
  show ?thesis
  proof (cases "i \<in> set ids")
    case True
    then have n: "?n < length ids" "ids ! ?n = i" using pos by simp_all
    then have ids: "ids = take ?n ids @ i # drop (Suc ?n) ids" by (metis id_take_nth_drop)
    then have rest: "distinct (take ?n ids @ i # drop (Suc ?n) ids)" using dist by argo
    then have "set (take ?n ids @ drop (Suc ?n) ids) = set ids - {i}" using arg_cong [OF ids, of set] by auto
    then show ?thesis using n True rest by (cases operation) (auto simp: spliced_def Let_def)
  next
    case False
    then have n: "\<not> (?n < length ids \<and> ids ! ?n = i)" using pos by simp
    have ids: "take ?n ids @ drop ?n ids = ids" by simp
    then have "set (take ?n ids @ i # drop ?n ids) = insert i (set ids)" by (metis set_append set_append list.simps(15) Un_insert_right)
    moreover have "distinct (take ?n ids @ i # drop ?n ids)"
      using False dist ids by (metis distinct.simps(2) distinct_append disjoint_insert(1) set_append Un_iff list.simps(15))
    ultimately show ?thesis using n False by (cases operation) (auto simp: spliced_def Let_def)
  qed
qed

lemma tree_opt_child:
  assumes "\<And>route c. (route, c) \<in> set cs \<Longrightarrow> radix rd content dig key good (path @ [route]) c (A route) (H route)"
  shows "tree_opt rd content dig key good (path @ [route]) (map_of cs route) (if route \<in> fst ` set cs then A route else {})"
proof (cases "map_of cs route")
  case None
  then have "route \<notin> fst ` set cs" by (simp add: map_of_eq_None_iff)
  then show ?thesis unfolding None by simp
next
  case (Some c)
  then have "(route, c) \<in> set cs" by (rule map_of_SomeD)
  with assms [OF this] Some show ?thesis by (force simp: image_iff)
qed

lemma distinct_map_locale_sort: "distinct (map f (locale_sort g xs)) \<longleftrightarrow> distinct (map f xs)"
  by (simp add: distinct_map)

text \<open>Replacing one child of a branch.\<close>

context radix_pages
begin

lemma same_child:
  "tree_opt rd content dig key good path root A \<Longrightarrow> tree_opt rd content dig key good path root B \<Longrightarrow> A = B"
  by (cases root) (auto dest: tree_det)

end

lemma ensures_rebranch:
  assumes same: "\<And>ps root A B. tree_opt (stored sha ps) content dig key good (path @ [route]) root A
      \<Longrightarrow> tree_opt (stored sha ps) content dig key good (path @ [route]) root B \<Longrightarrow> A = B"
    and st: "stored sha ps h = Some (Branch cs)" and depth: "length path < 64"
    and sub: "\<And>r c. (r, c) \<in> set cs \<Longrightarrow> radix (stored sha ps) content dig key good (path @ [r]) c (A r) (H r)"
    and nxt: "tree_opt (stored sha ps) content dig key good (path @ [route]) nxt B"
    and "route \<in> set hex_digits" "hex_sha sha" "short_pages ps"
  shows "ensures sha (rebranch sha h cs route nxt) ps
    (\<lambda>root ps'. tree_opt (stored sha ps') content dig key good path root ((\<Union>r \<in> fst ` set cs - {route}. A r) \<union> B))"
proof (cases "nxt = map_of cs route")
  case True
  have "B = (if route \<in> fst ` set cs then A route else {})"
    by (rule same [OF nxt [unfolded True] tree_opt_child [OF sub]])
  then have "(\<Union>r \<in> fst ` set cs - {route}. A r) \<union> B = \<Union>(A ` fst ` set cs)" by auto
  with radix.branch [OF st depth sub] True assms(8) show ?thesis
    by (auto simp: rebranch_def intro!: ensures_return)
next
  case False
  define children where "children = locale_sort (\<lambda>(digit, _). [digit])
    (filter (\<lambda>(digit, _). digit \<noteq> route) cs @ (case nxt of None \<Rightarrow> [] | Some h \<Rightarrow> [(route, h)]))"
  have valid: "distinct (map fst cs)" "fst ` set cs \<subseteq> set hex_digits" using stored_valid [OF st] by auto
  have members: "set children = {(r, c). (r, c) \<in> set cs \<and> r \<noteq> route} \<union> (case nxt of None \<Rightarrow> {} | Some h \<Rightarrow> {(route, h)})"
    by (auto simp: children_def split: option.splits)
  let ?A = "\<lambda>r. if r = route then B else A r"
  have whole: "\<Union>(?A ` fst ` set children) = (\<Union>r \<in> fst ` set cs - {route}. A r) \<union> B"
    using nxt by (cases nxt) (force simp: members)+
  have rebranch: "rebranch sha h cs route nxt = (if children = [] then return_p None
      else bind_p (writePage sha (Branch children)) (\<lambda>h. return_p (Some h)))"
    using False by (simp add: rebranch_def children_def Let_def)
  show ?thesis
  proof (cases "children = []")
    case True
    with whole have "(\<Union>r \<in> fst ` set cs - {route}. A r) \<union> B = {}" by simp
    with assms(8) True show ?thesis by (simp add: rebranch ensures_return)
  next
    case False
    have "ensures sha (writePage sha (Branch children)) ps
      (\<lambda>h ps'. \<exists>hs. radix (stored sha ps') content dig key good path h (\<Union>(?A ` fst ` set children)) hs)"
    proof (rule ensures_branch [OF False])
      have "distinct (map fst (filter (\<lambda>(digit, _). digit \<noteq> route) cs @ (case nxt of None \<Rightarrow> [] | Some h \<Rightarrow> [(route, h)])))"
        using valid(1) by (cases nxt) (auto simp: distinct_map_filter)
      then show "distinct (map fst children)" by (simp add: children_def distinct_map_locale_sort)
      have hex: "fst ` set (filter (\<lambda>(digit, _). digit \<noteq> route) cs @ (case nxt of None \<Rightarrow> [] | Some h \<Rightarrow> [(route, h)])) \<subseteq> set hex_digits"
        using valid(2) assms(6) by (cases nxt) auto
      show "sorted (map fst children)" unfolding children_def by (rule sorted_children [OF hex])
      show "fst ` set children \<subseteq> set hex_digits" using hex by (simp add: children_def)
      show "\<exists>hs. radix (stored sha ps) content dig key good (path @ [r]) c (?A r) hs" if "(r, c) \<in> set children" for r c
        using that sub nxt by (cases "r = route") (auto simp: members split: option.splits)
    qed (use assms in simp_all)
    then have "ensures sha (bind_p (writePage sha (Branch children)) (\<lambda>h. return_p (Some h))) ps
      (\<lambda>root ps'. tree_opt (stored sha ps') content dig key good path root (\<Union>(?A ` fst ` set children)))"
      by (rule ensures_bind) (rule grows_return | (rule ensures_return, assumption, simp only: tree_opt_simps))+
    then show ?thesis using False by (simp only: rebranch whole if_False)
  qed
qed

lemma ensures_cong: "m ps = m' ps \<Longrightarrow> ensures sha m' ps P \<Longrightarrow> ensures sha m ps P"
  by (simp add: ensures_def)

abbreviation group_opt :: "(string \<Rightarrow> hash) \<Rightarrow> page_store \<Rightarrow> string \<Rightarrow> hash option \<Rightarrow> id set \<Rightarrow> bool" where
  "group_opt sha ps \<equiv> tree_opt (stored sha ps) content_group sha (\<lambda>i. i) (\<lambda>_. True)"

declare groupUpdate.simps [simp del]

lemma short_stored: "stored sha ps h = Some p \<Longrightarrow> short_pages ps \<Longrightarrow> short_page p"
proof -
  assume st: "stored sha ps h = Some p" and short: "short_pages ps"
  from stored_valid [OF st] have "p \<in> set ps" by (elim conjE)
  with short show ?thesis unfolding list_all_iff by (rule bspec)
qed

lemma group_short: "group_at sha ps path h A hs \<Longrightarrow> short_pages ps \<Longrightarrow> i \<in> A \<Longrightarrow> short_id i"
proof (induction rule: radix.induct)
  case (page h p xs path)
  have "short_page p" by (rule short_stored [OF page.hyps(1) page.prems(1)])
  with page.hyps(2) page.prems(2) show ?case by (simp add: content_group_Some list_all_iff)
next
  case (branch h cs path A H)
  then obtain r c where "(r, c) \<in> set cs" "i \<in> A r" by auto
  from branch.IH [OF this(1) branch.prems(1) this(2)] show ?case .
qed (simp add: content_group_Some)

lemma ensures_new_group:
  assumes "hex_sha sha" "short_id i" "starts_with path (sha i)" "length path \<le> 64" "short_pages ps"
  shows "ensures sha (groupUpdate sha None i operation depth seen) ps (\<lambda>root ps'. group_opt sha ps' path root (change operation i {}))"
proof (cases operation)
  case RemoveId
  then have "groupUpdate sha None i operation depth seen ps = return_p None ps" by (simp add: groupUpdate.simps return_p_def)
  then show ?thesis by (rule ensures_cong) (simp add: ensures_return assms(5) RemoveId)
next
  case PutId
  have "ensures sha (bind_p (group_page sha [i]) (\<lambda>h. return_p (Some h))) ps (\<lambda>root ps'. group_opt sha ps' path root {i})"
    by (rule ensures_bind [OF ensures_group_page [where path = path]]) (use assms in \<open>auto intro!: ensures_return grows_return\<close>)
  moreover have "groupUpdate sha None i operation depth seen ps = bind_p (group_page sha [i]) (\<lambda>h. return_p (Some h)) ps"
    by (simp add: groupUpdate.simps PutId)
  ultimately show ?thesis using PutId by (auto intro: ensures_cong)
qed

lemma ensures_groupUpdate:
  assumes hex: "hex_sha sha" and inj: "inj_on sha U" and i: "i \<in> U" "short_id i"
  shows "group_at sha ps path h A hs \<Longrightarrow> A \<subseteq> U \<Longrightarrow> starts_with path (sha i) \<Longrightarrow> set seen \<inter> set hs = {} \<Longrightarrow> short_pages ps
    \<Longrightarrow> ensures sha (groupUpdate sha (Some h) i operation (length path) seen) ps
          (\<lambda>root ps'. group_opt sha ps' path root (change operation i A))"
proof (induction arbitrary: seen rule: radix.induct)
  case (page h p xs path)
  have p: "p = Group xs None" using page.hyps(2) by (simp add: content_group_Some)
  have xs: "ordered xs" using stored_valid [OF page.hyps(1)] by (simp add: p)
  have whole: "group_at sha ps path h (set xs) [h]" by (rule radix.page) (use page.hyps in simp_all)
  have read: "read_page sha ps seen h = Inr (Group xs None)" using read_stored [OF page.hyps(1)] page.prems(3) by (simp add: p)
  let ?run = "case spliced xs i operation of None \<Rightarrow> return_p (Some h) | Some [] \<Rightarrow> return_p None
      | Some ids1 \<Rightarrow> bind_p (groupPages sha (64 - length path) ids1) (\<lambda>h. return_p (Some h))"
  have step: "groupUpdate sha (Some h) i operation (length path) seen ps = ?run ps"
    by (subst groupUpdate.simps) (simp add: read return_p_def split: option.split list.split)
  show ?case
  proof (rule ensures_cong [where m' = ?run], rule step, cases "spliced xs i operation")
    case None
    then show "ensures sha ?run ps
      (\<lambda>root ps'. group_opt sha ps' path root (change operation i (set xs)))"
      using spliced_ok [OF xs, of operation i] whole page.prems(4) by (auto intro!: ensures_return)
  next
    case (Some ids1)
    then have ids1: "set ids1 = change operation i (set xs)" "distinct ids1" using spliced_ok [OF xs, of operation i] by simp_all
    have "set ids1 \<subseteq> insert i (set xs)" using ids1(1) by (cases operation) auto
    then have "list_all short_id ids1" "inj_on sha (set ids1)" and path: "\<And>j. j \<in> set ids1 \<Longrightarrow> starts_with path (sha j)"
      using group_short [OF whole page.prems(4)] i(2) page.prems(1, 2) i(1) page.hyps(5)
      by (auto simp: list_all_iff intro: inj_on_subset [OF inj])
    then have "ids1 \<noteq> [] \<Longrightarrow> ensures sha (groupPages sha (64 - length path) ids1) ps (\<lambda>h ps'. \<exists>hs. group_at sha ps' path h (set ids1) hs)"
      using ids1(2) page.hyps(6) page.prems(4) by (intro ensures_groupPages [OF hex]) simp_all
    then have "ids1 \<noteq> [] \<Longrightarrow> ensures sha (bind_p (groupPages sha (64 - length path) ids1) (\<lambda>h. return_p (Some h))) ps
        (\<lambda>root ps'. group_opt sha ps' path root (set ids1))"
      by (rule ensures_bind) (auto intro!: ensures_return grows_return)
    then show "ensures sha ?run ps
      (\<lambda>root ps'. group_opt sha ps' path root (change operation i (set xs)))"
      using Some ids1(1) page.prems(4) by (cases ids1) (auto intro!: ensures_return)
  qed
next
  case (chain h p xs n path A hs)
  then show ?case by (simp add: content_group_Some)
next
  case (branch h cs path A H)
  let ?route = "sha i ! length path"
  have read: "read_page sha ps seen h = Inr (Branch cs)" using read_stored [OF branch.hyps(1)] branch.prems(3) by simp
  have step: "groupUpdate sha (Some h) i operation (length path) seen ps =
      bind_p (groupUpdate sha (map_of cs ?route) i operation (length (path @ [?route])) (h # seen)) (rebranch sha h cs ?route) ps"
    using branch.hyps(2) by (subst groupUpdate.simps) (simp add: read case_bind_p)
  have route: "starts_with (path @ [?route]) (sha i)" by (rule starts_with_digit [OF hex branch.hyps(2) branch.prems(2)])
  let ?old = "if ?route \<in> fst ` set cs then A ?route else {}"
  have down: "ensures sha (groupUpdate sha (map_of cs ?route) i operation (length (path @ [?route])) (h # seen)) ps
    (\<lambda>root ps'. group_opt sha ps' (path @ [?route]) root (change operation i ?old))"
  proof (cases "map_of cs ?route")
    case None
    then have "?route \<notin> fst ` set cs" by (simp add: map_of_eq_None_iff)
    then show ?thesis unfolding None using ensures_new_group [OF hex i(2) route _ branch.prems(4)] branch.hyps(2) by simp
  next
    case (Some c)
    then have rc: "(?route, c) \<in> set cs" by (rule map_of_SomeD)
    then have here: "?route \<in> fst ` set cs" by force
    have "A ?route \<subseteq> U" using branch.prems(1) here by blast
    moreover have "set (h # seen) \<inter> set (H ?route) = {}"
      using branch.prems(3) groups.branch_fresh(1) [OF branch.hyps(1, 2, 3) rc] child_seen [OF rc, of H] by (simp add: disjoint_iff) blast
    ultimately show ?thesis unfolding Some using branch.IH [OF rc _ route _ branch.prems(4)] here by simp
  qed
  have same: "change operation i (\<Union>(A ` fst ` set cs)) = (\<Union>r \<in> fst ` set cs - {?route}. A r) \<union> change operation i ?old"
  proof -
    have "i \<notin> A r" if "r \<in> fst ` set cs - {?route}" for r
      using that groups.tree_path [OF branch.hyps(3), of r _ i] by (fastforce simp: starts_with_snoc)
    then have "i \<notin> (\<Union>r \<in> fst ` set cs - {?route}. A r)" by blast
    moreover have "\<Union>(A ` fst ` set cs) = (\<Union>r \<in> fst ` set cs - {?route}. A r) \<union> ?old" by auto
    ultimately show ?thesis by (metis change_split)
  qed
  show ?case
  proof (rule ensures_cong [where m' = "bind_p (groupUpdate sha (map_of cs ?route) i operation (length (path @ [?route])) (h # seen)) (rebranch sha h cs ?route)"], rule step,
      rule ensures_bind [OF down grows_rebranch])
    fix nxt ps1 assume ps1: "suffix ps ps1" "clean sha ps1" "short_pages ps1" and nxt: "group_opt sha ps1 (path @ [?route]) nxt (change operation i ?old)"
    show "ensures sha (rebranch sha h cs ?route nxt) ps1 (\<lambda>root ps'. group_opt sha ps' path root (change operation i (\<Union>(A ` fst ` set cs))))"
      unfolding same
      by (rule ensures_rebranch [OF groups.same_child stored_suffix [OF ps1(2, 1) branch.hyps(1)] branch.hyps(2)
            radix_suffix [OF branch.hyps(3) ps1(2, 1)] nxt digest_digit [OF hex branch.hyps(2)] hex ps1(3)])
  qed
qed

end
