(* ===== verification/Index_Entries.thy ===== *)
theory Index_Entries
  imports Index_Update
begin

text \<open>
  Changing the tree of tuples: building it, splitting and chaining its leaves, and updating one
  entry, with the group under it in the entry or on pages of its own.
\<close>

section \<open>The identifiers under a tuple\<close>

definition members_at :: "(string \<Rightarrow> hash) \<Rightarrow> page_store \<Rightarrow> members \<Rightarrow> id set \<Rightarrow> bool" where
  "members_at sha ps m S \<longleftrightarrow> (case m of
     Inline ids \<Rightarrow> set ids = S \<and> ordered ids \<and> ids \<noteq> [] \<and> length ids \<le> INLINE_GROUP_IDS
   | Paged h \<Rightarrow> \<exists>hs. group_at sha ps [] h S hs)"

definition short_members :: "members \<Rightarrow> bool" where
  "short_members m = (case m of Inline ids \<Rightarrow> list_all short_id ids | Paged _ \<Rightarrow> True)"

lemma members_suffix: "members_at sha ps m S \<Longrightarrow> clean sha ps' \<Longrightarrow> suffix ps ps' \<Longrightarrow> members_at sha ps' m S"
  by (cases m) (auto simp: members_at_def intro: radix_suffix)

lemma members_nonempty: "members_at sha ps m S \<Longrightarrow> S \<noteq> {}"
  by (cases m) (auto simp: members_at_def dest: groups.tree_nonempty)

lemma members_at_ok: "members_at sha ps m S \<Longrightarrow> short_members m \<Longrightarrow> members_ok m"
  by (cases m) (auto simp: members_at_def members_ok_def short_members_def list_all_iff short_id_def intro: radix_hash)

lemma members_short: "members_at sha ps m S \<Longrightarrow> short_members m \<Longrightarrow> short_pages ps \<Longrightarrow> i \<in> S \<Longrightarrow> short_id i"
  by (cases m) (auto simp: members_at_def short_members_def list_all_iff dest: group_short)

text \<open>Identifiers gathered anew: in the entry when they are few, on pages otherwise.\<close>

lemma ensures_new_members:
  assumes "hex_sha sha" "ids \<noteq> []" "ordered ids" "list_all short_id ids" "inj_on sha (set ids)" "short_pages ps"
  shows "ensures sha (if length ids \<le> INLINE_GROUP_IDS then return_p (f (Inline ids)) else bind_p (groupPages sha 64 ids) (\<lambda>h. return_p (f (Paged h)))) ps
    (\<lambda>x ps'. \<exists>m. x = f m \<and> members_at sha ps' m (set ids) \<and> short_members m)"
proof (cases "length ids \<le> INLINE_GROUP_IDS")
  case True
  with assms show ?thesis by (auto intro!: ensures_return exI [of _ "Inline ids"] simp: members_at_def short_members_def)
next
  case False
  have "ensures sha (groupPages sha 64 ids) ps (\<lambda>h ps'. \<exists>hs. group_at sha ps' [] h (set ids) hs)"
    by (rule ensures_groupPages) (use assms ordered_distinct in \<open>auto simp: starts_with_def\<close>)
  then have "ensures sha (bind_p (groupPages sha 64 ids) (\<lambda>h. return_p (f (Paged h)))) ps
    (\<lambda>x ps'. \<exists>m. x = f m \<and> members_at sha ps' m (set ids) \<and> short_members m)"
  proof (rule ensures_bind [OF _ grows_return])
    fix h ps1 assume "short_pages ps1" "\<exists>hs. group_at sha ps1 [] h (set ids) hs"
    moreover from this(2) have "f (Paged h) = f (Paged h) \<and> members_at sha ps1 (Paged h) (set ids) \<and> short_members (Paged h)"
      by (simp add: members_at_def short_members_def)
    ultimately show "ensures sha (return_p (f (Paged h))) ps1 (\<lambda>x ps'. \<exists>m. x = f m \<and> members_at sha ps' m (set ids) \<and> short_members m)"
      by (blast intro: ensures_return)
  qed
  with False show ?thesis by simp
qed

lemma ensures_groupChange:
  assumes hex: "hex_sha sha" and inj: "inj_on sha U" and i: "i \<in> U" "short_id i"
    and m: "members_at sha ps m S" "S \<subseteq> U" "short_members m" and short: "short_pages ps"
  shows "ensures sha (groupChange sha m i operation) ps (\<lambda>res ps'. case res of
      None \<Rightarrow> change operation i S = {}
    | Some m' \<Rightarrow> members_at sha ps' m' (change operation i S) \<and> short_members m')"
proof (cases m)
  case (Paged h)
  then obtain hs where "group_at sha ps [] h S hs" using m(1) by (auto simp: members_at_def)
  then have "ensures sha (groupUpdate sha (Some h) i operation 0 []) ps (\<lambda>root ps'. group_opt sha ps' [] root (change operation i S))"
    using ensures_groupUpdate [OF hex inj i, of ps "[]" h S hs "[]"] m(2) short by (simp add: starts_with_def)
  then have "ensures sha (bind_p (groupUpdate sha (Some h) i operation 0 []) (\<lambda>nxt. return_p (map_option Paged nxt))) ps (\<lambda>res ps'. case res of
      None \<Rightarrow> change operation i S = {}
    | Some m' \<Rightarrow> members_at sha ps' m' (change operation i S) \<and> short_members m')"
    by (rule ensures_bind) (auto intro!: ensures_return grows_return simp: members_at_def short_members_def split: option.split)
  then show ?thesis by (simp add: groupChange_def Paged)
next
  case (Inline ids)
  define ids1 where "ids1 = locale_sort (\<lambda>i. i) (filter (\<lambda>found. found \<noteq> i) ids @ (if operation = PutId then [i] else []))"
  have ids: "set ids = S" "ordered ids" "ids \<noteq> []" "length ids \<le> INLINE_GROUP_IDS" "list_all short_id ids"
    using m by (simp_all add: Inline members_at_def short_members_def)
  have set1: "set ids1 = change operation i S" using ids(1) by (cases operation) (auto simp: ids1_def)
  have "ordered ids1" unfolding ids1_def by (rule ordered_sort) (use ordered_distinct [OF ids(2)] in auto)
  moreover have "list_all short_id ids1" "inj_on sha (set ids1)"
    using ids(1, 5) i m(2) by (auto simp: ids1_def list_all_iff intro: inj_on_subset [OF inj])
  ultimately have new: "ids1 \<noteq> [] \<Longrightarrow> ensures sha (if length ids1 \<le> INLINE_GROUP_IDS then return_p (Some (Inline ids1))
      else bind_p (groupPages sha 64 ids1) (\<lambda>h. return_p (Some (Paged h)))) ps
    (\<lambda>x ps'. \<exists>m. x = Some m \<and> members_at sha ps' m (set ids1) \<and> short_members m)"
    using ensures_new_members [OF hex, of ids1 ps Some] short by simp
  have step: "groupChange sha m i operation = (if ids1 = ids then return_p (Some m) else if ids1 = [] then return_p None
      else if length ids1 \<le> INLINE_GROUP_IDS then return_p (Some (Inline ids1)) else bind_p (groupPages sha 64 ids1) (\<lambda>h. return_p (Some (Paged h))))"
    by (simp add: groupChange_def Inline ids1_def Let_def)
  consider "ids1 = ids" | "ids1 \<noteq> ids" "ids1 = []" | "ids1 \<noteq> ids" "ids1 \<noteq> []" by blast
  then show ?thesis
  proof cases
    case 1
    then have "members_at sha ps m (change operation i S)" using set1 ids by (simp add: members_at_def Inline)
    with 1 m(3) short show ?thesis by (simp add: step ensures_return)
  next
    case 2
    with set1 short show ?thesis by (simp add: step ensures_return)
  next
    case 3
    show ?thesis unfolding step using 3 new [OF 3(2)]
      by (simp only: if_False) (erule ensures_weaken, auto simp: set1)
  qed
qed

section \<open>Leaves\<close>

abbreviation entries_opt :: "(string \<Rightarrow> hash) \<Rightarrow> page_store \<Rightarrow> string \<Rightarrow> hash option \<Rightarrow> leaf_entry set \<Rightarrow> bool" where
  "entries_opt sha ps \<equiv> tree_opt (stored sha ps) content_leaf le_digest keyOf (routed sha)"

definition entry_fine :: "(string \<Rightarrow> hash) \<Rightarrow> leaf_entry \<Rightarrow> bool" where
  "entry_fine sha e \<longleftrightarrow> routed sha e \<and> list_all short_id (le_tuple e) \<and> short_members (le_ids e) \<and> members_ok (le_ids e)"

lemma leaf_fine:
  assumes "stored sha ps h = Some (Leaf xs n)" "short_pages ps" "e \<in> set xs" "routed sha e"
  shows "entry_fine sha e"
proof -
  have "short_page (Leaf xs n)" by (rule short_stored [OF assms(1, 2)])
  moreover have "validate_entry e = Inr ()" using stored_valid [OF assms(1)] assms(3) by simp
  ultimately show ?thesis using assms(3, 4) by (auto simp: entry_fine_def short_members_def list_all_iff)
qed

lemma entries_fine: "entries_at sha ps path h A hs \<Longrightarrow> short_pages ps \<Longrightarrow> e \<in> A \<Longrightarrow> entry_fine sha e"
proof (induction rule: radix.induct)
  case (page h p xs path)
  then show ?case by (auto simp: content_leaf_Some intro: leaf_fine)
next
  case (chain h p xs n path A hs)
  then show ?case by (auto simp: content_leaf_Some intro: leaf_fine)
next
  case (branch h cs path A H)
  then obtain r c where "(r, c) \<in> set cs" "e \<in> A r" by auto
  from branch.IH [OF this(1) branch.prems(1) this(2)] show ?case .
qed

lemma ensures_leaf:
  assumes es: "es \<noteq> []" "length es \<le> 32" "distinct (map keyOf es)" "\<And>e. e \<in> set es \<Longrightarrow> entry_fine sha e \<and> starts_with path (le_digest e)"
    and nxt: "entries_opt sha ps path nxt B" "nxt \<noteq> None \<Longrightarrow> length path = 64" "keyOf ` set es \<inter> keyOf ` B = {}"
    and "length path \<le> 64" "hex_sha sha" "short_pages ps"
  shows "ensures sha (leaf_page sha es nxt) ps (\<lambda>h ps'. \<exists>hs. entries_at sha ps' path h (set es \<union> B) hs)"
  unfolding leaf_page_def
proof (rule ensures_write)
  let ?p = "Leaf (locale_sort keyOf es) nxt"
  have ne: "locale_sort keyOf es \<noteq> []" using es(1) by (metis length_0_conv length_locale_sort)
  have hash: "\<forall>h. nxt = Some h \<longrightarrow> is_hash h" using nxt(1) radix_hash by auto
  have "validate_entry e = Inr ()" if "e \<in> set es" for e
    using es(4) [OF that] assms(9) by (auto simp: entry_fine_def routed_def hex_sha_def)
  then show "validateIndexPage ?p = Inr ()"
    using ne es(2) hash ordered_locale_sort [OF es(3)] by (simp add: keys_of_def)
  show "short_page ?p" using es(4) by (auto simp: list_all_iff entry_fine_def short_members_def)
  have inj: "inj_on keyOf (set es)" using es(3) by (simp add: distinct_map)
  have paths: "\<And>e. e \<in> set es \<Longrightarrow> starts_with path (le_digest e) \<and> routed sha e" using es(4) by (auto simp: entry_fine_def)
  assume new: "stored sha (?p # ps) (page_hash sha ?p) = Some ?p" "suffix ps (?p # ps)" "clean sha (?p # ps)"
  show "\<exists>hs. entries_at sha (?p # ps) path (page_hash sha ?p) (set es \<union> B) hs"
  proof (cases nxt)
    case None
    have "entries_at sha (?p # ps) path (page_hash sha ?p) (set (locale_sort keyOf es)) [page_hash sha ?p]"
      by (rule radix.page [where p = ?p]) (use new(1) None ne inj paths assms(8) in simp_all)
    with nxt(1) None show ?thesis by auto
  next
    case (Some n)
    then obtain hs where "entries_at sha ps path n B hs" using nxt(1) by auto
    then have "entries_at sha (?p # ps) path n B hs" by (rule radix_suffix [OF _ new(3, 2)])
    then have "entries_at sha (?p # ps) path (page_hash sha ?p) (set (locale_sort keyOf es) \<union> B) (page_hash sha ?p # hs)"
      by (intro radix.chain [where p = ?p and n = n]) (use new(1) Some ne inj paths nxt(2, 3) in simp_all)
    then show ?thesis by auto
  qed
qed (use assms in simp_all)

declare chain_pages.simps [simp del] update_node.simps [simp del]

lemma grows_chain [grows_intros]: "grows (chain_pages sha es nxt)"
proof -
  have "suffix ps ps'" if "chain_pages sha es nxt ps = (res, ps')" for ps res ps'
    using that
  proof (induction sha es nxt ps arbitrary: res ps' rule: chain_pages.induct)
    case (1 sha es nxt ps)
    obtain r ps1 where leaf: "leaf_page sha (drop (length es - 32) es) nxt ps = (r, ps1)" by (cases "leaf_page sha (drop (length es - 32) es) nxt ps")
    then have s1: "suffix ps ps1" using grows_leaf_page by (auto simp: grows_def)
    show ?case
    proof (cases r)
      case (Inl e)
      then show ?thesis using 1(2) leaf s1 by (subst (asm) chain_pages.simps) simp
    next
      case (Inr h)
      show ?thesis
      proof (cases "length es \<le> 32")
        case True
        then show ?thesis using 1(2) leaf s1 Inr by (subst (asm) chain_pages.simps) simp
      next
        case False
        then have "chain_pages sha (take (length es - 32) es) (Some h) ps1 = (res, ps')"
          using 1(2) leaf Inr by (subst (asm) chain_pages.simps) simp
        from 1(1) [OF leaf [symmetric] Inr False this] s1 show ?thesis by (blast intro: suffix_order.trans)
      qed
    qed
  qed
  then show ?thesis by (simp add: grows_def)
qed

lemma ensures_chain:
  assumes "hex_sha sha" and "length path = 64"
  shows "es \<noteq> [] \<Longrightarrow> distinct (map keyOf es) \<Longrightarrow> (\<And>e. e \<in> set es \<Longrightarrow> entry_fine sha e \<and> starts_with path (le_digest e))
    \<Longrightarrow> entries_opt sha ps path nxt B \<Longrightarrow> keyOf ` set es \<inter> keyOf ` B = {} \<Longrightarrow> short_pages ps
    \<Longrightarrow> ensures sha (chain_pages sha es nxt) ps (\<lambda>h ps'. \<exists>hs. entries_at sha ps' path h (set es \<union> B) hs)"
proof (induction "length es" arbitrary: es nxt B ps rule: less_induct)
  case less
  let ?n = "length es - 32"
  let ?first = "take ?n es" and ?last = "drop ?n es"
  have step: "chain_pages sha es nxt ps = bind_p (leaf_page sha ?last nxt) (\<lambda>h. if length es \<le> 32 then return_p h else chain_pages sha ?first (Some h)) ps"
    by (subst chain_pages.simps) (simp add: bind_p_def return_p_def split: prod.split sum.split)
  have split: "set es = set ?first \<union> set ?last" by (metis append_take_drop_id set_append)
  have dist: "distinct (map keyOf ?first @ map keyOf ?last)" using less.prems(2) by (metis append_take_drop_id map_append)
  have "set ?last \<subseteq> set es" by (rule set_drop_subset)
  then have "keyOf ` set ?last \<inter> keyOf ` B = {}" using less.prems(5) by blast
  moreover have "?last \<noteq> []" "length ?last \<le> 32" using less.prems(1) by (cases es; simp)+
  ultimately have leaf: "ensures sha (leaf_page sha ?last nxt) ps (\<lambda>h ps'. \<exists>hs. entries_at sha ps' path h (set ?last \<union> B) hs)"
    using dist less.prems(3, 4, 6) assms by (intro ensures_leaf) (auto dest: in_set_dropD)
  show ?case
  proof (rule ensures_cong [where m' = "bind_p (leaf_page sha ?last nxt) (\<lambda>h. if length es \<le> 32 then return_p h else chain_pages sha ?first (Some h))"], rule step,
      rule ensures_bind [OF leaf])
    show "grows (if length es \<le> 32 then return_p h else chain_pages sha ?first (Some h))" for h by (simp add: grows_chain grows_return)
    fix h ps1 assume ps1: "short_pages ps1" and h: "\<exists>hs. entries_at sha ps1 path h (set ?last \<union> B) hs"
    show "ensures sha (if length es \<le> 32 then return_p h else chain_pages sha ?first (Some h)) ps1 (\<lambda>h ps'. \<exists>hs. entries_at sha ps' path h (set es \<union> B) hs)"
    proof (cases "length es \<le> 32")
      case True
      then show ?thesis using ps1 h by (auto intro!: ensures_return)
    next
      case False
      have "ensures sha (chain_pages sha ?first (Some h)) ps1 (\<lambda>h ps'. \<exists>hs. entries_at sha ps' path h (set ?first \<union> (set ?last \<union> B)) hs)"
      proof (rule less.hyps)
        show "length ?first < length es" "?first \<noteq> []" "distinct (map keyOf ?first)" using False dist by auto
        show "entries_opt sha ps1 path (Some h) (set ?last \<union> B)" using h by simp
        show "keyOf ` set ?first \<inter> keyOf ` (set ?last \<union> B) = {}"
        proof -
          have "keyOf ` set ?first \<inter> keyOf ` set ?last = {}" using dist by simp
          moreover have "keyOf ` set ?first \<inter> keyOf ` B = {}" using less.prems(5) set_take_subset [of ?n es] by blast
          ultimately show ?thesis by (simp only: image_Un Int_Un_distrib Un_empty)
        qed
        show "entry_fine sha e \<and> starts_with path (le_digest e)" if "e \<in> set ?first" for e
          by (rule less.prems(3)) (rule in_set_takeD [OF that])
      qed (rule ps1)
      with False show ?thesis by (simp only: if_False split Un_assoc)
    qed
  qed
qed

lemma grows_split [grows_intros]: "grows (split_entries sha r es)"
proof (induction r arbitrary: es)
  case 0
  then show ?case by (simp add: grows_leaf_page grows_chain)
next
  case (Suc r)
  then show ?case by (auto intro!: grows_intros simp: split_def)
qed

lemma ensures_split_entries:
  assumes "hex_sha sha"
  shows "es \<noteq> [] \<Longrightarrow> distinct (map keyOf es) \<Longrightarrow> (\<And>e. e \<in> set es \<Longrightarrow> entry_fine sha e \<and> starts_with path (le_digest e))
    \<Longrightarrow> length path + r = 64 \<Longrightarrow> short_pages ps
    \<Longrightarrow> ensures sha (split_entries sha r es) ps (\<lambda>h ps'. \<exists>hs. entries_at sha ps' path h (set es) hs)"
proof (induction r arbitrary: es path ps)
  case 0
  show ?case
  proof (cases "length es \<le> 32")
    case True
    with 0 ensures_leaf [of es sha path ps None "{}"] assms show ?thesis by simp
  next
    case False
    have "ensures sha (chain_pages sha es None) ps (\<lambda>h ps'. \<exists>hs. entries_at sha ps' path h (set es \<union> {}) hs)"
      by (rule ensures_chain [OF assms]) (use 0 in simp_all)
    with False show ?thesis by simp
  qed
next
  case (Suc r)
  show ?case
  proof (cases "length es \<le> 32")
    case True
    with Suc.prems ensures_leaf [of es sha path ps None "{}"] assms show ?thesis by simp
  next
    case False
    have depth: "63 - r = length path" "length path < 64" using Suc.prems(4) by simp_all
    have digit: "le_digest e ! length path \<in> set hex_digits" "starts_with (path @ [le_digest e ! length path]) (le_digest e)" if "e \<in> set es" for e
      using Suc.prems(3) [OF that] digest_digit [OF assms depth(2)] starts_with_digit [OF assms depth(2)] by (auto simp: entry_fine_def routed_def)
    have "ensures sha (bind_p (map_p (\<lambda>(route, sub). bind_p (split_entries sha r sub) (\<lambda>h. return_p (route, h)))
        (routes_of (\<lambda>e. le_digest e ! length path) es)) (\<lambda>children. writePage sha (Branch children))) ps
      (\<lambda>h ps'. \<exists>hs. entries_at sha ps' path h (set es) hs)"
    proof (rule ensures_split)
      fix route sub ps1 assume rs: "(route, sub) \<in> set (routes_of (\<lambda>e. le_digest e ! length path) es)" and "short_pages ps1"
      have sub: "sub = filter (\<lambda>e. le_digest e ! length path = route) es" "sub \<noteq> []" using routes_facts(2) [OF rs] by blast+
      have "entry_fine sha e \<and> starts_with (path @ [route]) (le_digest e)" if "e \<in> set sub" for e
        using that digit(2) [of e] Suc.prems(3) [of e] by (auto simp: sub(1))
      moreover have "distinct (map keyOf sub)" using Suc.prems(2) by (simp add: sub(1) distinct_map_filter)
      ultimately show "ensures sha (split_entries sha r sub) ps1 (\<lambda>h ps'. \<exists>hs. entries_at sha ps' (path @ [route]) h (set sub) hs)"
        using Suc.IH [OF sub(2), of "path @ [route]"] Suc.prems(4) \<open>short_pages ps1\<close> by simp
    qed (use Suc.prems depth assms digit(1) in \<open>auto intro: grows_split\<close>)
    then show ?thesis using False by (simp add: depth(1))
  qed
qed

section \<open>Updating one tuple\<close>

text \<open>The entries with those of one key replaced, and what a key stands for before.\<close>

abbreviation others :: "leaf_entry set \<Rightarrow> string \<Rightarrow> leaf_entry set" where
  "others A key \<equiv> {e \<in> A. keyOf e \<noteq> key}"

definition changed :: "(string \<Rightarrow> hash) \<Rightarrow> page_store \<Rightarrow> leaf_entry set \<Rightarrow> string list \<Rightarrow> id set \<Rightarrow> leaf_entry set \<Rightarrow> bool" where
  "changed sha ps A t S B \<longleftrightarrow> (if S = {} then B = others A (tuple_text t)
     else \<exists>m. members_at sha ps m S \<and> short_members m
       \<and> B = insert \<lparr>le_digest = sha (tuple_text t), le_tuple = t, le_ids = m\<rparr> (others A (tuple_text t)))"

definition under :: "(string list \<Rightarrow> id set) \<Rightarrow> leaf_entry set \<Rightarrow> string list \<Rightarrow> id set" where
  "under F A t = (if tuple_text t \<in> keyOf ` A then F t else {})"

text \<open>What an update relies on.\<close>

definition fair :: "(string \<Rightarrow> hash) \<Rightarrow> id set \<Rightarrow> string list \<Rightarrow> id \<Rightarrow> bool" where
  "fair sha U t i \<longleftrightarrow> hex_sha sha \<and> inj_on sha U \<and> i \<in> U \<and> short_id i \<and> index_tuple t \<and> list_all short_id t"

definition represents_groups :: "(string \<Rightarrow> hash) \<Rightarrow> page_store \<Rightarrow> id set \<Rightarrow> leaf_entry set \<Rightarrow> (string list \<Rightarrow> id set) \<Rightarrow> bool" where
  "represents_groups sha ps U A F \<longleftrightarrow> (\<forall>e \<in> A. members_at sha ps (le_ids e) (F (le_tuple e)) \<and> F (le_tuple e) \<subseteq> U)"

lemma other_keys: "A = insert e R \<Longrightarrow> f e = key \<Longrightarrow> key \<notin> f ` R \<Longrightarrow> R = {x \<in> A. f x \<noteq> key}"
  by (auto simp: image_iff)

lemma growsD: "grows m \<Longrightarrow> m ps = (res, ps') \<Longrightarrow> suffix ps ps'"
  by (simp add: grows_def)

lemma position_index:
  assumes "entry_index key es = Some k" and "distinct (map keyOf es)"
  shows "k < length es" "keyOf (es ! k) = key"
    "set (take k es @ drop (Suc k) es) = others (set es) key" "distinct (map keyOf (take k es @ drop (Suc k) es))"
    "keyOf e' = key \<Longrightarrow> set (es[k := e']) = insert e' (others (set es) key) \<and> distinct (map keyOf (es[k := e']))"
proof -
  have k: "k < length es" "keyOf (es ! k) = key" using position_nth [of key "map keyOf es" k] assms(1) by (auto simp: entry_index_def)
  then show "k < length es" "keyOf (es ! k) = key" .
  have es: "es = take k es @ es ! k # drop (Suc k) es" using k(1) by (rule id_take_nth_drop)
  have d: "distinct (map keyOf (take k es @ es ! k # drop (Suc k) es))" using assms(2) es by argo
  then show "distinct (map keyOf (take k es @ drop (Suc k) es))" by simp
  have rest: "key \<notin> keyOf ` set (take k es @ drop (Suc k) es)" using d k(2) by auto
  have "set es = insert (es ! k) (set (take k es @ drop (Suc k) es))" using arg_cong [OF es, of set] by auto
  from other_keys [OF this k(2) rest] show "set (take k es @ drop (Suc k) es) = others (set es) key" .
  then have others: "others (set es) key = set (take k es @ drop (Suc k) es)" by simp
  show "set (es[k := e']) = insert e' (others (set es) key) \<and> distinct (map keyOf (es[k := e']))" if "keyOf e' = key"
  proof -
    have "es[k := e'] = take k es @ e' # drop (Suc k) es" using k(1) by (rule upd_conv_take_nth_drop)
    then show ?thesis using others d k(2) that by simp
  qed
qed

lemma position_none: "entry_index key es = None \<longleftrightarrow> key \<notin> keyOf ` set es"
proof -
  have "position x xs = None \<longleftrightarrow> x \<notin> set xs" for x and xs :: "string list" by (induction xs) auto
  then show ?thesis by (simp add: entry_index_def)
qed

lemma grows_groupUpdate [grows_intros]: "grows (groupUpdate sha root i operation depth seen)"
proof -
  have "suffix ps ps'" if "groupUpdate sha root i operation depth seen ps = (res, ps')" for ps res ps'
    using that
  proof (induction sha root i operation depth seen ps arbitrary: res ps' rule: groupUpdate.induct)
    case (1 sha root i operation depth seen ps)
    show ?case
    proof (cases root)
      case None
      have "grows (if operation = RemoveId then return_p None else bind_p (group_page sha [i]) (\<lambda>h. return_p (Some h)))"
        by (auto intro!: grows_intros)
      moreover have "groupUpdate sha root i operation depth seen ps
          = (if operation = RemoveId then return_p None else bind_p (group_page sha [i]) (\<lambda>h. return_p (Some h))) ps"
        by (simp add: groupUpdate.simps None return_p_def)
      ultimately show ?thesis using 1(2) unfolding grows_def by metis
    next
      case (Some h)
      show ?thesis
      proof (cases "\<exists>cs. read_page sha ps seen h = Inr (Branch cs) \<and> depth < 64")
        case True
        then obtain cs where read: "read_page sha ps seen h = Inr (Branch cs)" "depth < 64" by blast
        let ?down = "groupUpdate sha (map_of cs (sha i ! depth)) i operation (depth + 1) (h # seen) ps"
        obtain r ps1 where down: "?down = (r, ps1)" by (cases ?down)
        have "suffix ps ps1" using 1(1) [OF Some read(1) refl _ down] read(2) by simp
        moreover have "suffix ps1 ps'"
          using 1(2) read down grows_rebranch by (cases r) (auto simp: groupUpdate.simps Some grows_def)
        ultimately show ?thesis by (rule suffix_order.trans)
      next
        case False
        let ?leaf = "\<lambda>ids. case spliced ids i operation of None \<Rightarrow> return_p (Some h) | Some [] \<Rightarrow> return_p None
            | Some ids1 \<Rightarrow> bind_p (groupPages sha (64 - depth) ids1) (\<lambda>h. return_p (Some h))"
        have leaf: "grows (?leaf ids)" for ids by (auto intro!: grows_intros split: option.split list.split)
        show ?thesis
        proof (cases "\<exists>ids. read_page sha ps seen h = Inr (Group ids None)")
          case True
          then obtain ids where "read_page sha ps seen h = Inr (Group ids None)" by blast
          then have "groupUpdate sha root i operation depth seen ps = ?leaf ids ps"
            by (subst groupUpdate.simps) (simp add: Some return_p_def split: option.split list.split)
          with 1(2) have "?leaf ids ps = (res, ps')" by simp
          then show ?thesis by (rule growsD [OF leaf])
        next
          case other: False
          then have "snd (groupUpdate sha root i operation depth seen ps) = ps"
            using False by (subst groupUpdate.simps) (auto simp: Some split: sum.split page.split option.split)
          with 1(2) show ?thesis by simp
        qed
      qed
    qed
  qed
  then show ?thesis by (simp add: grows_def)
qed

lemma grows_groupChange [grows_intros]: "grows (groupChange sha m i operation)"
  unfolding groupChange_def Let_def by (auto intro!: grows_intros split: members.split)

text \<open>The cases of an update, as operations.\<close>

abbreviation new_entry :: "(string \<Rightarrow> hash) \<Rightarrow> string list \<Rightarrow> members \<Rightarrow> leaf_entry" where
  "new_entry sha t m \<equiv> \<lparr>le_digest = sha (tuple_text t), le_tuple = t, le_ids = m\<rparr>"

definition fresh_leaf :: "(string \<Rightarrow> hash) \<Rightarrow> hash \<Rightarrow> string list \<Rightarrow> id \<Rightarrow> delta_operation \<Rightarrow> hash option io" where
  "fresh_leaf sha digest t i operation = (if operation = RemoveId then return_p None
     else bind_p (leaf_page sha [\<lparr>le_digest = digest, le_tuple = t, le_ids = Inline [i]\<rparr>] None) (\<lambda>h. return_p (Some h)))"

definition replace_entry :: "(string \<Rightarrow> hash) \<Rightarrow> hash \<Rightarrow> leaf_entry list \<Rightarrow> hash option \<Rightarrow> nat \<Rightarrow> members option \<Rightarrow> hash option io" where
  "replace_entry sha h es nxt k ids =
     (if ids = Some (le_ids (es ! k)) then return_p (Some h)
      else let es1 = (case ids of None \<Rightarrow> take k es @ drop (Suc k) es | Some m \<Rightarrow> es[k := (es ! k)\<lparr>le_ids := m\<rparr>])
        in if es1 = [] then return_p nxt else bind_p (leaf_page sha es1 nxt) (\<lambda>h. return_p (Some h)))"

definition relink :: "(string \<Rightarrow> hash) \<Rightarrow> hash \<Rightarrow> leaf_entry list \<Rightarrow> hash option \<Rightarrow> hash option \<Rightarrow> hash option io" where
  "relink sha h es nxt nxt1 = (if nxt1 = nxt then return_p (Some h) else bind_p (leaf_page sha es nxt1) (\<lambda>h. return_p (Some h)))"

definition add_entry :: "(string \<Rightarrow> hash) \<Rightarrow> hash \<Rightarrow> leaf_entry list \<Rightarrow> hash \<Rightarrow> string list \<Rightarrow> id \<Rightarrow> delta_operation \<Rightarrow> nat \<Rightarrow> hash option io" where
  "add_entry sha h es digest t i operation depth = (if operation = RemoveId then return_p (Some h)
     else bind_p (split_entries sha (64 - depth) (es @ [\<lparr>le_digest = digest, le_tuple = t, le_ids = Inline [i]\<rparr>])) (\<lambda>h. return_p (Some h)))"

lemma grows_cases [grows_intros]:
  "grows (fresh_leaf sha digest t i operation)" "grows (replace_entry sha h es nxt k ids)"
  "grows (relink sha h es nxt nxt1)" "grows (add_entry sha h es digest t i operation depth)"
  by (auto simp: fresh_leaf_def replace_entry_def relink_def add_entry_def Let_def intro!: grows_intros)

lemma update_cases:
  "update_node sha None t digest key i operation path seen ps = fresh_leaf sha digest t i operation ps"
  "read_page sha ps seen h = Inr (Branch cs) \<Longrightarrow> checkNode sha (Branch cs) (length path) path = Inr u
    \<Longrightarrow> update_node sha (Some h) t digest key i operation path seen ps
      = bind_p (update_node sha (map_of cs (digest ! length path)) t digest key i operation (path @ [digest ! length path]) (h # seen))
          (rebranch sha h cs (digest ! length path)) ps"
  "read_page sha ps seen h = Inr (Leaf es nxt) \<Longrightarrow> checkNode sha (Leaf es nxt) (length path) path = Inr u
    \<Longrightarrow> update_node sha (Some h) t digest key i operation path seen ps = (case entry_index key es of
        Some k \<Rightarrow> bind_p (groupChange sha (le_ids (es ! k)) i operation) (replace_entry sha h es nxt k) ps
      | None \<Rightarrow> if nxt \<noteq> None then bind_p (update_node sha nxt t digest key i operation path (h # seen)) (relink sha h es nxt) ps
          else add_entry sha h es digest t i operation (length path) ps)"
proof -
  show "update_node sha None t digest key i operation path seen ps = fresh_leaf sha digest t i operation ps"
    by (subst update_node.simps) (simp add: fresh_leaf_def return_p_def)
  show "update_node sha (Some h) t digest key i operation path seen ps
      = bind_p (update_node sha (map_of cs (digest ! length path)) t digest key i operation (path @ [digest ! length path]) (h # seen))
          (rebranch sha h cs (digest ! length path)) ps"
    if "read_page sha ps seen h = Inr (Branch cs)" "checkNode sha (Branch cs) (length path) path = Inr u"
    by (subst update_node.simps) (simp add: that Let_def case_bind_p)
  show "update_node sha (Some h) t digest key i operation path seen ps = (case entry_index key es of
        Some k \<Rightarrow> bind_p (groupChange sha (le_ids (es ! k)) i operation) (replace_entry sha h es nxt k) ps
      | None \<Rightarrow> if nxt \<noteq> None then bind_p (update_node sha nxt t digest key i operation path (h # seen)) (relink sha h es nxt) ps
          else add_entry sha h es digest t i operation (length path) ps)"
    if "read_page sha ps seen h = Inr (Leaf es nxt)" "checkNode sha (Leaf es nxt) (length path) path = Inr u"
  proof (cases "entry_index key es")
    case (Some k)
    have "replace_entry sha h es nxt k ids ps1 = (if ids = Some (le_ids (es ! k)) then (Inr (Some h), ps1)
      else let es1 = (case ids of None \<Rightarrow> take k es @ drop (Suc k) es | Some m \<Rightarrow> es[k := (es ! k)\<lparr>le_ids := m\<rparr>])
        in if es1 = [] then (Inr nxt, ps1) else bind_p (leaf_page sha es1 nxt) (\<lambda>h. return_p (Some h)) ps1)" for ids ps1
      by (simp add: replace_entry_def return_p_def Let_def)
    then show ?thesis
      by (subst update_node.simps) (simp add: that Some bind_p_def [of "groupChange sha (le_ids (es ! k)) i operation"] split: prod.split sum.split)
  next
    case None
    have "relink sha h es nxt nxt1 ps1 = (if nxt1 = nxt then (Inr (Some h), ps1) else bind_p (leaf_page sha es nxt1) (\<lambda>h. return_p (Some h)) ps1)" for nxt1 ps1
      by (simp add: relink_def return_p_def)
    moreover have "add_entry sha h es digest t i operation (length path) ps = (if operation = RemoveId then (Inr (Some h), ps)
      else bind_p (split_entries sha (64 - length path) (es @ [\<lparr>le_digest = digest, le_tuple = t, le_ids = Inline [i]\<rparr>])) (\<lambda>h. return_p (Some h)) ps)"
      by (simp add: add_entry_def return_p_def)
    ultimately show ?thesis
      by (subst update_node.simps) (simp add: that None bind_p_def [of "update_node sha nxt t digest key i operation path (h # seen)"] split: prod.split sum.split)
  qed
qed

lemma grows_update [grows_intros]: "grows (update_node sha root t digest key i operation path seen)"
proof -
  have "suffix ps ps'" if "update_node sha root t digest key i operation path seen ps = (res, ps')" for ps res ps'
    using that
  proof (induction sha root t digest key i operation path seen ps arbitrary: res ps' rule: update_node.induct)
    case (1 sha root t digest key i operation path seen ps)
    have bound: "suffix ps ps'" if "bind_p m f ps = (res, ps')" "\<And>r ps1. m ps = (r, ps1) \<Longrightarrow> suffix ps ps1" "\<And>x. grows (f x)" for m and f :: "'c \<Rightarrow> hash option io"
    proof -
      obtain r ps1 where m: "m ps = (r, ps1)" by (cases "m ps")
      have "suffix ps1 ps'" using that(1, 3) m by (cases r) (auto simp: bind_p_def grows_def)
      with that(2) [OF m] show ?thesis by (rule suffix_order.trans)
    qed
    show ?case
    proof (cases root)
      case None
      then show ?thesis using 1(3) by (auto simp: update_cases dest: growsD [OF grows_cases(1)])
    next
      case (Some h)
      show ?thesis
      proof (cases "\<exists>p u. read_page sha ps seen h = Inr p \<and> checkNode sha p (length path) path = Inr u")
        case True
        then obtain p u where read: "read_page sha ps seen h = Inr p" and ok: "checkNode sha p (length path) path = Inr u" by blast
        show ?thesis
        proof (cases p)
          case (Branch cs)
          let ?route = "digest ! length path"
          have "bind_p (update_node sha (map_of cs ?route) t digest key i operation (path @ [?route]) (h # seen)) (rebranch sha h cs ?route) ps = (res, ps')"
            using 1(3) update_cases(2) [OF read [unfolded Branch] ok [unfolded Branch]] Some by simp
          then show ?thesis by (rule bound) (rule 1(1) [OF Some read ok Branch refl], assumption, rule grows_rebranch)
        next
          case (Leaf es nxt)
          note step = update_cases(3) [OF read [unfolded Leaf] ok [unfolded Leaf], of t digest key i operation]
          show ?thesis
          proof (cases "entry_index key es")
            case (Some k)
            have "bind_p (groupChange sha (le_ids (es ! k)) i operation) (replace_entry sha h es nxt k) ps = (res, ps')"
              using 1(3) step Some \<open>root = Some h\<close> by simp
            then show ?thesis by (rule bound) (auto intro: growsD [OF grows_groupChange] grows_cases)
          next
            case None
            show ?thesis
            proof (cases "nxt = None")
              case True
              with None step 1(3) \<open>root = Some h\<close> show ?thesis by (auto dest: growsD [OF grows_cases(4)])
            next
              case False
              have "bind_p (update_node sha nxt t digest key i operation path (h # seen)) (relink sha h es nxt) ps = (res, ps')"
                using 1(3) step None False \<open>root = Some h\<close> by simp
              then show ?thesis by (rule bound) (rule 1(2) [OF \<open>root = Some h\<close> read ok Leaf None False], assumption, rule grows_cases)
            qed
          qed
        next
          case (Group ids nxt)
          with ok show ?thesis by (simp add: checkNode_def)
        qed
      next
        case False
        then have "snd (update_node sha root t digest key i operation path seen ps) = ps"
          by (subst update_node.simps) (auto simp: Some split: sum.split)
        with 1(3) show ?thesis by simp
      qed
    qed
  qed
  then show ?thesis by (simp add: grows_def)
qed

lemma changed_suffix: "changed sha ps A t S B \<Longrightarrow> clean sha ps' \<Longrightarrow> suffix ps ps' \<Longrightarrow> changed sha ps' A t S B"
  unfolding changed_def by (cases "S = {}") (auto intro: members_suffix)

lemma some_leaf:
  assumes "es \<noteq> []" "length es \<le> 32" "distinct (map keyOf es)" "\<And>e. e \<in> set es \<Longrightarrow> entry_fine sha e \<and> starts_with path (le_digest e)"
    and "entries_opt sha ps path nxt B" "nxt \<noteq> None \<Longrightarrow> length path = 64" "keyOf ` set es \<inter> keyOf ` B = {}"
    and "length path \<le> 64" "hex_sha sha" "short_pages ps"
  shows "ensures sha (bind_p (leaf_page sha es nxt) (\<lambda>h. return_p (Some h))) ps (\<lambda>root ps'. entries_opt sha ps' path root (set es \<union> B))"
  by (rule ensures_bind [OF ensures_leaf [OF assms]])
    (assumption | rule grows_return | (rule ensures_return, assumption, simp only: tree_opt_simps))+

lemma unchanged_root:
  assumes "short_pages ps" "entries_opt sha ps path root A'" "changed sha ps A t S A'"
  shows "ensures sha (return_p root) ps (\<lambda>root ps'. \<exists>A'. entries_opt sha ps' path root A' \<and> changed sha ps' A t S A')"
  by (rule ensures_return [OF assms(1)]) (use assms(2, 3) in blast)

lemma changed_root:
  assumes "ensures sha m ps (\<lambda>root ps'. entries_opt sha ps' path root A')"
    and "\<And>ps'. clean sha ps' \<Longrightarrow> suffix ps ps' \<Longrightarrow> changed sha ps' A t S A'"
  shows "ensures sha m ps (\<lambda>root ps'. \<exists>A'. entries_opt sha ps' path root A' \<and> changed sha ps' A t S A')"
  by (rule ensures_weaken [OF assms(1)]) (use assms(2) in blast)

lemma routed_tuple: "routed sha e \<Longrightarrow> index_tuple t \<Longrightarrow> keyOf e = tuple_text t \<Longrightarrow> e = new_entry sha t (le_ids e)"
  using tuple_text_inj [of "le_tuple e" t] by (auto simp: routed_def)

lemma new_fine:
  assumes "fair sha U t i" "members_at sha ps m S" "short_members m"
  shows "entry_fine sha (new_entry sha t m)"
  using assms members_at_ok [OF assms(2, 3)] by (auto simp: entry_fine_def fair_def routed_def)

lemma image_others: "keyOf ` others A key \<subseteq> keyOf ` A"
  by blast

text \<open>Replacing an entry of a leaf, whose collisions may continue on the pages of \<open>B\<close>.\<close>

lemma ensures_replace_entry:
  assumes fair: "fair sha U t i" and k: "entry_index (tuple_text t) xs = Some k" "distinct (map keyOf xs)" "length xs \<le> 32"
    and fine: "\<And>e. e \<in> set xs \<Longrightarrow> entry_fine sha e \<and> starts_with path (le_digest e)" and key: "starts_with path (sha (tuple_text t))"
    and rest: "entries_opt sha ps path n B" "n \<noteq> None \<Longrightarrow> length path = 64" "length path \<le> 64" "keyOf ` set xs \<inter> keyOf ` B = {}"
    and whole: "entries_opt sha ps path (Some h) (set xs \<union> B)" and short: "short_pages ps"
    and ids: "case ids of None \<Rightarrow> S = {} | Some m \<Rightarrow> members_at sha ps m S \<and> short_members m"
  shows "ensures sha (replace_entry sha h xs n k ids) ps
    (\<lambda>root ps'. \<exists>A'. entries_opt sha ps' path root A' \<and> changed sha ps' (set xs \<union> B) t S A')"
proof -
  let ?key = "tuple_text t" and ?e = "xs ! k"
  have t: "index_tuple t" and hex: "hex_sha sha" using fair by (simp_all add: fair_def)
  note pos = position_index [OF k(1, 2)]
  have e: "?e \<in> set xs" "keyOf ?e = ?key" using pos(1, 2) by simp_all
  have new: "?e = new_entry sha t (le_ids ?e)" using fine [OF e(1)] routed_tuple [OF _ t e(2)] by (simp add: entry_fine_def)
  have apart: "?key \<notin> keyOf ` B" using rest(4) e by (metis disjoint_iff image_eqI)
  then have others: "others (set xs \<union> B) ?key = others (set xs) ?key \<union> B" by (auto simp: image_iff)
  have leaf: "ensures sha (bind_p (leaf_page sha es1 n) (\<lambda>h. return_p (Some h))) ps (\<lambda>root ps'. entries_opt sha ps' path root (set es1 \<union> B))"
    if "es1 \<noteq> []" "length es1 \<le> 32" "distinct (map keyOf es1)" "\<And>e. e \<in> set es1 \<Longrightarrow> entry_fine sha e \<and> starts_with path (le_digest e)"
      "keyOf ` set es1 \<subseteq> keyOf ` set xs" for es1
    by (rule some_leaf [OF that(1 - 4) rest(1, 2) _ rest(3) hex short]) (use that(5) rest(4) in blast)+
  consider "ids = Some (le_ids ?e)" | "ids = None" | m where "ids = Some m" "m \<noteq> le_ids ?e" by (cases ids) auto
  then show ?thesis
  proof cases
    case 1
    have old: "set xs = insert ?e (others (set xs) ?key)"
    proof -
      have "set (xs[k := ?e]) = insert ?e (others (set xs) ?key)" using pos(5) [OF e(2)] by (elim conjE)
      then show ?thesis by simp
    qed
    have "set xs \<union> B = insert ?e (others (set xs \<union> B) ?key)"
      using arg_cong [OF old, of "\<lambda>X. X \<union> B"] unfolding others Un_insert_left .
    then have "set xs \<union> B = insert (new_entry sha t (le_ids ?e)) (others (set xs \<union> B) ?key)" by (subst new [symmetric])
    moreover have "members_at sha ps (le_ids ?e) S" "short_members (le_ids ?e)" using ids 1 by simp_all
    moreover from this(1) have "S \<noteq> {}" by (rule members_nonempty)
    ultimately have "changed sha ps (set xs \<union> B) t S (set xs \<union> B)" unfolding changed_def by auto
    from unchanged_root [OF short whole this] show ?thesis by (simp add: replace_entry_def 1)
  next
    case 2
    let ?es = "take k xs @ drop (Suc k) xs"
    have S: "S = {}" using ids 2 by simp
    have run: "replace_entry sha h xs n k ids = (if ?es = [] then return_p n else bind_p (leaf_page sha ?es n) (\<lambda>h. return_p (Some h)))"
      by (simp add: replace_entry_def 2)
    show ?thesis
    proof (cases "?es = []")
      case True
      then have none: "others (set xs) ?key = {}" using pos(3) by (metis list.set(1))
      have "changed sha ps (set xs \<union> B) t S B" unfolding changed_def S others none by simp
      from unchanged_root [OF short rest(1) this] show ?thesis unfolding run if_P [OF True] .
    next
      case False
      have "e \<in> set xs" if "e \<in> set ?es" for e using that pos(3) by blast
      then have "ensures sha (bind_p (leaf_page sha ?es n) (\<lambda>h. return_p (Some h))) ps (\<lambda>root ps'. entries_opt sha ps' path root (set ?es \<union> B))"
        using k(3) fine by (intro leaf [OF False _ pos(4)]) auto
      then have "ensures sha (bind_p (leaf_page sha ?es n) (\<lambda>h. return_p (Some h))) ps
        (\<lambda>root ps'. \<exists>A'. entries_opt sha ps' path root A' \<and> changed sha ps' (set xs \<union> B) t S A')"
        by (rule changed_root) (simp only: changed_def S pos(3) others if_P refl)
      then show ?thesis unfolding run if_not_P [OF False] .
    qed
  next
    case (3 m)
    let ?new = "?e\<lparr>le_ids := m\<rparr>"
    let ?es = "xs[k := ?new]"
    have m: "members_at sha ps m S" "short_members m" using ids 3 by simp_all
    have new': "?new = new_entry sha t m" using arg_cong [OF new, of "\<lambda>e. e\<lparr>le_ids := m\<rparr>"] by simp
    have es: "set ?es = insert (new_entry sha t m) (others (set xs) ?key)" "distinct (map keyOf ?es)"
      using pos(5) [of ?new] e(2) unfolding new' by simp_all
    have "?es \<noteq> []" using pos(1) by auto
    moreover have "entry_fine sha e \<and> starts_with path (le_digest e)" if "e \<in> set ?es" for e
      using that fine key new_fine [OF fair m] unfolding es(1) by auto
    moreover have "keyOf ` set ?es \<subseteq> keyOf ` set xs" unfolding es(1) using e image_others [of "set xs" ?key] by (auto simp flip: e(2))
    ultimately have "ensures sha (bind_p (leaf_page sha ?es n) (\<lambda>h. return_p (Some h))) ps (\<lambda>root ps'. entries_opt sha ps' path root (set ?es \<union> B))"
      using k(3) es(2) by (intro leaf) simp_all
    moreover have "changed sha ps' (set xs \<union> B) t S (set ?es \<union> B)" if "clean sha ps'" "suffix ps ps'" for ps'
    proof -
      have "set ?es \<union> B = insert (new_entry sha t m) (others (set xs \<union> B) ?key)" unfolding es(1) others Un_insert_left ..
      with members_suffix [OF m(1) that] m(2) members_nonempty [OF m(1)] show ?thesis unfolding changed_def by auto
    qed
    ultimately have "ensures sha (bind_p (leaf_page sha ?es n) (\<lambda>h. return_p (Some h))) ps
        (\<lambda>root ps'. \<exists>A'. entries_opt sha ps' path root A' \<and> changed sha ps' (set xs \<union> B) t S A')"
      by (rule changed_root)
    moreover have "replace_entry sha h xs n k ids = bind_p (leaf_page sha ?es n) (\<lambda>h. return_p (Some h))"
      using 3 \<open>?es \<noteq> []\<close> by (simp add: replace_entry_def)
    ultimately show ?thesis by (simp only:)
  qed
qed

end
