(* ===== verification/Index_Maps.thy ===== *)
theory Index_Maps
  imports Index_Entries
begin

text \<open>
  An index as a map from tuples to sets of identifiers: \<^verbatim>\<open>update\<close> and \<^verbatim>\<open>apply\<close> change
  the map, \<^verbatim>\<open>build\<close> makes one, and \<^verbatim>\<open>lookup\<close> reads it in order.
\<close>

section \<open>Updating a tree\<close>

definition updates_to where
  "updates_to sha path A t S = (\<lambda>root ps'. \<exists>A'. entries_opt sha ps' path root A' \<and> changed sha ps' A t S A')"

lemma changedI:
  "S \<noteq> {} \<Longrightarrow> members_at sha ps m S \<Longrightarrow> short_members m \<Longrightarrow> B = insert (new_entry sha t m) (others A (tuple_text t)) \<Longrightarrow> changed sha ps A t S B"
  unfolding changed_def by (simp only: if_False) blast

lemma changed_cases:
  assumes "changed sha ps A t S B"
  obtains "S = {}" "B = others A (tuple_text t)"
  | m where "S \<noteq> {}" "members_at sha ps m S" "short_members m" "B = insert (new_entry sha t m) (others A (tuple_text t))"
proof (cases "S = {}")
  case True
  with assms have "B = others A (tuple_text t)" by (simp only: changed_def if_True)
  with True show thesis by (rule that(1))
next
  case False
  with assms show thesis unfolding changed_def if_not_P [OF False] using that(2) by blast
qed

lemma changed_keys: "changed sha ps A t S B \<Longrightarrow> keyOf ` B \<subseteq> insert (tuple_text t) (keyOf ` A)"
  by (erule changed_cases) auto

lemma apart_insert: "X \<inter> Y = {} \<Longrightarrow> k \<notin> X \<Longrightarrow> Z \<subseteq> insert k Y \<Longrightarrow> X \<inter> Z = {}"
  by blast

lemma unchanged_same:
  assumes "tuple_text t \<notin> keyOf ` A"
  shows "changed sha ps A t {} A"
proof -
  have "others A (tuple_text t) = A" using assms by (auto simp: image_iff)
  then show ?thesis by (simp add: changed_def)
qed

lemma under_None: "tuple_text t \<notin> keyOf ` A \<Longrightarrow> under F A t = {}"
  by (simp add: under_def)

lemma change_empty: "change operation i {} = (if operation = PutId then {i} else {})"
  by (cases operation) simp_all

lemma single_members: "members_at sha ps (Inline [i]) {i}"
  by (simp add: members_at_def INLINE_GROUP_IDS_def)

lemma single_short: "short_id i \<Longrightarrow> short_members (Inline [i])"
  by (simp add: short_members_def)

lemma ensures_fresh_leaf:
  assumes fair: "fair sha U t i" and "starts_with path (sha (tuple_text t))" "length path \<le> 64" "short_pages ps"
  shows "ensures sha (fresh_leaf sha (sha (tuple_text t)) t i operation) ps (updates_to sha path {} t (change operation i {}))"
proof (cases operation)
  case RemoveId
  have "ensures sha (return_p None) ps (updates_to sha path {} t {})"
    unfolding updates_to_def by (rule unchanged_root [OF assms(4)]) (simp_all add: changed_def)
  then show ?thesis by (simp add: fresh_leaf_def RemoveId)
next
  case PutId
  let ?e = "new_entry sha t (Inline [i])"
  have "short_members (Inline [i])" using fair by (simp add: single_short fair_def)
  note fine = new_fine [OF fair single_members [of sha ps i] this]
  have "ensures sha (bind_p (leaf_page sha [?e] None) (\<lambda>h. return_p (Some h))) ps (\<lambda>root ps'. entries_opt sha ps' path root (set [?e] \<union> {}))"
    by (rule some_leaf) (use assms fine in \<open>auto simp: fair_def\<close>)
  then have "ensures sha (bind_p (leaf_page sha [?e] None) (\<lambda>h. return_p (Some h))) ps (updates_to sha path {} t {i})"
    unfolding updates_to_def
    by (rule changed_root) (rule changedI [OF _ single_members \<open>short_members (Inline [i])\<close>], simp_all)
  then show ?thesis by (simp add: fresh_leaf_def PutId)
qed

lemma ensures_add_entry:
  assumes fair: "fair sha U t i" and none: "tuple_text t \<notin> keyOf ` set xs" "distinct (map keyOf xs)"
    and fine: "\<And>e. e \<in> set xs \<Longrightarrow> entry_fine sha e \<and> starts_with path (le_digest e)" and key: "starts_with path (sha (tuple_text t))"
    and depth: "length path \<le> 64" and whole: "entries_opt sha ps path (Some h) (set xs)" and short: "short_pages ps"
  shows "ensures sha (add_entry sha h xs (sha (tuple_text t)) t i operation (length path)) ps
    (updates_to sha path (set xs) t (change operation i {}))"
proof (cases operation)
  case RemoveId
  have "ensures sha (return_p (Some h)) ps (updates_to sha path (set xs) t {})"
    unfolding updates_to_def by (rule unchanged_root [OF short whole unchanged_same [OF none(1)]])
  then show ?thesis by (simp add: add_entry_def RemoveId)
next
  case PutId
  let ?e = "new_entry sha t (Inline [i])"
  have m: "short_members (Inline [i])" using fair by (simp add: single_short fair_def)
  note new = new_fine [OF fair single_members [of sha ps i] m]
  have hex: "hex_sha sha" using fair by (simp add: fair_def)
  have "ensures sha (split_entries sha (64 - length path) (xs @ [?e])) ps (\<lambda>h ps'. \<exists>hs. entries_at sha ps' path h (set (xs @ [?e])) hs)"
    by (rule ensures_split_entries [OF hex]) (use none fine new key depth short in auto)
  then have "ensures sha (bind_p (split_entries sha (64 - length path) (xs @ [?e])) (\<lambda>h. return_p (Some h))) ps
      (\<lambda>root ps'. entries_opt sha ps' path root (set (xs @ [?e])))"
    by (rule ensures_bind) (rule grows_return | (rule ensures_return, assumption, simp only: tree_opt_simps))+
  then have "ensures sha (bind_p (split_entries sha (64 - length path) (xs @ [?e])) (\<lambda>h. return_p (Some h))) ps
      (updates_to sha path (set xs) t {i})"
    unfolding updates_to_def
  proof (rule changed_root)
    have "others (set xs) (tuple_text t) = set xs" using none(1) by (auto simp: image_iff)
    then have eq: "set (xs @ [?e]) = insert ?e (others (set xs) (tuple_text t))" by simp
    show "changed sha ps' (set xs) t {i} (set (xs @ [?e]))" for ps' 
      by (rule changedI [where m = "Inline [i]"], rule insert_not_empty, rule single_members, rule m, rule eq)
  qed
  then show ?thesis by (simp add: add_entry_def PutId)
qed

lemma ensures_update_leaf:
  assumes fair: "fair sha U t i" and st: "stored sha ps h = Some (Leaf xs n)"
    and xs: "\<And>e. e \<in> set xs \<Longrightarrow> starts_with path (le_digest e) \<and> routed sha e"
    and rest: "entries_opt sha ps path n B" "n \<noteq> None \<Longrightarrow> length path = 64" "length path \<le> 64" "keyOf ` set xs \<inter> keyOf ` B = {}"
    and whole: "entries_opt sha ps path (Some h) (set xs \<union> B)" and groups: "represents_groups sha ps U (set xs \<union> B) F"
    and key: "starts_with path (sha (tuple_text t))" and seen: "h \<notin> set seen" and short: "short_pages ps"
    and down: "n \<noteq> None \<Longrightarrow> ensures sha (update_node sha n t (sha (tuple_text t)) (tuple_text t) i operation path (h # seen)) ps
      (updates_to sha path B t (change operation i (under F B t)))"
  shows "ensures sha (update_node sha (Some h) t (sha (tuple_text t)) (tuple_text t) i operation path seen) ps
    (updates_to sha path (set xs \<union> B) t (change operation i (under F (set xs \<union> B) t)))"
proof -
  let ?key = "tuple_text t"
  have t: "index_tuple t" and hex: "hex_sha sha" using fair by (simp_all add: fair_def)
  have valid: "distinct (map keyOf xs)" "length xs \<le> 32"
    using stored_valid [OF st] ordered_distinct by (auto simp: keys_of_def)
  have fine: "entry_fine sha e \<and> starts_with path (le_digest e)" if "e \<in> set xs" for e
    using leaf_fine [OF st short that] xs [OF that] by simp
  have read: "read_page sha ps seen h = Inr (Leaf xs n)" by (rule read_stored [OF st seen])
  have check: "checkNode sha (Leaf xs n) (length path) path = Inr ()"
  proof (rule checkNode_leaf [OF xs])
    show "n = None \<or> length path = 64"
    proof (rule disjCI)
      assume "length path \<noteq> 64"
      with rest(2) show "n = None" by (cases n) simp_all
    qed
  qed
  note step = update_cases(3) [OF read check, of t "sha ?key" ?key i operation]
  show ?thesis
  proof (cases "entry_index ?key xs")
    case (Some k)
    let ?e = "xs ! k"
    have e: "?e \<in> set xs" "keyOf ?e = ?key" using position_index(1, 2) [OF Some valid(1)] by simp_all
    then have "le_tuple ?e = t" using tuple_text_inj [of "le_tuple ?e" t] t xs by (simp add: routed_def)
    then have m: "members_at sha ps (le_ids ?e) (F t)" "F t \<subseteq> U" using groups e(1) by (force simp: represents_groups_def)+
    have old: "under F (set xs \<union> B) t = F t" using e by (force simp: under_def)
    have gc: "ensures sha (groupChange sha (le_ids ?e) i operation) ps (\<lambda>res ps'. case res of
        None \<Rightarrow> change operation i (F t) = {} | Some m' \<Rightarrow> members_at sha ps' m' (change operation i (F t)) \<and> short_members m')"
      by (rule ensures_groupChange [OF hex _ _ _ m _ short]) (use fair fine [OF e(1)] in \<open>auto simp: fair_def entry_fine_def\<close>)
    have "ensures sha (bind_p (groupChange sha (le_ids ?e) i operation) (replace_entry sha h xs n k)) ps
      (updates_to sha path (set xs \<union> B) t (change operation i (F t)))"
      unfolding updates_to_def
    proof (rule ensures_bind [OF gc grows_cases(2)])
      fix ids ps1 assume ps1: "suffix ps ps1" "clean sha ps1" "short_pages ps1"
        and ids: "case ids of None \<Rightarrow> change operation i (F t) = {} | Some m' \<Rightarrow> members_at sha ps1 m' (change operation i (F t)) \<and> short_members m'"
      show "ensures sha (replace_entry sha h xs n k ids) ps1
        (\<lambda>root ps'. \<exists>A'. entries_opt sha ps' path root A' \<and> changed sha ps' (set xs \<union> B) t (change operation i (F t)) A')"
        by (rule ensures_replace_entry [OF fair Some valid fine key tree_opt_suffix [OF rest(1) ps1(2, 1)] rest(2 - 4)
              tree_opt_suffix [OF whole ps1(2, 1)] ps1(3) ids])
    qed
    moreover have "update_node sha (Some h) t (sha ?key) ?key i operation path seen ps
        = bind_p (groupChange sha (le_ids ?e) i operation) (replace_entry sha h xs n k) ps"
      by (simp only: step Some option.case)
    ultimately show ?thesis using ensures_cong by (simp only: old)
  next
    case None
    then have out: "?key \<notin> keyOf ` set xs" by (simp add: position_none)
    show ?thesis
    proof (cases "n = None")
      case True
      then have B: "B = {}" using rest(1) by simp
      then have "under F (set xs \<union> B) t = {}" using out by (intro under_None) simp
      moreover have "ensures sha (add_entry sha h xs (sha ?key) t i operation (length path)) ps (updates_to sha path (set xs) t (change operation i {}))"
        by (rule ensures_add_entry [OF fair out valid(1) fine key rest(3) _ short]) (use whole B in simp_all)
      moreover have "update_node sha (Some h) t (sha ?key) ?key i operation path seen ps = add_entry sha h xs (sha ?key) t i operation (length path) ps"
        by (simp add: step None True)
      ultimately show ?thesis using ensures_cong by (simp only: B Un_empty_right)
    next
      case False
      have same: "under F (set xs \<union> B) t = under F B t" using out by (auto simp: under_def)
      have others: "others (set xs \<union> B) ?key = set xs \<union> others B ?key" using out by (auto simp: image_iff)
      let ?S = "change operation i (under F B t)"
      have grown: "changed sha ps' (set xs \<union> B) t ?S (set xs \<union> B')" if "changed sha ps' B t ?S B'" for ps' B'
      proof (cases "?S = {}")
        case True
        with that have "B' = others B ?key" by (simp only: changed_def if_True)
        then show ?thesis unfolding changed_def others if_P [OF True] by simp
      next
        case False
        with that obtain m where m: "members_at sha ps' m ?S" "short_members m" "B' = insert (new_entry sha t m) (others B ?key)"
          unfolding changed_def if_not_P [OF False] by blast
        show ?thesis by (rule changedI [OF False m(1, 2)]) (simp only: m(3) others Un_insert_right)
      qed
      have "ensures sha (bind_p (update_node sha n t (sha ?key) ?key i operation path (h # seen)) (relink sha h xs n)) ps
        (updates_to sha path (set xs \<union> B) t ?S)"
      proof (rule ensures_bind [OF down [OF False] grows_cases(3)])
        fix n1 ps1 assume ps1: "suffix ps ps1" "clean sha ps1" "short_pages ps1" and "updates_to sha path B t ?S n1 ps1"
        then obtain B' where B': "entries_opt sha ps1 path n1 B'" "changed sha ps1 B t ?S B'" by (auto simp: updates_to_def)
        show "ensures sha (relink sha h xs n n1) ps1 (updates_to sha path (set xs \<union> B) t ?S)"
        proof (cases "n1 = n")
          case True
          have "B' = B" by (rule entries.same_child [OF B'(1) [unfolded True] tree_opt_suffix [OF rest(1) ps1(2, 1)]])
          then have "changed sha ps1 (set xs \<union> B) t ?S (set xs \<union> B)" using grown B'(2) by simp
          from unchanged_root [OF ps1(3) tree_opt_suffix [OF whole ps1(2, 1)] this]
          show ?thesis by (simp add: relink_def True updates_to_def)
        next
          case other: False
          have "keyOf ` B' \<subseteq> insert ?key (keyOf ` B)" by (rule changed_keys [OF B'(2)])
          then have apart: "keyOf ` set xs \<inter> keyOf ` B' = {}" by (rule apart_insert [OF rest(4) out])
          have "xs \<noteq> []" using stored_valid [OF st] by simp
          from some_leaf [OF this valid(2, 1) fine B'(1) rest(2) apart rest(3) hex ps1(3)] False
          have "ensures sha (bind_p (leaf_page sha xs n1) (\<lambda>h. return_p (Some h))) ps1 (\<lambda>root ps'. entries_opt sha ps' path root (set xs \<union> B'))" by simp
          then have "ensures sha (bind_p (leaf_page sha xs n1) (\<lambda>h. return_p (Some h))) ps1 (updates_to sha path (set xs \<union> B) t ?S)"
            unfolding updates_to_def by (rule changed_root) (rule grown, rule changed_suffix [OF B'(2)])
          then show ?thesis using other by (simp add: relink_def)
        qed
      qed
      moreover have "update_node sha (Some h) t (sha ?key) ?key i operation path seen ps
          = bind_p (update_node sha n t (sha ?key) ?key i operation path (h # seen)) (relink sha h xs n) ps"
        using False by (simp only: step None option.case not_False_eq_True if_True)
      ultimately show ?thesis using ensures_cong by (simp only: same)
    qed
  qed
qed

lemma child_of: "(r, c) \<in> set cs \<Longrightarrow> A r \<subseteq> \<Union>(A ` fst ` set cs)"
  by force

lemma represents_sub: "represents_groups sha ps U A F \<Longrightarrow> B \<subseteq> A \<Longrightarrow> represents_groups sha ps U B F"
  by (auto simp: represents_groups_def)

lemma ensures_update_node:
  assumes fair: "fair sha U t i"
  shows "entries_at sha ps path h A hs \<Longrightarrow> represents_groups sha ps U A F \<Longrightarrow> starts_with path (sha (tuple_text t))
    \<Longrightarrow> set seen \<inter> set hs = {} \<Longrightarrow> short_pages ps
    \<Longrightarrow> ensures sha (update_node sha (Some h) t (sha (tuple_text t)) (tuple_text t) i operation path seen) ps
          (updates_to sha path A t (change operation i (under F A t)))"
proof (induction arbitrary: seen rule: radix.induct)
  case (page h p xs path)
  have st: "stored sha ps h = Some (Leaf xs None)" using page.hyps(1, 2) by (simp add: content_leaf_Some)
  have "entries_at sha ps path h (set xs) [h]" by (rule radix.page) (use page.hyps in simp_all)
  then have whole: "entries_opt sha ps path (Some h) (set xs \<union> {})" by auto
  have "ensures sha (update_node sha (Some h) t (sha (tuple_text t)) (tuple_text t) i operation path seen) ps
      (updates_to sha path (set xs \<union> {}) t (change operation i (under F (set xs \<union> {}) t)))"
    by (rule ensures_update_leaf [OF fair st page.hyps(5) _ _ page.hyps(6) _ whole]) (use page.prems in simp_all)
  then show ?case by (simp only: Un_empty_right)
next
  case (chain h p xs n path A hs)
  have st: "stored sha ps h = Some (Leaf xs (Some n))" using chain.hyps(1, 2) by (simp add: content_leaf_Some)
  have "entries_at sha ps path h (set xs \<union> A) (h # hs)" by (rule radix.chain) (use chain.hyps in simp_all)
  then have whole: "entries_opt sha ps path (Some h) (set xs \<union> A)" by auto
  have fresh: "set (h # seen) \<inter> set hs = {}" using chain.prems(3) entries.chain_fresh [OF chain.hyps(1 - 8)] by auto
  have down: "ensures sha (update_node sha (Some n) t (sha (tuple_text t)) (tuple_text t) i operation path (h # seen)) ps
      (updates_to sha path A t (change operation i (under F A t)))"
    by (rule chain.IH [OF represents_sub [OF chain.prems(1)] chain.prems(2) fresh chain.prems(4)]) simp
  show ?case
    by (rule ensures_update_leaf [OF fair st chain.hyps(5) _ _ _ chain.hyps(8) whole chain.prems(1, 2) _ chain.prems(4) down])
      (use chain in auto)
next
  case (branch h cs path A H)
  let ?key = "tuple_text t" and ?route = "sha (tuple_text t) ! length path" and ?W = "\<Union>(A ` fst ` set cs)"
  have hex: "hex_sha sha" using fair by (simp add: fair_def)
  have "h \<notin> set seen" using branch.prems(3) by auto
  note read = read_stored [OF branch.hyps(1) this]
  note step = update_cases(2) [OF read checkNode_branch [OF branch.hyps(2)], of t "sha ?key" ?key i operation]
  have route: "starts_with (path @ [?route]) (sha ?key)" by (rule starts_with_digit [OF hex branch.hyps(2) branch.prems(2)])
  have cs: "distinct (map fst cs)" using stored_valid [OF branch.hyps(1)] by simp
  let ?old = "if ?route \<in> fst ` set cs then A ?route else {}"
  have split: "?W = (\<Union>r \<in> fst ` set cs - {?route}. A r) \<union> ?old" by auto
  have out: "keyOf e \<noteq> ?key" if e: "e \<in> (\<Union>r \<in> fst ` set cs - {?route}. A r)" for e
  proof
    assume key: "keyOf e = ?key"
    from e obtain r where r: "r \<in> fst ` set cs" "r \<noteq> ?route" "e \<in> A r" by blast
    then obtain c where rc: "(r, c) \<in> set cs" "r \<noteq> ?route" "e \<in> A r" by auto
    have "starts_with (path @ [r]) (le_digest e)" "le_digest e = sha ?key"
      using entries.tree_path [OF branch.hyps(3) [OF rc(1)] rc(3)] entries.tree_good [OF branch.hyps(3) [OF rc(1)] rc(3)] key
      by (simp_all add: routed_def)
    then show False using rc(2) by (simp add: starts_with_snoc)
  qed
  have same: "under F ?W t = under F ?old t"
  proof -
    have "?key \<in> keyOf ` ?W \<longleftrightarrow> ?key \<in> keyOf ` ?old" 
    proof -
      have "?key \<notin> keyOf ` (\<Union>r \<in> fst ` set cs - {?route}. A r)"
      proof (rule notI, erule imageE)
        fix e assume "?key = keyOf e" "e \<in> (\<Union>r \<in> fst ` set cs - {?route}. A r)"
        from out [OF this(2)] this(1) show False by (elim notE) (rule sym)
      qed
      then show ?thesis unfolding split image_Un by blast
    qed
    then show ?thesis by (simp only: under_def)
  qed
  have others: "others ?W ?key = (\<Union>r \<in> fst ` set cs - {?route}. A r) \<union> others ?old ?key"
    unfolding split using out by blast
  let ?S = "change operation i (under F ?old t)"
  have down: "ensures sha (update_node sha (map_of cs ?route) t (sha ?key) ?key i operation (path @ [?route]) (h # seen)) ps
    (updates_to sha (path @ [?route]) ?old t ?S)"
  proof (cases "map_of cs ?route")
    case None
    then have none: "?route \<notin> fst ` set cs" by (simp add: map_of_eq_None_iff)
    have "ensures sha (fresh_leaf sha (sha ?key) t i operation) ps (updates_to sha (path @ [?route]) {} t (change operation i {}))"
      by (rule ensures_fresh_leaf [OF fair route]) (use branch.hyps(2) branch.prems(4) in simp_all)
    moreover have "under F {} t = {}" by (simp add: under_def)
    moreover have "update_node sha None t (sha ?key) ?key i operation (path @ [?route]) (h # seen) ps = fresh_leaf sha (sha ?key) t i operation ps"
      by (rule update_cases(1))
    ultimately show ?thesis unfolding None if_not_P [OF none] using ensures_cong by (simp only:)
  next
    case (Some c)
    then have rc: "(?route, c) \<in> set cs" by (rule map_of_SomeD)
    have here: "?route \<in> fst ` set cs" using rc by force
    have fresh: "set (h # seen) \<inter> set (H ?route) = {}"
      using branch.prems(3) entries.branch_fresh(1) [OF branch.hyps(1, 2, 3) rc] child_seen [OF rc, of H] by (simp add: disjoint_iff) blast
    show ?thesis unfolding Some if_P [OF here]
      by (rule branch.IH [OF rc represents_sub [OF branch.prems(1) child_of [OF rc]] route fresh branch.prems(4)])
  qed
  have "ensures sha (bind_p (update_node sha (map_of cs ?route) t (sha ?key) ?key i operation (path @ [?route]) (h # seen)) (rebranch sha h cs ?route)) ps
    (updates_to sha path ?W t ?S)"
  proof (rule ensures_bind [OF down grows_rebranch])
    fix nxt ps1 assume ps1: "suffix ps ps1" "clean sha ps1" "short_pages ps1" and "updates_to sha (path @ [?route]) ?old t ?S nxt ps1"
    then obtain B where B: "entries_opt sha ps1 (path @ [?route]) nxt B" "changed sha ps1 ?old t ?S B" by (auto simp: updates_to_def)
    have "ensures sha (rebranch sha h cs ?route nxt) ps1
      (\<lambda>root ps'. entries_opt sha ps' path root ((\<Union>r \<in> fst ` set cs - {?route}. A r) \<union> B))"
      by (rule ensures_rebranch [OF entries.same_child stored_suffix [OF ps1(2, 1) branch.hyps(1)] branch.hyps(2)
            radix_suffix [OF branch.hyps(3) ps1(2, 1)] B(1) digest_digit [OF hex branch.hyps(2)] hex ps1(3)])
    then show "ensures sha (rebranch sha h cs ?route nxt) ps1 (updates_to sha path ?W t ?S)"
      unfolding updates_to_def
    proof (rule changed_root)
      fix ps' assume ps': "clean sha ps'" "suffix ps1 ps'"
      from changed_suffix [OF B(2) ps'] show "changed sha ps' ?W t ?S ((\<Union>r \<in> fst ` set cs - {?route}. A r) \<union> B)"
      proof (rule changed_cases)
        assume "?S = {}" "B = others ?old ?key"
        then show ?thesis by (simp only: changed_def others if_True refl)
      next
        fix m assume "?S \<noteq> {}" "members_at sha ps' m ?S" "short_members m" "B = insert (new_entry sha t m) (others ?old ?key)"
        then show ?thesis by (intro changedI) (simp_all only: others Un_insert_right not_False_eq_True)
      qed
    qed
  qed
  moreover note step
  ultimately show ?case using ensures_cong by (simp only: same)
qed

section \<open>An index is a map\<close>

definition holds_index :: "(string \<Rightarrow> hash) \<Rightarrow> page_store \<Rightarrow> id set \<Rightarrow> hash option \<Rightarrow> (string list \<Rightarrow> id set) \<Rightarrow> bool" where
  "holds_index sha ps U root F \<longleftrightarrow> (\<exists>A. entries_opt sha ps [] root A \<and> represents_groups sha ps U A F
     \<and> (\<forall>t. F t \<noteq> {} \<longrightarrow> t \<in> le_tuple ` A))"

lemma holdsI:
  "entries_opt sha ps [] root A \<Longrightarrow> represents_groups sha ps U A F \<Longrightarrow> (\<And>t. F t \<noteq> {} \<Longrightarrow> t \<in> le_tuple ` A) \<Longrightarrow> holds_index sha ps U root F"
  unfolding holds_index_def by blast

text \<open>The map after a list of changes.\<close>

definition apply_map :: "(string list \<Rightarrow> id set) \<Rightarrow> index_delta list \<Rightarrow> string list \<Rightarrow> id set" where
  "apply_map F ds = foldl (\<lambda>G d. G(dl_tuple d := change (dl_operation d) (dl_id d) (G (dl_tuple d)))) F ds"

definition put_map :: "index_delta list \<Rightarrow> string list \<Rightarrow> id set" where
  "put_map puts t = {dl_id d | d. d \<in> set puts \<and> dl_tuple d = t}"

lemma holds_suffix:
  assumes "holds_index sha ps U root F" "clean sha ps'" "suffix ps ps'"
  shows "holds_index sha ps' U root F"
proof -
  obtain A where A: "entries_opt sha ps [] root A" "represents_groups sha ps U A F" "\<forall>t. F t \<noteq> {} \<longrightarrow> t \<in> le_tuple ` A"
    using assms(1) by (auto simp: holds_index_def)
  have "represents_groups sha ps' U A F" using A(2) members_suffix [OF _ assms(2, 3)] by (auto simp: represents_groups_def)
  with A(3) tree_opt_suffix [OF A(1) assms(2, 3)] show ?thesis by (auto simp: holds_index_def)
qed

lemma holds_empty: "holds_index sha ps U None (\<lambda>_. {})"
  by (simp add: holds_index_def represents_groups_def)

lemma holds_within:
  assumes "holds_index sha ps U root F" shows "F t \<subseteq> U"
proof -
  obtain A where A: "represents_groups sha ps U A F" "F t \<noteq> {} \<Longrightarrow> t \<in> le_tuple ` A"
    using assms by (auto simp: holds_index_def)
  show ?thesis
  proof (cases "F t = {}")
    case False
    then obtain e where "e \<in> A" "le_tuple e = t" using A(2) by auto
    with A(1) show ?thesis by (force simp: represents_groups_def)
  qed simp
qed

lemma tree_routed: "entries_opt sha ps path root A \<Longrightarrow> e \<in> A \<Longrightarrow> routed sha e"
  by (cases root) (auto dest: entries.tree_good)

lemma tuple_key: "routed sha e \<Longrightarrow> index_tuple t \<Longrightarrow> keyOf e = tuple_text t \<longleftrightarrow> le_tuple e = t"
  using tuple_text_inj [of "le_tuple e" t] by (auto simp: routed_def)

lemma lookup_holds:
  assumes holds: "holds_index sha ps U root F" and hex: "hex_sha sha" and t: "index_tuple t"
  shows "\<exists>ids. tree_lookup sha ps root t = Inr ids \<and> set ids = F t \<and> ordered ids"
proof -
  obtain A where A: "entries_opt sha ps [] root A" "represents_groups sha ps U A F" "F t \<noteq> {} \<Longrightarrow> t \<in> le_tuple ` A"
    using holds by (auto simp: holds_index_def)
  have run: "tree_lookup sha ps root t = bind_i (lookup_loop sha ps (tuple_text t) (sha (tuple_text t)) root [] [] None) (\<lambda>found. case found of
      None \<Rightarrow> Inr [] | Some (Inline ids) \<Rightarrow> Inr ids | Some (Paged h) \<Rightarrow> groupLookup sha ps h)"
    using hex by (simp add: tree_lookup_def canonicalTuple_ok [OF t] assertPageHash_def hex_sha_def)
  show ?thesis
  proof (cases "t \<in> le_tuple ` A")
    case False
    have "lookup_loop sha ps (tuple_text t) (sha (tuple_text t)) root [] [] None = Inr None"
    proof (cases root)
      case None
      show ?thesis unfolding None by (subst lookup_loop.simps) simp
    next
      case (Some h)
      then obtain hs where tree: "entries_at sha ps [] h A hs" using A(1) by auto
      have "keyOf e \<noteq> tuple_text t" if "e \<in> A" for e using tuple_key [OF tree_routed [OF A(1) that] t] False that by blast
      from lookup_absent [OF tree _ this, of "[]"] show ?thesis by (simp add: Some)
    qed
    moreover have "F t = {}" using A(3) False by blast
    ultimately show ?thesis by (simp add: run)
  next
    case True
    then obtain e where e: "e \<in> A" "le_tuple e = t" by auto
    then obtain h hs where root: "root = Some h" "entries_at sha ps [] h A hs" using A(1) by (cases root) auto
    have "lookup_loop sha ps (tuple_text t) (sha (tuple_text t)) root [] [] None = Inr (Some (le_ids e))"
      using lookup_present [OF root(2), of "[]" e "tuple_text t"] e by (simp add: root(1))
    moreover have m: "members_at sha ps (le_ids e) (F t)" using A(2) e by (auto simp: represents_groups_def)
    ultimately show ?thesis
    proof (cases "le_ids e")
      case (Paged h)
      then obtain hs where "group_at sha ps [] h (F t) hs" using m by (auto simp: members_at_def)
      from groupLookup_ok [OF this] show ?thesis
        using \<open>lookup_loop sha ps (tuple_text t) (sha (tuple_text t)) root [] [] None = Inr (Some (le_ids e))\<close> by (auto simp: run Paged)
    qed (auto simp: run members_at_def)
  qed
qed

subsection \<open>Applying changes\<close>

lemma update_tree_run:
  assumes "hex_sha sha" "index_tuple t"
  shows "update_tree sha root t i operation ps = update_node sha root t (sha (tuple_text t)) (tuple_text t) i operation [] [] ps"
  using assms(1) by (simp add: update_tree_def bind_p_def lift_p_def digestTuple_def canonicalTuple_ok [OF assms(2)] assertPageHash_def hex_sha_def)

lemma ensures_update_tree:
  assumes fair: "fair sha U t i" and holds: "holds_index sha ps U root F" and short: "short_pages ps"
  shows "ensures sha (update_tree sha root t i operation) ps (\<lambda>root' ps'. holds_index sha ps' U root' (F(t := change operation i (F t))))"
proof -
  let ?S = "change operation i (F t)" and ?key = "tuple_text t"
  have hex: "hex_sha sha" and t: "index_tuple t" and i: "i \<in> U" using fair by (simp_all add: fair_def)
  obtain A where A: "entries_opt sha ps [] root A" "represents_groups sha ps U A F" "\<And>t. F t \<noteq> {} \<Longrightarrow> t \<in> le_tuple ` A"
    using holds by (auto simp: holds_index_def)
  have keyed: "keyOf e = ?key \<longleftrightarrow> le_tuple e = t" if "e \<in> A" for e by (rule tuple_key [OF tree_routed [OF A(1) that] t])
  have keys: "?key \<in> keyOf ` A \<longleftrightarrow> t \<in> le_tuple ` A" unfolding image_iff using keyed by metis
  have old: "under F A t = F t" using A(3) [of t] keys by (auto simp: under_def)
  have "ensures sha (update_node sha root t (sha ?key) ?key i operation [] []) ps (updates_to sha [] A t ?S)"
  proof (cases root)
    case None
    have "A = {}" "F t = {}" using A(1) A(3) [of t] None by auto
    have "ensures sha (fresh_leaf sha (sha ?key) t i operation) ps (updates_to sha [] {} t (change operation i {}))"
      by (rule ensures_fresh_leaf [OF fair]) (simp_all add: short starts_with_def)
    moreover have "update_node sha None t (sha ?key) ?key i operation [] [] ps = fresh_leaf sha (sha ?key) t i operation ps" by (rule update_cases(1))
    ultimately show ?thesis using ensures_cong by (simp only: None \<open>A = {}\<close> \<open>F t = {}\<close>)
  next
    case (Some h)
    then obtain hs where "entries_at sha ps [] h A hs" using A(1) by auto
    from ensures_update_node [OF fair this A(2), of "[]" operation] short show ?thesis by (simp add: Some old starts_with_def)
  qed
  moreover have "update_tree sha root t i operation ps = update_node sha root t (sha ?key) ?key i operation [] [] ps"
    by (rule update_tree_run [OF hex t])
  ultimately have "ensures sha (update_tree sha root t i operation) ps (updates_to sha [] A t ?S)"
    by (rule ensures_cong [where m' = "update_node sha root t (sha ?key) ?key i operation [] []", rotated])
  then show ?thesis
  proof (rule ensures_weaken)
    fix root' ps' assume ps': "clean sha ps'" "suffix ps ps'" and "updates_to sha [] A t ?S root' ps'"
    then obtain A' where A': "entries_opt sha ps' [] root' A'" "changed sha ps' A t ?S A'" by (auto simp: updates_to_def)
    have kept: "members_at sha ps' (le_ids e) (F (le_tuple e)) \<and> F (le_tuple e) \<subseteq> U \<and> le_tuple e \<noteq> t" if "e \<in> others A ?key" for e
      using that A(2) members_suffix [OF _ ps'] by (auto simp: represents_groups_def)
    have others: "le_tuple ` others A ?key = le_tuple ` A - {t}"
      using keyed by auto
    have S: "?S \<subseteq> U" using holds_within [OF holds, of t] i by (cases operation) auto
    have rep: "represents_groups sha ps' U (others A ?key) (F(t := ?S))"
      unfolding represents_groups_def using kept by (simp add: fun_upd_def)
    show "holds_index sha ps' U root' (F(t := ?S))"
      using A'(2)
    proof (rule changed_cases)
      assume S: "?S = {}" and A'_eq: "A' = others A ?key"
      show ?thesis
      proof (rule holdsI [OF A'(1)])
        show "represents_groups sha ps' U A' (F(t := ?S))" using rep by (simp only: A'_eq)
        show "t' \<in> le_tuple ` A'" if "(F(t := ?S)) t' \<noteq> {}" for t' using that A(3) [of t'] S unfolding A'_eq others by (simp split: if_splits)
      qed
    next
      fix m assume m: "?S \<noteq> {}" "members_at sha ps' m ?S" "A' = insert (new_entry sha t m) (others A ?key)"
      then have "represents_groups sha ps' U A' (F(t := ?S))" using rep S by (simp add: represents_groups_def)
      moreover have "le_tuple ` A' = insert t (le_tuple ` A - {t})" using m(3) others by simp
      then have "t' \<in> le_tuple ` A'" if "(F(t := ?S)) t' \<noteq> {}" for t' using that A(3) [of t'] by (simp split: if_splits)
      ultimately show ?thesis by (rule holdsI [OF A'(1)])
    qed
  qed
qed

lemma grows_apply [grows_intros]: "grows (apply_deltas sha root ds)"
proof (induction ds arbitrary: root)
  case (Cons d ds)
  then show ?case by (auto simp: update_tree_def intro!: grows_intros)
qed (simp add: grows_return)

lemma check_id_ok: "short_id i \<Longrightarrow> check_id i = Inr ()"
  by (simp add: check_id_def short_id_def assertPortableId_def portable_id_def)

lemma ensures_apply:
  "(\<And>d. d \<in> set ds \<Longrightarrow> fair sha U (dl_tuple d) (dl_id d)) \<Longrightarrow> holds_index sha ps U root F \<Longrightarrow> short_pages ps
    \<Longrightarrow> ensures sha (apply_deltas sha root ds) ps (\<lambda>root' ps'. holds_index sha ps' U root' (apply_map F ds))"
proof (induction ds arbitrary: root ps F)
  case Nil
  then show ?case by (auto simp: apply_map_def intro!: ensures_return)
next
  case (Cons d ds)
  let ?F = "F(dl_tuple d := change (dl_operation d) (dl_id d) (F (dl_tuple d)))"
  have d: "fair sha U (dl_tuple d) (dl_id d)" using Cons.prems(1) by simp
  have "ensures sha (bind_p (update_tree sha root (dl_tuple d) (dl_id d) (dl_operation d)) (\<lambda>root1. apply_deltas sha root1 ds)) ps
    (\<lambda>root' ps'. holds_index sha ps' U root' (apply_map ?F ds))"
    by (rule ensures_bind [OF ensures_update_tree [OF d Cons.prems(2, 3)] grows_apply]) (use Cons in auto)
  moreover have "check_id (dl_id d) = Inr ()" using d check_id_ok by (simp add: fair_def)
  ultimately have "ensures sha (bind_p (lift_p (check_id (dl_id d))) (\<lambda>_. bind_p (update_tree sha root (dl_tuple d) (dl_id d) (dl_operation d))
      (\<lambda>root1. apply_deltas sha root1 ds))) ps (\<lambda>root' ps'. holds_index sha ps' U root' (apply_map ?F ds))"
    by (intro ensures_lift)
  then show ?case by (simp add: apply_map_def)
qed

subsection \<open>Building at once\<close>

lemma grows_build_entry [grows_intros]: "grows (build_entry sha puts t)"
  by (auto simp: build_entry_def group_members_def Let_def intro!: grows_intros)

lemma ensures_build_entry:
  assumes hex: "hex_sha sha" and puts: "\<And>d. d \<in> set puts \<Longrightarrow> fair sha U (dl_tuple d) (dl_id d)"
    and t: "t \<in> dl_tuple ` set puts" and short: "short_pages ps"
  shows "ensures sha (build_entry sha puts t) ps (\<lambda>e ps'. \<exists>m. e = new_entry sha t m \<and> members_at sha ps' m (put_map puts t) \<and> short_members m)"
proof -
  let ?ids = "locale_sort (\<lambda>i. i) (js_uniq [dl_id d. d \<leftarrow> puts, dl_tuple d = t])"
  have ids: "set ?ids = put_map puts t" by (auto simp: put_map_def)
  have fair: "i \<in> U \<and> short_id i" if "i \<in> put_map puts t" for i using that puts by (auto simp: put_map_def fair_def)
  have "index_tuple t" using t puts by (auto simp: fair_def)
  have "inj_on sha U" using t puts by (auto simp: fair_def)
  then have inj: "inj_on sha (set ?ids)" unfolding ids using fair by (auto intro: inj_on_subset)
  have "put_map puts t \<noteq> {}" using t by (auto simp: put_map_def)
  then have "?ids \<noteq> []" using ids by force
  then have "ensures sha (if length ?ids \<le> INLINE_GROUP_IDS then return_p (new_entry sha t (Inline ?ids))
      else bind_p (groupPages sha 64 ?ids) (\<lambda>h. return_p (new_entry sha t (Paged h)))) ps
    (\<lambda>x ps'. \<exists>m. x = new_entry sha t m \<and> members_at sha ps' m (set ?ids) \<and> short_members m)"
    by (rule ensures_new_members [OF hex _ _ _ inj short]) (use ids fair in \<open>auto simp: list_all_iff intro: ordered_sort\<close>)
  moreover have "build_entry sha puts t ps = (if length ?ids \<le> INLINE_GROUP_IDS then return_p (new_entry sha t (Inline ?ids))
      else bind_p (groupPages sha 64 ?ids) (\<lambda>h. return_p (new_entry sha t (Paged h)))) ps"
    using hex by (simp add: build_entry_def group_members_def Let_def bind_p_def lift_p_def return_p_def digestTuple_def
        canonicalTuple_ok [OF \<open>index_tuple t\<close>] assertPageHash_def hex_sha_def split: prod.split sum.split)
  ultimately show ?thesis unfolding ids
    by (rule ensures_cong [where m' = "if length ?ids \<le> INLINE_GROUP_IDS then return_p (new_entry sha t (Inline ?ids))
      else bind_p (groupPages sha 64 ?ids) (\<lambda>h. return_p (new_entry sha t (Paged h)))", rotated])
qed

lemma ensures_build:
  assumes hex: "hex_sha sha" and puts: "\<And>d. d \<in> set puts \<Longrightarrow> dl_operation d = PutId \<and> fair sha U (dl_tuple d) (dl_id d)"
    and short: "short_pages ps"
  shows "ensures sha (build sha puts) ps (\<lambda>root ps'. holds_index sha ps' U root (put_map puts))"
proof (cases "puts = []")
  case True
  have "put_map [] = (\<lambda>_. {})" by (auto simp: put_map_def)
  then have "ensures sha (return_p None) ps (\<lambda>root ps'. holds_index sha ps' U root (put_map []))"
    by (intro ensures_return [OF short]) (simp add: holds_empty)
  then show ?thesis using True by (simp add: build_def) (rule ensures_lift, simp)
next
  case False
  let ?tuples = "js_uniq (map dl_tuple puts)"
  have tuples: "set ?tuples = dl_tuple ` set puts" "?tuples \<noteq> []" using False by (auto simp: js_uniq_def)
  have good: "index_tuple t" if "t \<in> set ?tuples" for t using that puts by (auto simp: fair_def)
  have entries: "ensures sha (map_p (build_entry sha puts) ?tuples) ps (\<lambda>es ps'. list_all2 (\<lambda>t e. \<exists>m. e = new_entry sha t m
      \<and> members_at sha ps' m (put_map puts t) \<and> short_members m) ?tuples es)"
    by (rule ensures_map [OF ensures_build_entry [OF hex, where U = U] grows_build_entry _ short]) (use puts tuples in \<open>auto intro: members_suffix\<close>)
  have tree: "ensures sha (bind_p (split_entries sha 64 es) (\<lambda>h. return_p (Some h))) ps1 (\<lambda>root ps'. holds_index sha ps' U root (put_map puts))"
    if ps1: "short_pages ps1" and es: "list_all2 (\<lambda>t e. \<exists>m. e = new_entry sha t m \<and> members_at sha ps1 m (put_map puts t) \<and> short_members m) ?tuples es"
    for es ps1
  proof -
    have maps: "map le_tuple es = ?tuples" using es by (auto simp: list_all2_conv_all_nth intro!: nth_equalityI)
    have entry: "\<exists>m. e = new_entry sha (le_tuple e) m \<and> members_at sha ps1 (le_ids e) (put_map puts (le_tuple e)) \<and> short_members (le_ids e) \<and> le_tuple e \<in> set ?tuples"
      if e: "e \<in> set es" for e
    proof -
      obtain k where "k < length es" "es ! k = e" using e by (auto simp: in_set_conv_nth)
      with es have "\<exists>m. e = new_entry sha (?tuples ! k) m \<and> members_at sha ps1 m (put_map puts (?tuples ! k)) \<and> short_members m" "k < length ?tuples"
        by (auto simp: list_all2_conv_all_nth)
      then show ?thesis by (auto simp del: set_js_uniq)
    qed
    have fine: "entry_fine sha e" if "e \<in> set es" for e
    proof -
      obtain m where e: "e = new_entry sha (le_tuple e) m" "members_at sha ps1 (le_ids e) (put_map puts (le_tuple e))"
        "short_members (le_ids e)" "le_tuple e \<in> set ?tuples" using entry [OF \<open>e \<in> set es\<close>] by blast
      from e(4) obtain d where d: "d \<in> set puts" "dl_tuple d = le_tuple e" unfolding tuples(1) by (metis imageE)
      have "m = le_ids e" using arg_cong [OF e(1), of le_ids] by simp
      then have "e = new_entry sha (le_tuple e) (le_ids e)" using e(1) by simp
      then show ?thesis using new_fine [OF conjunct2 [OF puts [OF d(1)]], unfolded d(2), OF e(2, 3)] by simp
    qed
    have "distinct (map keyOf es)"
    proof -
      have "map keyOf es = map tuple_text ?tuples" by (simp flip: maps)
      moreover have "inj_on tuple_text (set ?tuples)" by (rule inj_onI) (use good tuple_text_inj in blast)
      ultimately show ?thesis by (simp add: distinct_map del: set_js_uniq)
    qed
    moreover have "es \<noteq> []" using maps tuples(2) by auto
    ultimately have "ensures sha (split_entries sha 64 es) ps1 (\<lambda>h ps'. \<exists>hs. entries_at sha ps' [] h (set es) hs)"
      using fine ps1 by (intro ensures_split_entries [OF hex]) (simp_all add: starts_with_def)
    then show ?thesis
    proof (rule ensures_bind [OF _ grows_return])
      fix h ps2 assume ps2: "suffix ps1 ps2" "clean sha ps2" "short_pages ps2" and h: "\<exists>hs. entries_at sha ps2 [] h (set es) hs"
      have "holds_index sha ps2 U (Some h) (put_map puts)"
      proof (rule holdsI)
        show "entries_opt sha ps2 [] (Some h) (set es)" using h by simp
        have "put_map puts t \<subseteq> U" for t using puts by (auto simp: put_map_def fair_def)
        then show "represents_groups sha ps2 U (set es) (put_map puts)"
          unfolding represents_groups_def using entry members_suffix [OF _ ps2(2, 1)] by blast
        show "t \<in> le_tuple ` set es" if "put_map puts t \<noteq> {}" for t
        proof -
          have "t \<in> set ?tuples" using that tuples(1) by (auto simp: put_map_def)
          then show ?thesis by (simp only: list.set_map flip: maps)
        qed
      qed
      then show "ensures sha (return_p (Some h)) ps2 (\<lambda>root ps'. holds_index sha ps' U root (put_map puts))" by (rule ensures_return [OF ps2(3)])
    qed
  qed
  have "ensures sha (bind_p (map_p (build_entry sha puts) ?tuples) (\<lambda>es. bind_p (split_entries sha 64 es) (\<lambda>h. return_p (Some h)))) ps
    (\<lambda>root ps'. holds_index sha ps' U root (put_map puts))"
    by (rule ensures_bind [OF entries]) (auto intro!: grows_intros tree)
  moreover have "each_i check_put puts = Inr ()"
    using puts check_id_ok by (auto simp: check_put_def fair_def bind_i_eq_Inr intro: canonicalTuple_ok)
  ultimately show ?thesis unfolding build_def if_not_P [OF False] by (rule ensures_lift [rotated])
qed

section \<open>The index and the changes it was given\<close>

text \<open>
  C9. An index is exactly the map its changes describe: built from the keys of some records and
  then changed any number of times, it gives, for every tuple, the identifiers put under it
  and not removed since, each once and in order. No operation faults or runs into a cycle, also
  when tuples share a digest or a group outgrows its page.
\<close>

theorem index_is_exact:
  assumes "hex_sha sha" and "inj_on sha U"
    and "\<And>d. d \<in> set puts \<Longrightarrow> dl_operation d = PutId" and "\<And>d. d \<in> set (puts @ ds) \<Longrightarrow> fair sha U (dl_tuple d) (dl_id d)"
    and "bind_p (build sha puts) (\<lambda>root. apply_deltas sha root ds) [] = (res, ps)" and "clean sha ps"
  shows "\<exists>root. res = Inr root \<and> (\<forall>t. index_tuple t \<longrightarrow>
    (\<exists>ids. tree_lookup sha ps root t = Inr ids \<and> ordered ids \<and> set ids = apply_map (put_map puts) ds t))"
proof -
  have "ensures sha (bind_p (build sha puts) (\<lambda>root. apply_deltas sha root ds)) []
    (\<lambda>root ps'. holds_index sha ps' U root (apply_map (put_map puts) ds))"
  proof (rule ensures_bind [OF ensures_build [OF assms(1)] grows_apply])
    show "ensures sha (apply_deltas sha root ds) ps1 (\<lambda>root' ps'. holds_index sha ps' U root' (apply_map (put_map puts) ds))"
      if "short_pages ps1" "holds_index sha ps1 U root (put_map puts)" for root ps1
      by (rule ensures_apply) (use that assms(4) in auto)
  qed (use assms(3, 4) in auto)
  then obtain root where root: "res = Inr root" "holds_index sha ps U root (apply_map (put_map puts) ds)"
    using assms(5, 6) by (auto simp: ensures_def)
  with lookup_holds [OF root(2) assms(1)] show ?thesis by blast
qed

definition sample_digest :: "string \<Rightarrow> hash" where
  "sample_digest s = replicate 63 (CHR ''0'') @ [hex_digits ! (length s mod 16)]"

definition sample_puts :: "index_delta list" where
  "sample_puts = [\<lparr>dl_tuple = [''w'', ''m''], dl_id = ''r'', dl_operation = PutId\<rparr>]"

definition sample_changes :: "index_delta list" where
  "sample_changes = [\<lparr>dl_tuple = [''w'', ''m''], dl_id = ''rs'', dl_operation = PutId\<rparr>,
     \<lparr>dl_tuple = [''w'', ''m''], dl_id = ''r'', dl_operation = RemoveId\<rparr>]"

lemma sample_digest_hex: "hex_sha sample_digest"
proof -
  have "hex_digits ! n \<in> set hex_digits" if "n < 16" for n by (rule nth_mem) (use that in \<open>simp add: hex_digits_def\<close>)
  moreover have "CHR ''0'' \<in> set hex_digits" by (simp add: hex_digits_def)
  ultimately show ?thesis by (simp add: hex_sha_def is_hash_def sample_digest_def list_all_iff)
qed

theorem index_is_exact_witness:
  "\<exists>root. fst (bind_p (build sample_digest sample_puts) (\<lambda>root. apply_deltas sample_digest root sample_changes) []) = Inr root
     \<and> (\<exists>ids. tree_lookup sample_digest (snd (bind_p (build sample_digest sample_puts) (\<lambda>root. apply_deltas sample_digest root sample_changes) []))
          root [''w'', ''m''] = Inr ids \<and> ordered ids \<and> set ids = {''rs''})"
proof -
  let ?run = "bind_p (build sample_digest sample_puts) (\<lambda>root. apply_deltas sample_digest root sample_changes) []"
  have ids: "short_id ''w''" "short_id ''m''" "short_id ''r''" "short_id ''rs''" by code_simp+
  have t: "index_tuple [''w'', ''m'']" by code_simp
  have inj: "inj_on sample_digest {''r'', ''rs''}" by (simp add: sample_digest_def hex_digits_def)
  have fair: "fair sample_digest {''r'', ''rs''} (dl_tuple d) (dl_id d)" if "d \<in> set (sample_puts @ sample_changes)" for d
    using that ids t inj sample_digest_hex by (auto simp: fair_def sample_puts_def sample_changes_def)
  have "distinct (map (page_hash sample_digest) (snd ?run))" by code_simp
  then have clean: "clean sample_digest (snd ?run)" by (simp add: clean_def distinct_map)
  have puts: "dl_operation d = PutId" if "d \<in> set sample_puts" for d using that by (simp add: sample_puts_def)
  have run: "?run = (fst ?run, snd ?run)" by simp
  have "apply_map (put_map sample_puts) sample_changes [''w'', ''m''] = {''rs''}"
    by (auto simp: apply_map_def put_map_def sample_puts_def sample_changes_def)
  with index_is_exact [OF sample_digest_hex inj puts fair run clean] t show ?thesis by metis
qed

end
