(* ===== verification/Index_Steady.thy ===== *)
theory Index_Steady
  imports Index_Maps
begin

text \<open>
  Operations on an index with some of its pages lost. A hash names one page, so what an operation
  makes of the pages it finds is what it would make of all of them; a page it does not find ends it.
\<close>

section \<open>Reading\<close>

definition covers :: "(string \<Rightarrow> hash) \<Rightarrow> page_store \<Rightarrow> page_store \<Rightarrow> bool" where
  "covers sha ps ps' \<longleftrightarrow> set ps \<subseteq> set ps' \<and> clean sha ps'"

lemma covers_read: "covers sha ps ps' \<Longrightarrow> readPage sha ps h = Inr p \<Longrightarrow> readPage sha ps' h = Inr p"
proof (rule stored_read)
  assume c: "covers sha ps ps'" and "readPage sha ps h = Inr p"
  then have st: "stored sha ps h = Some p" by (simp add: stored_def)
  from stored_valid [OF st] c have "find (\<lambda>p. page_hash sha p = h) ps' = Some p" by (intro find_clean) (auto simp: covers_def)
  with st show "stored sha ps' h = Some p" by (simp add: stored_Some)
qed

lemma covers_read_page: "covers sha ps ps' \<Longrightarrow> read_page sha ps seen h = Inr p \<Longrightarrow> read_page sha ps' seen h = Inr p"
  by (auto simp: read_page_def bind_i_eq_Inr intro: covers_read split: if_splits)

lemma each_child_mono:
  "(\<And>route child s x. (route, child) \<in> set cs \<Longrightarrow> f route child s = Inr x \<Longrightarrow> g route child s = Inr x)
    \<Longrightarrow> each_child f cs seen = Inr y \<Longrightarrow> each_child g cs seen = Inr y"
proof (induction cs arbitrary: seen y)
  case (Cons c cs)
  obtain route child where c: "c = (route, child)" by (cases c)
  from Cons.prems(2) obtain ids s1 more s2 where run: "f route child seen = Inr (ids, s1)" "each_child f cs s1 = Inr (more, s2)" "y = (ids @ more, s2)"
    by (auto simp: c bind_i_eq_Inr)
  have "each_child g cs s1 = Inr (more, s2)" by (rule Cons.IH [OF _ run(2)]) (use Cons.prems(1) in auto)
  moreover have "g route child seen = Inr (ids, s1)" by (rule Cons.prems(1) [OF _ run(1)]) (simp add: c)
  ultimately show ?case using run(3) by (simp add: c)
qed simp

lemma covers_collect: "covers sha ps ps' \<Longrightarrow> collect sha ps r path h seen = Inr x \<Longrightarrow> collect sha ps' r path h seen = Inr x"
proof (induction r arbitrary: path h seen x)
  case 0
  then show ?case by (auto simp: bind_i_eq_Inr dest: covers_read_page)
next
  case (Suc r)
  from Suc.prems obtain page where read: "read_page sha ps seen h = Inr page" by (auto simp: bind_i_eq_Inr)
  note read' = covers_read_page [OF Suc.prems(1) read]
  show ?case
  proof (cases page)
    case (Branch cs)
    have "each_child (\<lambda>route child. collect sha ps r (path @ [route]) child) cs (h # seen) = Inr x" using Suc.prems(2) read by (simp add: Branch)
    then have "each_child (\<lambda>route child. collect sha ps' r (path @ [route]) child) cs (h # seen) = Inr x"
      by (rule each_child_mono [rotated]) (rule Suc.IH [OF Suc.prems(1)])
    then show ?thesis using read' by (simp add: Branch)
  qed (use Suc.prems(2) read read' in simp_all)
qed

lemma covers_group: "covers sha ps ps' \<Longrightarrow> groupLookup sha ps h = Inr ids \<Longrightarrow> groupLookup sha ps' h = Inr ids"
  by (auto simp: groupLookup_def bind_i_eq_Inr dest!: covers_collect)

lemma covers_loop:
  "lookup_loop sha ps key digest root path seen acc = Inr x \<Longrightarrow> covers sha ps ps' \<Longrightarrow> lookup_loop sha ps' key digest root path seen acc = Inr x"
proof (induction sha ps key digest root path seen acc rule: lookup_loop.induct)
  case (1 sha ps key digest root path seen acc)
  show ?case
  proof (cases root)
    case None
    from "1.prems"(1) have "acc = x" by (subst (asm) lookup_loop.simps) (simp add: None)
    then show ?thesis by (subst lookup_loop.simps) (simp add: None)
  next
    case (Some h)
    from "1.prems"(1) Some obtain page u where read: "read_page sha ps seen h = Inr page" and ok: "checkNode sha page (length path) path = Inr u"
      by (subst (asm) lookup_loop.simps) (auto split: sum.splits)
    note read' = covers_read_page [OF "1.prems"(2) read]
    show ?thesis
    proof (cases page)
      case (Branch cs)
      have "lookup_loop sha ps key digest (map_of cs (digest ! length path)) (path @ [digest ! length path]) (h # seen) acc = Inr x"
        using "1.prems"(1) read ok by (subst (asm) lookup_loop.simps) (simp add: Some Branch Let_def)
      from "1.IH"(1) [OF Some read ok Branch refl this "1.prems"(2)] read' ok show ?thesis
        by (subst lookup_loop.simps) (simp add: Some Branch Let_def)
    next
      case (Leaf es nxt)
      show ?thesis
      proof (cases "find (\<lambda>e. keyOf e = key) es")
        case None
        have "lookup_loop sha ps key digest nxt path (h # seen) acc = Inr x"
          using "1.prems"(1) read ok None by (subst (asm) lookup_loop.simps) (simp add: Some Leaf)
        from "1.IH"(2) [OF Some read ok Leaf None this "1.prems"(2)] read' ok None show ?thesis by (subst lookup_loop.simps) (simp add: Some Leaf)
      next
        case (Some e)
        have acc: "acc = None" and "lookup_loop sha ps key digest nxt path (h # seen) (Some (le_ids e)) = Inr x"
          using "1.prems"(1) read ok Some by (subst (asm) lookup_loop.simps, simp add: \<open>root = Some h\<close> Leaf split: if_splits)+
        from "1.IH"(3) [OF \<open>root = Some h\<close> read ok Leaf Some _ this(2) "1.prems"(2)] read' ok Some acc show ?thesis
          by (subst lookup_loop.simps) (simp add: \<open>root = Some h\<close> Leaf)
      qed
    next
      case (Group ids nxt)
      with ok show ?thesis by (simp add: checkNode_def)
    qed
  qed
qed

lemma covers_lookup:
  assumes "covers sha ps ps'" and "tree_lookup sha ps root t = Inr ids"
  shows "tree_lookup sha ps' root t = Inr ids"
proof -
  obtain key digest found where run: "canonicalTuple t = Inr key" "assertPageHash (sha key) = Inr digest"
      "lookup_loop sha ps key digest root [] [] None = Inr found"
      "(case found of None \<Rightarrow> Inr [] | Some (Inline ids) \<Rightarrow> Inr ids | Some (Paged h) \<Rightarrow> groupLookup sha ps h) = Inr ids"
    using assms(2) unfolding tree_lookup_def bind_i_eq_Inr by blast
  have "(case found of None \<Rightarrow> Inr [] | Some (Inline ids) \<Rightarrow> Inr ids | Some (Paged h) \<Rightarrow> groupLookup sha ps' h) = Inr ids"
    using run(4) covers_group [OF assms(1)] by (auto split: option.splits members.splits)
  then show ?thesis unfolding tree_lookup_def run(1) bind_i_simps run(2) covers_loop [OF run(3) assms(1)] .
qed

section \<open>Writing\<close>

text \<open>
  A successful operation succeeds alike over more pages, and leaves those and the ones it wrote.
\<close>

definition steady_at :: "(string \<Rightarrow> hash) \<Rightarrow> 'a io \<Rightarrow> page_store \<Rightarrow> bool" where
  "steady_at sha m ps \<longleftrightarrow> (\<forall>x ps1 ps'. m ps = (Inr x, ps1) \<longrightarrow> set ps \<subseteq> set ps' \<longrightarrow> inj_on (page_hash sha) (set ps1 \<union> set ps')
     \<longrightarrow> (\<exists>ps1'. m ps' = (Inr x, ps1') \<and> set ps1' = set ps1 \<union> set ps'))"

definition steady :: "(string \<Rightarrow> hash) \<Rightarrow> 'a io \<Rightarrow> bool" where
  "steady sha m \<longleftrightarrow> (\<forall>ps. steady_at sha m ps)"

named_theorems steady_intros

lemma steadyI: "(\<And>ps. steady_at sha m ps) \<Longrightarrow> steady sha m"
  by (simp add: steady_def)

lemma steady_atI:
  "(\<And>x ps1 ps'. m ps = (Inr x, ps1) \<Longrightarrow> set ps \<subseteq> set ps' \<Longrightarrow> inj_on (page_hash sha) (set ps1 \<union> set ps')
    \<Longrightarrow> \<exists>ps1'. m ps' = (Inr x, ps1') \<and> set ps1' = set ps1 \<union> set ps') \<Longrightarrow> steady_at sha m ps"
  by (simp add: steady_at_def)

lemma steady_atD: "steady sha m \<Longrightarrow> steady_at sha m ps"
  by (simp add: steady_def)

lemma steady_run:
  assumes "steady_at sha m ps" "m ps = (Inr x, ps1)" "set ps \<subseteq> set ps'" "inj_on (page_hash sha) (set ps1 \<union> set ps')"
  obtains ps1' where "m ps' = (Inr x, ps1')" "set ps1' = set ps1 \<union> set ps'"
  using assms unfolding steady_at_def by blast

lemma steady_at_bind:
  assumes m: "steady_at sha m ps" and f: "\<And>x ps1. m ps = (Inr x, ps1) \<Longrightarrow> steady_at sha (f x) ps1" and grows: "\<And>x. grows (f x)"
  shows "steady_at sha (bind_p m f) ps"
proof (rule steady_atI)
  fix y ps2 ps' assume run: "bind_p m f ps = (Inr y, ps2)" and sub: "set ps \<subseteq> set ps'" and inj: "inj_on (page_hash sha) (set ps2 \<union> set ps')"
  obtain x ps1 where one: "m ps = (Inr x, ps1)" "f x ps1 = (Inr y, ps2)"
    using run by (auto simp: bind_p_def split: prod.splits sum.splits)
  have "set ps1 \<subseteq> set ps2" by (rule set_mono_suffix [OF growsD [OF grows one(2)]])
  then have "inj_on (page_hash sha) (set ps1 \<union> set ps')" by (intro inj_on_subset [OF inj]) auto
  from steady_run [OF m one(1) sub this] obtain ps1' where one': "m ps' = (Inr x, ps1')" "set ps1' = set ps1 \<union> set ps'" .
  have "set ps2 \<union> set ps1' = set ps2 \<union> set ps'" using one'(2) \<open>set ps1 \<subseteq> set ps2\<close> by auto
  with inj have "inj_on (page_hash sha) (set ps2 \<union> set ps1')" by simp
  from steady_run [OF f [OF one(1)] one(2) _ this] one'(2) obtain ps2' where "f x ps1' = (Inr y, ps2')" "set ps2' = set ps2 \<union> set ps1'" by auto
  with one' \<open>set ps1 \<subseteq> set ps2\<close> show "\<exists>ps2'. bind_p m f ps' = (Inr y, ps2') \<and> set ps2' = set ps2 \<union> set ps'"
    by (auto simp: bind_p_def)
qed

lemma steady_bind [steady_intros]:
  "steady sha m \<Longrightarrow> (\<And>x. steady sha (f x)) \<Longrightarrow> (\<And>x. grows (f x)) \<Longrightarrow> steady sha (bind_p m f)"
  by (simp add: steady_def steady_at_bind)

lemma steady_return [steady_intros]: "steady sha (return_p x)"
  by (auto simp: steady_def steady_at_def return_p_def)

lemma steady_lift [steady_intros]: "steady sha (lift_p m)"
  by (auto simp: steady_def steady_at_def lift_p_def)

lemma steady_write [steady_intros]: "steady sha (writePage sha p)"
  by (auto simp: steady_def steady_at_def writePage_def split: sum.splits)

lemma steady_map [steady_intros]: "(\<And>x. steady sha (f x)) \<Longrightarrow> (\<And>x. grows (f x)) \<Longrightarrow> steady sha (map_p f xs)"
  by (induction xs) (auto intro!: steady_intros grows_intros)

lemma steady_pages [steady_intros]: "steady sha (group_page sha ids)" "steady sha (leaf_page sha es nxt)"
  by (simp_all add: group_page_def leaf_page_def steady_write)

lemma steady_groupPages [steady_intros]: "steady sha (groupPages sha r ids)"
proof (induction r arbitrary: ids)
  case (Suc r)
  then show ?case by (auto intro!: steady_intros grows_intros simp: split_def)
qed (simp add: steady_pages)

lemma steady_rebranch [steady_intros]: "steady sha (rebranch sha root cs route nxt)"
  unfolding rebranch_def Let_def by (auto intro!: steady_intros grows_intros)

lemma steady_at_cong:
  assumes "steady_at sha m' ps" and "\<And>x ps1. m ps = (Inr x, ps1) \<Longrightarrow> m' ps = (Inr x, ps1)"
    and "\<And>ps' x ps1. covers sha ps ps' \<Longrightarrow> m' ps' = (Inr x, ps1) \<Longrightarrow> m ps' = (Inr x, ps1)"
  shows "steady_at sha m ps"
proof (rule steady_atI)
  fix x ps1 ps' assume run: "m ps = (Inr x, ps1)" and sub: "set ps \<subseteq> set ps'" and inj: "inj_on (page_hash sha) (set ps1 \<union> set ps')"
  from steady_run [OF assms(1) assms(2) [OF run] sub inj] obtain ps1' where run': "m' ps' = (Inr x, ps1')" "set ps1' = set ps1 \<union> set ps'" .
  have "covers sha ps ps'" using sub inj_on_subset [OF inj] by (simp add: covers_def clean_def)
  from assms(3) [OF this run'(1)] run'(2) show "\<exists>ps1'. m ps' = (Inr x, ps1') \<and> set ps1' = set ps1 \<union> set ps'" by blast
qed

lemma steady_chain [steady_intros]: "steady sha (chain_pages sha es nxt)"
proof (rule steadyI)
  show "steady_at sha (chain_pages sha es nxt) ps" for ps
  proof (induction sha es nxt ps rule: chain_pages.induct)
    case (1 sha es nxt ps)
    let ?first = "take (length es - 32) es"
    let ?run = "bind_p (leaf_page sha (drop (length es - 32) es) nxt) (\<lambda>h. if length es \<le> 32 then return_p h else chain_pages sha ?first (Some h))"
    have same: "chain_pages sha es nxt ps = ?run ps" for ps
      by (subst chain_pages.simps) (simp add: bind_p_def return_p_def split: prod.split sum.split)
    have "steady_at sha ?run ps"
    proof (rule steady_at_bind [OF steady_atD [OF steady_pages(2)]])
      show "steady_at sha (if length es \<le> 32 then return_p h else chain_pages sha ?first (Some h)) ps1"
        if "leaf_page sha (drop (length es - 32) es) nxt ps = (Inr h, ps1)" for h ps1
        using 1 [OF that [symmetric] refl] by (simp add: steady_atD [OF steady_return])
    qed (simp add: grows_return grows_chain)
    then show ?case by (rule steady_at_cong) (simp_all add: same)
  qed
qed

lemma steady_split [steady_intros]: "steady sha (split_entries sha r es)"
proof (induction r arbitrary: es)
  case (Suc r)
  then show ?case by (auto intro!: steady_intros grows_intros simp: split_def)
qed (simp add: steady_pages steady_chain)

lemma steady_groupUpdate [steady_intros]: "steady sha (groupUpdate sha root i operation depth seen)"
proof (rule steadyI)
  show "steady_at sha (groupUpdate sha root i operation depth seen) ps" for ps
  proof (induction sha root i operation depth seen ps rule: groupUpdate.induct)
    case (1 sha root i operation depth seen ps)
    show ?case
    proof (cases root)
      case None
      let ?new = "if operation = RemoveId then return_p None else bind_p (group_page sha [i]) (\<lambda>h. return_p (Some h))"
      have "steady sha ?new" by (auto intro!: steady_intros grows_intros)
      moreover have "groupUpdate sha root i operation depth seen ps = ?new ps" for ps by (simp add: groupUpdate.simps None return_p_def)
      ultimately show ?thesis by (intro steady_at_cong [OF steady_atD]) simp_all
    next
      case (Some h)
      show ?thesis
      proof (cases "\<exists>cs. read_page sha ps seen h = Inr (Branch cs) \<and> depth < 64")
        case True
        then obtain cs where read: "read_page sha ps seen h = Inr (Branch cs)" "depth < 64" by blast
        let ?run = "bind_p (groupUpdate sha (map_of cs (sha i ! depth)) i operation (depth + 1) (h # seen)) (rebranch sha h cs (sha i ! depth))"
        have step: "groupUpdate sha root i operation depth seen ps' = ?run ps'" if "read_page sha ps' seen h = Inr (Branch cs)" for ps'
          using that read(2) by (subst groupUpdate.simps) (simp add: Some bind_p_def)
        have "steady_at sha ?run ps"
          by (rule steady_at_bind [OF _ _ grows_rebranch]) (use 1 [OF Some read(1) refl] read(2) in \<open>auto intro: steady_atD steady_rebranch\<close>)
        then show ?thesis by (rule steady_at_cong) (simp_all add: step read(1) covers_read_page [OF _ read(1)])
      next
        case False
        let ?leaf = "\<lambda>ids. case spliced ids i operation of None \<Rightarrow> return_p (Some h) | Some [] \<Rightarrow> return_p None
            | Some ids1 \<Rightarrow> bind_p (groupPages sha (64 - depth) ids1) (\<lambda>h. return_p (Some h))"
        have leaf: "steady sha (?leaf ids)" for ids by (auto intro!: steady_intros grows_intros split: option.split list.split)
        show ?thesis
        proof (cases "\<exists>ids. read_page sha ps seen h = Inr (Group ids None)")
          case True
          then obtain ids where read: "read_page sha ps seen h = Inr (Group ids None)" by blast
          have "groupUpdate sha root i operation depth seen ps' = ?leaf ids ps'" if "read_page sha ps' seen h = Inr (Group ids None)" for ps'
            using that by (subst groupUpdate.simps) (simp add: Some return_p_def split: option.split list.split)
          then show ?thesis by (intro steady_at_cong [OF steady_atD [OF leaf]]) (simp_all add: read covers_read_page [OF _ read])
        next
          case other: False
          have "\<nexists>x. fst (groupUpdate sha root i operation depth seen ps) = Inr x"
            using False other by (subst groupUpdate.simps) (auto simp: Some split: sum.split page.split option.split)
          then show ?thesis by (intro steady_atI) (metis fst_conv)
        qed
      qed
    qed
  qed
qed

lemma steady_groupChange [steady_intros]: "steady sha (groupChange sha m i operation)"
  unfolding groupChange_def Let_def by (auto intro!: steady_intros grows_intros split: members.split)

lemma steady_cases [steady_intros]:
  "steady sha (fresh_leaf sha digest t i operation)" "steady sha (replace_entry sha h es nxt k ids)"
  "steady sha (relink sha h es nxt nxt1)" "steady sha (add_entry sha h es digest t i operation depth)"
  by (auto simp: fresh_leaf_def replace_entry_def relink_def add_entry_def Let_def intro!: steady_intros grows_intros)

lemma steady_update [steady_intros]: "steady sha (update_node sha root t digest key i operation path seen)"
proof (rule steadyI)
  show "steady_at sha (update_node sha root t digest key i operation path seen) ps" for ps
  proof (induction sha root t digest key i operation path seen ps rule: update_node.induct)
    case (1 sha root t digest key i operation path seen ps)
    show ?case
    proof (cases root)
      case None
      then show ?thesis by (intro steady_at_cong [OF steady_atD [OF steady_cases(1)]]) (simp_all add: update_cases)
    next
      case (Some h)
      show ?thesis
      proof (cases "\<exists>p u. read_page sha ps seen h = Inr p \<and> checkNode sha p (length path) path = Inr u")
        case True
        then obtain p u where read: "read_page sha ps seen h = Inr p" and ok: "checkNode sha p (length path) path = Inr u" by blast
        note wider = covers_read_page [OF _ read]
        show ?thesis
        proof (cases p)
          case (Branch cs)
          let ?route = "digest ! length path"
          let ?run = "bind_p (update_node sha (map_of cs ?route) t digest key i operation (path @ [?route]) (h # seen)) (rebranch sha h cs ?route)"
          have same: "update_node sha root t digest key i operation path seen ps' = ?run ps'" if "read_page sha ps' seen h = Inr p" for ps'
            using update_cases(2) [OF that [unfolded Branch] ok [unfolded Branch]] Some by simp
          have "steady_at sha ?run ps"
            by (rule steady_at_bind [OF "1.IH"(1) [OF Some read ok Branch refl] steady_atD [OF steady_rebranch] grows_rebranch])
          then show ?thesis by (rule steady_at_cong) (simp_all only: same read wider)
        next
          case (Leaf es nxt)
          note step = update_cases(3) [OF _ ok [unfolded Leaf], of _ seen h t digest key i operation]
          show ?thesis
          proof (cases "entry_index key es")
            case (Some k)
            let ?run = "bind_p (groupChange sha (le_ids (es ! k)) i operation) (replace_entry sha h es nxt k)"
            have same: "update_node sha root t digest key i operation path seen ps' = ?run ps'" if "read_page sha ps' seen h = Inr p" for ps'
              using step [OF that [unfolded Leaf]] Some \<open>root = Some h\<close> by simp
            have "steady sha ?run" by (intro steady_intros grows_intros)
            then have "steady_at sha ?run ps" by (rule steady_atD)
            then show ?thesis by (rule steady_at_cong) (simp_all only: same read wider)
          next
            case None
            show ?thesis
            proof (cases "nxt = None")
              case True
              have same: "update_node sha root t digest key i operation path seen ps' = add_entry sha h es digest t i operation (length path) ps'"
                if "read_page sha ps' seen h = Inr p" for ps'
                using step [OF that [unfolded Leaf]] None True \<open>root = Some h\<close> by simp
              show ?thesis by (rule steady_at_cong [OF steady_atD [OF steady_cases(4)]]) (simp_all only: same read wider)
            next
              case False
              let ?run = "bind_p (update_node sha nxt t digest key i operation path (h # seen)) (relink sha h es nxt)"
              have same: "update_node sha root t digest key i operation path seen ps' = ?run ps'" if "read_page sha ps' seen h = Inr p" for ps'
                using step [OF that [unfolded Leaf]] None False \<open>root = Some h\<close> by simp
              have "steady_at sha ?run ps"
                by (rule steady_at_bind [OF "1.IH"(2) [OF \<open>root = Some h\<close> read ok Leaf None False] steady_atD [OF steady_cases(3)] grows_cases(3)])
              then show ?thesis by (rule steady_at_cong) (simp_all only: same read wider)
            qed
          qed
        next
          case (Group ids nxt)
          with ok show ?thesis by (simp add: checkNode_def)
        qed
      next
        case False
        have "\<exists>e. update_node sha root t digest key i operation path seen ps = (Inl e, ps)"
        proof (cases "read_page sha ps seen h")
          case (Inl e)
          then show ?thesis by (subst update_node.simps) (simp add: Some)
        next
          case (Inr p)
          with False obtain e where "checkNode sha p (length path) path = Inl e" by (cases "checkNode sha p (length path) path") auto
          with Inr show ?thesis by (subst update_node.simps) (simp add: Some)
        qed
        then show ?thesis by (intro steady_atI) auto
      qed
    qed
  qed
qed

lemma steady_apply [steady_intros]: "steady sha (apply_deltas sha root ds)"
proof (induction ds arbitrary: root)
  case (Cons d ds)
  show ?case unfolding apply_deltas.simps update_tree_def
    by (rule steady_bind [OF steady_lift] steady_bind steady_lift steady_update Cons.IH grows_intros)+
qed (simp add: steady_return)

section \<open>Faults\<close>

text \<open>Reading an index fails only as a cache does: the caller turns to the records.\<close>

definition cache_fault :: "'a ix \<Rightarrow> bool" where
  "cache_fault m \<longleftrightarrow> (\<forall>e. m \<noteq> Inl (Thrown e))"

named_theorems fault_intros

lemma fault_simple [fault_intros]: "cache_fault (Inr x)" "cache_fault (unavailable reason)" "cache_fault (refuse_if c reason)"
    "cache_fault (assertPageHash h)" "cache_fault (canonicalTuple t)"
  by (simp_all add: cache_fault_def refuse_if_def assertPageHash_def canonicalTuple_def)

lemma fault_bind [fault_intros]: "cache_fault m \<Longrightarrow> (\<And>x. m = Inr x \<Longrightarrow> cache_fault (f x)) \<Longrightarrow> cache_fault (bind_i m f)"
  by (cases m) (auto simp: cache_fault_def)

lemma fault_if [fault_intros]: "(c \<Longrightarrow> cache_fault m) \<Longrightarrow> (\<not> c \<Longrightarrow> cache_fault n) \<Longrightarrow> cache_fault (if c then m else n)"
  by simp

lemma fault_each [fault_intros]: "(\<And>x. x \<in> set xs \<Longrightarrow> cache_fault (f x)) \<Longrightarrow> cache_fault (each_i f xs)"
  by (induction xs) (auto intro!: fault_intros)

lemma fault_parts [fault_intros]: "cache_fault (limited xs n)" "cache_fault (unique xs)" "cache_fault (hash_of_next nxt)" "cache_fault (recordIds ids n)"
  by (auto simp: limited_def unique_def hash_of_next_def recordIds_def intro!: fault_intros split: option.split)

lemma fault_encode [fault_intros]: "cache_fault (encodeIndexPage sha p)"
proof -
  have "cache_fault (validateIndexPage p)"
    by (cases p) (auto simp: validateIndexPage.simps validate_entry_def intro!: fault_intros split: members.split)
  then show ?thesis unfolding encodeIndexPage_def by (intro fault_intros)
qed

lemma fault_read [fault_intros]: "cache_fault (readPage sha ps h)" "cache_fault (read_page sha ps seen h)"
  by (auto simp: readPage_def read_page_def intro!: fault_intros split: option.split)

lemma fault_group_ids [fault_intros]: "cache_fault (group_page_ids sha path page)"
  by (auto simp: group_page_ids_def intro!: fault_intros split: page.split option.split)

lemma fault_each_child: "(\<And>route child s. cache_fault (f route child s)) \<Longrightarrow> cache_fault (each_child f cs seen)"
  by (induction cs arbitrary: seen) (auto intro!: fault_intros)

lemma fault_collect: "cache_fault (collect sha ps r path h seen)"
  by (induction r arbitrary: path h seen) (auto intro!: fault_intros fault_each_child split: page.split)

lemma fault_group [fault_intros]: "cache_fault (groupLookup sha ps h)"
  unfolding groupLookup_def by (auto intro!: fault_intros fault_collect)

lemma fault_check [fault_intros]: "cache_fault (checkNode sha page depth path)"
  by (auto simp: checkNode_def digestTuple_def intro!: fault_intros split: page.split)

lemma fault_loop [fault_intros]: "cache_fault (lookup_loop sha ps key digest root path seen acc)"
proof (induction sha ps key digest root path seen acc rule: lookup_loop.induct)
  case (1 sha ps key digest root path seen acc)
  show ?case
  proof (cases root)
    case None
    then show ?thesis by (subst lookup_loop.simps) (simp add: fault_simple)
  next
    case (Some h)
    have read: "cache_fault (read_page sha ps seen h)" by (rule fault_read)
    show ?thesis
    proof (cases "read_page sha ps seen h")
      case (Inl e)
      with read Some show ?thesis by (subst lookup_loop.simps) (simp add: cache_fault_def)
    next
      case (Inr page)
      note found = this
      have check: "cache_fault (checkNode sha page (length path) path)" by (rule fault_check)
      show ?thesis
      proof (cases "checkNode sha page (length path) path")
        case (Inl e)
        with check found Some show ?thesis by (subst lookup_loop.simps) (simp add: cache_fault_def)
      next
        case (Inr u)
        show ?thesis
        proof (cases page)
          case (Branch cs)
          with "1.IH"(1) [OF Some found Inr Branch refl] found Inr Some show ?thesis by (subst lookup_loop.simps) (simp add: Let_def)
        next
          case (Leaf es nxt)
          show ?thesis
          proof (cases "find (\<lambda>e. keyOf e = key) es")
            case None
            with "1.IH"(2) [OF Some found Inr Leaf None] found Inr Some Leaf show ?thesis by (subst lookup_loop.simps) simp
          next
            case (Some e)
            with "1.IH"(3) [OF \<open>root = Some h\<close> found Inr Leaf Some] found Inr \<open>root = Some h\<close> Leaf show ?thesis
              by (subst lookup_loop.simps) (simp add: fault_simple)
          qed
        next
          case (Group ids nxt)
          with Inr show ?thesis by (simp add: checkNode_def)
        qed
      qed
    qed
  qed
qed

lemma fault_lookup [fault_intros]: "cache_fault (tree_lookup sha ps root t)"
  unfolding tree_lookup_def by (auto intro!: fault_intros split: option.split members.split)

end
