(* ===== verification/Index_Cache.thy ===== *)
theory Index_Cache
  imports Index_Steady Store_Laws
begin

text \<open>
  The cache of the transaction indexes (\<^verbatim>\<open>packages/storage-filesystem/src/index-cache.mjs\<close> and the
  manifest of \<^verbatim>\<open>index-io.mjs\<close>): one tree per index and a manifest that says which journal
  generation they describe. A lookup uses the published trees when they are current, else rebuilds
  them from the records; a commit carries them forward. An instance remembers the manifest it has
  validated, with the pages it has read of it, and the trees it could not publish, each for one
  journal generation. The lemmas: the pages a rebuild keeps hold the same indexes as all it made. What a lookup answers is shown in \<open>Index_Refinement\<close> and \<open>Index_History\<close>.
\<close>

section \<open>The cache\<close>

definition INDEXES :: "index list" where
  "INDEXES = [MessageByClientKey, ReceiptsByMessage, ReceiptsByRecipientState, DecisionsByTarget]"

lemma INDEXES_all [simp]: "index \<in> set INDEXES" "distinct INDEXES"
  by (cases index) (simp_all add: INDEXES_def)

record manifest =
  mf_workspaceId :: id
  mf_journalGeneration :: nat
  mf_roots :: "index \<Rightarrow> hash option"

datatype manifest_file = No_manifest | Garbled | Manifest manifest

record cache =
  ca_pages :: page_store
  ca_manifest :: manifest_file

record journal_view =
  jv_idle :: bool
  jv_generation :: nat

type_synonym area = "((kind \<times> id) \<times> envelope) list"

text \<open>
  What an instance keeps in memory, each part with the generation it describes: the manifest it
  validated and the pages it decoded since, and the trees it rebuilt and could not publish.
\<close>

record memory =
  me_validated :: "(nat \<times> manifest \<times> page_store) option"
  me_unpublished :: "(nat \<times> manifest \<times> page_store) option"

definition no_memory :: memory where
  "no_memory = \<lparr>me_validated = None, me_unpublished = None\<rparr>"

definition valid :: "(string \<Rightarrow> hash) \<Rightarrow> id \<Rightarrow> cache \<Rightarrow> journal_view \<Rightarrow> manifest option ix" where
  "valid sha workspaceId ca active = (case ca_manifest ca of
     No_manifest \<Rightarrow> Inr None
   | Garbled \<Rightarrow> unavailable ''invalid_manifest''
   | Manifest m \<Rightarrow>
       bind_i (refuse_if (\<not> jv_idle active \<or> mf_workspaceId m \<noteq> workspaceId
         \<or> mf_journalGeneration m \<noteq> jv_generation active) ''stale_manifest'') (\<lambda>_.
       bind_i (each_i (\<lambda>index. case mf_roots m index of None \<Rightarrow> Inr ()
         | Some h \<Rightarrow> bind_i (readPage sha (ca_pages ca) h) (\<lambda>_. Inr ())) INDEXES) (\<lambda>_. Inr (Some m))))"

section \<open>Rebuilding\<close>

text \<open>\<^verbatim>\<open>indexKeysFor\<close>, with the index of each key.\<close>

definition record_keys :: "kind \<Rightarrow> entity \<Rightarrow> (index \<times> string list) list" where
  "record_keys k r = [(index, t). index \<leftarrow> INDEXES, index_kind index = k, t \<leftarrow> index_keys index r]"

definition indexKeysFor :: "kind \<Rightarrow> entity \<Rightarrow> (index \<times> string list) list res" where
  "indexKeysFor k r = bind_r (each_r (\<lambda>(index, t). assertIndexTuple index t) (record_keys k r)) (\<lambda>_. Inr (record_keys k r))"

definition thrown :: "'a res \<Rightarrow> 'a ix" where
  "thrown m = (case m of Inl e \<Rightarrow> Inl (Thrown e) | Inr x \<Rightarrow> Inr x)"

definition put_deltas :: "index \<Rightarrow> area \<Rightarrow> index_delta list" where
  "put_deltas index primaries = [\<lparr>dl_tuple = t, dl_id = i, dl_operation = PutId\<rparr>.
     ((k, i), env) \<leftarrow> primaries, (other, t) \<leftarrow> record_keys k (v_record env), other = index]"

definition references :: "page \<Rightarrow> hash list" where
  "references p = (case p of
     Branch cs \<Rightarrow> map snd cs
   | Leaf es nxt \<Rightarrow> [h. Paged h \<leftarrow> map le_ids es] @ (case nxt of None \<Rightarrow> [] | Some h \<Rightarrow> [h])
   | Group _ nxt \<Rightarrow> (case nxt of None \<Rightarrow> [] | Some h \<Rightarrow> [h]))"

text \<open>The pages the roots reach, in the order \<^verbatim>\<open>keep\<close> meets them. A hash without a page does not occur.\<close>

function keep :: "(string \<Rightarrow> hash) \<Rightarrow> page_store \<Rightarrow> hash list \<Rightarrow> hash list \<Rightarrow> hash list" where
  "keep sha ps [] kept = kept"
| "keep sha ps (h # todo) kept =
     (if h \<in> set kept then keep sha ps todo kept
      else case find (\<lambda>p. page_hash sha p = h) ps of
        None \<Rightarrow> keep sha ps todo kept
      | Some p \<Rightarrow> keep sha ps (references p @ todo) (kept @ [h]))"
  by pat_completeness auto
termination
proof (relation "measures [\<lambda>(sha, ps, todo, kept). card (page_hash sha ` set ps - set kept), \<lambda>(sha, ps, todo, kept). length todo]")
  fix sha ps h todo kept p
  assume "h \<notin> set kept" "find (\<lambda>p. page_hash sha p = h) ps = Some p"
  moreover from this(2) have "h \<in> page_hash sha ` set ps" by (auto simp: find_Some_iff)
  ultimately have "card (page_hash sha ` set ps - set (kept @ [h])) < card (page_hash sha ` set ps - set kept)"
    by (intro psubset_card_mono) auto
  then show "((sha, ps, references p @ todo, kept @ [h]), sha, ps, h # todo, kept)
    \<in> measures [\<lambda>(sha, ps, todo, kept). card (page_hash sha ` set ps - set kept), \<lambda>(sha, ps, todo, kept). length todo]" by simp
qed auto

definition build_roots :: "(string \<Rightarrow> hash) \<Rightarrow> area \<Rightarrow> (index \<times> hash option) list io" where
  "build_roots sha primaries =
     map_p (\<lambda>index. bind_p (build sha (put_deltas index primaries)) (\<lambda>root. return_p (index, root))) INDEXES"

definition root_hashes :: "(index \<times> hash option) list \<Rightarrow> hash list" where
  "root_hashes roots = [h. (_, Some h) \<leftarrow> roots]"

definition root_of :: "(index \<times> hash option) list \<Rightarrow> index \<Rightarrow> hash option" where
  "root_of roots index = (case map_of roots index of Some root \<Rightarrow> root | None \<Rightarrow> None)"

text \<open>
  \<^verbatim>\<open>rebuild\<close>, from the primary records as they were loaded. \<open>written\<close> is \<open>None\<close> when the cache
  directory takes every page and the manifest, and otherwise the pages that reached it before it failed.
  The result says whether the trees were published.
\<close>

definition check_primary :: "id \<Rightarrow> (kind \<times> id) \<times> envelope \<Rightarrow> unit ix" where
  "check_primary workspaceId = (\<lambda>((k, i), env).
     bind_i (thrown (throw_if (workspace_of (v_record env) \<noteq> Some workspaceId) DATA
       ''indexed primary belongs to a different workspace'')) (\<lambda>_.
     bind_i (thrown (indexKeysFor k (v_record env))) (\<lambda>_. Inr ())))"

definition rebuild :: "(string \<Rightarrow> hash) \<Rightarrow> id \<Rightarrow> area res \<Rightarrow> journal_view \<Rightarrow> page_store option \<Rightarrow> cache
    \<Rightarrow> (manifest \<times> page_store \<times> bool \<times> cache) ix" where
  "rebuild sha workspaceId loadPrimary active written ca =
     bind_i (thrown loadPrimary) (\<lambda>primaries.
     bind_i (each_i (check_primary workspaceId) primaries) (\<lambda>_.
     case build_roots sha primaries [] of
       (Inl e, _) \<Rightarrow> Inl e
     | (Inr roots, ps) \<Rightarrow>
         (let reachable = keep sha ps (root_hashes roots) [];
              kept = filter (\<lambda>p. page_hash sha p \<in> set reachable) ps;
              m = \<lparr>mf_workspaceId = workspaceId, mf_journalGeneration = jv_generation active, mf_roots = root_of roots\<rparr>
          in case written of
               None \<Rightarrow> Inr (m, kept, True, \<lparr>ca_pages = kept @ ca_pages ca, ca_manifest = Manifest m\<rparr>)
             | Some ws \<Rightarrow> Inr (m, kept, False, ca\<lparr>ca_pages := filter (\<lambda>p. p \<in> set ws) kept @ ca_pages ca\<rparr>))))"

section \<open>Looking up\<close>

text \<open>\<^verbatim>\<open>select\<close>: what the transaction staged corrects what the index holds; each is verified.\<close>

definition select_cached :: "((kind \<times> id) \<times> entry) list \<Rightarrow> index \<Rightarrow> string list \<Rightarrow> (id \<Rightarrow> bool ix) \<Rightarrow> id list \<Rightarrow> id list ix" where
  "select_cached staged index tuple verify ids =
     (let sorted = locale_sort (\<lambda>i. i @ ''.json'') (select_ids staged index tuple ids)
      in foldr (\<lambda>i rest. bind_i (verify i) (\<lambda>found. bind_i rest (\<lambda>found_ids. Inr (if found then i # found_ids else found_ids)))) sorted (Inr []))"

definition answer :: "(string \<Rightarrow> hash) \<Rightarrow> manifest \<Rightarrow> page_store \<Rightarrow> index \<Rightarrow> string list
    \<Rightarrow> ((kind \<times> id) \<times> entry) list \<Rightarrow> (id \<Rightarrow> bool ix) \<Rightarrow> id list ix" where
  "answer sha m ps index tuple staged verify =
     bind_i (tree_lookup sha ps (mf_roots m index) tuple) (select_cached staged index tuple verify)"

text \<open>
  \<^verbatim>\<open>remembering\<close>: the pages that were read, those of the roots when a manifest is validated and those on
  the way to a tuple and of its group.
\<close>

definition pages_at :: "(string \<Rightarrow> hash) \<Rightarrow> page_store \<Rightarrow> hash list \<Rightarrow> page_store" where
  "pages_at sha ps hs = concat (map (\<lambda>h. case readPage sha ps h of Inl _ \<Rightarrow> [] | Inr p \<Rightarrow> [p]) hs)"

definition root_pages :: "(string \<Rightarrow> hash) \<Rightarrow> page_store \<Rightarrow> manifest \<Rightarrow> page_store" where
  "root_pages sha ps m = pages_at sha ps (concat (map (\<lambda>index. case mf_roots m index of None \<Rightarrow> [] | Some h \<Rightarrow> [h]) INDEXES))"

function route_pages :: "(string \<Rightarrow> hash) \<Rightarrow> page_store \<Rightarrow> string \<Rightarrow> hash option \<Rightarrow> string \<Rightarrow> hash list \<Rightarrow> page_store" where
  "route_pages sha ps digest root path seen = (case root of
     None \<Rightarrow> []
   | Some h \<Rightarrow> (case read_page sha ps seen h of
       Inl _ \<Rightarrow> []
     | Inr page \<Rightarrow> page # (case page of
         Branch cs \<Rightarrow> (let route = digest ! length path
           in route_pages sha ps digest (map_of cs route) (path @ [route]) (h # seen))
       | Leaf es nxt \<Rightarrow> route_pages sha ps digest nxt path (h # seen)
       | Group _ _ \<Rightarrow> [])))"
  by pat_completeness auto
termination
  by (relation "measure (\<lambda>(sha, ps, digest, root, path, seen). unseen sha ps seen)")
    (auto intro: read_page_unseen)

declare route_pages.simps [simp del]

definition pages_read :: "(string \<Rightarrow> hash) \<Rightarrow> page_store \<Rightarrow> hash option \<Rightarrow> string list \<Rightarrow> page_store" where
  "pages_read sha ps root tuple =
     (let key = tuple_text tuple; digest = sha key
      in route_pages sha ps digest root [] []
        @ (case lookup_loop sha ps key digest root [] [] None of
             Inr (Some (Paged h)) \<Rightarrow> (case collect sha ps 64 [] h [] of
               Inr (_, seen) \<Rightarrow> pages_at sha ps seen
             | Inl _ \<Rightarrow> [])
           | _ \<Rightarrow> []))"

text \<open>
  The manifest a lookup uses and the pages that are remembered of it: the one of this generation that
  the instance has validated before, or the one in the cache directory, validated now.
\<close>

definition accepted :: "(string \<Rightarrow> hash) \<Rightarrow> id \<Rightarrow> cache \<Rightarrow> journal_view \<Rightarrow> (nat \<times> manifest \<times> page_store) option
    \<Rightarrow> (manifest \<times> page_store) ix" where
  "accepted sha workspaceId ca active validated =
     (let anew = bind_i (valid sha workspaceId ca active) (\<lambda>found. case found of
            None \<Rightarrow> unavailable ''missing_manifest''
          | Some m \<Rightarrow> Inr (m, root_pages sha (ca_pages ca) m))
      in case validated of
           None \<Rightarrow> anew
         | Some (g, m, ps) \<Rightarrow> if g \<noteq> jv_generation active \<or> \<not> jv_idle active then anew else Inr (m, ps))"

definition rebuild_lookup :: "(string \<Rightarrow> hash) \<Rightarrow> id \<Rightarrow> index \<Rightarrow> string list \<Rightarrow> journal_view \<Rightarrow> ((kind \<times> id) \<times> entry) list
    \<Rightarrow> (id \<Rightarrow> bool ix) \<Rightarrow> area res \<Rightarrow> page_store option \<Rightarrow> cache \<times> memory \<Rightarrow> id list ix \<times> cache \<times> memory" where
  "rebuild_lookup sha workspaceId index tuple active staged verify loadPrimary written = (\<lambda>(ca, mem).
     case rebuild sha workspaceId loadPrimary active written ca of
       Inl e \<Rightarrow> (Inl e, ca, mem)
     | Inr (m, ps, out, ca1) \<Rightarrow>
         (answer sha m ps index tuple staged verify, ca1,
          mem\<lparr>me_unpublished := if out then None else Some (jv_generation active, m, ps)\<rparr>))"

text \<open>What a lookup does when no published tree can answer it.\<close>

definition fallback_lookup :: "(string \<Rightarrow> hash) \<Rightarrow> id \<Rightarrow> index \<Rightarrow> string list \<Rightarrow> journal_view \<Rightarrow> ((kind \<times> id) \<times> entry) list
    \<Rightarrow> (id \<Rightarrow> bool ix) \<Rightarrow> area res \<Rightarrow> page_store option \<Rightarrow> cache \<times> memory \<Rightarrow> id list ix \<times> cache \<times> memory" where
  "fallback_lookup sha workspaceId index tuple active staged verify loadPrimary written = (\<lambda>(ca, mem).
     case me_unpublished mem of
       Some (g, m, ps) \<Rightarrow>
         if g \<noteq> jv_generation active \<or> \<not> jv_idle active
         then rebuild_lookup sha workspaceId index tuple active staged verify loadPrimary written (ca, mem)
         else (answer sha m ps index tuple staged verify, ca, mem)
     | None \<Rightarrow> rebuild_lookup sha workspaceId index tuple active staged verify loadPrimary written (ca, mem))"

definition cache_lookup :: "(string \<Rightarrow> hash) \<Rightarrow> id \<Rightarrow> index \<Rightarrow> string list \<Rightarrow> journal_view \<Rightarrow> ((kind \<times> id) \<times> entry) list
    \<Rightarrow> (id \<Rightarrow> bool ix) \<Rightarrow> area res \<Rightarrow> page_store option \<Rightarrow> cache \<times> memory \<Rightarrow> id list ix \<times> cache \<times> memory" where
  "cache_lookup sha workspaceId index tuple active staged verify loadPrimary written = (\<lambda>(ca, mem).
     case assertIndexTuple index tuple of
       Inl e \<Rightarrow> (Inl (Thrown e), ca, mem)
     | Inr _ \<Rightarrow> (case accepted sha workspaceId ca active (me_validated mem) of
         Inl (Thrown e) \<Rightarrow> (Inl (Thrown e), ca, mem\<lparr>me_validated := None\<rparr>)
       | Inl (IndexCacheUnavailable _) \<Rightarrow>
           fallback_lookup sha workspaceId index tuple active staged verify loadPrimary written (ca, mem\<lparr>me_validated := None\<rparr>)
       | Inr (m, ps) \<Rightarrow>
           (let held = ps @ ca_pages ca
            in case answer sha m held index tuple staged verify of
                 Inl (IndexCacheUnavailable _) \<Rightarrow>
                   fallback_lookup sha workspaceId index tuple active staged verify loadPrimary written (ca, mem\<lparr>me_validated := None\<rparr>)
               | found \<Rightarrow> (found, ca,
                   mem\<lparr>me_validated := Some (jv_generation active, m, pages_read sha held (mf_roots m index) tuple @ ps)\<rparr>))))"

section \<open>Carrying the cache over a commit\<close>

definition prepareDeltas :: "((kind \<times> id) \<times> entry option) list \<Rightarrow> ((kind \<times> id) \<times> entry) list \<Rightarrow> (index \<times> index_delta) list" where
  "prepareDeltas loaded staged = concat (map (\<lambda>((k, i), nxt).
     let oldKeys = (case map_of loaded (k, i) of Some (Some (Live r _)) \<Rightarrow> record_keys k r | _ \<Rightarrow> []);
         newKeys = (case nxt of Removed _ \<Rightarrow> [] | Live r _ \<Rightarrow> record_keys k r)
     in [(index, \<lparr>dl_tuple = t, dl_id = i, dl_operation = RemoveId\<rparr>). (index, t) \<leftarrow> oldKeys, (index, t) \<notin> set newKeys]
        @ [(index, \<lparr>dl_tuple = t, dl_id = i, dl_operation = PutId\<rparr>). (index, t) \<leftarrow> newKeys, (index, t) \<notin> set oldKeys]) staged)"

definition apply_roots :: "(string \<Rightarrow> hash) \<Rightarrow> (index \<Rightarrow> hash option) \<Rightarrow> (index \<times> index_delta) list \<Rightarrow> (index \<times> hash option) list io" where
  "apply_roots sha roots deltas =
     map_p (\<lambda>index. bind_p (apply_deltas sha (roots index) [d. (other, d) \<leftarrow> deltas, other = index]) (\<lambda>root. return_p (index, root))) INDEXES"

text \<open>
  \<^verbatim>\<open>commit\<close> of the cache, after the journal's commit; \<open>written\<close> is as for \<open>rebuild\<close>. A fault leaves the
  manifest as it was, behind the journal.
\<close>

definition cache_commit :: "(string \<Rightarrow> hash) \<Rightarrow> id \<Rightarrow> journal_view \<Rightarrow> journal_view \<Rightarrow> (index \<times> index_delta) list
    \<Rightarrow> page_store option \<Rightarrow> cache \<Rightarrow> unit ix \<times> cache" where
  "cache_commit sha workspaceId before after deltas written ca = (case valid sha workspaceId ca before of
     Inl (IndexCacheUnavailable _) \<Rightarrow> (Inr (), ca)
   | Inl (Thrown e) \<Rightarrow> (Inl (Thrown e), ca)
   | Inr None \<Rightarrow> (Inr (), ca)
   | Inr (Some m) \<Rightarrow> (case apply_roots sha (mf_roots m) deltas (ca_pages ca) of
       (Inl (IndexCacheUnavailable _), ps) \<Rightarrow> (Inr (), ca\<lparr>ca_pages := ps\<rparr>)
     | (Inl (Thrown e), ps) \<Rightarrow> (Inl (Thrown e), ca\<lparr>ca_pages := ps\<rparr>)
     | (Inr roots, ps) \<Rightarrow> (Inr (), (case written of
         None \<Rightarrow> \<lparr>ca_pages = ps, ca_manifest = Manifest (m\<lparr>mf_journalGeneration := jv_generation after, mf_roots := root_of roots\<rparr>)\<rparr>
       | Some ws \<Rightarrow> ca\<lparr>ca_pages := filter (\<lambda>p. p \<in> set ws \<or> p \<in> set (ca_pages ca)) ps\<rparr>))))"

section \<open>The lookup of a transaction\<close>

text \<open>
  What the store does for \<^verbatim>\<open>tx.lookup\<close> (\<^verbatim>\<open>lookupIndex\<close> of \<^verbatim>\<open>store.mjs\<close>): each identifier is read
  through the transaction, and one whose record is not keyed by the tuple shows a wrong index.
\<close>

definition verify_in :: "index \<Rightarrow> string list \<Rightarrow> view \<Rightarrow> id \<Rightarrow> bool ix" where
  "verify_in index tuple v i =
     bind_i (thrown (read_entry (index_kind index) i v)) (\<lambda>found. case found of
       None \<Rightarrow> Inr False
     | Some (r, _) \<Rightarrow> bind_i (thrown (indexKeysFor (index_kind index) r)) (\<lambda>keys.
         if (index, tuple) \<in> set keys then Inr True else unavailable ''invalid_source_reference''))"

definition lookupIndex :: "(string \<Rightarrow> hash) \<Rightarrow> index \<Rightarrow> string list \<Rightarrow> journal_view \<Rightarrow> page_store option \<Rightarrow> view
    \<Rightarrow> cache \<times> memory \<Rightarrow> id list ix \<times> cache \<times> memory" where
  "lookupIndex sha index tuple active written v caches =
     (case bind_r (assertIndexTuple index tuple) (\<lambda>_. declared (index_kind index) v) of
        Inl e \<Rightarrow> (Inl (Thrown e), caches)
      | Inr _ \<Rightarrow> cache_lookup sha (st_workspaceId (x_store v)) index tuple active (x_staged v) (verify_in index tuple v)
          (loadStateEnvelopes (x_store v) (Some [Message, Receipt])) written caches)"

section \<open>The pages that are remembered\<close>

lemma readPage_in:
  assumes "readPage sha ps h = Inr p" shows "p \<in> set ps"
proof -
  have "stored sha ps h = Some p" using assms by (simp add: stored_def)
  from stored_valid [OF this] show ?thesis by simp
qed

lemma pages_at_read: "set (pages_at sha ps hs) \<subseteq> set ps"
proof
  fix p assume "p \<in> set (pages_at sha ps hs)"
  then obtain h where "readPage sha ps h = Inr p" by (auto simp: pages_at_def split: sum.splits)
  then show "p \<in> set ps" by (rule readPage_in)
qed

lemma root_pages_read: "set (root_pages sha ps m) \<subseteq> set ps"
  by (simp add: root_pages_def pages_at_read)

lemma route_pages_read: "set (route_pages sha ps digest root path seen) \<subseteq> set ps"
proof (induction sha ps digest root path seen rule: route_pages.induct)
  case (1 sha ps digest root path seen)
  have here: "page \<in> set ps" if "read_page sha ps seen h = Inr page" for h page
  proof -
    have "readPage sha ps h = Inr page" using that by (auto simp: read_page_def bind_i_eq_Inr split: if_splits)
    then show ?thesis by (rule readPage_in)
  qed
  show ?case
  proof (cases "\<exists>h page. root = Some h \<and> read_page sha ps seen h = Inr page")
    case True
    then obtain h page where root: "root = Some h" and page: "read_page sha ps seen h = Inr page" by blast
    with here 1 show ?thesis
      by (subst route_pages.simps) (cases page; simp add: Let_def)
  next
    case False
    then have "route_pages sha ps digest root path seen = []"
      by (subst route_pages.simps) (cases root; cases "read_page sha ps seen (the root)"; simp)
    then show ?thesis by simp
  qed
qed

lemma pages_read_read: "set (pages_read sha ps root t) \<subseteq> set ps"
proof -
  let ?key = "tuple_text t"
  have "set (case lookup_loop sha ps ?key (sha ?key) root [] [] None of Inr (Some (Paged h)) \<Rightarrow> (case collect sha ps 64 [] h [] of
      Inr (_, seen) \<Rightarrow> pages_at sha ps seen | Inl _ \<Rightarrow> []) | _ \<Rightarrow> []) \<subseteq> set ps"
    by (auto split: sum.splits option.splits members.splits dest: subsetD [OF pages_at_read])
  with route_pages_read [of sha ps "sha ?key" root "[]" "[]"] show ?thesis by (simp add: pages_read_def Let_def)
qed

section \<open>The pages that are kept\<close>

definition present :: "(string \<Rightarrow> hash) \<Rightarrow> page_store \<Rightarrow> hash \<Rightarrow> bool" where
  "present sha ps h \<longleftrightarrow> find (\<lambda>p. page_hash sha p = h) ps \<noteq> None"

text \<open>A set of hashes that has every page its pages refer to.\<close>

definition closed_under_references :: "(string \<Rightarrow> hash) \<Rightarrow> page_store \<Rightarrow> hash set \<Rightarrow> hash set \<Rightarrow> bool" where
  "closed_under_references sha ps R T \<longleftrightarrow> (\<forall>h \<in> R. \<forall>p. find (\<lambda>p. page_hash sha p = h) ps = Some p
     \<longrightarrow> (\<forall>r \<in> set (references p). present sha ps r \<longrightarrow> r \<in> R \<union> T))"

lemma keep_reaches: "h \<in> set kept \<or> h \<in> set todo \<and> present sha ps h \<Longrightarrow> h \<in> set (keep sha ps todo kept)"
proof (induction sha ps todo kept rule: keep.induct)
  case (2 sha ps g todo kept)
  consider (seen) "g \<in> set kept" | (lost) "g \<notin> set kept" "find (\<lambda>p. page_hash sha p = g) ps = None"
    | (found) p where "g \<notin> set kept" "find (\<lambda>p. page_hash sha p = g) ps = Some p" by (cases "find (\<lambda>p. page_hash sha p = g) ps") auto
  then show ?case
  proof cases
    case seen
    with 2(1) [OF seen] 2(4) show ?thesis by auto
  next
    case lost
    then have "h = g \<Longrightarrow> \<not> present sha ps h" by (simp add: present_def)
    with 2(2) [OF lost] 2(4) lost show ?thesis by auto
  next
    case found
    with 2(3) [OF found] 2(4) show ?thesis by auto
  qed
qed simp

lemma keep_closed:
  "closed_under_references sha ps (set kept) (set todo) \<Longrightarrow> closed_under_references sha ps (set (keep sha ps todo kept)) {}"
proof (induction sha ps todo kept rule: keep.induct)
  case (2 sha ps h todo kept)
  consider (seen) "h \<in> set kept" | (lost) "h \<notin> set kept" "find (\<lambda>p. page_hash sha p = h) ps = None"
    | (found) p where "h \<notin> set kept" "find (\<lambda>p. page_hash sha p = h) ps = Some p" by (cases "find (\<lambda>p. page_hash sha p = h) ps") auto
  then show ?case
  proof cases
    case seen
    then have "closed_under_references sha ps (set kept) (set todo)" using 2(4) by (auto simp: closed_under_references_def)
    then show ?thesis using 2(1) [OF seen] seen by simp
  next
    case lost
    then have "\<not> present sha ps h" by (simp add: present_def)
    then have "closed_under_references sha ps (set kept) (set todo)" using 2(4) unfolding closed_under_references_def list.set by blast
    then show ?thesis using 2(2) [OF lost] lost by simp
  next
    case found
    have "closed_under_references sha ps (set (kept @ [h])) (set (references p @ todo))"
      using 2(4) found(2) by (auto simp: closed_under_references_def)
    then show ?thesis using 2(3) [OF found] found by simp
  qed
qed simp

lemma find_filter:
  assumes "\<And>x. P x \<Longrightarrow> Q x" shows "find P (filter Q xs) = find P xs"
  using assms by (induction xs) auto

lemma kept_reads:
  assumes "h \<in> R" shows "stored sha (filter (\<lambda>p. page_hash sha p \<in> R) ps) h = stored sha ps h"
proof -
  have "find (\<lambda>p. page_hash sha p = h) (filter (\<lambda>p. page_hash sha p \<in> R) ps) = find (\<lambda>p. page_hash sha p = h) ps"
    using assms by (intro find_filter) auto
  then show ?thesis by (simp add: stored_def readPage_def)
qed

lemma stored_present: "stored sha ps h = Some p \<Longrightarrow> find (\<lambda>p. page_hash sha p = h) ps = Some p"
  by (simp add: stored_Some)

lemma radix_present: "radix (stored sha ps) content dig key good path h A hs \<Longrightarrow> present sha ps h"
  by (erule radix.cases) (simp_all add: present_def stored_present)

lemma kept_radix:
  assumes "radix (stored sha ps) content dig key good path h A hs" and "closed_under_references sha ps R {}" and "h \<in> R"
    and refs: "\<And>p xs n. content p = Some (xs, Some n) \<Longrightarrow> n \<in> set (references p)"
  shows "radix (stored sha (filter (\<lambda>p. page_hash sha p \<in> R) ps)) content dig key good path h A hs \<and> set hs \<subseteq> R"
  using assms(1, 3)
proof (induction rule: radix.induct)
  case (page h p xs path)
  have "stored sha (filter (\<lambda>p. page_hash sha p \<in> R) ps) h = Some p" using page by (simp only: kept_reads)
  then have "radix (stored sha (filter (\<lambda>p. page_hash sha p \<in> R) ps)) content dig key good path h (set xs) [h]"
    by (rule radix.page [where p = p]) (use page.hyps in \<open>assumption | blast\<close>)+
  with page.prems show ?case by simp
next
  case (chain h p xs n path A hs)
  have "present sha ps n" by (rule radix_present [OF chain.hyps(7)])
  then have n: "n \<in> R" using assms(2) chain.prems stored_present [OF chain.hyps(1)] refs [OF chain.hyps(2)] by (auto simp: closed_under_references_def)
  have "stored sha (filter (\<lambda>p. page_hash sha p \<in> R) ps) h = Some p" using chain.hyps(1) chain.prems by (simp only: kept_reads)
  then have "radix (stored sha (filter (\<lambda>p. page_hash sha p \<in> R) ps)) content dig key good path h (set xs \<union> A) (h # hs)"
    by (rule radix.chain [where p = p and n = n]) (use chain.hyps conjunct1 [OF chain.IH [OF n]] in \<open>assumption | blast\<close>)+
  with conjunct2 [OF chain.IH [OF n]] chain.prems show ?case by simp
next
  case (branch h cs path A H)
  have child: "c \<in> R" if "(route, c) \<in> set cs" for route c
  proof -
    have "present sha ps c" by (rule radix_present [OF branch.hyps(3) [OF that]])
    moreover have "c \<in> set (references (Branch cs))" using that by (force simp: references_def)
    ultimately show ?thesis using assms(2) branch.prems stored_present [OF branch.hyps(1)] by (auto simp: closed_under_references_def)
  qed
  have "radix (stored sha (filter (\<lambda>p. page_hash sha p \<in> R) ps)) content dig key good path h (\<Union>(A ` fst ` set cs)) (h # concat (map (H \<circ> fst) cs))"
  proof (rule radix.branch)
    show "stored sha (filter (\<lambda>p. page_hash sha p \<in> R) ps) h = Some (Branch cs)" using branch.hyps(1) branch.prems by (simp only: kept_reads)
  qed (use branch.hyps(2) branch.IH child in blast)+
  moreover have "set (H (fst rc)) \<subseteq> R" if "rc \<in> set cs" for rc using branch.IH [of "fst rc" "snd rc"] child [of "fst rc" "snd rc"] that by simp
  ultimately show ?case using branch.prems by auto
qed

lemma radix_element:
  "radix rd content dig key good path h A hs \<Longrightarrow> x \<in> A
    \<Longrightarrow> \<exists>g p xs nxt. g \<in> set hs \<and> rd g = Some p \<and> content p = Some (xs, nxt) \<and> x \<in> set xs"
proof (induction rule: radix.induct)
  case (page h p xs path)
  have "h \<in> set [h]" by simp
  with page show ?case by blast
next
  case (chain h p xs n path A hs)
  have "h \<in> set (h # hs)" "set hs \<subseteq> set (h # hs)" by auto
  with chain show ?case by blast
next
  case (branch h cs path A H)
  then obtain route c where rc: "(route, c) \<in> set cs" "x \<in> A route" by auto
  then have "set (H route) \<subseteq> set (h # concat (map (H \<circ> fst) cs))" by force
  with branch.IH [OF rc] show ?case by blast
qed

lemma references_pages:
  "content_group p = Some (xs, Some n) \<Longrightarrow> n \<in> set (references p)"
  "content_leaf p = Some (es, Some n) \<Longrightarrow> n \<in> set (references p)"
  "content_leaf p = Some (es, nxt) \<Longrightarrow> e \<in> set es \<Longrightarrow> le_ids e = Paged h \<Longrightarrow> h \<in> set (references p)"
proof -
  show "content_group p = Some (xs, Some n) \<Longrightarrow> n \<in> set (references p)" by (cases p rule: content_group.cases) auto
  show "content_leaf p = Some (es, Some n) \<Longrightarrow> n \<in> set (references p)" by (cases p) (auto simp: references_def)
  assume p: "content_leaf p = Some (es, nxt)" "e \<in> set es" "le_ids e = Paged h"
  then have "h \<in> set [h. Paged h \<leftarrow> map le_ids es]" by (force split: members.splits)
  with p(1) show "h \<in> set (references p)" by (cases p) (auto simp: references_def)
qed

text \<open>What the pages that are kept hold.\<close>

lemma kept_holds:
  assumes holds: "holds_index sha ps U root F" and closed: "closed_under_references sha ps R {}"
    and root: "\<And>h. root = Some h \<Longrightarrow> present sha ps h \<Longrightarrow> h \<in> R"
  shows "holds_index sha (filter (\<lambda>p. page_hash sha p \<in> R) ps) U root F"
proof -
  let ?kept = "filter (\<lambda>p. page_hash sha p \<in> R) ps"
  obtain A where A: "entries_opt sha ps [] root A" "represents_groups sha ps U A F" "\<And>t. F t \<noteq> {} \<Longrightarrow> t \<in> le_tuple ` A"
    using holds by (auto simp: holds_index_def)
  show ?thesis
  proof (cases root)
    case None
    with A show ?thesis by (intro holdsI [of _ _ _ A]) (auto simp: represents_groups_def)
  next
    case (Some h)
    then obtain hs where tree: "entries_at sha ps [] h A hs" using A(1) by auto
    have "h \<in> R" by (rule root [OF Some radix_present [OF tree]])
    from kept_radix [OF tree closed this references_pages(2)] have new: "entries_at sha ?kept [] h A hs" "set hs \<subseteq> R" by simp_all
    have "members_at sha ?kept (le_ids e) S" if e: "e \<in> A" "members_at sha ps (le_ids e) S" for e S
    proof (cases "le_ids e")
      case (Inline ids)
      with e(2) show ?thesis by (simp add: members_at_def)
    next
      case (Paged g)
      then obtain gs where group: "group_at sha ps [] g S gs" using e(2) by (auto simp: members_at_def)
      obtain h' p xs nxt where at_page: "h' \<in> set hs" "stored sha ps h' = Some p" "content_leaf p = Some (xs, nxt)" "e \<in> set xs"
        using radix_element [OF tree e(1)] by blast
      have "g \<in> set (references p)" by (rule references_pages(3) [OF at_page(3, 4) Paged])
      then have "g \<in> R" using closed at_page(1) new(2) stored_present [OF at_page(2)] radix_present [OF group]
        unfolding closed_under_references_def by blast
      then have "group_at sha ?kept [] g S gs"
        by (rule conjunct1 [OF kept_radix [OF group closed]]) (rule references_pages(1))
      with Paged show ?thesis by (auto simp: members_at_def)
    qed
    with A(2) have "represents_groups sha ?kept U A F" by (auto simp: represents_groups_def)
    with new(1) A(3) Some show ?thesis by (intro holdsI [of _ _ _ A]) auto
  qed
qed

end
