(* ===== verification/Index_Refinement.thy ===== *)
theory Index_Refinement
  imports Index_Cache Prune
begin

text \<open>
  The cache of the indexes against the store it serves: the changes a transaction prepares carry an
  index from the records before it to those after it, and every lookup, whatever happened to the
  cache before it, gives what a scan of the records gives.
\<close>

section \<open>The changes a transaction prepares\<close>

lemma in_concat: "x \<in> set (concat (map f xs)) \<longleftrightarrow> (\<exists>y. y \<in> set xs \<and> x \<in> set (f y))"
  by auto

definition deltas_of :: "index \<Rightarrow> (index \<times> index_delta) list \<Rightarrow> index_delta list" where
  "deltas_of index ds = [d. (other, d) \<leftarrow> ds, other = index]"

definition area_map :: "area \<Rightarrow> index \<Rightarrow> string list \<Rightarrow> id set" where
  "area_map area index t = set (index_ids area index t)"

text \<open>What was loaded of the staged messages and receipts is what the store holds of them.\<close>

definition loads_agree :: "view \<Rightarrow> bool" where
  "loads_agree v \<longleftrightarrow> (\<forall>key \<in> fst ` set (x_staged v). fst key = Message \<or> fst key = Receipt \<longrightarrow>
     base v key = (case map_of (x_loaded v) key of Some (Some e) \<Rightarrow> live e | _ \<Rightarrow> None))"

lemma loads_agreeD: "loads_agree v \<Longrightarrow> key \<in> fst ` set (x_staged v) \<Longrightarrow> fst key = Message \<or> fst key = Receipt
    \<Longrightarrow> base v key = (case map_of (x_loaded v) key of Some (Some e) \<Rightarrow> live e | _ \<Rightarrow> None)"
  unfolding loads_agree_def by (rule mp, rule bspec)

lemma record_keys_iff: "(index, t) \<in> set (record_keys k r) \<longleftrightarrow> index_kind index = k \<and> t \<in> set (index_keys index r)"
  by (auto simp: record_keys_def)

lemma apply_map_mem:
  assumes "\<And>d d'. d \<in> set ds \<Longrightarrow> d' \<in> set ds \<Longrightarrow> dl_tuple d = dl_tuple d' \<Longrightarrow> dl_id d = dl_id d' \<Longrightarrow> dl_operation d = dl_operation d'"
  shows "i \<in> apply_map F ds t \<longleftrightarrow> (\<exists>d \<in> set ds. dl_tuple d = t \<and> dl_id d = i \<and> dl_operation d = PutId)
    \<or> i \<in> F t \<and> \<not> (\<exists>d \<in> set ds. dl_tuple d = t \<and> dl_id d = i \<and> dl_operation d = RemoveId)"
  using assms
proof (induction ds rule: rev_induct)
  case Nil
  then show ?case by (simp add: apply_map_def)
next
  case (snoc d ds)
  have IH: "i \<in> apply_map F ds t \<longleftrightarrow> (\<exists>d \<in> set ds. dl_tuple d = t \<and> dl_id d = i \<and> dl_operation d = PutId)
    \<or> i \<in> F t \<and> \<not> (\<exists>d \<in> set ds. dl_tuple d = t \<and> dl_id d = i \<and> dl_operation d = RemoveId)"
    by (rule snoc.IH, rule snoc.prems) simp_all
  have last: "apply_map F (ds @ [d]) t = (if t = dl_tuple d then change (dl_operation d) (dl_id d) (apply_map F ds t) else apply_map F ds t)"
    by (simp add: apply_map_def)
  show ?case
  proof (cases "dl_tuple d = t \<and> dl_id d = i")
    case True
    have same: "dl_operation d' = dl_operation d" if "d' \<in> set ds" "dl_tuple d' = t" "dl_id d' = i" for d'
      using snoc.prems [of d' d] that True by simp
    have d: "dl_tuple d = t" "dl_id d = i" using True by simp_all
    show ?thesis
    proof (cases "dl_operation d")
      case PutId
      then show ?thesis by (simp add: last d)
    next
      case RemoveId
      then have "\<not> (\<exists>d \<in> set ds. dl_tuple d = t \<and> dl_id d = i \<and> dl_operation d = PutId)" using same by force
      with RemoveId show ?thesis by (simp add: last d)
    qed
  next
    case False
    then have "i \<in> apply_map F (ds @ [d]) t \<longleftrightarrow> i \<in> apply_map F ds t" unfolding last by (cases "dl_operation d") auto
    with IH False show ?thesis by auto
  qed
qed

fun entry_keys :: "index \<Rightarrow> entry \<Rightarrow> string list set" where
  "entry_keys index (Live r g) = set (index_keys index r)"
| "entry_keys index (Removed g) = {}"

definition old_keys :: "((kind \<times> id) \<times> entry option) list \<Rightarrow> index \<Rightarrow> kind \<times> id \<Rightarrow> string list set" where
  "old_keys loaded index key = (case map_of loaded key of Some (Some e) \<Rightarrow> entry_keys index e | _ \<Rightarrow> {})"

lemma listed_delta:
  "(index, d) \<in> set [(j, \<lparr>dl_tuple = t, dl_id = i, dl_operation = operation\<rparr>). (j, t) \<leftarrow> xs, (j, t) \<notin> set ys]
    \<longleftrightarrow> dl_id d = i \<and> dl_operation d = operation \<and> (index, dl_tuple d) \<in> set xs - set ys"
  by (cases d) auto

lemma some_delta:
  "(\<exists>d \<in> set ds. dl_tuple d = t \<and> dl_id d = i \<and> dl_operation d = operation) \<longleftrightarrow> \<lparr>dl_tuple = t, dl_id = i, dl_operation = operation\<rparr> \<in> set ds"
proof
  assume "\<exists>d \<in> set ds. dl_tuple d = t \<and> dl_id d = i \<and> dl_operation d = operation"
  then obtain d where "d \<in> set ds" "dl_tuple d = t" "dl_id d = i" "dl_operation d = operation" by blast
  moreover from this have "d = \<lparr>dl_tuple = t, dl_id = i, dl_operation = operation\<rparr>" by simp
  ultimately show "\<lparr>dl_tuple = t, dl_id = i, dl_operation = operation\<rparr> \<in> set ds" by simp
qed force

lemma prepared_delta:
  assumes "distinct (map fst staged)"
  shows "d \<in> set (deltas_of index (prepareDeltas loaded staged)) \<longleftrightarrow>
    (\<exists>e. map_of staged (index_kind index, dl_id d) = Some e
      \<and> (let old = old_keys loaded index (index_kind index, dl_id d); new = entry_keys index e
         in case dl_operation d of PutId \<Rightarrow> dl_tuple d \<in> new - old | RemoveId \<Rightarrow> dl_tuple d \<in> old - new))"
proof -
  have old: "(other, t) \<in> set (case map_of loaded (k, i) of Some (Some (Live r _)) \<Rightarrow> record_keys k r | _ \<Rightarrow> [])
      \<longleftrightarrow> index_kind other = k \<and> t \<in> old_keys loaded other (k, i)" for other t k i
  proof (cases "map_of loaded (k, i)")
    case (Some found)
    then show ?thesis
    proof (cases found)
      case (Some e)
      with \<open>map_of loaded (k, i) = Some found\<close> show ?thesis by (cases e) (simp_all add: old_keys_def record_keys_iff)
    qed (simp add: old_keys_def)
  qed (simp add: old_keys_def)
  have new: "(other, t) \<in> set (case e of Removed _ \<Rightarrow> [] | Live r _ \<Rightarrow> record_keys k r)
      \<longleftrightarrow> index_kind other = k \<and> t \<in> entry_keys other e" for other t k e
    by (cases e) (auto simp: record_keys_iff)
  have "d \<in> set (deltas_of index (prepareDeltas loaded staged)) \<longleftrightarrow> (index, d) \<in> set (prepareDeltas loaded staged)"
    by (auto simp: deltas_of_def)
  also have "\<dots> \<longleftrightarrow> (\<exists>k i e. ((k, i), e) \<in> set staged \<and> index_kind index = k \<and> dl_id d = i \<and>
      (dl_operation d = RemoveId \<and> dl_tuple d \<in> old_keys loaded index (k, i) - entry_keys index e
       \<or> dl_operation d = PutId \<and> dl_tuple d \<in> entry_keys index e - old_keys loaded index (k, i)))"
  proof -
    let ?part = "\<lambda>k i e. let oldKeys = (case map_of loaded (k, i) of Some (Some (Live r _)) \<Rightarrow> record_keys k r | _ \<Rightarrow> []);
         newKeys = (case e of Removed _ \<Rightarrow> [] | Live r _ \<Rightarrow> record_keys k r)
     in [(index, \<lparr>dl_tuple = t, dl_id = i, dl_operation = RemoveId\<rparr>). (index, t) \<leftarrow> oldKeys, (index, t) \<notin> set newKeys]
        @ [(index, \<lparr>dl_tuple = t, dl_id = i, dl_operation = PutId\<rparr>). (index, t) \<leftarrow> newKeys, (index, t) \<notin> set oldKeys]"
    have part: "(index, d) \<in> set (?part k i e) \<longleftrightarrow> index_kind index = k \<and> dl_id d = i \<and>
      (dl_operation d = RemoveId \<and> dl_tuple d \<in> old_keys loaded index (k, i) - entry_keys index e
       \<or> dl_operation d = PutId \<and> dl_tuple d \<in> entry_keys index e - old_keys loaded index (k, i))" for k i e
      unfolding Let_def set_append Un_iff listed_delta unfolding Diff_iff old new by blast
    have "prepareDeltas loaded staged = concat (map (\<lambda>((k, i), e). ?part k i e) staged)" by (simp add: prepareDeltas_def)
    then have "(index, d) \<in> set (prepareDeltas loaded staged) \<longleftrightarrow> (\<exists>k i e. ((k, i), e) \<in> set staged \<and> (index, d) \<in> set (?part k i e))"
      by (simp only: in_concat split_paired_Ex prod.case)
    then show ?thesis unfolding part .
  qed
  also have "\<dots> \<longleftrightarrow> (\<exists>e. map_of staged (index_kind index, dl_id d) = Some e
      \<and> (let old = old_keys loaded index (index_kind index, dl_id d); new = entry_keys index e
         in case dl_operation d of PutId \<Rightarrow> dl_tuple d \<in> new - old | RemoveId \<Rightarrow> dl_tuple d \<in> old - new))"
    using assms by (cases "dl_operation d") (auto simp: Let_def map_of_eq_Some_iff)
  finally show ?thesis .
qed

lemma delta_once:
  assumes "distinct (map fst staged)" and "d \<in> set (deltas_of index (prepareDeltas loaded staged))" "d' \<in> set (deltas_of index (prepareDeltas loaded staged))"
    and "dl_tuple d = dl_tuple d'" "dl_id d = dl_id d'"
  shows "dl_operation d = dl_operation d'"
  using assms(2 - 5) unfolding prepared_delta [OF assms(1)] Let_def by (cases "dl_operation d"; cases "dl_operation d'") auto

lemma area_map_store:
  assumes "distinct (map fst (st_state st))"
  shows "i \<in> area_map (st_state st) index t \<longleftrightarrow> (\<exists>r g. store_map st (index_kind index, i) = Some (r, g) \<and> t \<in> set (index_keys index r))"
  unfolding area_map_def set_index_ids [OF assms] by (auto simp: store_map_def)

lemma base_old:
  assumes "loads_agree v" "map_of (x_staged v) key = Some e" and "fst key = Message \<or> fst key = Receipt"
  shows "t \<in> old_keys (x_loaded v) index key \<longleftrightarrow> (\<exists>r g. base v key = Some (r, g) \<and> t \<in> set (index_keys index r))"
proof -
  have "key \<in> fst ` set (x_staged v)" using map_of_SomeD [OF assms(2)] by force
  then have "base v key = (case map_of (x_loaded v) key of Some (Some e) \<Rightarrow> live e | _ \<Rightarrow> None)"
    using loads_agreeD [OF assms(1)] assms(3) by blast
  then show ?thesis by (auto simp: old_keys_def split: option.splits) (metis entry.exhaust entry_keys.simps live.simps option.inject prod.inject option.distinct(1) empty_iff)+
qed

lemma prepared_exact:
  assumes ok: "view_ok v" and agree: "loads_agree v" and "commit v = Inr st"
  shows "apply_map (area_map (st_state (x_store v)) index) (deltas_of index (prepareDeltas (x_loaded v) (x_staged v))) t = area_map (st_state st) index t"
proof (rule set_eqI)
  fix i :: id
  let ?ds = "deltas_of index (prepareDeltas (x_loaded v) (x_staged v))" and ?key = "(index_kind index, i)"
  note delta = prepared_delta [OF view_distinct(1) [OF ok], of _ index "x_loaded v"]
  have after: "i \<in> area_map (st_state st) index t \<longleftrightarrow> (\<exists>r g. sees v ?key = Some (r, g) \<and> t \<in> set (index_keys index r))"
    using area_map_store [of st i index t] commit_law [OF assms(3) ok] by simp
  have before: "i \<in> area_map (st_state (x_store v)) index t \<longleftrightarrow> (\<exists>r g. base v ?key = Some (r, g) \<and> t \<in> set (index_keys index r))"
    using area_map_store [OF view_distinct(3) [OF ok]] by (simp add: base_def store_map_def)
  have op: "(\<exists>d \<in> set ?ds. dl_tuple d = t \<and> dl_id d = i \<and> dl_operation d = PutId) \<longleftrightarrow>
      (\<exists>e. map_of (x_staged v) ?key = Some e \<and> t \<in> entry_keys index e - old_keys (x_loaded v) index ?key)"
    "(\<exists>d \<in> set ?ds. dl_tuple d = t \<and> dl_id d = i \<and> dl_operation d = RemoveId) \<longleftrightarrow>
      (\<exists>e. map_of (x_staged v) ?key = Some e \<and> t \<in> old_keys (x_loaded v) index ?key - entry_keys index e)"
    unfolding some_delta delta by (simp_all add: Let_def)
  have mem: "i \<in> apply_map (area_map (st_state (x_store v)) index) ?ds t \<longleftrightarrow>
      (\<exists>d \<in> set ?ds. dl_tuple d = t \<and> dl_id d = i \<and> dl_operation d = PutId)
      \<or> i \<in> area_map (st_state (x_store v)) index t \<and> \<not> (\<exists>d \<in> set ?ds. dl_tuple d = t \<and> dl_id d = i \<and> dl_operation d = RemoveId)"
    by (rule apply_map_mem) (rule delta_once [OF view_distinct(1) [OF ok]])
  show "i \<in> apply_map (area_map (st_state (x_store v)) index) ?ds t \<longleftrightarrow> i \<in> area_map (st_state st) index t"
  proof (cases "map_of (x_staged v) ?key")
    case None
    then show ?thesis unfolding mem op after before by (simp add: sees_def)
  next
    case (Some e)
    have "(\<exists>r g. sees v ?key = Some (r, g) \<and> t \<in> set (index_keys index r)) \<longleftrightarrow> t \<in> entry_keys index e"
      using Some by (cases e) (auto simp: sees_def)
    moreover have "index_kind index = Message \<or> index_kind index = Receipt" by (cases index) simp_all
    ultimately show ?thesis using Some base_old [OF agree Some, of t index] unfolding mem op after before by auto
  qed
qed

text \<open>
  The loads of a transaction agree as long as it loads no message or receipt it has put before. A
  transaction that reads these kinds one identifier at a time, as the services do, never does: it has
  to load such a record before it puts it.
\<close>

lemma agree_begin: "x_staged v = [] \<Longrightarrow> loads_agree v"
  by (simp add: loads_agree_def)

lemma agree_staged:
  assumes ok: "view_ok v" and dec: "loadedId k i v = Inr ()" and "k \<in> set STATE_KINDS" and agree: "loads_agree v"
    and w: "fst ` set (x_staged w) \<subseteq> insert (k, i) (fst ` set (x_staged v))" "x_loaded w = x_loaded v" "x_store w = x_store v"
  shows "loads_agree w"
proof -
  have new: "base v (k, i) = (case map_of (x_loaded v) (k, i) of Some (Some e) \<Rightarrow> live e | _ \<Rightarrow> None)" if "(k, i) \<notin> fst ` set (x_staged v)"
  proof (cases "map_of (x_loaded v) (k, i)")
    case None
    with dec have "declares v k" "k \<notin> set (x_exact v)" by (auto simp: loadedId_ok)
    with view_unloaded [OF ok this(1) assms(3) this(2) None] None show ?thesis by simp
  next
    case (Some found)
    show ?thesis
    proof (cases found)
      case None
      with view_absent [OF ok] Some show ?thesis by simp
    next
      case (Some e)
      with \<open>map_of (x_loaded v) (k, i) = Some found\<close> have loaded: "map_of (x_loaded v) (k, i) = Some (Some e)" by simp
      with view_no_removed [OF ok] obtain r' g' where e: "e = Live r' g'" by (cases e) auto
      have "map_of (x_staged v) (k, i) = None" using that by (simp add: map_of_eq_None_iff)
      with view_loaded [OF ok loaded [unfolded e]] loaded e show ?thesis by simp
    qed
  qed
  have same: "base w = base v" by (simp add: base_def w(3) fun_eq_iff)
  show ?thesis unfolding loads_agree_def
  proof (intro ballI impI)
    fix key assume staged: "key \<in> fst ` set (x_staged w)" and kind: "fst key = Message \<or> fst key = Receipt"
    have "key \<in> insert (k, i) (fst ` set (x_staged v))" by (rule subsetD [OF w(1) staged])
    then consider "key \<in> fst ` set (x_staged v)" | "key = (k, i)" "(k, i) \<notin> fst ` set (x_staged v)" by (cases "key \<in> fst ` set (x_staged v)") auto
    then show "base w key = (case map_of (x_loaded w) key of Some (Some e) \<Rightarrow> live e | _ \<Rightarrow> None)"
    proof cases
      case 1
      from loads_agreeD [OF agree this kind] show ?thesis unfolding same w(2) .
    next
      case 2
      with new show ?thesis unfolding same w(2) by simp
    qed
  qed
qed

lemma agree_load:
  assumes "load_t k i v = Inr (found, w)" and "loads_agree v"
    and "k = Message \<or> k = Receipt \<Longrightarrow> map_of (x_loaded v) (k, i) = None \<Longrightarrow> (k, i) \<notin> fst ` set (x_staged v)"
  shows "loads_agree w"
proof (cases "map_of (x_loaded v) (k, i)")
  case None
  then obtain e where w: "w = v\<lparr>x_loaded := AList.update (k, i) e (x_loaded v)\<rparr>"
    using assms(1) by (auto simp: load_t_def bind_r_eq_Inr Let_def)
  have "base w key = (case map_of (x_loaded w) key of Some (Some e) \<Rightarrow> live e | _ \<Rightarrow> None)"
    if key: "key \<in> fst ` set (x_staged v)" "fst key = Message \<or> fst key = Receipt" for key
  proof -
    have "key \<noteq> (k, i)"
    proof
      assume "key = (k, i)"
      with key assms(3) [OF _ None] show False by simp
    qed
    then have "map_of (x_loaded w) key = map_of (x_loaded v) key" by (simp add: w update_conv)
    then show ?thesis using loads_agreeD [OF assms(2) key] by (simp add: w)
  qed
  then show ?thesis by (simp add: loads_agree_def w)
next
  case (Some e)
  then have "w = v" using assms(1) by (auto simp: load_t_def bind_r_eq_Inr)
  with assms(2) show ?thesis by simp
qed

text \<open>Messages and receipts are declared as exact kinds, or not at all.\<close>

definition indexed_exact :: "kind list option \<Rightarrow> kind list \<Rightarrow> bool" where
  "indexed_exact kinds exactKinds \<longleftrightarrow> (case kinds of None \<Rightarrow> False
     | Some ks \<Rightarrow> (\<forall>k \<in> {Message, Receipt}. k \<in> set ks \<longrightarrow> k \<in> set exactKinds))"

lemma agree_step:
  assumes "tx_step v w" and ok: "view_ok v" and agree: "loads_agree v" and exact: "indexed_exact (x_wanted v) (x_exact v)"
  shows "loads_agree w"
  using assms(1)
proof cases
  case (load k i x)
  then have dec: "declares v k" by (auto simp: load_t_def read_entry_def bind_r_eq_Inr declared_ok Let_def split: if_splits)
  have "(k, i) \<notin> fst ` set (x_staged v)" if "k = Message \<or> k = Receipt" "map_of (x_loaded v) (k, i) = None"
  proof -
    have "k \<in> set (x_exact v)" using exact that(1) dec by (auto simp: indexed_exact_def declares_def split: option.splits)
    with view_exact [OF ok this] that(2) show ?thesis by (auto simp: map_of_eq_None_iff)
  qed
  with agree_load [OF load(1) agree] show ?thesis by blast
next
  case (next_id label x)
  then show ?thesis using agree by (auto simp: next_id_def loads_agree_def base_def)
next
  case (put k i r eg g)
  then have dec: "loadedId k i v = Inr ()" and w: "w = v\<lparr>x_issued := Suc (x_issued v), x_staged := AList.update (k, i) (Live r g) (x_staged v)\<rparr>"
    by (auto simp: put_t_def bind_r_eq_Inr next_id_def split: if_splits)
  show ?thesis by (rule agree_staged [OF ok dec put(2) agree]) (auto simp: w dom_update)
next
  case (remove k i eg u)
  then have dec: "loadedId k i v = Inr ()" by (auto simp: remove_t_def bind_r_eq_Inr)
  obtain area where w: "w = v\<lparr>x_staged := area\<rparr>" "fst ` set area \<subseteq> insert (k, i) (fst ` set (x_staged v))"
  proof -
    have "fst ` set (AList.delete (k, i) (x_staged v)) \<subseteq> insert (k, i) (fst ` set (x_staged v))" by (auto simp: AList.delete_eq)
    moreover have "fst ` set (AList.update (k, i) e (x_staged v)) \<subseteq> insert (k, i) (fst ` set (x_staged v))" for e by (simp add: dom_update)
    moreover obtain area where "w = v\<lparr>x_staged := area\<rparr>" "area = AList.delete (k, i) (x_staged v) \<or> (\<exists>e. area = AList.update (k, i) e (x_staged v))"
      using remove(1) by (auto simp: remove_t_def bind_r_eq_Inr split: if_splits option.splits entry.splits)
    ultimately show thesis using that by blast
  qed
  show ?thesis by (rule agree_staged [OF ok dec remove(2) agree]) (use w in simp_all)
next
  case (append e u)
  then show ?thesis using agree by (auto simp: append_t_def bind_r_eq_Inr loads_agree_def base_def)
qed

lemma agree_steps:
  assumes "tx_step\<^sup>*\<^sup>* v w" and "view_ok v" and "typed_map (sees v)" and "loads_agree v" and "indexed_exact (x_wanted v) (x_exact v)"
  shows "loads_agree w"
  using assms
proof (induction rule: rtranclp_induct)
  case (step u w)
  from tx_steps_keep [OF step(1, 4, 5)] have "view_ok u" "same_frame v u" by auto
  with agree_step [OF step(2)] step show ?case by (simp add: same_frame_def)
qed

text \<open>One transaction: what it saw and staged last, and the store its commit leaves.\<close>

definition transacts :: "kind list option \<Rightarrow> kind list \<Rightarrow> store \<Rightarrow> view \<Rightarrow> store \<Rightarrow> bool" where
  "transacts kinds exactKinds st v st' \<longleftrightarrow> (\<exists>v0. begin_view st kinds exactKinds = Inr v0 \<and> tx_step\<^sup>*\<^sup>* v0 v \<and> commit v = Inr st')"

lemma transacts_law:
  assumes run: "transacts kinds exactKinds st v st'" and wf: "wf_store st"
  shows "view_ok v" "x_store v = st" "commit v = Inr st'" "wf_store st'" "st_workspaceId st' = st_workspaceId st"
    and "indexed_exact kinds exactKinds \<Longrightarrow> loads_agree v"
proof -
  obtain v0 where v0: "begin_view st kinds exactKinds = Inr v0" "tx_step\<^sup>*\<^sup>* v0 v" and st': "commit v = Inr st'"
    using run by (auto simp: transacts_def)
  note start = begin_view_law [OF v0(1) wf]
  have typed: "typed_map (sees v0)" using start wf by (simp add: wf_store_map)
  note law = tx_steps_keep [OF v0(2) _ typed]
  show ok: "view_ok v" and store: "x_store v = st" using law start by (auto simp: same_frame_def)
  show "commit v = Inr st'" by (rule st')
  show "st_workspaceId st' = st_workspaceId st" using commit_law [OF st' ok] store by simp
  show "loads_agree v" if "indexed_exact kinds exactKinds"
    using agree_steps [OF v0(2) _ typed agree_begin] start that by simp
  define callback where "callback = (\<lambda>u :: view. if u = v0 then Inr ((), v) else Inl (AccError DATA ''none''))"
  have lawful: "lawful callback" by (rule lawfulI) (use v0(2) in \<open>auto simp: callback_def split: if_splits\<close>)
  have "transaction kinds exactKinds callback st = Inr ((), st')"
    unfolding transaction_eq using v0(1) st' by (auto simp: callback_def)
  from transaction_keeps(1) [OF this lawful wf] show "wf_store st'" .
qed

section \<open>All indexes at once\<close>

lemma ensures_when_clean: "(clean sha ps \<Longrightarrow> ensures sha m ps P) \<Longrightarrow> grows m \<Longrightarrow> ensures sha m ps P"
  unfolding ensures_def grows_def using clean_suffix by blast

lemma ensures_map_from:
  assumes "\<And>x ps1. x \<in> set xs \<Longrightarrow> suffix ps ps1 \<Longrightarrow> clean sha ps1 \<Longrightarrow> short_pages ps1 \<Longrightarrow> ensures sha (f x) ps1 (Q x)"
    and grows: "\<And>x. grows (f x)" and kept: "\<And>x y ps1 ps2. Q x y ps1 \<Longrightarrow> clean sha ps2 \<Longrightarrow> suffix ps1 ps2 \<Longrightarrow> Q x y ps2" and "short_pages ps"
  shows "ensures sha (map_p f xs) ps (\<lambda>ys ps'. list_all2 (\<lambda>x y. Q x y ps') xs ys)"
  using assms(1, 4)
proof (induction xs arbitrary: ps)
  case Nil
  then show ?case by (auto intro: ensures_return)
next
  case (Cons x xs)
  have first: "ensures sha (f x) ps (Q x)"
    by (rule ensures_when_clean [OF Cons.prems(1) grows]) (use Cons.prems(2) in auto)
  show ?case unfolding map_p.simps
  proof (rule ensures_bind [OF first])
    fix y ps1 assume ps1: "suffix ps ps1" "clean sha ps1" "short_pages ps1" "Q x y ps1"
    have rest: "ensures sha (map_p f xs) ps1 (\<lambda>ys ps'. list_all2 (\<lambda>x y. Q x y ps') xs ys)"
    proof (rule Cons.IH [OF Cons.prems(1) ps1(3)])
      show "suffix ps ps2" if "suffix ps1 ps2" for ps2 using ps1(1) that by (rule suffix_order.trans)
    qed simp_all
    show "ensures sha (bind_p (map_p f xs) (\<lambda>ys. return_p (y # ys))) ps1 (\<lambda>ys ps'. list_all2 (\<lambda>x y. Q x y ps') (x # xs) ys)"
    proof (rule ensures_bind [OF rest grows_return])
      fix ys ps2 assume ps2: "suffix ps1 ps2" "clean sha ps2" "short_pages ps2" and "list_all2 (\<lambda>x y. Q x y ps2) xs ys"
      with kept [OF ps1(4) ps2(2, 1)] show "ensures sha (return_p (y # ys)) ps2 (\<lambda>ys ps'. list_all2 (\<lambda>x y. Q x y ps') (x # xs) ys)"
        by (auto intro!: ensures_return)
    qed
  qed (auto intro!: grows_intros grows)
qed

lemma roots_each:
  assumes "list_all2 (\<lambda>index y. fst y = index \<and> Q index (snd y)) INDEXES roots"
  shows "Q index (root_of roots index)"
proof -
  have fst: "map fst roots = INDEXES" using assms by (auto simp: list_all2_conv_all_nth intro!: nth_equalityI)
  have "index \<in> set INDEXES" by simp
  then obtain n where n: "n < length INDEXES" "INDEXES ! n = index" by (meson in_set_conv_nth)
  then have "fst (roots ! n) = index" "Q index (snd (roots ! n))" "n < length roots"
    using assms by (auto simp: list_all2_conv_all_nth)
  moreover from this have "(index, snd (roots ! n)) \<in> set roots" by (metis nth_mem prod.collapse)
  moreover have "distinct (map fst roots)" using fst by simp
  ultimately show ?thesis by (simp add: root_of_def)
qed

lemma grows_build [grows_intros]: "grows (build sha puts)"
  unfolding build_def by (auto intro!: grows_intros)

lemma grows_roots [grows_intros]: "grows (build_roots sha primaries)" "grows (apply_roots sha roots ds)"
  by (auto simp: build_roots_def apply_roots_def intro!: grows_intros)

lemma steady_roots: "steady sha (apply_roots sha roots ds)"
  unfolding apply_roots_def by (intro steady_map steady_bind steady_apply steady_return grows_intros)

lemma ensures_build_roots:
  assumes "hex_sha sha" and fair: "\<And>k i env index t. ((k, i), env) \<in> set primaries \<Longrightarrow> (index, t) \<in> set (record_keys k (v_record env)) \<Longrightarrow> fair sha U t i"
    and "short_pages ps"
  shows "ensures sha (build_roots sha primaries) ps (\<lambda>roots ps'. \<forall>index. holds_index sha ps' U (root_of roots index) (put_map (put_deltas index primaries)))"
proof -
  have puts: "dl_operation d = PutId \<and> fair sha U (dl_tuple d) (dl_id d)" if "d \<in> set (put_deltas index primaries)" for d index
    using that fair by (auto simp: put_deltas_def)
  have "ensures sha (build_roots sha primaries) ps (\<lambda>roots ps'. list_all2 (\<lambda>index y. fst y = index
      \<and> holds_index sha ps' U (snd y) (put_map (put_deltas index primaries))) INDEXES roots)"
    unfolding build_roots_def
  proof (rule ensures_map_from [where Q = "\<lambda>index y ps'. fst y = index \<and> holds_index sha ps' U (snd y) (put_map (put_deltas index primaries))"])
    show "ensures sha (bind_p (build sha (put_deltas index primaries)) (\<lambda>root. return_p (index, root))) ps1
        (\<lambda>y ps'. fst y = index \<and> holds_index sha ps' U (snd y) (put_map (put_deltas index primaries)))" if "short_pages ps1" for index ps1
      by (rule ensures_bind [OF ensures_build [OF assms(1) puts that] grows_return]) (auto intro: ensures_return)
  qed (use assms(3) in \<open>auto intro!: grows_intros intro: holds_suffix\<close>)
  then show ?thesis
  proof (rule ensures_weaken, intro allI)
    fix roots' ps' index
    assume "list_all2 (\<lambda>index y. fst y = index \<and> holds_index sha ps' U (snd y) (put_map (put_deltas index primaries))) INDEXES roots'"
    then show "holds_index sha ps' U (root_of roots' index) (put_map (put_deltas index primaries))"
      by (rule roots_each [where Q = "\<lambda>index root. holds_index sha ps' U root (put_map (put_deltas index primaries))"])
  qed
qed

lemma ensures_apply_roots:
  assumes fair: "\<And>index d. d \<in> set (deltas_of index ds) \<Longrightarrow> fair sha U (dl_tuple d) (dl_id d)"
    and holds: "\<And>index. holds_index sha ps U (roots index) (F index)" and "short_pages ps"
  shows "ensures sha (apply_roots sha roots ds) ps (\<lambda>roots' ps'. \<forall>index. holds_index sha ps' U (root_of roots' index) (apply_map (F index) (deltas_of index ds)))"
proof -
  have "ensures sha (apply_roots sha roots ds) ps (\<lambda>roots' ps'. list_all2 (\<lambda>index y. fst y = index
      \<and> holds_index sha ps' U (snd y) (apply_map (F index) (deltas_of index ds))) INDEXES roots')"
    unfolding apply_roots_def deltas_of_def [symmetric]
  proof (rule ensures_map_from [where Q = "\<lambda>index y ps'. fst y = index \<and> holds_index sha ps' U (snd y) (apply_map (F index) (deltas_of index ds))"])
    show "ensures sha (bind_p (apply_deltas sha (roots index) (deltas_of index ds)) (\<lambda>root. return_p (index, root))) ps1
        (\<lambda>y ps'. fst y = index \<and> holds_index sha ps' U (snd y) (apply_map (F index) (deltas_of index ds)))"
      if "suffix ps ps1" "clean sha ps1" "short_pages ps1" for index ps1
      by (rule ensures_bind [OF ensures_apply [OF fair holds_suffix [OF holds that(2, 1)] that(3)] grows_return]) (auto intro: ensures_return)
  qed (use assms(3) in \<open>auto intro!: grows_intros intro: holds_suffix\<close>)
  then show ?thesis
  proof (rule ensures_weaken, intro allI)
    fix roots' ps' index
    assume "list_all2 (\<lambda>index y. fst y = index \<and> holds_index sha ps' U (snd y) (apply_map (F index) (deltas_of index ds))) INDEXES roots'"
    then show "holds_index sha ps' U (root_of roots' index) (apply_map (F index) (deltas_of index ds))"
      by (rule roots_each [where Q = "\<lambda>index root. holds_index sha ps' U root (apply_map (F index) (deltas_of index ds))"])
  qed
qed

section \<open>The keys of a valid record\<close>

lemma assertIndexTuple_portable: "length t = length (index_fields index) \<Longrightarrow> list_all portable_id t \<Longrightarrow> assertIndexTuple index t = Inr ()"
  by (auto simp: assertIndexTuple_def each_r_ok bind_r_eq_Inr assertPortableId_id list_all_iff dest: set_zip_leftD)

lemma tuple_of_index: "assertIndexTuple index t = Inr () \<Longrightarrow> index_tuple t"
proof -
  assume ok: "assertIndexTuple index t = Inr ()"
  then have len: "length t = length (index_fields index)" by (auto simp: assertIndexTuple_def split: if_splits)
  have "portable_id x" if "x \<in> set t" for x
  proof -
    obtain label where "(x, label) \<in> set (zip t (index_fields index))" using \<open>x \<in> set t\<close> len by (metis in_set_impl_in_set_zip1)
    then show ?thesis using ok by (auto simp: assertIndexTuple_def each_r_ok bind_r_eq_Inr assertPortableId_def portable_id_def split: if_splits)
  qed
  then show ?thesis using len by (cases index) (auto simp: index_tuple_def list_all_iff)
qed

lemma decision_targets: "assertDecisionChange (Some (change_json d)) field = Inr () \<Longrightarrow> list_all portable_id (d_messageIds d)"
  by (auto simp: assertDecisionChange_def change_json_def bind_r_eq_Inr Let_def strings_json_def check_simps split: if_splits)

lemma receipt_states: "s \<in> {''queued'', ''offered'', ''retrieved'', ''acknowledged''} \<Longrightarrow> portable_id s"
  by (elim insertE emptyE; simp; code_simp)

lemma valid_keys:
  assumes "validate k r = Inr ()" and "(index, t) \<in> set (record_keys k r)"
  shows "assertIndexTuple index t = Inr ()"
proof (rule assertIndexTuple_portable)
  have key: "index_kind index = k" "t \<in> set (index_keys index r)" using assms(2) by (simp_all add: record_keys_iff)
  then show "length t = length (index_fields index)"
    by (cases index; cases r) (auto split: if_splits option.splits)
  show "list_all portable_id t"
  proof (cases r)
    case (MessageR m)
    then have "validate Message (MessageR m) = Inr ()" using key assms(1) by (cases index) auto
    then have "portable_id (m_workspaceId m)" "portable_id (m_fromParticipantId m)" "portable_id (m_clientMessageId m)"
      "pred_option (\<lambda>d. list_all portable_id (d_messageIds d)) (m_decisionChange m)"
      by (auto simp: validate_message_iff pred_option_def dest: decision_targets)
    then show ?thesis using key(2) by (cases index; cases "m_decisionChange m") (auto simp: MessageR list_all_iff split: if_splits)
  next
    case (ReceiptR rc)
    then have "validate Receipt (ReceiptR rc) = Inr ()" using key assms(1) by (cases index) auto
    then have "portable_id (r_workspaceId rc)" "portable_id (r_recipientParticipantId rc)" "portable_id (r_messageId rc)" "portable_id (r_state rc)"
      by (auto simp: validate_receipt_iff intro: receipt_states)
    then show ?thesis using key(2) by (cases index) (auto simp: ReceiptR split: if_splits)
  qed (use key in \<open>cases index; simp\<close>)+
qed

lemma valid_indexKeysFor: "validate k r = Inr () \<Longrightarrow> indexKeysFor k r = Inr (record_keys k r)"
  using valid_keys by (auto simp: indexKeysFor_def bind_r_eq_Inr each_r_ok)

section \<open>Rebuilding from the records\<close>

text \<open>
  The pages that are ever written: no two share a hash, and their identifiers are of ordinary length.
\<close>

definition page_space :: "(string \<Rightarrow> hash) \<Rightarrow> page set \<Rightarrow> bool" where
  "page_space sha P \<longleftrightarrow> hex_sha sha \<and> inj_on (page_hash sha) P \<and> (\<forall>p \<in> P. short_page p)"

text \<open>Records as the store keeps them: valid, of the workspace, with identifiers of ordinary length.\<close>

definition good_area :: "id set \<Rightarrow> id \<Rightarrow> area \<Rightarrow> bool" where
  "good_area U workspaceId area \<longleftrightarrow> distinct (map fst area) \<and> (\<forall>((k, i), env) \<in> set area. k = Message \<or> k = Receipt \<longrightarrow>
     workspace_of (v_record env) = Some workspaceId \<and> validate k (v_record env) = Inr () \<and> i \<in> U \<and> short_id i
     \<and> (\<forall>(index, t) \<in> set (record_keys k (v_record env)). list_all short_id t))"

lemma good_record:
  assumes "good_area U workspaceId area" and "((k, i), env) \<in> set area" and "k = Message \<or> k = Receipt"
  shows "workspace_of (v_record env) = Some workspaceId" "validate k (v_record env) = Inr ()"
    and "hex_sha sha \<Longrightarrow> inj_on sha U \<Longrightarrow> (index, t) \<in> set (record_keys k (v_record env)) \<Longrightarrow> fair sha U t i"
proof -
  have rec: "workspace_of (v_record env) = Some workspaceId \<and> validate k (v_record env) = Inr () \<and> i \<in> U \<and> short_id i
     \<and> (\<forall>(index, t) \<in> set (record_keys k (v_record env)). list_all short_id t)"
    using assms unfolding good_area_def by blast
  then show "workspace_of (v_record env) = Some workspaceId" "validate k (v_record env) = Inr ()" by simp_all
  show "fair sha U t i" if "hex_sha sha" "inj_on sha U" "(index, t) \<in> set (record_keys k (v_record env))"
  proof -
    have "list_all short_id t" using rec that(3) by blast
    moreover have "index_tuple t" using valid_keys [OF _ that(3)] rec tuple_of_index by blast
    ultimately show ?thesis using rec that by (simp add: fair_def)
  qed
qed

lemma map_r_Inr: "(\<And>x. x \<in> set xs \<Longrightarrow> f x = Inr (h x)) \<Longrightarrow> map_r f xs = Inr (map h xs)"
  by (induction xs) auto

lemma primaries_load:
  assumes "good_area U workspaceId (st_state st)"
  obtains primaries where "loadStateEnvelopes st (Some [Message, Receipt]) = Inr primaries"
    and "set primaries = {e \<in> set (st_state st). fst (fst e) = Message \<or> fst (fst e) = Receipt}"
proof -
  have list: "listState st k = Inr (list_keys (st_state st) k)" if "k = Message \<or> k = Receipt" for k
  proof -
    have "bind_r (validate k (v_record (snd e))) (\<lambda>_. Inr (fst e, snd e)) = Inr e" if e: "e \<in> set (list_keys (st_state st) k)" for e
    proof -
      obtain k' i env where e_eq: "e = ((k', i), env)" by (cases e) auto
      with e have "((k, i), env) \<in> set (st_state st)" "k' = k" by (auto simp: set_list_keys)
      with good_record(2) [OF assms this(1) \<open>k = Message \<or> k = Receipt\<close>] e_eq show ?thesis by simp
    qed
    then have "listState st k = Inr (map (\<lambda>e. e) (list_keys (st_state st) k))" unfolding listState_def
      by (intro map_r_Inr) (simp add: split_def)
    then show ?thesis by simp
  qed
  have "loadStateEnvelopes st (Some [Message, Receipt]) = Inr (list_keys (st_state st) Message @ list_keys (st_state st) Receipt)"
    by (simp add: loadStateEnvelopes_def STATE_KINDS_def list)
  then show thesis by (rule that) (auto simp: set_list_keys)
qed

lemma put_map_primaries:
  assumes "set primaries = {e \<in> set area. fst (fst e) = Message \<or> fst (fst e) = Receipt}"
  shows "put_map (put_deltas index primaries) = area_map area index"
proof (intro ext set_eqI)
  fix t i
  have kind: "index_kind index = Message \<or> index_kind index = Receipt" by (cases index) simp_all
  have "i \<in> put_map (put_deltas index primaries) t \<longleftrightarrow> (\<exists>k env. ((k, i), env) \<in> set primaries \<and> (index, t) \<in> set (record_keys k (v_record env)))"
    by (force simp: put_map_def put_deltas_def)
  also have "\<dots> \<longleftrightarrow> i \<in> area_map area index t"
    using kind unfolding assms record_keys_iff area_map_def index_ids_def by force
  finally show "i \<in> put_map (put_deltas index primaries) t \<longleftrightarrow> i \<in> area_map area index t" .
qed

definition built :: "(string \<Rightarrow> hash) \<Rightarrow> store \<Rightarrow> page set" where
  "built sha st = (case loadStateEnvelopes st (Some [Message, Receipt]) of Inl _ \<Rightarrow> {} | Inr primaries \<Rightarrow> set (snd (build_roots sha primaries [])))"

lemma rebuild_holds:
  assumes good: "good_area U workspaceId (st_state st)" and space: "page_space sha P" "built sha st \<subseteq> P" and U: "inj_on sha U"
  obtains m kept out ca1 where "rebuild sha workspaceId (loadStateEnvelopes st (Some [Message, Receipt])) active written ca = Inr (m, kept, out, ca1)"
    and "mf_workspaceId m = workspaceId" "mf_journalGeneration m = jv_generation active" "out \<longleftrightarrow> written = None"
    and "set kept \<subseteq> P" "\<And>index. holds_index sha kept U (mf_roots m index) (area_map (st_state st) index)"
    and "set (ca_pages ca1) \<subseteq> set kept \<union> set (ca_pages ca)" "ca_manifest ca1 = (if out then Manifest m else ca_manifest ca)"
    and "out \<Longrightarrow> set kept \<subseteq> set (ca_pages ca1)"
proof -
  obtain primaries where load: "loadStateEnvelopes st (Some [Message, Receipt]) = Inr primaries"
    and prim: "set primaries = {e \<in> set (st_state st). fst (fst e) = Message \<or> fst (fst e) = Receipt}" using primaries_load [OF good] .
  have hex: "hex_sha sha" using space by (simp add: page_space_def)
  have each: "check_primary workspaceId e = Inr ()" if "e \<in> set primaries" for e
  proof -
    obtain k i env where e: "e = ((k, i), env)" by (cases e) auto
    with that prim have here: "((k, i), env) \<in> set (st_state st)" "k = Message \<or> k = Receipt" by auto
    from good_record(1, 2) [OF good here] valid_indexKeysFor show ?thesis by (simp add: e check_primary_def thrown_def throw_if_def)
  qed
  obtain r ps where run: "build_roots sha primaries [] = (r, ps)" by (cases "build_roots sha primaries []")
  have "ensures sha (build_roots sha primaries) [] (\<lambda>roots ps'. \<forall>index. holds_index sha ps' U (root_of roots index) (put_map (put_deltas index primaries)))"
    by (rule ensures_build_roots [OF hex]) (use good_record(3) [OF good _ _ hex U] prim in auto)
  moreover have P: "set ps \<subseteq> P" using space(2) run load by (simp add: built_def)
  moreover have "clean sha ps" using space(1) P by (auto simp: page_space_def clean_def intro: inj_on_subset)
  ultimately obtain roots where roots: "r = Inr roots" "\<And>index. holds_index sha ps U (root_of roots index) (area_map (st_state st) index)"
    using run unfolding ensures_def put_map_primaries [OF prim] by blast
  let ?reachable = "keep sha ps (root_hashes roots) []"
  let ?kept = "filter (\<lambda>p. page_hash sha p \<in> set ?reachable) ps"
  let ?m = "\<lparr>mf_workspaceId = workspaceId, mf_journalGeneration = jv_generation active, mf_roots = root_of roots\<rparr>"
  let ?ca = "if written = None then \<lparr>ca_pages = ?kept @ ca_pages ca, ca_manifest = Manifest ?m\<rparr>
    else ca\<lparr>ca_pages := filter (\<lambda>p. p \<in> set (the written)) ?kept @ ca_pages ca\<rparr>"
  have whole: "rebuild sha workspaceId (loadStateEnvelopes st (Some [Message, Receipt])) active written ca = Inr (?m, ?kept, written = None, ?ca)"
  proof -
    have all_checked: "each_i (check_primary workspaceId) primaries = Inr ()" using each by simp
    show ?thesis by (cases written) (simp_all add: rebuild_def load thrown_def all_checked run roots(1) Let_def del: filter_filter each_i_ok)
  qed
  have holds: "holds_index sha ?kept U (mf_roots ?m index) (area_map (st_state st) index)" for index
  proof -
    have "h \<in> set ?reachable" if "root_of roots index = Some h" "present sha ps h" for h
    proof -
      have "(index, Some h) \<in> set roots" using that(1) by (auto simp: root_of_def split: option.splits dest: map_of_SomeD)
      then have "h \<in> set (root_hashes roots)" by (force simp: root_hashes_def)
      with that(2) show ?thesis by (intro keep_reaches) simp
    qed
    moreover have "closed_under_references sha ps (set ?reachable) {}"
      by (rule keep_closed) (simp add: closed_under_references_def)
    ultimately show ?thesis using kept_holds [OF roots(2) [of index]] by simp
  qed
  show thesis by (rule that [OF whole _ _ _ _ holds]) (use P in auto)
qed

section \<open>Looking up\<close>

lemma select_ids_cong: "set ids = set ids' \<Longrightarrow> set (select_ids staged index t ids) = set (select_ids staged index t ids')"
  by (induction staged rule: rev_induct) (auto simp: select_ids_def split: entry.split)

lemma distinct_select_ids: "distinct (select_ids staged index t ids)"
  by (induction staged rule: rev_induct) (auto simp: select_ids_def distinct_removeAll split: entry.split)

lemma select_cached_cong:
  assumes "set ids = set ids'" shows "select_cached staged index t verify ids = select_cached staged index t verify ids'"
proof -
  let ?xs = "select_ids staged index t ids" and ?ys = "select_ids staged index t ids'" and ?k = "\<lambda>i. locale_key (i @ ''.json'')"
  have "sort_key ?k ?xs = sort_key ?k ?ys"
    by (rule map_sorted_distinct_set_unique [where f = ?k])
      (use select_ids_cong [OF assms, of staged index t] distinct_select_ids in \<open>auto simp: inj_on_def distinct_map\<close>)
  then show ?thesis by (simp add: select_cached_def locale_sort_def)
qed

text \<open>What trees that hold the index answer; and what is answered over some of their pages.\<close>

lemma answer_whole:
  assumes "holds_index sha ps U (mf_roots m index) (area_map area index)" "hex_sha sha" "index_tuple t"
  shows "answer sha m ps index t staged verify = select_cached staged index t verify (index_ids area index t)"
proof -
  obtain ids where ids: "tree_lookup sha ps (mf_roots m index) t = Inr ids" "set ids = area_map area index t"
    using lookup_holds [OF assms] by blast
  with select_cached_cong [of ids "index_ids area index t"] show ?thesis by (simp add: answer_def area_map_def)
qed

definition describes :: "(string \<Rightarrow> hash) \<Rightarrow> page set \<Rightarrow> id set \<Rightarrow> manifest \<Rightarrow> area \<Rightarrow> bool" where
  "describes sha P U m area \<longleftrightarrow> (\<exists>pages. set pages \<subseteq> P \<and> (\<forall>index. holds_index sha pages U (mf_roots m index) (area_map area index)))"

lemma space_clean: "page_space sha P \<Longrightarrow> set ps \<subseteq> P \<Longrightarrow> clean sha ps \<and> short_pages ps"
  unfolding page_space_def clean_def list_all_iff by (auto intro: inj_on_subset)

lemma lookup_part:
  assumes "describes sha P U m area" "page_space sha P" "set ps \<subseteq> P" "index_tuple t"
  shows "(\<exists>reason. tree_lookup sha ps (mf_roots m index) t = unavailable reason)
    \<or> (\<exists>ids. tree_lookup sha ps (mf_roots m index) t = Inr ids \<and> set ids = area_map area index t)"
proof (cases "tree_lookup sha ps (mf_roots m index) t")
  case (Inl e)
  with fault_lookup [of sha ps "mf_roots m index" t] show ?thesis by (cases e) (auto simp: cache_fault_def)
next
  case (Inr ids)
  obtain pages where pages: "set pages \<subseteq> P" "holds_index sha pages U (mf_roots m index) (area_map area index)"
    using assms(1) by (auto simp: describes_def)
  have clean: "clean sha (ps @ pages)" using space_clean [OF assms(2), of "ps @ pages"] assms(3) pages(1) by simp
  then have "holds_index sha (ps @ pages) U (mf_roots m index) (area_map area index)" by (rule holds_suffix [OF pages(2)]) (simp add: suffix_def)
  then obtain ids' where ids': "tree_lookup sha (ps @ pages) (mf_roots m index) t = Inr ids'" "set ids' = area_map area index t"
    using lookup_holds assms(2, 4) by (force simp: page_space_def)
  have "covers sha ps (ps @ pages)" using clean by (simp add: covers_def)
  from covers_lookup [OF this Inr] ids' Inr show ?thesis by simp
qed

lemma answer_part:
  assumes "describes sha P U m area" "page_space sha P" "set ps \<subseteq> P" "index_tuple t"
  shows "(\<exists>reason. answer sha m ps index t staged verify = unavailable reason)
    \<or> answer sha m ps index t staged verify = select_cached staged index t verify (index_ids area index t)"
  using lookup_part [OF assms, of index]
proof (elim disjE exE conjE)
  fix ids assume "tree_lookup sha ps (mf_roots m index) t = Inr ids" "set ids = area_map area index t"
  with select_cached_cong [of ids "index_ids area index t"] show ?thesis by (simp add: answer_def area_map_def)
qed (simp add: answer_def)

text \<open>The selection of a transaction is its lookup over the records.\<close>

definition view_valid :: "view \<Rightarrow> bool" where
  "view_valid v \<longleftrightarrow> (\<forall>k i r g. sees v (k, i) = Some (r, g) \<longrightarrow> k = Message \<or> k = Receipt \<longrightarrow> validate k r = Inr ())"

definition ids_of :: "(id list \<times> view) res \<Rightarrow> id list ix" where
  "ids_of m = (case m of Inl e \<Rightarrow> Inl (Thrown e) | Inr (ids, _) \<Rightarrow> Inr ids)"

lemma verified_walk:
  assumes "\<And>i r g. i \<in> set is \<Longrightarrow> read_entry k i v = Inr (Some (r, g)) \<Longrightarrow> verify i = Inr True"
    and "\<And>i. i \<in> set is \<Longrightarrow> read_entry k i v = Inr None \<Longrightarrow> verify i = Inr False"
    and "\<And>i e. i \<in> set is \<Longrightarrow> read_entry k i v = Inl e \<Longrightarrow> verify i = Inl (Thrown e)"
  shows "foldr (\<lambda>i rest. bind_i (verify i) (\<lambda>found. bind_i rest (\<lambda>found_ids. Inr (if found then i # found_ids else found_ids)))) is (Inr [])
    = ids_of (bind_r (map_r (\<lambda>i. bind_r (read_entry k i v) (\<lambda>found. Inr (i, found))) is) (\<lambda>found. Inr ([i. (i, Some _) \<leftarrow> found], v)))"
  using assms
proof (induction "is")
  case Nil
  then show ?case by (simp add: ids_of_def)
next
  case (Cons i "is")
  have IH: "foldr (\<lambda>i rest. bind_i (verify i) (\<lambda>found. bind_i rest (\<lambda>found_ids. Inr (if found then i # found_ids else found_ids)))) is (Inr [])
    = ids_of (bind_r (map_r (\<lambda>i. bind_r (read_entry k i v) (\<lambda>found. Inr (i, found))) is) (\<lambda>found. Inr ([i. (i, Some _) \<leftarrow> found], v)))"
    by (rule Cons.IH) (use Cons.prems in auto)
  show ?case
  proof (cases "read_entry k i v")
    case (Inl e)
    with Cons.prems(3) [of i e] show ?thesis by (simp add: ids_of_def)
  next
    case (Inr found)
    show ?thesis
    proof (cases found)
      case None
      with Inr Cons.prems(2) [of i] IH show ?thesis
        by (cases "map_r (\<lambda>i. bind_r (read_entry k i v) (\<lambda>found. Inr (i, found))) is") (simp_all add: ids_of_def)
    next
      case (Some rg)
      obtain r g where "rg = (r, g)" by (cases rg)
      with Some Inr Cons.prems(1) [of i r g] IH show ?thesis
        by (cases "map_r (\<lambda>i. bind_r (read_entry k i v) (\<lambda>found. Inr (i, found))) is") (simp_all add: ids_of_def)
    qed
  qed
qed

lemma select_is_lookup:
  assumes ok: "view_ok v" "view_valid v" and tuple: "assertIndexTuple index t = Inr ()" and dec: "declared (index_kind index) v = Inr ()"
  shows "select_cached (x_staged v) index t (verify_in index t v) (index_ids (st_state (x_store v)) index t) = ids_of (lookup_t index t v)"
proof -
  let ?ids = "locale_sort (\<lambda>i. i @ ''.json'') (select_ids (x_staged v) index t (index_ids (st_state (x_store v)) index t))"
  have kind: "index_kind index \<in> set STATE_KINDS" "index_kind index = Message \<or> index_kind index = Receipt"
    by (cases index; simp add: STATE_KINDS_def)+
  have found: "verify_in index t v i = Inr True" if i: "i \<in> set ?ids" and read: "read_entry (index_kind index) i v = Inr (Some (r, g))" for i r g
  proof -
    have sees: "sees v (index_kind index, i) = Some (r, g)" using read_entry_law [OF read ok(1) kind(1)] by simp
    then have "t \<in> set (index_keys index r)"
      using i unfolding set_locale_sort set_select_ids [OF view_distinct(1) [OF ok(1)]] set_index_ids [OF view_distinct(3) [OF ok(1)]]
      by (auto simp: sees_def base_def split: option.splits entry.splits)
    moreover have "indexKeysFor (index_kind index) r = Inr (record_keys (index_kind index) r)"
      using sees ok(2) kind(2) valid_indexKeysFor unfolding view_valid_def by blast
    ultimately show ?thesis by (simp add: verify_in_def read thrown_def record_keys_iff)
  qed
  show ?thesis unfolding select_cached_def Let_def lookup_t_def tuple dec bind_r_Inr
    by (rule verified_walk) (rule found, assumption+, simp_all add: verify_in_def thrown_def)
qed

end
