(* ===== verification/Index_History.thy ===== *)
theory Index_History
  imports Index_Refinement
begin

text \<open>
  What can happen to a store and the cache of its indexes: commits, which the cache follows or not,
  records replaced or reclaimed without a commit, lookups by any instance, which may rebuild and
  publish, the loss or damage of cache files, and instances that come and go. After any of it a lookup
  is the scan of the records.

  A commit that the cache follows is one of a transaction that reads messages and receipts one
  identifier at a time or not at all (\<open>indexed_exact\<close>), as all of the services do (\<open>Index_Services\<close>). The
  interface admits others, and the last property here is what those can do to an index.
\<close>

section \<open>A store and its cache\<close>

text \<open>The instances are numbered; each has opened the store and keeps a memory of its own.\<close>

record served =
  sv_store :: store
  sv_generation :: nat
  sv_cache :: cache
  sv_memory :: "nat \<Rightarrow> memory"

abbreviation idle_at :: "nat \<Rightarrow> journal_view" where
  "idle_at g \<equiv> \<lparr>jv_idle = True, jv_generation = g\<rparr>"

definition sound_store :: "(string \<Rightarrow> hash) \<Rightarrow> page set \<Rightarrow> id set \<Rightarrow> store \<Rightarrow> bool" where
  "sound_store sha P U st \<longleftrightarrow> wf_store st \<and> good_area U (st_workspaceId st) (st_state st) \<and> built sha st \<subseteq> P"

text \<open>
  A commit moves the journal's generation; the cache then follows it, publishes or fails to, or is
  never reached, when the writer dies or the next one completes its journal. A single record is
  replaced without the journal, and a pass of prune moves the generation when it is to remove messages
  or receipts. What is outside the records, the ephemeral ones and the log, changes without it.
\<close>

inductive cache_step :: "(string \<Rightarrow> hash) \<Rightarrow> page set \<Rightarrow> id set \<Rightarrow> served \<Rightarrow> served \<Rightarrow> bool" for sha P U where
  committed: "transacts kinds exactKinds (sv_store s) v st \<Longrightarrow> indexed_exact kinds exactKinds \<Longrightarrow> sv_generation s < g
    \<Longrightarrow> sound_store sha P U st
    \<Longrightarrow> cache_commit sha (st_workspaceId st) (idle_at (sv_generation s)) (idle_at g) (prepareDeltas (x_loaded v) (x_staged v)) written (sv_cache s) = (res, ca)
    \<Longrightarrow> set (ca_pages ca) \<subseteq> P \<Longrightarrow> cache_step sha P U s (s\<lparr>sv_store := st, sv_generation := g, sv_cache := ca\<rparr>)"
| interrupted: "transacts kinds exactKinds (sv_store s) v st \<Longrightarrow> sv_generation s < g \<Longrightarrow> sound_store sha P U st
    \<Longrightarrow> cache_step sha P U s (s\<lparr>sv_store := st, sv_generation := g\<rparr>)"
| replaced: "transacts kinds exactKinds (sv_store s) v st \<Longrightarrow> single_record v \<Longrightarrow> sound_store sha P U st
    \<Longrightarrow> cache_step sha P U s (s\<lparr>sv_store := st\<rparr>)"
| pruned: "fst (reclaimStateRecords stop es (sv_store s)) = st \<Longrightarrow> sound_store sha P U st \<Longrightarrow> sv_generation s \<le> g
    \<Longrightarrow> list_ex (\<lambda>e. fst (fst e) = Message \<or> fst (fst e) = Receipt) es \<longrightarrow> sv_generation s < g
    \<Longrightarrow> cache_step sha P U s (s\<lparr>sv_store := st, sv_generation := g\<rparr>)"
| elsewhere: "st_state st = st_state (sv_store s) \<Longrightarrow> st_workspaceId st = st_workspaceId (sv_store s) \<Longrightarrow> sound_store sha P U st
    \<Longrightarrow> cache_step sha P U s (s\<lparr>sv_store := st\<rparr>)"
| looked_up: "x_store v = sv_store s \<Longrightarrow> lookupIndex sha index t (idle_at (sv_generation s)) written v (sv_cache s, sv_memory s n) = (res, ca, mem)
    \<Longrightarrow> cache_step sha P U s (s\<lparr>sv_cache := ca, sv_memory := (sv_memory s)(n := mem)\<rparr>)"
| damaged: "set (ca_pages ca) \<subseteq> P \<Longrightarrow> ca_manifest ca \<in> {No_manifest, Garbled, ca_manifest (sv_cache s)} \<Longrightarrow> cache_step sha P U s (s\<lparr>sv_cache := ca\<rparr>)"
| restarted: "cache_step sha P U s (s\<lparr>sv_memory := (sv_memory s)(n := no_memory)\<rparr>)"

inductive cache_reachable :: "(string \<Rightarrow> hash) \<Rightarrow> page set \<Rightarrow> id set \<Rightarrow> served \<Rightarrow> bool" for sha P U where
  opened: "sound_store sha P U (sv_store s) \<Longrightarrow> ca_manifest (sv_cache s) = No_manifest \<Longrightarrow> set (ca_pages (sv_cache s)) \<subseteq> P
    \<Longrightarrow> sv_memory s = (\<lambda>_. no_memory) \<Longrightarrow> cache_reachable sha P U s"
| next_step: "cache_reachable sha P U s \<Longrightarrow> cache_step sha P U s s' \<Longrightarrow> cache_reachable sha P U s'"

section \<open>The invariant\<close>

definition manifest_ok :: "(string \<Rightarrow> hash) \<Rightarrow> page set \<Rightarrow> id set \<Rightarrow> served \<Rightarrow> bool" where
  "manifest_ok sha P U s \<longleftrightarrow> (\<forall>m. ca_manifest (sv_cache s) = Manifest m \<longrightarrow> mf_workspaceId m = st_workspaceId (sv_store s)
     \<longrightarrow> mf_journalGeneration m \<le> sv_generation s
       \<and> (mf_journalGeneration m = sv_generation s \<longrightarrow> describes sha P U m (st_state (sv_store s))))"

definition memory_ok :: "(string \<Rightarrow> hash) \<Rightarrow> page set \<Rightarrow> id set \<Rightarrow> nat \<Rightarrow> area \<Rightarrow> memory \<Rightarrow> bool" where
  "memory_ok sha P U now area mem \<longleftrightarrow>
     (\<forall>g m ps. me_validated mem = Some (g, m, ps) \<longrightarrow> set ps \<subseteq> P \<and> g \<le> now \<and> (g = now \<longrightarrow> describes sha P U m area))
   \<and> (\<forall>g m ps. me_unpublished mem = Some (g, m, ps) \<longrightarrow> g \<le> now
       \<and> (g = now \<longrightarrow> (\<forall>index. holds_index sha ps U (mf_roots m index) (area_map area index))))"

definition cache_ok :: "(string \<Rightarrow> hash) \<Rightarrow> page set \<Rightarrow> id set \<Rightarrow> served \<Rightarrow> bool" where
  "cache_ok sha P U s \<longleftrightarrow> sound_store sha P U (sv_store s) \<and> set (ca_pages (sv_cache s)) \<subseteq> P \<and> manifest_ok sha P U s
     \<and> (\<forall>n. memory_ok sha P U (sv_generation s) (st_state (sv_store s)) (sv_memory s n))"

lemma cache_okD:
  assumes "cache_ok sha P U s"
  shows "wf_store (sv_store s)" "good_area U (st_workspaceId (sv_store s)) (st_state (sv_store s))" "built sha (sv_store s) \<subseteq> P"
    and "set (ca_pages (sv_cache s)) \<subseteq> P" "manifest_ok sha P U s"
    and "memory_ok sha P U (sv_generation s) (st_state (sv_store s)) (sv_memory s n)"
  using assms by (simp_all add: cache_ok_def sound_store_def)

lemma memory_ok_None [simp]: "memory_ok sha P U now area no_memory"
  by (simp add: memory_ok_def no_memory_def)

lemma memory_ok_later: "memory_ok sha P U now area mem \<Longrightarrow> now < later \<Longrightarrow> memory_ok sha P U later area' mem"
  by (fastforce simp: memory_ok_def)

lemma memory_ok_forget: "memory_ok sha P U now area mem \<Longrightarrow> memory_ok sha P U now area (mem\<lparr>me_validated := None\<rparr>)"
  by (simp add: memory_ok_def)

lemma memory_ok_same:
  "memory_ok sha P U now area mem \<Longrightarrow> (\<And>index. area_map area' index = area_map area index) \<Longrightarrow> memory_ok sha P U now area' mem"
  by (simp add: memory_ok_def describes_def)

lemma valid_manifest:
  assumes "valid sha workspaceId ca (idle_at g) = Inr (Some m)"
  shows "ca_manifest ca = Manifest m" "mf_workspaceId m = workspaceId" "mf_journalGeneration m = g"
  using assms by (auto simp: valid_def bind_i_eq_Inr split: manifest_file.splits)

lemma fault_valid: "cache_fault (valid sha workspaceId ca active)"
  unfolding valid_def by (auto intro!: fault_intros split: manifest_file.split option.split)

lemma fault_accepted: "cache_fault (accepted sha workspaceId ca active validated)"
  unfolding accepted_def Let_def by (auto intro!: fault_intros fault_valid split: option.split)

text \<open>The manifest that a lookup uses describes the records, and its remembered pages are pages.\<close>

lemma accepted_describes:
  assumes ok: "cache_ok sha P U s"
    and acc: "accepted sha (st_workspaceId (sv_store s)) (sv_cache s) (idle_at (sv_generation s)) (me_validated (sv_memory s n)) = Inr (m, ps)"
  shows "describes sha P U m (st_state (sv_store s))" "set ps \<subseteq> P"
proof -
  note ok' = cache_okD [OF ok]
  consider (known) "me_validated (sv_memory s n) = Some (sv_generation s, m, ps)"
    | (anew) "valid sha (st_workspaceId (sv_store s)) (sv_cache s) (idle_at (sv_generation s)) = Inr (Some m)" "ps = root_pages sha (ca_pages (sv_cache s)) m"
    using acc by (auto simp: accepted_def Let_def bind_i_eq_Inr split: option.splits if_splits prod.splits)
  then have "describes sha P U m (st_state (sv_store s)) \<and> set ps \<subseteq> P"
  proof cases
    case known
    with ok'(6) [of n] show ?thesis by (simp add: memory_ok_def)
  next
    case anew
    with valid_manifest [OF anew(1)] ok'(4, 5) root_pages_read [of sha "ca_pages (sv_cache s)" m] show ?thesis by (auto simp: manifest_ok_def)
  qed
  then show "describes sha P U m (st_state (sv_store s))" "set ps \<subseteq> P" by simp_all
qed

text \<open>Over a sound cache a lookup is the scan, and leaves a sound cache.\<close>

lemma rebuild_lookup_ok:
  assumes ok: "cache_ok sha P U s" and space: "page_space sha P" "inj_on sha U" and t: "index_tuple t"
    and mem: "memory_ok sha P U (sv_generation s) (st_state (sv_store s)) mem"
    and run: "rebuild_lookup sha (st_workspaceId (sv_store s)) index t (idle_at (sv_generation s)) staged verify
      (loadStateEnvelopes (sv_store s) (Some [Message, Receipt])) written (sv_cache s, mem) = (res, ca, mem')"
  shows "res = select_cached staged index t verify (index_ids (st_state (sv_store s)) index t)
    \<and> cache_ok sha P U (s\<lparr>sv_cache := ca, sv_memory := (sv_memory s)(n := mem')\<rparr>)"
proof -
  note ok' = cache_okD [OF ok]
  obtain m kept out ca1 where rebuilt: "rebuild sha (st_workspaceId (sv_store s)) (loadStateEnvelopes (sv_store s) (Some [Message, Receipt]))
        (idle_at (sv_generation s)) written (sv_cache s) = Inr (m, kept, out, ca1)"
    and m: "mf_workspaceId m = st_workspaceId (sv_store s)" "mf_journalGeneration m = sv_generation s" "out \<longleftrightarrow> written = None"
    and kept: "set kept \<subseteq> P" "\<And>index. holds_index sha kept U (mf_roots m index) (area_map (st_state (sv_store s)) index)"
    and ca1: "set (ca_pages ca1) \<subseteq> set kept \<union> set (ca_pages (sv_cache s))" "ca_manifest ca1 = (if out then Manifest m else ca_manifest (sv_cache s))"
    by (rule rebuild_holds [OF ok'(2) space(1) ok'(3) space(2), of "idle_at (sv_generation s)" written "sv_cache s"]) (blast intro: that | simp)+
  have res: "res = answer sha m kept index t staged verify" and ca: "ca = ca1"
    and mem': "mem' = mem\<lparr>me_unpublished := if out then None else Some (sv_generation s, m, kept)\<rparr>"
    using run by (auto simp: rebuild_lookup_def rebuilt)
  have "res = select_cached staged index t verify (index_ids (st_state (sv_store s)) index t)"
    unfolding res using space(1) t by (intro answer_whole [OF kept(2)]) (simp_all add: page_space_def)
  moreover have "set (ca_pages ca1) \<subseteq> P" using ca1(1) kept(1) ok'(4) by auto
  moreover have "describes sha P U m (st_state (sv_store s))" using kept by (auto simp: describes_def)
  then have "manifest_ok sha P U (s\<lparr>sv_cache := ca, sv_memory := (sv_memory s)(n := mem')\<rparr>)"
    using ok'(5) ca1(2) m by (auto simp: manifest_ok_def ca)
  moreover have "memory_ok sha P U (sv_generation s) (st_state (sv_store s)) mem'"
    using mem kept(2) by (simp add: memory_ok_def mem')
  ultimately show ?thesis using ok by (simp add: cache_ok_def ca)
qed

lemma fallback_known:
  assumes "memory_ok sha P U now area mem" and known: "me_unpublished mem = Some (now, m, ps)" and "hex_sha sha" "index_tuple t"
  shows "fallback_lookup sha workspaceId index t (idle_at now) staged verify loads written (ca, mem)
    = (select_cached staged index t verify (index_ids area index t), ca, mem)"
proof -
  have "holds_index sha ps U (mf_roots m index) (area_map area index)" using assms(1) by (simp add: memory_ok_def known)
  then have "answer sha m ps index t staged verify = select_cached staged index t verify (index_ids area index t)"
    using assms(3, 4) by (rule answer_whole)
  then show ?thesis by (simp add: fallback_lookup_def known)
qed

lemma fallback_lookup_ok:
  assumes ok: "cache_ok sha P U s" and space: "page_space sha P" "inj_on sha U" and t: "index_tuple t"
    and mem: "memory_ok sha P U (sv_generation s) (st_state (sv_store s)) mem"
    and run: "fallback_lookup sha (st_workspaceId (sv_store s)) index t (idle_at (sv_generation s)) staged verify
      (loadStateEnvelopes (sv_store s) (Some [Message, Receipt])) written (sv_cache s, mem) = (res, ca, mem')"
  shows "res = select_cached staged index t verify (index_ids (st_state (sv_store s)) index t)
    \<and> cache_ok sha P U (s\<lparr>sv_cache := ca, sv_memory := (sv_memory s)(n := mem')\<rparr>)"
proof (cases "\<exists>m ps. me_unpublished mem = Some (sv_generation s, m, ps)")
  case True
  then obtain m ps where known: "me_unpublished mem = Some (sv_generation s, m, ps)" by blast
  have "res = select_cached staged index t verify (index_ids (st_state (sv_store s)) index t)" "ca = sv_cache s" "mem' = mem"
    using run fallback_known [OF mem known _ t] space(1) by (simp_all add: page_space_def)
  with ok mem show ?thesis by (simp add: cache_ok_def manifest_ok_def)
next
  case False
  then have "rebuild_lookup sha (st_workspaceId (sv_store s)) index t (idle_at (sv_generation s)) staged verify
      (loadStateEnvelopes (sv_store s) (Some [Message, Receipt])) written (sv_cache s, mem) = (res, ca, mem')"
    using run by (auto simp: fallback_lookup_def split: option.splits if_splits)
  from rebuild_lookup_ok [OF ok space t mem this] show ?thesis .
qed

text \<open>How a lookup goes: from the manifest that is accepted, or from what the instance has beside it.\<close>

lemma cache_lookup_cases:
  assumes ok: "cache_ok sha P U s" and space: "page_space sha P" and t: "assertIndexTuple index t = Inr ()"
    and run: "cache_lookup sha (st_workspaceId (sv_store s)) index t (idle_at (sv_generation s)) staged verify loads written
      (sv_cache s, sv_memory s n) = (res, ca, mem)"
  obtains (found) m ps where
      "accepted sha (st_workspaceId (sv_store s)) (sv_cache s) (idle_at (sv_generation s)) (me_validated (sv_memory s n)) = Inr (m, ps)"
      "res = select_cached staged index t verify (index_ids (st_state (sv_store s)) index t)"
      "answer sha m (ps @ ca_pages (sv_cache s)) index t staged verify = res" "\<And>reason. res \<noteq> unavailable reason" "ca = sv_cache s"
      "mem = (sv_memory s n)\<lparr>me_validated := Some (sv_generation s, m, pages_read sha (ps @ ca_pages (sv_cache s)) (mf_roots m index) t @ ps)\<rparr>"
    | (missed) "fallback_lookup sha (st_workspaceId (sv_store s)) index t (idle_at (sv_generation s)) staged verify loads written
      (sv_cache s, (sv_memory s n)\<lparr>me_validated := None\<rparr>) = (res, ca, mem)"
proof (cases "accepted sha (st_workspaceId (sv_store s)) (sv_cache s) (idle_at (sv_generation s)) (me_validated (sv_memory s n))")
  case (Inl e)
  with fault_accepted have "\<exists>reason. e = IndexCacheUnavailable reason" by (cases e) (auto simp: cache_fault_def)
  with run Inl missed show thesis by (auto simp: cache_lookup_def t)
next
  case (Inr mps)
  obtain m ps where mps: "mps = (m, ps)" by (cases mps)
  note acc = Inr [unfolded mps]
  have sub: "set (ps @ ca_pages (sv_cache s)) \<subseteq> P" using accepted_describes [OF ok acc] cache_okD(4) [OF ok] by simp
  let ?res = "answer sha m (ps @ ca_pages (sv_cache s)) index t staged verify"
  show thesis
  proof (cases "\<exists>reason. ?res = unavailable reason")
    case True
    with run missed show thesis by (auto simp: cache_lookup_def t acc)
  next
    case False
    with answer_part [OF accepted_describes(1) [OF ok acc] space sub tuple_of_index [OF t], of index staged verify]
    have "?res = select_cached staged index t verify (index_ids (st_state (sv_store s)) index t)" by blast
    moreover have "res = ?res" "ca = sv_cache s" "mem = (sv_memory s n)\<lparr>me_validated :=
        Some (sv_generation s, m, pages_read sha (ps @ ca_pages (sv_cache s)) (mf_roots m index) t @ ps)\<rparr>"
      using run False by (auto simp: cache_lookup_def t acc Let_def split: sum.splits index_error.splits)
    ultimately show thesis using acc False by (intro found) auto
  qed
qed

lemma cache_lookup_ok:
  assumes ok: "cache_ok sha P U s" and space: "page_space sha P" "inj_on sha U" and t: "assertIndexTuple index t = Inr ()"
    and run: "cache_lookup sha (st_workspaceId (sv_store s)) index t (idle_at (sv_generation s)) staged verify
      (loadStateEnvelopes (sv_store s) (Some [Message, Receipt])) written (sv_cache s, sv_memory s n) = (res, ca, mem)"
  shows "res = select_cached staged index t verify (index_ids (st_state (sv_store s)) index t)
    \<and> cache_ok sha P U (s\<lparr>sv_cache := ca, sv_memory := (sv_memory s)(n := mem)\<rparr>)"
  using ok space(1) t run
proof (cases rule: cache_lookup_cases)
  case (found m ps)
  note acc = accepted_describes [OF ok found(1)]
  have "set (pages_read sha (ps @ ca_pages (sv_cache s)) (mf_roots m index) t @ ps) \<subseteq> P"
    using pages_read_read [of sha "ps @ ca_pages (sv_cache s)" "mf_roots m index" t] acc(2) cache_okD(4) [OF ok] by auto
  then have "memory_ok sha P U (sv_generation s) (st_state (sv_store s)) mem"
    using cache_okD(6) [OF ok, of n] acc(1) by (simp add: memory_ok_def found(6))
  with ok found(2, 5) show ?thesis by (simp add: cache_ok_def manifest_ok_def)
next
  case missed
  from fallback_lookup_ok [OF ok space tuple_of_index [OF t] memory_ok_forget [OF cache_okD(6) [OF ok]] this] show ?thesis .
qed

section \<open>Every step keeps it\<close>

lemma store_map_record:
  assumes "store_map st (k, i) = Some (r, g)"
  obtains env where "((k, i), env) \<in> set (st_state st)" "v_record env = r"
proof -
  obtain env where "map_of (st_state st) (k, i) = Some env" "v_record env = r" using assms by (auto simp: store_map_def)
  then show thesis using that map_of_SomeD by fast
qed

lemma prepared_fair:
  assumes ok: "view_ok v" and agree: "loads_agree v" and "commit v = Inr st"
    and good: "good_area U w (st_state (x_store v))" "good_area U w (st_state st)" and hex: "hex_sha sha" "inj_on sha U"
    and d: "d \<in> set (deltas_of index (prepareDeltas (x_loaded v) (x_staged v)))"
  shows "fair sha U (dl_tuple d) (dl_id d)"
proof -
  let ?k = "index_kind index"
  have kind: "?k = Message \<or> ?k = Receipt" by (cases index) simp_all
  obtain e where e: "map_of (x_staged v) (?k, dl_id d) = Some e"
    and change: "case dl_operation d of PutId \<Rightarrow> dl_tuple d \<in> entry_keys index e - old_keys (x_loaded v) index (?k, dl_id d)
      | RemoveId \<Rightarrow> dl_tuple d \<in> old_keys (x_loaded v) index (?k, dl_id d) - entry_keys index e"
    using d unfolding prepared_delta [OF view_distinct(1) [OF ok]] Let_def by blast
  have keyed: "fair sha U (dl_tuple d) (dl_id d)" if "store_map st' (?k, dl_id d) = Some (r, g)" "dl_tuple d \<in> set (index_keys index r)"
      "good_area U w (st_state st')" for st' r g
  proof -
    have there: "store_map st' (?k, dl_id d) = Some (r, g)" by (rule that(1))
    obtain env where env: "((?k, dl_id d), env) \<in> set (st_state st')" "v_record env = r" by (rule store_map_record [OF there])
    show ?thesis by (rule good_record(3) [OF that(3) env(1) kind hex, of index]) (simp add: record_keys_iff env(2) that(2))
  qed
  show ?thesis
  proof (cases "dl_operation d")
    case PutId
    then obtain r g where r: "e = Live r g" "dl_tuple d \<in> set (index_keys index r)" using change by (cases e) auto
    then have "store_map st (?k, dl_id d) = Some (r, g)" using commit_law [OF assms(3) ok] e by (simp add: sees_def)
    then show ?thesis using r(2) good(2) by (rule keyed)
  next
    case RemoveId
    then obtain r g where "base v (?k, dl_id d) = Some (r, g)" and r: "dl_tuple d \<in> set (index_keys index r)"
      using change base_old [OF agree e] kind by auto
    then have "store_map (x_store v) (?k, dl_id d) = Some (r, g)" by (simp add: base_def store_map_def)
    then show ?thesis using r good(1) by (rule keyed)
  qed
qed

lemma applied_describes:
  assumes old: "describes sha P U m area" and space: "page_space sha P" "set ps \<subseteq> P"
    and run: "apply_roots sha (mf_roots m) ds cached_pages = (Inr roots, ps)"
    and fair: "\<And>index d. d \<in> set (deltas_of index ds) \<Longrightarrow> fair sha U (dl_tuple d) (dl_id d)"
    and area: "\<And>index. apply_map (area_map area index) (deltas_of index ds) = area_map area' index"
    and m': "mf_roots m' = root_of roots"
  shows "describes sha P U m' area'"
proof -
  obtain pages where pages: "set pages \<subseteq> P" "\<And>index. holds_index sha pages U (mf_roots m index) (area_map area index)"
    using old by (auto simp: describes_def)
  have "set cached_pages \<subseteq> P" using set_mono_suffix [OF growsD [OF grows_roots(2) run]] space(2) by auto
  with pages(1) have sub: "set (cached_pages @ pages) \<subseteq> P" by simp
  note clean = space_clean [OF space(1) sub]
  have holds: "holds_index sha (cached_pages @ pages) U (mf_roots m index) (area_map area index)" for index
    by (rule holds_suffix [OF pages(2)]) (use clean in \<open>simp_all add: suffix_def\<close>)
  have "set ps \<union> set (cached_pages @ pages) \<subseteq> P" using sub space(2) by simp
  then have "inj_on (page_hash sha) (set ps \<union> set (cached_pages @ pages))"
    using space(1) inj_on_subset unfolding page_space_def by blast
  then obtain ps' where ps': "apply_roots sha (mf_roots m) ds (cached_pages @ pages) = (Inr roots, ps')" "set ps' = set ps \<union> set (cached_pages @ pages)"
    by (rule steady_run [OF steady_atD [OF steady_roots] run, rotated]) auto
  have "set ps' \<subseteq> P" using ps'(2) sub space(2) by simp
  moreover have "holds_index sha ps' U (root_of roots index) (area_map area' index)" for index
  proof -
    have "ensures sha (apply_roots sha (mf_roots m) ds) (cached_pages @ pages)
      (\<lambda>roots' ps'. \<forall>index. holds_index sha ps' U (root_of roots' index) (apply_map (area_map area index) (deltas_of index ds)))"
      by (rule ensures_apply_roots) (rule fair, assumption, rule holds, rule conjunct2 [OF clean])
    then show ?thesis using ps'(1) space_clean [OF space(1) \<open>set ps' \<subseteq> P\<close>] unfolding ensures_def area by auto
  qed
  ultimately show ?thesis unfolding describes_def m' by blast
qed

lemma committed_ok:
  assumes ok: "cache_ok sha P U s" and space: "page_space sha P" "inj_on sha U"
    and run: "transacts kinds exactKinds (sv_store s) v st" and exact: "indexed_exact kinds exactKinds" and g: "sv_generation s < g"
    and st: "sound_store sha P U st"
    and follows: "cache_commit sha (st_workspaceId st) (idle_at (sv_generation s)) (idle_at g) (prepareDeltas (x_loaded v) (x_staged v)) written (sv_cache s) = (res, ca)"
    and pages: "set (ca_pages ca) \<subseteq> P"
  shows "cache_ok sha P U (s\<lparr>sv_store := st, sv_generation := g, sv_cache := ca\<rparr>)"
proof -
  let ?s = "s\<lparr>sv_store := st, sv_generation := g, sv_cache := ca\<rparr>" and ?ds = "prepareDeltas (x_loaded v) (x_staged v)"
  note ok' = cache_okD [OF ok] and law = transacts_law [OF run cache_okD(1) [OF ok]]
  have ws: "st_workspaceId st = st_workspaceId (sv_store s)" and agree: "loads_agree v" using law(5, 6) exact by simp_all
  have behind: "manifest_ok sha P U ?s" if "ca_manifest ca = ca_manifest (sv_cache s)"
    unfolding manifest_ok_def
  proof (intro allI impI)
    fix m assume m: "ca_manifest (sv_cache ?s) = Manifest m" "mf_workspaceId m = st_workspaceId (sv_store ?s)"
    then have "mf_journalGeneration m \<le> sv_generation s" using ok'(5) that ws by (simp add: manifest_ok_def)
    with g show "mf_journalGeneration m \<le> sv_generation ?s \<and> (mf_journalGeneration m = sv_generation ?s \<longrightarrow> describes sha P U m (st_state (sv_store ?s)))" by simp
  qed
  have "manifest_ok sha P U ?s"
  proof (cases "valid sha (st_workspaceId st) (sv_cache s) (idle_at (sv_generation s))")
    case (Inl e)
    with follows have "ca = sv_cache s" by (cases e) (auto simp: cache_commit_def)
    then show ?thesis by (intro behind) simp
  next
    case (Inr found)
    show ?thesis
    proof (cases found)
      case None
      with Inr follows have "ca = sv_cache s" by (simp add: cache_commit_def)
      then show ?thesis by (intro behind) simp
    next
      case (Some m)
      note m = valid_manifest [OF Inr [unfolded Some]]
      obtain r ps where apply_run: "apply_roots sha (mf_roots m) ?ds (ca_pages (sv_cache s)) = (r, ps)" by (metis prod.exhaust)
      show ?thesis
      proof (cases "\<exists>roots. r = Inr roots \<and> written = None")
        case False
        then have "ca_manifest ca = ca_manifest (sv_cache s)"
          using follows by (auto simp: cache_commit_def Inr Some apply_run split: sum.splits index_error.splits option.splits)
        then show ?thesis by (rule behind)
      next
        case True
        then obtain roots where roots: "r = Inr roots" "written = None" by blast
        let ?m = "m\<lparr>mf_journalGeneration := g, mf_roots := root_of roots\<rparr>"
        have ca: "ca = \<lparr>ca_pages = ps, ca_manifest = Manifest ?m\<rparr>"
          using follows by (simp add: cache_commit_def Inr Some apply_run roots)
        have "describes sha P U m (st_state (sv_store s))" using ok'(5) m ws by (simp add: manifest_ok_def)
        then have "describes sha P U ?m (st_state st)"
        proof (rule applied_describes [OF _ space(1) _ apply_run [unfolded roots]])
          show "set ps \<subseteq> P" using pages ca by simp
          show "fair sha U (dl_tuple d) (dl_id d)" if "d \<in> set (deltas_of index ?ds)" for index d
            by (rule prepared_fair [where w = "st_workspaceId st", OF law(1) agree law(3) _ _ _ space(2) that])
              (use ok'(2) st space(1) ws law(2) in \<open>simp_all add: sound_store_def page_space_def\<close>)
          show "apply_map (area_map (st_state (sv_store s)) index) (deltas_of index ?ds) = area_map (st_state st) index" for index
            using prepared_exact [OF law(1) agree law(3), of index] law(2) by auto
        qed simp
        with m ws show ?thesis by (simp add: manifest_ok_def ca)
      qed
    qed
  qed
  moreover have "memory_ok sha P U g (st_state st) (sv_memory s n)" for n by (rule memory_ok_later [OF ok'(6) g])
  ultimately show ?thesis using st pages by (simp add: cache_ok_def)
qed

lemma single_same_index:
  assumes "view_ok v" "single_record v" "commit v = Inr st"
  shows "area_map (st_state st) index = area_map (st_state (x_store v)) index"
proof (intro ext set_eqI)
  fix t and i :: id
  have kind: "index_kind index = Message \<or> index_kind index = Receipt" by (cases index) simp_all
  have "map_of (x_staged v) (index_kind index, i) = None"
    using assms(2) kind by (auto simp: single_record_def split: list.splits entry.splits)
  then have "store_map st (index_kind index, i) = store_map (x_store v) (index_kind index, i)"
    using commit_law [OF assms(3, 1)] by (simp add: sees_def base_def store_map_def)
  then show "i \<in> area_map (st_state st) index t \<longleftrightarrow> i \<in> area_map (st_state (x_store v)) index t"
    using area_map_store view_distinct(3) [OF assms(1)] commit_law [OF assms(3, 1)] by simp
qed

lemma same_records_ok:
  assumes ok: "cache_ok sha P U s" and st: "sound_store sha P U st" "st_workspaceId st = st_workspaceId (sv_store s)"
    and same: "\<And>index. area_map (st_state st) index = area_map (st_state (sv_store s)) index"
  shows "cache_ok sha P U (s\<lparr>sv_store := st\<rparr>)"
proof -
  have "memory_ok sha P U (sv_generation s) (st_state st) (sv_memory s n)" for n
    by (rule memory_ok_same [OF cache_okD(6) [OF ok]]) (simp add: same)
  with cache_okD(4, 5) [OF ok] st same show ?thesis by (simp add: cache_ok_def manifest_ok_def describes_def)
qed

lemma later_ok:
  assumes ok: "cache_ok sha P U s" and st: "sound_store sha P U st" "st_workspaceId st = st_workspaceId (sv_store s)" and g: "sv_generation s < g"
  shows "cache_ok sha P U (s\<lparr>sv_store := st, sv_generation := g\<rparr>)"
proof -
  have "memory_ok sha P U g (st_state st) (sv_memory s n)" for n by (rule memory_ok_later [OF cache_okD(6) [OF ok] g])
  moreover have "mf_journalGeneration m < g" if "ca_manifest (sv_cache s) = Manifest m" "mf_workspaceId m = st_workspaceId (sv_store s)" for m
    using cache_okD(5) [OF ok] that g by (force simp: manifest_ok_def)
  ultimately show ?thesis using cache_okD(4) [OF ok] st by (force simp: cache_ok_def manifest_ok_def)
qed

lemma reclaimed_same:
  assumes "wf_store st" and "\<not> list_ex (\<lambda>e. fst (fst e) = Message \<or> fst (fst e) = Receipt) es"
  shows "area_map (st_state (fst (fold reclaim_entry es (st, n)))) index = area_map (st_state st) index"
  using assms
proof (induction es arbitrary: st n)
  case (Cons e es)
  obtain st1 n1 where one: "reclaim_entry e (st, n) = (st1, n1)" by (cases "reclaim_entry e (st, n)")
  have "area_map (st_state st1) index t = area_map (st_state st) index t" for t
  proof -
    have dist: "distinct (map fst (st_state st))" using Cons.prems(1) by (simp add: wf_store_def)
    have "(index_kind index, i) \<noteq> fst e" for i
    proof
      assume "(index_kind index, i) = fst e"
      then have "fst (fst e) = index_kind index" by (metis fst_conv)
      with Cons.prems(2) show False by (cases index) simp_all
    qed
    then have "map_of (st_state st1) (index_kind index, i) = map_of (st_state st) (index_kind index, i)" for i
      using one by (auto simp: reclaim_entry_def delete_conv split: if_splits)
    moreover have "distinct (map fst (st_state st1))" using one dist by (auto simp: reclaim_entry_def distinct_delete split: if_splits)
    ultimately show ?thesis using area_map_store [OF dist] area_map_store [of st1 _ index t] by (auto simp: store_map_def)
  qed
  moreover have "wf_store st1"
  proof -
    obtain keep where "st1 = st\<lparr>st_state := filter keep (st_state st)\<rparr>" using reclaim_entry_sub [of e st n] by (auto simp: one)
    then show ?thesis using Cons.prems(1) by (auto simp: wf_store_def distinct_map_filter)
  qed
  ultimately show ?case using Cons by (auto simp: one)
qed simp

lemma step_ok:
  assumes "cache_step sha P U s s'" and ok: "cache_ok sha P U s" and space: "page_space sha P" "inj_on sha U"
  shows "cache_ok sha P U s'"
  using assms(1)
proof cases
  case (committed kinds exactKinds v st g written res ca)
  show ?thesis unfolding committed(1) by (rule committed_ok [OF ok space committed(2 - 7)])
next
  case (interrupted kinds exactKinds v st g)
  show ?thesis unfolding interrupted(1)
    by (rule later_ok [OF ok interrupted(4) transacts_law(5) [OF interrupted(2) cache_okD(1) [OF ok]] interrupted(3)])
next
  case (replaced kinds exactKinds v st)
  note law = transacts_law [OF replaced(2) cache_okD(1) [OF ok]]
  have "area_map (st_state st) index = area_map (st_state (sv_store s)) index" for index
    using single_same_index [OF law(1) replaced(3) law(3)] law(2) by simp
  from same_records_ok [OF ok replaced(4) law(5) this] show ?thesis unfolding replaced(1) .
next
  case (pruned stop es st g)
  obtain keep where st: "st = (sv_store s)\<lparr>st_state := filter keep (st_state (sv_store s))\<rparr>"
    using reclaim_sub pruned(2) by (metis reclaimStateRecords_def)
  show ?thesis
  proof (cases "sv_generation s < g")
    case True
    show ?thesis unfolding pruned(1) by (rule later_ok [OF ok pruned(3) _ True]) (simp add: st)
  next
    case False
    then have "\<not> list_ex (\<lambda>e. fst (fst e) = Message \<or> fst (fst e) = Receipt) (take stop es)"
      using pruned(5) by (auto simp: list_ex_iff dest: in_set_takeD)
    then have "area_map (st_state st) index = area_map (st_state (sv_store s)) index" for index
      using reclaimed_same [OF cache_okD(1) [OF ok]] pruned(2) by (auto simp: reclaimStateRecords_def)
    moreover have "g = sv_generation s" using False pruned(4) by simp
    ultimately show ?thesis unfolding pruned(1) using same_records_ok [OF ok pruned(3)] by (simp add: st)
  qed
next
  case (elsewhere st)
  show ?thesis unfolding elsewhere(1) by (rule same_records_ok [OF ok elsewhere(4)]) (use elsewhere in simp_all)
next
  case (looked_up v index t written n res ca mem)
  show ?thesis
  proof (cases "bind_r (assertIndexTuple index t) (\<lambda>_. declared (index_kind index) v)")
    case (Inl e)
    then have "ca = sv_cache s" "mem = sv_memory s n" using looked_up(3) by (simp_all add: lookupIndex_def)
    with ok show ?thesis unfolding looked_up(1) by simp
  next
    case (Inr u)
    then have t: "assertIndexTuple index t = Inr ()" by (auto simp: bind_r_eq_Inr)
    have "cache_lookup sha (st_workspaceId (sv_store s)) index t (idle_at (sv_generation s)) (x_staged v) (verify_in index t v)
        (loadStateEnvelopes (sv_store s) (Some [Message, Receipt])) written (sv_cache s, sv_memory s n) = (res, ca, mem)"
      using looked_up(2, 3) Inr by (simp add: lookupIndex_def)
    from cache_lookup_ok [OF ok space t this] show ?thesis unfolding looked_up(1) by simp
  qed
next
  case (damaged ca)
  then show ?thesis using ok by (auto simp: cache_ok_def manifest_ok_def)
next
  case (restarted n)
  then show ?thesis using ok by (auto simp: cache_ok_def manifest_ok_def)
qed

lemma reachable_ok:
  assumes "cache_reachable sha P U s" and "page_space sha P" "inj_on sha U"
  shows "cache_ok sha P U s"
  using assms(1)
proof induction
  case (opened s)
  then show ?case by (simp add: cache_ok_def manifest_ok_def)
next
  case (next_step s s')
  with step_ok assms(2, 3) show ?case by blast
qed

lemma readPage_holds:
  assumes "holds_index sha ps U (Some h) F" "set ps \<subseteq> set ps'" "clean sha ps'"
  shows "\<exists>p. readPage sha ps' h = Inr p"
proof -
  obtain A hs where "entries_at sha ps [] h A hs" using assms(1) by (auto simp: holds_index_def)
  then obtain p where "stored sha ps h = Some p" by (auto elim: radix.cases)
  with covers_read [of sha ps ps' h p] assms(2, 3) stored_read show ?thesis by (auto simp: covers_def)
qed

lemma published_valid:
  assumes m: "ca_manifest ca = Manifest m" "mf_workspaceId m = workspaceId" "mf_journalGeneration m = g"
    and holds: "\<And>index. holds_index sha ps U (mf_roots m index) (F index)" and ps: "set ps \<subseteq> set (ca_pages ca)" "clean sha (ca_pages ca)"
  shows "valid sha workspaceId ca (idle_at g) = Inr (Some m)"
proof -
  have "(case mf_roots m index of None \<Rightarrow> Inr () | Some h \<Rightarrow> bind_i (readPage sha (ca_pages ca) h) (\<lambda>_. Inr ())) = Inr ()" for index
  proof (cases "mf_roots m index")
    case (Some h)
    from readPage_holds [OF holds [of index, unfolded Some] ps] show ?thesis by (auto simp: Some)
  qed simp
  then have "each_i (\<lambda>index. case mf_roots m index of None \<Rightarrow> Inr () | Some h \<Rightarrow> bind_i (readPage sha (ca_pages ca) h) (\<lambda>_. Inr ())) INDEXES = Inr ()"
    by simp
  then show ?thesis by (simp add: valid_def m del: each_i_ok)
qed

lemma rebuild_lookup_publishes:
  assumes ok: "cache_ok sha P U s" and space: "page_space sha P" "inj_on sha U"
    and run: "rebuild_lookup sha (st_workspaceId (sv_store s)) index t (idle_at (sv_generation s)) staged verify
      (loadStateEnvelopes (sv_store s) (Some [Message, Receipt])) None (sv_cache s, mem) = (Inr ids, ca, mem')"
  shows "mem' = mem\<lparr>me_unpublished := None\<rparr> \<and> (\<exists>m. valid sha (st_workspaceId (sv_store s)) ca (idle_at (sv_generation s)) = Inr (Some m)
    \<and> answer sha m (ca_pages ca) index t staged verify = Inr ids)"
proof -
  note ok' = cache_okD [OF ok]
  obtain m kept out ca1 where rebuilt: "rebuild sha (st_workspaceId (sv_store s)) (loadStateEnvelopes (sv_store s) (Some [Message, Receipt]))
        (idle_at (sv_generation s)) None (sv_cache s) = Inr (m, kept, out, ca1)"
    and m: "mf_workspaceId m = st_workspaceId (sv_store s)" "mf_journalGeneration m = jv_generation (idle_at (sv_generation s))" "out \<longleftrightarrow> None = (None :: page_store option)"
    and kept: "set kept \<subseteq> P" "\<And>index. holds_index sha kept U (mf_roots m index) (area_map (st_state (sv_store s)) index)"
    and ca1: "set (ca_pages ca1) \<subseteq> set kept \<union> set (ca_pages (sv_cache s))" "ca_manifest ca1 = (if out then Manifest m else ca_manifest (sv_cache s))"
      "out \<Longrightarrow> set kept \<subseteq> set (ca_pages ca1)"
    by (rule rebuild_holds [OF ok'(2) space(1) ok'(3) space(2), of "idle_at (sv_generation s)" None "sv_cache s"]) (blast intro: that | simp)+
  have res: "answer sha m kept index t staged verify = Inr ids" "ca = ca1" "mem' = mem\<lparr>me_unpublished := None\<rparr>"
    using run m(3) by (auto simp: rebuild_lookup_def rebuilt)
  have clean: "clean sha (ca_pages ca)" using space_clean [OF space(1)] ca1(1) kept(1) ok'(4) res(2) by (metis Un_least order_trans)
  have sub: "set kept \<subseteq> set (ca_pages ca)" using ca1(3) m(3) res(2) by simp
  have "valid sha (st_workspaceId (sv_store s)) ca (idle_at (sv_generation s)) = Inr (Some m)"
    by (rule published_valid [OF _ m(1) _ kept(2) sub clean]) (use ca1(2) m res(2) in simp_all)
  moreover have "answer sha m (ca_pages ca) index t staged verify = Inr ids"
    using res(1) covers_lookup [of sha kept "ca_pages ca"] sub clean by (auto simp: answer_def bind_i_eq_Inr covers_def)
  ultimately show ?thesis using res(3) by blast
qed

text \<open>More pages of the same trees give the same answer.\<close>

lemma covers_answer:
  assumes "page_space sha P" "set ps' \<subseteq> P" "set ps \<subseteq> set ps'" "answer sha m ps index t staged verify = Inr ids"
  shows "answer sha m ps' index t staged verify = Inr ids"
proof -
  have "covers sha ps ps'" using space_clean [OF assms(1, 2)] assms(3) by (simp add: covers_def)
  with assms(4) covers_lookup show ?thesis by (auto simp: answer_def bind_i_eq_Inr)
qed

text \<open>What an instance remembers of the current generation.\<close>

definition remembers :: "nat \<Rightarrow> memory \<Rightarrow> bool" where
  "remembers g mem \<longleftrightarrow> map_option fst (me_validated mem) = Some g \<or> map_option fst (me_unpublished mem) = Some g"

lemma accepted_anew:
  assumes "\<not> remembers g mem" and "accepted sha workspaceId ca (idle_at g) (me_validated mem) = Inr (m, ps)"
  shows "valid sha workspaceId ca (idle_at g) = Inr (Some m)" "ps = root_pages sha (ca_pages ca) m"
  using assms by (auto simp: accepted_def remembers_def Let_def bind_i_eq_Inr split: option.splits if_splits prod.splits)

text \<open>
  After a lookup that succeeded, the instance has trees of this generation: the accepted ones with the
  pages it read, those it could not publish, or those it has just published.
\<close>

lemma settled:
  assumes ok: "cache_ok sha P U s" and space: "page_space sha P" "inj_on sha U" and t: "assertIndexTuple index t = Inr ()"
    and run: "cache_lookup sha (st_workspaceId (sv_store s)) index t (idle_at (sv_generation s)) staged verify
      (loadStateEnvelopes (sv_store s) (Some [Message, Receipt])) written (sv_cache s, sv_memory s n) = (Inr ids, ca, mem)"
  shows "fst (cache_lookup sha (st_workspaceId (sv_store s)) index t (idle_at (sv_generation s)) staged verify loads written' (ca, mem)) = Inr ids"
proof -
  let ?w = "st_workspaceId (sv_store s)" and ?g = "sv_generation s" and ?s = "s\<lparr>sv_cache := ca, sv_memory := (sv_memory s)(n := mem)\<rparr>"
  note after = cache_lookup_ok [OF ok space t run]
  then have ok1: "cache_ok sha P U ?s" and S: "select_cached staged index t verify (index_ids (st_state (sv_store s)) index t) = Inr ids" by simp_all
  have direct: ?thesis if "accepted sha ?w ca (idle_at ?g) (me_validated mem) = Inr (m, ps)" "answer sha m (ps @ ca_pages ca) index t staged verify = Inr ids" for m ps
    using that by (simp add: cache_lookup_def t Let_def)
  have memory: ?thesis if known: "me_unpublished mem = Some (?g, m, ps)" for m ps
  proof -
    obtain res ca2 mem2 where again: "cache_lookup sha ?w index t (idle_at ?g) staged verify loads written' (ca, mem) = (res, ca2, mem2)" by (metis prod.exhaust)
    then have again1: "cache_lookup sha (st_workspaceId (sv_store ?s)) index t (idle_at (sv_generation ?s)) staged verify loads written'
      (sv_cache ?s, sv_memory ?s n) = (res, ca2, mem2)" by simp
    from ok1 space(1) t again1 have "res = Inr ids"
    proof (cases rule: cache_lookup_cases)
      case (found m' ps')
      then show ?thesis using S by simp
    next
      case missed
      have "memory_ok sha P U ?g (st_state (sv_store s)) (mem\<lparr>me_validated := None\<rparr>)"
        using memory_ok_forget [OF cache_okD(6) [OF ok1, of n]] by simp
      from fallback_known [OF this _ _ tuple_of_index [OF t], of m ps] missed S known space(1) show ?thesis by (simp add: page_space_def)
    qed
    with again show ?thesis by simp
  qed
  from ok space(1) t run show ?thesis
  proof (cases rule: cache_lookup_cases)
    case (found m ps)
    note acc = accepted_describes [OF ok found(1)]
    let ?held = "ps @ ca_pages (sv_cache s)" and ?ps = "pages_read sha (ps @ ca_pages (sv_cache s)) (mf_roots m index) t @ ps"
    have "accepted sha ?w ca (idle_at ?g) (me_validated mem) = Inr (m, ?ps)" by (simp add: accepted_def found(6))
    moreover have "set (?ps @ ca_pages ca) \<subseteq> P"
      using pages_read_read [of sha ?held "mf_roots m index" t] acc(2) cache_okD(4) [OF ok] by (auto simp: found(5))
    then have "answer sha m (?ps @ ca_pages ca) index t staged verify = Inr ids"
      by (rule covers_answer [OF space(1) _ _ found(3)]) (auto simp: found(5))
    ultimately show ?thesis by (rule direct)
  next
    case missed
    let ?mem = "(sv_memory s n)\<lparr>me_validated := None\<rparr>"
    show ?thesis
    proof (cases "\<exists>m ps. me_unpublished ?mem = Some (?g, m, ps)")
      case True
      then obtain m ps where known: "me_unpublished ?mem = Some (?g, m, ps)" by blast
      then have "mem = ?mem" using missed by (simp add: fallback_lookup_def)
      with known show ?thesis by (intro memory) simp
    next
      case False
      then have rebuilt: "rebuild_lookup sha ?w index t (idle_at ?g) staged verify (loadStateEnvelopes (sv_store s) (Some [Message, Receipt])) written
          (sv_cache s, ?mem) = (Inr ids, ca, mem)"
        using missed by (auto simp: fallback_lookup_def split: option.splits if_splits)
      show ?thesis
      proof (cases written)
        case None
        from rebuild_lookup_publishes [OF ok space rebuilt [unfolded None]] obtain m where mem: "me_validated mem = None"
          and m: "valid sha ?w ca (idle_at ?g) = Inr (Some m)" "answer sha m (ca_pages ca) index t staged verify = Inr ids" by auto
        have acc: "accepted sha ?w ca (idle_at ?g) (me_validated mem) = Inr (m, root_pages sha (ca_pages ca) m)" by (simp add: accepted_def mem m(1))
        have "set (root_pages sha (ca_pages ca) m @ ca_pages ca) \<subseteq> P"
          using root_pages_read [of sha "ca_pages ca" m] cache_okD(4) [OF ok1] by auto
        then have "answer sha m (root_pages sha (ca_pages ca) m @ ca_pages ca) index t staged verify = Inr ids"
          by (rule covers_answer [OF space(1) _ _ m(2)]) simp
        with acc show ?thesis by (rule direct)
      next
        case (Some ws)
        obtain m kept out ca1 where "rebuild sha ?w (loadStateEnvelopes (sv_store s) (Some [Message, Receipt])) (idle_at ?g) written (sv_cache s) = Inr (m, kept, out, ca1)"
          and "out \<longleftrightarrow> written = None"
          by (rule rebuild_holds [OF cache_okD(2) [OF ok] space(1) cache_okD(3) [OF ok] space(2), of "idle_at ?g" written "sv_cache s"]) (blast intro: that | simp)+
        then have "me_unpublished mem = Some (?g, m, kept)" using rebuilt Some by (auto simp: rebuild_lookup_def)
        then show ?thesis by (rule memory)
      qed
    qed
  qed
qed

section \<open>Properties\<close>

text \<open>
  C7. An indexed lookup is the scan of the records: for every instance, and whatever happened to the
  store and the cache of its indexes - commits the cache followed, did not publish or never reached,
  prunes, lost or damaged cache files, lookups of other instances, manifests and trees remembered or
  forgotten - \<open>tx.lookup\<close> over the cached pages gives the very result, errors and order included, of
  selecting the identifiers by reading every record. The commits that the cache followed are those of
  transactions that declare messages and receipts as exact kinds or not at all, as those of every
  service do (\<open>indexed_exact\<close>); a transaction that declares
  them otherwise may put a record and load it then, which the last property of this theory is about.
\<close>

theorem lookup_is_the_scan:
  assumes "page_space sha P" and "inj_on sha U" and "cache_reachable sha P U s"
    and "x_store v = sv_store s" and "view_ok v" and "view_valid v"
  shows "fst (lookupIndex sha index t (idle_at (sv_generation s)) written v (sv_cache s, sv_memory s n)) = ids_of (lookup_t index t v)"
proof (cases "bind_r (assertIndexTuple index t) (\<lambda>_. declared (index_kind index) v)")
  case (Inl e)
  then have "lookup_t index t v = Inl e" by (auto simp: lookup_t_def bind_r_eq_Inl)
  with Inl show ?thesis by (simp add: lookupIndex_def ids_of_def)
next
  case (Inr u)
  then have t: "assertIndexTuple index t = Inr ()" "declared (index_kind index) v = Inr ()" by (auto simp: bind_r_eq_Inr)
  obtain res ca mem where run: "cache_lookup sha (st_workspaceId (sv_store s)) index t (idle_at (sv_generation s)) (x_staged v) (verify_in index t v)
      (loadStateEnvelopes (sv_store s) (Some [Message, Receipt])) written (sv_cache s, sv_memory s n) = (res, ca, mem)" by (metis prod.exhaust)
  have "fst (lookupIndex sha index t (idle_at (sv_generation s)) written v (sv_cache s, sv_memory s n)) = res"
    using Inr run by (simp add: lookupIndex_def assms(4))
  also have "res = ids_of (lookup_t index t v)"
    using cache_lookup_ok [OF reachable_ok [OF assms(3, 1, 2)] assms(1, 2) t(1) run] select_is_lookup [OF assms(5, 6) t] assms(4) by simp
  finally show ?thesis .
qed

text \<open>
  C13. No manifest lies: a manifest that an instance accepts for the current generation, read from the
  cache directory or remembered, belongs to trees of the records as they are now. Over the pages that
  are remembered or left, a lookup in them either finds a page missing or gives exactly the identifiers
  whose records are keyed by the tuple. As in C7, the commits that the cache followed are those of
  transactions that declare messages and receipts as exact kinds or not at all, as the services do.
\<close>

theorem accepted_manifest_is_true:
  assumes "page_space sha P" and "inj_on sha U" and "cache_reachable sha P U s"
    and "accepted sha (st_workspaceId (sv_store s)) (sv_cache s) (idle_at (sv_generation s)) (me_validated (sv_memory s n)) = Inr (m, ps)"
    and "index_tuple t"
  shows "(\<exists>reason. tree_lookup sha (ps @ ca_pages (sv_cache s)) (mf_roots m index) t = unavailable reason)
    \<or> (\<exists>ids. tree_lookup sha (ps @ ca_pages (sv_cache s)) (mf_roots m index) t = Inr ids \<and> set ids = set (index_ids (st_state (sv_store s)) index t))"
proof -
  note ok = reachable_ok [OF assms(3, 1, 2)]
  note acc = accepted_describes [OF ok assms(4)]
  have "set (ps @ ca_pages (sv_cache s)) \<subseteq> P" using acc(2) cache_okD(4) [OF ok] by simp
  from lookup_part [OF acc(1) assms(1) this assms(5)] show ?thesis by (simp add: area_map_def)
qed

text \<open>
  C39. A lookup that succeeded leaves trees that answer. The same instance answers it again in the same
  generation without reading the records at large, whatever a load of them would give (\<open>Inl unread\<close>)
  and whether or not the cache directory takes what is written. When the instance remembered nothing of
  this generation, neither a manifest nor trees that could not be published, and the directory took what
  was written, the manifest left in it is valid and its trees give the same identifiers to every other.
\<close>

theorem lookup_leaves_an_index:
  assumes "page_space sha P" and "inj_on sha U" and "cache_reachable sha P U s" and "x_store v = sv_store s"
    and "lookupIndex sha index t (idle_at (sv_generation s)) written v (sv_cache s, sv_memory s n) = (Inr ids, ca, mem)"
  shows "fst (cache_lookup sha (st_workspaceId (sv_store s)) index t (idle_at (sv_generation s)) (x_staged v) (verify_in index t v)
      (Inl unread) written' (ca, mem)) = Inr ids
    \<and> (written = None \<and> \<not> remembers (sv_generation s) (sv_memory s n) \<longrightarrow>
      (\<exists>m. valid sha (st_workspaceId (sv_store s)) ca (idle_at (sv_generation s)) = Inr (Some m)
        \<and> answer sha m (ca_pages ca) index t (x_staged v) (verify_in index t v) = Inr ids))"
proof -
  let ?w = "st_workspaceId (sv_store s)" and ?g = "sv_generation s"
  note ok = reachable_ok [OF assms(3, 1, 2)]
  have t: "assertIndexTuple index t = Inr ()" using assms(5) by (auto simp: lookupIndex_def bind_r_eq_Inr split: sum.splits)
  have run: "cache_lookup sha ?w index t (idle_at ?g) (x_staged v) (verify_in index t v)
      (loadStateEnvelopes (sv_store s) (Some [Message, Receipt])) written (sv_cache s, sv_memory s n) = (Inr ids, ca, mem)"
    using assms(4, 5) by (auto simp: lookupIndex_def split: sum.splits)
  have "\<exists>m. valid sha ?w ca (idle_at ?g) = Inr (Some m) \<and> answer sha m (ca_pages ca) index t (x_staged v) (verify_in index t v) = Inr ids"
    if "written = None" and new: "\<not> remembers ?g (sv_memory s n)"
    using ok assms(1) t run
  proof (cases rule: cache_lookup_cases)
    case (found m ps)
    note anew = accepted_anew [OF new found(1)]
    have "answer sha m (ca_pages ca) index t (x_staged v) (verify_in index t v) = Inr ids"
      by (rule covers_answer [OF assms(1) _ _ found(3)]) (use cache_okD(4) [OF ok] root_pages_read [of sha "ca_pages (sv_cache s)" m] in \<open>simp_all add: anew(2) found(5)\<close>)
    with anew(1) found(5) show ?thesis by blast
  next
    case missed
    then have "rebuild_lookup sha ?w index t (idle_at ?g) (x_staged v) (verify_in index t v)
        (loadStateEnvelopes (sv_store s) (Some [Message, Receipt])) None (sv_cache s, (sv_memory s n)\<lparr>me_validated := None\<rparr>) = (Inr ids, ca, mem)"
      using that by (auto simp: fallback_lookup_def remembers_def split: option.splits if_splits)
    from rebuild_lookup_publishes [OF ok assms(1, 2) this] show ?thesis by blast
  qed
  with settled [OF ok assms(1, 2) t run] show ?thesis by blast
qed

text \<open>
  C19. The changes a transaction prepares carry every index over its commit: applied to the index of the
  records before, they give the index of the records after it - added, replaced and removed records,
  and records whose keys changed - so long as what was loaded of the staged records agrees with the store.
\<close>

theorem changes_carry_indexes:
  assumes "view_ok v" and "loads_agree v" and "commit v = Inr st"
  shows "apply_map (\<lambda>t. set (index_ids (st_state (x_store v)) index t)) (deltas_of index (prepareDeltas (x_loaded v) (x_staged v))) t
    = set (index_ids (st_state st) index t)"
  using prepared_exact [OF assms] by (simp add: area_map_def [abs_def])

text \<open>
  C40. A record that is put and then loaded in the same transaction is missed: \<^verbatim>\<open>load\<close> keeps the staged
  record as the loaded one, so that the commit finds no change of its keys. The record is stored, and the
  index that the commit publishes does not hold it.
\<close>

theorem loaded_after_put_is_missed:
  assumes "view_ok v" and "map_of (x_loaded v) (k, i) = None" and "map_of (x_staged v) (k, i) = Some (Live r g)"
    and "load_t k i v = Inr (found, w)" and "commit w = Inr st" and "index_kind index = k" and "t \<in> set (index_keys index r)"
  shows "i \<in> set (index_ids (st_state st) index t)
    \<and> i \<notin> apply_map (\<lambda>t. set (index_ids (st_state (x_store w)) index t)) (deltas_of index (prepareDeltas (x_loaded w) (x_staged w))) t"
proof -
  let ?ds = "deltas_of index (prepareDeltas (x_loaded w) (x_staged w))"
  have kind: "k \<in> set STATE_KINDS" using assms(6) by (cases index) (auto simp: STATE_KINDS_def)
  have read: "read_entry k i v = Inr (Some (r, g))" and w: "w = v\<lparr>x_loaded := AList.update (k, i) (Some (Live r g)) (x_loaded v)\<rparr>"
    using assms(2 - 4) by (auto simp: load_t_def read_entry_def entryFor_def bind_r_eq_Inr Let_def)
  have dec: "declares v k" using read by (auto simp: read_entry_def bind_r_eq_Inr declared_ok)
  have "k \<notin> set (x_exact v)" using view_exact [OF assms(1), of k i] assms(2, 3) by auto
  then have base: "base v (k, i) = None" using view_unloaded [OF assms(1) dec kind] assms(2) by blast
  have ok: "view_ok w" using load_t_law [OF assms(4, 1) kind] by simp
  have "store_map st (k, i) = Some (r, g)" using commit_law [OF assms(5) ok] assms(3) by (simp add: w sees_def)
  then have "i \<in> area_map (st_state st) index t" using commit_law [OF assms(5) ok] area_map_store assms(6, 7) by blast
  moreover have "i \<notin> area_map (st_state (x_store w)) index t"
    using base area_map_store [OF view_distinct(3) [OF assms(1)]] assms(6) by (auto simp: w base_def store_map_def)
  moreover have "\<not> (\<exists>d \<in> set (deltas_of index (prepareDeltas (x_loaded w) (x_staged w))). dl_tuple d = t \<and> dl_id d = i \<and> dl_operation d = PutId)"
    using assms(6, 7) unfolding some_delta prepared_delta [OF view_distinct(1) [OF ok]]
    by (auto simp: Let_def w old_keys_def update_conv assms(3))
  moreover have "i \<in> apply_map (area_map (st_state (x_store w)) index) ?ds t \<longleftrightarrow>
      (\<exists>d \<in> set ?ds. dl_tuple d = t \<and> dl_id d = i \<and> dl_operation d = PutId)
      \<or> i \<in> area_map (st_state (x_store w)) index t \<and> \<not> (\<exists>d \<in> set ?ds. dl_tuple d = t \<and> dl_id d = i \<and> dl_operation d = RemoveId)"
    by (rule apply_map_mem) (rule delta_once [OF view_distinct(1) [OF ok]])
  ultimately show ?thesis by (simp add: area_map_def [abs_def])
qed

section \<open>Samples\<close>

definition indexed_store :: store where
  "indexed_store = \<lparr>st_workspaceId = ''w'', st_ids = (\<lambda>label n. ''g1''), st_issued = 0,
     st_state = [((Message, ''m''), \<lparr>v_generation = ''g'', v_record = MessageR (sample_message ''m'' ''note'' None)\<rparr>)],
     st_ephemeral = [], st_events = [], st_floor = None\<rparr>"

definition indexed_view :: view where
  "indexed_view = \<lparr>x_wanted = Some [Message], x_exact = [Message], x_loaded = [], x_staged = [], x_events = [], x_issued = 0, x_store = indexed_store\<rparr>"

definition indexed_state :: served where
  "indexed_state = \<lparr>sv_store = indexed_store, sv_generation = 0, sv_cache = \<lparr>ca_pages = [], ca_manifest = No_manifest\<rparr>, sv_memory = (\<lambda>_. no_memory)\<rparr>"

abbreviation sample_tuple :: "string list" where
  "sample_tuple \<equiv> [''w'', ''alice'', ''client_m'']"

lemma sample_valid_message: "validate Message (MessageR (sample_message ''m'' ''note'' None)) = Inr ()"
  by code_simp

lemma sample_good: "good_area {''m''} ''w'' (st_state indexed_store)"
proof -
  have "short_id ''m''" "list_all short_id sample_tuple" by code_simp+
  moreover have "t = sample_tuple" if "(index, t) \<in> set (record_keys Message (MessageR (sample_message ''m'' ''note'' None)))" for index t
    using that unfolding record_keys_iff by (cases index) (auto simp: sample_message_def)
  ultimately have "\<forall>(index, t) \<in> set (record_keys Message (MessageR (sample_message ''m'' ''note'' None))). list_all short_id t" by blast
  moreover have "workspace_of (MessageR (sample_message ''m'' ''note'' None)) = Some ''w''" by (simp add: sample_message_def)
  ultimately show ?thesis using sample_valid_message \<open>short_id ''m''\<close> by (simp add: good_area_def indexed_store_def)
qed

lemma sample_wf: "wf_store indexed_store"
  by (simp add: wf_store_def indexed_store_def ascending_def)

lemma sample_primaries: "loadStateEnvelopes indexed_store (Some [Message, Receipt]) = Inr (st_state indexed_store)"
  by code_simp

lemma sample_built: "\<exists>p. snd (build_roots sample_digest (st_state indexed_store) []) = [p] \<and> short_page p"
proof -
  have "snd (build_roots sample_digest (st_state indexed_store) [])
    = [Leaf [\<lparr>le_digest = sample_digest (tuple_text sample_tuple), le_tuple = sample_tuple, le_ids = Inline [''m'']\<rparr>] None]"
    by code_simp
  moreover have "short_page (Leaf [\<lparr>le_digest = sample_digest (tuple_text sample_tuple), le_tuple = sample_tuple, le_ids = Inline [''m'']\<rparr>] None)"
    by code_simp
  ultimately show ?thesis by blast
qed

lemma sample_space:
  "page_space sample_digest (built sample_digest indexed_store)" "inj_on sample_digest {''m''}"
  "cache_reachable sample_digest (built sample_digest indexed_store) {''m''} indexed_state"
proof -
  obtain p where p: "snd (build_roots sample_digest (st_state indexed_store) []) = [p]" "short_page p" using sample_built by blast
  then show "page_space sample_digest (built sample_digest indexed_store)"
    using sample_digest_hex by (simp add: page_space_def built_def sample_primaries)
  show "inj_on sample_digest {''m''}" by simp
  show "cache_reachable sample_digest (built sample_digest indexed_store) {''m''} indexed_state"
    by (rule cache_reachable.opened) (use sample_good sample_wf in \<open>simp_all add: indexed_state_def sound_store_def\<close>, simp add: indexed_store_def)
qed

lemma sample_view: "x_store indexed_view = sv_store indexed_state" "view_ok indexed_view" "view_valid indexed_view"
proof -
  show "x_store indexed_view = sv_store indexed_state" by (simp add: indexed_view_def indexed_state_def)
  show "view_ok indexed_view" by (rule view_okI) (auto simp: indexed_view_def indexed_store_def declares_def)
  show "view_valid indexed_view"
    using sample_valid_message by (auto simp: view_valid_def sees_def base_def indexed_view_def indexed_store_def split: if_splits)
qed

lemma sample_scan: "ids_of (lookup_t MessageByClientKey sample_tuple indexed_view) = Inr [''m'']"
  "set (index_ids (st_state indexed_store) MessageByClientKey sample_tuple) = {''m''}" "index_tuple sample_tuple"
  by code_simp+

lemma sample_fields [simp]:
  "sv_store indexed_state = indexed_store" "sv_generation indexed_state = 0" "sv_memory indexed_state n = no_memory"
  "x_store indexed_view = indexed_store" "x_staged indexed_view = []" "st_workspaceId indexed_store = ''w''"
  by (simp_all add: indexed_state_def, simp_all add: indexed_store_def indexed_view_def)

text \<open>The first lookup of an instance finds no manifest, rebuilds the trees and publishes them.\<close>

lemma sample_lookup:
  obtains ca m where "lookupIndex sample_digest MessageByClientKey sample_tuple (idle_at 0) None indexed_view (sv_cache indexed_state, no_memory)
      = (Inr [''m''], ca, no_memory)"
    and "valid sample_digest ''w'' ca (idle_at 0) = Inr (Some m)"
    and "cache_reachable sample_digest (built sample_digest indexed_store) {''m''} (indexed_state\<lparr>sv_cache := ca\<rparr>)"
proof -
  let ?lookup = "lookupIndex sample_digest MessageByClientKey sample_tuple (idle_at 0) None indexed_view (sv_cache indexed_state, no_memory)"
  let ?P = "built sample_digest indexed_store" and ?loads = "loadStateEnvelopes indexed_store (Some [Message, Receipt])"
  note ok = reachable_ok [OF sample_space(3, 1, 2)]
  have t: "assertIndexTuple MessageByClientKey sample_tuple = Inr ()" "declared (index_kind MessageByClientKey) indexed_view = Inr ()" by code_simp+
  obtain res ca mem where run: "?lookup = (res, ca, mem)" by (metis prod.exhaust)
  then have cached: "cache_lookup sample_digest ''w'' MessageByClientKey sample_tuple (idle_at 0)
      [] (verify_in MessageByClientKey sample_tuple indexed_view) ?loads None (sv_cache indexed_state, no_memory) = (res, ca, mem)"
    using t by (simp add: lookupIndex_def)
  have "res = Inr [''m'']"
    using cache_lookup_ok [OF ok sample_space(1, 2) t(1), of _ _ None 0 res ca mem] cached select_is_lookup [OF sample_view(2, 3) t] sample_scan(1) by simp
  with cached have "rebuild_lookup sample_digest ''w'' MessageByClientKey sample_tuple (idle_at 0) []
      (verify_in MessageByClientKey sample_tuple indexed_view) ?loads None (sv_cache indexed_state, no_memory) = (Inr [''m''], ca, mem)"
    by (simp add: cache_lookup_def fallback_lookup_def accepted_def no_memory_def t valid_def indexed_state_def)
  from rebuild_lookup_publishes [OF ok sample_space(1, 2), of MessageByClientKey sample_tuple "[]" _ no_memory "[''m'']" ca mem] this
  obtain m where mem: "mem = no_memory" and m: "valid sample_digest ''w'' ca (idle_at 0) = Inr (Some m)"
    by (auto simp: no_memory_def)
  have "cache_step sample_digest ?P {''m''} indexed_state (indexed_state\<lparr>sv_cache := ca, sv_memory := (sv_memory indexed_state)(0 := mem)\<rparr>)"
    by (rule cache_step.looked_up [OF sample_view(1)]) (use run in simp)
  moreover have "indexed_state\<lparr>sv_cache := ca, sv_memory := (sv_memory indexed_state)(0 := mem)\<rparr> = indexed_state\<lparr>sv_cache := ca\<rparr>"
    by (simp add: mem indexed_state_def fun_upd_idem)
  ultimately have "cache_reachable sample_digest ?P {''m''} (indexed_state\<lparr>sv_cache := ca\<rparr>)"
    using cache_reachable.next_step [OF sample_space(3)] by simp
  with run mem m \<open>res = Inr [''m'']\<close> show thesis by (intro that [of ca m]) simp_all
qed

text \<open>A second instance then answers from the published trees, and one that has answered from what it remembers.\<close>

theorem lookup_is_the_scan_witness:
  "\<exists>ca m. valid sample_digest ''w'' ca (idle_at 0) = Inr (Some m)
    \<and> fst (lookupIndex sample_digest MessageByClientKey sample_tuple (idle_at 0) None indexed_view (ca, no_memory)) = Inr [''m'']"
proof -
  obtain ca m where first: "valid sample_digest ''w'' ca (idle_at 0) = Inr (Some m)"
    and after: "cache_reachable sample_digest (built sample_digest indexed_store) {''m''} (indexed_state\<lparr>sv_cache := ca\<rparr>)" by (rule sample_lookup)
  have "x_store indexed_view = sv_store (indexed_state\<lparr>sv_cache := ca\<rparr>)" by simp
  from lookup_is_the_scan [OF sample_space(1, 2) after this sample_view(2, 3), of MessageByClientKey sample_tuple None 1] first show ?thesis
    by (auto simp: sample_scan)
qed

theorem accepted_manifest_is_true_witness:
  "\<exists>ca m ps. accepted sample_digest ''w'' ca (idle_at 0) None = Inr (m, ps)
    \<and> ((\<exists>reason. tree_lookup sample_digest (ps @ ca_pages ca) (mf_roots m MessageByClientKey) sample_tuple = unavailable reason)
      \<or> (\<exists>ids. tree_lookup sample_digest (ps @ ca_pages ca) (mf_roots m MessageByClientKey) sample_tuple = Inr ids \<and> set ids = {''m''}))"
proof -
  obtain ca m where first: "valid sample_digest ''w'' ca (idle_at 0) = Inr (Some m)"
    and after: "cache_reachable sample_digest (built sample_digest indexed_store) {''m''} (indexed_state\<lparr>sv_cache := ca\<rparr>)" by (rule sample_lookup)
  let ?ps = "root_pages sample_digest (ca_pages ca) m"
  have acc: "accepted sample_digest ''w'' ca (idle_at 0) None = Inr (m, ?ps)" by (simp add: accepted_def first)
  then have "accepted sample_digest (st_workspaceId (sv_store (indexed_state\<lparr>sv_cache := ca\<rparr>))) (sv_cache (indexed_state\<lparr>sv_cache := ca\<rparr>))
      (idle_at (sv_generation (indexed_state\<lparr>sv_cache := ca\<rparr>))) (me_validated (sv_memory (indexed_state\<lparr>sv_cache := ca\<rparr>) 0)) = Inr (m, ?ps)"
    by (simp add: no_memory_def)
  from accepted_manifest_is_true [OF sample_space(1, 2) after this sample_scan(3), of MessageByClientKey] acc
  show ?thesis by (intro exI [of _ ca] exI [of _ m] exI [of _ ?ps] conjI acc) (simp add: sample_scan(2))
qed

theorem lookup_leaves_an_index_witness:
  "\<exists>ca m. lookupIndex sample_digest MessageByClientKey sample_tuple (idle_at 0) None indexed_view (sv_cache indexed_state, no_memory) = (Inr [''m''], ca, no_memory)
    \<and> valid sample_digest ''w'' ca (idle_at 0) = Inr (Some m)
    \<and> answer sample_digest m (ca_pages ca) MessageByClientKey sample_tuple [] (verify_in MessageByClientKey sample_tuple indexed_view) = Inr [''m'']
    \<and> fst (cache_lookup sample_digest ''w'' MessageByClientKey sample_tuple (idle_at 0) [] (verify_in MessageByClientKey sample_tuple indexed_view)
        (Inl (AccError DATA ''unreadable'')) (Some []) (ca, no_memory)) = Inr [''m'']"
proof -
  obtain ca where run: "lookupIndex sample_digest MessageByClientKey sample_tuple (idle_at 0) None indexed_view (sv_cache indexed_state, no_memory)
      = (Inr [''m''], ca, no_memory)" by (rule sample_lookup)
  then have "lookupIndex sample_digest MessageByClientKey sample_tuple (idle_at (sv_generation indexed_state)) None indexed_view
      (sv_cache indexed_state, sv_memory indexed_state 0) = (Inr [''m''], ca, no_memory)" by simp
  from lookup_leaves_an_index [OF sample_space sample_view(1) this, of "AccError DATA ''unreadable''" "Some []"] run
  show ?thesis by (auto simp: remembers_def no_memory_def)
qed

text \<open>A transaction that removes the message.\<close>

definition removing_view :: view where
  "removing_view = indexed_view\<lparr>x_loaded := [((Message, ''m''), Some (Live (MessageR (sample_message ''m'' ''note'' None)) ''g''))],
     x_staged := [((Message, ''m''), Removed ''g'')]\<rparr>"

lemma removing_ok: "view_ok removing_view" "loads_agree removing_view"
proof -
  show "view_ok removing_view"
    by (rule view_okI) (auto simp: removing_view_def indexed_view_def indexed_store_def base_def split: if_splits)
  show "loads_agree removing_view" by (simp add: loads_agree_def base_def removing_view_def indexed_view_def indexed_store_def)
qed

theorem changes_carry_indexes_witness:
  "\<exists>st. commit removing_view = Inr st \<and> index_ids (st_state st) MessageByClientKey sample_tuple = []
    \<and> apply_map (\<lambda>t. set (index_ids (st_state indexed_store) MessageByClientKey t))
        (deltas_of MessageByClientKey (prepareDeltas (x_loaded removing_view) (x_staged removing_view))) sample_tuple = {}"
proof -
  obtain st where st: "commit removing_view = Inr st" "st_state st = []"
    by (simp add: commit_def removing_view_def indexed_view_def indexed_store_def single_record_def nextSequence_def throw_if_def
        MAX_SAFE_INTEGER_def published_def publish_entry_def Let_def)
  have "x_store removing_view = indexed_store" by (simp add: removing_view_def indexed_view_def)
  with changes_carry_indexes [OF removing_ok st(1), of MessageByClientKey sample_tuple] st show ?thesis by (simp add: index_ids_def)
qed

text \<open>A transaction that puts a receipt and loads it.\<close>

definition receipt_view :: view where
  "receipt_view = \<lparr>x_wanted = Some [Receipt], x_exact = [], x_loaded = [],
     x_staged = [((Receipt, ''r''), Live (ReceiptR (sample_receipt ''m'' ''bob'' ''queued'')) ''g1'')], x_events = [], x_issued = 1, x_store = indexed_store\<rparr>"

theorem loaded_after_put_is_missed_witness:
  "\<exists>found w st. load_t Receipt ''r'' receipt_view = Inr (found, w) \<and> commit w = Inr st
    \<and> ''r'' \<in> set (index_ids (st_state st) ReceiptsByMessage [''w'', ''m''])
    \<and> ''r'' \<notin> apply_map (\<lambda>t. set (index_ids (st_state (x_store w)) ReceiptsByMessage t))
        (deltas_of ReceiptsByMessage (prepareDeltas (x_loaded w) (x_staged w))) [''w'', ''m'']"
proof -
  have ok: "view_ok receipt_view"
    by (rule view_okI) (auto simp: receipt_view_def indexed_store_def base_def declares_def split: if_splits)
  have "assertPortableId ''r'' ''record id'' = Inr ''r''" by code_simp
  then obtain found w where w: "load_t Receipt ''r'' receipt_view = Inr (found, w)" "x_staged w = x_staged receipt_view" "x_events w = []" "x_store w = indexed_store"
    by (simp add: load_t_def read_entry_def declared_def throw_if_def receipt_view_def Let_def)
  have "\<exists>st. commit w = Inr st"
    by (simp add: commit_def w receipt_view_def single_record_def nextSequence_def indexed_store_def throw_if_def MAX_SAFE_INTEGER_def Let_def)
  then obtain st where st: "commit w = Inr st" by blast
  have "map_of (x_loaded receipt_view) (Receipt, ''r'') = None"
    "map_of (x_staged receipt_view) (Receipt, ''r'') = Some (Live (ReceiptR (sample_receipt ''m'' ''bob'' ''queued'')) ''g1'')"
    by (simp_all add: receipt_view_def)
  from loaded_after_put_is_missed [OF ok this w(1) st, of ReceiptsByMessage "[''w'', ''m'']"] w(1) st
  show ?thesis by (auto simp: sample_receipt_def)
qed

end
