(* ===== verification/Index_Services.thy ===== *)
theory Index_Services
  imports System Index_History
begin

text \<open>
  The services and the cache of the indexes. Every call of a service is a transaction that declares
  messages and receipts as exact kinds or not at all, or it leaves the durable records alone; so is
  every pass of prune and every trim a step of the history the cache goes through. What is shown of
  that history in \<open>Index_History\<close> therefore holds of every run of the system.
\<close>

text \<open>A call either transacts as the cache needs it, or changes nothing it depends on.\<close>

definition followed :: "store \<Rightarrow> store \<Rightarrow> bool" where
  "followed st st' \<longleftrightarrow> (\<exists>kinds exactKinds v. indexed_exact kinds exactKinds \<and> transacts kinds exactKinds st v st')"

definition aside :: "store \<Rightarrow> store \<Rightarrow> bool" where
  "aside st st' \<longleftrightarrow> st_state st' = st_state st \<and> st_workspaceId st' = st_workspaceId st"

lemma followed_transaction:
  assumes run: "transaction kinds exactKinds callback st = Inr (x, st')" and "lawful callback" and "indexed_exact kinds exactKinds"
  shows "followed st st'"
proof -
  obtain v w where v: "begin_view st kinds exactKinds = Inr v" "callback v = Inr (x, w)" "commit w = Inr st'"
    using run by (auto simp: transaction_eq)
  then have "transacts kinds exactKinds st w st'" using lawfulD [OF assms(2) v(2)] unfolding transacts_def by blast
  with assms(3) show ?thesis unfolding followed_def by blast
qed

lemma aside_ephemeral:
  "eph_update st k i up = Inr (x, st') \<Longrightarrow> aside st st'" "eph_delete st k i guard = Inr st' \<Longrightarrow> aside st st'"
  by (auto simp: eph_update_def eph_delete_def eph_write_def aside_def bind_r_eq_Inr split: option.splits if_splits)

lemma services_are_followed: "atomic sha now st st' \<Longrightarrow> followed st st' \<or> aside st st'"
proof (induction rule: atomic.induct)
  case (update_session i f st x st')
  then show ?case by - (rule disjI1, erule followed_transaction [OF _ lawful_update_durable], simp add: indexed_exact_def)
next
  case (resume_session i g st x st')
  then show ?case by - (rule disjI1, erule followed_transaction [OF _ lawful_resume_durable], simp add: indexed_exact_def)
next
  case (close_session i f st x st')
  then show ?case by - (rule disjI1, erule followed_transaction [OF _ lawful_close_durable], simp add: indexed_exact_def)
next
  case (open_session available s p w st x st')
  then show ?case unfolding open_durable_step_def
    by - (rule disjI1, erule followed_transaction [OF _ lawful_open_durable], simp add: indexed_exact_def)
next
  case (materialise w d reason j st x st')
  then show ?case unfolding materialise_step_def
    by - (rule disjI1, erule followed_transaction [OF _ lawful_materialise], simp add: indexed_exact_def EPHEMERAL_KINDS_def)
next
  case (set_intent w g intent st x st')
  then show ?case by - (rule disjI1, erule followed_transaction [OF _ lawful_set_intent], simp add: indexed_exact_def)
next
  case (clear_intent i w g st x st')
  then show ?case by - (rule disjI1, erule followed_transaction [OF _ lawful_clear_intent], simp add: indexed_exact_def)
next
  case (acquire input s resources batch st x st')
  then show ?case by - (rule disjI1, erule followed_transaction [OF _ lawful_acquire], simp add: indexed_exact_def)
next
  case (renew i s g claimId leaseSeconds st x st')
  then show ?case by - (rule disjI1, erule followed_transaction [OF _ lawful_renew], simp add: indexed_exact_def)
next
  case (release i g s sel authority reason st x st')
  then show ?case by - (rule disjI1, erule followed_transaction [OF _ lawful_remove_claims], simp add: indexed_exact_def)
next
  case (send s minput st x st')
  then show ?case by - (rule disjI1, erule followed_transaction [OF _ lawful_send], simp add: indexed_exact_def message_kinds)
next
  case (reply s rinput replyId st x st')
  then show ?case by - (rule disjI1, erule followed_transaction [OF _ lawful_reply], simp add: indexed_exact_def message_kinds)
next
  case (finish s finput st x st')
  then show ?case by - (rule disjI1, erule followed_transaction [OF _ lawful_finish], simp add: indexed_exact_def message_kinds)
next
  case (list_inbox s i g pinput st x st')
  then show ?case by - (rule disjI1, erule followed_transaction [OF _ lawful_list_inbox], simp add: indexed_exact_def message_kinds)
next
  case (read_inbox s i g messageId st x st')
  then show ?case by - (rule disjI1, erule followed_transaction [OF _ lawful_read_inbox], simp add: indexed_exact_def message_kinds)
next
  case (acknowledge s i g m st x st')
  then show ?case by - (rule disjI1, erule followed_transaction [OF _ lawful_acknowledge], simp add: indexed_exact_def message_kinds)
next
  case (offer_succeeded oinput st x st')
  then show ?case by - (rule disjI1, erule followed_transaction [OF _ lawful_offer_succeeded], simp add: indexed_exact_def message_kinds)
next
  case (offer_failed oinput st x st')
  then show ?case by - (rule disjI1, erule followed_transaction [OF _ lawful_offer_failed], simp add: indexed_exact_def message_kinds)
next
  case (read_receipt m p st x st')
  then show ?case by - (rule disjI1, erule followed_transaction [OF _ lawful_read_receipt], simp add: indexed_exact_def)
next
  case (ephemeral_update st k i up x st')
  then show ?case by (intro disjI2 aside_ephemeral)
next
  case (ephemeral_delete st k i guard st')
  then show ?case by (intro disjI2 aside_ephemeral)
next
  case (issue st n)
  then show ?case by (simp add: aside_def)
qed

text \<open>
  A run of the system and the history of the cache go together: whatever a step of the system makes of
  the store, some steps of the cache's history make of it too, and a commit may be followed by the
  cache as well as not.
\<close>

lemma run_is_a_history:
  assumes reach: "cache_reachable digest P U s" and sound: "sound_store digest P U st"
    and run: "sys_step sha pidIsAlive (now, sv_store s) (later, st)"
  shows "\<exists>s'. sv_store s' = st \<and> cache_reachable digest P U s'"
proof -
  have from_step: ?thesis if "cache_step digest P U s s'" "sv_store s' = st" for s'
    using cache_reachable.next_step [OF reach that(1)] that(2) by blast
  from run show ?thesis
  proof cases
    case tick
    then show ?thesis using reach by blast
  next
    case call
    then consider "followed (sv_store s) st" | "aside (sv_store s) st" using services_are_followed by blast
    then show ?thesis
    proof cases
      case 1
      then obtain kinds exactKinds v where "transacts kinds exactKinds (sv_store s) v st" by (auto simp: followed_def)
      from cache_step.interrupted [OF this lessI sound] show ?thesis by (rule from_step) simp
    next
      case 2
      then have "cache_step digest P U s (s\<lparr>sv_store := st\<rparr>)" using cache_step.elsewhere [OF _ _ sound] by (simp add: aside_def)
      then show ?thesis by (rule from_step) simp
    qed
  next
    case (prune input stop x)
    then obtain decided where "fst (reclaimStateRecords stop (entries decided) (sv_store s)) = st"
      by (simp add: prune_records_def bind_r_eq_Inr split_def) (metis prod.collapse)
    then have "cache_step digest P U s (s\<lparr>sv_store := st, sv_generation := Suc (sv_generation s)\<rparr>)"
      by (rule cache_step.pruned) (simp_all add: sound)
    then show ?thesis by (rule from_step) simp
  next
    case (trim stop boundary x)
    then have "aside (sv_store s) st"
      by (auto simp: trimEventLog_def raiseEventFloor_def aside_def Let_def split: if_splits option.splits)
    then have "cache_step digest P U s (s\<lparr>sv_store := st\<rparr>)" using cache_step.elsewhere [OF _ _ sound] by (simp add: aside_def)
    then show ?thesis by (rule from_step) simp
  qed
qed

text \<open>The commit of a service, followed by the cache, is a step of its history.\<close>

lemma service_commit_followed:
  assumes reach: "cache_reachable digest P U s" and sound: "sound_store digest P U st" and run: "atomic sha now (sv_store s) st"
  shows "aside (sv_store s) st \<or> (\<exists>v. x_store v = sv_store s \<and> commit v = Inr st
    \<and> (\<forall>g written res ca. sv_generation s < g \<longrightarrow> set (ca_pages ca) \<subseteq> P
      \<longrightarrow> cache_commit digest (st_workspaceId st) (idle_at (sv_generation s)) (idle_at g) (prepareDeltas (x_loaded v) (x_staged v)) written (sv_cache s) = (res, ca)
      \<longrightarrow> cache_reachable digest P U (s\<lparr>sv_store := st, sv_generation := g, sv_cache := ca\<rparr>)))"
proof (cases "aside (sv_store s) st")
  case False
  with services_are_followed [OF run] obtain kinds exactKinds v where exact: "indexed_exact kinds exactKinds"
    and v: "transacts kinds exactKinds (sv_store s) v st" by (auto simp: followed_def)
  have "wf_store (sv_store s)"
    using reach
  proof induction
    case (opened s)
    then show ?case by (simp add: sound_store_def)
  next
    case (next_step s s')
    from next_step(2, 3) show ?case by cases (simp_all add: sound_store_def)
  qed
  note law = transacts_law [OF v this]
  have "cache_reachable digest P U (s\<lparr>sv_store := st, sv_generation := g, sv_cache := ca\<rparr>)"
    if "sv_generation s < g" "set (ca_pages ca) \<subseteq> P"
      "cache_commit digest (st_workspaceId st) (idle_at (sv_generation s)) (idle_at g) (prepareDeltas (x_loaded v) (x_staged v)) written (sv_cache s) = (res, ca)"
    for g written res ca
    by (rule cache_reachable.next_step [OF reach cache_step.committed [OF v exact that(1) sound that(3, 2)]])
  with law(2, 3) show ?thesis by blast
qed simp

end
