(* ===== verification/Spec2Isabelle.thy ===== *)
theory Spec2Isabelle
  imports Resources Decision_Groups Intents Finish_Retry Delivery Status Sync System Recovery Readers Writer_Mutex Index_Services
begin

text \<open>
  The coordination core of \<^verbatim>\<open>agents-can-communicate\<close>: agents of several clients share one
  checkout of a repository, claim the parts of it they change, and leave each other messages. All they
  share is a directory of files; the packages \<^verbatim>\<open>protocol\<close>, \<^verbatim>\<open>core\<close> and
  \<^verbatim>\<open>storage-filesystem\<close> under \<^verbatim>\<open>src/packages\<close> read and write it, and everything else of the
  repository is a front end to them. This development models those three packages.

  \<^bold>\<open>How the parts interact.\<close> A service of \<^verbatim>\<open>core\<close> checks its input, runs a callback in a
  transaction of the store and returns a result. The callback reads and stages records through a view,
  and may look identifiers up in an index. The commit writes a journal entry, opens the pointer to it
  and rolls it forward, after which the cache of the indexes follows. All of it happens under the writer
  mutex, so that a call is one step of the store; what the files look like between is the concern of
  the journal's theories alone, and what several writers do to the lock that of the mutex. Readers take
  no lock; the journal's ceiling is to keep them off a transaction in progress, and \<open>Readers\<close> says how
  far it does.

  \<^bold>\<open>Theories.\<close> Each opens with what it holds. From the bottom:

  \<^item> \<open>Prelude\<close>: results that may be errors (\<open>res\<close>), the JavaScript library functions the sources
    use (strings, insertion-ordered maps and sets, the collation behind \<^verbatim>\<open>localeCompare\<close>), and the
    lemma collections shared by all.
  \<^item> \<open>Protocol_Base\<close>, \<open>Resources\<close>, \<open>Json_Schema\<close>, \<open>Records\<close>, \<open>Record_Checks\<close>: the package
    \<^verbatim>\<open>protocol\<close>. Identifiers (\<^verbatim>\<open>ids.mjs\<close>), receipt states and envelopes; resources
    (\<^verbatim>\<open>resources.mjs\<close>); JSON and the field checks (\<^verbatim>\<open>fields.mjs\<close>, \<^verbatim>\<open>schema.mjs\<close>); one HOL record
    per record kind. \<open>Record_Checks\<close> reads the checks as conditions on fields.
  \<^item> \<open>Store\<close>, \<open>Store_Laws\<close>, \<open>Transactions\<close>: the store as one value, \<^verbatim>\<open>store.mjs\<close> and
    \<^verbatim>\<open>transaction-view.mjs\<close>. A view is a record of what was loaded and staged; an operation is a
    function from a view to an error or a result with the next view. The laws say what a view sees; the
    calculi of \<open>Transactions\<close> (\<open>lawful\<close>, \<open>adds\<close>, \<open>emits\<close>, \<open>reads\<close>, \<open>moves\<close>) carry a property
    through a callback by its shape.
  \<^item> \<open>Sessions\<close>, \<open>Claims\<close>, \<open>Intents\<close>, \<open>Decisions\<close>, \<open>Messages\<close>, \<open>Finish\<close>,
    \<open>Finish_Retry\<close>, \<open>Receipts\<close>, \<open>Message_Pages\<close>, \<open>Inbox\<close>, \<open>Decision_Groups\<close>,
    \<open>Delivery\<close>, \<open>Attention\<close>, \<open>Status\<close>, \<open>Sync\<close>, \<open>Prune\<close>: the package \<^verbatim>\<open>core\<close>, a theory
    per source file or per group of them, each service a definition under its own name
    (\<open>openSession\<close>, \<open>acquireClaims\<close>, \<open>sendMessage\<close>, \<open>finishSession\<close>, \<open>readInbox\<close>, ...),
    its callback beside it with the suffix \<open>_tx\<close>.
  \<^item> \<open>System\<close>: the services together. A run is any sequence of their calls, by any number of clients;
    that each service is such a sequence is a lemma there.
  \<^item> \<open>Disk\<close>, \<open>Active_Journal\<close>, \<open>Journal\<close>, \<open>Commit_Files\<close>, \<open>Recovery\<close>: the same store
    as files (\<^verbatim>\<open>atomic-json.mjs\<close>, \<^verbatim>\<open>active-journal.mjs\<close>, \<^verbatim>\<open>journal.mjs\<close>, \<^verbatim>\<open>identity.mjs\<close>,
    \<^verbatim>\<open>recovery.mjs\<close>). A program returns its result and every disk its writes led through; a process
    that dies leaves one of these. \<open>Readers\<close>: a reader of the event log beside a commit, each of whose
    reads (the slots of the pointer, the listing, every event file, the floor) has a moment of its own.
  \<^item> \<open>Writer_Mutex\<close>: the lock directory of \<^verbatim>\<open>writer-mutex.mjs\<close>, as the interleaved steps of its writers.
  \<^item> \<open>Index_Pages\<close>, \<open>Index_Tree\<close>: the transaction indexes (\<^verbatim>\<open>index-pages.mjs\<close>, \<^verbatim>\<open>index-tree.mjs\<close>),
    radix trees in content-addressed pages. \<open>Index_Radix\<close> says what pages mean, \<open>Index_Lookup\<close>,
    \<open>Index_Update\<close>, \<open>Index_Entries\<close> and \<open>Index_Maps\<close> that the operations keep it,
    \<open>Index_Steady\<close> what they do when pages are lost. \<open>Index_Cache\<close>, \<open>Index_Refinement\<close> and
    \<open>Index_History\<close>: the cache over them (\<^verbatim>\<open>index-cache.mjs\<close>, \<^verbatim>\<open>index-io.mjs\<close>), with what each
    instance remembers of a generation, against the store. \<open>Index_Services\<close>: every call of the services
    is a step of the histories these speak of.

  \<^bold>\<open>What the theorems show.\<close> Each property stands under its claim number beside the component it is about.

  \<^item> Across the services (\<open>System\<close>): live claims stay exclusive in every interleaving; a run never
    edits a message, moves a receipt back or rewrites an event; everything written passes its checks.
  \<^item> On disk: an interrupted commit is all or nothing, also when its recovery is interrupted; a reader
    beside a writer, whatever the moments of its reads, is given a page of the log before it or of that
    log with a beginning of the transaction, and of the log before when it always finds the transaction
    open; a racing read of the pointer returns
    two slots that stood together; the store of another workspace is refused untouched.
  \<^item> Indexes: an index is exactly the map its changes describe; whatever happened to the cache, a lookup
    is the scan of the records (the refinement the abstract \<open>lookup_t\<close> of \<open>Store\<close> rests on) and an
    accepted manifest is true, as long as the commits that the cache follows are of transactions that
    declare messages and receipts as exact kinds or not at all, as every service does; a lookup that
    succeeded leaves trees that answer it again.
  \<^item> Components: overlap of resources is a shared path; normalisation is exact and idempotent; receipts
    move forward only; decision groups are connected components, each field of a status is what the
    decisions say, and the inbox computes the global status from the part it reads; pages of messages are complete and end; a retried finish reads back
    what the first returned; pruning leaves no dangling reference and trimming no silent gap; the status,
    the attention list and the write guard agree with their definitions.
  \<^item> Faults, each a theorem with a concrete run: a reader of the log that is given a part of a
    transaction, because it found the pointer idle just before; a claim on the whole workspace that covers nothing; a
    reclaimer of the lock that evicts its successor; a trimmed log reported as corrupt; a pruned session a
    kept message names; a record put and loaded in one transaction that its index misses.

  \<^bold>\<open>Interfaces.\<close> Locales state the contracts components share: what redoing the publications of a journal
  leaves (\<open>redo\<close>), an order in which the records of a kind move (\<open>record_order\<close>), and a radix tree over
  the content of pages (\<open>radix_pages\<close>). Each is interpreted on the definitions of the model.

  \<^bold>\<open>Parameters and hypotheses.\<close> What the sources take from outside is an argument of the definitions.
  Digests: \<open>checksum\<close> and \<open>sha\<close>, of which is used that they are 64 hexadecimal digits and that the
  pages, records or identifiers at hand do not collide; two tuples may. Identifiers come from a source
  indexed by how many were issued. Clocks are numbers in milliseconds. Identifiers in an index are at
  most 170 characters where the byte limit of a page matters. Record kinds, limits and texts are those of
  the sources.

  The clock of the machine is one for all its processes and never goes back, and no live writer takes
  longer than \<open>WRITE_MS\<close> under the lock (\<open>Writer_Mutex\<close>), which the code relies on and does not check.
  The listing of a directory is taken at one moment, and a file is read whole or not at all.

  \<^bold>\<open>Bounds.\<close> Most loops recurse structurally or on a measure, among them the pages not yet seen for the
  walks of an index, the digits left of a digest, and the files left to process. A few take fuel that is
  proved to be enough: the walk over a decision group takes the number of decisions, and that over the
  decisions of an inbox the number of records, each of which is visited once; following the cursors of
  message pages takes one turn more than there are messages, and reading all events one turn more than
  there are events, as each page that is not empty moves the cursor. Sequences are numbers checked
  against the largest safe integer where the code checks them.

  \<^bold>\<open>Not modelled.\<close> Deadlines, by which a call may give up before it decides, and diagnostics. The
  bytes of records and journal entries (pages of an index are modelled to their text). Temporary files
  and stages beside a published file, their sweeping, store migration and the reclaiming of old cache
  pages, whose effect on the index is the loss of pages that \<open>Index_History\<close> allows at any point.
  The Windows release of the lock by its owner record. Offer times in forms the services do not write
  (\<^verbatim>\<open>Date.parse\<close> reads more). The command line, the installer, the hook runner, the delivery router, the
  MCP server and the adapters: they render texts, edit configuration files, start processes and speak to
  third-party clients, whose behaviour is not in the repository, and reach the shared state only through
  the services modelled here.
\<close>

end
